(* ===== verification/AG_Prelude.thy ===== *)
theory AG_Prelude
  imports Main "HOL-Library.Word"
begin

text \<open>
  Shared material of the AarchGate development: the machine integer types of the C and C++
  sources, the part of \<open>std::string\<close> the sources use (searching, prefixes, substrings,
  C strings in fixed \<open>char\<close> arrays), population count, little-endian byte images of
  integers, and the collections of simplification facts the component theories extend.
\<close>

unbundle bit_operations_syntax

named_theorems ag_defs \<open>definitions of the model that a proof may unfold together\<close>
named_theorems ag_inv \<open>preservation facts: an operation keeps an invariant\<close>

type_synonym u8 = "8 word"
type_synonym u16 = "16 word"
type_synonym u32 = "32 word"
type_synonym u64 = "64 word"

section \<open>Strings\<close>

text \<open>
  \<open>std::string::find (pat, 0)\<close>: the least index at which \<open>pat\<close> occurs, \<open>None\<close> for
  \<open>npos\<close>; \<open>find_from\<close> starts at a position, \<open>rfind_char\<close> is the last
  position of a character.
\<close>

fun find_sub :: "string \<Rightarrow> string \<Rightarrow> nat option" where
  "find_sub pat [] = (if pat = [] then Some 0 else None)"
| "find_sub pat (c # cs) =
     (if take (length pat) (c # cs) = pat then Some 0 else map_option Suc (find_sub pat cs))"

definition find_from :: "string \<Rightarrow> string \<Rightarrow> nat \<Rightarrow> nat option" where
  "find_from pat s pos =
     (if length s < pos then None else map_option (\<lambda>i. pos + i) (find_sub pat (drop pos s)))"

fun find_char :: "char \<Rightarrow> string \<Rightarrow> nat option" where
  "find_char c [] = None"
| "find_char c (d # ds) = (if c = d then Some 0 else map_option Suc (find_char c ds))"

fun rfind_char :: "char \<Rightarrow> string \<Rightarrow> nat option" where
  "rfind_char c [] = None"
| "rfind_char c (d # ds) =
     (case rfind_char c ds of Some i \<Rightarrow> Some (Suc i) | None \<Rightarrow> if c = d then Some 0 else None)"

text \<open>The position of an element in a list.\<close>

fun find_index_of :: "'a list \<Rightarrow> 'a \<Rightarrow> nat option" where
  "find_index_of [] x = None"
| "find_index_of (y # ys) x = (if x = y then Some 0 else map_option Suc (find_index_of ys x))"

text \<open>\<open>s.find(pat) != npos\<close> and \<open>s.rfind(pat, 0) == 0\<close>.\<close>

definition has_sub :: "string \<Rightarrow> string \<Rightarrow> bool" where
  "has_sub s pat \<longleftrightarrow> find_sub pat s \<noteq> None"

definition starts_with :: "string \<Rightarrow> string \<Rightarrow> bool" where
  "starts_with s pat \<longleftrightarrow> take (length pat) s = pat"

text \<open>\<open>s.substr(pos, n)\<close> for \<open>pos \<le> s.size()\<close>, and \<open>s.substr(pos)\<close>.\<close>

definition substr :: "string \<Rightarrow> nat \<Rightarrow> nat \<Rightarrow> string" where
  "substr s pos n = take n (drop pos s)"

text \<open>A \<open>std::string\<close> built from a \<open>char\<close> array stops at the first NUL.\<close>

definition c_str :: "char list \<Rightarrow> string" where
  "c_str cs = takeWhile (\<lambda>c. c \<noteq> CHR 0x00) cs"

text \<open>
  \<open>strncpy(dst, src, n)\<close> into a zeroed array of \<open>n\<close> bytes: the source up to its NUL,
  cut at \<open>n\<close>, padded with NUL.
\<close>

definition strncpy :: "nat \<Rightarrow> char list \<Rightarrow> char list" where
  "strncpy n src = (let s = take n (c_str src) in s @ replicate (n - length s) (CHR 0x00))"

lemma find_sub_Some:
  "find_sub pat s = Some i \<Longrightarrow> i + length pat \<le> length s \<and> take (length pat) (drop i s) = pat"
proof (induction pat s arbitrary: i rule: find_sub.induct)
  case (2 pat c cs)
  show ?case
  proof (cases "take (length pat) (c # cs) = pat")
    case True
    with "2.prems" have "i = 0" by simp
    moreover have "length pat \<le> length (c # cs)"
      using arg_cong [OF True, of length] by simp
    ultimately show ?thesis using True by simp
  next
    case False
    with "2.prems" obtain j where "find_sub pat cs = Some j" "i = Suc j" by auto
    with "2.IH" [OF False] show ?thesis by fastforce
  qed
qed (simp split: if_splits)

lemma find_sub_None_iff: "find_sub pat s = None \<longleftrightarrow> (\<forall>xs ys. s \<noteq> xs @ pat @ ys)"
proof (induction pat s rule: find_sub.induct)
  case (2 pat c cs)
  have step: "(\<exists>xs ys. c # cs = xs @ pat @ ys) \<longleftrightarrow>
      take (length pat) (c # cs) = pat \<or> (\<exists>xs ys. cs = xs @ pat @ ys)" (is "?L \<longleftrightarrow> ?P \<or> ?R")
  proof
    assume ?L
    then obtain xs ys where e: "c # cs = xs @ pat @ ys" by blast
    show "?P \<or> ?R" using e by (cases xs) auto
  next
    assume "?P \<or> ?R"
    then show ?L
    proof
      assume ?P
      then have "c # cs = [] @ pat @ drop (length pat) (c # cs)"
        by (metis append_Nil append_take_drop_id)
      then show ?L by blast
    next
      assume ?R
      then obtain xs ys where "cs = xs @ pat @ ys" by blast
      then have "c # cs = (c # xs) @ pat @ ys" by simp
      then show ?L by blast
    qed
  qed
  show ?case
  proof (cases "take (length pat) (c # cs) = pat")
    case True
    then show ?thesis using step by auto
  next
    case False
    then show ?thesis using step "2.IH" by auto
  qed
qed auto

text \<open>\<open>has_sub\<close> is the substring relation.\<close>

lemma has_sub_iff: "has_sub s pat \<longleftrightarrow> (\<exists>xs ys. s = xs @ pat @ ys)"
  using find_sub_None_iff [of pat s] by (auto simp: has_sub_def)

lemma has_sub_append [intro]: "has_sub s pat \<Longrightarrow> has_sub (xs @ s @ ys) pat"
  unfolding has_sub_iff by (metis append.assoc)

lemma has_sub_trans: "has_sub s mid \<Longrightarrow> has_sub mid pat \<Longrightarrow> has_sub s pat"
  unfolding has_sub_iff by (metis append.assoc)

lemma starts_with_iff: "starts_with s pat \<longleftrightarrow> (\<exists>ys. s = pat @ ys)"
  unfolding starts_with_def by (metis append_take_drop_id append_eq_conv_conj)

lemma starts_with_has_sub: "starts_with s pat \<Longrightarrow> has_sub s pat"
  unfolding starts_with_iff has_sub_iff by (metis append_Nil)

lemma length_strncpy [simp]: "length (strncpy n src) = n"
  by (simp add: strncpy_def Let_def)

lemma takeWhile_nul_pad:
  "(\<And>c. c \<in> set s \<Longrightarrow> c \<noteq> CHR 0x00) \<Longrightarrow>
   takeWhile (\<lambda>c. c \<noteq> CHR 0x00) (s @ replicate k (CHR 0x00)) = s"
  by (induction s) (cases k, auto)

lemma c_str_no_nul: "c \<in> set (c_str s) \<Longrightarrow> c \<noteq> CHR 0x00"
  by (auto simp: c_str_def dest: set_takeWhileD)

lemma c_str_strncpy: "c_str (strncpy n src) = take n (c_str src)"
  unfolding strncpy_def Let_def
  by (subst c_str_def) (rule takeWhile_nul_pad, auto dest: in_set_takeD c_str_no_nul)

lemma c_str_strncpy_short: "length (c_str src) \<le> n \<Longrightarrow> c_str (strncpy n src) = c_str src"
  by (simp add: c_str_strncpy)

lemma find_index_of_Some: "find_index_of xs x = Some i \<Longrightarrow> i < length xs \<and> xs ! i = x"
  by (induction xs arbitrary: i) (auto split: if_splits)

lemma find_index_of_None: "find_index_of xs x = None \<longleftrightarrow> x \<notin> set xs"
  by (induction xs) auto

section \<open>Words\<close>

text \<open>\<open>__builtin_popcountll\<close>: the number of set bits.\<close>

definition popcount :: "u64 \<Rightarrow> nat" where
  "popcount w = length (filter (bit w) [0..<64])"

text \<open>\<open>(1ULL << n) - 1\<close> for \<open>n < 64\<close> and \<open>~0ULL\<close> for 64: the mask of the first rows.\<close>

definition rows_mask :: "nat \<Rightarrow> u64" where
  "rows_mask n = (if n = 64 then NOT 0 else push_bit n 1 - 1)"

lemma popcount_le: "popcount w \<le> 64"
  unfolding popcount_def by (rule order_trans [OF length_filter_le]) simp

lemma popcount_0 [simp]: "popcount 0 = 0"
  by (simp add: popcount_def)

lemma popcount_card: "popcount w = card {i. i < 64 \<and> bit w i}"
proof -
  have "popcount w = card (set (filter (bit w) [0..<64]))"
    unfolding popcount_def by (subst distinct_card) auto
  also have "set (filter (bit w) [0..<64]) = {i. i < 64 \<and> bit w i}" by auto
  finally show ?thesis .
qed

lemma bit_rows_mask: "n \<le> 64 \<Longrightarrow> bit (rows_mask n) i \<longleftrightarrow> i < n"
proof (cases "n = 64")
  case True
  then show ?thesis by (auto simp: rows_mask_def bit_not_iff dest: bit_imp_le_length)
next
  case False
  assume "n \<le> 64"
  with False have "n < 64" by simp
  have "rows_mask n = mask n"
    using False by (simp add: rows_mask_def mask_eq_exp_minus_1 push_bit_of_1)
  with \<open>n < 64\<close> show ?thesis by (auto simp: bit_mask_iff)
qed

lemma unat_succ_of_less:
  fixes r w :: "'a :: len word"
  assumes "r < w"
  shows "unat (r + 1) = Suc (unat r)"
proof -
  have "unat r < unat w" using assms by (simp add: word_less_nat_alt)
  moreover have "unat w < 2 ^ LENGTH('a)" by (rule unsigned_less)
  ultimately have "Suc (unat r) < 2 ^ LENGTH('a)" by linarith
  then show ?thesis by (simp add: unat_word_ariths)
qed

lemma word_bit_eqI: "(\<And>i. i < LENGTH('a) \<Longrightarrow> bit a i = bit b i) \<Longrightarrow> a = (b :: 'a :: len word)"
  by (rule bit_word_eqI) blast

section \<open>Text files\<close>

abbreviation dq :: char where "dq \<equiv> CHR 0x22"

text \<open>\<open>operator<<\<close> of an unsigned integer; \<open>std::stoull\<close> of a string of digits.\<close>

fun decimal :: "nat \<Rightarrow> string" where
  "decimal n = (if n < 10 then [char_of (48 + n)] else decimal (n div 10) @ [char_of (48 + n mod 10)])"

declare decimal.simps [simp del]

definition is_digit :: "char \<Rightarrow> bool" where
  "is_digit c \<longleftrightarrow> 48 \<le> (of_char c :: nat) \<and> (of_char c :: nat) \<le> 57"

definition digits_value :: "string \<Rightarrow> nat" where
  "digits_value s = foldl (\<lambda>n c. 10 * n + (of_char c - 48)) 0 s"

definition is_space :: "char \<Rightarrow> bool" where
  "is_space c \<longleftrightarrow> c = CHR 0x20 \<or> 9 \<le> (of_char c :: nat) \<and> (of_char c :: nat) \<le> 13"

text \<open>
  The value of the leading digits, after white space and an optional sign, a minus sign negating
  modulo \<open>2 ^ 64\<close>; \<open>None\<close> where \<open>stoull\<close> throws (no digit, or out of range).
\<close>

definition stoull :: "string \<Rightarrow> u64 option" where
  "stoull s =
     (let s = dropWhile is_space s;
          neg = (take 1 s = ''-'');
          ds = takeWhile is_digit (if take 1 s \<in> {''-'', ''+''} then drop 1 s else s);
          v = digits_value ds
      in if ds = [] \<or> 2 ^ 64 \<le> v then None else Some (if neg then - of_nat v else of_nat v))"

lemma decimal_digits: "list_all is_digit (decimal n) \<and> decimal n \<noteq> [] \<and> digits_value (decimal n) = n"
proof (induction n rule: decimal.induct)
  case (1 n)
  have d: "is_digit (char_of (48 + k :: nat))" "of_char (char_of (48 + k :: nat)) - 48 = k" if "k < 10" for k
    using that by (simp_all add: is_digit_def)
  show ?case
  proof (cases "n < 10")
    case True
    then show ?thesis using d [of n] by (subst (1 2 3) decimal.simps) (simp add: digits_value_def)
  next
    case False
    then show ?thesis using 1 d [of "n mod 10"] by (subst (1 2 3) decimal.simps) (simp add: digits_value_def)
  qed
qed

lemma stoull_digits:
  assumes "list_all is_digit ds" and "ds \<noteq> []" and "digits_value ds < 2 ^ 64"
  shows "stoull ds = Some (of_nat (digits_value ds))"
proof -
  obtain c cs where ds: "ds = c # cs" using assms(2) by (cases ds) auto
  then have c: "is_digit c" using assms(1) by simp
  then have n: "\<not> is_space c" "c \<noteq> CHR ''-''" "c \<noteq> CHR ''+''" by (auto simp: is_digit_def is_space_def)
  have "takeWhile is_digit ds = ds" using assms(1) by (simp add: list_all_iff)
  then show ?thesis using ds n assms(3) by (simp add: stoull_def)
qed

lemma stoull_decimal: "stoull (decimal (unat w)) = Some w"
proof -
  have "unat w < 2 ^ LENGTH(64)" by (rule unsigned_less)
  then show ?thesis using decimal_digits [of "unat w"] stoull_digits [of "decimal (unat w)"] by simp
qed

text \<open>\<open>std::getline\<close> until the stream is exhausted: the lines of a file.\<close>

fun getlines_aux :: "string \<Rightarrow> string \<Rightarrow> string list" where
  "getlines_aux acc [] = (if acc = [] then [] else [acc])"
| "getlines_aux acc (c # cs) = (if c = CHR 0x0A then acc # getlines_aux [] cs else getlines_aux (acc @ [c]) cs)"

definition getlines :: "string \<Rightarrow> string list" where
  "getlines s = getlines_aux [] s"

lemma getlines_aux_line: "CHR 0x0A \<notin> set l \<Longrightarrow> getlines_aux acc (l @ CHR 0x0A # rest) = (acc @ l) # getlines_aux [] rest"
  by (induction l arbitrary: acc) auto

lemma getlines_append: "CHR 0x0A \<notin> set l \<Longrightarrow> getlines (l @ CHR 0x0A # rest) = l # getlines rest"
  by (simp add: getlines_def getlines_aux_line)

lemma getlines_concat:
  "(\<forall>l \<in> set ls. CHR 0x0A \<notin> set l) \<Longrightarrow> getlines (concat (map (\<lambda>l. l @ [CHR 0x0A]) ls)) = ls"
  by (induction ls) (simp_all add: getlines_append, simp add: getlines_def)

lemma getlines_aux_last: "CHR 0x0A \<notin> set l \<Longrightarrow> getlines_aux acc l = (if acc @ l = [] then [] else [acc @ l])"
  by (induction l arbitrary: acc) auto

lemma getlines_concat_rest:
  "(\<forall>l \<in> set ls. CHR 0x0A \<notin> set l) \<Longrightarrow> CHR 0x0A \<notin> set rest \<Longrightarrow>
   getlines (concat (map (\<lambda>l. l @ [CHR 0x0A]) ls) @ rest) = ls @ (if rest = [] then [] else [rest])"
  by (induction ls) (simp_all add: getlines_append, simp add: getlines_def getlines_aux_last)

text \<open>Searching for a string that begins with a character the text before it does not contain.\<close>

lemma find_sub_skip: "q \<notin> set s \<Longrightarrow> find_sub (q # p) (s @ r) = map_option (\<lambda>i. length s + i) (find_sub (q # p) r)"
proof (induction s)
  case (Cons c s)
  then show ?case by (cases "find_sub (q # p) r") auto
qed (cases "find_sub (q # p) r"; simp)

lemma prefix_quoted:
  "q \<notin> set w \<Longrightarrow> q \<notin> set x \<Longrightarrow> take (length w + Suc n) (x @ q # r) = w @ q # t \<longleftrightarrow> x = w \<and> take n r = t"
proof (induction w arbitrary: x)
  case Nil
  then show ?case by (cases x) auto
next
  case (Cons c w)
  then show ?case by (cases x) auto
qed

lemma prefix_open: "q \<notin> set w \<Longrightarrow> take (length w) (x @ q # r) = w \<longleftrightarrow> take (length w) x = w"
proof (induction w arbitrary: x)
  case (Cons c w)
  then show ?case by (cases x) auto
qed simp

text \<open>
  Searching a line of quoted strings: a pattern that is a quoted string followed by \<open>t\<close>, and a pattern that
  only opens a quoted string.
\<close>

lemma find_quoted:
  assumes "q \<notin> set w" and "q \<notin> set x"
  shows "find_sub (q # w @ q # t) (q # x @ q # r) =
    (if x = w \<and> take (length t) r = t then Some 0 else map_option (\<lambda>i. Suc (length x + i)) (find_sub (q # w @ q # t) (q # r)))"
proof -
  have "take (length (q # w @ q # t)) (q # x @ q # r) = q # w @ q # t \<longleftrightarrow> x = w \<and> take (length t) r = t"
    using prefix_quoted [OF assms, of "length t" r t] by simp
  then show ?thesis using find_sub_skip [OF assms(2), of "w @ q # t" "q # r"]
    by (simp add: option.map_comp comp_def)
qed

lemma find_quoted_last:
  assumes "q \<notin> set r"
  shows "find_sub (q # w @ q # t) (q # r) = None"
proof -
  have "take (Suc (length w + length t)) r \<noteq> w @ q # t" using assms by (metis in_set_conv_decomp in_set_takeD)
  then show ?thesis using find_sub_skip [OF assms, of "w @ q # t" "[]"] by simp
qed

lemma find_open:
  assumes "q \<notin> set w" and "q \<notin> set x"
  shows "find_sub (q # w) (q # x @ q # r) =
    (if starts_with x w then Some 0 else map_option (\<lambda>i. Suc (length x + i)) (find_sub (q # w) (q # r)))"
  using find_sub_skip [OF assms(2), of w "q # r"] prefix_open [OF assms(1), of x r]
  by (simp add: option.map_comp comp_def starts_with_def)

lemma find_open_last:
  assumes "q \<notin> set r" and "\<not> starts_with r w"
  shows "find_sub (q # w) (q # r) = None"
  using find_sub_skip [OF assms(1), of w "[]"] assms(2) by (simp add: starts_with_def)

lemma find_sub_prefix: "starts_with s p \<Longrightarrow> find_sub p s = Some 0"
  by (cases s) (simp_all add: starts_with_def)

lemma starts_with_append [simp]: "starts_with (p @ s) p"
  by (simp add: starts_with_def)

lemma starts_with_short: "length s < length p \<Longrightarrow> \<not> starts_with s p"
  by (metis length_append not_add_less1 starts_with_iff)

section \<open>Loops that may fail\<close>

fun fold_option :: "('a \<Rightarrow> 'b \<Rightarrow> 'b option) \<Rightarrow> 'a list \<Rightarrow> 'b \<Rightarrow> 'b option" where
  "fold_option f [] b = Some b"
| "fold_option f (x # xs) b = (case f x b of None \<Rightarrow> None | Some b \<Rightarrow> fold_option f xs b)"

lemma fold_option_cong [fundef_cong]:
  "xs = ys \<Longrightarrow> b = c \<Longrightarrow> (\<And>x b. x \<in> set ys \<Longrightarrow> f x b = g x b) \<Longrightarrow> fold_option f xs b = fold_option g ys c"
  by (induction ys arbitrary: xs b c) (auto split: option.splits)

text \<open>The rule for such a loop: an invariant that every iteration establishes again.\<close>

lemma fold_option_invariant:
  assumes "P [] b" and "\<And>ys x zs b. xs = ys @ x # zs \<Longrightarrow> P ys b \<Longrightarrow> \<exists>b'. f x b = Some b' \<and> P (ys @ [x]) b'"
  shows "\<exists>b'. fold_option f xs b = Some b' \<and> P xs b'"
proof -
  have "xs = ys @ zs \<Longrightarrow> P ys b \<Longrightarrow> \<exists>b'. fold_option f zs b = Some b' \<and> P xs b'" for ys zs b
  proof (induction zs arbitrary: ys b)
    case (Cons z zs)
    then obtain b' where "f z b = Some b'" "P (ys @ [z]) b'" using assms(2) by blast
    with Cons.IH [of "ys @ [z]" b'] Cons.prems show ?case by simp
  qed simp
  from this [of "[]" xs] assms(1) show ?thesis by simp
qed

section \<open>Counting over the threads of a pool\<close>

lemma sum_list_map_update:
  fixes f :: "'a \<Rightarrow> nat"
  assumes "w < length xs"
  shows "sum_list (map f (xs[w := y])) + f (xs ! w) = sum_list (map f xs) + f y"
  using assms
proof (induction xs arbitrary: w)
  case (Cons x xs)
  then show ?case by (cases w) (auto simp: add.assoc)
qed simp

text \<open>A step relation in which a weight decreases on the reachable states has a maximal run.\<close>

lemma maximal_run:
  fixes weight :: "'s \<Rightarrow> nat"
  assumes "\<And>s s'. step\<^sup>*\<^sup>* s0 s \<Longrightarrow> step s s' \<Longrightarrow> weight s' < weight s"
  shows "\<exists>s. step\<^sup>*\<^sup>* s0 s \<and> (\<nexists>s'. step s s')"
proof -
  have "step\<^sup>*\<^sup>* s0 s \<Longrightarrow> \<exists>s. step\<^sup>*\<^sup>* s0 s \<and> (\<nexists>s'. step s s')" for s
  proof (induction "weight s" arbitrary: s rule: less_induct)
    case less
    show ?case
    proof (cases "\<exists>s'. step s s'")
      case True
      then obtain s' where "step s s'" by blast
      then show ?thesis using less.hyps [OF assms] less.prems by (meson rtranclp.rtrancl_into_rtrancl)
    qed (use less.prems in blast)
  qed
  from this [of s0] show ?thesis by simp
qed

end
