(* ===== verification/Telemetry.thy ===== *)
theory Telemetry
  imports AG_Prelude
begin

text \<open>
  The telemetry data types and the shared-memory ring between the daemon and the monitor
  (\<open>common/vsock_protocol.h\<close>, \<open>common/monitor_protocol.h\<close>). The named POSIX
  shared-memory object is an optional buffer: \<open>None\<close> before any process created it. A
  publisher or subscriber that could not map it is not connected. The locale
  \<open>broadcast_channel\<close> is the contract the monitor relies on; the ring is an
  interpretation of it.
\<close>

section \<open>Event types\<close>

definition EVENT_EXEC :: u64 where "EVENT_EXEC = 1"
definition EVENT_OPEN :: u64 where "EVENT_OPEN = 2"
definition EVENT_CONNECT :: u64 where "EVENT_CONNECT = 3"
definition EVENT_FORK :: u64 where "EVENT_FORK = 4"
definition EVENT_MTE_TRAP :: u64 where "EVENT_MTE_TRAP = 5"
definition EVENT_VM_STATE_CHANGE :: u64 where "EVENT_VM_STATE_CHANGE = 6"

lemmas event_type_defs = EVENT_EXEC_def EVENT_OPEN_def EVENT_CONNECT_def EVENT_FORK_def
  EVENT_MTE_TRAP_def EVENT_VM_STATE_CHANGE_def

lemma event_types_distinct [simp]:
  "EVENT_OPEN \<noteq> EVENT_EXEC" "EVENT_CONNECT \<noteq> EVENT_EXEC" "EVENT_CONNECT \<noteq> EVENT_OPEN"
  "EVENT_EXEC \<noteq> EVENT_OPEN" "EVENT_EXEC \<noteq> EVENT_CONNECT" "EVENT_OPEN \<noteq> EVENT_CONNECT"
  "EVENT_FORK \<noteq> EVENT_EXEC" "EVENT_FORK \<noteq> EVENT_OPEN" "EVENT_FORK \<noteq> EVENT_CONNECT"
  "EVENT_OPEN \<noteq> EVENT_FORK" "EVENT_CONNECT \<noteq> EVENT_FORK" "EVENT_EXEC \<noteq> EVENT_FORK"
  "EVENT_VM_STATE_CHANGE \<noteq> EVENT_OPEN" "EVENT_VM_STATE_CHANGE \<noteq> EVENT_CONNECT"
  "EVENT_OPEN \<noteq> EVENT_VM_STATE_CHANGE" "EVENT_CONNECT \<noteq> EVENT_VM_STATE_CHANGE"
  by (simp_all add: event_type_defs)

record SyscallEvent =
  se_timestamp_ns :: u64
  se_pid :: u64
  se_ppid :: u64
  se_event_type :: u64
  se_comm :: "char list"
  se_arg_str :: "char list"
  se_ip_address :: u32
  se_port :: u16
  se_padding :: "u8 list"

record MonitorEvent =
  me_timestamp_ns :: u64
  me_pid :: u64
  me_ppid :: u64
  me_event_type :: u64
  me_comm :: "char list"
  me_arg_str :: "char list"
  me_ip_address :: u32
  me_port :: u16
  me_is_preinstall :: u8
  me_is_sensitive :: u8
  me_is_unauthorized :: u8
  me_vm_running :: u8
  me_padding :: "u8 list"

text \<open>\<open>MonitorEvent mon_ev{}\<close>: every byte zero.\<close>

definition zero_MonitorEvent :: MonitorEvent where
  "zero_MonitorEvent =
     \<lparr>me_timestamp_ns = 0, me_pid = 0, me_ppid = 0, me_event_type = 0,
      me_comm = replicate 32 (CHR 0x00), me_arg_str = replicate 256 (CHR 0x00),
      me_ip_address = 0, me_port = 0, me_is_preinstall = 0, me_is_sensitive = 0,
      me_is_unauthorized = 0, me_vm_running = 0, me_padding = replicate 4 0\<rparr>"

section \<open>The shared ring\<close>

definition AARCHGATE_RING_CAPACITY :: nat where "AARCHGATE_RING_CAPACITY = 256"

record MonitorSharedBuffer =
  write_index :: u64
  read_index :: u64
  ring :: "MonitorEvent list"

text \<open>What \<open>ftruncate\<close> leaves in a new object: zero bytes.\<close>

definition fresh_buffer :: MonitorSharedBuffer where
  "fresh_buffer =
     \<lparr>write_index = 0, read_index = 0,
      ring = replicate AARCHGATE_RING_CAPACITY zero_MonitorEvent\<rparr>"

record SharedMemoryPublisher =
  pub_connected :: bool

record SharedMemorySubscriber =
  sub_connected :: bool
  local_read_index :: u64

text \<open>
  The constructors. \<open>open_ok\<close> is the outcome of \<open>shm_open\<close> for the publisher,
  which creates a missing object; the subscriber opens an existing object only.
\<close>

definition SharedMemoryPublisher_new ::
  "bool \<Rightarrow> MonitorSharedBuffer option \<Rightarrow> SharedMemoryPublisher \<times> MonitorSharedBuffer option" where
  "SharedMemoryPublisher_new open_ok shm =
     (if open_ok
      then (\<lparr>pub_connected = True\<rparr>,
            Some (case shm of None \<Rightarrow> fresh_buffer | Some b \<Rightarrow> b))
      else (\<lparr>pub_connected = False\<rparr>, shm))"

definition SharedMemorySubscriber_new ::
  "MonitorSharedBuffer option \<Rightarrow> SharedMemorySubscriber" where
  "SharedMemorySubscriber_new shm = \<lparr>sub_connected = (shm \<noteq> None), local_read_index = 0\<rparr>"

text \<open>
  \<open>publish\<close> is two memory operations: the atomic \<open>fetch_add\<close> that reserves a slot
  and the plain store into it. They are separate definitions because another process can run
  between them.
\<close>

definition publish_reserve :: "MonitorSharedBuffer \<Rightarrow> nat \<times> MonitorSharedBuffer" where
  "publish_reserve b =
     (unat (write_index b) mod AARCHGATE_RING_CAPACITY, b\<lparr>write_index := write_index b + 1\<rparr>)"

definition publish_store :: "nat \<Rightarrow> MonitorEvent \<Rightarrow> MonitorSharedBuffer \<Rightarrow> MonitorSharedBuffer" where
  "publish_store idx e b = b\<lparr>ring := (ring b)[idx := e]\<rparr>"

definition publish_buf :: "MonitorEvent \<Rightarrow> MonitorSharedBuffer \<Rightarrow> MonitorSharedBuffer" where
  "publish_buf e b = (case publish_reserve b of (idx, b') \<Rightarrow> publish_store idx e b')"

definition publish ::
  "SharedMemoryPublisher \<Rightarrow> MonitorEvent \<Rightarrow> MonitorSharedBuffer option \<Rightarrow> MonitorSharedBuffer option" where
  "publish p e shm = (if \<not> pub_connected p then shm else map_option (publish_buf e) shm)"

text \<open>The slot a subscriber at index \<open>r\<close> reads, if the write index is past it.\<close>

definition read_slot :: "MonitorSharedBuffer \<Rightarrow> u64 \<Rightarrow> MonitorEvent option" where
  "read_slot b r =
     (if r < write_index b then Some (ring b ! (unat r mod AARCHGATE_RING_CAPACITY)) else None)"

definition pop ::
  "MonitorSharedBuffer option \<Rightarrow> SharedMemorySubscriber \<Rightarrow> MonitorEvent option \<times> SharedMemorySubscriber" where
  "pop shm s =
     (let s' = (if sub_connected s then s else s\<lparr>sub_connected := (shm \<noteq> None)\<rparr>)
      in if \<not> sub_connected s' then (None, s')
         else case shm of
           None \<Rightarrow> (None, s')
         | Some b \<Rightarrow>
             (case read_slot b (local_read_index s') of
                None \<Rightarrow> (None, s')
              | Some e \<Rightarrow> (Some e, s'\<lparr>local_read_index := local_read_index s' + 1\<rparr>)))"

text \<open>
  \<open>while (subscriber.pop(ev)) \<dots>\<close> against a buffer that does not change meanwhile: the
  events read, in order, and the subscriber after the loop. The distance of the read index from the
  write index decreases, so the loop stops.
\<close>

function drain_from :: "MonitorSharedBuffer \<Rightarrow> u64 \<Rightarrow> MonitorEvent list \<times> u64" where
  "drain_from b r =
     (case read_slot b r of
        None \<Rightarrow> ([], r)
      | Some e \<Rightarrow> (case drain_from b (r + 1) of (es, r') \<Rightarrow> (e # es, r')))"
  by pat_completeness auto
termination
proof (relation "measure (\<lambda>(b, r). unat (write_index b) - unat r)")
  fix b r e
  assume "read_slot b r = Some e"
  then have "r < write_index b" by (simp add: read_slot_def split: if_splits)
  moreover from this have "unat (r + 1) = Suc (unat r)"
    by (rule unat_succ_of_less)
  ultimately show "((b, r + 1), (b, r)) \<in> measure (\<lambda>(b, r). unat (write_index b) - unat r)"
    by (simp add: word_less_nat_alt)
qed simp

declare drain_from.simps [simp del]

section \<open>The channel contract\<close>

text \<open>
  A broadcast channel of capacity \<open>cap\<close>: \<open>chan H b\<close> says that the buffer \<open>b\<close>
  is what publishing the history \<open>H\<close> leaves. A reader whose index is within \<open>cap\<close>
  of the end reads the history at that index.
\<close>

locale broadcast_channel =
  fixes pub :: "'e \<Rightarrow> 'b \<Rightarrow> 'b"
    and rd :: "'b \<Rightarrow> nat \<Rightarrow> 'e option"
    and chan :: "'e list \<Rightarrow> 'b \<Rightarrow> bool"
    and cap :: nat
    and bound :: nat
  assumes chan_pub: "chan H b \<Longrightarrow> chan (H @ [e]) (pub e b)"
    and rd_in: "chan H b \<Longrightarrow> length H < bound \<Longrightarrow> r < length H \<Longrightarrow> length H \<le> r + cap \<Longrightarrow>
        rd b r = Some (H ! r)"
    and rd_lap: "chan H b \<Longrightarrow> length H < bound \<Longrightarrow> r + cap < length H \<Longrightarrow>
        rd b r = rd b (r + cap)"
    and rd_end: "chan H b \<Longrightarrow> length H < bound \<Longrightarrow> length H \<le> r \<Longrightarrow> r < bound \<Longrightarrow> rd b r = None"
    and cap_pos: "0 < cap"
begin

lemma chan_pub_all: "chan H b \<Longrightarrow> chan (H @ es) (fold pub es b)"
proof (induction es arbitrary: H b)
  case (Cons e es)
  then have "chan (H @ [e]) (pub e b)" by (simp add: chan_pub)
  then have "chan ((H @ [e]) @ es) (fold pub es (pub e b))" by (rule Cons.IH)
  then show ?case by simp
qed simp

text \<open>A reader that was lapped reads the newest event that shares its slot.\<close>

lemma rd_lapped:
  assumes "chan H b" and "length H < bound" and "r < length H"
  shows "rd b r = Some (H ! (r + cap * ((length H - 1 - r) div cap)))"
proof -
  have "\<forall>r. (length H - 1 - r) div cap = k \<longrightarrow> r < length H \<longrightarrow>
        rd b r = Some (H ! (r + cap * k))" for k
  proof (induction k)
    case 0
    have "length H \<le> r + cap" if "(length H - 1 - r) div cap = 0" "r < length H" for r
      using that cap_pos by (simp add: div_eq_0_iff)
    with rd_in [OF assms(1,2)] show ?case by auto
  next
    case (Suc k)
    have "rd b r = Some (H ! (r + cap * Suc k))"
      if h: "(length H - 1 - r) div cap = Suc k" "r < length H" for r
    proof -
      from h(1) cap_pos have le: "cap \<le> length H - 1 - r"
        by (metis div_less nat.distinct(1) not_less)
      from h(1) le cap_pos have "(length H - 1 - (r + cap)) div cap = k"
        by (metis Suc_eq_plus1 diff_diff_left le_div_geq diff_Suc_1)
      moreover from le h(2) cap_pos have lap: "r + cap < length H" by linarith
      ultimately have "rd b (r + cap) = Some (H ! (r + cap + cap * k))" using Suc by blast
      with rd_lap [OF assms(1,2) lap] show ?thesis by (simp add: add.assoc)
    qed
    then show ?case by blast
  qed
  with assms(3) show ?thesis by blast
qed

end

text \<open>The buffer after a history: the last \<open>256\<close> events stand at their slots.\<close>

definition ring_holds :: "MonitorEvent list \<Rightarrow> MonitorSharedBuffer \<Rightarrow> bool" where
  "ring_holds H b \<longleftrightarrow>
     length (ring b) = AARCHGATE_RING_CAPACITY \<and> write_index b = of_nat (length H) \<and>
     (\<forall>j < length H. length H \<le> j + AARCHGATE_RING_CAPACITY \<longrightarrow>
        ring b ! (j mod AARCHGATE_RING_CAPACITY) = H ! j)"

lemma unat_of_nat_mod_ring: "unat (of_nat n :: u64) mod AARCHGATE_RING_CAPACITY = n mod AARCHGATE_RING_CAPACITY"
  by (simp add: unat_of_nat AARCHGATE_RING_CAPACITY_def mod_mod_cancel)

lemma fresh_buffer_holds: "ring_holds [] fresh_buffer"
  by (simp add: ring_holds_def fresh_buffer_def)

lemma publish_buf_eq:
  "publish_buf e b =
     b\<lparr>write_index := write_index b + 1,
       ring := (ring b)[unat (write_index b) mod AARCHGATE_RING_CAPACITY := e]\<rparr>"
  by (simp add: publish_buf_def publish_reserve_def publish_store_def)

lemma mod_ne_within:
  assumes "j < n" and "n < j + c"
  shows "j mod c \<noteq> n mod (c :: nat)"
proof
  assume "j mod c = n mod c"
  then have "n - j = c * (n div c - j div c)"
    using assms(1) by (metis mod_eq_dvd_iff_nat less_imp_le_nat minus_mod_eq_mult_div
        diff_mult_distrib2 mult_div_mod_eq add_diff_cancel_right)
  with assms show False by (cases "n div c - j div c") auto
qed

lemma publish_buf_holds: "ring_holds H b \<Longrightarrow> ring_holds (H @ [e]) (publish_buf e b)"
proof -
  assume h: "ring_holds H b"
  let ?n = "length H" and ?c = AARCHGATE_RING_CAPACITY
  have c: "0 < ?c" by (simp add: AARCHGATE_RING_CAPACITY_def)
  have idx: "unat (write_index b) mod ?c = ?n mod ?c"
    using h by (simp add: ring_holds_def unat_of_nat_mod_ring)
  have slot: "(ring b)[?n mod ?c := e] ! (j mod ?c) = (H @ [e]) ! j"
    if j: "j < Suc ?n" "Suc ?n \<le> j + ?c" for j
  proof (cases "j = ?n")
    case True
    with h c show ?thesis by (simp add: ring_holds_def)
  next
    case False
    with j have "j < ?n" "?n < j + ?c" by auto
    then have "j mod ?c \<noteq> ?n mod ?c" by (rule mod_ne_within)
    with h \<open>j < ?n\<close> \<open>?n < j + ?c\<close> show ?thesis by (simp add: ring_holds_def nth_append)
  qed
  with h idx show ?thesis by (simp add: ring_holds_def publish_buf_eq)
qed

lemma read_slot_nat:
  assumes "ring_holds H b" and "length H < 2 ^ 64" and "r < 2 ^ 64"
  shows "read_slot b (of_nat r) =
    (if r < length H then Some (ring b ! (r mod AARCHGATE_RING_CAPACITY)) else None)"
proof -
  have "(of_nat r :: u64) < write_index b \<longleftrightarrow> r < length H"
    using assms by (simp add: ring_holds_def word_less_nat_alt unat_of_nat)
  then show ?thesis by (simp add: read_slot_def unat_of_nat_mod_ring)
qed

interpretation ring_channel: broadcast_channel
  publish_buf "\<lambda>b r. read_slot b (of_nat r)" ring_holds AARCHGATE_RING_CAPACITY "2 ^ 64"
proof unfold_locales
  fix H b e
  assume "ring_holds H b"
  then show "ring_holds (H @ [e]) (publish_buf e b)" by (rule publish_buf_holds)
next
  fix H b and r :: nat
  assume h: "ring_holds H b" "length H < 2 ^ 64"
  show "r < length H \<Longrightarrow> length H \<le> r + AARCHGATE_RING_CAPACITY \<Longrightarrow>
      read_slot b (of_nat r) = Some (H ! r)"
    using h by (simp add: read_slot_nat) (simp add: ring_holds_def)
  show "r + AARCHGATE_RING_CAPACITY < length H \<Longrightarrow>
      read_slot b (of_nat r) = read_slot b (of_nat (r + AARCHGATE_RING_CAPACITY))"
    using h by (simp only: read_slot_nat [OF h]) (simp add: read_slot_nat [OF h] del: of_nat_add)
  show "length H \<le> r \<Longrightarrow> r < 2 ^ 64 \<Longrightarrow> read_slot b (of_nat r) = None"
    using h by (simp add: read_slot_nat)
next
  show "0 < AARCHGATE_RING_CAPACITY" by (simp add: AARCHGATE_RING_CAPACITY_def)
qed

section \<open>The ring while stores are outstanding\<close>

text \<open>
  The general state of the ring: \<open>H\<close> are the events in the order of their reservations, and the
  positions in \<open>D\<close> are reserved but not stored yet. Every other position of the last 256 has
  its event in its slot.
\<close>

definition ring_partial :: "MonitorEvent list \<Rightarrow> nat set \<Rightarrow> MonitorSharedBuffer \<Rightarrow> bool" where
  "ring_partial H D b \<longleftrightarrow>
     length (ring b) = AARCHGATE_RING_CAPACITY \<and> write_index b = of_nat (length H) \<and>
     (\<forall>j < length H. length H \<le> j + AARCHGATE_RING_CAPACITY \<longrightarrow> j \<notin> D \<longrightarrow>
        ring b ! (j mod AARCHGATE_RING_CAPACITY) = H ! j)"

lemma ring_partial_complete: "ring_partial H {} b \<longleftrightarrow> ring_holds H b"
  by (simp add: ring_partial_def ring_holds_def)

lemma ring_partial_reserve:
  assumes "ring_partial H D b"
  shows "fst (publish_reserve b) = length H mod AARCHGATE_RING_CAPACITY \<and>
    ring_partial (H @ [e]) (insert (length H) D) (snd (publish_reserve b))"
  using assms by (auto simp: ring_partial_def publish_reserve_def unat_of_nat_mod_ring nth_append)

lemma ring_partial_store:
  assumes "ring_partial H D b" and "k < length H" and "length H \<le> k + AARCHGATE_RING_CAPACITY"
  shows "ring_partial H (D - {k}) (publish_store (k mod AARCHGATE_RING_CAPACITY) (H ! k) b)"
proof -
  let ?c = AARCHGATE_RING_CAPACITY
  have c: "0 < ?c" by (simp add: AARCHGATE_RING_CAPACITY_def)
  have ne: "k mod ?c \<noteq> j mod ?c" if "j < length H" "length H \<le> j + ?c" "j \<noteq> k" for j
  proof (cases "j < k")
    case True
    then show ?thesis using mod_ne_within [of j k ?c] that assms(2) by fastforce
  next
    case False
    then show ?thesis using mod_ne_within [of k j ?c] that assms(3) by simp
  qed
  have "(ring b)[k mod ?c := H ! k] ! (j mod ?c) = H ! j"
    if "j < length H" "length H \<le> j + ?c" "j \<notin> D - {k}" for j
    using that assms c ne [of j] by (cases "j = k") (simp_all add: ring_partial_def)
  then show ?thesis using assms(1) by (simp add: ring_partial_def publish_store_def)
qed

lemma ring_partial_pop:
  assumes "ring_partial H D b" and "length H < 2 ^ 64" and "r \<le> length H"
    and "length H \<le> r + AARCHGATE_RING_CAPACITY" and "r \<notin> D" and "local_read_index s = of_nat r"
  shows "pop (Some b) s =
    (if r < length H then (Some (H ! r), \<lparr>sub_connected = True, local_read_index = of_nat (Suc r)\<rparr>)
     else (None, \<lparr>sub_connected = True, local_read_index = of_nat r\<rparr>))"
proof -
  have "(of_nat r :: u64) < write_index b \<longleftrightarrow> r < length H"
    using assms by (simp add: ring_partial_def word_less_nat_alt unat_of_nat)
  then have "read_slot b (of_nat r) = (if r < length H then Some (H ! r) else None)"
    using assms by (simp add: read_slot_def unat_of_nat_mod_ring ring_partial_def)
  then show ?thesis using assms(6) by (cases s) (auto simp: pop_def Let_def)
qed

section \<open>What the monitor reads\<close>

lemma drain_from_holds:
  assumes "ring_holds H b" and "length H < 2 ^ 64"
    and "r \<le> length H" and "length H \<le> r + AARCHGATE_RING_CAPACITY"
  shows "drain_from b (of_nat r) = (drop r H, of_nat (length H))"
  using assms(3,4)
proof (induction "length H - r" arbitrary: r)
  case 0
  with assms(1,2) have "read_slot b (of_nat r) = None" by (simp add: read_slot_nat)
  with 0 show ?case by (subst drain_from.simps) simp
next
  case (Suc k)
  then have r: "r < length H" by simp
  with Suc assms(1,2) have e: "read_slot b (of_nat r) = Some (H ! r)"
    by (simp add: ring_channel.rd_in)
  from Suc r have "drain_from b (of_nat (Suc r)) = (drop (Suc r) H, of_nat (length H))"
    by (intro Suc.hyps(1)) auto
  then have "drain_from b (of_nat r + 1) = (drop (Suc r) H, of_nat (length H))"
    by (simp add: add.commute)
  with e r show ?case by (subst drain_from.simps) (simp add: Cons_nth_drop_Suc)
qed

text \<open>
  What the monitor reads is what the daemon published: after any history \<open>H\<close> of
  events published into a fresh ring, a subscriber at index \<open>r\<close> that is at most 256 events
  behind drains exactly the events from \<open>r\<close> on, in publication order, and ends at the
  write index.
\<close>

lemma monitor_drains_history:
  assumes "length H < 2 ^ 64" and "r \<le> length H" and "length H \<le> r + AARCHGATE_RING_CAPACITY"
  shows "drain_from (fold publish_buf H fresh_buffer) (of_nat r) = (drop r H, of_nat (length H))"
proof -
  have "ring_holds ([] @ H) (fold publish_buf H fresh_buffer)"
    by (rule ring_channel.chan_pub_all) (rule fresh_buffer_holds)
  with assms show ?thesis by (intro drain_from_holds) auto
qed

lemma monitor_drains_history_witness:
  "drain_from (fold publish_buf (replicate 3 zero_MonitorEvent) fresh_buffer) (of_nat 1)
     = (replicate 2 zero_MonitorEvent, 3)"
  using monitor_drains_history [of "replicate 3 zero_MonitorEvent" 1]
  by (simp add: AARCHGATE_RING_CAPACITY_def)

text \<open>
  A subscriber that fell behind by more than the capacity is not told: \<open>pop\<close> at
  index \<open>r\<close> succeeds and returns the newest event of the history whose index agrees with
  \<open>r\<close> modulo 256, and advances by one, so events are repeated and lost silently.
\<close>

lemma pop_lapped:
  assumes "length H < 2 ^ 64" and "r < length H"
  shows "pop (Some (fold publish_buf H fresh_buffer)) \<lparr>sub_connected = True, local_read_index = of_nat r\<rparr>
     = (Some (H ! (r + 256 * ((length H - 1 - r) div 256))),
        \<lparr>sub_connected = True, local_read_index = of_nat (Suc r)\<rparr>)"
proof -
  let ?b = "fold publish_buf H fresh_buffer"
  have "ring_holds ([] @ H) ?b"
    by (rule ring_channel.chan_pub_all) (rule fresh_buffer_holds)
  then have "read_slot ?b (of_nat r) = Some (H ! (r + 256 * ((length H - 1 - r) div 256)))"
    using ring_channel.rd_lapped [of H ?b r] assms by (simp add: AARCHGATE_RING_CAPACITY_def)
  then show ?thesis by (simp add: pop_def Let_def add.commute)
qed

lemma pop_lapped_witness:
  "pop (Some (fold publish_buf (replicate 300 zero_MonitorEvent) fresh_buffer))
       \<lparr>sub_connected = True, local_read_index = 0\<rparr>
     = (Some zero_MonitorEvent, \<lparr>sub_connected = True, local_read_index = 1\<rparr>)"
  using pop_lapped [of "replicate 300 zero_MonitorEvent" 0] by simp

text \<open>
  The slot reservation and the store of \<open>publish\<close> are not atomic together: a
  subscriber that runs between them pops the previous content of the slot, and after the store it
  has already moved past the event, which it never sees.
\<close>

lemma pop_between_reserve_and_store:
  assumes "length H < 2 ^ 64 - 1" and "256 \<le> length H"
  shows "pop (Some (snd (publish_reserve (fold publish_buf H fresh_buffer))))
           \<lparr>sub_connected = True, local_read_index = of_nat (length H)\<rparr>
     = (Some (H ! (length H - 256)),
        \<lparr>sub_connected = True, local_read_index = of_nat (Suc (length H))\<rparr>)"
proof -
  let ?b = "fold publish_buf H fresh_buffer" and ?n = "length H"
  have h: "ring_holds ([] @ H) ?b"
    by (rule ring_channel.chan_pub_all) (rule fresh_buffer_holds)
  have "ring ?b ! ((?n - 256) mod 256) = H ! (?n - 256)"
    using h assms(2) by (simp add: ring_holds_def AARCHGATE_RING_CAPACITY_def)
  moreover have "(?n - 256) mod 256 = ?n mod 256"
    using assms(2) by (metis le_add_diff_inverse2 mod_add_self2)
  ultimately have "ring ?b ! (?n mod 256) = H ! (?n - 256)" by simp
  moreover have "(of_nat ?n :: u64) < write_index ?b + 1"
  proof -
    have "write_index ?b + 1 = of_nat (Suc ?n)" using h by (simp add: ring_holds_def add.commute)
    then show ?thesis using assms(1)
      by (simp add: word_less_nat_alt unat_of_nat del: of_nat_Suc)
  qed
  ultimately show ?thesis
    using unat_of_nat_mod_ring [of ?n]
    by (simp add: pop_def Let_def read_slot_def publish_reserve_def AARCHGATE_RING_CAPACITY_def add.commute)
qed

lemma pop_between_reserve_and_store_witness:
  "pop (Some (snd (publish_reserve (fold publish_buf (replicate 256 zero_MonitorEvent) fresh_buffer))))
       \<lparr>sub_connected = True, local_read_index = of_nat 256\<rparr>
     = (Some zero_MonitorEvent, \<lparr>sub_connected = True, local_read_index = of_nat 257\<rparr>)"
  using pop_between_reserve_and_store [of "replicate 256 zero_MonitorEvent"] by simp

end
