(* ===== verification/Policy_Engine.thy ===== *)
theory Policy_Engine
  imports Telemetry
begin

text \<open>
  The sandbox policy engine (\<open>src/host/policy_engine.hpp\<close>, \<open>.cpp\<close>): the process
  tree with its preinstall taint, the classification of one system call event, the forensics
  counters and report, and the static script scanner. Locks only make each operation atomic, so an
  operation is a function of the engine state. The compiled policy expression of
  \<open>init_JIT_schema\<close> is in theory \<open>Apex_Engine\<close>.
\<close>

section \<open>Data\<close>

record SyscallTraceRecord =
  tr_pid :: u64
  tr_ppid :: u64
  tr_event_type :: u64
  tr_is_preinstall :: u64
  tr_is_sensitive :: u64
  tr_is_unauthorized :: u64
  tr_padding :: "u64 list"

record ProcessNode =
  pn_pid :: u64
  pn_ppid :: u64
  pn_comm :: string
  pn_exec_path :: string
  pn_is_npm_root :: bool
  pn_is_lifecycle_hook :: bool
  pn_is_preinstall_descendant :: bool
  pn_is_native_addon :: bool

record ForensicsReport =
  fr_total_events :: u64
  fr_total_violations :: u64
  fr_proc_reads :: u64
  fr_cgroup_reads :: u64
  fr_credential_reads :: u64
  fr_workspace_reads :: u64
  fr_unix_socket_connects :: u64
  fr_external_ipv4_connects :: u64
  fr_risk_score :: u32
  fr_verdict :: string

record PolicyEngine =
  process_tree :: "u64 \<rightharpoonup> ProcessNode"
  is_ci_emulated_mode :: bool
  total_events :: u64
  total_violations :: u64
  proc_reads :: u64
  cgroup_reads :: u64
  credential_reads :: u64
  workspace_reads :: u64
  unix_socket_connects :: u64
  external_ipv4_connects :: u64

definition PolicyEngine_new :: PolicyEngine where
  "PolicyEngine_new =
     \<lparr>process_tree = Map.empty, is_ci_emulated_mode = False, total_events = 0,
      total_violations = 0, proc_reads = 0, cgroup_reads = 0, credential_reads = 0,
      workspace_reads = 0, unix_socket_connects = 0, external_ipv4_connects = 0\<rparr>"

section \<open>Classification helpers\<close>

definition is_internal_npm_tool :: "string \<Rightarrow> bool" where
  "is_internal_npm_tool arg \<longleftrightarrow>
     has_sub arg ''node-gyp'' \<or> has_sub arg ''node-pre-gyp'' \<or>
     has_sub arg ''node-gyp-build'' \<or> has_sub arg ''prebuild-install''"

definition check_is_npm_root :: "string \<Rightarrow> string \<Rightarrow> bool" where
  "check_is_npm_root comm arg \<longleftrightarrow>
     starts_with comm ''npm'' \<or> starts_with comm ''pnpm'' \<or>
     starts_with comm ''yarn'' \<or> starts_with comm ''bun'' \<or>
     has_sub arg ''npm-cli.js'' \<or> has_sub arg ''bin/npm''"

definition has_sensitive_pattern :: "bool \<Rightarrow> string \<Rightarrow> bool" where
  "has_sensitive_pattern is_native_addon_proc arg \<longleftrightarrow>
     has_sub arg ''.ssh/'' \<or> has_sub arg ''.aws/'' \<or> has_sub arg ''aws/credentials'' \<or>
     has_sub arg ''.env'' \<or> has_sub arg ''.npmrc'' \<or> has_sub arg ''.gitconfig'' \<or>
     has_sub arg ''/etc/passwd'' \<or> has_sub arg ''/etc/shadow'' \<or>
     has_sub arg ''/proc/self/environ'' \<or>
     has_sub arg ''/proc/'' \<and> has_sub arg ''/mem'' \<or>
     has_sub arg ''/proc/'' \<and> has_sub arg ''/maps'' \<or>
     has_sub arg ''/dev/mem'' \<or> has_sub arg ''/dev/kmem'' \<or>
     has_sub arg ''id_rsa'' \<or> has_sub arg ''id_ed25519'' \<or> has_sub arg ''authorized_keys'' \<or>
     is_native_addon_proc \<and> \<not> has_sub arg ''/workspace'' \<and> \<not> has_sub arg ''/tmp''"

definition flag64 :: "bool \<Rightarrow> u64" where
  "flag64 b = (if b then 1 else 0)"

section \<open>Process tree\<close>

definition tainted :: "PolicyEngine \<Rightarrow> u64 \<Rightarrow> bool" where
  "tainted pe pid \<longleftrightarrow>
     (case process_tree pe pid of None \<Rightarrow> False | Some n \<Rightarrow> pn_is_preinstall_descendant n)"

definition npm_root_pid :: "PolicyEngine \<Rightarrow> u64 \<Rightarrow> bool" where
  "npm_root_pid pe pid \<longleftrightarrow>
     (case process_tree pe pid of None \<Rightarrow> False | Some n \<Rightarrow> pn_is_npm_root n)"

definition lifecycle_hook_pid :: "PolicyEngine \<Rightarrow> u64 \<Rightarrow> bool" where
  "lifecycle_hook_pid pe pid \<longleftrightarrow>
     (case process_tree pe pid of None \<Rightarrow> False | Some n \<Rightarrow> pn_is_lifecycle_hook n)"

text \<open>The node an \<open>EVENT_EXEC\<close> writes.\<close>

definition exec_node :: "PolicyEngine \<Rightarrow> SyscallEvent \<Rightarrow> ProcessNode" where
  "exec_node pe ev =
     (let comm = c_str (se_comm ev);
          arg = c_str (se_arg_str ev);
          parent_is_untrusted = tainted pe (se_ppid ev);
          is_npm_root = check_is_npm_root comm arg;
          (is_untrusted_script, is_lifecycle_hook) =
            (if \<not> is_npm_root \<and> \<not> parent_is_untrusted
             then (if is_internal_npm_tool arg then (False, False)
                   else if npm_root_pid pe (se_ppid ev) \<or> 1 < se_ppid ev then (True, True)
                   else if lifecycle_hook_pid pe (se_ppid ev) then (True, False)
                   else (parent_is_untrusted, False))
             else (parent_is_untrusted, False))
      in \<lparr>pn_pid = se_pid ev, pn_ppid = se_ppid ev, pn_comm = comm, pn_exec_path = arg,
          pn_is_npm_root = is_npm_root, pn_is_lifecycle_hook = is_lifecycle_hook,
          pn_is_preinstall_descendant = is_untrusted_script, pn_is_native_addon = False\<rparr>)"

definition fork_node :: "PolicyEngine \<Rightarrow> SyscallEvent \<Rightarrow> ProcessNode" where
  "fork_node pe ev =
     \<lparr>pn_pid = se_pid ev, pn_ppid = se_ppid ev, pn_comm = c_str (se_comm ev),
      pn_exec_path = ''fork'', pn_is_npm_root = False, pn_is_lifecycle_hook = False,
      pn_is_preinstall_descendant = tainted pe (se_ppid ev), pn_is_native_addon = False\<rparr>"

text \<open>Step 1 of \<open>process_event\<close>: tree tracking; the flag is \<open>is_preinstall_process\<close>.\<close>

definition track_process :: "PolicyEngine \<Rightarrow> SyscallEvent \<Rightarrow> bool \<times> PolicyEngine" where
  "track_process pe ev =
     (if se_event_type ev = EVENT_EXEC
      then (let n = exec_node pe ev
            in (pn_is_preinstall_descendant n,
                pe\<lparr>process_tree := (process_tree pe)(se_pid ev \<mapsto> n)\<rparr>))
      else if se_event_type ev = EVENT_FORK
      then (let n = fork_node pe ev
            in (pn_is_preinstall_descendant n,
                pe\<lparr>process_tree := (process_tree pe)(se_pid ev \<mapsto> n)\<rparr>))
      else ((case process_tree pe (se_pid ev) of
               Some n \<Rightarrow> pn_is_preinstall_descendant n
             | None \<Rightarrow> tainted pe (se_ppid ev)), pe))"

text \<open>The native add-on marking of an \<open>EVENT_OPEN\<close> and the flag it reads back.\<close>

definition mark_native_addon :: "PolicyEngine \<Rightarrow> u64 \<Rightarrow> string \<Rightarrow> bool \<times> PolicyEngine" where
  "mark_native_addon pe pid arg =
     (case process_tree pe pid of
        None \<Rightarrow> (False, pe)
      | Some n \<Rightarrow>
          (let n' = (if has_sub arg ''.node'' then n\<lparr>pn_is_native_addon := True\<rparr> else n)
           in (pn_is_native_addon n', pe\<lparr>process_tree := (process_tree pe)(pid \<mapsto> n')\<rparr>)))"

definition classify_open :: "PolicyEngine \<Rightarrow> SyscallEvent \<Rightarrow> bool \<times> PolicyEngine" where
  "classify_open pe ev =
     (let arg = c_str (se_arg_str ev);
          pe1 = pe\<lparr>proc_reads := proc_reads pe + flag64 (has_sub arg ''/proc/''),
                  cgroup_reads := cgroup_reads pe + flag64 (has_sub arg ''cgroup''),
                  workspace_reads := workspace_reads pe + flag64 (has_sub arg ''/workspace'')\<rparr>;
          (is_native_addon_proc, pe2) = mark_native_addon pe1 (se_pid ev) arg;
          sens = has_sensitive_pattern is_native_addon_proc arg
      in (sens, pe2\<lparr>credential_reads := credential_reads pe2 + flag64 sens\<rparr>))"

definition classify_connect :: "PolicyEngine \<Rightarrow> SyscallEvent \<Rightarrow> PolicyEngine" where
  "classify_connect pe ev =
     (if se_ip_address ev = 0
      then pe\<lparr>unix_socket_connects := unix_socket_connects pe + 1\<rparr>
      else pe\<lparr>external_ipv4_connects := external_ipv4_connects pe + 1\<rparr>)"

text \<open>The condition of the violation counter, on a finished record.\<close>

definition record_violates :: "SyscallTraceRecord \<Rightarrow> bool" where
  "record_violates rec \<longleftrightarrow>
     tr_is_preinstall rec \<noteq> 0 \<and>
     (tr_event_type rec = EVENT_OPEN \<and> tr_is_sensitive rec \<noteq> 0 \<or>
      tr_event_type rec = EVENT_CONNECT \<and> tr_is_unauthorized rec \<noteq> 0)"

definition process_event :: "PolicyEngine \<Rightarrow> SyscallEvent \<Rightarrow> SyscallTraceRecord \<times> PolicyEngine" where
  "process_event pe ev =
     (let pe0 = pe\<lparr>total_events := total_events pe + 1\<rparr>;
          (is_preinstall_process, pe1) = track_process pe0 ev;
          rec0 = \<lparr>tr_pid = se_pid ev, tr_ppid = se_ppid ev, tr_event_type = se_event_type ev,
                  tr_is_preinstall = flag64 is_preinstall_process, tr_is_sensitive = 0,
                  tr_is_unauthorized = 0, tr_padding = [0, 0]\<rparr>;
          (rec, pe2) =
            (if se_event_type ev = EVENT_OPEN
             then (case classify_open pe1 ev of
                     (sens, pe') \<Rightarrow> (rec0\<lparr>tr_is_sensitive := flag64 sens\<rparr>, pe'))
             else if se_event_type ev = EVENT_CONNECT
             then (rec0\<lparr>tr_is_unauthorized := flag64 is_preinstall_process\<rparr>, classify_connect pe1 ev)
             else (rec0, pe1))
      in (rec, if record_violates rec
               then pe2\<lparr>total_violations := total_violations pe2 + 1\<rparr> else pe2))"

fun process_events :: "PolicyEngine \<Rightarrow> SyscallEvent list \<Rightarrow> SyscallTraceRecord list \<times> PolicyEngine" where
  "process_events pe [] = ([], pe)"
| "process_events pe (ev # evs) =
     (case process_event pe ev of (r, pe1) \<Rightarrow>
        case process_events pe1 evs of (rs, pe2) \<Rightarrow> (r # rs, pe2))"

section \<open>The other operations\<close>

definition is_preinstall_process :: "PolicyEngine \<Rightarrow> u64 \<Rightarrow> bool" where
  "is_preinstall_process pe pid = tainted pe pid"

definition register_process ::
  "PolicyEngine \<Rightarrow> u64 \<Rightarrow> u64 \<Rightarrow> string \<Rightarrow> bool \<Rightarrow> PolicyEngine" where
  "register_process pe pid ppid comm force_preinstall =
     pe\<lparr>process_tree := (process_tree pe)(pid \<mapsto>
        \<lparr>pn_pid = pid, pn_ppid = ppid, pn_comm = comm, pn_exec_path = [],
         pn_is_npm_root = (comm = ''npm'' \<or> comm = ''pnpm'' \<or> comm = ''yarn'' \<or> comm = ''bun''),
         pn_is_lifecycle_hook = False, pn_is_preinstall_descendant = force_preinstall,
         pn_is_native_addon = False\<rparr>)\<rparr>"

definition register_native_addon :: "PolicyEngine \<Rightarrow> u64 \<Rightarrow> PolicyEngine" where
  "register_native_addon pe pid =
     (case process_tree pe pid of
        None \<Rightarrow> pe
      | Some n \<Rightarrow> pe\<lparr>process_tree := (process_tree pe)(pid \<mapsto> n\<lparr>pn_is_native_addon := True\<rparr>)\<rparr>)"

definition unregister_process :: "PolicyEngine \<Rightarrow> u64 \<Rightarrow> PolicyEngine" where
  "unregister_process pe pid = pe\<lparr>process_tree := (process_tree pe)(pid := None)\<rparr>"

definition set_ci_emulated_mode :: "PolicyEngine \<Rightarrow> bool \<Rightarrow> PolicyEngine" where
  "set_ci_emulated_mode pe enable = pe\<lparr>is_ci_emulated_mode := enable\<rparr>"

text \<open>\<open>static_cast<uint32_t>(report.total_violations * 5)\<close> drops the high half.\<close>

definition risk_score :: "PolicyEngine \<Rightarrow> u32" where
  "risk_score pe =
     (let s1 = (if 0 < total_violations pe then 80 + ucast (total_violations pe * 5) else 0 :: u32);
          s2 = (if 0 < credential_reads pe then s1 + 15 else s1);
          s3 = (if 0 < external_ipv4_connects pe then s2 + 10 else s2)
      in if 100 < s3 then 100 else s3)"

definition generate_report :: "PolicyEngine \<Rightarrow> ForensicsReport" where
  "generate_report pe =
     (let score = risk_score pe
      in \<lparr>fr_total_events = total_events pe, fr_total_violations = total_violations pe,
          fr_proc_reads = proc_reads pe, fr_cgroup_reads = cgroup_reads pe,
          fr_credential_reads = credential_reads pe, fr_workspace_reads = workspace_reads pe,
          fr_unix_socket_connects = unix_socket_connects pe,
          fr_external_ipv4_connects = external_ipv4_connects pe,
          fr_risk_score = score,
          fr_verdict = (if 0 < total_violations pe \<or> 80 \<le> score then ''BLOCKED''
                        else if 40 \<le> score then ''SUSPICIOUS'' else ''CLEAN'')\<rparr>)"

text \<open>\<open>scan_script_content\<close>: \<open>Some reason\<close> when it returns false with that reason.\<close>

definition scan_script_content :: "string \<Rightarrow> string option" where
  "scan_script_content s =
     (if has_sub s ''eval('' \<or> has_sub s ''Function('' \<or> has_sub s ''vm.runInContext''
      then Some ''Dynamic code evaluation (eval/Function/vm.runInContext)''
      else if (has_sub s ''Buffer.from('' \<or> has_sub s ''atob('') \<and>
              (has_sub s (''toString('' @ [CHR 0x27] @ ''utf8'' @ [CHR 0x27] @ '')'') \<or>
               has_sub s (''toString('' @ [CHR 0x27] @ ''base64'' @ [CHR 0x27] @ '')'') \<or>
               has_sub s ''toString()'')
      then Some ''Obfuscated Base64 payload decoding pattern''
      else if has_sub s ''.ssh/'' \<or> has_sub s ''.npmrc'' \<or> has_sub s ''.aws/credentials'' \<or>
              has_sub s ''id_rsa''
      then Some ''Hardcoded credential path reference in script''
      else None)"

section \<open>Facts about single events\<close>

lemma flag64_simps [simp]:
  "flag64 True = 1" "flag64 False = 0" "flag64 b \<noteq> 0 \<longleftrightarrow> b" "flag64 b = 0 \<longleftrightarrow> \<not> b" "flag64 b = 1 \<longleftrightarrow> b"
  by (simp_all add: flag64_def)

definition spawns :: "SyscallEvent \<Rightarrow> bool" where
  "spawns ev \<longleftrightarrow> se_event_type ev = EVENT_EXEC \<or> se_event_type ev = EVENT_FORK"

lemma tainted_update [simp]:
  "tainted (pe\<lparr>process_tree := (process_tree pe)(p \<mapsto> n)\<rparr>) q =
     (if q = p then pn_is_preinstall_descendant n else tainted pe q)"
  by (simp add: tainted_def)

lemma tainted_counters [simp]:
  "tainted (pe\<lparr>total_events := x\<rparr>) = tainted pe"
  "tainted (pe\<lparr>total_violations := x\<rparr>) = tainted pe"
  "tainted (pe\<lparr>credential_reads := x\<rparr>) = tainted pe"
  "tainted (pe\<lparr>proc_reads := x, cgroup_reads := y, workspace_reads := z\<rparr>) = tainted pe"
  "tainted (pe\<lparr>unix_socket_connects := x\<rparr>) = tainted pe"
  "tainted (pe\<lparr>external_ipv4_connects := x\<rparr>) = tainted pe"
  by (simp_all add: tainted_def fun_eq_iff)

lemma tainted_mark [simp]: "tainted (snd (mark_native_addon pe pid arg)) = tainted pe"
  by (auto simp: mark_native_addon_def tainted_def Let_def fun_eq_iff split: option.splits)

lemma tainted_classify_open [simp]: "tainted (snd (classify_open pe ev)) = tainted pe"
  by (simp add: classify_open_def Let_def case_prod_beta)

lemma tainted_classify_connect [simp]: "tainted (classify_connect pe ev) = tainted pe"
  by (simp add: classify_connect_def)

lemma exec_node_tainted:
  "pn_is_preinstall_descendant (exec_node pe ev) \<longleftrightarrow>
     tainted pe (se_ppid ev) \<or>
     \<not> check_is_npm_root (c_str (se_comm ev)) (c_str (se_arg_str ev)) \<and>
     \<not> is_internal_npm_tool (c_str (se_arg_str ev)) \<and>
     (npm_root_pid pe (se_ppid ev) \<or> 1 < se_ppid ev \<or> lifecycle_hook_pid pe (se_ppid ev))"
  by (auto simp: exec_node_def Let_def)

lemma exec_node_counters [simp]: "exec_node (pe\<lparr>total_events := x\<rparr>) ev = exec_node pe ev"
  by (simp add: exec_node_def npm_root_pid_def lifecycle_hook_pid_def Let_def)

lemma fork_node_counters [simp]: "fork_node (pe\<lparr>total_events := x\<rparr>) ev = fork_node pe ev"
  by (simp add: fork_node_def)

text \<open>The state after an event agrees with tree tracking on every taint flag.\<close>

lemma tainted_process_event:
  "tainted (snd (process_event pe ev)) = tainted (snd (track_process pe ev))"
  by (simp add: process_event_def Let_def case_prod_beta track_process_def)
    (simp add: tainted_def fun_eq_iff)

lemma process_event_tainted_simps:
  "se_event_type ev = EVENT_EXEC \<Longrightarrow> tainted (snd (process_event pe ev)) q =
     (if q = se_pid ev then pn_is_preinstall_descendant (exec_node pe ev) else tainted pe q)"
  "se_event_type ev = EVENT_FORK \<Longrightarrow> tainted (snd (process_event pe ev)) q =
     (if q = se_pid ev then tainted pe (se_ppid ev) else tainted pe q)"
  "\<not> spawns ev \<Longrightarrow> tainted (snd (process_event pe ev)) q = tainted pe q"
  by (simp_all add: tainted_process_event track_process_def Let_def spawns_def fork_node_def)

lemma process_event_fst:
  "fst (process_event pe ev) =
     \<lparr>tr_pid = se_pid ev, tr_ppid = se_ppid ev, tr_event_type = se_event_type ev,
      tr_is_preinstall = flag64 (fst (track_process pe ev)),
      tr_is_sensitive = flag64 (se_event_type ev = EVENT_OPEN \<and>
         fst (classify_open (snd (track_process (pe\<lparr>total_events := total_events pe + 1\<rparr>) ev)) ev)),
      tr_is_unauthorized = flag64 (se_event_type ev = EVENT_CONNECT \<and> fst (track_process pe ev)),
      tr_padding = [0, 0]\<rparr>"
  by (simp add: process_event_def Let_def case_prod_beta track_process_def split: option.split)

text \<open>Whether the process of an event other than exec and fork runs under a lifecycle script.\<close>

definition proc_tainted :: "PolicyEngine \<Rightarrow> SyscallEvent \<Rightarrow> bool" where
  "proc_tainted pe ev \<longleftrightarrow>
     (case process_tree pe (se_pid ev) of
        Some n \<Rightarrow> pn_is_preinstall_descendant n | None \<Rightarrow> tainted pe (se_ppid ev))"

definition loads_native_addon :: "PolicyEngine \<Rightarrow> SyscallEvent \<Rightarrow> bool" where
  "loads_native_addon pe ev \<longleftrightarrow>
     (case process_tree pe (se_pid ev) of
        Some n \<Rightarrow> pn_is_native_addon n \<or> has_sub (c_str (se_arg_str ev)) ''.node'' | None \<Rightarrow> False)"

lemma untainted_not_violates:
  "\<not> proc_tainted pe ev \<Longrightarrow> \<not> spawns ev \<Longrightarrow> \<not> record_violates (fst (process_event pe ev))"
  by (auto simp: process_event_fst record_violates_def track_process_def proc_tainted_def spawns_def)

lemma connect_violates:
  "se_event_type ev = EVENT_CONNECT \<Longrightarrow> record_violates (fst (process_event pe ev)) \<longleftrightarrow> proc_tainted pe ev"
  by (auto simp: process_event_fst record_violates_def track_process_def proc_tainted_def)

lemma open_violates:
  assumes "se_event_type ev = EVENT_OPEN"
  shows "record_violates (fst (process_event pe ev)) \<longleftrightarrow>
    proc_tainted pe ev \<and> has_sensitive_pattern (loads_native_addon pe ev) (c_str (se_arg_str ev))"
proof -
  have "fst (classify_open (snd (track_process (pe\<lparr>total_events := total_events pe + 1\<rparr>) ev)) ev) =
      has_sensitive_pattern (loads_native_addon pe ev) (c_str (se_arg_str ev))"
    using assms by (auto simp: track_process_def classify_open_def mark_native_addon_def
        loads_native_addon_def Let_def split: option.splits)
  with assms show ?thesis
    by (auto simp: process_event_fst record_violates_def track_process_def proc_tainted_def)
qed

lemma tainted_proc: "tainted pe (se_pid ev) \<Longrightarrow> proc_tainted pe ev"
  by (auto simp: tainted_def proc_tainted_def split: option.splits)

lemma process_events_append:
  "process_events pe (xs @ ys) =
     (case process_events pe xs of (rs, pe1) \<Rightarrow>
        case process_events pe1 ys of (ss, pe2) \<Rightarrow> (rs @ ss, pe2))"
  by (induction xs arbitrary: pe) (auto split: prod.splits)

lemma process_events_Cons_snd:
  "snd (process_events pe (ev # evs)) = snd (process_events (snd (process_event pe ev)) evs)"
  by (simp split: prod.splits)

lemma process_events_append_snd:
  "snd (process_events pe (xs @ ys)) = snd (process_events (snd (process_events pe xs)) ys)"
  by (simp add: process_events_append split: prod.splits)

section \<open>Policy properties\<close>

text \<open>
  Claim C12. The policy decision on one event as the code takes it, complete and exact: a record is a
  violation if and only if its process runs under a lifecycle script and the event is a connect to whatever
  destination, or an open of a path with a sensitive pattern (where a process that loaded a native add-on
  may only open paths under \<open>/workspace\<close> and \<open>/tmp\<close>). No other event is ever a violation. No list of allowed
  destinations is consulted, although the documentation speaks of one.
\<close>

theorem process_event_violates_iff:
  "record_violates (fst (process_event pe ev)) \<longleftrightarrow>
     proc_tainted pe ev \<and>
     (se_event_type ev = EVENT_CONNECT \<or>
      se_event_type ev = EVENT_OPEN \<and>
      has_sensitive_pattern (loads_native_addon pe ev) (c_str (se_arg_str ev)))"
proof (cases "se_event_type ev = EVENT_OPEN \<or> se_event_type ev = EVENT_CONNECT")
  case True
  then show ?thesis using open_violates [of ev pe] connect_violates [of ev pe] by auto
next
  case False
  then show ?thesis by (auto simp: process_event_fst record_violates_def)
qed

text \<open>
  The taint an exec event gives a process, on every branch: a descendant of an untrusted
  process stays untrusted whatever it executes; otherwise it becomes untrusted exactly when it is
  neither a package manager root nor an internal build tool and was spawned by a package manager, by
  any process other than init, or by a lifecycle hook.
\<close>

lemma exec_taint_iff:
  "se_event_type ev = EVENT_EXEC \<Longrightarrow>
   tainted (snd (process_event pe ev)) (se_pid ev) \<longleftrightarrow>
     tainted pe (se_ppid ev) \<or>
     \<not> check_is_npm_root (c_str (se_comm ev)) (c_str (se_arg_str ev)) \<and>
     \<not> is_internal_npm_tool (c_str (se_arg_str ev)) \<and>
     (npm_root_pid pe (se_ppid ev) \<or> 1 < se_ppid ev \<or> lifecycle_hook_pid pe (se_ppid ev))"
  by (simp add: process_event_tainted_simps exec_node_tainted)

definition mk_event :: "u64 \<Rightarrow> u64 \<Rightarrow> u64 \<Rightarrow> string \<Rightarrow> string \<Rightarrow> u32 \<Rightarrow> SyscallEvent" where
  "mk_event ty pid ppid comm arg ip =
     \<lparr>se_timestamp_ns = 0, se_pid = pid, se_ppid = ppid, se_event_type = ty,
      se_comm = comm, se_arg_str = arg, se_ip_address = ip, se_port = 0, se_padding = [0, 0]\<rparr>"

lemma mk_event_sel [simp]:
  "se_pid (mk_event ty pid ppid comm arg ip) = pid"
  "se_ppid (mk_event ty pid ppid comm arg ip) = ppid"
  "se_event_type (mk_event ty pid ppid comm arg ip) = ty"
  "se_comm (mk_event ty pid ppid comm arg ip) = comm"
  "se_arg_str (mk_event ty pid ppid comm arg ip) = arg"
  "se_ip_address (mk_event ty pid ppid comm arg ip) = ip"
  by (simp_all add: mk_event_def)

lemma exec_taint_iff_witness:
  "tainted (snd (process_event PolicyEngine_new (mk_event EVENT_EXEC 7 5 ''sh'' ''/bin/sh'' 0))) 7"
  using exec_taint_iff [of "mk_event EVENT_EXEC 7 5 ''sh'' ''/bin/sh'' 0" PolicyEngine_new]
  by (simp add: check_is_npm_root_def is_internal_npm_tool_def c_str_def starts_with_def has_sub_def)

text \<open>
  \<open>descends p evs q\<close>: the events spawn a chain of processes from \<open>p\<close> to \<open>q\<close>,
  interleaved with any events of other processes; no event re-spawns a process of the chain after it
  joined.
\<close>

inductive descends :: "u64 \<Rightarrow> SyscallEvent list \<Rightarrow> u64 \<Rightarrow> bool" where
  here: "(\<forall>e \<in> set evs. spawns e \<longrightarrow> se_pid e \<noteq> p) \<Longrightarrow> descends p evs p"
| child: "(\<forall>e \<in> set pre. spawns e \<longrightarrow> se_pid e \<noteq> p) \<Longrightarrow> spawns ev \<Longrightarrow> se_ppid ev = p \<Longrightarrow>
    descends (se_pid ev) post q \<Longrightarrow> descends p (pre @ ev # post) q"

lemma tainted_stable:
  "tainted pe p \<Longrightarrow> (\<forall>e \<in> set evs. spawns e \<longrightarrow> se_pid e \<noteq> p) \<Longrightarrow>
   tainted (snd (process_events pe evs)) p"
proof (induction evs arbitrary: pe)
  case (Cons ev evs)
  have "tainted (snd (process_event pe ev)) p"
  proof (cases "spawns ev")
    case True
    with Cons.prems have "se_pid ev \<noteq> p" by simp
    with True Cons.prems(1) show ?thesis by (auto simp: spawns_def process_event_tainted_simps)
  next
    case False
    with Cons.prems(1) show ?thesis by (simp add: process_event_tainted_simps)
  qed
  with Cons show ?case by (simp add: process_events_Cons_snd del: process_events.simps)
qed simp

lemma spawn_tainted:
  "spawns ev \<Longrightarrow> tainted pe (se_ppid ev) \<Longrightarrow> tainted (snd (process_event pe ev)) (se_pid ev)"
  by (auto simp: spawns_def process_event_tainted_simps exec_node_tainted)

text \<open>
  Claim C13. Taint follows a chain of processes: if each process of the chain was reported, by a fork or an
  exec, under the one before it, and from there to the report of the next one (for the last: to the end) no
  other fork or exec of it was reported, then the last one is untrusted if the first was, whatever other
  events happen in between. An exec of a process of the chain reported under another parent is thus left
  out; \<open>reparented_exec_loses_taint\<close> below shows what it does.
\<close>

theorem descendants_tainted:
  "descends p evs q \<Longrightarrow> tainted pe p \<Longrightarrow> tainted (snd (process_events pe evs)) q"
proof (induction arbitrary: pe rule: descends.induct)
  case (here evs p)
  then show ?case by (simp add: tainted_stable)
next
  case (child pre p ev post q)
  have "tainted (snd (process_events pe pre)) p"
    using child.prems child.hyps(1) by (rule tainted_stable)
  then have "tainted (snd (process_event (snd (process_events pe pre)) ev)) (se_pid ev)"
    using child.hyps(2,3) by (simp add: spawn_tainted)
  then show ?case
    using child.IH by (simp add: process_events_append_snd process_events_Cons_snd del: process_events.simps)
qed

theorem descendants_tainted_witness:
  "tainted (snd (process_events (register_process PolicyEngine_new 5 1 ''sh'' True)
      [mk_event EVENT_OPEN 9 1 ''x'' ''/a'' 0, mk_event EVENT_FORK 6 5 ''sh'' ''fork'' 0,
       mk_event EVENT_EXEC 8 6 ''npm'' ''/bin/npm'' 0])) 8"
proof (rule descendants_tainted)
  have "descends 8 [] 8" by (rule here) simp
  then have "descends 6 ([] @ mk_event EVENT_EXEC 8 6 ''npm'' ''/bin/npm'' 0 # []) 8"
    by (intro child) (simp_all add: spawns_def)
  then have "descends 5 ([mk_event EVENT_OPEN 9 1 ''x'' ''/a'' 0] @ mk_event EVENT_FORK 6 5 ''sh'' ''fork'' 0 #
      [mk_event EVENT_EXEC 8 6 ''npm'' ''/bin/npm'' 0]) 8"
    by (intro child) (simp_all add: spawns_def)
  then show "descends 5 [mk_event EVENT_OPEN 9 1 ''x'' ''/a'' 0, mk_event EVENT_FORK 6 5 ''sh'' ''fork'' 0,
       mk_event EVENT_EXEC 8 6 ''npm'' ''/bin/npm'' 0] 8" by simp
  show "tainted (register_process PolicyEngine_new 5 1 ''sh'' True) 5"
    by (simp add: register_process_def)
qed

text \<open>
  The gap in the tracking: an untrusted process that is re-parented to init and then
  executes any program loses its taint, since only the reported parent is consulted; its following
  connects and opens are not violations.
\<close>

lemma reparented_exec_loses_taint:
  assumes "se_event_type ev = EVENT_EXEC" and "se_ppid ev = 1" and "process_tree pe 1 = None"
    and "se_pid ev' = se_pid ev" and "\<not> spawns ev'"
  shows "\<not> tainted (snd (process_event pe ev)) (se_pid ev) \<and>
    \<not> record_violates (fst (process_event (snd (process_event pe ev)) ev'))"
proof -
  have par: "\<not> tainted pe 1" "\<not> npm_root_pid pe 1" "\<not> lifecycle_hook_pid pe 1"
    using assms(3) by (simp_all add: tainted_def npm_root_pid_def lifecycle_hook_pid_def)
  then have "\<not> pn_is_preinstall_descendant (exec_node pe ev)"
    using assms(2) by (simp add: exec_node_tainted)
  then have nt: "\<not> tainted (snd (process_event pe ev)) (se_pid ev)"
    using assms(1) by (simp add: process_event_tainted_simps)
  have "process_tree (snd (process_event pe ev)) (se_pid ev) = Some (exec_node pe ev)"
    using assms(1) by (simp add: process_event_def track_process_def Let_def)
  with nt have "\<not> proc_tainted (snd (process_event pe ev)) ev'"
    using assms(4) by (simp add: proc_tainted_def tainted_def)
  with nt assms(5) show ?thesis by (simp add: untainted_not_violates)
qed

lemma reparented_exec_loses_taint_witness:
  "tainted (register_process PolicyEngine_new 50 7 ''node'' True) 50 \<and>
   \<not> tainted (snd (process_event (register_process PolicyEngine_new 50 7 ''node'' True)
        (mk_event EVENT_EXEC 50 1 ''node'' ''/evil'' 0))) 50 \<and>
   \<not> record_violates (fst (process_event (snd (process_event
        (register_process PolicyEngine_new 50 7 ''node'' True)
        (mk_event EVENT_EXEC 50 1 ''node'' ''/evil'' 0)))
        (mk_event EVENT_OPEN 50 1 ''node'' ''/root/.ssh/id_rsa'' 0)))"
proof
  let ?pe = "register_process PolicyEngine_new 50 7 ''node'' True"
  show "tainted ?pe 50" by (simp add: register_process_def)
  have "process_tree ?pe 1 = None" by (simp add: register_process_def PolicyEngine_new_def)
  then show "\<not> tainted (snd (process_event ?pe (mk_event EVENT_EXEC 50 1 ''node'' ''/evil'' 0))) 50 \<and>
    \<not> record_violates (fst (process_event (snd (process_event ?pe
        (mk_event EVENT_EXEC 50 1 ''node'' ''/evil'' 0)))
        (mk_event EVENT_OPEN 50 1 ''node'' ''/root/.ssh/id_rsa'' 0)))"
    using reparented_exec_loses_taint [of "mk_event EVENT_EXEC 50 1 ''node'' ''/evil'' 0" ?pe
      "mk_event EVENT_OPEN 50 1 ''node'' ''/root/.ssh/id_rsa'' 0"]
    by (simp add: spawns_def)
qed

lemma process_event_counters:
  "total_events (snd (process_event pe ev)) = total_events pe + 1"
  "total_violations (snd (process_event pe ev)) =
     total_violations pe + flag64 (record_violates (fst (process_event pe ev)))"
  by (auto simp: process_event_def track_process_def classify_open_def classify_connect_def
      mark_native_addon_def Let_def case_prod_beta split: option.splits)

text \<open>
  The counters are exact: after any sequence of events the event counter grew by the
  number of events and the violation counter by the number of violating records (both modulo
  \<open>2^64\<close>, as the unsigned counters wrap).
\<close>

lemma counters_exact:
  "total_events (snd (process_events pe evs)) = total_events pe + of_nat (length evs) \<and>
   total_violations (snd (process_events pe evs)) =
     total_violations pe + of_nat (length (filter record_violates (fst (process_events pe evs))))"
proof (induction evs arbitrary: pe)
  case (Cons ev evs)
  obtain r pe1 where e: "process_event pe ev = (r, pe1)" by fastforce
  obtain rs pe2 where es: "process_events pe1 evs = (rs, pe2)" by fastforce
  have "total_events pe1 = total_events pe + 1"
    "total_violations pe1 = total_violations pe + flag64 (record_violates r)"
    using process_event_counters [of pe ev] by (simp_all add: e)
  with Cons [of pe1] show ?case by (simp add: e es flag64_def)
qed simp

text \<open>
  The forensics verdict: the score is at most 100, the verdict is \<open>BLOCKED\<close> if and
  only if a violation was counted and \<open>CLEAN\<close> otherwise; the verdict \<open>SUSPICIOUS\<close> is never
  produced, because without violations the score is at most 25.
\<close>

lemma report_verdict:
  "fr_risk_score (generate_report pe) \<le> 100 \<and>
   (fr_verdict (generate_report pe) = ''BLOCKED'' \<longleftrightarrow> 0 < total_violations pe) \<and>
   (fr_verdict (generate_report pe) = ''CLEAN'' \<longleftrightarrow> total_violations pe = 0) \<and>
   fr_verdict (generate_report pe) \<noteq> ''SUSPICIOUS''"
proof -
  have le: "risk_score pe \<le> 100" by (auto simp: risk_score_def Let_def not_less)
  have "risk_score pe \<in> {0, 10, 15, 25}" if "total_violations pe = 0"
    using that by (simp add: risk_score_def Let_def)
  then have "\<not> 40 \<le> risk_score pe \<and> \<not> 80 \<le> risk_score pe" if "total_violations pe = 0"
    using that by auto
  with le show ?thesis
    by (cases "total_violations pe = 0") (simp_all add: generate_report_def Let_def word_greater_zero_iff)
qed

lemma process_event_open_tree:
  assumes "se_event_type ev = EVENT_OPEN" and "process_tree pe (se_pid ev) = Some n"
  shows "process_tree (snd (process_event pe ev)) (se_pid ev) =
     Some (if has_sub (c_str (se_arg_str ev)) ''.node'' then n\<lparr>pn_is_native_addon := True\<rparr> else n)"
  using assms by (simp add: process_event_def track_process_def classify_open_def mark_native_addon_def
      Let_def case_prod_beta)

text \<open>
  A process that loads a native add-on is confined from then on: after an open of a
  \<open>.node\<close> file by a tracked untrusted process, its next open of any path outside
  \<open>/workspace\<close> and \<open>/tmp\<close> is a violation.
\<close>

lemma native_addon_confined:
  assumes "se_event_type ev = EVENT_OPEN" and "has_sub (c_str (se_arg_str ev)) ''.node''"
    and "process_tree pe (se_pid ev) \<noteq> None" and "tainted pe (se_pid ev)"
    and "se_event_type ev' = EVENT_OPEN" and "se_pid ev' = se_pid ev"
    and "\<not> has_sub (c_str (se_arg_str ev')) ''/workspace''"
    and "\<not> has_sub (c_str (se_arg_str ev')) ''/tmp''"
  shows "record_violates (fst (process_event (snd (process_event pe ev)) ev'))"
proof -
  let ?pe' = "snd (process_event pe ev)"
  obtain n where n: "process_tree pe (se_pid ev) = Some n" using assms(3) by auto
  then have t: "process_tree ?pe' (se_pid ev') = Some (n\<lparr>pn_is_native_addon := True\<rparr>)"
    using process_event_open_tree [OF assms(1) n] assms(2,6) by simp
  then have "fst (classify_open (snd (track_process (?pe'\<lparr>total_events := x\<rparr>) ev')) ev')" for x
    using assms(5,7,8)
    by (simp add: track_process_def classify_open_def mark_native_addon_def has_sensitive_pattern_def
        Let_def case_prod_beta)
  moreover have "pn_is_preinstall_descendant n" using assms(4) n by (simp add: tainted_def)
  ultimately show ?thesis
    using t assms(5) by (simp add: process_event_fst record_violates_def track_process_def)
qed

lemma native_addon_confined_witness:
  "record_violates (fst (process_event (snd (process_event
        (register_process PolicyEngine_new 50 7 ''node'' True)
        (mk_event EVENT_OPEN 50 7 ''node'' ''/workspace/x.node'' 0)))
        (mk_event EVENT_OPEN 50 7 ''node'' ''/usr/lib/z'' 0)))"
  by (rule native_addon_confined)
    (simp_all add: register_process_def has_sub_def c_str_def)

text \<open>
  The script scanner cannot be defeated by surrounding text: if a script is rejected, every
  script that contains it is rejected.
\<close>

lemma scan_rejects_extensions:
  "scan_script_content s \<noteq> None \<Longrightarrow> scan_script_content (xs @ s @ ys) \<noteq> None"
  by (auto simp: scan_script_content_def split: if_splits dest: has_sub_append [of s _ xs ys])

lemma scan_rejects_extensions_witness:
  "scan_script_content (''const z = '' @ ''eval(x)'' @ '';'') \<noteq> None"
  by (rule scan_rejects_extensions) (simp add: scan_script_content_def has_sub_def)

section \<open>The flags of a record\<close>

text \<open>Records have two words of padding and flags that are 0 or 1.\<close>

definition record_wf :: "SyscallTraceRecord \<Rightarrow> bool" where
  "record_wf r \<longleftrightarrow> length (tr_padding r) = 2"

definition flags_01 :: "SyscallTraceRecord \<Rightarrow> bool" where
  "flags_01 r \<longleftrightarrow> record_wf r \<and> tr_is_preinstall r \<in> {0, 1} \<and> tr_is_sensitive r \<in> {0, 1} \<and> tr_is_unauthorized r \<in> {0, 1}"

lemma process_event_flags: "flags_01 (fst (process_event pe ev))"
  by (auto simp: process_event_def flags_01_def record_wf_def flag64_def Let_def split: prod.splits)

lemma process_events_flags: "\<forall>r \<in> set (fst (process_events pe evs)). flags_01 r"
proof (induction evs arbitrary: pe)
  case (Cons ev evs)
  obtain r pe' where "process_event pe ev = (r, pe')" by fastforce
  with Cons [of pe'] process_event_flags [of pe ev] show ?case by (cases "process_events pe' evs") simp
qed simp

end
