(* ===== verification/Vm_Controller.thy ===== *)
theory Vm_Controller
  imports Policy_Engine
begin

text \<open>
  The control state of the VM controller (\<open>src/host/vm_controller.mm\<close>): starting, the asynchronous
  completion of a start, stopping, and the connection of the guest agent. The Virtualization.framework
  objects are reduced to whether they exist; whether a configuration validates and whether a start
  succeeds are arguments. The stream of the mock mode is a list of events.
\<close>

section \<open>State\<close>

record VMController =
  vc_kernel_path :: string
  vc_initrd_path :: string
  vc_share_path :: string
  vc_running :: bool
  vc_vm :: bool
  vc_starting :: bool
  vc_stop_reader :: bool
  vc_vsock_fd :: "int option"
  vc_mock_thread :: bool

definition VMController_new :: "string \<Rightarrow> string \<Rightarrow> string \<Rightarrow> VMController" where
  "VMController_new k i s =
     \<lparr>vc_kernel_path = k, vc_initrd_path = i, vc_share_path = s, vc_running = False, vc_vm = False, vc_starting = False,
      vc_stop_reader = False, vc_vsock_fd = None, vc_mock_thread = False\<rparr>"

section \<open>Operations\<close>

text \<open>
  \<open>start\<close>: mock mode runs at once; otherwise a virtual machine is created and started asynchronously,
  so \<open>running\<close> is still false when \<open>start\<close> returns unless the completion handler has run.
\<close>

definition vm_start :: "bool \<Rightarrow> VMController \<Rightarrow> bool \<times> VMController" where
  "vm_start valid v =
     (if vc_running v then (True, v)
      else if vc_kernel_path v = ''mock''
      then (True, v\<lparr>vc_running := True, vc_stop_reader := False, vc_mock_thread := True\<rparr>)
      else if \<not> valid then (False, v)
      else (True, v\<lparr>vc_vm := True, vc_starting := True\<rparr>))"

definition start_completed :: "bool \<Rightarrow> VMController \<Rightarrow> VMController" where
  "start_completed ok v = v\<lparr>vc_running := ok, vc_starting := False\<rparr>"

text \<open>
  \<open>stop\<close>: the compare-and-exchange on \<open>running\<close> lets one caller through. The rest of the function, the
  joins and the wait for the framework's completion handler included, is taken together with it: no other
  caller passes the exchange, and the reference to the machine is dropped whether or not the
  handler was given an error, which is only printed.
\<close>

definition vm_stop :: "VMController \<Rightarrow> VMController" where
  "vm_stop v =
     (if \<not> vc_running v then v
      else let v = v\<lparr>vc_running := False, vc_stop_reader := True, vc_vsock_fd := None, vc_mock_thread := False\<rparr>
           in if vc_kernel_path v = ''mock'' then v else v\<lparr>vc_vm := False\<rparr>)"

definition start_reader :: "int \<Rightarrow> VMController \<Rightarrow> VMController" where
  "start_reader fd v = v\<lparr>vc_stop_reader := False, vc_vsock_fd := Some fd\<rparr>"

definition is_running :: "VMController \<Rightarrow> bool" where
  "is_running v = vc_running v"

text \<open>One round of the mock stream: an exec and an open of the same new process.\<close>

definition zero_SyscallEvent :: SyscallEvent where
  "zero_SyscallEvent =
     \<lparr>se_timestamp_ns = 0, se_pid = 0, se_ppid = 0, se_event_type = 0, se_comm = replicate 32 (CHR 0x00),
      se_arg_str = replicate 256 (CHR 0x00), se_ip_address = 0, se_port = 0, se_padding = replicate 2 0\<rparr>"

definition mock_round :: "u64 \<Rightarrow> SyscallEvent list" where
  "mock_round mock_pid =
     [zero_SyscallEvent\<lparr>se_timestamp_ns := 123456789, se_pid := mock_pid, se_ppid := 1000, se_event_type := EVENT_EXEC,
        se_comm := strncpy 32 ''node'', se_arg_str := strncpy 256 ''benign_script.js''\<rparr>,
      zero_SyscallEvent\<lparr>se_pid := mock_pid, se_ppid := 1000, se_event_type := EVENT_OPEN, se_comm := strncpy 32 ''node'',
        se_arg_str := strncpy 256 ''/workspace/node_modules/benign/index.js''\<rparr>]"

definition mock_stream :: "nat \<Rightarrow> SyscallEvent list" where
  "mock_stream rounds = concat (map (\<lambda>k. mock_round (2000 + of_nat (Suc k))) [0..<rounds])"

section \<open>Stopping\<close>

lemma vm_stop_running [simp]: "\<not> vc_running (vm_stop v)"
  by (simp add: vm_stop_def Let_def)

lemma vm_stop_starting [simp]: "vc_starting (vm_stop v) = vc_starting v"
  by (simp add: vm_stop_def Let_def)

lemma vm_stop_idem: "vm_stop (vm_stop v) = vm_stop v"
  by (simp add: vm_stop_def Let_def)

end
