(* ===== verification/Vm_Config.thy ===== *)
theory Vm_Config
  imports Vm_Controller
begin

text \<open>
  The machine the VM controller asks Virtualization.framework for (\<open>VMControllerImpl::start\<close> and
  \<open>VZVsockDelegate\<close> of \<open>src/host/vm_controller.mm\<close>): the configuration, field by field, the listener for the
  guest agent, and the acceptance of its connections. The framework's validation and the outcome of opening
  the console file are arguments.

  Shown: what a started machine can reach. Its listener is on the port of the agent; the shared directory
  of the host is writable in the guest, the network is attached in every configuration, and every connection
  to the port is accepted.
\<close>

section \<open>Configuration\<close>

datatype vz_network = VZ_NAT

record vz_share =
  sh_tag :: string
  sh_url :: string
  sh_readOnly :: bool

record vz_config =
  vz_kernelURL :: string
  vz_initialRamdiskURL :: "string option"
  vz_commandLine :: string
  vz_CPUCount :: nat
  vz_memorySize :: nat
  vz_directorySharingDevices :: "vz_share list"
  vz_entropyDevices :: nat
  vz_socketDevices :: nat
  vz_networkDevices :: "vz_network list"
  vz_serialPorts :: "string list"

definition VSOCK_TRACE_PORT :: nat where
  "VSOCK_TRACE_PORT = 10245"

text \<open>\<open>attached\<close>: whether the console file could be opened.\<close>

definition vm_config :: "bool \<Rightarrow> VMController \<Rightarrow> vz_config" where
  "vm_config attached v =
     \<lparr>vz_kernelURL = vc_kernel_path v,
      vz_initialRamdiskURL = (if vc_initrd_path v \<noteq> [] then Some (vc_initrd_path v) else None),
      vz_commandLine = ''console=hvc0 root=/dev/ram rdinit=/sbin/init'',
      vz_CPUCount = 2,
      vz_memorySize = 2 * 1024 * 1024 * 1024,
      vz_directorySharingDevices =
        (if vc_share_path v \<noteq> [] then [\<lparr>sh_tag = ''aarchgate_share'', sh_url = vc_share_path v, sh_readOnly = False\<rparr>] else []),
      vz_entropyDevices = 1,
      vz_socketDevices = 1,
      vz_networkDevices = [VZ_NAT],
      vz_serialPorts = (if attached then [''/tmp/aarchgate_vm_console.log''] else [])\<rparr>"

section \<open>Starting\<close>

text \<open>A machine with the ports of its first socket device that have a listener.\<close>

record vz_machine =
  vz_of :: vz_config
  vz_listeners :: "nat set"

definition vm_instantiate :: "vz_config \<Rightarrow> vz_machine" where
  "vm_instantiate c = \<lparr>vz_of = c, vz_listeners = (if vz_socketDevices c > 0 then {VSOCK_TRACE_PORT} else {})\<rparr>"

definition vm_launch :: "(vz_config \<Rightarrow> bool) \<Rightarrow> bool \<Rightarrow> VMController \<Rightarrow> bool \<times> VMController \<times> vz_machine option" where
  "vm_launch validate attached v =
     (let c = vm_config attached v; (ok, v') = vm_start (validate c) v
      in (ok, v', if \<not> vc_running v \<and> vc_kernel_path v \<noteq> ''mock'' \<and> ok then Some (vm_instantiate c) else None))"

text \<open>\<open>listener:shouldAcceptNewConnection:\<close>: with a handler, the descriptor is duplicated and given to the reader.\<close>

definition should_accept :: "bool \<Rightarrow> int \<Rightarrow> VMController \<Rightarrow> bool \<times> VMController" where
  "should_accept handler dup_fd v = (True, if handler then start_reader dup_fd v else v)"

section \<open>What a started machine can reach\<close>

lemma vm_launch_machine:
  assumes "\<not> vc_running v" and "vc_kernel_path v \<noteq> ''mock''"
  shows "vm_launch validate attached v =
    (if validate (vm_config attached v)
     then (True, v\<lparr>vc_vm := True, vc_starting := True\<rparr>, Some (vm_instantiate (vm_config attached v)))
     else (False, v, None))"
  using assms by (simp add: vm_launch_def vm_start_def Let_def)

text \<open>The mock mode and a running controller create nothing.\<close>

lemma vm_launch_none:
  assumes "vc_running v \<or> vc_kernel_path v = ''mock''"
  shows "fst (vm_launch validate attached v) \<and> snd (snd (vm_launch validate attached v)) = None"
  using assms by (auto simp: vm_launch_def vm_start_def Let_def)

text \<open>
  Every machine that is started shares the project directory writable, if there is one, has a network
  device, and listens on the port of the agent.
\<close>

lemma started_machine_reach:
  assumes "vm_launch validate attached v = (ok, v', Some m)"
  shows "vz_listeners m = {VSOCK_TRACE_PORT} \<and> vz_networkDevices (vz_of m) \<noteq> [] \<and>
    (vc_share_path v \<noteq> [] \<longrightarrow> (\<exists>sh. vz_directorySharingDevices (vz_of m) = [sh] \<and> sh_url sh = vc_share_path v \<and> \<not> sh_readOnly sh))"
proof -
  have "\<not> (vc_running v \<or> vc_kernel_path v = ''mock'')"
  proof
    assume "vc_running v \<or> vc_kernel_path v = ''mock''"
    from vm_launch_none [OF this, of validate attached] assms show False by simp
  qed
  with assms have "m = vm_instantiate (vm_config attached v)" by (simp add: vm_launch_machine split: if_splits)
  then show ?thesis by (simp add: vm_instantiate_def vm_config_def)
qed

text \<open>Every connection to the port is accepted, and the last one is the source of the events.\<close>

lemma last_connection_read:
  "fst (should_accept h fd v) \<and> vc_vsock_fd (snd (should_accept True fd (snd (should_accept True fd' v)))) = Some fd"
  by (simp add: should_accept_def start_reader_def)

end
