(* ===== verification/Byte_Codec.thy ===== *)
theory Byte_Codec
  imports AG_Prelude
begin

text \<open>
  Byte images of the packed structures that cross a process boundary or a file: little-endian
  integers, \<open>char\<close> arrays, and the splitting of a byte stream into records of a fixed size. The
  locale \<open>record_codec\<close> is the contract of such a record format; each format of the program
  (the VSOCK event, the binary manifest entry) interprets it, and the lemmas on streams and files of
  records are proved once, here.
\<close>

section \<open>Integers and character arrays\<close>

definition le_bytes :: "nat \<Rightarrow> 'a :: len word \<Rightarrow> u8 list" where
  "le_bytes n w = map (\<lambda>i. ucast (drop_bit (8 * i) w)) [0..<n]"

fun le_word :: "u8 list \<Rightarrow> 'a :: len word" where
  "le_word [] = 0"
| "le_word (b # bs) = ucast b OR push_bit 8 (le_word bs)"

definition chars_bytes :: "char list \<Rightarrow> u8 list" where
  "chars_bytes cs = map (\<lambda>c. word_of_nat (of_char c)) cs"

definition bytes_chars :: "u8 list \<Rightarrow> char list" where
  "bytes_chars bs = map (\<lambda>b. char_of (unat b)) bs"

lemma length_le_bytes [simp]: "length (le_bytes n w) = n"
  by (simp add: le_bytes_def)

lemma length_chars_bytes [simp]: "length (chars_bytes cs) = length cs"
  by (simp add: chars_bytes_def)

lemma bit_le_word:
  "bit (le_word bs :: 'a :: len word) i \<longleftrightarrow>
     i < LENGTH('a) \<and> i div 8 < length bs \<and> bit (bs ! (i div 8)) (i mod 8)"
proof (induction bs arbitrary: i)
  case (Cons b bs)
  show ?case
  proof (cases "i < 8")
    case True
    then show ?thesis by (auto simp: bit_or_iff bit_push_bit_iff bit_ucast_iff)
  next
    case False
    then have i: "i div 8 = Suc ((i - 8) div 8)" "i mod 8 = (i - 8) mod 8"
      by (simp_all add: le_div_geq le_mod_geq)
    from False have "\<not> bit b i" using bit_imp_le_length [of b i] by auto
    with False show ?thesis
      by (auto simp: bit_or_iff bit_push_bit_iff bit_ucast_iff Cons i)
  qed
qed simp

lemma le_word_bytes [simp]:
  assumes "LENGTH('a) \<le> 8 * n"
  shows "le_word (le_bytes n w) = (w :: 'a :: len word)"
proof (rule word_bit_eqI)
  fix i assume i: "i < LENGTH('a)"
  then have "i div 8 < n" using assms by (simp add: less_mult_imp_div_less mult.commute)
  moreover have "8 * (i div 8) + i mod 8 = i" by simp
  ultimately show "bit (le_word (le_bytes n w) :: 'a word) i = bit w i"
    using i by (simp add: bit_le_word le_bytes_def bit_ucast_iff bit_drop_bit_eq)
qed

lemma bytes_chars_bytes [simp]: "bytes_chars (chars_bytes cs) = cs"
proof -
  have "char_of (unat (word_of_nat (of_char c) :: u8)) = c" for c
  proof -
    have "(of_char c :: nat) < 256" by (cases c) (simp add: of_char_Char)
    then show ?thesis by (simp add: unat_of_nat)
  qed
  then show ?thesis by (simp add: bytes_chars_def chars_bytes_def comp_def)
qed

section \<open>Records of a fixed size in a byte stream\<close>

text \<open>
  \<open>while (buffer.size() >= sizeof(T)) { copy; erase; }\<close>: the records taken off the front of the
  buffer and the bytes left.
\<close>

function frames :: "nat \<Rightarrow> (u8 list \<Rightarrow> 'r) \<Rightarrow> u8 list \<Rightarrow> 'r list \<times> u8 list" where
  "frames n dec buf =
     (if n = 0 \<or> length buf < n then ([], buf)
      else case frames n dec (drop n buf) of (rs, rest) \<Rightarrow> (dec (take n buf) # rs, rest))"
  by pat_completeness auto
termination by (relation "measure (\<lambda>(n, dec, buf). length buf)") auto

declare frames.simps [simp del]

locale record_codec =
  fixes enc :: "'r \<Rightarrow> u8 list" and dec :: "u8 list \<Rightarrow> 'r" and size :: nat and wf :: "'r \<Rightarrow> bool"
  assumes size_pos: "0 < size"
    and length_enc: "wf r \<Longrightarrow> length (enc r) = size"
    and dec_enc: "wf r \<Longrightarrow> dec (enc r) = r"
begin

lemma frames_short: "length buf < size \<Longrightarrow> frames size dec buf = ([], buf)"
  by (subst frames.simps) simp

lemma frames_enc:
  "wf r \<Longrightarrow> frames size dec (enc r @ buf) = (case frames size dec buf of (rs, rest) \<Rightarrow> (r # rs, rest))"
  using size_pos by (subst frames.simps) (simp add: length_enc dec_enc)

lemma frames_concat:
  "(\<forall>r \<in> set rs. wf r) \<Longrightarrow>
   frames size dec (concat (map enc rs) @ buf) =
     (case frames size dec buf of (rs', rest) \<Rightarrow> (rs @ rs', rest))"
  by (induction rs) (auto simp: frames_enc split: prod.splits)

lemma length_concat_enc: "(\<forall>r \<in> set rs. wf r) \<Longrightarrow> length (concat (map enc rs)) = size * length rs"
  by (induction rs) (simp_all add: length_enc)

lemma frames_rest: "frames size dec buf = (rs, rest) \<Longrightarrow> length rest < size"
proof (induction "length buf" arbitrary: buf rs rule: less_induct)
  case less
  show ?case
  proof (cases "length buf < size")
    case True
    with less.prems show ?thesis by (simp add: frames_short)
  next
    case False
    with less.prems size_pos obtain rs' where "frames size dec (drop size buf) = (rs', rest)"
      by (auto simp: frames.simps [of size dec buf] split: prod.splits)
    with False size_pos less.hyps [of "drop size buf" rs'] show ?thesis by simp
  qed
qed

text \<open>Feeding a stream in pieces gives the records of the whole stream.\<close>

lemma frames_append:
  "frames size dec buf = (rs, rest) \<Longrightarrow>
   frames size dec (buf @ more) = (case frames size dec (rest @ more) of (rs', rest') \<Rightarrow> (rs @ rs', rest'))"
proof (induction size dec buf arbitrary: rs rule: frames.induct)
  case (1 n d buf)
  show ?case
  proof (cases "n = 0 \<or> length buf < n")
    case True
    with "1.prems" have "rs = []" "rest = buf" by (simp_all add: frames.simps [of n d buf])
    then show ?thesis by simp
  next
    case False
    then obtain rs' where r: "frames n d (drop n buf) = (rs', rest)" "rs = d (take n buf) # rs'"
      using "1.prems" by (auto simp: frames.simps [of n d buf] split: prod.splits)
    from False have "frames n d (buf @ more) =
        (case frames n d (drop n buf @ more) of (xs, r) \<Rightarrow> (d (take n buf) # xs, r))"
      by (subst frames.simps) simp
    with "1.IH" [OF False r(1)] r(2) show ?thesis by (simp split: prod.splits)
  qed
qed

end

end
