(* ===== verification/Guest_Tracer.thy ===== *)
theory Guest_Tracer
  imports Policy_Engine Byte_Codec
begin

text \<open>
  The guest side of the telemetry: the eBPF programs of \<open>src/guest/tracer.bpf.c\<close>, the agent of
  \<open>src/guest/agent.cpp\<close> that forwards their events over VSOCK, the packed wire format of
  \<open>common/vsock_protocol.h\<close>, and the host's reader thread (\<open>start_reader\<close> of
  \<open>src/host/vm_controller.mm\<close>). The Linux helpers and the tracepoint arguments are the record
  \<open>kernel\<close>; memory reserved in the BPF ring buffer is not cleared, so every program takes the
  old contents of its reservation.
\<close>

section \<open>Kernel services\<close>

record sockaddr_in =
  sin_port :: u16
  sin_addr :: u32

text \<open>
  What the helpers return in one invocation. The string readers take the size and the old contents of
  the destination. A read that is refused is \<open>None\<close>: \<open>bpf_probe_read_kernel\<close> reads the kernel's address space
  and \<open>bpf_probe_read_user\<close> that of the process.
\<close>

record kernel =
  ktime_get_ns :: u64
  current_pid_tgid :: u64
  current_comm :: "char list"
  real_parent_tgid :: "u32 option"
  read_kernel_str :: "nat \<Rightarrow> u64 \<Rightarrow> char list \<Rightarrow> char list"
  read_user_str :: "nat \<Rightarrow> u64 \<Rightarrow> char list \<Rightarrow> char list"
  read_kernel_family :: "u64 \<Rightarrow> u16 option"
  read_user_sockaddr_in :: "u64 \<Rightarrow> sockaddr_in option"

definition AF_INET :: u16 where "AF_INET = 2"
definition AF_INET6 :: u16 where "AF_INET6 = 10"

section \<open>The eBPF programs\<close>

text \<open>\<open>__builtin_memcpy\<close> of a string literal with its NUL.\<close>

definition memcpy_literal :: "char list \<Rightarrow> string \<Rightarrow> char list" where
  "memcpy_literal dst lit = (lit @ [CHR 0x00]) @ drop (length lit + 1) dst"

definition fill_common :: "kernel \<Rightarrow> u64 \<Rightarrow> SyscallEvent \<Rightarrow> SyscallEvent" where
  "fill_common k type ev =
     ev\<lparr>se_timestamp_ns := ktime_get_ns k, se_pid := drop_bit 32 (current_pid_tgid k),
        se_event_type := type, se_comm := current_comm k,
        se_ppid := (case real_parent_tgid k of Some tgid \<Rightarrow> scast tgid | None \<Rightarrow> 0)\<rparr>"

text \<open>
  Each program gives the events it submits. \<open>rsv\<close> is the reservation: \<open>None\<close> when the ring
  buffer is full.
\<close>

definition trace_exec :: "kernel \<Rightarrow> u64 \<Rightarrow> SyscallEvent option \<Rightarrow> SyscallEvent list" where
  "trace_exec k filename rsv =
     (case rsv of None \<Rightarrow> []
      | Some ev \<Rightarrow>
          (let ev = fill_common k EVENT_EXEC ev
           in [ev\<lparr>se_arg_str := read_kernel_str k 256 filename (se_arg_str ev)\<rparr>]))"

definition trace_fork ::
  "kernel \<Rightarrow> u32 \<Rightarrow> u32 \<Rightarrow> u64 \<Rightarrow> SyscallEvent option \<Rightarrow> SyscallEvent list" where
  "trace_fork k child_pid parent_pid parent_comm rsv =
     (case rsv of None \<Rightarrow> []
      | Some ev \<Rightarrow>
          (let ev = fill_common k EVENT_FORK ev;
               ev = ev\<lparr>se_pid := scast child_pid, se_ppid := scast parent_pid\<rparr>;
               ev = ev\<lparr>se_comm := read_kernel_str k 32 parent_comm (se_comm ev)\<rparr>
           in [ev\<lparr>se_arg_str := memcpy_literal (se_arg_str ev) ''fork''\<rparr>]))"

definition trace_openat :: "kernel \<Rightarrow> u64 \<Rightarrow> SyscallEvent option \<Rightarrow> SyscallEvent list" where
  "trace_openat k filename rsv =
     (case rsv of None \<Rightarrow> []
      | Some ev \<Rightarrow>
          (let ev = fill_common k EVENT_OPEN ev
           in [ev\<lparr>se_arg_str := read_user_str k 256 filename (se_arg_str ev)\<rparr>]))"

text \<open>\<open>((raw & 0xff) << 8) | ((raw & 0xff00) >> 8)\<close>.\<close>

definition ntohs :: "u16 \<Rightarrow> u16" where
  "ntohs raw_port = (push_bit 8 (raw_port AND 0xff)) OR (drop_bit 8 (raw_port AND 0xff00))"

text \<open>
  The address family is read with the helper for kernel memory, although the pointer is an argument of
  the process. A refused read leaves zeros.
\<close>

definition sa_family :: "kernel \<Rightarrow> u64 \<Rightarrow> u16" where
  "sa_family k addr = (case read_kernel_family k addr of None \<Rightarrow> 0 | Some f \<Rightarrow> f)"

definition addr_in :: "kernel \<Rightarrow> u64 \<Rightarrow> sockaddr_in" where
  "addr_in k addr = (case read_user_sockaddr_in k addr of None \<Rightarrow> \<lparr>sin_port = 0, sin_addr = 0\<rparr> | Some a \<Rightarrow> a)"

definition trace_connect :: "kernel \<Rightarrow> u64 \<Rightarrow> SyscallEvent option \<Rightarrow> SyscallEvent list" where
  "trace_connect k addr rsv =
     (case rsv of None \<Rightarrow> []
      | Some ev \<Rightarrow>
          (let ev = fill_common k EVENT_CONNECT ev
           in [if addr = 0 then ev
               else if sa_family k addr = AF_INET
               then (let a = addr_in k addr
                     in ev\<lparr>se_ip_address := sin_addr a, se_port := ntohs (sin_port a),
                          se_arg_str := memcpy_literal (se_arg_str ev) ''ipv4_connect''\<rparr>)
               else if sa_family k addr = AF_INET6
               then ev\<lparr>se_arg_str := memcpy_literal (se_arg_str ev) ''ipv6_connect''\<rparr>
               else ev\<lparr>se_arg_str := memcpy_literal (se_arg_str ev) ''other_connect''\<rparr>]))"

definition trace_sendto :: "kernel \<Rightarrow> u64 \<Rightarrow> SyscallEvent option \<Rightarrow> SyscallEvent list" where
  "trace_sendto k addr rsv =
     (if addr = 0 then []
      else if sa_family k addr = AF_INET
      then (let a = addr_in k addr; port = ntohs (sin_port a)
            in if port = 53
               then (case rsv of None \<Rightarrow> []
                     | Some ev \<Rightarrow>
                         (let ev = fill_common k EVENT_CONNECT ev
                          in [ev\<lparr>se_ip_address := sin_addr a, se_port := 53,
                                 se_arg_str := memcpy_literal (se_arg_str ev) ''dns_exfil_query''\<rparr>]))
               else [])
      else [])"

section \<open>The wire format\<close>

definition event_wf :: "SyscallEvent \<Rightarrow> bool" where
  "event_wf ev \<longleftrightarrow> length (se_comm ev) = 32 \<and> length (se_arg_str ev) = 256 \<and> length (se_padding ev) = 2"

text \<open>\<open>sizeof(SyscallEvent)\<close> of the packed structure.\<close>

definition sizeof_SyscallEvent :: nat where
  "sizeof_SyscallEvent = 328"

definition encode_SyscallEvent :: "SyscallEvent \<Rightarrow> u8 list" where
  "encode_SyscallEvent ev =
     le_bytes 8 (se_timestamp_ns ev) @ le_bytes 8 (se_pid ev) @ le_bytes 8 (se_ppid ev) @
     le_bytes 8 (se_event_type ev) @ chars_bytes (se_comm ev) @ chars_bytes (se_arg_str ev) @
     le_bytes 4 (se_ip_address ev) @ le_bytes 2 (se_port ev) @ se_padding ev"

definition field_at :: "nat \<Rightarrow> nat \<Rightarrow> u8 list \<Rightarrow> u8 list" where
  "field_at off n bs = take n (drop off bs)"

definition decode_SyscallEvent :: "u8 list \<Rightarrow> SyscallEvent" where
  "decode_SyscallEvent bs =
     \<lparr>se_timestamp_ns = le_word (field_at 0 8 bs), se_pid = le_word (field_at 8 8 bs),
      se_ppid = le_word (field_at 16 8 bs), se_event_type = le_word (field_at 24 8 bs),
      se_comm = bytes_chars (field_at 32 32 bs), se_arg_str = bytes_chars (field_at 64 256 bs),
      se_ip_address = le_word (field_at 320 4 bs), se_port = le_word (field_at 324 2 bs),
      se_padding = field_at 326 2 bs\<rparr>"

section \<open>The agent\<close>

text \<open>
  \<open>connect_to_host\<close>: at most five attempts; \<open>connect_ok i\<close> is the outcome of attempt
  \<open>i\<close>. The result is whether it connected and the number of attempts.
\<close>

fun connect_retries :: "(nat \<Rightarrow> bool) \<Rightarrow> nat \<Rightarrow> nat \<Rightarrow> bool \<times> nat" where
  "connect_retries connect_ok tried 0 = (False, tried)"
| "connect_retries connect_ok tried (Suc retries) =
     (if connect_ok tried then (True, Suc tried) else connect_retries connect_ok (Suc tried) retries)"

definition connect_to_host :: "bool \<Rightarrow> (nat \<Rightarrow> bool) \<Rightarrow> bool \<times> nat" where
  "connect_to_host socket_ok connect_ok =
     (if \<not> socket_ok then (False, 0) else connect_retries connect_ok 0 5)"

record agent =
  g_stop :: bool
  g_vsock_connected :: bool
  vsock_out :: "u8 list"

text \<open>
  \<open>handle_bpf_event\<close>: \<open>w\<close> is what \<open>write\<close> returned, \<open>None\<close> for an error and
  the number of bytes taken otherwise.
\<close>

definition handle_bpf_event :: "nat option \<Rightarrow> SyscallEvent \<Rightarrow> agent \<Rightarrow> agent" where
  "handle_bpf_event w ev ag =
     (if \<not> g_vsock_connected ag then ag
      else case w of None \<Rightarrow> ag\<lparr>g_stop := True\<rparr>
           | Some n \<Rightarrow> ag\<lparr>vsock_out := vsock_out ag @ take n (encode_SyscallEvent ev)\<rparr>)"

text \<open>
  One \<open>ring_buffer__poll\<close>: the events it consumed with the results of their writes, or an error
  (other than an interrupt), which ends the polling loop. The loop runs over the polls the kernel
  answers. An interrupted poll may have been interrupted by a stop signal, whose handler
  sets \<open>g_stop\<close>.
\<close>

datatype poll_result = Polled "(nat option \<times> SyscallEvent) list" | Poll_Interrupted bool | Poll_Error

fun poll_loop :: "poll_result list \<Rightarrow> agent \<Rightarrow> agent" where
  "poll_loop [] ag = ag"
| "poll_loop (p # ps) ag =
     (if g_stop ag then ag
      else case p of
        Polled evs \<Rightarrow> poll_loop ps (fold (\<lambda>(w, ev). handle_bpf_event w ev) evs ag)
      | Poll_Interrupted stop_signal \<Rightarrow> poll_loop ps (if stop_signal then ag\<lparr>g_stop := True\<rparr> else ag)
      | Poll_Error \<Rightarrow> ag)"

text \<open>\<open>main\<close>: the exit code and the bytes sent.\<close>

definition agent_main ::
  "bool \<Rightarrow> (nat \<Rightarrow> bool) \<Rightarrow> bool \<Rightarrow> bool \<Rightarrow> bool \<Rightarrow> poll_result list \<Rightarrow> int \<times> u8 list" where
  "agent_main socket_ok connect_ok load_ok attach_ok ring_ok polls =
     (if \<not> fst (connect_to_host socket_ok connect_ok) then (1, [])
      else if \<not> load_ok then (1, [])
      else if \<not> attach_ok then (1, [])
      else if \<not> ring_ok then (1, [])
      else (0, vsock_out (poll_loop polls \<lparr>g_stop = False, g_vsock_connected = True, vsock_out = []\<rparr>)))"

section \<open>The host's reader thread\<close>

text \<open>
  The reader loop over the results of \<open>read\<close>, each with the value of \<open>stop_reader\<close> tested
  before it; an empty result is end of file or an error. The events passed to the callback and the
  bytes left in the buffer.
\<close>

fun reader_loop :: "u8 list \<Rightarrow> (bool \<times> u8 list) list \<Rightarrow> SyscallEvent list \<times> u8 list" where
  "reader_loop buffer [] = ([], buffer)"
| "reader_loop buffer ((stop_reader, temp) # reads) =
     (if stop_reader then ([], buffer)
      else if temp = [] then ([], buffer)
      else case frames sizeof_SyscallEvent decode_SyscallEvent (buffer @ temp) of
        (evs, buffer') \<Rightarrow>
          (case reader_loop buffer' reads of (evs', rest) \<Rightarrow> (evs @ evs', rest)))"

section \<open>The wire format is a codec\<close>

lemma length_encode: "event_wf ev \<Longrightarrow> length (encode_SyscallEvent ev) = 328"
  by (simp add: encode_SyscallEvent_def event_wf_def)

lemma decode_encode: "event_wf ev \<Longrightarrow> decode_SyscallEvent (encode_SyscallEvent ev) = ev"
  by (simp add: encode_SyscallEvent_def decode_SyscallEvent_def event_wf_def field_at_def)

interpretation vsock: record_codec encode_SyscallEvent decode_SyscallEvent sizeof_SyscallEvent event_wf
  by unfold_locales (simp_all add: sizeof_SyscallEvent_def length_encode decode_encode)

lemma reader_loop_frames:
  "(\<forall>c \<in> set chunks. c \<noteq> []) \<Longrightarrow> length buffer < sizeof_SyscallEvent \<Longrightarrow>
   reader_loop buffer (map (Pair False) chunks) =
     frames sizeof_SyscallEvent decode_SyscallEvent (buffer @ concat chunks)"
proof (induction chunks arbitrary: buffer)
  case Nil
  then show ?case by (simp add: vsock.frames_short)
next
  case (Cons c chunks)
  obtain evs rest where f: "frames sizeof_SyscallEvent decode_SyscallEvent (buffer @ c) = (evs, rest)"
    by fastforce
  with Cons.IH [OF _ vsock.frames_rest [OF f]] Cons.prems vsock.frames_append [OF f, of "concat chunks"]
  show ?case by (simp split: prod.splits)
qed

lemma fold_complete_writes:
  "(\<forall>ev \<in> set evs. event_wf ev) \<Longrightarrow> g_vsock_connected ag \<Longrightarrow>
   fold (\<lambda>(w, ev). handle_bpf_event w ev) (map (Pair (Some sizeof_SyscallEvent)) evs) ag =
     ag\<lparr>vsock_out := vsock_out ag @ concat (map encode_SyscallEvent evs)\<rparr>"
  by (induction evs arbitrary: ag) (simp_all add: handle_bpf_event_def sizeof_SyscallEvent_def length_encode)

lemma poll_complete_writes:
  "(\<forall>evs \<in> set batches. \<forall>ev \<in> set evs. event_wf ev) \<Longrightarrow> g_vsock_connected ag \<Longrightarrow> \<not> g_stop ag \<Longrightarrow>
   vsock_out (poll_loop (map (\<lambda>evs. Polled (map (Pair (Some sizeof_SyscallEvent)) evs)) batches) ag) =
     vsock_out ag @ concat (map encode_SyscallEvent (concat batches))"
  by (induction batches arbitrary: ag) (simp_all add: fold_complete_writes)

section \<open>Properties\<close>

text \<open>
  Claim C14. The telemetry stream loses, adds and reorders nothing: when the agent connected and its
  writes are complete, the host's reader delivers exactly the events the eBPF programs submitted, in
  their order, however the bytes were split over the reads, and no byte is left over.
\<close>

theorem telemetry_delivered:
  assumes "fst (connect_to_host socket_ok connect_ok)"
    and "\<forall>evs \<in> set batches. \<forall>ev \<in> set evs. event_wf ev"
    and "\<forall>c \<in> set chunks. c \<noteq> []"
    and "concat chunks = snd (agent_main socket_ok connect_ok True True True
           (map (\<lambda>evs. Polled (map (Pair (Some sizeof_SyscallEvent)) evs)) batches))"
  shows "reader_loop [] (map (Pair False) chunks) = (concat batches, [])"
proof -
  have "concat chunks = concat (map encode_SyscallEvent (concat batches))"
    using assms(1,2,4) by (simp add: agent_main_def poll_complete_writes)
  moreover have "\<forall>ev \<in> set (concat batches). event_wf ev" using assms(2) by simp
  ultimately show ?thesis
    using assms(3) vsock.frames_concat [of "concat batches" "[]"]
    by (simp add: reader_loop_frames vsock.frames_short vsock.size_pos)
qed

definition idle_event :: SyscallEvent where
  "idle_event = \<lparr>se_timestamp_ns = 0, se_pid = 0, se_ppid = 0, se_event_type = 0,
     se_comm = replicate 32 (CHR 0x00), se_arg_str = replicate 256 (CHR 0x00),
     se_ip_address = 0, se_port = 0, se_padding = [0, 0]\<rparr>"

lemma idle_event_wf: "event_wf idle_event"
  by (simp add: event_wf_def idle_event_def)

theorem telemetry_delivered_witness:
  "reader_loop [] (map (Pair False)
      [take 5 (encode_SyscallEvent idle_event), drop 5 (encode_SyscallEvent idle_event)]) = ([idle_event], [])"
proof -
  have l: "length (encode_SyscallEvent idle_event) = 328" using idle_event_wf by (rule length_encode)
  then have "take 5 (encode_SyscallEvent idle_event) \<noteq> []" "drop 5 (encode_SyscallEvent idle_event) \<noteq> []"
    by auto
  then have "reader_loop [] (map (Pair False)
      [take 5 (encode_SyscallEvent idle_event), drop 5 (encode_SyscallEvent idle_event)]) = (concat [[idle_event]], [])"
    using idle_event_wf l
    by (intro telemetry_delivered [where socket_ok = True and connect_ok = "\<lambda>i. i = 3"])
      (simp_all add: connect_to_host_def eval_nat_numeral agent_main_def handle_bpf_event_def sizeof_SyscallEvent_def)
  then show ?thesis by simp
qed

text \<open>
  Claim C18. What the tracer reports of an untrusted process that connects or sends: if the ring buffer has
  room for it (\<open>rsv\<close>), a \<open>connect\<close> gives exactly one event, whatever the destination, the outcome of the reads
  and the old contents of the buffer, and the event is a violation; if not, it gives none. A \<open>sendto\<close> gives an
  event, again a violation, exactly if there is room, the read of the family by the kernel helper gives IPv4
  and the port read from the process is 53.
\<close>

theorem untrusted_connect_violates:
  assumes "tainted pe (drop_bit 32 (current_pid_tgid k))"
  shows "length (trace_connect k addr rsv) = (if rsv = None then 0 else 1) \<and>
    list_all (\<lambda>ev. record_violates (fst (process_event pe ev))) (trace_connect k addr rsv) \<and>
    length (trace_sendto k addr rsv) = (if rsv \<noteq> None \<and> addr \<noteq> 0 \<and> read_kernel_family k addr = Some AF_INET \<and>
      (\<exists>a. read_user_sockaddr_in k addr = Some a \<and> ntohs (sin_port a) = 53) then 1 else 0) \<and>
    list_all (\<lambda>ev. record_violates (fst (process_event pe ev))) (trace_sendto k addr rsv)"
proof -
  have v: "record_violates (fst (process_event pe ev))"
    if "se_pid ev = drop_bit 32 (current_pid_tgid k)" "se_event_type ev = EVENT_CONNECT" for ev
    using that assms by (simp add: connect_violates tainted_proc)
  have "ntohs 0 = 0" by (simp add: ntohs_def)
  then show ?thesis
    by (auto simp: trace_connect_def trace_sendto_def sa_family_def addr_in_def AF_INET_def fill_common_def Let_def
        split: option.splits intro!: v)
qed

text \<open>Where the kernel's helper refuses an address of the process, no query sent with \<open>sendto\<close> is reported.\<close>

lemma dns_query_missed: "read_kernel_family k addr = None \<Longrightarrow> trace_sendto k addr rsv = []"
  by (simp add: trace_sendto_def sa_family_def AF_INET_def)

definition sample_kernel :: kernel where
  "sample_kernel = \<lparr>ktime_get_ns = 1, current_pid_tgid = 0x3200000032, current_comm = replicate 32 (CHR ''n''),
     real_parent_tgid = Some 7, read_kernel_str = (\<lambda>n p d. d), read_user_str = (\<lambda>n p d. d),
     read_kernel_family = (\<lambda>p. Some 2), read_user_sockaddr_in = (\<lambda>p. Some \<lparr>sin_port = 0x3500, sin_addr = 1\<rparr>)\<rparr>"

theorem untrusted_connect_violates_witness:
  "list_all (\<lambda>ev. record_violates (fst (process_event (register_process PolicyEngine_new 50 7 ''node'' True) ev)))
     (trace_connect sample_kernel 4096 (Some idle_event)) \<and>
   length (trace_sendto sample_kernel 4096 (Some idle_event)) = 1 \<and> trace_connect sample_kernel 4096 None = []"
proof -
  have t: "tainted (register_process PolicyEngine_new 50 7 ''node'' True)
      (drop_bit 32 (current_pid_tgid sample_kernel))"
    by (simp add: register_process_def sample_kernel_def drop_bit_eq_div)
  have "ntohs 0x3500 = 53" by code_simp
  then show ?thesis using untrusted_connect_violates [OF t, of 4096 "Some idle_event"] untrusted_connect_violates [OF t, of 4096 None]
    by (simp add: sample_kernel_def AF_INET_def)
qed

text \<open>
  A fork is seen before the child runs anything: the event of \<open>sched_process_fork\<close>
  carries the pids of child and parent, and after it the child of an untrusted process is untrusted.
\<close>

lemma forked_child_untrusted:
  assumes "tainted pe (scast parent_pid)"
  shows "map (\<lambda>ev. (se_pid ev, se_ppid ev)) (trace_fork k child_pid parent_pid pc (Some old)) =
      [(scast child_pid, scast parent_pid)] \<and>
    tainted (snd (process_events pe (trace_fork k child_pid parent_pid pc (Some old)))) (scast child_pid)"
proof -
  obtain ev where ev: "trace_fork k child_pid parent_pid pc (Some old) = [ev]"
    "se_pid ev = scast child_pid" "se_ppid ev = scast parent_pid" "se_event_type ev = EVENT_FORK"
    by (simp add: trace_fork_def fill_common_def Let_def)
  then have "tainted (snd (process_event pe ev)) (scast child_pid)"
    using assms spawn_tainted [of ev pe] by (simp add: spawns_def)
  with ev show ?thesis by (simp add: case_prod_beta)
qed

lemma forked_child_untrusted_witness:
  "tainted (snd (process_events (register_process PolicyEngine_new 50 7 ''node'' True)
     (trace_fork sample_kernel 51 50 0 (Some idle_event)))) 51"
proof -
  have "tainted (register_process PolicyEngine_new 50 7 ''node'' True) (scast (50 :: u32))"
    by (simp add: register_process_def)
  from forked_child_untrusted [OF this, of sample_kernel 51 0 idle_event] show ?thesis by simp
qed

lemma ntohs_bytes: "le_bytes 2 (ntohs p) = rev (le_bytes 2 p)"
proof -
  have "(0xff :: u16) = mask 8" "(0xff00 :: u16) = push_bit 8 (mask 8)"
    by (simp_all add: mask_eq_exp_minus_1 push_bit_eq_mult)
  then have n: "ntohs p = push_bit 8 (p AND mask 8) OR drop_bit 8 (p AND push_bit 8 (mask 8))"
    by (simp only: ntohs_def)
  have "ucast (ntohs p) = (ucast (drop_bit 8 p) :: u8)"
    unfolding n by (rule word_bit_eqI) (auto simp: bit_simps bit_ucast_iff)
  moreover have "ucast (drop_bit 8 (ntohs p)) = (ucast p :: u8)"
    unfolding n by (rule word_bit_eqI) (auto simp: bit_simps bit_ucast_iff)
  ultimately show ?thesis by (simp add: le_bytes_def eval_nat_numeral)
qed

text \<open>
  What a connect event says of its destination: an event with the family IPv4 has the address and the port
  of the socket address, the port in host byte order (its two bytes exchanged); for every other
  family the event carries whatever address and port an earlier event left in the reserved memory,
  and the policy engine counts it as an external IPv4 connection when that old address is not zero.
\<close>

lemma connect_destination:
  "if addr \<noteq> 0 \<and> sa_family k addr = AF_INET
   then map se_ip_address (trace_connect k addr (Some old)) = [sin_addr (addr_in k addr)] \<and>
        map (\<lambda>ev. le_bytes 2 (se_port ev)) (trace_connect k addr (Some old)) =
          [rev (le_bytes 2 (sin_port (addr_in k addr)))]
   else map (\<lambda>ev. (se_ip_address ev, se_port ev)) (trace_connect k addr (Some old)) =
          [(se_ip_address old, se_port old)] \<and>
        external_ipv4_connects (snd (process_events pe (trace_connect k addr (Some old)))) =
          external_ipv4_connects pe + flag64 (se_ip_address old \<noteq> 0)"
proof -
  have c: "external_ipv4_connects (snd (process_event pe ev)) =
      external_ipv4_connects pe + flag64 (se_ip_address ev \<noteq> 0)"
    if "se_event_type ev = EVENT_CONNECT" for ev
    using that by (simp add: process_event_def track_process_def classify_connect_def Let_def case_prod_beta)
  show ?thesis
    by (simp add: trace_connect_def fill_common_def Let_def ntohs_bytes case_prod_beta c)
qed

end
