(* ===== verification/Bloom.thy ===== *)
theory Bloom
  imports AG_Prelude
begin

text \<open>
  The 8 KB Bloom filter (\<open>src/host/bloom_filter.hpp\<close>, \<open>.cpp\<close>) and the contract its
  clients rely on: the locale \<open>membership_filter\<close> (no false negatives), extended by
  \<open>filtered_index\<close> for a key index guarded by such a filter.
\<close>

section \<open>The filter\<close>

definition NUM_BITS :: nat where "NUM_BITS = 65536"
definition NUM_WORDS :: nat where "NUM_WORDS = NUM_BITS div 64"

type_synonym bloom = "u64 list"

definition bloom_clear :: bloom where
  "bloom_clear = replicate NUM_WORDS 0"

definition set_index :: "nat \<Rightarrow> bloom \<Rightarrow> bloom" where
  "set_index idx ws = ws[idx div 64 := ws ! (idx div 64) OR push_bit (idx mod 64) 1]"

definition test_index :: "nat \<Rightarrow> bloom \<Rightarrow> bool" where
  "test_index idx ws \<longleftrightarrow> ws ! (idx div 64) AND push_bit (idx mod 64) 1 \<noteq> 0"

definition bloom_insert :: "u64 \<Rightarrow> u64 \<Rightarrow> u64 \<Rightarrow> bloom \<Rightarrow> bloom" where
  "bloom_insert h1 h2 h3 ws =
     (let idx1 = unat h1 mod NUM_BITS; idx2 = unat h2 mod NUM_BITS; idx3 = unat h3 mod NUM_BITS
      in set_index idx3 (set_index idx2 (set_index idx1 ws)))"

definition may_contain :: "u64 \<Rightarrow> u64 \<Rightarrow> u64 \<Rightarrow> bloom \<Rightarrow> bool" where
  "may_contain h1 h2 h3 ws =
     (let idx1 = unat h1 mod NUM_BITS; idx2 = unat h2 mod NUM_BITS; idx3 = unat h3 mod NUM_BITS
      in test_index idx1 ws \<and> test_index idx2 ws \<and> test_index idx3 ws)"

definition count_bits_set :: "bloom \<Rightarrow> nat" where
  "count_bits_set ws = sum_list (map popcount ws)"

text \<open>FNV-1a over the key; \<open>char\<close> is signed on the host, so the cast sign-extends.\<close>

definition fnv_step :: "u64 \<Rightarrow> char \<Rightarrow> u64" where
  "fnv_step hash c = (hash XOR scast (of_char c :: u8)) * 1099511628211"

definition compute_hashes :: "string \<Rightarrow> u64 \<times> u64 \<times> u64" where
  "compute_hashes key =
     (let hash = foldl fnv_step 14695981039346656037 key
      in (hash, drop_bit 17 hash OR push_bit 47 hash, drop_bit 31 hash OR push_bit 33 hash))"

definition insert_key :: "string \<Rightarrow> bloom \<Rightarrow> bloom" where
  "insert_key key ws = (case compute_hashes key of (h1, h2, h3) \<Rightarrow> bloom_insert h1 h2 h3 ws)"

definition may_contain_key :: "bloom \<Rightarrow> string \<Rightarrow> bool" where
  "may_contain_key ws key = (case compute_hashes key of (h1, h2, h3) \<Rightarrow> may_contain h1 h2 h3 ws)"

section \<open>Contracts\<close>

locale membership_filter =
  fixes empty :: 'f
    and add :: "'k \<Rightarrow> 'f \<Rightarrow> 'f"
    and may :: "'f \<Rightarrow> 'k \<Rightarrow> bool"
    and inv :: "'f \<Rightarrow> bool"
  assumes inv_empty: "inv empty"
    and inv_add: "inv f \<Longrightarrow> inv (add k f)"
    and may_add: "inv f \<Longrightarrow> may (add k f) k"
    and may_mono: "inv f \<Longrightarrow> may f k \<Longrightarrow> may (add k' f) k"
begin

lemma inv_add_all: "inv f \<Longrightarrow> inv (fold add ks f)"
  by (induction ks arbitrary: f) (auto intro: inv_add)

lemma may_mono_all: "inv f \<Longrightarrow> may f k \<Longrightarrow> may (fold add ks f) k"
  by (induction ks arbitrary: f) (auto intro: inv_add may_mono)

lemma no_false_negative: "inv f \<Longrightarrow> k \<in> set ks \<Longrightarrow> may (fold add ks f) k"
  by (induction ks arbitrary: f) (auto intro: inv_add may_add may_mono_all)

end

text \<open>
  A partial map whose every key was added to the filter: looking the key up in the filter first
  never changes the answer.
\<close>

locale filtered_index = membership_filter
begin

definition guards :: "'a \<Rightarrow> ('b \<rightharpoonup> 'v) \<Rightarrow> bool" where
  "guards f m \<longleftrightarrow> inv f \<and> (\<forall>k \<in> dom m. may f k)"

lemma guards_empty: "guards empty Map.empty"
  by (simp add: guards_def inv_empty)

lemma guards_update: "guards f m \<Longrightarrow> guards (add k f) (m(k \<mapsto> v))"
  by (auto simp: guards_def inv_add may_add may_mono)

lemma guards_remove: "guards f m \<Longrightarrow> guards f (m(k := None))"
  by (auto simp: guards_def)

lemma guarded_lookup: "guards f m \<Longrightarrow> (if may f k then m k else None) = m k"
  by (cases "m k") (auto simp: guards_def dom_def)

end

section \<open>The filter meets the contract\<close>

lemma NUM_simps: "NUM_WORDS = 1024" "0 < NUM_BITS" "NUM_BITS = 64 * NUM_WORDS"
  by (simp_all add: NUM_WORDS_def NUM_BITS_def)

lemma length_set_index [simp]: "length (set_index i ws) = length ws"
  by (simp add: set_index_def)

lemma test_index_bit: "test_index i ws \<longleftrightarrow> bit (ws ! (i div 64)) (i mod 64)"
proof -
  have "bit (ws ! (i div 64) AND push_bit (i mod 64) 1) j \<longleftrightarrow>
      bit (ws ! (i div 64)) (i mod 64) \<and> j = i mod 64" for j
    by (auto simp: bit_simps)
  moreover have "w = 0 \<longleftrightarrow> (\<forall>j. \<not> bit w j)" for w :: u64
    using word_bit_eqI [of w 0] by auto
  ultimately show ?thesis by (simp add: test_index_def del: push_bit_of_1)
qed

lemma test_set_index:
  assumes "length ws = NUM_WORDS" and "i < NUM_BITS"
  shows "test_index j (set_index i ws) \<longleftrightarrow> j = i \<or> test_index j ws"
proof -
  have l: "i div 64 < length ws" using assms by (simp add: NUM_simps less_mult_imp_div_less mult.commute)
  show ?thesis
  proof (cases "j div 64 = i div 64")
    case True
    then have "j = i \<longleftrightarrow> j mod 64 = i mod 64" by (metis div_mult_mod_eq)
    with True l show ?thesis
      by (auto simp: test_index_bit set_index_def bit_simps)
  next
    case False
    with l show ?thesis by (auto simp: test_index_bit set_index_def)
  qed
qed

lemma length_bloom_insert [simp]: "length (bloom_insert a b c ws) = length ws"
  by (simp add: bloom_insert_def Let_def)

lemma test_bloom_insert:
  "length ws = NUM_WORDS \<Longrightarrow> test_index j (bloom_insert x y z ws) \<longleftrightarrow>
     j \<in> {unat x mod NUM_BITS, unat y mod NUM_BITS, unat z mod NUM_BITS} \<or> test_index j ws"
  by (auto simp: bloom_insert_def Let_def test_set_index NUM_simps(2))

interpretation bloom_filter: filtered_index bloom_clear insert_key may_contain_key
  "\<lambda>ws. length ws = NUM_WORDS"
proof unfold_locales
  fix f :: bloom and k k' :: string
  assume f: "length f = NUM_WORDS"
  show "length (insert_key k f) = NUM_WORDS"
    using f by (simp add: insert_key_def split: prod.splits)
  show "may_contain_key (insert_key k f) k"
    using f by (auto simp: insert_key_def may_contain_key_def may_contain_def test_bloom_insert Let_def
        split: prod.splits)
  show "may_contain_key f k \<Longrightarrow> may_contain_key (insert_key k' f) k"
    using f by (auto simp: insert_key_def may_contain_key_def may_contain_def test_bloom_insert Let_def
        split: prod.splits)
qed (simp add: bloom_clear_def)

text \<open>
  The Bloom filter has no false negatives: every key that was inserted, in any order and
  with any other keys, into a cleared filter is reported as possibly present.
\<close>

lemma bloom_no_false_negative:
  "k \<in> set ks \<Longrightarrow> may_contain_key (fold insert_key ks bloom_clear) k"
  by (rule bloom_filter.no_false_negative) (simp_all add: bloom_clear_def)

lemma bloom_no_false_negative_witness:
  "may_contain_key (fold insert_key [''sha512-a'', ''sha512-b''] bloom_clear) ''sha512-a''"
  by (rule bloom_no_false_negative) simp

lemma popcount_or_bit:
  assumes "k < 64"
  shows "popcount (w OR push_bit k 1) = popcount w + (if bit w k then 0 else 1)"
proof -
  have s: "{i. i < 64 \<and> bit (w OR push_bit k 1) i} = insert k {i. i < 64 \<and> bit w i}"
    using assms by (auto simp: bit_simps)
  have "finite {i. i < (64::nat) \<and> bit w i}" by simp
  then show ?thesis
    using assms by (simp add: popcount_card s card_insert_if del: push_bit_of_1)
qed

lemma count_set_index:
  assumes "i div 64 < length ws"
  shows "count_bits_set (set_index i ws) = count_bits_set ws + (if test_index i ws then 0 else 1)"
proof -
  have "map popcount (set_index i ws) =
      (map popcount ws)[i div 64 := popcount (ws ! (i div 64)) + (if test_index i ws then 0 else 1)]"
    by (simp add: set_index_def map_update popcount_or_bit test_index_bit del: push_bit_of_1)
  moreover have "map popcount ws ! (i div 64) \<le> sum_list (map popcount ws)"
    using assms by (intro elem_le_sum_list) simp
  ultimately show ?thesis
    using assms by (simp add: count_bits_set_def sum_list_update)
qed

text \<open>
  Inserting one triple of hashes sets at most three bits and clears none: the number of
  set bits never decreases and grows by at most three.
\<close>

lemma bloom_insert_bits:
  "length ws = NUM_WORDS \<Longrightarrow>
   count_bits_set ws \<le> count_bits_set (bloom_insert a b c ws) \<and>
   count_bits_set (bloom_insert a b c ws) \<le> count_bits_set ws + 3"
proof -
  assume l: "length ws = NUM_WORDS"
  have d: "unat h mod NUM_BITS div 64 < NUM_WORDS" for h :: u64
    using mod_less_divisor [OF NUM_simps(2), of "unat h"] by (simp add: NUM_simps less_mult_imp_div_less mult.commute)
  show ?thesis
    using l by (simp add: bloom_insert_def Let_def count_set_index d)
qed

lemma bloom_insert_bits_witness:
  "count_bits_set bloom_clear \<le> count_bits_set (bloom_insert 1 2 3 bloom_clear) \<and>
   count_bits_set (bloom_insert 1 2 3 bloom_clear) \<le> count_bits_set bloom_clear + 3"
  by (rule bloom_insert_bits) (simp add: bloom_clear_def)

end
