(* ===== verification/Cars.thy ===== *)
theory Cars
  imports Bloom "HOL-Library.AList"
begin

text \<open>
  The content-addressable store (\<open>src/host/cars.hpp\<close>, \<open>.cpp\<close>): the in-memory index
  guarded by the Bloom filter, and the slot directories on disk. A directory is an association list
  from relative file paths to contents; the file system maps absolute directory paths to
  directories. What the operating system decides (whether a copy fails) is an argument.
\<close>

section \<open>Data\<close>

type_synonym dir = "(string \<times> string) list"
type_synonym disk = "(string \<times> dir) list"

record CARSEntry =
  integrity_hash :: string
  slot_path :: string
  size_bytes :: u64
  install_time_ns :: u64
  hit_count :: u32

record ContentAddressableStore =
  store_root :: string
  index :: "(string \<times> CARSEntry) list"
  bloom_filter :: bloom

definition dir_size :: "dir \<Rightarrow> u64" where
  "dir_size d = sum_list (map (\<lambda>(_, content). of_nat (length content)) d)"

text \<open>\<open>fs::copy\<close> with \<open>recursive | overwrite_existing\<close> into an existing directory: a merge.\<close>

definition copy_into :: "dir \<Rightarrow> dir \<Rightarrow> dir" where
  "copy_into src dst = fold (\<lambda>(p, c) d. AList.update p c d) src dst"

definition dir_at :: "disk \<Rightarrow> string \<Rightarrow> dir" where
  "dir_at fs path = (case map_of fs path of None \<Rightarrow> [] | Some d \<Rightarrow> d)"

section \<open>Operations\<close>

definition hash_to_slot_name :: "string \<Rightarrow> string" where
  "hash_to_slot_name hash =
     map (\<lambda>c. if c = CHR ''/'' \<or> c = CHR ''+'' \<or> c = CHR ''='' then CHR ''_'' else c) hash"

text \<open>
  \<open>load_index\<close> scans the subdirectories of the root: \<open>slots\<close> are their names, contents
  and modification times.
\<close>

fun load_slots :: "string \<Rightarrow> (string \<times> dir \<times> u64) list \<Rightarrow> (string \<times> CARSEntry) list \<Rightarrow> bloom \<Rightarrow>
    (string \<times> CARSEntry) list \<times> bloom" where
  "load_slots root [] idx bf = (idx, bf)"
| "load_slots root ((name, d, mtime) # slots) idx bf =
     load_slots root slots
       (AList.update name \<lparr>integrity_hash = name, slot_path = root @ name, size_bytes = dir_size d,
          install_time_ns = mtime, hit_count = 0\<rparr> idx)
       (insert_key name bf)"

definition load_index ::
  "(string \<times> dir \<times> u64) list \<Rightarrow> ContentAddressableStore \<Rightarrow> ContentAddressableStore" where
  "load_index slots s =
     (case load_slots (store_root s) slots (index s) bloom_clear of
        (idx, bf) \<Rightarrow> s\<lparr>index := idx, bloom_filter := bf\<rparr>)"

text \<open>\<open>store_root_.back() != '/'\<close>; the root is not empty there.\<close>

definition with_slash :: "string \<Rightarrow> string" where
  "with_slash root = (if last root \<noteq> CHR ''/'' then root @ ''/'' else root)"

definition cars_aarchgate_dir :: "string option \<Rightarrow> string" where
  "cars_aarchgate_dir home = (case home of Some h \<Rightarrow> h @ ''/.aarchgate'' | None \<Rightarrow> ''/tmp/.aarchgate'')"

definition ContentAddressableStore_new ::
  "string option \<Rightarrow> string \<Rightarrow> (string \<times> dir \<times> u64) list \<Rightarrow> ContentAddressableStore" where
  "ContentAddressableStore_new home root slots =
     load_index slots
       \<lparr>store_root = with_slash (if root = [] then cars_aarchgate_dir home @ ''/cars/'' else root),
        index = [], bloom_filter = bloom_clear\<rparr>"

definition contains :: "ContentAddressableStore \<Rightarrow> string \<Rightarrow> bool" where
  "contains s h = (if \<not> may_contain_key (bloom_filter s) h then False
                   else map_of (index s) h \<noteq> None)"

definition get_slot_path :: "ContentAddressableStore \<Rightarrow> string \<Rightarrow> string" where
  "get_slot_path s h =
     (if \<not> may_contain_key (bloom_filter s) h then []
      else case map_of (index s) h of Some e \<Rightarrow> slot_path e | None \<Rightarrow> [])"

text \<open>
  \<open>put\<close>: \<open>source\<close> is the source directory, \<open>None\<close> when \<open>fs::copy\<close> throws.
  The slot directory is created in either case; on an exception the index is untouched.
\<close>

definition put :: "ContentAddressableStore \<Rightarrow> disk \<Rightarrow> string \<Rightarrow> dir option \<Rightarrow>
    (string option \<times> ContentAddressableStore \<times> disk)" where
  "put s fs h source =
     (let path = store_root s @ hash_to_slot_name h;
          fs1 = AList.update path (dir_at fs path) fs
      in case source of
           None \<Rightarrow> (None, s, fs1)
         | Some src \<Rightarrow>
             (let d = copy_into src (dir_at fs1 path);
                  e = \<lparr>integrity_hash = h, slot_path = path, size_bytes = dir_size d,
                       install_time_ns = 0, hit_count = 0\<rparr>
              in (Some path,
                  s\<lparr>index := AList.update h e (index s), bloom_filter := insert_key h (bloom_filter s)\<rparr>,
                  AList.update path d fs1)))"

text \<open>
  \<open>clone_into\<close>: \<open>reflink_ok\<close> is \<open>copyfile\<close> returning 0 after the destination
  was removed; \<open>copy_ok\<close> is the fallback copy finishing without an error code.
\<close>

definition clone_into :: "ContentAddressableStore \<Rightarrow> disk \<Rightarrow> string \<Rightarrow> string \<Rightarrow> bool \<Rightarrow> bool \<Rightarrow> bool \<times> disk" where
  "clone_into s fs h dest reflink_ok copy_ok =
     (case map_of (index s) h of
        None \<Rightarrow> (False, fs)
      | Some e \<Rightarrow>
          (let fs1 = AList.delete dest fs
           in if reflink_ok then (True, AList.update dest (dir_at fs (slot_path e)) fs1)
              else if copy_ok then (True, AList.update dest (copy_into (dir_at fs1 (slot_path e)) []) fs1)
              else (False, AList.update dest [] fs1)))"

definition evict :: "ContentAddressableStore \<Rightarrow> disk \<Rightarrow> string \<Rightarrow> ContentAddressableStore \<times> disk" where
  "evict s fs h =
     (case map_of (index s) h of
        None \<Rightarrow> (s, fs)
      | Some e \<Rightarrow>
          (s\<lparr>index := AList.delete h (index s)\<rparr>,
           if slot_path e \<noteq> [] then AList.delete (slot_path e) fs else fs))"

definition entry_count :: "ContentAddressableStore \<Rightarrow> nat" where
  "entry_count s = length (index s)"

definition total_size_bytes :: "ContentAddressableStore \<Rightarrow> u64" where
  "total_size_bytes s = sum_list (map (\<lambda>(_, e). size_bytes e) (index s))"

section \<open>Invariant\<close>

text \<open>
  Every indexed key is in the filter, keys are stored once and every entry carries its key.
\<close>

definition cars_inv :: "ContentAddressableStore \<Rightarrow> bool" where
  "cars_inv s \<longleftrightarrow>
     bloom_filter.guards (bloom_filter s) (map_of (index s)) \<and> distinct (map fst (index s)) \<and>
     (\<forall>(k, e) \<in> set (index s). integrity_hash e = k)"

lemma set_update_alist:
  "(k', v') \<in> set (AList.update k v al) \<Longrightarrow> k' = k \<and> v' = v \<or> (k', v') \<in> set al"
  by (induction al) (auto split: if_splits)

lemma set_delete_alist: "x \<in> set (AList.delete k al) \<Longrightarrow> x \<in> set al"
  by (auto simp: AList.delete_eq)

lemma cars_inv_upd:
  assumes "cars_inv s" and "integrity_hash e = h"
  shows "cars_inv (s\<lparr>index := AList.update h e (index s), bloom_filter := insert_key h (bloom_filter s)\<rparr>)"
  using assms
  by (auto simp: cars_inv_def update_conv' distinct_update intro: bloom_filter.guards_update
      dest!: set_update_alist)

lemma load_slots_inv:
  "cars_inv \<lparr>store_root = root, index = idx, bloom_filter = bf\<rparr> \<Longrightarrow>
   load_slots root slots idx bf = (idx', bf') \<Longrightarrow>
   cars_inv \<lparr>store_root = root, index = idx', bloom_filter = bf'\<rparr>"
proof (induction root slots idx bf rule: load_slots.induct)
  case (2 root name d mtime slots idx bf)
  let ?e = "\<lparr>integrity_hash = name, slot_path = root @ name, size_bytes = dir_size d,
          install_time_ns = mtime, hit_count = 0\<rparr>"
  have "cars_inv \<lparr>store_root = root, index = AList.update name ?e idx, bloom_filter = insert_key name bf\<rparr>"
    using cars_inv_upd [OF "2.prems"(1), of ?e name] by simp
  with 2 show ?case by simp
qed simp

lemma cars_new_inv [ag_inv]: "cars_inv (ContentAddressableStore_new home root slots)"
proof -
  have e: "cars_inv \<lparr>store_root = r, index = [], bloom_filter = bloom_clear\<rparr>" for r
    using bloom_filter.guards_empty by (simp add: cars_inv_def)
  let ?r = "with_slash (if root = [] then cars_aarchgate_dir home @ ''/cars/'' else root)"
  obtain idx bf where l: "load_slots ?r slots [] bloom_clear = (idx, bf)" by fastforce
  with load_slots_inv [OF e l] show ?thesis
    unfolding ContentAddressableStore_new_def load_index_def by simp
qed

lemma put_inv [ag_inv]: "cars_inv s \<Longrightarrow> put s fs h src = (r, s', fs') \<Longrightarrow> cars_inv s'"
  by (auto simp: put_def Let_def intro!: cars_inv_upd split: option.splits)

lemma evict_inv [ag_inv]: "cars_inv s \<Longrightarrow> cars_inv (fst (evict s fs h))"
  by (auto simp: evict_def cars_inv_def delete_conv' distinct_delete
      intro: bloom_filter.guards_remove dest!: set_delete_alist split: option.splits)

lemma contains_iff: "cars_inv s \<Longrightarrow> contains s h \<longleftrightarrow> h \<in> dom (map_of (index s))"
  using bloom_filter.guarded_lookup [of "bloom_filter s" "map_of (index s)" h]
  by (auto simp: cars_inv_def contains_def domIff split: if_splits)

lemma get_slot_path_eq:
  "cars_inv s \<Longrightarrow> get_slot_path s h = (case map_of (index s) h of Some e \<Rightarrow> slot_path e | None \<Rightarrow> [])"
  using bloom_filter.guarded_lookup [of "bloom_filter s" "map_of (index s)" h]
  by (auto simp: cars_inv_def get_slot_path_def split: if_splits option.splits)

section \<open>Properties\<close>

text \<open>A run of store operations on one disk.\<close>

datatype cars_op = Put string "dir option" | Evict string

fun cars_step :: "cars_op \<Rightarrow> ContentAddressableStore \<times> disk \<Rightarrow> ContentAddressableStore \<times> disk" where
  "cars_step (Put h src) (s, fs) = snd (put s fs h src)"
| "cars_step (Evict h) (s, fs) = evict s fs h"

text \<open>The index the operations should implement.\<close>

fun abs_step :: "string \<Rightarrow> cars_op \<Rightarrow> (string \<rightharpoonup> string) \<Rightarrow> (string \<rightharpoonup> string)" where
  "abs_step root (Put h None) m = m"
| "abs_step root (Put h (Some src)) m = m(h \<mapsto> root @ hash_to_slot_name h)"
| "abs_step root (Evict h) m = m(h := None)"

definition cars_abs :: "ContentAddressableStore \<Rightarrow> (string \<rightharpoonup> string)" where
  "cars_abs s = map_option slot_path \<circ> map_of (index s)"

lemma cars_step_refines:
  assumes "cars_inv s"
  shows "cars_inv (fst (cars_step c (s, fs))) \<and>
    cars_abs (fst (cars_step c (s, fs))) = abs_step (store_root s) c (cars_abs s) \<and>
    store_root (fst (cars_step c (s, fs))) = store_root s"
proof (cases c)
  case (Put h src)
  show ?thesis
  proof (cases src)
    case None
    with Put assms show ?thesis by (simp add: put_def Let_def)
  next
    case (Some d)
    have "cars_inv (fst (snd (put s fs h (Some d))))"
      using put_inv [OF assms, of fs h "Some d"] by (metis prod.collapse)
    with Put Some show ?thesis
      by (auto simp: put_def Let_def cars_abs_def update_conv' fun_eq_iff)
  qed
next
  case (Evict h)
  with evict_inv [OF assms, of fs h] show ?thesis
    by (auto simp: evict_def cars_abs_def delete_conv' fun_eq_iff split: option.splits)
qed

text \<open>
  Claim C20. The Bloom-guarded store is an exact index: after any sequence of puts (also failing
  ones) and evictions on a store loaded from any slots, \<open>contains\<close> and \<open>get_slot_path\<close>
  answer as the plain map from hashes to slot paths does; the filter changes no answer.
\<close>

theorem cars_lookup_exact:
  fixes home root slots fs ops
  defines "s0 \<equiv> ContentAddressableStore_new home root slots"
  defines "s \<equiv> fst (fold cars_step ops (s0, fs))"
  defines "m \<equiv> fold (abs_step (store_root s0)) ops (cars_abs s0)"
  shows "(contains s h \<longleftrightarrow> m h \<noteq> None) \<and> get_slot_path s h = (case m h of None \<Rightarrow> [] | Some p \<Rightarrow> p)"
proof -
  have "cars_inv (fst (fold cars_step ops (s1, f))) \<and>
      cars_abs (fst (fold cars_step ops (s1, f))) = fold (abs_step (store_root s1)) ops (cars_abs s1)"
    if "cars_inv s1" for s1 f
    using that
  proof (induction ops arbitrary: s1 f)
    case (Cons c ops)
    obtain s2 f2 where c: "cars_step c (s1, f) = (s2, f2)" by fastforce
    with cars_step_refines [OF Cons.prems, of c f] Cons.IH [of s2 f2] show ?case by simp
  qed simp
  from this [OF cars_new_inv, of home root slots fs] have i: "cars_inv s" and a: "cars_abs s = m"
    by (simp_all add: s_def s0_def m_def)
  have "m h = map_option slot_path (map_of (index s) h)" using a by (auto simp: cars_abs_def)
  then show ?thesis
    using contains_iff [OF i, of h] get_slot_path_eq [OF i, of h] by (auto simp: domIff split: option.splits)
qed

lemma hash_to_slot_name_clean:
  "CHR ''/'' \<notin> set (hash_to_slot_name h)" "CHR ''+'' \<notin> set (hash_to_slot_name h)"
  "CHR ''='' \<notin> set (hash_to_slot_name h)"
  by (auto simp: hash_to_slot_name_def)

lemma load_slots_dom:
  "load_slots root slots idx bf = (idx', bf') \<Longrightarrow> dom (map_of idx') = dom (map_of idx) \<union> fst ` set slots"
  by (induction root slots idx bf rule: load_slots.induct) (auto simp: update_conv')

text \<open>
  The index does not survive a restart: the scan keys entries by the sanitised directory
  name, so if every slot was created by \<open>put\<close>, a reloaded store contains no integrity hash
  with a slash, a plus or an equals sign; every padded base64 digest, and so every SHA-512 integrity
  string, is such a hash.
\<close>

lemma reload_misses_unsafe_hashes:
  assumes "fst ` set slots \<subseteq> range hash_to_slot_name"
    and "CHR ''='' \<in> set h \<or> CHR ''/'' \<in> set h \<or> CHR ''+'' \<in> set h"
  shows "\<not> contains (ContentAddressableStore_new home root slots) h"
proof -
  let ?s = "ContentAddressableStore_new home root slots"
  have "dom (map_of (index ?s)) = fst ` set slots"
    using load_slots_dom [of _ slots "[]" bloom_clear]
    by (auto simp: ContentAddressableStore_new_def load_index_def split: prod.splits)
  moreover have "h \<notin> range hash_to_slot_name"
    using assms(2) hash_to_slot_name_clean by auto
  ultimately have "h \<notin> dom (map_of (index ?s))" using assms(1) by blast
  then show ?thesis by (simp add: contains_iff [OF cars_new_inv])
qed

lemma reload_misses_unsafe_hashes_witness:
  "\<not> contains (ContentAddressableStore_new None ''/r'' [(''sha512-AA__'', [(''f'', ''x'')], 0)]) ''sha512-AA==''"
proof (rule reload_misses_unsafe_hashes)
  have "''sha512-AA__'' = hash_to_slot_name ''sha512-AA==''" by (simp add: hash_to_slot_name_def)
  then show "fst ` set [(''sha512-AA__'', [(''f'', ''x'')], 0)] \<subseteq> range hash_to_slot_name" by auto
qed simp

end
