(* ===== verification/Sha256.thy ===== *)
theory Sha256
  imports AG_Prelude
begin

text \<open>
  The telemetry authentication primitives (\<open>common/crypto.h\<close>): the streaming class
  \<open>SHA256\<close> with its 64 byte buffer, and \<open>hmac_sha256\<close>. The specification is the
  block-wise definition of the digest (pad the whole message, fold the compression function over its
  64 byte blocks); the locale \<open>incremental_hash\<close> is the contract of a streaming hash.
\<close>

section \<open>Compression\<close>

definition rotr :: "u32 \<Rightarrow> nat \<Rightarrow> u32" where
  "rotr x n = drop_bit n x OR push_bit (32 - n) x"

text \<open>
  The source initialises \<open>k[64]\<close> with 56 constants; the language fills the rest with zero.
\<close>

definition k_init :: "u32 list" where
  "k_init =
    [0x428a2f98,0x71374491,0xb5c0fbcf,0xe9b5dba5,0x3956c25b,0x59f111f1,0x923f82a4,0xab1c5ed5] @
    [0xd807aa98,0x12835b01,0x243185be,0x550c7dc3,0x72be5d74,0x80deb1fe,0x9bdc06a7,0xc19bf174] @
    [0xe49b69c1,0xefbe4786,0x0fc19dc6,0x240ca1cc,0x2de92c6f,0x4a7484aa,0x5cb0a9dc,0x76f988da] @
    [0x983e5152,0xa831c66d,0xb00327c8,0xbf597fc7,0xc6e00bf3,0xd5a79147,0x06ca6351,0x14292967] @
    [0x27b70a85,0x2e1b2138,0x4d2c6dfc,0x53380d13,0x650a7354,0x766a0abb,0x81c2c92e,0x92722c85] @
    [0xa2bfe8a1,0xa81a664b,0xc24b8b70,0xc76c51a3,0xd192e819,0xd6990624,0xf40e3585,0x106aa070] @
    [0x19a4c116,0x1e376c08,0x2748774c,0x34b0bcb5,0x391c0cb3,0x4ed8aa4a,0x5b9cca4f,0x682e6ff3]"

definition k_table :: "u32 list" where
  "k_table = k_init @ replicate (64 - length k_init) 0"

definition load_be32 :: "u8 list \<Rightarrow> nat \<Rightarrow> u32" where
  "load_be32 data j =
     push_bit 24 (ucast (data ! j)) OR push_bit 16 (ucast (data ! (j + 1))) OR
     push_bit 8 (ucast (data ! (j + 2))) OR ucast (data ! (j + 3))"

definition sched_next :: "u32 list \<Rightarrow> u32" where
  "sched_next m =
     (let i = length m;
          s0 = rotr (m ! (i - 15)) 7 XOR rotr (m ! (i - 15)) 18 XOR drop_bit 3 (m ! (i - 15));
          s1 = rotr (m ! (i - 2)) 17 XOR rotr (m ! (i - 2)) 19 XOR drop_bit 10 (m ! (i - 2))
      in m ! (i - 16) + s0 + m ! (i - 7) + s1)"

fun extend_schedule :: "nat \<Rightarrow> u32 list \<Rightarrow> u32 list" where
  "extend_schedule 0 m = m"
| "extend_schedule (Suc n) m = extend_schedule n (m @ [sched_next m])"

definition schedule :: "u8 list \<Rightarrow> u32 list" where
  "schedule data = extend_schedule 48 (map (\<lambda>i. load_be32 data (4 * i)) [0..<16])"

type_synonym vars8 = "u32 \<times> u32 \<times> u32 \<times> u32 \<times> u32 \<times> u32 \<times> u32 \<times> u32"

fun sha_round :: "vars8 \<Rightarrow> u32 \<times> u32 \<Rightarrow> vars8" where
  "sha_round (a, b, c, d, e, f, g, h) (ki, mi) =
     (let S1 = rotr e 6 XOR rotr e 11 XOR rotr e 25;
          ch = (e AND f) XOR (NOT e AND g);
          temp1 = h + S1 + ch + ki + mi;
          S0 = rotr a 2 XOR rotr a 13 XOR rotr a 22;
          maj = (a AND b) XOR (a AND c) XOR (b AND c);
          temp2 = S0 + maj
      in (temp1 + temp2, a, b, c, d + temp1, e, f, g))"

definition transform :: "u8 list \<Rightarrow> u32 list \<Rightarrow> u32 list" where
  "transform data st =
     (let (a, b, c, d, e, f, g, h) =
            foldl sha_round (st ! 0, st ! 1, st ! 2, st ! 3, st ! 4, st ! 5, st ! 6, st ! 7)
              (zip k_table (schedule data))
      in [st ! 0 + a, st ! 1 + b, st ! 2 + c, st ! 3 + d, st ! 4 + e, st ! 5 + f, st ! 6 + g, st ! 7 + h])"

section \<open>The streaming class\<close>

record SHA256 =
  sha_data :: "u8 list"
  data_len :: u32
  bit_len :: u64
  sha_state :: "u32 list"

definition initial_state :: "u32 list" where
  "initial_state = [0x6a09e667, 0xbb67ae85, 0x3c6ef372, 0xa54ff53a,
                    0x510e527f, 0x9b05688c, 0x1f83d9ab, 0x5be0cd19]"

definition sha_reset :: "SHA256 \<Rightarrow> SHA256" where
  "sha_reset s = s\<lparr>data_len := 0, bit_len := 0, sha_state := initial_state\<rparr>"

text \<open>The constructor: \<open>junk\<close> is the indeterminate content of the buffer.\<close>

definition sha_new :: "u8 list \<Rightarrow> SHA256" where
  "sha_new junk = sha_reset \<lparr>sha_data = junk, data_len = 0, bit_len = 0, sha_state = replicate 8 0\<rparr>"

definition update_byte :: "SHA256 \<Rightarrow> u8 \<Rightarrow> SHA256" where
  "update_byte s b =
     (let s1 = s\<lparr>sha_data := (sha_data s)[unat (data_len s) := b], data_len := data_len s + 1\<rparr>
      in if data_len s1 = 64
         then s1\<lparr>sha_state := transform (sha_data s1) (sha_state s1),
                 bit_len := bit_len s1 + 512, data_len := 0\<rparr>
         else s1)"

definition sha_update :: "SHA256 \<Rightarrow> u8 list \<Rightarrow> SHA256" where
  "sha_update s bytes = foldl update_byte s bytes"

text \<open>\<open>data_[i++] = 0x80; while (i < n) data_[i++] = 0;\<close>\<close>

definition pad_to :: "u8 list \<Rightarrow> nat \<Rightarrow> nat \<Rightarrow> u8 list" where
  "pad_to data i n = take i data @ [0x80] @ replicate (n - Suc i) 0 @ drop (max n (Suc i)) data"

text \<open>The eight bytes of the bit length, most significant first, at offset 56.\<close>

definition be64 :: "u64 \<Rightarrow> u8 list" where
  "be64 x = map (\<lambda>i. ucast (drop_bit (8 * (7 - i)) x)) [0..<8]"

definition state_bytes :: "u32 list \<Rightarrow> u8 list" where
  "state_bytes st = concat (map (\<lambda>w. map (\<lambda>i. ucast (drop_bit (24 - i * 8) w AND 0xff)) [0..<4]) st)"

definition sha_final :: "SHA256 \<Rightarrow> u8 list" where
  "sha_final s =
     (let i = unat (data_len s);
          (data, st) =
            (if data_len s < 56 then (pad_to (sha_data s) i 56, sha_state s)
             else (let d = pad_to (sha_data s) i 64
                   in (replicate 56 0 @ drop 56 d, transform d (sha_state s))));
          bits = bit_len s + ucast (data_len s * 8);
          data' = take 56 data @ be64 bits
      in state_bytes (transform data' st))"

definition hmac_sha256 :: "u8 list \<Rightarrow> u8 list \<Rightarrow> u8 list \<Rightarrow> u8 list" where
  "hmac_sha256 junk key data =
     (let kbuf = (if 64 < length key
                  then sha_final (sha_update (sha_new junk) key) @ replicate 32 0
                  else key @ replicate (64 - length key) 0);
          k_ipad = map (\<lambda>b. b XOR 0x36) kbuf;
          k_opad = map (\<lambda>b. b XOR 0x5c) kbuf;
          inner_hash = sha_final (sha_update (sha_update (sha_new junk) k_ipad) data)
      in sha_final (sha_update (sha_update (sha_new junk) k_opad) inner_hash))"

section \<open>Specification\<close>

function absorb :: "u32 list \<Rightarrow> u8 list \<Rightarrow> u32 list \<times> u8 list" where
  "absorb st msg =
     (if length msg < 64 then (st, msg) else absorb (transform (take 64 msg) st) (drop 64 msg))"
  by pat_completeness auto
termination by (relation "measure (\<lambda>(st, msg). length msg)") auto

declare absorb.simps [simp del]

definition padding :: "nat \<Rightarrow> u8 list" where
  "padding n = [0x80] @ replicate (nat ((55 - int n) mod 64)) 0 @ be64 (of_nat (8 * n))"

definition digest :: "u8 list \<Rightarrow> u8 list" where
  "digest msg = state_bytes (fst (absorb initial_state (msg @ padding (length msg))))"

definition hmac_spec :: "u8 list \<Rightarrow> u8 list \<Rightarrow> u8 list" where
  "hmac_spec key data =
     (let key64 = (if 64 < length key then digest key else key);
          kbuf = key64 @ replicate (64 - length key64) 0
      in digest (map (\<lambda>b. b XOR 0x5c) kbuf @ digest (map (\<lambda>b. b XOR 0x36) kbuf @ data)))"

section \<open>The contract of a streaming hash\<close>

locale incremental_hash =
  fixes init :: 's
    and upd :: "'s \<Rightarrow> 'b \<Rightarrow> 's"
    and fin :: "'s \<Rightarrow> 'b list"
    and dig :: "'b list \<Rightarrow> 'b list"
  assumes fin_digest: "fin (foldl upd init msg) = dig msg"
begin

text \<open>How the message is cut into calls of the update operation does not matter.\<close>

lemma chunked: "fin (foldl (foldl upd) init chunks) = dig (concat chunks)"
proof -
  have "foldl (foldl upd) s chunks = foldl upd s (concat chunks)" for s
    by (induction chunks arbitrary: s) auto
  then show ?thesis by (simp add: fin_digest)
qed

end

section \<open>Streaming equals the specification\<close>

lemma length_transform [simp]: "length (transform d st) = 8"
  by (simp add: transform_def Let_def split: prod.split)

lemma length_state_bytes: "length (state_bytes st) = 4 * length st"
  by (induction st) (simp_all add: state_bytes_def)

lemma length_be64 [simp]: "length (be64 x) = 8"
  by (simp add: be64_def)

lemma absorb_rest: "length (snd (absorb st msg)) = length msg mod 64"
proof (induction st msg rule: absorb.induct)
  case (1 st msg)
  show ?case
  proof (cases "length msg < 64")
    case True
    then show ?thesis by (simp add: absorb.simps)
  next
    case False
    with 1 show ?thesis by (simp add: absorb.simps [of st msg] le_mod_geq)
  qed
qed

lemma absorb_append: "absorb st (msg @ ys) = absorb (fst (absorb st msg)) (snd (absorb st msg) @ ys)"
proof (induction st msg rule: absorb.induct)
  case (1 st msg)
  show ?case
  proof (cases "length msg < 64")
    case True
    then show ?thesis by (simp add: absorb.simps [of st msg])
  next
    case False
    with 1 show ?thesis
      by (simp add: absorb.simps [of st msg] absorb.simps [of st "msg @ ys"])
  qed
qed

lemma absorb_short: "length msg < 64 \<Longrightarrow> absorb st msg = (st, msg)"
  by (simp add: absorb.simps)

lemma absorb_block: "length blk = 64 \<Longrightarrow> absorb st (blk @ rest) = absorb (transform blk st) rest"
  by (simp add: absorb.simps [of st "blk @ rest"])

text \<open>The buffer state a message leaves behind.\<close>

definition represents :: "SHA256 \<Rightarrow> u8 list \<Rightarrow> bool" where
  "represents s msg \<longleftrightarrow>
     length (sha_data s) = 64 \<and> data_len s = of_nat (length msg mod 64) \<and>
     bit_len s = of_nat (512 * (length msg div 64)) \<and>
     sha_state s = fst (absorb initial_state msg) \<and>
     take (length msg mod 64) (sha_data s) = snd (absorb initial_state msg)"

lemma represents_new: "length junk = 64 \<Longrightarrow> represents (sha_new junk) []"
  by (simp add: represents_def sha_new_def sha_reset_def absorb_short)

lemma unat_data_len: "n < 64 \<Longrightarrow> unat (of_nat n :: u32) = n"
  by (simp add: unat_of_nat)

lemma represents_update_byte:
  assumes "represents s msg"
  shows "represents (update_byte s b) (msg @ [b])"
proof -
  define n where "n = length msg mod 64"
  obtain st r where ab: "absorb initial_state msg = (st, r)" by fastforce
  have n: "n < 64" by (simp add: n_def)
  have s: "length (sha_data s) = 64" "data_len s = of_nat n"
    "bit_len s = of_nat (512 * (length msg div 64))" "sha_state s = st" "take n (sha_data s) = r"
    using assms by (simp_all add: represents_def n_def ab)
  have r: "length r = n" using absorb_rest [of initial_state msg] by (simp add: ab n_def)
  have buf: "take (Suc n) ((sha_data s)[n := b]) = r @ [b]"
    using n s by (simp add: take_Suc_conv_app_nth)
  have ab': "absorb initial_state (msg @ [b]) = absorb st (r @ [b])"
    by (simp add: absorb_append [of initial_state msg] ab)
  show ?thesis
  proof (cases "n = 63")
    case True
    have "absorb st (r @ [b]) = (transform (r @ [b]) st, [])"
      using absorb_block [of "r @ [b]" st "[]"] r True by (simp add: absorb_short)
    moreover have "(sha_data s)[n := b] = r @ [b]" using buf s True by simp
    moreover have "(length msg + 1) mod 64 = 0" "(length msg + 1) div 64 = Suc (length msg div 64)"
      using True by (simp_all add: n_def mod_Suc div_Suc)
    ultimately show ?thesis
      using s n r True ab' by (simp add: represents_def update_byte_def Let_def unat_data_len)
  next
    case False
    with n have "Suc n < 64" by simp
    then have "absorb st (r @ [b]) = (st, r @ [b])" using r by (simp add: absorb_short)
    moreover have "(length msg + 1) mod 64 = Suc n" "(length msg + 1) div 64 = length msg div 64"
      using \<open>Suc n < 64\<close> by (simp_all add: n_def mod_Suc div_Suc)
    moreover have "(of_nat n + 1 :: u32) \<noteq> 64"
    proof
      assume "(of_nat n + 1 :: u32) = 64"
      then have "unat (of_nat (Suc n) :: u32) = unat (64 :: u32)" by (simp add: add.commute)
      with \<open>Suc n < 64\<close> show False by (simp add: unat_of_nat del: of_nat_Suc)
    qed
    ultimately show ?thesis
      using s n buf ab' by (simp add: represents_def update_byte_def Let_def unat_data_len add.commute)
  qed
qed

lemma represents_update: "represents s msg \<Longrightarrow> represents (foldl update_byte s bytes) (msg @ bytes)"
proof (induction bytes arbitrary: s msg)
  case (Cons b bytes)
  from represents_update_byte [OF Cons.prems] have "represents (update_byte s b) (msg @ [b])" .
  from Cons.IH [OF this] show ?case by simp
qed simp

lemma pad_len: "nat ((55 - int N) mod 64) = (if N mod 64 < 56 then 55 - N mod 64 else 119 - N mod 64)"
proof -
  have "(55 - int N) mod 64 = (55 - int (N mod 64)) mod 64"
    by (simp add: zmod_int mod_diff_right_eq)
  also have "\<dots> = (if N mod 64 < 56 then 55 - int (N mod 64) else 119 - int (N mod 64))"
  proof (cases "N mod 64 < 56")
    case True
    then show ?thesis by (simp add: mod_pos_pos_trivial)
  next
    case False
    have "(55 - int (N mod 64)) mod 64 = (55 - int (N mod 64) + 64) mod 64"
      by (simp only: mod_add_self2)
    also have "\<dots> = 55 - int (N mod 64) + 64"
      using False mod_less_divisor [of 64 N] by (intro mod_pos_pos_trivial) linarith+
    finally show ?thesis using False by simp
  qed
  finally show ?thesis using mod_less_divisor [of 64 N] by (auto simp: nat_diff_distrib')
qed

lemma final_bits:
  assumes "n = length msg mod 64"
  shows "of_nat (512 * (length msg div 64)) + ucast ((of_nat n :: u32) * 8) = (of_nat (8 * length msg) :: u64)"
proof -
  have "n < 64" using assms by simp
  then have "unat ((of_nat n :: u32) * 8) = 8 * n" by (simp add: unat_word_ariths unat_of_nat)
  then have "ucast ((of_nat n :: u32) * 8) = (of_nat (8 * n) :: u64)"
    by (metis of_nat_unat)
  moreover have "length msg = 64 * (length msg div 64) + n" by (simp add: assms)
  then have "8 * length msg = 512 * (length msg div 64) + 8 * n" by linarith
  ultimately show ?thesis by (simp only: of_nat_add)
qed

lemma represents_final:
  assumes "represents s msg"
  shows "sha_final s = digest msg"
proof -
  define n where "n = length msg mod 64"
  obtain st r where ab: "absorb initial_state msg = (st, r)" by fastforce
  have n: "n < 64" by (simp add: n_def)
  have s: "length (sha_data s) = 64" "data_len s = of_nat n"
    "bit_len s = of_nat (512 * (length msg div 64))" "sha_state s = st" "take n (sha_data s) = r"
    using assms by (simp_all add: represents_def n_def ab)
  have r: "length r = n" using absorb_rest [of initial_state msg] by (simp add: ab n_def)
  have u: "unat (data_len s) = n" using s n by (simp add: unat_data_len)
  have lt: "data_len s < 56 \<longleftrightarrow> n < 56" using u by (simp add: word_less_nat_alt)
  have bits: "bit_len s + ucast (data_len s * 8) = of_nat (8 * length msg)"
    using final_bits [OF n_def] by (simp add: s)
  let ?L = "be64 (of_nat (8 * length msg))"
  have spec: "digest msg = state_bytes (fst (absorb st (r @ padding (length msg))))"
    by (simp add: digest_def absorb_append [of initial_state msg] ab)
  show ?thesis
  proof (cases "n < 56")
    case True
    have "padding (length msg) = [0x80] @ replicate (55 - n) 0 @ ?L"
      using True by (simp add: padding_def pad_len flip: n_def)
    then have "absorb st (r @ padding (length msg)) = absorb st ((r @ [0x80] @ replicate (55 - n) 0 @ ?L) @ [])"
      by simp
    also have "\<dots> = (transform (r @ [0x80] @ replicate (55 - n) 0 @ ?L) st, [])"
      using True r by (subst absorb_block) (simp_all add: absorb_short)
    finally have "absorb st (r @ padding (length msg)) =
        (transform (r @ [0x80] @ replicate (55 - n) 0 @ ?L) st, [])" .
    moreover have "56 - n = Suc (55 - n)" using True by simp
    ultimately show ?thesis
      using True s u lt bits r by (simp add: spec sha_final_def Let_def pad_to_def)
  next
    case False
    have "padding (length msg) = [0x80] @ replicate (63 - n) 0 @ replicate 56 0 @ ?L"
      using False n by (simp add: padding_def pad_len replicate_add [symmetric] flip: n_def)
    then have "absorb st (r @ padding (length msg)) =
        absorb st ((r @ [0x80] @ replicate (63 - n) 0) @ (replicate 56 0 @ ?L) @ [])"
      by simp
    also have "\<dots> = (transform (replicate 56 0 @ ?L) (transform (r @ [0x80] @ replicate (63 - n) 0) st), [])"
      using False r n by (simp only: absorb_block length_append length_replicate list.size length_be64)
        (simp add: absorb_short)
    finally show ?thesis
      using False s u lt bits r n by (simp add: spec sha_final_def Let_def pad_to_def max_def)
  qed
qed

interpretation sha: incremental_hash "sha_new (replicate 64 0)" update_byte sha_final digest
  by unfold_locales
    (metis append_Nil length_replicate represents_final represents_new represents_update)

lemma sha_stream:
  assumes "length junk = 64"
  shows "sha_final (sha_update (sha_update (sha_new junk) xs) ys) = digest (xs @ ys)"
    and "sha_final (sha_update (sha_new junk) xs) = digest xs"
proof -
  have r: "represents (sha_update (sha_new junk) zs) zs" for zs
    using represents_update [OF represents_new [OF assms]] by (simp add: sha_update_def)
  then show "sha_final (sha_update (sha_new junk) xs) = digest xs" by (rule represents_final)
  from r [of "xs @ ys"] show "sha_final (sha_update (sha_update (sha_new junk) xs) ys) = digest (xs @ ys)"
    by (intro represents_final) (simp add: sha_update_def)
qed

lemma length_digest [simp]: "length (digest msg) = 32"
proof -
  have "length (fst (absorb st m)) = 8" if "length st = 8" for st m
    using that
  proof (induction st m rule: absorb.induct)
    case (1 st m)
    then show ?case by (cases "length m < 64") (simp_all add: absorb.simps [of st m])
  qed
  then show ?thesis by (simp add: digest_def length_state_bytes initial_state_def)
qed

text \<open>
  Claim C19. The streaming class computes the block-wise digest: however a message is cut into update
  calls, and whatever the buffer held at construction, \<open>final\<close> returns the specified 32 byte
  digest of the whole message.
\<close>

theorem sha256_streaming_correct:
  assumes "length junk = 64"
  shows "sha_final (foldl sha_update (sha_new junk) chunks) = digest (concat chunks) \<and>
    length (digest (concat chunks)) = 32"
proof -
  have "foldl sha_update s chunks = foldl update_byte s (concat chunks)" for s
    by (induction chunks arbitrary: s) (auto simp: sha_update_def)
  with sha_stream(2) [OF assms, of "concat chunks"] show ?thesis by (simp add: sha_update_def)
qed

theorem sha256_streaming_correct_witness:
  "sha_final (foldl sha_update (sha_new (replicate 64 7)) [[97], [98, 99]]) = digest [97, 98, 99] \<and>
   length (digest [97, 98, 99]) = 32"
  using sha256_streaming_correct [of "replicate 64 7" "[[97], [98, 99]]"] by simp

text \<open>
  \<open>hmac_sha256\<close> is the HMAC construction over that digest for every key length: keys
  longer than a block are hashed first, shorter ones are zero-padded.
\<close>

lemma hmac_correct:
  "length junk = 64 \<Longrightarrow> hmac_sha256 junk key data = hmac_spec key data"
  by (simp add: hmac_sha256_def hmac_spec_def sha_stream Let_def)

lemma hmac_correct_witness:
  "hmac_sha256 (replicate 64 0) [1, 2] [3] = hmac_spec [1, 2] [3]"
  by (rule hmac_correct) simp

text \<open>What FIPS 180-4 has in the last eight places of the round constants.\<close>

definition fips_k_tail :: "u32 list" where
  "fips_k_tail = [0x748f82ee, 0x78a5636f, 0x84c87814, 0x8cc70208,
                  0x90befffa, 0xa4506ceb, 0xbef9a3f7, 0xc67178f2]"

lemma digest_empty: "take 4 (digest []) = [0x6f, 0x4d, 0x7c, 0x97]"
  by code_simp

text \<open>
  The class does not compute SHA-256: the source lists 56 of the 64 round constants, so the
  last eight are zero where the standard has \<open>748f82ee\<close> to \<open>c67178f2\<close>; the digest of
  the empty message begins \<open>6f4d7c97\<close>, where SHA-256 has \<open>e3b0c442\<close>.
\<close>

lemma sha256_constants_missing:
  "length k_table = 64 \<and> drop 56 k_table = replicate 8 0 \<and> drop 56 k_table \<noteq> fips_k_tail \<and>
   take 4 (sha_final (sha_new (replicate 64 0))) = [0x6f, 0x4d, 0x7c, 0x97]"
proof -
  have l: "length k_init = 56" by (simp add: k_init_def)
  then have "length k_table = 64" "drop 56 k_table = replicate 8 0" by (simp_all add: k_table_def)
  moreover have "replicate 8 0 \<noteq> fips_k_tail"
  proof
    assume "replicate 8 0 = fips_k_tail"
    then have "hd (replicate 8 0) = hd fips_k_tail" by simp
    then show False by (simp add: fips_k_tail_def)
  qed
  moreover have "take 4 (sha_final (sha_new (replicate 64 0))) = [0x6f, 0x4d, 0x7c, 0x97]"
    using sha.fin_digest [of "[]"] by (simp add: digest_empty)
  ultimately show ?thesis by simp
qed

end
