(* ===== verification/Bit_Slicer.thy ===== *)
theory Bit_Slicer
  imports AG_Prelude
begin

text \<open>
  The 64 by 64 bit matrix transposition that turns 64 row values of a column into bit planes
  (\<open>src/compute/bit_slicer.cpp\<close>, \<open>bit_slicer_fast.cpp\<close>). A column buffer is a list of
  64 words. The vector width is a property of the machine: \<open>Lanes\<close> of a tag capped at
  \<open>s\<close> lanes is an argument, about which only the documented fact is used that it is a positive
  divisor of the (power of two) cap.
\<close>

section \<open>Stages\<close>

type_synonym column = "u64 list"

definition swap_lo :: "nat \<Rightarrow> u64 \<Rightarrow> u64 \<Rightarrow> u64 \<Rightarrow> u64" where
  "swap_lo s vmask va vb = va XOR push_bit s ((drop_bit s va XOR vb) AND vmask)"

definition swap_hi :: "nat \<Rightarrow> u64 \<Rightarrow> u64 \<Rightarrow> u64 \<Rightarrow> u64" where
  "swap_hi s vmask va vb = vb XOR ((drop_bit s va XOR vb) AND vmask)"

text \<open>\<open>Store (v, d, A + k)\<close> of a vector.\<close>

definition store_lanes :: "nat \<Rightarrow> u64 list \<Rightarrow> column \<Rightarrow> column" where
  "store_lanes k v A = take k A @ v @ drop (k + length v) A"

text \<open>One loop iteration: two loads of \<open>N\<close> lanes, the masked exchange, two stores.\<close>

definition lane_step :: "nat \<Rightarrow> u64 \<Rightarrow> nat \<Rightarrow> nat \<Rightarrow> column \<Rightarrow> column" where
  "lane_step s vmask N k A =
     (let va = take N (drop k A); vb = take N (drop (k + s) A)
      in store_lanes k (map2 (swap_lo s vmask) va vb)
           (store_lanes (k + s) (map2 (swap_hi s vmask) va vb) A))"

text \<open>The values of \<open>k\<close>: for every block of \<open>2 s\<close> words, its lower half in steps of \<open>N\<close>.\<close>

definition stage_ks :: "nat \<Rightarrow> nat \<Rightarrow> nat list" where
  "stage_ks s N = concat (map (\<lambda>b. map (\<lambda>j. b * (2 * s) + j * N) [0..<s div N]) [0..<32 div s])"

definition stage :: "nat \<Rightarrow> u64 \<Rightarrow> nat \<Rightarrow> column \<Rightarrow> column" where
  "stage s vmask N A = fold (lane_step s vmask N) (stage_ks s N) A"

definition Stage5 :: "(nat \<Rightarrow> nat) \<Rightarrow> column \<Rightarrow> column" where
  "Stage5 Lanes A = stage 32 0x00000000FFFFFFFF (Lanes 32) A"

definition Stage4 :: "(nat \<Rightarrow> nat) \<Rightarrow> column \<Rightarrow> column" where
  "Stage4 Lanes A = stage 16 0x0000FFFF0000FFFF (Lanes 16) A"

definition Stage3 :: "(nat \<Rightarrow> nat) \<Rightarrow> column \<Rightarrow> column" where
  "Stage3 Lanes A = stage 8 0x00FF00FF00FF00FF (Lanes 8) A"

definition Stage2 :: "(nat \<Rightarrow> nat) \<Rightarrow> column \<Rightarrow> column" where
  "Stage2 Lanes A = stage 4 0x0F0F0F0F0F0F0F0F (Lanes 4) A"

definition Stage1 :: "(nat \<Rightarrow> nat) \<Rightarrow> column \<Rightarrow> column" where
  "Stage1 Lanes A = stage 2 0x3333333333333333 (Lanes 2) A"

text \<open>The scalar stage: one pair of adjacent words at a time.\<close>

definition Stage0 :: "column \<Rightarrow> column" where
  "Stage0 A = stage 1 0x5555555555555555 1 A"

definition Transpose64x64 :: "(nat \<Rightarrow> nat) \<Rightarrow> column \<Rightarrow> column" where
  "Transpose64x64 Lanes A =
     Stage0 (Stage1 Lanes (Stage2 Lanes (Stage3 Lanes (Stage4 Lanes (Stage5 Lanes A)))))"

text \<open>\<open>BitSlicer::slice\<close> copies the input unless it is the output buffer, then transposes it.\<close>

definition slice :: "(nat \<Rightarrow> nat) \<Rightarrow> column \<Rightarrow> column" where
  "slice Lanes A = Transpose64x64 Lanes A"

text \<open>\<open>slice_n\<close>: the planes from \<open>n\<close> on are cleared.\<close>

definition slice_n :: "(nat \<Rightarrow> nat) \<Rightarrow> column \<Rightarrow> nat \<Rightarrow> column" where
  "slice_n Lanes A n = take n (slice Lanes A) @ replicate (64 - n) 0"

section \<open>What a stage does to one word\<close>

lemma length_store_lanes: "k + length v \<le> length A \<Longrightarrow> length (store_lanes k v A) = length A"
  by (simp add: store_lanes_def)

lemma nth_store_lanes:
  "k + length v \<le> length A \<Longrightarrow> i < length A \<Longrightarrow>
   store_lanes k v A ! i = (if k \<le> i \<and> i < k + length v then v ! (i - k) else A ! i)"
  by (auto simp: store_lanes_def nth_append min_def)

lemma length_lane_step: "k + s + N \<le> length A \<Longrightarrow> length (lane_step s m N k A) = length A"
  by (simp add: lane_step_def Let_def length_store_lanes)

lemma nth_lane_step:
  assumes "k + s + N \<le> length A" and "N \<le> s" and "i < length A"
  shows "lane_step s m N k A ! i =
    (if k \<le> i \<and> i < k + N then swap_lo s m (A ! i) (A ! (i + s))
     else if k + s \<le> i \<and> i < k + s + N then swap_hi s m (A ! (i - s)) (A ! i) else A ! i)"
  using assms by (auto simp: lane_step_def Let_def nth_store_lanes length_store_lanes add_ac)

text \<open>Lane groups that do not overlap can be exchanged in any order.\<close>

definition lanes_apart :: "nat \<Rightarrow> nat \<Rightarrow> nat \<Rightarrow> nat \<Rightarrow> bool" where
  "lanes_apart s N k k' \<longleftrightarrow>
     (\<forall>i. \<not> ((k \<le> i \<and> i < k + N \<or> k + s \<le> i \<and> i < k + s + N) \<and>
             (k' \<le> i \<and> i < k' + N \<or> k' + s \<le> i \<and> i < k' + s + N)))"

lemma fold_lane_steps:
  assumes "N \<le> s" and "sorted_wrt (lanes_apart s N) ks" and "\<forall>k \<in> set ks. k + s + N \<le> length A"
  shows "length (fold (lane_step s m N) ks A) = length A \<and>
    (\<forall>i < length A. fold (lane_step s m N) ks A ! i =
      (if \<exists>k \<in> set ks. k \<le> i \<and> i < k + N then swap_lo s m (A ! i) (A ! (i + s))
       else if \<exists>k \<in> set ks. k + s \<le> i \<and> i < k + s + N then swap_hi s m (A ! (i - s)) (A ! i)
       else A ! i))"
  using assms(2,3)
proof (induction ks rule: rev_induct)
  case (snoc k ks)
  let ?B = "fold (lane_step s m N) ks A"
  from snoc have IH: "length ?B = length A"
    "i < length A \<Longrightarrow> ?B ! i =
      (if \<exists>k \<in> set ks. k \<le> i \<and> i < k + N then swap_lo s m (A ! i) (A ! (i + s))
       else if \<exists>k \<in> set ks. k + s \<le> i \<and> i < k + s + N then swap_hi s m (A ! (i - s)) (A ! i)
       else A ! i)" for i
    by (simp_all add: sorted_wrt_append)
  from snoc.prems have k: "k + s + N \<le> length A" by simp
  have apart: "lanes_apart s N k' k" if "k' \<in> set ks" for k'
    using snoc.prems(1) that by (simp add: sorted_wrt_append)
  have B_lo: "?B ! i = A ! i" "?B ! (i + s) = A ! (i + s)" if "k \<le> i" "i < k + N" for i
  proof -
    have "\<not> (k' \<le> i \<and> i < k' + N)" "\<not> (k' + s \<le> i \<and> i < k' + s + N)"
      "\<not> (k' \<le> i + s \<and> i + s < k' + N)" "\<not> (k' + s \<le> i + s \<and> i + s < k' + s + N)"
      if "k' \<in> set ks" for k'
      using apart [OF that, unfolded lanes_apart_def, THEN spec, of i]
        apart [OF that, unfolded lanes_apart_def, THEN spec, of "i + s"] \<open>k \<le> i\<close> \<open>i < k + N\<close>
      by auto
    with k that show "?B ! i = A ! i" "?B ! (i + s) = A ! (i + s)" by (auto simp: IH)
  qed
  have step: "lane_step s m N k ?B ! i =
      (if k \<le> i \<and> i < k + N then swap_lo s m (A ! i) (A ! (i + s))
       else if k + s \<le> i \<and> i < k + s + N then swap_hi s m (A ! (i - s)) (A ! i) else ?B ! i)"
    if "i < length A" for i
  proof (cases "k + s \<le> i")
    case True
    then have "i - s + s = i" by simp
    with True that k assms(1) IH(1) B_lo [of "i - s"] show ?thesis by (auto simp: nth_lane_step)
  next
    case False
    with that k assms(1) IH(1) B_lo [of i] show ?thesis by (simp add: nth_lane_step)
  qed
  have "lane_step s m N k ?B ! i =
      (if \<exists>k' \<in> set (ks @ [k]). k' \<le> i \<and> i < k' + N then swap_lo s m (A ! i) (A ! (i + s))
       else if \<exists>k' \<in> set (ks @ [k]). k' + s \<le> i \<and> i < k' + s + N then swap_hi s m (A ! (i - s)) (A ! i)
       else A ! i)" if i: "i < length A" for i
  proof (cases "k \<le> i \<and> i < k + N")
    case True
    with step [OF i] show ?thesis by auto
  next
    case lo: False
    show ?thesis
    proof (cases "k + s \<le> i \<and> i < k + s + N")
      case True
      have "\<not> (k' \<le> i \<and> i < k' + N)" if "k' \<in> set ks" for k'
        using apart [OF that] True unfolding lanes_apart_def by blast
      with True lo step [OF i] show ?thesis by auto
    next
      case False
      with lo step [OF i] IH(2) [OF i] show ?thesis by auto
    qed
  qed
  then show ?case using k IH(1) by (simp add: length_lane_step)
qed simp

lemma stage_ks_product:
  "stage_ks s N = map (\<lambda>(b, j). b * (2 * s) + j * N) (List.product [0..<32 div s] [0..<s div N])"
  by (simp add: stage_ks_def product_concat_map map_concat comp_def)

lemma stage_ks_mem:
  "k \<in> set (stage_ks s N) \<longleftrightarrow> (\<exists>b j. b < 32 div s \<and> j < s div N \<and> k = b * (2 * s) + j * N)"
proof
  assume "k \<in> set (stage_ks s N)"
  then show "\<exists>b j. b < 32 div s \<and> j < s div N \<and> k = b * (2 * s) + j * N"
    unfolding stage_ks_def by auto blast
next
  assume "\<exists>b j. b < 32 div s \<and> j < s div N \<and> k = b * (2 * s) + j * N"
  then obtain b j where "b < 32 div s" "j < s div N" "k = b * (2 * s) + j * N" by blast
  then have "(b, j) \<in> set (List.product [0..<32 div s] [0..<s div N])"
    and "k = (\<lambda>(b, j). b * (2 * s) + j * N) (b, j)" by simp_all
  then show "k \<in> set (stage_ks s N)" unfolding stage_ks_product set_map by (rule rev_image_eqI)
qed

lemma stage_ks_form:
  assumes "k \<in> set (stage_ks s N)" and "N dvd s" and "0 < s"
  shows "N dvd k \<and> even (k div s) \<and> (\<forall>i. k \<le> i \<longrightarrow> i < k + N \<longrightarrow> i div s = k div s)"
proof -
  obtain b j where k: "j < s div N" "k = b * (2 * s) + j * N"
    using assms(1) by (auto simp: stage_ks_mem)
  obtain q where q: "s = N * q" using assms(2) by blast
  with assms(3) have N: "0 < N" by (cases N) auto
  from k(1) q N have "j < q" by simp
  then have "j * N + N \<le> s" using q by (metis Suc_leI mult.commute mult_Suc mult_le_mono1 add.commute)
  moreover have "k div s = 2 * b + (j * N) div s" using k(2) assms(3) by (simp add: mult.left_commute [of b 2] div_mult_self3 flip: mult.assoc)
  moreover have "i div s = 2 * b" if "k \<le> i" "i < k + N" for i
  proof -
    have "2 * b * s \<le> i" "i < (2 * b + 1) * s" using that k(2) calculation(1) by (simp_all add: algebra_simps)
    then show ?thesis by (metis Suc_eq_plus1 div_nat_eqI mult.commute)
  qed
  moreover have "N dvd k" using k(2) q by simp
  ultimately show ?thesis using N by (metis add_gr_0 div_less dvd_triv_left less_add_same_cancel1 order_refl)
qed

lemma multiples_apart:
  assumes "N dvd a" and "N dvd b" and "a \<noteq> b" and "a \<le> i" and "i < a + N"
  shows "\<not> (b \<le> i \<and> i < b + (N :: nat))"
proof
  assume b: "b \<le> i \<and> i < b + N"
  obtain p q where pq: "a = N * p" "b = N * q" using assms(1,2) unfolding dvd_def by blast
  have "i div N = p" by (rule div_nat_eqI) (use assms(4,5) pq in \<open>simp_all add: mult.commute\<close>)
  moreover have "i div N = q" by (rule div_nat_eqI) (use b pq in \<open>simp_all add: mult.commute\<close>)
  ultimately show False using assms(3) pq by simp
qed

lemma stage_ks_apart:
  assumes "N dvd s" and "0 < s" and "k \<in> set (stage_ks s N)" and "k' \<in> set (stage_ks s N)" and "k \<noteq> k'"
  shows "lanes_apart s N k k'"
  unfolding lanes_apart_def
proof (intro allI notI)
  fix i
  assume i: "(k \<le> i \<and> i < k + N \<or> k + s \<le> i \<and> i < k + s + N) \<and>
             (k' \<le> i \<and> i < k' + N \<or> k' + s \<le> i \<and> i < k' + s + N)"
  note f = stage_ks_form [OF assms(3,1,2)] and f' = stage_ks_form [OF assms(4,1,2)]
  have odd: "odd (i div s)" if "k0 + s \<le> i" "i < k0 + s + N" "k0 \<in> set (stage_ks s N)" for k0
  proof -
    have "k0 \<le> i - s" "i - s < k0 + N" using that(1,2) by simp_all
    with stage_ks_form [OF that(3) assms(1,2)] have "(i - s) div s = k0 div s" "even (k0 div s)"
      by blast+
    moreover have "i div s = Suc ((i - s) div s)" using that(1) assms(2) by (simp add: le_div_geq)
    ultimately show ?thesis by simp
  qed
  have even: "even (i div s)" if "k0 \<le> i" "i < k0 + N" "k0 \<in> set (stage_ks s N)" for k0
    using stage_ks_form [OF that(3) assms(1,2)] that(1,2) by metis
  from i odd even assms(3,4) consider
    "k \<le> i \<and> i < k + N \<and> k' \<le> i \<and> i < k' + N" |
    "k + s \<le> i \<and> i < k + s + N \<and> k' + s \<le> i \<and> i < k' + s + N" by blast
  then show False
  proof cases
    case 1
    with multiples_apart [of N k k' i] f f' assms(5) show False by blast
  next
    case 2
    then have "k \<le> i - s" "i - s < k + N" "k' \<le> i - s" "i - s < k' + N" by linarith+
    with multiples_apart [of N k k' "i - s"] f f' assms(5) show False by blast
  qed
qed

lemma distinct_stage_ks:
  assumes "N dvd s" and "0 < s"
  shows "sorted_wrt (lanes_apart s N) (stage_ks s N)"
proof -
  obtain q where q: "s = N * q" using assms(1) by blast
  with assms(2) have N: "0 < N" by (cases N) auto
  have inj: "b = b' \<and> j = j'"
    if "b * (2 * s) + j * N = b' * (2 * s) + j' * N" "j < s div N" "j' < s div N" for b b' j j'
  proof -
    have "j * N < 2 * s" "j' * N < 2 * s" using that(2,3) q N by (simp_all add: mult.commute)
    then have "b = (b * (2 * s) + j * N) div (2 * s)" "b' = (b' * (2 * s) + j' * N) div (2 * s)"
      using assms(2) by simp_all
    with that(1) have "b = b'" by simp
    with that(1) N show ?thesis by simp
  qed
  have "distinct (stage_ks s N)"
    unfolding stage_ks_product distinct_map
  proof (intro conjI distinct_product inj_onI)
    fix x y :: "nat \<times> nat"
    obtain b j b' j' where xy: "x = (b, j)" "y = (b', j')" by (cases x, cases y)
    assume "x \<in> set (List.product [0..<32 div s] [0..<s div N])"
      "y \<in> set (List.product [0..<32 div s] [0..<s div N])"
      "(\<lambda>(b, j). b * (2 * s) + j * N) x = (\<lambda>(b, j). b * (2 * s) + j * N) y"
    then show "x = y" using inj [of b j b' j'] by (simp add: xy)
  qed simp_all
  then show ?thesis
    using stage_ks_apart [OF assms] by (simp add: sorted_wrt_iff_nth_less distinct_conv_nth)
qed

text \<open>Every word of the lower half of a block is exchanged with its partner \<open>s\<close> words above.\<close>

lemma stage_covers:
  assumes "N dvd s" and "s dvd 32" and "0 < s" and "i < 64"
  shows "(\<exists>k \<in> set (stage_ks s N). k \<le> i \<and> i < k + N) \<longleftrightarrow> even (i div s)"
    and "(\<exists>k \<in> set (stage_ks s N). k + s \<le> i \<and> i < k + s + N) \<longleftrightarrow> odd (i div s)"
proof -
  obtain q where q: "s = N * q" using assms(1) unfolding dvd_def by blast
  with assms(3) have N: "0 < N" by (cases N) auto
  obtain p where p: "32 = s * p" using assms(2) unfolding dvd_def by blast
  have cov: "\<exists>k \<in> set (stage_ks s N). k \<le> i \<and> i < k + N" if "even (i div s)" "i < 64" for i
  proof -
    let ?b = "i div s div 2" and ?j = "i mod s div N"
    have i: "i = ?b * (2 * s) + i mod s" using that(1) by (metis div_mult_mod_eq dvd_div_mult_self mult.assoc)
    have "i div s < 2 * p" using that(2) p assms(3) by (simp add: less_mult_imp_div_less mult.commute mult.left_commute)
    moreover have "32 div s = p" using p assms(3) by (metis less_not_refl nonzero_mult_div_cancel_left)
    ultimately have "?b < 32 div s" by simp
    moreover have "?j < s div N" using q N assms(3) by (simp add: less_mult_imp_div_less mult.commute)
    moreover have "?j * N \<le> i mod s" "i mod s < ?j * N + N"
      using N dividend_less_div_times [of N "i mod s"] by (simp_all add: div_times_less_eq_dividend)
    ultimately have "?b * (2 * s) + ?j * N \<in> set (stage_ks s N)"
      "?b * (2 * s) + ?j * N \<le> i" "i < ?b * (2 * s) + ?j * N + N"
      using i unfolding stage_ks_mem by (blast, linarith, linarith)
    then show ?thesis by blast
  qed
  have up: "odd (i div s) \<longleftrightarrow> s \<le> i \<and> even ((i - s) div s)"
    using assms(3) by (cases "s \<le> i") (simp_all add: le_div_geq)
  show lo: "(\<exists>k \<in> set (stage_ks s N). k \<le> i \<and> i < k + N) \<longleftrightarrow> even (i div s)"
    using cov [of i] stage_ks_form [OF _ assms(1,3)] assms(4) by metis
  have "(\<exists>k \<in> set (stage_ks s N). k + s \<le> i \<and> i < k + s + N) \<longleftrightarrow>
    s \<le> i \<and> (\<exists>k \<in> set (stage_ks s N). k \<le> i - s \<and> i - s < k + N)"
  proof -
    have "k + s \<le> i \<and> i < k + s + N \<longleftrightarrow> s \<le> i \<and> k \<le> i - s \<and> i - s < k + N" for k by auto
    then show ?thesis by blast
  qed
  also have "\<dots> \<longleftrightarrow> odd (i div s)"
    using cov [of "i - s"] stage_ks_form [OF _ assms(1,3)] assms(4) up by (metis less_imp_diff_less)
  finally show "(\<exists>k \<in> set (stage_ks s N). k + s \<le> i \<and> i < k + s + N) \<longleftrightarrow> odd (i div s)" .
qed

lemma stage_words:
  assumes "N dvd s" and "s dvd 32" and "0 < s" and "length A = 64"
  shows "length (stage s m N A) = 64"
    and "i < 64 \<Longrightarrow> stage s m N A ! i =
      (if even (i div s) then swap_lo s m (A ! i) (A ! (i + s)) else swap_hi s m (A ! (i - s)) (A ! i))"
proof -
  have N: "N \<le> s" using assms(1,3) by (rule dvd_imp_le)
  have "k + s + N \<le> length A" if ks: "k \<in> set (stage_ks s N)" for k
  proof -
    obtain b j where k: "b < 32 div s" "j < s div N" "k = b * (2 * s) + j * N"
      using ks unfolding stage_ks_mem by blast
    have "j * N + N \<le> s div N * N" using k(2) by (metis Suc_leI add.commute mult_Suc mult_le_mono1)
    moreover have "b * (2 * s) + 2 * s \<le> 32 div s * (2 * s)"
      using k(1) by (metis Suc_leI add.commute mult_Suc mult_le_mono1)
    moreover have "32 div s * (2 * s) = 64" using assms(2) by auto
    moreover have "s div N * N = s" using assms(1) by simp
    ultimately show ?thesis using k(3) assms(4) by linarith
  qed
  then have F: "length (stage s m N A) = length A \<and>
    (\<forall>i < length A. stage s m N A ! i =
      (if \<exists>k \<in> set (stage_ks s N). k \<le> i \<and> i < k + N then swap_lo s m (A ! i) (A ! (i + s))
       else if \<exists>k \<in> set (stage_ks s N). k + s \<le> i \<and> i < k + s + N then swap_hi s m (A ! (i - s)) (A ! i)
       else A ! i))"
    unfolding stage_def by (intro fold_lane_steps N distinct_stage_ks assms(1,3)) blast
  then show "length (stage s m N A) = 64" using assms(4) by simp
  assume "i < 64"
  with F assms(4) stage_covers [OF assms(1-3) this] show "stage s m N A ! i =
      (if even (i div s) then swap_lo s m (A ! i) (A ! (i + s)) else swap_hi s m (A ! (i - s)) (A ! i))"
    by simp
qed

section \<open>What a stage does to one bit\<close>

definition stage_mask :: "nat \<Rightarrow> u64 \<Rightarrow> bool" where
  "stage_mask s m \<longleftrightarrow> (\<forall>c < 64. bit m c \<longleftrightarrow> even (c div s))"

lemma bit_swap:
  assumes "stage_mask s m" and "s dvd 32" and "0 < s" and "c < 64"
  shows "bit (swap_lo s m va vb) c = (if even (c div s) then bit va c else bit vb (c - s))"
    and "bit (swap_hi s m va vb) c = (if even (c div s) then bit va (c + s) else bit vb c)"
proof -
  have m: "bit m d \<longleftrightarrow> even (d div s)" if "d < 64" for d
    using assms(1) that unfolding stage_mask_def by blast
  have up: "odd (c div s) \<longleftrightarrow> s \<le> c \<and> even ((c - s) div s)"
    using assms(3) by (cases "s \<le> c") (simp_all add: le_div_geq)
  show "bit (swap_lo s m va vb) c = (if even (c div s) then bit va c else bit vb (c - s))"
    using assms(4) m [of "c - s"] up
    by (cases "s \<le> c") (auto simp: swap_lo_def bit_xor_iff bit_and_iff bit_push_bit_iff bit_drop_bit_eq)
  show "bit (swap_hi s m va vb) c = (if even (c div s) then bit va (c + s) else bit vb c)"
    using assms(4) m [of c] by (auto simp: swap_hi_def bit_xor_iff bit_and_iff bit_drop_bit_eq add.commute)
qed

lemma bit_stage:
  assumes "stage_mask s m" and "N dvd s" and "s dvd 32" and "0 < s" and "length A = 64"
    and "i < 64" and "c < 64"
  shows "bit (stage s m N A ! i) c =
    (if even (i div s) = even (c div s) then bit (A ! i) c
     else if even (i div s) then bit (A ! (i + s)) (c - s) else bit (A ! (i - s)) (c + s))"
  using assms(1,3,4,6,7) by (simp add: stage_words [OF assms(2-5)] bit_swap)

text \<open>
  The stages applied so far have exchanged all binary digits of weight \<open>s\<close> and more between the
  row and the bit index.
\<close>

definition digits_swapped :: "nat \<Rightarrow> column \<Rightarrow> column \<Rightarrow> bool" where
  "digits_swapped s A B \<longleftrightarrow> length B = 64 \<and> (\<forall>i < 64. \<forall>c < 64.
     bit (B ! i) c = bit (A ! (c div s * s + i mod s)) (i div s * s + c mod s))"

lemma digits_swapped_stage:
  assumes "digits_swapped (2 * s) A B" and "stage_mask s m" and "N dvd s" and "s dvd 32" and "0 < s"
  shows "digits_swapped s A (stage s m N B)"
proof -
  define H L where "H j = j div (2 * s) * (2 * s)" and "L j = j mod (2 * s)" for j
  from assms(1) have B: "length B = 64"
    "i < 64 \<Longrightarrow> c < 64 \<Longrightarrow> bit (B ! i) c = bit (A ! (H c + L i)) (H i + L c)" for i c
    by (simp_all add: digits_swapped_def H_def L_def)
  obtain p where p: "32 = s * p" using assms(4) unfolding dvd_def by blast
  have top: "i + s < 64" if "i < 64" "even (i div s)" for i
  proof -
    have "i div s < 2 * p" using that(1) p assms(5) by (simp add: less_mult_imp_div_less mult.commute mult.left_commute)
    moreover have "i div s \<noteq> 2 * p - 1" using that(2) p by auto
    ultimately have "i div s + 1 < 2 * p" by simp
    then have "(i div s + 2) * s \<le> 2 * p * s" by (intro mult_le_mono1) simp
    moreover have "i < (i div s + 1) * s" using assms(5) by (metis Suc_eq_plus1 dividend_less_div_times mult_Suc add.commute)
    ultimately show ?thesis using p by (simp add: algebra_simps)
  qed
  have L: "L i = (if even (i div s) then i mod s else s + i mod s)" for i
    unfolding L_def using mod_mult2_eq [of i s 2] by (auto simp: mult.commute mod_2_eq_odd)
  have H: "H i = (if even (i div s) then i div s * s else (i div s - 1) * s)" for i
  proof -
    have "i div (2 * s) = i div s div 2" by (metis div_mult2_eq mult.commute)
    then show ?thesis unfolding H_def by (auto elim!: evenE oddE)
  qed
  have "bit (stage s m N B ! i) c = bit (A ! (c div s * s + i mod s)) (i div s * s + c mod s)"
    if ic: "i < 64" "c < 64" for i c
  proof -
    have lo: "(j - s) div s = j div s - 1" "(j - s) mod s = j mod s" "s \<le> j" if "odd (j div s)" for j
      using that assms(5) by (cases "s \<le> j"; simp add: le_div_geq le_mod_geq)+
    have odd: "s + (x + s * (j div s - Suc 0)) = x + s * (j div s)" if "odd (j div s)" for j x
      using that by (cases "j div s") simp_all
    have hi: "(j + s) div s = Suc (j div s)" for j using assms(5) by (simp add: le_div_geq)
    show ?thesis
      using ic top [of i] top [of c] assms(5) lo [of i] lo [of c]
      by (cases "even (i div s)"; cases "even (c div s)")
        (simp_all add: bit_stage [OF assms(2-5) B(1)] B(2) H L hi odd ac_simps)
  qed
  then show ?thesis using stage_words(1) [OF assms(3-5) B(1)] by (simp add: digits_swapped_def)
qed

section \<open>The whole transposition\<close>

definition lanes_ok :: "(nat \<Rightarrow> nat) \<Rightarrow> bool" where
  "lanes_ok Lanes \<longleftrightarrow> (\<forall>s \<in> {2, 4, 8, 16, 32}. Lanes s dvd s)"

lemma stage_masks:
  "stage_mask 32 0x00000000FFFFFFFF" "stage_mask 16 0x0000FFFF0000FFFF"
  "stage_mask 8 0x00FF00FF00FF00FF" "stage_mask 4 0x0F0F0F0F0F0F0F0F"
  "stage_mask 2 0x3333333333333333" "stage_mask 1 0x5555555555555555"
proof -
  have *: "stage_mask s m \<longleftrightarrow> list_all (\<lambda>c. bit m c \<longleftrightarrow> even (c div s)) [0..<64]" for s m
    by (auto simp: stage_mask_def list_all_iff)
  show "stage_mask 32 0x00000000FFFFFFFF" "stage_mask 16 0x0000FFFF0000FFFF"
    "stage_mask 8 0x00FF00FF00FF00FF" "stage_mask 4 0x0F0F0F0F0F0F0F0F"
    "stage_mask 2 0x3333333333333333" "stage_mask 1 0x5555555555555555"
    unfolding * by code_simp+
qed

lemma transposed:
  assumes "lanes_ok Lanes" and "length A = 64"
  shows "digits_swapped 1 A (Transpose64x64 Lanes A)"
proof -
  have "digits_swapped 64 A A" using assms(2) by (simp add: digits_swapped_def)
  then have "digits_swapped 32 A (Stage5 Lanes A)" unfolding Stage5_def
    using assms(1) by (intro digits_swapped_stage stage_masks) (simp_all add: lanes_ok_def)
  then have "digits_swapped 16 A (Stage4 Lanes (Stage5 Lanes A))" unfolding Stage4_def
    using assms(1) by (intro digits_swapped_stage stage_masks) (simp_all add: lanes_ok_def)
  then have "digits_swapped 8 A (Stage3 Lanes (Stage4 Lanes (Stage5 Lanes A)))" unfolding Stage3_def
    using assms(1) by (intro digits_swapped_stage stage_masks) (simp_all add: lanes_ok_def)
  then have "digits_swapped 4 A (Stage2 Lanes (Stage3 Lanes (Stage4 Lanes (Stage5 Lanes A))))" unfolding Stage2_def
    using assms(1) by (intro digits_swapped_stage stage_masks) (simp_all add: lanes_ok_def)
  then have "digits_swapped 2 A (Stage1 Lanes (Stage2 Lanes (Stage3 Lanes (Stage4 Lanes (Stage5 Lanes A)))))"
    unfolding Stage1_def
    using assms(1) by (intro digits_swapped_stage stage_masks) (simp_all add: lanes_ok_def)
  then show ?thesis unfolding Transpose64x64_def Stage0_def
    by (intro digits_swapped_stage stage_masks) simp_all
qed

lemma length_slice [simp]: "lanes_ok Lanes \<Longrightarrow> length A = 64 \<Longrightarrow> length (slice Lanes A) = 64"
  using transposed by (simp add: slice_def digits_swapped_def)

lemma bit_slice:
  "lanes_ok Lanes \<Longrightarrow> length A = 64 \<Longrightarrow> b < 64 \<Longrightarrow> r < 64 \<Longrightarrow> bit (slice Lanes A ! b) r = bit (A ! r) b"
  using transposed by (simp add: slice_def digits_swapped_def)

text \<open>
  Claim C17. Bit plane \<open>b\<close> of a sliced column has at position \<open>r\<close> bit \<open>b\<close> of row \<open>r\<close>, whatever
  power-of-two vector width the machine has.
\<close>

theorem slice_transposes:
  assumes "lanes_ok Lanes" and "length A = 64" and "r < 64" and "b < 64"
  shows "length (slice Lanes A) = 64 \<and> bit (slice Lanes A ! b) r = bit (A ! r) b"
  using assms by (simp add: bit_slice)

theorem slice_transposes_witness:
  "length (slice (\<lambda>s. 2) (replicate 64 5)) = 64 \<and>
   bit (slice (\<lambda>s. 2) (replicate 64 5) ! 2) 7 = bit (replicate 64 (5 :: u64) ! 7) 2"
  by (rule slice_transposes) (simp_all add: lanes_ok_def)

text \<open>
  Slicing is its own inverse, and slicing only the first \<open>n\<close> planes of a column whose
  values fit in \<open>n\<close> bits loses nothing: \<open>slice_n\<close> is \<open>slice\<close> there.
\<close>

lemma slice_roundtrip:
  assumes "lanes_ok Lanes" and "length A = 64" and "n \<le> 64" and "\<forall>r < 64. \<forall>b \<ge> n. \<not> bit (A ! r) b"
  shows "slice Lanes (slice Lanes A) = A \<and> slice Lanes (slice_n Lanes A n) = A"
proof -
  have inv: "slice Lanes (slice Lanes A) = A"
    using assms(1,2) by (intro nth_equalityI word_bit_eqI) (simp_all add: bit_slice)
  have "slice Lanes A ! b = 0" if "n \<le> b" "b < 64" for b
    using assms that by (intro word_bit_eqI) (simp add: bit_slice)
  then have "slice_n Lanes A n = slice Lanes A"
    using assms(1-3) by (intro nth_equalityI) (simp_all add: slice_n_def nth_append)
  with inv show ?thesis by simp
qed

lemma slice_roundtrip_witness:
  "slice (\<lambda>s. s) (slice (\<lambda>s. s) (replicate 64 1)) = replicate 64 1 \<and>
   slice (\<lambda>s. s) (slice_n (\<lambda>s. s) (replicate 64 1) 1) = replicate 64 1"
  by (rule slice_roundtrip) (simp_all add: lanes_ok_def bit_1_iff)

end
