(* ===== verification/A64.thy ===== *)
theory A64
  imports AG_Prelude
begin

text \<open>
  The machine the JIT compiler targets: the AArch64 instructions that \<open>src/jit/compiler.cpp\<close>
  emits through AsmJit, over a register file and a memory of 64-bit words. Memory is addressed by
  byte; every access the compiler emits is an aligned 8-byte access, so the memory maps the address of
  a word to its value. An instruction stream without branches runs from left to right.
\<close>

section \<open>State\<close>

datatype reg = X nat | XZR | SP

record cpu =
  regs :: "nat \<Rightarrow> u64"
  sp :: u64
  mem :: "u64 \<Rightarrow> u64"
  flags :: "u64 \<times> u64"

fun rd :: "cpu \<Rightarrow> reg \<Rightarrow> u64" where
  "rd c (X n) = regs c n"
| "rd c XZR = 0"
| "rd c SP = sp c"

fun wr :: "reg \<Rightarrow> u64 \<Rightarrow> cpu \<Rightarrow> cpu" where
  "wr (X n) v c = c\<lparr>regs := (regs c)(n := v)\<rparr>"
| "wr XZR v c = c"
| "wr SP v c = c\<lparr>sp := v\<rparr>"

definition st_mem :: "u64 \<Rightarrow> u64 \<Rightarrow> cpu \<Rightarrow> cpu" where
  "st_mem a v c = c\<lparr>mem := (mem c)(a := v)\<rparr>"

section \<open>Instructions\<close>

datatype cond_code = HI | LO | HS | LS | EQ_cc | NE

datatype instr =
    I_MOVZ reg u64 nat
  | I_MOVK reg u64 nat
  | I_MOV reg reg
  | I_MOVI reg u64
  | I_MVN reg reg
  | I_AND reg reg reg
  | I_ANDI reg reg u64
  | I_ORR reg reg reg
  | I_EOR reg reg reg
  | I_BIC reg reg reg
  | I_ADD reg reg reg
  | I_ADDI reg reg u64
  | I_ADD_LSL reg reg reg nat
  | I_SUB reg reg reg
  | I_NEG reg reg
  | I_LSRV reg reg reg
  | I_LSLV reg reg reg
  | I_LDR reg reg u64
  | I_LDR_R reg reg reg nat
  | I_LDR_POST reg reg u64
  | I_STR reg reg u64
  | I_STR_R reg reg reg
  | I_STP_PRE reg reg
  | I_LDP_POST reg reg
  | I_CMP reg reg
  | I_CMPI reg u64
  | I_CSET reg cond_code
  | I_CSEL reg reg reg cond_code
  | I_RET

fun cond_holds :: "cond_code \<Rightarrow> u64 \<times> u64 \<Rightarrow> bool" where
  "cond_holds HI (a, b) = (a > b)"
| "cond_holds LO (a, b) = (a < b)"
| "cond_holds HS (a, b) = (a \<ge> b)"
| "cond_holds LS (a, b) = (a \<le> b)"
| "cond_holds EQ_cc (a, b) = (a = b)"
| "cond_holds NE (a, b) = (a \<noteq> b)"

definition mask16 :: u64 where "mask16 = 0xFFFF"

text \<open>\<open>movk\<close> replaces 16 bits; register shifts use the amount modulo 64.\<close>

fun exec1 :: "instr \<Rightarrow> cpu \<Rightarrow> cpu" where
  "exec1 (I_MOVZ d imm s) c = wr d (push_bit s imm) c"
| "exec1 (I_MOVK d imm s) c =
     wr d ((rd c d AND NOT (push_bit s mask16)) OR push_bit s imm) c"
| "exec1 (I_MOV d a) c = wr d (rd c a) c"
| "exec1 (I_MOVI d v) c = wr d v c"
| "exec1 (I_MVN d a) c = wr d (NOT (rd c a)) c"
| "exec1 (I_AND d a b) c = wr d (rd c a AND rd c b) c"
| "exec1 (I_ANDI d a v) c = wr d (rd c a AND v) c"
| "exec1 (I_ORR d a b) c = wr d (rd c a OR rd c b) c"
| "exec1 (I_EOR d a b) c = wr d (rd c a XOR rd c b) c"
| "exec1 (I_BIC d a b) c = wr d (rd c a AND NOT (rd c b)) c"
| "exec1 (I_ADD d a b) c = wr d (rd c a + rd c b) c"
| "exec1 (I_ADDI d a v) c = wr d (rd c a + v) c"
| "exec1 (I_ADD_LSL d a b s) c = wr d (rd c a + push_bit s (rd c b)) c"
| "exec1 (I_SUB d a b) c = wr d (rd c a - rd c b) c"
| "exec1 (I_NEG d a) c = wr d (- rd c a) c"
| "exec1 (I_LSRV d a b) c = wr d (drop_bit (unat (rd c b) mod 64) (rd c a)) c"
| "exec1 (I_LSLV d a b) c = wr d (push_bit (unat (rd c b) mod 64) (rd c a)) c"
| "exec1 (I_LDR d b off) c = wr d (mem c (rd c b + off)) c"
| "exec1 (I_LDR_R d b i s) c = wr d (mem c (rd c b + push_bit s (rd c i))) c"
| "exec1 (I_LDR_POST d b inc) c = wr b (rd c b + inc) (wr d (mem c (rd c b)) c)"
| "exec1 (I_STR r b off) c = st_mem (rd c b + off) (rd c r) c"
| "exec1 (I_STR_R r b i) c = st_mem (rd c b + rd c i) (rd c r) c"
| "exec1 (I_STP_PRE r1 r2) c =
     (let a = sp c - 16 in st_mem (a + 8) (rd c r2) (st_mem a (rd c r1) (c\<lparr>sp := a\<rparr>)))"
| "exec1 (I_LDP_POST r1 r2) c =
     wr r2 (mem c (sp c + 8)) (wr r1 (mem c (sp c)) (c\<lparr>sp := sp c + 16\<rparr>))"
| "exec1 (I_CMP a b) c = c\<lparr>flags := (rd c a, rd c b)\<rparr>"
| "exec1 (I_CMPI a v) c = c\<lparr>flags := (rd c a, v)\<rparr>"
| "exec1 (I_CSET d cc) c = wr d (if cond_holds cc (flags c) then 1 else 0) c"
| "exec1 (I_CSEL d a b cc) c = wr d (if cond_holds cc (flags c) then rd c a else rd c b) c"
| "exec1 I_RET c = c"

text \<open>
  What the assembler can encode: the offset of a load or store is a multiple of 8 up to 32760 or a signed
  number of nine bits. For any other offset it reports an error and emits nothing, and the compilers do
  not look at the result. The offsets in the kernels of the bit-sliced compiler are those of at most 128
  field pointers and of the 64 planes of a result; slots go through a register there.
\<close>

definition encodable_offset :: "u64 \<Rightarrow> bool" where
  "encodable_offset off \<longleftrightarrow> off mod 8 = 0 \<and> off \<le> 32760 \<or> off \<le> 255 \<or> - 256 \<le> off"

fun encodable :: "instr \<Rightarrow> bool" where
  "encodable (I_LDR d b off) = encodable_offset off"
| "encodable (I_STR r b off) = encodable_offset off"
| "encodable _ = True"

definition exec :: "instr list \<Rightarrow> cpu \<Rightarrow> cpu" where
  "exec is c = fold exec1 is c"

lemma exec_simps [simp]: "exec [] c = c" "exec (i # is) c = exec is (exec1 i c)"
  by (simp_all add: exec_def)

lemma exec_append [simp]: "exec (xs @ ys) c = exec ys (exec xs c)"
  by (simp add: exec_def)

lemma exec_concat_map: "exec (concat (map f xs)) c = fold (\<lambda>x. exec (f x)) xs c"
  by (induction xs arbitrary: c) simp_all

lemma st_mem_simps [simp]:
  "regs (st_mem a v c) = regs c" "sp (st_mem a v c) = sp c" "flags (st_mem a v c) = flags c"
  "mem (st_mem a v c) b = (if b = a then v else mem c b)"
  by (simp_all add: st_mem_def)

section \<open>Immediates\<close>

text \<open>A full 64-bit immediate in four instructions.\<close>

definition emit_mov_imm64 :: "reg \<Rightarrow> u64 \<Rightarrow> instr list" where
  "emit_mov_imm64 dst imm =
     [I_MOVZ dst (imm AND mask16) 0, I_MOVK dst (drop_bit 16 imm AND mask16) 16,
      I_MOVK dst (drop_bit 32 imm AND mask16) 32, I_MOVK dst (drop_bit 48 imm AND mask16) 48]"

lemma bit_mask16: "bit mask16 i \<longleftrightarrow> i < 16"
proof -
  have m: "mask16 = mask 16" by (simp add: mask16_def mask_eq_exp_minus_1)
  show ?thesis unfolding m bit_mask_iff by auto
qed

lemma imm64_pieces:
  "(((imm AND mask16) AND NOT (push_bit 16 mask16) OR push_bit 16 (drop_bit 16 imm AND mask16)) AND
      NOT (push_bit 32 mask16) OR push_bit 32 (drop_bit 32 imm AND mask16)) AND
     NOT (push_bit 48 mask16) OR push_bit 48 (drop_bit 48 imm AND mask16) = (imm :: u64)"
  (is "?l = imm")
proof (rule word_bit_eqI)
  fix i assume "i < LENGTH(64)"
  then consider "i < 16" | "16 \<le> i" "i < 32" | "32 \<le> i" "i < 48" | "48 \<le> i" "i < 64"
    by fastforce
  then show "bit ?l i = bit imm i"
    by cases (auto simp: bit_simps bit_mask16)
qed

lemma exec_mov_imm64 [simp]:
  "exec (emit_mov_imm64 (X n) imm) c = c\<lparr>regs := (regs c)(n := imm)\<rparr>"
  using imm64_pieces [of imm] by (simp add: emit_mov_imm64_def)

end
