(* ===== verification/Bit_Planes.thy ===== *)
theory Bit_Planes
  imports AG_Prelude
begin

text \<open>
  Arithmetic on bit planes, independent of how a component computes it: 64 rows of 64-bit values are
  64 planes, bit \<open>r\<close> of plane \<open>b\<close> being bit \<open>b\<close> of row \<open>r\<close>. The ripple
  comparator, the full adder and the multiplexer on planes are shown to be comparison, addition and
  selection of the rows. The comparison kernel and the expression compiler both rest on these lemmas.
\<close>

type_synonym planes = "nat \<Rightarrow> u64"

text \<open>The value of a row.\<close>

definition row_val :: "planes \<Rightarrow> nat \<Rightarrow> u64" where
  "row_val P r = horner_sum of_bool 2 (map (\<lambda>b. bit (P b) r) [0..<64])"

lemma bit_row_val: "bit (row_val P r) b \<longleftrightarrow> b < 64 \<and> bit (P b) r"
  by (auto simp: row_val_def bit_horner_sum_bit_iff)

lemma row_val_cong: "(\<And>b. b < 64 \<Longrightarrow> bit (P b) r = bit (Q b) r) \<Longrightarrow> row_val P r = row_val Q r"
  by (rule word_bit_eqI) (simp add: bit_row_val)

lemma row_val_const: "r < 64 \<Longrightarrow> row_val (\<lambda>b. if bit v b then NOT 0 else 0) r = v"
  by (rule word_bit_eqI) (auto simp: bit_row_val bit_not_iff)

lemma row_val_not: "r < 64 \<Longrightarrow> row_val (\<lambda>b. NOT (P b)) r = NOT (row_val P r)"
  by (rule word_bit_eqI) (auto simp: bit_row_val bit_not_iff)

section \<open>Digits of natural numbers\<close>

lemma bit_unat: "bit (x :: u64) k \<longleftrightarrow> odd (unat x div 2 ^ k)"
proof -
  have "odd (unat x div 2 ^ k) \<longleftrightarrow> bit (unat x) k" by (rule bit_iff_odd [symmetric])
  then show ?thesis by (simp add: bit_unsigned_iff)
qed

lemma unat_drop_Suc: "unat (x :: u64) div 2 ^ k = 2 * (unat x div 2 ^ Suc k) + of_bool (bit x k)"
proof -
  have "unat x div 2 ^ Suc k = unat x div 2 ^ k div 2" by (metis div_mult2_eq power_Suc2)
  with bit_unat [of x k] show ?thesis by (cases "bit x k") (simp_all add: odd_two_times_div_two_nat)
qed

lemma add_carry_less: "(x :: nat) < m \<Longrightarrow> y < m \<Longrightarrow> x + y + of_bool b < 2 * m"
  by (cases b) simp_all

lemma add_div_digits:
  assumes "0 < (m :: nat)"
  shows "(a + b + c) div m = a div m + b div m + (a mod m + b mod m + c) div m"
proof -
  have "a + b + c = (a mod m + b mod m + c) + m * (a div m + b div m)"
    using mult_div_mod_eq [of m a] mult_div_mod_eq [of m b] unfolding distrib_left by linarith
  then show ?thesis using assms by (metis add.commute div_mult_self2 less_not_refl)
qed

section \<open>Comparison\<close>

definition cmp_step :: "planes \<Rightarrow> planes \<Rightarrow> nat \<Rightarrow> u64 \<times> u64 \<Rightarrow> u64 \<times> u64" where
  "cmp_step A B b ge = (fst ge OR (A b AND NOT (B b) AND snd ge), snd ge AND NOT (A b XOR B b))"

lemma cmp_planes_upto:
  fixes A B :: planes
  assumes "k \<le> 64" and "r < 64"
  defines "ge \<equiv> fold (cmp_step A B) (rev [k..<64]) (0, NOT 0)"
  shows "(bit (fst ge) r \<longleftrightarrow> unat (row_val B r) div 2 ^ k < unat (row_val A r) div 2 ^ k) \<and>
         (bit (snd ge) r \<longleftrightarrow> unat (row_val A r) div 2 ^ k = unat (row_val B r) div 2 ^ k)"
  using assms(1) unfolding ge_def
proof (induction "64 - k" arbitrary: k)
  case 0
  then have "k = 64" by simp
  moreover have "unat x div 2 ^ 64 = 0" for x :: u64
    using unsigned_less [of x, where ?'a = nat] by simp
  ultimately show ?case using assms(2) by (simp add: bit_not_iff)
next
  case (Suc d)
  then have k: "k < 64" "d = 64 - Suc k" by simp_all
  then have "rev [k..<64] = rev [Suc k..<64] @ [k]" by (simp add: upt_conv_Cons)
  moreover have "bit (row_val A r) k = bit (A k) r" "bit (row_val B r) k = bit (B k) r"
    using k by (simp_all add: bit_row_val)
  moreover note Suc.hyps(1) [OF k(2)]
  ultimately show ?case
    using k assms(2)
    by (cases "bit (A k) r"; cases "bit (B k) r")
      (auto simp: cmp_step_def unat_drop_Suc [of _ k] bit_simps)
qed

lemma cmp_planes:
  fixes A B :: planes
  assumes "r < 64"
  defines "ge \<equiv> fold (cmp_step A B) (rev [0..<64]) (0, NOT 0)"
  shows "bit (fst ge) r \<longleftrightarrow> row_val B r < row_val A r"
    and "bit (snd ge) r \<longleftrightarrow> row_val A r = row_val B r"
  using cmp_planes_upto [of 0 r A B] assms by (simp_all add: word_less_nat_alt word_unat_eq_iff)

section \<open>Addition\<close>

fun carry_plane :: "planes \<Rightarrow> planes \<Rightarrow> u64 \<Rightarrow> nat \<Rightarrow> u64" where
  "carry_plane A B cin 0 = cin"
| "carry_plane A B cin (Suc k) = (A k AND B k) OR ((A k XOR B k) AND carry_plane A B cin k)"

definition sum_plane :: "planes \<Rightarrow> planes \<Rightarrow> u64 \<Rightarrow> nat \<Rightarrow> u64" where
  "sum_plane A B cin k = (A k XOR B k) XOR carry_plane A B cin k"

lemma carry_plane_mod:
  assumes "k \<le> 64" and "r < 64"
  shows "bit (carry_plane A B cin k) r \<longleftrightarrow>
    2 ^ k \<le> unat (row_val A r) mod 2 ^ k + unat (row_val B r) mod 2 ^ k + of_bool (bit cin r)"
  using assms(1)
proof (induction k)
  case (Suc k)
  have digit: "unat x mod (2 * 2 ^ k) = unat x mod 2 ^ k + of_bool (bit x k) * 2 ^ k" for x :: u64
  proof -
    have "unat x mod (2 * 2 ^ k) = 2 ^ k * (unat x div 2 ^ k mod 2) + unat x mod 2 ^ k"
      using mod_mult2_eq [of "unat x" "2 ^ k" 2] by (simp add: mult.commute)
    with bit_unat [of x k] show ?thesis by (simp add: mod_2_eq_odd)
  qed
  have lt: "unat x mod 2 ^ k < 2 ^ k" for x :: u64 by simp
  have "bit (row_val A r) k = bit (A k) r" "bit (row_val B r) k = bit (B k) r"
    using Suc.prems by (simp_all add: bit_row_val)
  moreover have "bit (carry_plane A B cin k) r \<longleftrightarrow>
      2 ^ k \<le> unat (row_val A r) mod 2 ^ k + unat (row_val B r) mod 2 ^ k + of_bool (bit cin r)"
    using Suc by simp
  moreover have "unat (row_val A r) mod 2 ^ k + unat (row_val B r) mod 2 ^ k + of_bool (bit cin r) < 2 * 2 ^ k"
    by (rule add_carry_less [OF lt lt])
  ultimately show ?case
    by (cases "bit (A k) r"; cases "bit (B k) r") (auto simp: digit bit_simps)
qed (use assms in \<open>auto simp: of_bool_def\<close>)

lemma row_val_sum:
  assumes "r < 64"
  shows "row_val (sum_plane A B cin) r = row_val A r + row_val B r + of_bool (bit cin r)"
proof (rule word_bit_eqI)
  fix k assume "k < LENGTH(64)"
  then have k: "k < 64" by simp
  let ?a = "unat (row_val A r)" and ?b = "unat (row_val B r)" and ?c = "of_bool (bit cin r) :: nat"
  have "bit (row_val A r + row_val B r + of_bool (bit cin r)) k \<longleftrightarrow> odd ((?a + ?b + ?c) div 2 ^ k)"
  proof -
    have "row_val A r + row_val B r + of_bool (bit cin r) = of_nat (?a + ?b + ?c)" by simp
    then show ?thesis using k bit_iff_odd [of "?a + ?b + ?c" k] by (simp only: bit_of_nat_iff) simp
  qed
  also have "(?a + ?b + ?c) div 2 ^ k =
      ?a div 2 ^ k + ?b div 2 ^ k + (?a mod 2 ^ k + ?b mod 2 ^ k + ?c) div 2 ^ k"
    by (rule add_div_digits) simp
  also have "(?a mod 2 ^ k + ?b mod 2 ^ k + ?c) div 2 ^ k = of_bool (bit (carry_plane A B cin k) r)"
  proof -
    have "?a mod 2 ^ k + ?b mod 2 ^ k + ?c < 2 * 2 ^ k" by (rule add_carry_less) simp_all
    then show ?thesis
      using carry_plane_mod [of k r A B cin] k assms
      by (auto simp: div_if)
  qed
  finally have "bit (row_val A r + row_val B r + of_bool (bit cin r)) k \<longleftrightarrow>
      odd (?a div 2 ^ k + ?b div 2 ^ k + of_bool (bit (carry_plane A B cin k) r))" .
  then show "bit (row_val (sum_plane A B cin) r) k =
      bit (row_val A r + row_val B r + of_bool (bit cin r)) k"
    using k bit_unat [of "row_val A r" k] bit_unat [of "row_val B r" k]
    by (auto simp: bit_row_val sum_plane_def bit_simps)
qed

section \<open>Selection\<close>

lemma row_val_select:
  "row_val (\<lambda>b. (m AND A b) OR (B b AND NOT m)) r =
     (if r < 64 \<and> bit m r then row_val A r else row_val B r)"
  by (rule word_bit_eqI) (auto simp: bit_row_val bit_simps dest: bit_imp_le_length)

end
