(* ===== verification/Jit_Comparison.thy ===== *)
theory Jit_Comparison
  imports A64 Bit_Planes Bit_Slicer
begin

text \<open>
  The single-field comparison kernel: \<open>JitCompiler::compile_comparison\<close> of
  \<open>src/jit/compiler.cpp\<close>, which emits one block of instructions for every bit of the threshold,
  and the proof that the emitted code computes the mask of the rows above the threshold.
\<close>

definition comparison_block :: "u64 \<Rightarrow> nat \<Rightarrow> instr list" where
  "comparison_block threshold b =
     I_LDR_POST (X 12) (X 11) (- 8) #
     (if \<not> bit threshold b
      then [I_AND (X 13) (X 10) (X 12), I_ORR (X 9) (X 9) (X 13), I_BIC (X 10) (X 10) (X 12)]
      else [I_AND (X 10) (X 10) (X 12)])"

definition comparison_code :: "u64 \<Rightarrow> instr list" where
  "comparison_code threshold =
     [I_ORR (X 9) XZR XZR, I_MOVI (X 10) (- 1), I_ADDI (X 11) (X 0) 504] @
     concat (map (comparison_block threshold) (rev [0..<64])) @
     [I_MOV (X 0) (X 9), I_RET]"

text \<open>\<open>runtime_->add\<close> may fail; the result is then null.\<close>

definition compile_comparison :: "bool \<Rightarrow> u64 \<Rightarrow> instr list option" where
  "compile_comparison add_ok threshold = (if add_ok then Some (comparison_code threshold) else None)"

text \<open>Calling the kernel on the 64 planes of a column stored at an address.\<close>

definition planes_at :: "cpu \<Rightarrow> u64 \<Rightarrow> planes" where
  "planes_at c a b = mem c (a + of_nat (8 * b))"

definition call_comparison :: "instr list \<Rightarrow> u64 \<Rightarrow> cpu \<Rightarrow> u64" where
  "call_comparison code bit_planes c = regs (exec code (c\<lparr>regs := (regs c)(0 := bit_planes)\<rparr>)) 0"

lemma comparison_blocks:
  fixes t :: u64
  assumes "k \<le> 64" and "regs c 11 = a + of_nat (8 * 63)" and "mem c = m"
    and "regs c 9 = 0" and "regs c 10 = NOT 0"
  defines "c' \<equiv> exec (concat (map (comparison_block t) (rev [k..<64]))) c"
  defines "T \<equiv> (\<lambda>b. if bit t b then NOT 0 else 0)"
  defines "ge \<equiv> fold (cmp_step (\<lambda>b. m (a + of_nat (8 * b))) T) (rev [k..<64]) (0, NOT 0)"
  shows "regs c' 9 = fst ge \<and> regs c' 10 = snd ge \<and> mem c' = m \<and>
    regs c' 11 = a + of_nat (8 * k) - 8"
  using assms(1) unfolding c'_def ge_def
proof (induction "64 - k" arbitrary: k)
  case 0
  then have "k = 64" by simp
  with assms(2-5) show ?case by simp
next
  case (Suc d)
  then have k: "k < 64" "d = 64 - Suc k" "Suc k \<le> 64" by simp_all
  then have r: "rev [k..<64] = rev [Suc k..<64] @ [k]" by (simp add: upt_conv_Cons)
  let ?c = "exec (concat (map (comparison_block t) (rev [Suc k..<64]))) c"
  have "regs ?c 11 = a + of_nat (8 * k)" "mem ?c = m"
    using Suc.hyps(1) [OF k(2,3)] by simp_all
  then show ?case
    using Suc.hyps(1) [OF k(2,3)]
    by (cases "bit t k") (simp_all add: r comparison_block_def cmp_step_def T_def ac_simps)
qed

lemma comparison_kernel:
  "call_comparison (comparison_code t) a c =
     fst (fold (cmp_step (planes_at c a) (\<lambda>b. if bit t b then NOT 0 else 0)) (rev [0..<64]) (0, NOT 0))"
proof -
  let ?c = "exec [I_ORR (X 9) XZR XZR, I_MOVI (X 10) (- 1), I_ADDI (X 11) (X 0) 504]
    (c\<lparr>regs := (regs c)(0 := a)\<rparr>)"
  have "regs ?c 11 = a + of_nat (8 * 63)" "mem ?c = mem c" "regs ?c 9 = 0" "regs ?c 10 = NOT 0"
    by simp_all
  note b = comparison_blocks [OF le0 this]
  have p: "planes_at c a = (\<lambda>b. mem c (a + of_nat (8 * b)))" by (simp add: planes_at_def fun_eq_iff)
  have "call_comparison (comparison_code t) a c =
      regs (exec (concat (map (comparison_block t) (rev [0..<64]))) ?c) 9"
    unfolding call_comparison_def comparison_code_def exec_append by simp
  then show ?thesis unfolding p using b by simp
qed

text \<open>
  Claim C15. The emitted kernel is correct: called on the bit planes of a sliced column, it returns
  the mask whose bit \<open>r\<close> says that row \<open>r\<close> is greater than the threshold, as unsigned
  64-bit integers.
\<close>

theorem comparison_kernel_correct:
  assumes "lanes_ok Lanes" and "length A = 64" and "r < 64"
    and "\<And>b. b < 64 \<Longrightarrow> planes_at c a b = slice Lanes A ! b"
    and "compile_comparison True t = Some code"
  shows "bit (call_comparison code a c) r \<longleftrightarrow> t < A ! r"
proof -
  have "row_val (planes_at c a) r = A ! r"
    using assms(1-4) by (intro word_bit_eqI) (simp add: bit_row_val bit_slice)
  then show ?thesis
    using assms(3,5) cmp_planes(1) [of r "planes_at c a" "\<lambda>b. if bit t b then NOT 0 else 0"]
    by (auto simp: compile_comparison_def comparison_kernel row_val_const)
qed

definition column_cpu :: "column \<Rightarrow> cpu" where
  "column_cpu A = \<lparr>regs = (\<lambda>n. 0), sp = 0, mem = (\<lambda>a. A ! (unat a div 8)), flags = (0, 0)\<rparr>"

theorem comparison_kernel_correct_witness:
  "bit (call_comparison (comparison_code 4) 0 (column_cpu (slice (\<lambda>s. s) (replicate 64 5)))) 9"
proof -
  have "planes_at (column_cpu (slice (\<lambda>s. s) (replicate 64 5))) 0 b = slice (\<lambda>s. s) (replicate 64 5) ! b"
    if "b < 64" for b
    using that by (simp add: planes_at_def column_cpu_def unat_word_ariths unat_of_nat)
  from comparison_kernel_correct [OF _ _ _ this, of 9 4 "comparison_code 4"] show ?thesis
    by (simp add: lanes_ok_def compile_comparison_def)
qed

end
