(* ===== verification/Jit_IR.thy ===== *)
theory Jit_IR
  imports AG_Prelude
begin

text \<open>
  The expression graph of the engine (\<open>include/apex/jit/ir.hpp\<close>, \<open>src/jit/jit.cpp\<close>):
  nodes live in one pool and refer to each other by address, so a subexpression can be shared. A node
  address is its index in the pool, a null pointer is \<open>None\<close>. The graph is acyclic because a
  node is built after its operands: \<open>pool_wf\<close> is that invariant. \<open>node_value\<close> is the
  meaning of a node on one row.
\<close>

section \<open>Nodes\<close>

datatype NodeKind = K_LOAD | K_CONST | K_ADD | K_SUB | K_GT | K_LT | K_GE | K_LE | K_EQ | K_AND | K_OR
  | K_NOT | K_SELECT | K_MUL | K_POPCNT | K_LSL | K_LSR | K_SUM | K_INFERENCE_COUNT

datatype ResultKind = BITPLANE | BITMASK

record Node =
  kind :: NodeKind
  result_kind :: ResultKind
  field_name :: string
  const_value :: u64
  weight :: int
  shift_amount :: int
  left :: "nat option"
  right :: "nat option"
  cond :: "nat option"
  operands :: "nat list"
  slot_id :: int
  eq_slot_id :: int
  field_idx :: int
  carry_reg :: int
  skip_jit :: bool
  active_bits :: nat

text \<open>A node as its member initialisers leave it.\<close>

definition Node_new :: Node where
  "Node_new = \<lparr>kind = K_LOAD, result_kind = BITPLANE, field_name = [], const_value = 0, weight = 0,
     shift_amount = 0, left = None, right = None, cond = None, operands = [], slot_id = -1,
     eq_slot_id = -1, field_idx = -1, carry_reg = -1, skip_jit = False, active_bits = 64\<rparr>"

section \<open>The pool and the builders\<close>

record NodePool =
  storage_ok :: bool
  nodes :: "Node list"

definition MAX_NODES :: nat where "MAX_NODES = 2097152"

definition NodePool_new :: "bool \<Rightarrow> NodePool" where
  "NodePool_new malloc_ok = \<lparr>storage_ok = malloc_ok, nodes = []\<rparr>"

definition pool_alloc :: "NodePool \<Rightarrow> nat option \<times> NodePool" where
  "pool_alloc p =
     (if \<not> storage_ok p \<or> MAX_NODES \<le> length (nodes p) then (None, p)
      else (Some (length (nodes p)), p\<lparr>nodes := nodes p @ [Node_new]\<rparr>))"

definition pool_reset :: "NodePool \<Rightarrow> NodePool" where
  "pool_reset p = (if \<not> storage_ok p then p else p\<lparr>nodes := []\<rparr>)"

definition ensure_pool :: "bool \<Rightarrow> NodePool option \<Rightarrow> NodePool" where
  "ensure_pool malloc_ok g_pool = (case g_pool of None \<Rightarrow> NodePool_new malloc_ok | Some p \<Rightarrow> p)"

text \<open>Every builder allocates a node and fills it in; it returns null when the pool is full.\<close>

definition build :: "(Node \<Rightarrow> Node) \<Rightarrow> NodePool \<Rightarrow> nat option \<times> NodePool" where
  "build fill p =
     (case pool_alloc p of
        (None, p') \<Rightarrow> (None, p')
      | (Some i, p') \<Rightarrow> (Some i, p'\<lparr>nodes := (nodes p')[i := fill (nodes p' ! i)]\<rparr>))"

definition Load :: "string \<Rightarrow> NodePool \<Rightarrow> nat option \<times> NodePool" where
  "Load name = build (\<lambda>n. n\<lparr>kind := K_LOAD, result_kind := BITPLANE, field_name := take 63 (c_str name)\<rparr>)"

definition Const :: "u64 \<Rightarrow> NodePool \<Rightarrow> nat option \<times> NodePool" where
  "Const v = build (\<lambda>n. n\<lparr>kind := K_CONST, result_kind := BITPLANE, const_value := v\<rparr>)"

text \<open>The builders of two operands differ in the kind and the result kind only.\<close>

definition build2 :: "NodeKind \<Rightarrow> ResultKind \<Rightarrow> nat option \<Rightarrow> nat option \<Rightarrow> NodePool \<Rightarrow> nat option \<times> NodePool" where
  "build2 k rk a b = build (\<lambda>n. n\<lparr>kind := k, result_kind := rk, left := a, right := b\<rparr>)"

definition Add where "Add = build2 K_ADD BITPLANE"
definition Sub where "Sub = build2 K_SUB BITPLANE"
definition GT where "GT = build2 K_GT BITMASK"
definition LT where "LT = build2 K_LT BITMASK"
definition GE where "GE = build2 K_GE BITMASK"
definition LE where "LE = build2 K_LE BITMASK"
definition EQ where "EQ = build2 K_EQ BITMASK"
definition And where "And = build2 K_AND BITMASK"
definition Or where "Or = build2 K_OR BITMASK"
definition Mul where "Mul = build2 K_MUL BITPLANE"

definition Not_b :: "nat option \<Rightarrow> NodePool \<Rightarrow> nat option \<times> NodePool" where
  "Not_b a = build (\<lambda>n. n\<lparr>kind := K_NOT, result_kind := BITMASK, left := a\<rparr>)"

definition Select :: "nat option \<Rightarrow> nat option \<Rightarrow> nat option \<Rightarrow> NodePool \<Rightarrow> nat option \<times> NodePool" where
  "Select c a b = build (\<lambda>n. n\<lparr>kind := K_SELECT, result_kind := BITPLANE, cond := c, left := a, right := b\<rparr>)"

definition Popcnt :: "nat option \<Rightarrow> NodePool \<Rightarrow> nat option \<times> NodePool" where
  "Popcnt a = build (\<lambda>n. n\<lparr>kind := K_POPCNT, result_kind := BITPLANE, left := a\<rparr>)"

definition LSL :: "nat option \<Rightarrow> int \<Rightarrow> NodePool \<Rightarrow> nat option \<times> NodePool" where
  "LSL a shift = build (\<lambda>n. n\<lparr>kind := K_LSL, result_kind := BITPLANE, left := a, shift_amount := shift\<rparr>)"

definition LSR :: "nat option \<Rightarrow> int \<Rightarrow> NodePool \<Rightarrow> nat option \<times> NodePool" where
  "LSR a shift = build (\<lambda>n. n\<lparr>kind := K_LSR, result_kind := BITPLANE, left := a, shift_amount := shift\<rparr>)"

definition Sum :: "nat list \<Rightarrow> NodePool \<Rightarrow> nat option \<times> NodePool" where
  "Sum ops = build (\<lambda>n. n\<lparr>kind := K_SUM, result_kind := BITPLANE, operands := ops\<rparr>)"

definition InferenceCount :: "nat option \<Rightarrow> NodePool \<Rightarrow> nat option \<times> NodePool" where
  "InferenceCount c = build (\<lambda>n. n\<lparr>kind := K_INFERENCE_COUNT, result_kind := BITPLANE, cond := c\<rparr>)"

lemmas builder_defs = Load_def Const_def build2_def Add_def Sub_def GT_def LT_def GE_def LE_def EQ_def
  And_def Or_def Mul_def Not_b_def Select_def Popcnt_def LSL_def LSR_def Sum_def InferenceCount_def

section \<open>Acyclicity\<close>

definition children :: "Node \<Rightarrow> nat list" where
  "children n = (case left n of None \<Rightarrow> [] | Some i \<Rightarrow> [i]) @ (case right n of None \<Rightarrow> [] | Some i \<Rightarrow> [i]) @
     (case cond n of None \<Rightarrow> [] | Some i \<Rightarrow> [i]) @ operands n"

lemma in_children:
  "x \<in> set (children n) \<longleftrightarrow> left n = Some x \<or> right n = Some x \<or> cond n = Some x \<or> x \<in> set (operands n)"
  by (auto simp: children_def split: option.splits)

definition pool_wf :: "Node list \<Rightarrow> bool" where
  "pool_wf ns \<longleftrightarrow> list_all (\<lambda>i. list_all (\<lambda>c. c < i) (children (ns ! i))) [0..<length ns]"

lemma pool_wf_iff: "pool_wf ns \<longleftrightarrow> (\<forall>i < length ns. \<forall>c \<in> set (children (ns ! i)). c < i)"
  by (auto simp: pool_wf_def list_all_iff)

lemma build_result:
  "build fill p = (r, p') \<Longrightarrow>
   (r = None \<and> p' = p) \<or>
   (r = Some (length (nodes p)) \<and> p' = p\<lparr>nodes := nodes p @ [fill Node_new]\<rparr> \<and> length (nodes p) < MAX_NODES)"
  by (auto simp: build_def pool_alloc_def split: if_splits)

lemma build_wf:
  assumes "pool_wf (nodes p)" and "\<forall>c \<in> set (children (fill Node_new)). c < length (nodes p)"
  shows "pool_wf (nodes (snd (build fill p)))"
proof -
  obtain r p' where b: "build fill p = (r, p')" by fastforce
  from build_result [OF this] assms show ?thesis
    by (auto simp: b pool_wf_iff nth_append less_Suc_eq)
qed

section \<open>The meaning of a node\<close>

text \<open>
  The value of a node on one row: \<open>env\<close> gives the fields of the row. A mask is 0 or 1. The kinds
  the bit-sliced compiler emits no code for keep the zero of the cleared scratchpad.
\<close>

definition mask_val :: "bool \<Rightarrow> u64" where
  "mask_val b = (if b then 1 else 0)"

definition node_op :: "NodeKind \<Rightarrow> u64 \<Rightarrow> u64 \<Rightarrow> u64 \<Rightarrow> u64" where
  "node_op k c a b =
     (case k of K_ADD \<Rightarrow> a + b | K_SUB \<Rightarrow> a - b
      | K_GT \<Rightarrow> mask_val (a > b) | K_LT \<Rightarrow> mask_val (a < b) | K_GE \<Rightarrow> mask_val (a \<ge> b)
      | K_LE \<Rightarrow> mask_val (a \<le> b) | K_EQ \<Rightarrow> mask_val (a = b)
      | K_AND \<Rightarrow> mask_val (a \<noteq> 0 \<and> b \<noteq> 0) | K_OR \<Rightarrow> mask_val (a \<noteq> 0 \<or> b \<noteq> 0) | K_NOT \<Rightarrow> mask_val (a = 0)
      | K_SELECT \<Rightarrow> (if c \<noteq> 0 then a else b)
      | _ \<Rightarrow> 0)"

function node_value :: "Node list \<Rightarrow> (string \<Rightarrow> u64) \<Rightarrow> nat \<Rightarrow> u64" where
  "node_value ns env i =
     (let n = ns ! i;
          val = (\<lambda>c. case c of None \<Rightarrow> 0 | Some j \<Rightarrow> if j < i then node_value ns env j else 0)
      in case kind n of
           K_LOAD \<Rightarrow> env (field_name n)
         | K_CONST \<Rightarrow> const_value n
         | k \<Rightarrow> node_op k (val (cond n)) (val (left n)) (val (right n)))"
  by pat_completeness auto
termination by (relation "measure (\<lambda>(ns, env, i). i)") auto

declare node_value.simps [simp del]

text \<open>The value of an inner node from the values of its operands.\<close>

lemma node_value_inner:
  assumes "pool_wf ns" and "i < length ns" and "kind (ns ! i) \<noteq> K_LOAD" and "kind (ns ! i) \<noteq> K_CONST"
  shows "node_value ns e i =
    node_op (kind (ns ! i)) (case cond (ns ! i) of None \<Rightarrow> 0 | Some j \<Rightarrow> node_value ns e j)
      (case left (ns ! i) of None \<Rightarrow> 0 | Some j \<Rightarrow> node_value ns e j)
      (case right (ns ! i) of None \<Rightarrow> 0 | Some j \<Rightarrow> node_value ns e j)"
proof -
  have "c < i" if "c \<in> set (children (ns ! i))" for c using assms(1,2) that by (auto simp: pool_wf_iff)
  then have lt: "left (ns ! i) = Some c \<Longrightarrow> c < i" "right (ns ! i) = Some c \<Longrightarrow> c < i" "cond (ns ! i) = Some c \<Longrightarrow> c < i" for c
    by (simp_all add: in_children)
  have v: "(case x of None \<Rightarrow> 0 | Some j \<Rightarrow> if j < i then node_value ns e j else 0) =
      (case x of None \<Rightarrow> 0 | Some j \<Rightarrow> node_value ns e j)" if "x \<in> {left (ns ! i), right (ns ! i), cond (ns ! i)}" for x
    using that lt by (auto split: option.split)
  have "node_value ns e i = node_op (kind (ns ! i))
      (case cond (ns ! i) of None \<Rightarrow> 0 | Some j \<Rightarrow> if j < i then node_value ns e j else 0)
      (case left (ns ! i) of None \<Rightarrow> 0 | Some j \<Rightarrow> if j < i then node_value ns e j else 0)
      (case right (ns ! i) of None \<Rightarrow> 0 | Some j \<Rightarrow> if j < i then node_value ns e j else 0)"
    using assms(3,4) by (subst node_value.simps) (simp add: Let_def split: NodeKind.split)
  then show ?thesis by (simp add: v)
qed

lemma node_value_leaf:
  "kind (ns ! i) = K_LOAD \<Longrightarrow> node_value ns e i = e (field_name (ns ! i))"
  "kind (ns ! i) = K_CONST \<Longrightarrow> node_value ns e i = const_value (ns ! i)"
  by (simp_all add: node_value.simps [of ns e i] Let_def)

lemma node_value_append: "i < length ns \<Longrightarrow> node_value (ns @ ms) env i = node_value ns env i"
proof (induction i rule: less_induct)
  case (less i)
  have v: "(case x of None \<Rightarrow> 0 | Some j \<Rightarrow> if j < i then node_value (ns @ ms) env j else 0) =
      (case x of None \<Rightarrow> 0 | Some j \<Rightarrow> if j < i then node_value ns env j else 0)" for x
    using less by (auto split: option.split)
  have n: "(ns @ ms) ! i = ns ! i" using less.prems by (simp add: nth_append)
  show ?case by (subst (1 2) node_value.simps) (simp only: n v Let_def)
qed

text \<open>Whatever is built, each node refers to older nodes only.\<close>

lemma builders_acyclic:
  assumes "pool_wf (nodes p)" and "\<forall>x \<in> {a, b, c}. \<forall>i. x = Some i \<longrightarrow> i < length (nodes p)"
    and "\<forall>i \<in> set ops. i < length (nodes p)"
  shows "list_all (\<lambda>f. pool_wf (nodes (snd (f p))))
    [Load name, Const v, Add a b, Sub a b, GT a b, LT a b, GE a b, LE a b, EQ a b, And a b, Or a b, Not_b a,
     Select c a b, Mul a b, Popcnt a, LSL a sh, LSR a sh, Sum ops, InferenceCount c]"
  using assms
  by (auto simp: builder_defs children_def Node_new_def intro!: build_wf split: option.splits)

section \<open>Expressions\<close>

text \<open>
  What a client writes down with the builders: an expression, its value on a row in the arithmetic of 64-bit
  words, and the calls that build it, operands first.
\<close>

datatype binop = B_add | B_sub | B_gt | B_lt | B_ge | B_le | B_eq | B_and | B_or

datatype expr = E_load string | E_const u64 | E_bin binop expr expr | E_not expr | E_select expr expr expr

fun bin_value :: "binop \<Rightarrow> u64 \<Rightarrow> u64 \<Rightarrow> u64" where
  "bin_value B_add a b = a + b"
| "bin_value B_sub a b = a - b"
| "bin_value B_gt a b = mask_val (b < a)"
| "bin_value B_lt a b = mask_val (a < b)"
| "bin_value B_ge a b = mask_val (b \<le> a)"
| "bin_value B_le a b = mask_val (a \<le> b)"
| "bin_value B_eq a b = mask_val (a = b)"
| "bin_value B_and a b = mask_val (a \<noteq> 0 \<and> b \<noteq> 0)"
| "bin_value B_or a b = mask_val (a \<noteq> 0 \<or> b \<noteq> 0)"

primrec expr_value :: "expr \<Rightarrow> (string \<Rightarrow> u64) \<Rightarrow> u64" where
  "expr_value (E_load name) env = env (take 63 (c_str name))"
| "expr_value (E_const v) env = v"
| "expr_value (E_bin f x y) env = bin_value f (expr_value x env) (expr_value y env)"
| "expr_value (E_not x) env = mask_val (expr_value x env = 0)"
| "expr_value (E_select q x y) env = (if expr_value q env \<noteq> 0 then expr_value x env else expr_value y env)"

primrec expr_nodes :: "expr \<Rightarrow> nat" where
  "expr_nodes (E_load name) = 1"
| "expr_nodes (E_const v) = 1"
| "expr_nodes (E_bin f x y) = expr_nodes x + expr_nodes y + 1"
| "expr_nodes (E_not x) = expr_nodes x + 1"
| "expr_nodes (E_select q x y) = expr_nodes q + expr_nodes x + expr_nodes y + 1"

fun bin_builder :: "binop \<Rightarrow> nat option \<Rightarrow> nat option \<Rightarrow> NodePool \<Rightarrow> nat option \<times> NodePool" where
  "bin_builder B_add = Add"
| "bin_builder B_sub = Sub"
| "bin_builder B_gt = GT"
| "bin_builder B_lt = LT"
| "bin_builder B_ge = GE"
| "bin_builder B_le = LE"
| "bin_builder B_eq = EQ"
| "bin_builder B_and = And"
| "bin_builder B_or = Or"

primrec construct :: "expr \<Rightarrow> NodePool \<Rightarrow> nat option \<times> NodePool" where
  "construct (E_load name) p = Load name p"
| "construct (E_const v) p = Const v p"
| "construct (E_bin f x y) p = (let (a, p) = construct x p; (b, p) = construct y p in bin_builder f a b p)"
| "construct (E_not x) p = (let (a, p) = construct x p in Not_b a p)"
| "construct (E_select q x y) p =
     (let (c, p) = construct q p; (a, p) = construct x p; (b, p) = construct y p in Select c a b p)"

text \<open>One more node in a pool with room.\<close>

lemma build_room:
  "storage_ok p \<Longrightarrow> length (nodes p) < MAX_NODES \<Longrightarrow> build fill p = (Some (length (nodes p)), p\<lparr>nodes := nodes p @ [fill Node_new]\<rparr>)"
  by (simp add: build_def pool_alloc_def)

lemma build_full: "storage_ok p \<Longrightarrow> length (nodes p) = MAX_NODES \<Longrightarrow> build fill p = (None, p)"
  by (simp add: build_def pool_alloc_def)

lemma bin_builder_build: "\<exists>k rk. bin_builder f = build2 k rk \<and> k \<noteq> K_LOAD \<and> k \<noteq> K_CONST \<and> (\<forall>c a b. node_op k c a b = bin_value f a b)"
  by (cases f) (auto simp: Add_def Sub_def GT_def LT_def GE_def LE_def EQ_def And_def Or_def node_op_def)

lemma grown:
  assumes "pool_wf (ns @ ms)" and "\<forall>c \<in> set (children n). c < length (ns @ ms)"
  shows "pool_wf (ns @ ms @ [n])"
  using assms by (auto simp: pool_wf_iff nth_append less_Suc_eq)

definition denotes :: "NodePool \<Rightarrow> expr \<Rightarrow> nat option \<times> NodePool \<Rightarrow> bool" where
  "denotes p e r \<longleftrightarrow> (\<exists>ms. r = (Some (length (nodes p @ ms) - 1), p\<lparr>nodes := nodes p @ ms\<rparr>) \<and> length ms = expr_nodes e \<and>
     pool_wf (nodes p @ ms) \<and> (\<forall>env. node_value (nodes p @ ms) env (length (nodes p @ ms) - 1) = expr_value e env))"

text \<open>A builder on top of built operands: the last node of the pool has the operation's value.\<close>

lemma denotes_top:
  assumes "storage_ok p" and "length (nodes p) + length ms < MAX_NODES" and "pool_wf (nodes p @ ms)" and "length ms + 1 = expr_nodes e"
    and "\<forall>c \<in> set (children (fill Node_new)). c < length (nodes p @ ms)"
    and "\<And>env. node_value (nodes p @ ms @ [fill Node_new]) env (length (nodes p @ ms)) = expr_value e env"
  shows "denotes p e (build fill (p\<lparr>nodes := nodes p @ ms\<rparr>))"
proof -
  have "expr_nodes e = Suc (length ms)" using assms(4) by simp
  then show ?thesis unfolding denotes_def
    using build_room [of "p\<lparr>nodes := nodes p @ ms\<rparr>" fill] grown [OF assms(3,5)] assms(1,2,3,6)
    by (intro exI [of _ "ms @ [fill Node_new]"]) simp
qed

lemma denotesD:
  assumes "denotes p e r"
  obtains i ms where "r = (Some i, p\<lparr>nodes := nodes p @ ms\<rparr>)" and "length ms = expr_nodes e" and "i < length (nodes p @ ms)"
    and "pool_wf (nodes p @ ms)" and "\<And>env xs. node_value (nodes p @ ms @ xs) env i = expr_value e env"
proof -
  obtain ms where m: "r = (Some (length (nodes p @ ms) - 1), p\<lparr>nodes := nodes p @ ms\<rparr>)" "length ms = expr_nodes e"
    "pool_wf (nodes p @ ms)" "\<And>env. node_value (nodes p @ ms) env (length (nodes p @ ms) - 1) = expr_value e env"
    using assms unfolding denotes_def by blast
  have "0 < expr_nodes e" by (cases e) simp_all
  then have l: "length (nodes p @ ms) - 1 < length (nodes p @ ms)" using m(2) by (cases ms) auto
  have "node_value (nodes p @ ms @ xs) env (length (nodes p @ ms) - 1) = expr_value e env" for env xs
    using node_value_append [OF l, of xs env] m(4) by simp
  with m l that show thesis by blast
qed

lemma construct_denotes:
  "storage_ok p \<Longrightarrow> pool_wf (nodes p) \<Longrightarrow> length (nodes p) + expr_nodes e \<le> MAX_NODES \<Longrightarrow> denotes p e (construct e p)"
proof (induction e arbitrary: p)
  case (E_load name)
  then show ?case using denotes_top [of p "[]"] by (simp add: Load_def children_def Node_new_def node_value_leaf)
next
  case (E_const v)
  then show ?case using denotes_top [of p "[]"] by (simp add: Const_def children_def Node_new_def node_value_leaf)
next
  case (E_bin f x y)
  from E_bin.prems E_bin.IH(1) [of p] obtain i ms where 1: "construct x p = (Some i, p\<lparr>nodes := nodes p @ ms\<rparr>)"
    "length ms = expr_nodes x" "i < length (nodes p @ ms)" "pool_wf (nodes p @ ms)"
    "\<And>env xs. node_value (nodes p @ ms @ xs) env i = expr_value x env" by (auto elim!: denotesD)
  from E_bin.prems E_bin.IH(2) [of "p\<lparr>nodes := nodes p @ ms\<rparr>"] 1(2,4) obtain j ks where
    2: "construct y (p\<lparr>nodes := nodes p @ ms\<rparr>) = (Some j, p\<lparr>nodes := nodes p @ ms @ ks\<rparr>)" "length ks = expr_nodes y"
    "j < length (nodes p @ ms @ ks)" "pool_wf (nodes p @ ms @ ks)" "\<And>env xs. node_value (nodes p @ ms @ ks @ xs) env j = expr_value y env"
    by (auto elim!: denotesD)
  obtain k rk where b: "bin_builder f = build2 k rk" "k \<noteq> K_LOAD" "k \<noteq> K_CONST" "\<And>c a b. node_op k c a b = bin_value f a b"
    using bin_builder_build [of f] by blast
  let ?n = "Node_new\<lparr>kind := k, result_kind := rk, left := Some i, right := Some j\<rparr>"
  have ch: "\<forall>c \<in> set (children ?n). c < length (nodes p @ ms @ ks)" using 1(3) 2(3) by (simp add: children_def Node_new_def)
  have "node_value (nodes p @ (ms @ ks) @ [?n]) env (length (nodes p @ ms @ ks)) = expr_value (E_bin f x y) env" for env
    using node_value_inner [OF grown [OF 2(4) [folded append_assoc] ch [folded append_assoc], unfolded append_assoc], of "length (nodes p @ ms @ ks)" env]
      1(5) [of "ks @ [?n]"] 2(5) [of "[?n]"] b by (simp add: nth_append Node_new_def)
  then have "denotes p (E_bin f x y) (build (\<lambda>n. n\<lparr>kind := k, result_kind := rk, left := Some i, right := Some j\<rparr>) (p\<lparr>nodes := nodes p @ ms @ ks\<rparr>))"
    using E_bin.prems 1(2) 2(2,4) ch by (intro denotes_top) simp_all
  then show ?case by (simp add: 1(1) 2(1) b(1) build2_def)
next
  case (E_not x)
  from E_not.prems E_not.IH [of p] obtain i ms where 1: "construct x p = (Some i, p\<lparr>nodes := nodes p @ ms\<rparr>)"
    "length ms = expr_nodes x" "i < length (nodes p @ ms)" "pool_wf (nodes p @ ms)"
    "\<And>env xs. node_value (nodes p @ ms @ xs) env i = expr_value x env" by (auto elim!: denotesD)
  let ?n = "Node_new\<lparr>kind := K_NOT, result_kind := BITMASK, left := Some i\<rparr>"
  have ch: "\<forall>c \<in> set (children ?n). c < length (nodes p @ ms)" using 1(3) by (simp add: children_def Node_new_def)
  have "node_value (nodes p @ ms @ [?n]) env (length (nodes p @ ms)) = expr_value (E_not x) env" for env
    using node_value_inner [OF grown [OF 1(4) ch], of "length (nodes p @ ms)" env] 1(5) [of "[?n]"]
    by (simp add: nth_append Node_new_def node_op_def)
  then have "denotes p (E_not x) (build (\<lambda>n. n\<lparr>kind := K_NOT, result_kind := BITMASK, left := Some i\<rparr>) (p\<lparr>nodes := nodes p @ ms\<rparr>))"
    using E_not.prems 1(2,4) ch by (intro denotes_top) simp_all
  then show ?case by (simp add: 1(1) Not_b_def)
next
  case (E_select q x y)
  from E_select.prems E_select.IH(1) [of p] obtain h hs where 0: "construct q p = (Some h, p\<lparr>nodes := nodes p @ hs\<rparr>)"
    "length hs = expr_nodes q" "h < length (nodes p @ hs)" "pool_wf (nodes p @ hs)"
    "\<And>env xs. node_value (nodes p @ hs @ xs) env h = expr_value q env" by (auto elim!: denotesD)
  from E_select.prems E_select.IH(2) [of "p\<lparr>nodes := nodes p @ hs\<rparr>"] 0(2,4) obtain i ms where
    1: "construct x (p\<lparr>nodes := nodes p @ hs\<rparr>) = (Some i, p\<lparr>nodes := nodes p @ hs @ ms\<rparr>)" "length ms = expr_nodes x"
    "i < length (nodes p @ hs @ ms)" "pool_wf (nodes p @ hs @ ms)" "\<And>env xs. node_value (nodes p @ hs @ ms @ xs) env i = expr_value x env"
    by (auto elim!: denotesD)
  from E_select.prems E_select.IH(3) [of "p\<lparr>nodes := nodes p @ hs @ ms\<rparr>"] 0(2) 1(2,4) obtain j ks where
    2: "construct y (p\<lparr>nodes := nodes p @ hs @ ms\<rparr>) = (Some j, p\<lparr>nodes := nodes p @ hs @ ms @ ks\<rparr>)" "length ks = expr_nodes y"
    "j < length (nodes p @ hs @ ms @ ks)" "pool_wf (nodes p @ hs @ ms @ ks)"
    "\<And>env xs. node_value (nodes p @ hs @ ms @ ks @ xs) env j = expr_value y env"
    by (auto elim!: denotesD)
  let ?n = "Node_new\<lparr>kind := K_SELECT, result_kind := BITPLANE, cond := Some h, left := Some i, right := Some j\<rparr>"
  have ch: "\<forall>c \<in> set (children ?n). c < length (nodes p @ hs @ ms @ ks)" using 0(3) 1(3) 2(3) by (simp add: children_def Node_new_def)
  have "pool_wf (nodes p @ (hs @ ms @ ks) @ [?n])" by (rule grown) (use 2(4) ch in simp_all)
  from node_value_inner [OF this, of "length (nodes p @ hs @ ms @ ks)"]
  have "node_value (nodes p @ (hs @ ms @ ks) @ [?n]) env (length (nodes p @ hs @ ms @ ks)) = expr_value (E_select q x y) env" for env
    using 0(5) [of "ms @ ks @ [?n]"] 1(5) [of "ks @ [?n]"] 2(5) [of "[?n]"] by (simp add: nth_append Node_new_def node_op_def)
  then have "denotes p (E_select q x y) (build (\<lambda>n. n\<lparr>kind := K_SELECT, result_kind := BITPLANE, cond := Some h, left := Some i, right := Some j\<rparr>)
      (p\<lparr>nodes := nodes p @ hs @ ms @ ks\<rparr>))"
    using E_select.prems 0(2) 1(2) 2(2,4) ch by (intro denotes_top) simp_all
  then show ?case by (simp add: 0(1) 1(1) 2(1) Select_def)
qed

text \<open>Without room the pool fills up and the last call returns null.\<close>

definition fills :: "NodePool \<Rightarrow> nat \<Rightarrow> nat option \<times> NodePool \<Rightarrow> bool" where
  "fills p k r \<longleftrightarrow> storage_ok (snd r) \<and> length (nodes (snd r)) = min MAX_NODES (length (nodes p) + k) \<and>
     (fst r = None \<longleftrightarrow> MAX_NODES < length (nodes p) + k)"

lemma fills_build: "storage_ok p \<Longrightarrow> length (nodes p) \<le> MAX_NODES \<Longrightarrow> fills p 1 (build fill p)"
  using build_room [of p fill] build_full [of p fill] by (cases "length (nodes p) < MAX_NODES") (auto simp: fills_def)

lemma fills_then:
  assumes "fills p k (a, q)" and "fills q (Suc m) r"
  shows "fills p (k + Suc m) r"
  using assms by (auto simp: fills_def min_def split: if_splits)

lemma fills_room: "fills p k (a, q) \<Longrightarrow> storage_ok q \<and> length (nodes q) \<le> MAX_NODES"
  by (simp add: fills_def)

lemma construct_fills:
  "storage_ok p \<Longrightarrow> length (nodes p) \<le> MAX_NODES \<Longrightarrow> fills p (expr_nodes e) (construct e p)"
proof (induction e arbitrary: p)
  case (E_load name)
  then show ?case using fills_build by (simp add: Load_def)
next
  case (E_const v)
  then show ?case using fills_build by (simp add: Const_def)
next
  case (E_bin f x y)
  obtain a p1 where 1: "construct x p = (a, p1)" by fastforce
  obtain b p2 where 2: "construct y p1 = (b, p2)" by fastforce
  have s: "fills p (expr_nodes x) (a, p1)" using E_bin 1 by metis
  then have t: "fills p1 (expr_nodes y) (b, p2)" using E_bin.IH(2) [of p1] 2 fills_room by metis
  have "fills p2 1 (bin_builder f a b p2)" using bin_builder_build [of f] fills_build fills_room [OF t] by (metis build2_def)
  with s t show ?case using 1 2 fills_then [of p1 "expr_nodes y" b p2 0] fills_then [of p "expr_nodes x" a p1 "expr_nodes y"] by simp
next
  case (E_not x)
  obtain a p1 where 1: "construct x p = (a, p1)" by fastforce
  have s: "fills p (expr_nodes x) (a, p1)" using E_not 1 by metis
  have "fills p1 1 (Not_b a p1)" using fills_build fills_room [OF s] by (metis Not_b_def)
  with s show ?case using 1 fills_then [of p "expr_nodes x" a p1 0] by simp
next
  case (E_select q x y)
  obtain c p0 where 0: "construct q p = (c, p0)" by fastforce
  obtain a p1 where 1: "construct x p0 = (a, p1)" by fastforce
  obtain b p2 where 2: "construct y p1 = (b, p2)" by fastforce
  have r: "fills p (expr_nodes q) (c, p0)" using E_select 0 by metis
  then have s: "fills p0 (expr_nodes x) (a, p1)" using E_select.IH(2) [of p0] 1 fills_room by metis
  then have t: "fills p1 (expr_nodes y) (b, p2)" using E_select.IH(3) [of p1] 2 fills_room by metis
  have "fills p2 1 (Select c a b p2)" using fills_build fills_room [OF t] by (metis Select_def)
  with r s t show ?case using 0 1 2 fills_then [of p1 "expr_nodes y" b p2 0] fills_then [of p0 "expr_nodes x" a p1 "expr_nodes y"]
      fills_then [of p "expr_nodes q" c p0 "expr_nodes x + expr_nodes y"] by (simp add: add.assoc)
qed

text \<open>
  Claim C21. The builders mean what they say. Building an expression of loads, constants, ADD, SUB,
  comparisons, AND, OR, NOT and SELECT, operands first, in a pool with room for its nodes returns a node
  whose value on every row is the value of the expression; the nodes that were there are unchanged, and the
  pool stays acyclic. Without room the last call returns null.
\<close>

theorem builders_denote:
  assumes "storage_ok p" and "pool_wf (nodes p)" and "length (nodes p) \<le> MAX_NODES"
  shows "if length (nodes p) + expr_nodes e \<le> MAX_NODES
    then \<exists>i ms. construct e p = (Some i, p\<lparr>nodes := nodes p @ ms\<rparr>) \<and> length ms = expr_nodes e \<and> i < length (nodes p @ ms) \<and>
      pool_wf (nodes p @ ms) \<and> (\<forall>env. node_value (nodes p @ ms) env i = expr_value e env)
    else fst (construct e p) = None"
proof (cases "length (nodes p) + expr_nodes e \<le> MAX_NODES")
  case True
  obtain i ms where "construct e p = (Some i, p\<lparr>nodes := nodes p @ ms\<rparr>)" "length ms = expr_nodes e" "i < length (nodes p @ ms)"
    "pool_wf (nodes p @ ms)" "\<And>env xs. node_value (nodes p @ ms @ xs) env i = expr_value e env"
    by (rule denotesD [OF construct_denotes [OF assms(1,2) True]]) (rule that)
  from this(1-4) this(5) [of "[]"] show ?thesis using True by auto
qed (use construct_fills [OF assms(1,3), of e] in \<open>simp add: fills_def\<close>)

theorem builders_denote_witness:
  "\<exists>i ms. construct (E_bin B_sub (E_load ''price'') (E_const 3)) (NodePool_new True) = (Some i, (NodePool_new True)\<lparr>nodes := ms\<rparr>) \<and>
     node_value ms (\<lambda>name. if name = ''price'' then 10 else 0) i = 7"
proof -
  have c: "take 63 (c_str ''price'') = ''price''" by (simp add: c_str_def)
  from builders_denote [of "NodePool_new True" "E_bin B_sub (E_load ''price'') (E_const 3)"] obtain i ms where
    "construct (E_bin B_sub (E_load ''price'') (E_const 3)) (NodePool_new True) = (Some i, (NodePool_new True)\<lparr>nodes := ms\<rparr>)"
    "\<forall>env. node_value ms env i = expr_value (E_bin B_sub (E_load ''price'') (E_const 3)) env"
    by (auto simp: NodePool_new_def MAX_NODES_def pool_wf_def)
  then show ?thesis by (intro exI [of _ i] exI [of _ ms]) (simp add: c)
qed

end
