(* ===== verification/Jit_Compiler.thy ===== *)
theory Jit_Compiler
  imports Jit_IR A64
begin

text \<open>
  The bit-sliced expression compiler (\<open>JitCompiler::compile_expression\<close> of
  \<open>src/jit/compiler.cpp\<close>): the analysis of the expression graph, the assignment of field
  indices, scratchpad slots and carry registers, and the emission of AArch64 code with its register
  cache of scratchpad slots. Compile-time metadata is written into the nodes, as in the source. The
  theory defines the compiler; \<open>Jit_Correct\<close> proves the code it emits correct.
\<close>

section \<open>Constants and the scratchpad manager\<close>

definition const_planes :: "u64 \<Rightarrow> u64 list" where
  "const_planes v = map (\<lambda>b. if drop_bit b v AND 1 \<noteq> 0 then NOT 0 else 0) [0..<64]"

definition get_or_create :: "(u64 \<times> u64 list) list \<Rightarrow> u64 \<Rightarrow> u64 list \<times> (u64 \<times> u64 list) list" where
  "get_or_create pools v =
     (case map_of pools v of Some p \<Rightarrow> (p, pools) | None \<Rightarrow> (const_planes v, (v, const_planes v) # pools))"

definition MAX_SLOTS :: nat where "MAX_SLOTS = 32768"

type_synonym slots_used = "nat \<Rightarrow> bool"

function first_free :: "slots_used \<Rightarrow> nat \<Rightarrow> nat option" where
  "first_free used i =
     (if MAX_SLOTS \<le> i then None else if \<not> used i then Some i else first_free used (Suc i))"
  by pat_completeness auto
termination by (relation "measure (\<lambda>(used, i). MAX_SLOTS - i)") auto

definition alloc_slot :: "slots_used \<Rightarrow> nat option \<times> slots_used" where
  "alloc_slot used =
     (case first_free used 0 of None \<Rightarrow> (None, used) | Some i \<Rightarrow> (Some i, used(i := True)))"

function first_block :: "slots_used \<Rightarrow> nat \<Rightarrow> nat option" where
  "first_block used i =
     (if MAX_SLOTS < i + 64 then None
      else if list_all (\<lambda>j. \<not> used (i + j)) [0..<64] then Some i else first_block used (i + 64))"
  by pat_completeness auto
termination by (relation "measure (\<lambda>(used, i). MAX_SLOTS - i)") (auto simp: MAX_SLOTS_def)

definition alloc_block :: "slots_used \<Rightarrow> nat option \<times> slots_used" where
  "alloc_block used =
     (case first_block used 0 of None \<Rightarrow> (None, used)
      | Some i \<Rightarrow> (Some i, (\<lambda>j. used j \<or> i \<le> j \<and> j < i + 64)))"

definition free_slot :: "int \<Rightarrow> slots_used \<Rightarrow> slots_used" where
  "free_slot i used = (if 0 \<le> i \<and> i < int MAX_SLOTS then used(nat i := False) else used)"

declare first_free.simps [simp del] first_block.simps [simp del]

section \<open>Analysis\<close>

record ExpressionAnalyzer =
  ea_nodes :: "Node list"
  arithmetic_nodes :: "nat list"
  comparison_nodes :: "nat list"
  select_nodes :: "nat list"
  all_nodes :: "nat list"

text \<open>\<open>64 - __builtin_clzll(v)\<close> for a nonzero value.\<close>

definition bit_length :: "u64 \<Rightarrow> nat" where
  "bit_length v = length (dropWhile Not (map (bit v) (rev [0..<64])))"

definition node_active_bits :: "Node list \<Rightarrow> Node \<Rightarrow> nat" where
  "node_active_bits ns n =
     (case kind n of
        K_CONST \<Rightarrow> (if const_value n = 0 then 0 else bit_length (const_value n))
      | K_LOAD \<Rightarrow> 64
      | _ \<Rightarrow>
        if kind n = K_GT \<or> kind n = K_LT
        then (case right n of
                Some r \<Rightarrow> if kind (ns ! r) = K_CONST then max 10 (active_bits (ns ! r)) else 64
              | None \<Rightarrow> 64)
        else active_bits n)"

definition is_mask_kind :: "NodeKind \<Rightarrow> bool" where
  "is_mask_kind k \<longleftrightarrow> k \<in> {K_GT, K_LT, K_GE, K_LE, K_EQ, K_AND, K_OR, K_NOT}"

definition is_select_kind :: "NodeKind \<Rightarrow> bool" where
  "is_select_kind k \<longleftrightarrow> k \<in> {K_SELECT, K_POPCNT, K_SUM, K_INFERENCE_COUNT}"

text \<open>The tail of \<open>analyze\<close> after the children were visited.\<close>

definition finish_node :: "nat \<Rightarrow> ExpressionAnalyzer \<Rightarrow> ExpressionAnalyzer" where
  "finish_node i s =
     (let ns = ea_nodes s; n = ns ! i; k = kind n;
          n' = n\<lparr>active_bits := node_active_bits ns n,
                 result_kind := (if is_mask_kind k then BITMASK else BITPLANE)\<rparr>
      in s\<lparr>ea_nodes := ns[i := n'], all_nodes := all_nodes s @ [i],
           comparison_nodes := (if is_mask_kind k then comparison_nodes s @ [i] else comparison_nodes s),
           select_nodes := (if is_select_kind k then select_nodes s @ [i] else select_nodes s),
           arithmetic_nodes :=
             (if is_mask_kind k \<or> is_select_kind k then arithmetic_nodes s else arithmetic_nodes s @ [i])\<rparr>)"

text \<open>
  The depth-first visit. A visited node is one that is in \<open>all_nodes\<close>; the recursion is bounded
  by the number of nodes, which is its depth in an acyclic graph.
\<close>

primrec analyze :: "nat \<Rightarrow> nat option \<Rightarrow> ExpressionAnalyzer \<Rightarrow> ExpressionAnalyzer" where
  "analyze 0 = (\<lambda>node s. s)"
| "analyze (Suc fuel) = (\<lambda>node s.
     (case node of None \<Rightarrow> s
      | Some i \<Rightarrow>
          if i \<in> set (all_nodes s) then s
          else let n = ea_nodes s ! i;
                   s = analyze fuel (left n) s;
                   s = analyze fuel (right n) s;
                   s = analyze fuel (cond n) s;
                   s = fold (\<lambda>j. analyze fuel (Some j)) (operands n) s
               in finish_node i s))"

definition run_analyzer :: "Node list \<Rightarrow> nat \<Rightarrow> ExpressionAnalyzer" where
  "run_analyzer ns root =
     analyze (Suc (length ns)) (Some root)
       \<lparr>ea_nodes = ns, arithmetic_nodes = [], comparison_nodes = [], select_nodes = [], all_nodes = []\<rparr>"

section \<open>Metadata\<close>

text \<open>Field indices in order of first use; more than 128 fields are refused.\<close>

fun assign_fields :: "nat list \<Rightarrow> string list \<Rightarrow> Node list \<Rightarrow> (string list \<times> Node list) option" where
  "assign_fields [] fs ns = Some (fs, ns)"
| "assign_fields (i # is) fs ns =
     (if kind (ns ! i) \<noteq> K_LOAD then assign_fields is fs ns
      else case find_index_of fs (field_name (ns ! i)) of
        Some j \<Rightarrow> assign_fields is fs (ns[i := (ns ! i)\<lparr>field_idx := int j\<rparr>])
      | None \<Rightarrow>
          if 128 \<le> length fs then None
          else assign_fields is (fs @ [field_name (ns ! i)])
                 (ns[i := (ns ! i)\<lparr>field_idx := int (length fs)\<rparr>]))"

text \<open>The nodes as they are when the loop ends or refuses a field.\<close>

fun fields_written :: "nat list \<Rightarrow> string list \<Rightarrow> Node list \<Rightarrow> Node list" where
  "fields_written [] fs ns = ns"
| "fields_written (i # is) fs ns =
     (if kind (ns ! i) \<noteq> K_LOAD then fields_written is fs ns
      else case find_index_of fs (field_name (ns ! i)) of
        Some j \<Rightarrow> fields_written is fs (ns[i := (ns ! i)\<lparr>field_idx := int j\<rparr>])
      | None \<Rightarrow>
          if 128 \<le> length fs then ns
          else fields_written is (fs @ [field_name (ns ! i)])
                 (ns[i := (ns ! i)\<lparr>field_idx := int (length fs)\<rparr>]))"

lemma fields_written_Some: "assign_fields is fs ns = Some (fs', ns') \<Longrightarrow> fields_written is fs ns = ns'"
  by (induction "is" fs ns rule: assign_fields.induct) (auto split: if_splits option.splits)

definition mark_consts :: "nat list \<Rightarrow> Node list \<Rightarrow> Node list" where
  "mark_consts is ns =
     fold (\<lambda>i ns. if kind (ns ! i) = K_CONST then ns[i := (ns ! i)\<lparr>field_idx := - 2\<rparr>] else ns) is ns"

definition is_cmp_kind :: "NodeKind \<Rightarrow> bool" where
  "is_cmp_kind k \<longleftrightarrow> k \<in> {K_GT, K_LT, K_GE, K_LE, K_EQ}"

text \<open>Slots and carry registers for one node; \<open>None\<close> when the scratchpad is full.\<close>

definition alloc_node :: "nat \<Rightarrow> slots_used \<times> nat \<times> Node list \<Rightarrow> (slots_used \<times> nat \<times> Node list) option" where
  "alloc_node i st =
     (case st of (used, carry, ns) \<Rightarrow>
      let n = ns ! i in
      if kind n = K_LOAD \<or> kind n = K_CONST then Some st
      else case (if result_kind n = BITPLANE then alloc_block used else alloc_slot used) of
        (None, _) \<Rightarrow> None
      | (Some s, used) \<Rightarrow>
          let n = n\<lparr>slot_id := int s\<rparr> in
          case (if is_cmp_kind (kind n)
                then (case alloc_slot used of (None, _) \<Rightarrow> None
                      | (Some e, used) \<Rightarrow> Some (used, n\<lparr>eq_slot_id := int e\<rparr>))
                else Some (used, n)) of
            None \<Rightarrow> None
          | Some (used, n) \<Rightarrow>
              if (kind n = K_ADD \<or> kind n = K_SUB) \<and> carry < 6
              then Some (used, Suc carry, ns[i := n\<lparr>carry_reg := int carry\<rparr>])
              else Some (used, carry, ns[i := n]))"

fun alloc_nodes :: "nat list \<Rightarrow> slots_used \<times> nat \<times> Node list \<Rightarrow> (slots_used \<times> nat \<times> Node list) option" where
  "alloc_nodes [] st = Some st"
| "alloc_nodes (i # is) st = (case alloc_node i st of None \<Rightarrow> None | Some st \<Rightarrow> alloc_nodes is st)"

text \<open>The nodes at a null return: the allocation that failed has left -1.\<close>

definition alloc_failed :: "nat \<Rightarrow> slots_used \<times> nat \<times> Node list \<Rightarrow> Node list" where
  "alloc_failed i st =
     (case st of (used, carry, ns) \<Rightarrow>
      let n = ns ! i in
      case (if result_kind n = BITPLANE then alloc_block used else alloc_slot used) of
        (None, _) \<Rightarrow> ns[i := n\<lparr>slot_id := - 1\<rparr>]
      | (Some s, _) \<Rightarrow> ns[i := n\<lparr>slot_id := int s, eq_slot_id := - 1\<rparr>])"

fun slots_written :: "nat list \<Rightarrow> slots_used \<times> nat \<times> Node list \<Rightarrow> Node list" where
  "slots_written [] st = snd (snd st)"
| "slots_written (i # is) st = (case alloc_node i st of None \<Rightarrow> alloc_failed i st | Some st \<Rightarrow> slots_written is st)"

lemma slots_written_Some: "alloc_nodes is st = Some (used, carry, ns) \<Longrightarrow> slots_written is st = ns"
  by (induction "is" st rule: alloc_nodes.induct) (auto split: option.splits)

section \<open>The register cache of scratchpad slots\<close>

abbreviation "field_planes_ptr \<equiv> X 19"
abbreviation "scratch_ptr \<equiv> X 20"
abbreviation "bit_index \<equiv> X 21"
abbreviation "temp_ptr \<equiv> X 22"
abbreviation "plane_a \<equiv> X 2"
abbreviation "plane_b \<equiv> X 3"
abbreviation "result \<equiv> X 4"
abbreviation "mask_gt \<equiv> X 5"
abbreviation "mask_eq \<equiv> X 6"
abbreviation "scratch1 \<equiv> X 7"
abbreviation "hoisted_left \<equiv> X 16"
abbreviation "hoisted_right \<equiv> X 17"

record ScratchpadCache =
  next_reg :: nat
  slot_to_reg :: "int \<Rightarrow> nat option"
  reg_to_slot :: "nat \<Rightarrow> int"

definition cache_new :: ScratchpadCache where
  "cache_new = \<lparr>next_reg = 0, slot_to_reg = (\<lambda>s. None), reg_to_slot = (\<lambda>r. - 1)\<rparr>"

definition cache_reg :: "nat \<Rightarrow> reg" where
  "cache_reg r = X (8 + r)"

definition slot_offset :: "int \<Rightarrow> u64" where
  "slot_offset s = of_int s * 8"

text \<open>The register that takes a slot not yet cached: the next one in turn, whose old slot is dropped.\<close>

definition evict_next :: "ScratchpadCache \<Rightarrow> nat \<times> ScratchpadCache" where
  "evict_next c =
     (let r = next_reg c; old = reg_to_slot c r
      in (r, c\<lparr>next_reg := (r + 1) mod 8,
              slot_to_reg := (if old \<noteq> - 1 then (slot_to_reg c)(old := None) else slot_to_reg c)\<rparr>))"

definition bind_slot :: "int \<Rightarrow> nat \<Rightarrow> ScratchpadCache \<Rightarrow> ScratchpadCache" where
  "bind_slot s r c = c\<lparr>slot_to_reg := (slot_to_reg c)(s := Some r), reg_to_slot := (reg_to_slot c)(r := s)\<rparr>"

definition store_slot :: "int \<Rightarrow> reg \<Rightarrow> ScratchpadCache \<Rightarrow> instr list \<times> ScratchpadCache" where
  "store_slot s val_reg c =
     (let (r, c) = (case slot_to_reg c s of Some r \<Rightarrow> (r, c) | None \<Rightarrow> evict_next c)
      in (emit_mov_imm64 temp_ptr (slot_offset s) @ [I_STR_R val_reg scratch_ptr temp_ptr,
            I_MOV (cache_reg r) val_reg], bind_slot s r c))"

definition load_slot :: "int \<Rightarrow> reg \<Rightarrow> ScratchpadCache \<Rightarrow> instr list \<times> ScratchpadCache" where
  "load_slot s dest_reg c =
     (case slot_to_reg c s of
        Some r \<Rightarrow> ([I_MOV dest_reg (cache_reg r)], c)
      | None \<Rightarrow>
          (let (r, c) = evict_next c
           in (emit_mov_imm64 temp_ptr (slot_offset s) @ [I_LDR_R dest_reg scratch_ptr temp_ptr 0,
                 I_MOV (cache_reg r) dest_reg], bind_slot s r c)))"

section \<open>Code for one node\<close>

text \<open>Hoisting an operand: the address of its planes, or the constant itself (which is not used).\<close>

definition hoist :: "Node \<Rightarrow> reg \<Rightarrow> instr list" where
  "hoist op h =
     (case kind op of
        K_LOAD \<Rightarrow> [I_LDR h field_planes_ptr (slot_offset (field_idx op))]
      | K_CONST \<Rightarrow> emit_mov_imm64 h (const_value op)
      | _ \<Rightarrow> emit_mov_imm64 h (slot_offset (slot_id op)) @ [I_ADD h h scratch_ptr])"

text \<open>One plane of a hoisted operand.\<close>

definition load_plane :: "Node \<Rightarrow> reg \<Rightarrow> nat \<Rightarrow> reg \<Rightarrow> instr list" where
  "load_plane op h b dest =
     (if kind op = K_CONST
      then (if drop_bit b (const_value op) AND 1 \<noteq> 0 then [I_MVN dest XZR] else [I_MOV dest XZR])
      else [I_LDR dest h (of_nat (b * 8))])"

text \<open>\<open>carry_regs[node->carry_reg]\<close>; an index outside the array is undefined.\<close>

definition carry_register :: "Node \<Rightarrow> reg option" where
  "carry_register n = (if 0 \<le> carry_reg n \<and> carry_reg n < 6 then Some (X (23 + nat (carry_reg n))) else None)"

definition add_bit :: "NodeKind \<Rightarrow> Node \<Rightarrow> Node \<Rightarrow> reg \<Rightarrow> nat \<Rightarrow> instr list" where
  "add_bit k l r carry b =
     load_plane l hoisted_left b plane_a @ load_plane r hoisted_right b plane_b @
     (if k = K_SUB then [I_MVN plane_b plane_b] else []) @
     [I_EOR result plane_a plane_b, I_EOR scratch1 result carry, I_AND plane_a plane_a plane_b,
      I_AND result result carry, I_ORR carry plane_a result, I_STR scratch1 temp_ptr (of_nat (b * 8))]"

definition emit_add :: "nat \<Rightarrow> Node \<Rightarrow> Node \<Rightarrow> Node \<Rightarrow> reg \<Rightarrow> instr list" where
  "emit_add abits n l r carry =
     [I_MOVI carry (if kind n = K_SUB then 1 else 0)] @ hoist l hoisted_left @ hoist r hoisted_right @
     emit_mov_imm64 temp_ptr (slot_offset (slot_id n)) @ [I_ADD temp_ptr temp_ptr scratch_ptr] @
     concat (map (add_bit (kind n) l r carry) [0..<abits])"

definition cmp_bit :: "Node \<Rightarrow> reg \<Rightarrow> Node \<Rightarrow> reg \<Rightarrow> nat \<Rightarrow> instr list" where
  "cmp_bit a ha b hb i =
     load_plane a ha i plane_a @ load_plane b hb i plane_b @
     [I_BIC result plane_a plane_b, I_AND result result mask_eq, I_ORR mask_gt mask_gt result,
      I_EOR result plane_a plane_b, I_BIC mask_eq mask_eq result]"

definition emit_cmp :: "nat \<Rightarrow> Node \<Rightarrow> Node \<Rightarrow> Node \<Rightarrow> ScratchpadCache \<Rightarrow> instr list \<times> ScratchpadCache" where
  "emit_cmp abits n l r c =
     (let swap = (kind n = K_LT \<or> kind n = K_LE);
          (is1, c) = load_slot (eq_slot_id n) mask_eq c;
          (is2, c) = load_slot (slot_id n) mask_gt c;
          is3 = hoist l hoisted_left @ hoist r hoisted_right @
            concat (map (if swap then cmp_bit r hoisted_right l hoisted_left
                         else cmp_bit l hoisted_left r hoisted_right) (rev [0..<abits]));
          (is4, c) = store_slot (slot_id n) mask_gt c;
          (is5, c) = store_slot (eq_slot_id n) mask_eq c
      in if kind n = K_GE \<or> kind n = K_LE \<or> kind n = K_EQ
         then (let (is6, c) = load_slot (slot_id n) plane_a c;
                   (is7, c) = load_slot (eq_slot_id n) plane_b c;
                   is8 = (if kind n = K_EQ then [I_MOV result plane_b] else [I_ORR result plane_a plane_b]);
                   (is9, c) = store_slot (slot_id n) result c
               in (is1 @ is2 @ is3 @ is4 @ is5 @ is6 @ is7 @ is8 @ is9, c))
         else (is1 @ is2 @ is3 @ is4 @ is5, c))"

text \<open>AND, OR and NOT: with a right operand the kind decides, without one the mask is negated.\<close>

definition emit_logic :: "Node \<Rightarrow> Node \<Rightarrow> Node option \<Rightarrow> ScratchpadCache \<Rightarrow> instr list \<times> ScratchpadCache" where
  "emit_logic n l r c =
     (let (is1, c) = load_slot (slot_id l) plane_a c;
          (is2, c) = (case r of
             Some r \<Rightarrow> (let (is, c) = load_slot (slot_id r) plane_b c
                       in (is @ [if kind n = K_AND then I_AND result plane_a plane_b
                                 else I_ORR result plane_a plane_b], c))
           | None \<Rightarrow> ([I_MVN result plane_a], c));
          (is3, c) = store_slot (slot_id n) result c
      in (is1 @ is2 @ is3, c))"

definition emit_load_op :: "Node \<Rightarrow> reg \<Rightarrow> instr list" where
  "emit_load_op op r =
     (case kind op of
        K_LOAD \<Rightarrow> [I_LDR temp_ptr field_planes_ptr (slot_offset (field_idx op)), I_LDR_R r temp_ptr bit_index 3]
      | K_CONST \<Rightarrow> emit_mov_imm64 scratch1 (const_value op) @
                  [I_LSRV r scratch1 bit_index, I_ANDI r r 1, I_NEG r r]
      | _ \<Rightarrow> emit_mov_imm64 scratch1 (slot_offset (slot_id op)) @
            [I_ADD_LSL scratch1 scratch1 bit_index 3, I_LDR_R r scratch_ptr scratch1 0])"

definition select_bit :: "Node \<Rightarrow> Node \<Rightarrow> Node \<Rightarrow> nat \<Rightarrow> instr list" where
  "select_bit n l r b =
     [I_MOVI bit_index (of_nat b)] @ emit_load_op l plane_a @ emit_load_op r plane_b @
     [I_AND scratch1 mask_gt plane_a, I_BIC temp_ptr plane_b mask_gt, I_ORR scratch1 scratch1 temp_ptr] @
     emit_mov_imm64 temp_ptr (slot_offset (slot_id n) + of_nat (b * 8)) @
     [I_STR_R scratch1 scratch_ptr temp_ptr]"

definition emit_select ::
  "nat \<Rightarrow> Node \<Rightarrow> Node \<Rightarrow> Node \<Rightarrow> Node \<Rightarrow> ScratchpadCache \<Rightarrow> instr list \<times> ScratchpadCache" where
  "emit_select abits n q l r c =
     (let (is1, c) = load_slot (slot_id q) mask_gt c
      in (is1 @ concat (map (select_bit n l r) [0..<abits]), c))"

text \<open>
  One node of the single pass. The source dereferences the operands without a test, so a missing
  operand, like a carry register outside the array, is undefined: \<open>None\<close>.
\<close>

definition emit_node ::
  "nat \<Rightarrow> Node list \<Rightarrow> nat \<Rightarrow> ScratchpadCache \<Rightarrow> (instr list \<times> ScratchpadCache) option" where
  "emit_node abits ns i c =
     (let n = ns ! i; k = kind n in
      if skip_jit n then Some ([], c)
      else if k = K_ADD \<or> k = K_SUB
      then (case (carry_register n, left n, right n) of
              (Some cr, Some l, Some r) \<Rightarrow> Some (emit_add abits n (ns ! l) (ns ! r) cr, c)
            | _ \<Rightarrow> None)
      else if is_cmp_kind k
      then (case (left n, right n) of
              (Some l, Some r) \<Rightarrow> Some (emit_cmp abits n (ns ! l) (ns ! r) c)
            | _ \<Rightarrow> None)
      else if k = K_AND \<or> k = K_OR \<or> k = K_NOT
      then (case left n of
              Some l \<Rightarrow> Some (emit_logic n (ns ! l) (map_option ((!) ns) (right n)) c)
            | None \<Rightarrow> None)
      else if k = K_SELECT
      then (case (cond n, left n, right n) of
              (Some q, Some l, Some r) \<Rightarrow> Some (emit_select abits n (ns ! q) (ns ! l) (ns ! r) c)
            | _ \<Rightarrow> None)
      else Some ([], c))"

fun emit_nodes ::
  "nat \<Rightarrow> Node list \<Rightarrow> nat list \<Rightarrow> ScratchpadCache \<Rightarrow> (instr list \<times> ScratchpadCache) option" where
  "emit_nodes abits ns [] c = Some ([], c)"
| "emit_nodes abits ns (i # is) c =
     (case emit_node abits ns i c of None \<Rightarrow> None
      | Some (code, c) \<Rightarrow>
          (case emit_nodes abits ns is c of None \<Rightarrow> None
           | Some (code', c) \<Rightarrow> Some (code @ code', c)))"

section \<open>The whole kernel\<close>

definition prologue :: "instr list" where
  "prologue =
     [I_STP_PRE (X 29) (X 30), I_MOV (X 29) SP, I_STP_PRE (X 19) (X 20), I_STP_PRE (X 21) (X 22),
      I_STP_PRE (X 23) (X 24), I_STP_PRE (X 25) (X 26), I_STP_PRE (X 27) (X 28),
      I_MOV field_planes_ptr (X 0), I_MOV scratch_ptr (X 1)]"

definition init_node :: "Node \<Rightarrow> instr list" where
  "init_node n =
     (if 0 \<le> carry_reg n \<and> kind n = K_SUB then [I_MOVI (X (23 + nat (carry_reg n))) 1] else []) @
     (if 0 \<le> slot_id n \<and> result_kind n = BITMASK
      then emit_mov_imm64 temp_ptr (slot_offset (slot_id n)) @ [I_STR_R XZR scratch_ptr temp_ptr] @
           (if 0 \<le> eq_slot_id n
            then emit_mov_imm64 temp_ptr (slot_offset (eq_slot_id n)) @
                 [I_MOVI scratch1 (- 1), I_STR_R scratch1 scratch_ptr temp_ptr]
            else [])
      else [])"

definition init_code :: "Node list \<Rightarrow> nat list \<Rightarrow> instr list" where
  "init_code ns all =
     map (\<lambda>i. I_MOVI (X (23 + i)) 0) [0..<6] @ concat (map (\<lambda>i. init_node (ns ! i)) all)"

definition final_code :: "Node \<Rightarrow> instr list" where
  "final_code root =
     (if skip_jit root then [I_MOVI (X 0) 0]
      else if result_kind root = BITPLANE
      then emit_mov_imm64 temp_ptr (slot_offset (slot_id root)) @
           concat (map (\<lambda>i. [I_LDR_R result scratch_ptr temp_ptr 0, I_STR result scratch_ptr (of_nat (i * 8)),
             I_ADDI temp_ptr temp_ptr 8]) [0..<64]) @ [I_MOVI (X 0) 0]
      else emit_mov_imm64 temp_ptr (slot_offset (slot_id root)) @ [I_LDR_R (X 0) scratch_ptr temp_ptr 0])"

definition epilogue :: "instr list" where
  "epilogue =
     [I_LDP_POST (X 27) (X 28), I_LDP_POST (X 25) (X 26), I_LDP_POST (X 23) (X 24), I_LDP_POST (X 21) (X 22),
      I_LDP_POST (X 19) (X 20), I_LDP_POST (X 29) (X 30), I_RET]"

datatype compile_result = Kernel "instr list" | Nullptr | Undefined

text \<open>
  The result and the nodes with their metadata. \<open>add_ok\<close> is the outcome of
  \<open>runtime_->add\<close>.
\<close>

definition compile_expression ::
  "bool \<Rightarrow> nat \<Rightarrow> Node list \<Rightarrow> nat option \<Rightarrow> compile_result \<times> Node list" where
  "compile_expression add_ok abits ns root =
     (case root of None \<Rightarrow> (Nullptr, ns)
      | Some root \<Rightarrow>
        let ea = run_analyzer ns root; all = all_nodes ea in
        (case assign_fields (arithmetic_nodes ea) [] (ea_nodes ea) of
           None \<Rightarrow> (Nullptr, fields_written (arithmetic_nodes ea) [] (ea_nodes ea))
         | Some (_, ns1) \<Rightarrow>
             let ns2 = mark_consts (arithmetic_nodes ea) ns1 in
             (case alloc_nodes all ((\<lambda>_. False), 0, ns2) of
                None \<Rightarrow> (Nullptr, slots_written all ((\<lambda>_. False), 0, ns2))
              | Some (_, _, ns3) \<Rightarrow>
                  (case emit_nodes abits ns3 all cache_new of
                     None \<Rightarrow> (Undefined, ns3)
                   | Some (code, _) \<Rightarrow>
                       if add_ok
                       then (Kernel (prologue @ init_code ns3 all @ code @ final_code (ns3 ! root) @ epilogue), ns3)
                       else (Nullptr, ns3)))))"

end
