(* ===== verification/Jit_Cache.thy ===== *)
theory Jit_Cache
  imports Jit_Compiler Bit_Planes
begin

text \<open>
  The register cache of the expression compiler when its code runs: loading and storing a scratchpad
  slot through the cache is loading and storing the word of the slot, because the cached registers
  stay coherent with the scratchpad. \<open>frame\<close> says which registers and memory words a code
  fragment may change.
\<close>

section \<open>Frames and scratchpad addresses\<close>

definition frame :: "nat set \<Rightarrow> u64 set \<Rightarrow> cpu \<Rightarrow> cpu \<Rightarrow> bool" where
  "frame R A c c' \<longleftrightarrow> (\<forall>x. x \<notin> R \<longrightarrow> regs c' x = regs c x) \<and> (\<forall>a. a \<notin> A \<longrightarrow> mem c' a = mem c a) \<and> sp c' = sp c"

lemma frame_refl [simp]: "frame R A c c"
  by (simp add: frame_def)

lemma frame_trans: "frame R A c c' \<Longrightarrow> frame R A c' c'' \<Longrightarrow> frame R A c c''"
  by (simp add: frame_def)

lemma frame_mono: "frame R A c c' \<Longrightarrow> R \<subseteq> R' \<Longrightarrow> A \<subseteq> A' \<Longrightarrow> frame R' A' c c'"
  by (auto simp: frame_def)

lemma frame_reg: "frame R A c c' \<Longrightarrow> x \<notin> R \<Longrightarrow> regs c' x = regs c x"
  by (simp add: frame_def)

lemma frame_mem: "frame R A c c' \<Longrightarrow> a \<notin> A \<Longrightarrow> mem c' a = mem c a"
  by (simp add: frame_def)

text \<open>Explicit states: a chain of register updates, and one memory update.\<close>

definition same_outside :: "nat set \<Rightarrow> (nat \<Rightarrow> u64) \<Rightarrow> (nat \<Rightarrow> u64) \<Rightarrow> bool" where
  "same_outside R f g \<longleftrightarrow> (\<forall>x. x \<notin> R \<longrightarrow> g x = f x)"

lemma same_outside_intros [intro]:
  "same_outside R f f" "x \<in> R \<Longrightarrow> same_outside R f g \<Longrightarrow> same_outside R f (g(x := v))"
  by (auto simp: same_outside_def)

lemma frame_updates [intro]:
  "same_outside R (regs c) f \<Longrightarrow> frame R A c (c\<lparr>regs := f\<rparr>)"
  "same_outside R (regs c) f \<Longrightarrow> a \<in> A \<Longrightarrow> frame R A c (c\<lparr>regs := f, mem := (mem c)(a := v)\<rparr>)"
  by (auto simp: same_outside_def frame_def)

lemma cache_reg_mem: "r < 8 \<Longrightarrow> 8 + r \<in> {8..15} \<union> R" for r :: nat
  by simp

text \<open>The address and the value of a scratchpad slot.\<close>

definition slot_addr :: "u64 \<Rightarrow> int \<Rightarrow> u64" where
  "slot_addr s i = s + slot_offset i"

definition scratch_area :: "u64 \<Rightarrow> u64 set" where
  "scratch_area s = slot_addr s ` {0..<int MAX_SLOTS}"

lemma slot_offset_inj:
  assumes "0 \<le> i" "i < int MAX_SLOTS" "0 \<le> j" "j < int MAX_SLOTS" "slot_offset i = slot_offset j"
  shows "i = j"
proof -
  have o: "unat (slot_offset k) = 8 * nat k" if "0 \<le> k" "k < int MAX_SLOTS" for k
  proof -
    have "slot_offset k = of_nat (8 * nat k)" using that by (simp add: slot_offset_def)
    moreover have "8 * nat k < 2 ^ 64" using that by (simp add: MAX_SLOTS_def)
    ultimately show ?thesis using unat_of_nat [of "8 * nat k", where ?'a = 64] by simp
  qed
  have "8 * nat i = 8 * nat j" using o assms by metis
  with assms show ?thesis by simp
qed

lemma slot_addr_eq_iff [simp]:
  "0 \<le> i \<Longrightarrow> i < int MAX_SLOTS \<Longrightarrow> 0 \<le> j \<Longrightarrow> j < int MAX_SLOTS \<Longrightarrow> slot_addr s i = slot_addr s j \<longleftrightarrow> i = j"
  using slot_offset_inj by (auto simp: slot_addr_def)

lemma slot_addr_plus: "slot_addr s i + of_nat (b * 8) = slot_addr s (i + int b)"
  by (simp add: slot_addr_def slot_offset_def algebra_simps)

lemma slot_addr_mult: "slot_addr s i + of_nat b * 8 = slot_addr s (i + int b)"
  using slot_addr_plus [of s i b] by simp

lemma slot_addr_area [simp]: "0 \<le> i \<Longrightarrow> i < int MAX_SLOTS \<Longrightarrow> slot_addr s i \<in> scratch_area s"
  by (simp add: scratch_area_def)

section \<open>The register cache\<close>

definition cache_ok :: "u64 \<Rightarrow> int set \<Rightarrow> ScratchpadCache \<Rightarrow> cpu \<Rightarrow> bool" where
  "cache_ok s S ca c \<longleftrightarrow> next_reg ca < 8 \<and>
     (\<forall>i r. slot_to_reg ca i = Some r \<longrightarrow>
        r < 8 \<and> i \<in> S \<and> reg_to_slot ca r = i \<and> regs c (8 + r) = mem c (slot_addr s i))"

definition slots_in :: "int set \<Rightarrow> bool" where
  "slots_in S \<longleftrightarrow> (\<forall>i \<in> S. 0 \<le> i \<and> i < int MAX_SLOTS)"

lemma cache_ok_frame:
  assumes "cache_ok s S ca c" and "frame R A c c'" and "R \<inter> {8..15} = {}" and "\<forall>i \<in> S. slot_addr s i \<notin> A"
  shows "cache_ok s S ca c'"
proof -
  have "regs c' (8 + r) = regs c (8 + r)" if "r < 8" for r
    using assms(2,3) that by (intro frame_reg) auto
  with assms show ?thesis by (auto simp: cache_ok_def frame_mem)
qed

lemma cache_bind:
  assumes "cache_ok s S ca c" and "next_reg ca' < 8" and "reg_to_slot ca' = reg_to_slot ca"
    and "\<And>j q. slot_to_reg ca' j = Some q \<Longrightarrow> j \<noteq> i \<Longrightarrow> slot_to_reg ca j = Some q \<and> q \<noteq> r"
    and "r < 8" and "i \<in> S" and "regs c' (8 + r) = mem c' (slot_addr s i)"
    and "\<And>x. x < 8 \<Longrightarrow> x \<noteq> r \<Longrightarrow> regs c' (8 + x) = regs c (8 + x)"
    and "\<And>j. j \<in> S \<Longrightarrow> j \<noteq> i \<Longrightarrow> mem c' (slot_addr s j) = mem c (slot_addr s j)"
  shows "cache_ok s S (bind_slot i r ca') c'"
  unfolding cache_ok_def
proof (intro conjI allI impI)
  show "next_reg (bind_slot i r ca') < 8" using assms(2) by (simp add: bind_slot_def)
next
  fix j q
  assume "slot_to_reg (bind_slot i r ca') j = Some q"
  then have "j = i \<and> q = r \<or> j \<noteq> i \<and> slot_to_reg ca j = Some q \<and> q \<noteq> r"
    using assms(4) by (auto simp: bind_slot_def split: if_splits)
  then show "q < 8" "j \<in> S" "reg_to_slot (bind_slot i r ca') q = j" "regs c' (8 + q) = mem c' (slot_addr s j)"
    using assms(1,3,5-9) by (auto simp: cache_ok_def bind_slot_def)
qed

lemma evict_next_ok:
  assumes "cache_ok s S ca c" and "evict_next ca = (r, ca')" and "slots_in S"
  shows "r < 8" "next_reg ca' < 8" "reg_to_slot ca' = reg_to_slot ca"
    and "slot_to_reg ca' j = Some q \<Longrightarrow> slot_to_reg ca j = Some q \<and> q \<noteq> r"
proof -
  show *: "r < 8" "next_reg ca' < 8" "reg_to_slot ca' = reg_to_slot ca"
    using assms(1,2) by (auto simp: evict_next_def cache_ok_def Let_def)
  assume q: "slot_to_reg ca' j = Some q"
  then have "slot_to_reg ca j = Some q" "j \<noteq> reg_to_slot ca (next_reg ca) \<or> reg_to_slot ca (next_reg ca) = - 1"
    using assms(2) by (auto simp: evict_next_def Let_def split: if_splits)
  moreover have "0 \<le> j" "reg_to_slot ca q = j"
    using calculation(1) assms(1,3) by (auto simp: cache_ok_def slots_in_def)
  moreover have "r = next_reg ca" using assms(2) by (auto simp: evict_next_def Let_def)
  ultimately show "slot_to_reg ca j = Some q \<and> q \<noteq> r" by auto
qed

text \<open>Loading a slot: the register gets the word of the slot; only the cache registers and
  \<open>temp_ptr\<close> change besides.\<close>

lemma load_slot_exec:
  assumes "load_slot i (X d) ca = (is, ca')" and "cache_ok s S ca c" and "i \<in> S" and "slots_in S"
    and "regs c 20 = s" and "d \<notin> {8..15}" and "d \<noteq> 20" and "d \<noteq> 22"
  defines "c' \<equiv> exec is c"
  shows "regs c' d = mem c (slot_addr s i) \<and> frame ({8..15} \<union> {22, d}) {} c c' \<and> cache_ok s S ca' c'"
proof (cases "slot_to_reg ca i")
  case (Some r)
  with assms(1,2) have "is = [I_MOV (X d) (X (8 + r))]" "ca' = ca" "r < 8" "regs c (8 + r) = mem c (slot_addr s i)"
    by (auto simp: load_slot_def cache_reg_def cache_ok_def)
  then have c': "c' = c\<lparr>regs := (regs c)(d := mem c (slot_addr s i))\<rparr>" by (simp add: c'_def)
  have f: "frame {d} {} c c'" unfolding c' by blast
  have "cache_ok s S ca c'" by (rule cache_ok_frame [OF assms(2) f]) (use assms(6) in simp_all)
  moreover have "frame ({8..15} \<union> {22, d}) {} c c'" by (rule frame_mono [OF f]) simp_all
  ultimately show ?thesis using \<open>ca' = ca\<close> by (simp add: c')
next
  case None
  obtain r ca1 where e: "evict_next ca = (r, ca1)" by fastforce
  with None assms(1) have i: "is = emit_mov_imm64 temp_ptr (slot_offset i) @
      [I_LDR_R (X d) scratch_ptr temp_ptr 0, I_MOV (X (8 + r)) (X d)]" "ca' = bind_slot i r ca1"
    by (simp_all add: load_slot_def cache_reg_def)
  have c': "c' = c\<lparr>regs := (regs c)(22 := slot_offset i, d := mem c (slot_addr s i), 8 + r := mem c (slot_addr s i))\<rparr>"
    using assms(5,7,8) by (simp add: c'_def i slot_addr_def)
  note ev = evict_next_ok [OF assms(2) e assms(4)]
  have dr: "8 + x \<noteq> d" if "x < 8" for x using assms(6) that by auto
  have ok: "cache_ok s S (bind_slot i r ca1) c'"
  proof (rule cache_bind [OF assms(2) ev(2,3) _ ev(1) assms(3)])
    show "regs c' (8 + x) = regs c (8 + x)" if "x < 8" "x \<noteq> r" for x
      using that dr [OF that(1)] by (simp add: c')
  qed (use ev(4) in \<open>simp_all add: c'\<close>)
  note r = ev(1)
  have "frame ({8..15} \<union> {22, d}) {} c c'"
    unfolding c' using r by (intro frame_updates same_outside_intros cache_reg_mem) simp_all
  with ok r dr [OF r] show ?thesis by (simp add: c' i)
qed

text \<open>Storing a register into a slot.\<close>

lemma store_slot_exec:
  assumes "store_slot i (X v) ca = (is, ca')" and "cache_ok s S ca c" and "i \<in> S" and "slots_in S"
    and "regs c 20 = s" and "v \<notin> {8..15}" and "v \<noteq> 22"
  defines "c' \<equiv> exec is c"
  shows "mem c' = (mem c)(slot_addr s i := regs c v) \<and>
    frame ({8..15} \<union> {22}) {slot_addr s i} c c' \<and> cache_ok s S ca' c'"
proof -
  have ne: "slot_addr s j \<noteq> slot_addr s i" if "j \<in> S" "j \<noteq> i" for j
    using assms(3,4) that by (simp add: slots_in_def)
  show ?thesis
proof (cases "slot_to_reg ca i")
  case (Some r)
  with assms(1) have i: "is = emit_mov_imm64 temp_ptr (slot_offset i) @
      [I_STR_R (X v) scratch_ptr temp_ptr, I_MOV (X (8 + r)) (X v)]" "ca' = bind_slot i r ca"
    by (simp_all add: store_slot_def cache_reg_def)
  from Some assms(2) have r: "r < 8" "reg_to_slot ca r = i" by (auto simp: cache_ok_def)
  have c': "c' = c\<lparr>regs := (regs c)(22 := slot_offset i, 8 + r := regs c v), mem := (mem c)(slot_addr s i := regs c v)\<rparr>"
    using assms(5,7) by (simp add: c'_def i slot_addr_def st_mem_def)
  have "cache_ok s S (bind_slot i r ca) c'"
  proof (rule cache_bind [OF assms(2) _ refl _ r(1) assms(3)])
    show "slot_to_reg ca j = Some q \<and> q \<noteq> r" if "slot_to_reg ca j = Some q" "j \<noteq> i" for j q
      using that assms(2) r by (auto simp: cache_ok_def)
  qed (use assms(2) ne in \<open>simp_all add: c' cache_ok_def\<close>)
  moreover have "frame ({8..15} \<union> {22}) {slot_addr s i} c c'"
    unfolding c' using r by (intro frame_updates same_outside_intros cache_reg_mem) simp_all
  ultimately show ?thesis by (simp add: c' i)
next
  case None
  obtain r ca1 where e: "evict_next ca = (r, ca1)" by fastforce
  with None assms(1) have i: "is = emit_mov_imm64 temp_ptr (slot_offset i) @
      [I_STR_R (X v) scratch_ptr temp_ptr, I_MOV (X (8 + r)) (X v)]" "ca' = bind_slot i r ca1"
    by (simp_all add: store_slot_def cache_reg_def)
  have c': "c' = c\<lparr>regs := (regs c)(22 := slot_offset i, 8 + r := regs c v), mem := (mem c)(slot_addr s i := regs c v)\<rparr>"
    using assms(5,7) by (simp add: c'_def i slot_addr_def st_mem_def)
  note ev = evict_next_ok [OF assms(2) e assms(4)]
  have ok: "cache_ok s S (bind_slot i r ca1) c'"
    by (rule cache_bind [OF assms(2) ev(2,3) _ ev(1) assms(3)]) (use ev(4) ne in \<open>simp_all add: c'\<close>)
  note r = ev(1)
  have "frame ({8..15} \<union> {22}) {slot_addr s i} c c'"
    unfolding c' using r by (intro frame_updates same_outside_intros cache_reg_mem) simp_all
  with ok show ?thesis by (simp add: c' i)
qed
qed

end
