(* ===== verification/Jit_Loops.thy ===== *)
theory Jit_Loops
  imports Jit_Cache
begin

text \<open>
  The unrolled loops of the expression compiler when they run: operands are read plane by plane, and
  the code for addition, comparison and selection computes the plane operations of
  \<open>Bit_Planes\<close>.
\<close>

section \<open>Operands\<close>

text \<open>\<open>reads m a op A\<close>: with its hoisted address \<open>a\<close>, operand \<open>op\<close> has the planes \<open>A\<close>.\<close>

definition reads :: "(u64 \<Rightarrow> u64) \<Rightarrow> u64 \<Rightarrow> Node \<Rightarrow> planes \<Rightarrow> bool" where
  "reads m a op A \<longleftrightarrow>
     (\<forall>b < 64. A b = (if kind op = K_CONST then (if bit (const_value op) b then NOT 0 else 0)
                    else m (a + of_nat (b * 8))))"

definition read_area :: "u64 \<Rightarrow> Node \<Rightarrow> u64 set" where
  "read_area a op = (if kind op = K_CONST then {} else (\<lambda>b. a + of_nat (b * 8)) ` {0..<64})"

lemma reads_mem:
  "reads m a op A \<Longrightarrow> (\<And>x. x \<in> read_area a op \<Longrightarrow> m' x = m x) \<Longrightarrow> reads m' a op A"
  by (auto simp: reads_def read_area_def)

lemma load_plane_exec:
  "reads (mem c) (regs c h) op A \<Longrightarrow> b < 64 \<Longrightarrow>
   exec (load_plane op (X h) b (X d)) c = c\<lparr>regs := (regs c)(d := A b)\<rparr>"
  by (auto simp: load_plane_def reads_def bit_iff_odd_drop_bit odd_iff_mod_2_eq_one and_one_eq)

definition hoist_val :: "u64 \<Rightarrow> u64 \<Rightarrow> (u64 \<Rightarrow> u64) \<Rightarrow> Node \<Rightarrow> u64" where
  "hoist_val f s m op =
     (case kind op of K_LOAD \<Rightarrow> m (f + slot_offset (field_idx op)) | K_CONST \<Rightarrow> const_value op
      | _ \<Rightarrow> slot_addr s (slot_id op))"

lemma hoist_exec:
  "regs c 19 = f \<Longrightarrow> regs c 20 = s \<Longrightarrow> h \<noteq> 19 \<Longrightarrow> h \<noteq> 20 \<Longrightarrow>
   exec (hoist op (X h)) c = c\<lparr>regs := (regs c)(h := hoist_val f s (mem c) op)\<rparr>"
  by (auto simp: hoist_def hoist_val_def slot_addr_def add.commute split: NodeKind.split)

text \<open>The words an operand is read from, and that it is read the same after an unrelated store.\<close>

definition op_area :: "u64 \<Rightarrow> u64 \<Rightarrow> (u64 \<Rightarrow> u64) \<Rightarrow> Node \<Rightarrow> u64 set" where
  "op_area f s m op =
     (if kind op = K_LOAD then {f + slot_offset (field_idx op)} else {}) \<union> read_area (hoist_val f s m op) op"

definition op_reads :: "u64 \<Rightarrow> u64 \<Rightarrow> (u64 \<Rightarrow> u64) \<Rightarrow> Node \<Rightarrow> planes \<Rightarrow> bool" where
  "op_reads f s m op A \<longleftrightarrow> reads m (hoist_val f s m op) op A"

lemma op_reads_mem:
  assumes "op_reads f s m op A" and "\<And>x. x \<in> op_area f s m op \<Longrightarrow> m' x = m x"
  shows "op_reads f s m' op A" and "op_area f s m' op = op_area f s m op"
    and "hoist_val f s m' op = hoist_val f s m op"
proof -
  show h: "hoist_val f s m' op = hoist_val f s m op"
    using assms(2) by (cases "kind op") (simp_all add: hoist_val_def op_area_def)
  then show "op_area f s m' op = op_area f s m op" by (simp add: op_area_def)
  show "op_reads f s m' op A"
    unfolding op_reads_def h by (rule reads_mem [OF assms(1) [unfolded op_reads_def]])
      (use assms(2) in \<open>simp add: op_area_def\<close>)
qed

lemma bit_const_plane: "- (drop_bit b v AND 1) = (if bit v b then NOT 0 else (0 :: u64))"
  by (simp add: and_one_eq bit_iff_odd_drop_bit odd_iff_mod_2_eq_one)

lemma load_op_exec:
  assumes "regs c 19 = f" and "regs c 20 = s" and "regs c 21 = of_nat b" and "b < 64"
    and "op_reads f s (mem c) op A" and "d \<in> {2, 3}"
  defines "c' \<equiv> exec (emit_load_op op (X d)) c"
  shows "regs c' d = A b \<and> frame {d, 7, 22} {} c c'"
proof -
  have p: "push_bit 3 (of_nat b :: u64) = of_nat (b * 8)" by (simp add: push_bit_eq_mult mult.commute)
  have u: "unat (of_nat b :: u64) mod 64 = b" using assms(4) by (simp add: unat_of_nat)
  have d: "d \<noteq> 7" "d \<noteq> 22" "d \<noteq> 19" "d \<noteq> 20" "d \<noteq> 21" using assms(6) by auto
  have A: "A b = (if kind op = K_CONST then (if bit (const_value op) b then NOT 0 else 0)
      else mem c (hoist_val f s (mem c) op + of_nat (b * 8)))"
    using assms(4,5) by (simp add: op_reads_def reads_def)
  consider "kind op = K_LOAD" | "kind op = K_CONST" | "kind op \<noteq> K_LOAD" "kind op \<noteq> K_CONST" by blast
  then show ?thesis
  proof cases
    case 1
    then have "c' = c\<lparr>regs := (regs c)(22 := mem c (f + slot_offset (field_idx op)), d := A b)\<rparr>"
      using d A assms(1,3) by (simp add: c'_def emit_load_op_def hoist_val_def p)
    then show ?thesis by (auto intro!: frame_updates same_outside_intros)
  next
    case 2
    then have "c' = c\<lparr>regs := (regs c)(7 := const_value op, d := drop_bit b (const_value op),
        d := drop_bit b (const_value op) AND 1, d := A b)\<rparr>"
      using d A assms(3) u bit_const_plane [of b "const_value op"]
      by (simp add: c'_def emit_load_op_def)
    then show ?thesis by (auto intro!: frame_updates same_outside_intros)
  next
    case 3
    then have h: "hoist_val f s (mem c) op = slot_addr s (slot_id op)"
      by (cases "kind op") (simp_all add: hoist_val_def)
    have "emit_load_op op (X d) = emit_mov_imm64 scratch1 (slot_offset (slot_id op)) @
        [I_ADD_LSL scratch1 scratch1 bit_index 3, I_LDR_R (X d) scratch_ptr scratch1 0]"
      using 3 by (cases "kind op") (simp_all add: emit_load_op_def)
    then have "c' = c\<lparr>regs := (regs c)(7 := slot_offset (slot_id op), 7 := slot_offset (slot_id op) + of_nat (b * 8),
        d := A b)\<rparr>"
      using d A 3 h assms(2,3) p by (simp add: c'_def slot_addr_def add.assoc)
    then show ?thesis by (auto intro!: frame_updates same_outside_intros)
  qed
qed

section \<open>The adder loop\<close>

lemma add_bit_exec:
  fixes kd :: NodeKind
  assumes "k < 64" and "cr \<in> {23..28}" and "regs c 22 = slot_addr s sl"
    and "reads (mem c) (regs c 16) l A" and "reads (mem c) (regs c 17) r B"
    and "slot_addr s (sl + int k) \<in> W"
  defines "b \<equiv> (if kd = K_SUB then NOT (B k) else B k)"
  defines "c' \<equiv> exec (add_bit kd l r (X cr) k) c"
  shows "regs c' cr = (A k AND b) OR ((A k XOR b) AND regs c cr)"
    and "mem c' = (mem c)(slot_addr s (sl + int k) := (A k XOR b) XOR regs c cr)"
    and "frame {2, 3, 4, 7, cr} W c c'"
proof -
  have cr: "cr \<noteq> 2" "cr \<noteq> 3" "cr \<noteq> 4" "cr \<noteq> 7" "cr \<noteq> 22" using assms(2) by auto
  let ?c1 = "c\<lparr>regs := (regs c)(2 := A k)\<rparr>"
  have l1: "exec (load_plane l (X 16) k (X 2)) c = ?c1" by (rule load_plane_exec [OF assms(4,1)])
  have l2: "exec (load_plane r (X 17) k (X 3)) ?c1 = ?c1\<lparr>regs := (regs ?c1)(3 := B k)\<rparr>"
    by (rule load_plane_exec) (use assms(1,5) in simp_all)
  define c2 where "c2 = c\<lparr>regs := (regs c)(2 := A k, 3 := b)\<rparr>"
  have "exec (load_plane l hoisted_left k plane_a @ load_plane r hoisted_right k plane_b @
      (if kd = K_SUB then [I_MVN plane_b plane_b] else [])) c = c2"
    by (simp add: l1 l2 c2_def b_def)
  then have "c' = exec [I_EOR result plane_a plane_b, I_EOR scratch1 result (X cr), I_AND plane_a plane_a plane_b,
      I_AND result result (X cr), I_ORR (X cr) plane_a result, I_STR scratch1 temp_ptr (of_nat (k * 8))] c2"
    unfolding c'_def add_bit_def by (simp only: exec_append)
  then have c': "c' = c\<lparr>regs := (regs c)(2 := A k, 3 := b, 4 := A k XOR b, 7 := (A k XOR b) XOR regs c cr,
      2 := A k AND b, 4 := (A k XOR b) AND regs c cr, cr := (A k AND b) OR ((A k XOR b) AND regs c cr)),
      mem := (mem c)(regs c 22 + of_nat (k * 8) := (A k XOR b) XOR regs c cr)\<rparr>"
    using cr by (simp add: c2_def st_mem_def)
  show "regs c' cr = (A k AND b) OR ((A k XOR b) AND regs c cr)" by (simp add: c')
  show "mem c' = (mem c)(slot_addr s (sl + int k) := (A k XOR b) XOR regs c cr)"
    unfolding c' assms(3) slot_addr_plus by simp
  show "frame {2, 3, 4, 7, cr} W c c'"
    unfolding c' assms(3) slot_addr_plus
    using assms(6) by (intro frame_updates same_outside_intros) simp_all
qed

lemma add_loop:
  fixes kd :: NodeKind
  assumes "k \<le> 64" and "cr \<in> {23..28}" and "regs c 22 = slot_addr s sl"
    and "reads (mem c) (regs c 16) l A" and "reads (mem c) (regs c 17) r B"
    and "W = (\<lambda>b. slot_addr s (sl + int b)) ` {0..<64}"
    and "read_area (regs c 16) l \<inter> W = {}" and "read_area (regs c 17) r \<inter> W = {}"
    and "0 \<le> sl" and "sl + 64 \<le> int MAX_SLOTS"
  defines "B' \<equiv> (\<lambda>b. if kd = K_SUB then NOT (B b) else B b)"
  defines "c' \<equiv> exec (concat (map (add_bit kd l r (X cr)) [0..<k])) c"
  shows "regs c' cr = carry_plane A B' (regs c cr) k \<and>
    (\<forall>b < k. mem c' (slot_addr s (sl + int b)) = sum_plane A B' (regs c cr) b) \<and>
    frame {2, 3, 4, 7, cr} W c c'"
  using assms(1) unfolding c'_def
proof (induction k)
  case (Suc k)
  define c1 where "c1 = exec (concat (map (add_bit kd l r (X cr)) [0..<k])) c"
  from Suc have IH: "regs c1 cr = carry_plane A B' (regs c cr) k"
    "\<And>b. b < k \<Longrightarrow> mem c1 (slot_addr s (sl + int b)) = sum_plane A B' (regs c cr) b"
    "frame {2, 3, 4, 7, cr} W c c1" and k: "k < 64" by (simp_all add: c1_def)
  have r: "regs c1 16 = regs c 16" "regs c1 17 = regs c 17" "regs c1 22 = regs c 22"
    using IH(3) assms(2) by (auto intro!: frame_reg)
  have rl: "reads (mem c1) (regs c1 16) l A" "reads (mem c1) (regs c1 17) r B"
    using assms(4,5,7,8) frame_mem [OF IH(3)] unfolding r by (auto elim!: reads_mem)
  have W: "slot_addr s (sl + int k) \<in> W" using assms(6) k by auto
  define c2 where "c2 = exec (add_bit kd l r (X cr) k) c1"
  note e = add_bit_exec [OF k assms(2) r(3) [unfolded assms(3)] rl W, where kd = kd, folded c2_def]
  have "mem c2 (slot_addr s (sl + int b)) = sum_plane A B' (regs c cr) b" if "b < Suc k" for b
    using that IH(1,2) k assms(9,10) e(2)
    by (cases "b = k") (simp_all add: sum_plane_def B'_def)
  moreover have "frame {2, 3, 4, 7, cr} W c c2" using IH(3) e(3) by (rule frame_trans)
  moreover have "regs c2 cr = carry_plane A B' (regs c cr) (Suc k)" using e(1) IH(1) by (simp add: B'_def)
  ultimately show ?case by (simp add: c2_def c1_def)
qed simp

section \<open>The comparator loop\<close>

lemma cmp_bit_exec:
  assumes "k < 64" and "ha \<in> {16, 17}" and "hb \<in> {16, 17}"
    and "reads (mem c) (regs c ha) a A" and "reads (mem c) (regs c hb) b B"
  defines "c' \<equiv> exec (cmp_bit a (X ha) b (X hb) k) c"
  shows "(regs c' 5, regs c' 6) = cmp_step A B k (regs c 5, regs c 6)"
    and "frame {2, 3, 4, 5, 6} {} c c'"
proof -
  let ?c1 = "c\<lparr>regs := (regs c)(2 := A k)\<rparr>"
  have l1: "exec (load_plane a (X ha) k (X 2)) c = ?c1" by (rule load_plane_exec [OF assms(4,1)])
  have l2: "exec (load_plane b (X hb) k (X 3)) ?c1 = ?c1\<lparr>regs := (regs ?c1)(3 := B k)\<rparr>"
    by (rule load_plane_exec) (use assms(1,3,5) in auto)
  define c2 where "c2 = c\<lparr>regs := (regs c)(2 := A k, 3 := B k)\<rparr>"
  have "exec (load_plane a (X ha) k plane_a @ load_plane b (X hb) k plane_b) c = c2"
    by (simp add: l1 l2 c2_def)
  then have "c' = exec [I_BIC result plane_a plane_b, I_AND result result mask_eq, I_ORR mask_gt mask_gt result,
      I_EOR result plane_a plane_b, I_BIC mask_eq mask_eq result] c2"
    unfolding c'_def cmp_bit_def by (simp only: exec_append)
  then have c': "c' = c\<lparr>regs := (regs c)(2 := A k, 3 := B k, 4 := A k AND NOT (B k) AND regs c 6,
      5 := regs c 5 OR (A k AND NOT (B k) AND regs c 6), 4 := A k XOR B k,
      6 := regs c 6 AND NOT (A k XOR B k))\<rparr>"
    by (simp add: c2_def ac_simps)
  show "(regs c' 5, regs c' 6) = cmp_step A B k (regs c 5, regs c 6)"
    by (simp add: c' cmp_step_def)
  show "frame {2, 3, 4, 5, 6} {} c c'" unfolding c' by (intro frame_updates same_outside_intros) simp_all
qed

lemma cmp_loop:
  assumes "ha \<in> {16, 17}" and "hb \<in> {16, 17}"
    and "reads (mem c) (regs c ha) a A" and "reads (mem c) (regs c hb) b B" and "\<forall>k \<in> set ks. k < 64"
  defines "c' \<equiv> exec (concat (map (cmp_bit a (X ha) b (X hb)) ks)) c"
  shows "(regs c' 5, regs c' 6) = fold (cmp_step A B) ks (regs c 5, regs c 6) \<and> frame {2, 3, 4, 5, 6} {} c c'"
  using assms(3-5) unfolding c'_def
proof (induction ks arbitrary: c)
  case (Cons k ks)
  define c1 where "c1 = exec (cmp_bit a (X ha) b (X hb) k) c"
  from Cons.prems have k: "k < 64" by simp
  note e = cmp_bit_exec [OF k assms(1,2) Cons.prems(1,2), folded c1_def]
  have "regs c1 ha = regs c ha" "regs c1 hb = regs c hb" "mem c1 = mem c"
    using e(2) assms(1,2) by (auto intro!: frame_reg frame_mem)
  with Cons have "(regs (exec (concat (map (cmp_bit a (X ha) b (X hb)) ks)) c1) 5,
      regs (exec (concat (map (cmp_bit a (X ha) b (X hb)) ks)) c1) 6) =
      fold (cmp_step A B) ks (regs c1 5, regs c1 6) \<and>
      frame {2, 3, 4, 5, 6} {} c1 (exec (concat (map (cmp_bit a (X ha) b (X hb)) ks)) c1)" by simp
  with e frame_trans [OF e(2)] show ?case by (simp add: c1_def)
qed simp

section \<open>The selection loop\<close>

lemma select_bit_exec:
  assumes "k < 64" and "regs c 19 = f" and "regs c 20 = s" and "slot_id n = sl"
    and "op_reads f s (mem c) l A" and "op_reads f s (mem c) r B" and "slot_addr s (sl + int k) \<in> W"
  defines "c' \<equiv> exec (select_bit n l r k) c"
  shows "mem c' = (mem c)(slot_addr s (sl + int k) := (regs c 5 AND A k) OR (B k AND NOT (regs c 5)))"
    and "frame {2, 3, 7, 21, 22} W c c'"
proof -
  define c1 where "c1 = c\<lparr>regs := (regs c)(21 := of_nat k)\<rparr>"
  define c2 where "c2 = exec (emit_load_op l (X 2)) c1"
  define c3 where "c3 = exec (emit_load_op r (X 3)) c2"
  have f1: "frame {21} {} c c1" unfolding c1_def by blast
  have 2: "regs c2 2 = A k \<and> frame {2, 7, 22} {} c1 c2"
    unfolding c2_def by (rule load_op_exec) (use assms in \<open>simp_all add: c1_def\<close>)
  then have f2: "frame {2, 7, 22} {} c1 c2" by simp
  have m2: "mem c2 = mem c" using f1 f2 by (auto simp: frame_def fun_eq_iff)
  have 3: "regs c3 3 = B k \<and> frame {3, 7, 22} {} c2 c3"
    unfolding c3_def
    by (rule load_op_exec) (use assms(1,2,3,6) m2 frame_reg [OF f2] in \<open>simp_all add: c1_def\<close>)
  then have f3: "frame {3, 7, 22} {} c2 c3" by simp
  have m3: "mem c3 = mem c" using f3 m2 by (auto simp: frame_def fun_eq_iff)
  have r3: "regs c3 2 = A k" "regs c3 3 = B k" "regs c3 5 = regs c 5" "regs c3 20 = s"
    using 2 3 frame_reg [OF f3] frame_reg [OF f2] assms(3) by (simp_all add: c1_def)
  have a: "s + (slot_offset (slot_id n) + of_nat (k * 8)) = slot_addr s (sl + int k)"
    by (simp add: slot_addr_def slot_offset_def assms(4) algebra_simps)
  have "c' = exec ([I_AND scratch1 mask_gt plane_a, I_BIC temp_ptr plane_b mask_gt, I_ORR scratch1 scratch1 temp_ptr] @
     emit_mov_imm64 temp_ptr (slot_offset (slot_id n) + of_nat (k * 8)) @
     [I_STR_R scratch1 scratch_ptr temp_ptr]) c3"
    unfolding c'_def select_bit_def by (simp add: c1_def c2_def c3_def)
  also have "\<dots> = c3\<lparr>regs := (regs c3)(7 := regs c 5 AND A k, 22 := B k AND NOT (regs c 5),
      7 := (regs c 5 AND A k) OR (B k AND NOT (regs c 5)), 22 := slot_offset (slot_id n) + of_nat (k * 8)),
      mem := (mem c3)(slot_addr s (sl + int k) := (regs c 5 AND A k) OR (B k AND NOT (regs c 5)))\<rparr>"
    using r3 a by (simp add: st_mem_def del: of_nat_mult)
  finally have c': "c' = \<dots>" .
  show "mem c' = (mem c)(slot_addr s (sl + int k) := (regs c 5 AND A k) OR (B k AND NOT (regs c 5)))"
    unfolding c' m3 by simp
  have "frame {2, 3, 7, 21, 22} W c3 c'"
    unfolding c' using assms(7) by (intro frame_updates same_outside_intros) simp_all
  moreover have "frame {2, 3, 7, 21, 22} W c c1" by (rule frame_mono [OF f1]) simp_all
  moreover have "frame {2, 3, 7, 21, 22} W c1 c2" by (rule frame_mono [OF f2]) simp_all
  moreover have "frame {2, 3, 7, 21, 22} W c2 c3" by (rule frame_mono [OF f3]) simp_all
  ultimately show "frame {2, 3, 7, 21, 22} W c c'" by (blast intro: frame_trans)
qed

lemma select_loop:
  assumes "k \<le> 64" and "regs c 19 = f" and "regs c 20 = s" and "slot_id n = sl"
    and "op_reads f s (mem c) l A" and "op_reads f s (mem c) r B"
    and "W = (\<lambda>b. slot_addr s (sl + int b)) ` {0..<64}"
    and "op_area f s (mem c) l \<inter> W = {}" and "op_area f s (mem c) r \<inter> W = {}"
    and "0 \<le> sl" and "sl + 64 \<le> int MAX_SLOTS"
  defines "c' \<equiv> exec (concat (map (select_bit n l r) [0..<k])) c"
  shows "(\<forall>b < k. mem c' (slot_addr s (sl + int b)) = (regs c 5 AND A b) OR (B b AND NOT (regs c 5))) \<and>
    frame {2, 3, 7, 21, 22} W c c'"
  using assms(1) unfolding c'_def
proof (induction k)
  case (Suc k)
  define c1 where "c1 = exec (concat (map (select_bit n l r) [0..<k])) c"
  from Suc have IH: "\<And>b. b < k \<Longrightarrow> mem c1 (slot_addr s (sl + int b)) = (regs c 5 AND A b) OR (B b AND NOT (regs c 5))"
    "frame {2, 3, 7, 21, 22} W c c1" and k: "k < 64" by (simp_all add: c1_def)
  have r: "regs c1 19 = f" "regs c1 20 = s" "regs c1 5 = regs c 5"
    using frame_reg [OF IH(2)] assms(2,3) by simp_all
  have "mem c1 x = mem c x" if "x \<in> op_area f s (mem c) l \<or> x \<in> op_area f s (mem c) r" for x
    using that assms(8,9) frame_mem [OF IH(2)] by blast
  then have rl: "op_reads f s (mem c1) l A" "op_reads f s (mem c1) r B"
    using op_reads_mem(1) [OF assms(5)] op_reads_mem(1) [OF assms(6)] by blast+
  have W: "slot_addr s (sl + int k) \<in> W" using assms(7) k by auto
  define c2 where "c2 = exec (select_bit n l r k) c1"
  note e = select_bit_exec [OF k r(1,2) assms(4) rl W, folded c2_def]
  have "mem c2 (slot_addr s (sl + int b)) = (regs c 5 AND A b) OR (B b AND NOT (regs c 5))" if "b < Suc k" for b
    using that IH(1) k assms(10,11) e(1) r(3) by (cases "b = k") simp_all
  moreover have "frame {2, 3, 7, 21, 22} W c c2" using IH(2) e(2) by (rule frame_trans)
  ultimately show ?case by (simp add: c2_def c1_def)
qed simp

end
