(* ===== verification/Jit_Emit.thy ===== *)
theory Jit_Emit
  imports Jit_Loops
begin

text \<open>
  What the code of one node does, for each kind of node the compiler emits code for, in terms of the
  values of its operands on the 64 rows.
\<close>

text \<open>The registers the code of a node may change.\<close>

definition work_regs :: "nat set" where
  "work_regs = {2..17} \<union> {21..28}"

lemma frame_work:
  "frame R A c c' \<Longrightarrow> R \<subseteq> work_regs \<Longrightarrow> A \<subseteq> A' \<Longrightarrow> frame work_regs A' c c'"
  by (rule frame_mono)

lemma work_regs_keep: "19 \<notin> work_regs" "20 \<notin> work_regs" "29 \<notin> work_regs"
  by (simp_all add: work_regs_def)

lemma work_regs_mem [simp]:
  "{8..15} \<subseteq> work_regs" "2 \<in> work_regs" "3 \<in> work_regs" "4 \<in> work_regs" "5 \<in> work_regs" "6 \<in> work_regs"
  "7 \<in> work_regs" "16 \<in> work_regs" "17 \<in> work_regs" "21 \<in> work_regs" "22 \<in> work_regs"
  by (auto simp: work_regs_def)

lemma frame_empty_mem: "frame R {} c c' \<Longrightarrow> mem c' = mem c"
  by (auto simp: frame_def fun_eq_iff)

section \<open>Addition\<close>

lemma emit_add_exec:
  assumes "regs c 19 = f" and "regs c 20 = s" and "cr \<in> {23..28}" and "slot_id n = sl"
    and "op_reads f s (mem c) l A" and "op_reads f s (mem c) r B"
    and "W = (\<lambda>b. slot_addr s (sl + int b)) ` {0..<64}"
    and "op_area f s (mem c) l \<inter> W = {}" and "op_area f s (mem c) r \<inter> W = {}"
    and "0 \<le> sl" and "sl + 64 \<le> int MAX_SLOTS"
  defines "c' \<equiv> exec (emit_add 64 n l r (X cr)) c"
  shows "frame ({2, 3, 4, 7, 16, 17, 22, cr}) W c c' \<and>
    (\<forall>q < 64. row_val (\<lambda>b. mem c' (slot_addr s (sl + int b))) q =
       (if kind n = K_SUB then row_val A q + NOT (row_val B q) + of_bool (q = 0) else row_val A q + row_val B q))"
proof -
  define cin where "cin = (if kind n = K_SUB then 1 else (0 :: u64))"
  define c1 where "c1 = c\<lparr>regs := (regs c)(cr := cin, 16 := hoist_val f s (mem c) l, 17 := hoist_val f s (mem c) r,
    22 := slot_offset sl, 22 := slot_addr s sl)\<rparr>"
  have cr: "cr \<noteq> 16" "cr \<noteq> 17" "cr \<noteq> 19" "cr \<noteq> 20" "cr \<noteq> 22" using assms(3) by auto
  let ?c0 = "c\<lparr>regs := (regs c)(cr := cin)\<rparr>"
  have h1: "exec (hoist l (X 16)) ?c0 = ?c0\<lparr>regs := (regs ?c0)(16 := hoist_val f s (mem c) l)\<rparr>"
    using cr assms(1,2) hoist_exec [of ?c0 f s 16 l] by simp
  let ?c0' = "?c0\<lparr>regs := (regs ?c0)(16 := hoist_val f s (mem c) l)\<rparr>"
  have h2: "exec (hoist r (X 17)) ?c0' = ?c0'\<lparr>regs := (regs ?c0')(17 := hoist_val f s (mem c) r)\<rparr>"
    using cr assms(1,2) hoist_exec [of ?c0' f s 17 r] by simp
  have "exec ([I_MOVI (X cr) cin] @ hoist l hoisted_left @ hoist r hoisted_right @
      emit_mov_imm64 temp_ptr (slot_offset (slot_id n)) @ [I_ADD temp_ptr temp_ptr scratch_ptr]) c = c1"
    using cr assms(2,4) h1 h2 by (simp add: c1_def slot_addr_def add.commute)
  then have c': "c' = exec (concat (map (add_bit (kind n) l r (X cr)) [0..<64])) c1"
    unfolding c'_def emit_add_def cin_def by (simp only: exec_append)
  have f1: "frame {2, 3, 4, 7, 16, 17, 22, cr} W c c1"
    unfolding c1_def by (intro frame_updates same_outside_intros) simp_all
  have ra: "read_area (hoist_val f s (mem c) l) l \<inter> W = {}" "read_area (hoist_val f s (mem c) r) r \<inter> W = {}"
    using assms(8,9) by (auto simp: op_area_def)
  have r1: "regs c1 cr = cin" "regs c1 16 = hoist_val f s (mem c) l" "regs c1 17 = hoist_val f s (mem c) r"
    "regs c1 22 = slot_addr s sl" "mem c1 = mem c"
    using cr by (simp_all add: c1_def)
  define B' where "B' = (\<lambda>b. if kind n = K_SUB then NOT (B b) else B b)"
  have L: "(\<forall>b < 64. mem c' (slot_addr s (sl + int b)) = sum_plane A B' cin b) \<and> frame {2, 3, 4, 7, cr} W c1 c'"
    using add_loop [of 64 cr c1 s sl l A r B W "kind n"] assms(3,5-7,10,11) r1 ra
    unfolding c' B'_def op_reads_def by simp
  then have "frame {2, 3, 4, 7, 16, 17, 22, cr} W c1 c'" by (auto elim: frame_mono)
  with f1 have "frame {2, 3, 4, 7, 16, 17, 22, cr} W c c'" by (rule frame_trans)
  moreover have "row_val (\<lambda>b. mem c' (slot_addr s (sl + int b))) q =
      (if kind n = K_SUB then row_val A q + NOT (row_val B q) + of_bool (q = 0) else row_val A q + row_val B q)"
    if q: "q < 64" for q
  proof -
    have "row_val (\<lambda>b. mem c' (slot_addr s (sl + int b))) q = row_val (sum_plane A B' cin) q"
      using L by (intro row_val_cong) simp
    also have "\<dots> = row_val A q + row_val B' q + of_bool (bit cin q)" by (rule row_val_sum [OF q])
    finally show ?thesis by (auto simp: B'_def cin_def row_val_not [OF q] bit_1_iff)
  qed
  ultimately show ?thesis by blast
qed

section \<open>Comparison\<close>

definition cmp_val :: "NodeKind \<Rightarrow> u64 \<Rightarrow> u64 \<Rightarrow> bool" where
  "cmp_val k a b = (case k of K_GT \<Rightarrow> a > b | K_LT \<Rightarrow> a < b | K_GE \<Rightarrow> a \<ge> b | K_LE \<Rightarrow> a \<le> b | _ \<Rightarrow> a = b)"

lemma cmp_masks:
  fixes A B :: planes
  assumes "is_cmp_kind k" and "q < 64"
  defines "sw \<equiv> k = K_LT \<or> k = K_LE"
  defines "ge \<equiv> fold (cmp_step (if sw then B else A) (if sw then A else B)) (rev [0..<64]) (0, NOT 0)"
  shows "bit (if k = K_EQ then snd ge else if k = K_GE \<or> k = K_LE then fst ge OR snd ge else fst ge) q \<longleftrightarrow>
    cmp_val k (row_val A q) (row_val B q)"
  using assms(1) cmp_planes [OF assms(2), of "if sw then B else A" "if sw then A else B", folded ge_def]
  by (auto simp: is_cmp_kind_def cmp_val_def sw_def bit_or_iff)

lemma emit_cmp_exec:
  assumes "emit_cmp 64 n l r ca = (is, ca')" and "is_cmp_kind (kind n)"
    and "cache_ok s S ca c" and "slots_in S" and "slot_id n \<in> S" and "eq_slot_id n \<in> S" and "eq_slot_id n \<noteq> slot_id n"
    and "regs c 19 = f" and "regs c 20 = s"
    and "op_reads f s (mem c) l A" and "op_reads f s (mem c) r B"
    and "mem c (slot_addr s (slot_id n)) = 0" and "mem c (slot_addr s (eq_slot_id n)) = NOT 0"
  defines "c' \<equiv> exec is c"
  shows "(\<forall>q < 64. bit (mem c' (slot_addr s (slot_id n))) q \<longleftrightarrow> cmp_val (kind n) (row_val A q) (row_val B q)) \<and>
    frame work_regs {slot_addr s (slot_id n), slot_addr s (eq_slot_id n)} c c' \<and> cache_ok s S ca' c'"
proof -
  let ?sa = "slot_addr s (slot_id n)" and ?ea = "slot_addr s (eq_slot_id n)"
  have ne: "?ea \<noteq> ?sa" using assms(4-7) by (simp add: slots_in_def)
  define sw where "sw \<longleftrightarrow> kind n = K_LT \<or> kind n = K_LE"
  obtain is1 ca1 where e1: "load_slot (eq_slot_id n) mask_eq ca = (is1, ca1)" by fastforce
  obtain is2 ca2 where e2: "load_slot (slot_id n) mask_gt ca1 = (is2, ca2)" by fastforce
  define is3 where "is3 = hoist l hoisted_left @ hoist r hoisted_right @
    concat (map (if sw then cmp_bit r hoisted_right l hoisted_left else cmp_bit l hoisted_left r hoisted_right) (rev [0..<64]))"
  obtain is4 ca4 where e4: "store_slot (slot_id n) mask_gt ca2 = (is4, ca4)" by fastforce
  obtain is5 ca5 where e5: "store_slot (eq_slot_id n) mask_eq ca4 = (is5, ca5)" by fastforce
  define c1 where "c1 = exec is1 c"
  define c2 where "c2 = exec is2 c1"
  define c3 where "c3 = exec is3 c2"
  define c4 where "c4 = exec is4 c3"
  define c5 where "c5 = exec is5 c4"
  have 1: "regs c1 6 = NOT 0" "frame ({8..15} \<union> {22, 6}) {} c c1" "cache_ok s S ca1 c1"
    using load_slot_exec [OF e1 assms(3,6,4,9)] assms(13) by (simp_all add: c1_def)
  have r1: "regs c1 19 = f" "regs c1 20 = s" "mem c1 = mem c"
    using frame_reg [OF 1(2)] frame_empty_mem [OF 1(2)] assms(8,9) by simp_all
  have 2: "regs c2 5 = 0" "frame ({8..15} \<union> {22, 5}) {} c1 c2" "cache_ok s S ca2 c2"
    using load_slot_exec [OF e2 1(3) assms(5,4) r1(2)] assms(12) r1(3) by (simp_all add: c2_def)
  have r2: "regs c2 19 = f" "regs c2 20 = s" "mem c2 = mem c" "regs c2 6 = NOT 0"
    using frame_reg [OF 2(2)] frame_empty_mem [OF 2(2)] r1 1(1) by simp_all
  define ch where "ch = c2\<lparr>regs := (regs c2)(16 := hoist_val f s (mem c) l, 17 := hoist_val f s (mem c) r)\<rparr>"
  have h: "exec (hoist l hoisted_left @ hoist r hoisted_right) c2 = ch"
    using hoist_exec [of c2 f s 16 l] r2
      hoist_exec [of "c2\<lparr>regs := (regs c2)(16 := hoist_val f s (mem c) l)\<rparr>" f s 17 r]
    by (simp add: ch_def)
  define ge where "ge = fold (cmp_step (if sw then B else A) (if sw then A else B)) (rev [0..<64]) (0, NOT 0)"
  have c3: "c3 = exec (concat (map (if sw then cmp_bit r hoisted_right l hoisted_left
      else cmp_bit l hoisted_left r hoisted_right) (rev [0..<64]))) ch"
    using h by (simp only: c3_def is3_def exec_append)
  have rd: "reads (mem ch) (regs ch 16) l A" "reads (mem ch) (regs ch 17) r B"
    using assms(10,11) r2(3) by (simp_all add: ch_def op_reads_def)
  have L: "(regs c3 5, regs c3 6) = ge \<and> frame {2, 3, 4, 5, 6} {} ch c3"
    using cmp_loop [of 17 16 ch r B l A "rev [0..<64]"] cmp_loop [of 16 17 ch l A r B "rev [0..<64]"] rd 2(1) r2(4)
    by (cases sw) (simp_all add: c3 ge_def ch_def)
  have f3: "frame {2, 3, 4, 5, 6, 16, 17} {} c2 c3"
  proof -
    have "frame {2, 3, 4, 5, 6, 16, 17} {} c2 ch" unfolding ch_def by (intro frame_updates same_outside_intros) simp_all
    moreover have "frame {2, 3, 4, 5, 6, 16, 17} {} ch c3" using L by (auto elim: frame_mono)
    ultimately show ?thesis by (rule frame_trans)
  qed
  have k3: "cache_ok s S ca2 c3" by (rule cache_ok_frame [OF 2(3) f3]) simp_all
  have r3: "regs c3 20 = s" "mem c3 = mem c" "regs c3 5 = fst ge" "regs c3 6 = snd ge"
    using frame_reg [OF f3] frame_empty_mem [OF f3] r2 L by (simp_all add: prod_eq_iff)
  have 4: "mem c4 = (mem c)(?sa := fst ge)" "frame ({8..15} \<union> {22}) {?sa} c3 c4" "cache_ok s S ca4 c4"
    using store_slot_exec [OF e4 k3 assms(5,4) r3(1)] r3 by (simp_all add: c4_def)
  have r4: "regs c4 20 = s" "regs c4 6 = snd ge" "regs c4 5 = fst ge" using frame_reg [OF 4(2)] r3 by simp_all
  have 5: "mem c5 = (mem c)(?sa := fst ge, ?ea := snd ge)" "frame ({8..15} \<union> {22}) {?ea} c4 c5" "cache_ok s S ca5 c5"
    using store_slot_exec [OF e5 4(3) assms(6,4) r4(1)] r4 4(1) by (simp_all add: c5_def)
  have r5: "regs c5 20 = s" using frame_reg [OF 5(2)] r4 by simp
  have F5: "frame work_regs {?sa, ?ea} c c5"
  proof -
    note w = frame_work [where A' = "{?sa, ?ea}"]
    have "frame work_regs {?sa, ?ea} c c1" "frame work_regs {?sa, ?ea} c1 c2" "frame work_regs {?sa, ?ea} c2 c3"
      "frame work_regs {?sa, ?ea} c3 c4" "frame work_regs {?sa, ?ea} c4 c5"
      by (rule w [OF 1(2)] w [OF 2(2)] w [OF f3] w [OF 4(2)] w [OF 5(2)]; simp)+
    then show ?thesis by (blast intro: frame_trans)
  qed
  note masks = cmp_masks [OF assms(2), where A = A and B = B, folded sw_def, folded ge_def]
  show ?thesis
  proof (cases "kind n = K_GE \<or> kind n = K_LE \<or> kind n = K_EQ")
    case False
    then have "is = is1 @ is2 @ is3 @ is4 @ is5" "ca' = ca5"
      using assms(1) by (simp_all add: emit_cmp_def Let_def e1 e2 e4 e5 is3_def sw_def)
    then have "c' = c5" by (simp add: c'_def c1_def c2_def c3_def c4_def c5_def)
    with F5 5 False masks ne \<open>ca' = ca5\<close> show ?thesis by simp
  next
    case True
    obtain is6 ca6 where e6: "load_slot (slot_id n) plane_a ca5 = (is6, ca6)" by fastforce
    obtain is7 ca7 where e7: "load_slot (eq_slot_id n) plane_b ca6 = (is7, ca7)" by fastforce
    obtain is9 ca9 where e9: "store_slot (slot_id n) result ca7 = (is9, ca9)" by fastforce
    define i8 where "i8 = (if kind n = K_EQ then [I_MOV result plane_b] else [I_ORR result plane_a plane_b])"
    define v where "v = (if kind n = K_EQ then snd ge else fst ge OR snd ge)"
    define c6 where "c6 = exec is6 c5"
    define c7 where "c7 = exec is7 c6"
    define c8 where "c8 = exec i8 c7"
    define c9 where "c9 = exec is9 c8"
    have 6: "regs c6 2 = fst ge" "frame ({8..15} \<union> {22, 2}) {} c5 c6" "cache_ok s S ca6 c6"
      using load_slot_exec [OF e6 5(3) assms(5,4) r5] 5(1) ne by (simp_all add: c6_def)
    have r6: "regs c6 20 = s" "mem c6 = mem c5" using frame_reg [OF 6(2)] frame_empty_mem [OF 6(2)] r5 by simp_all
    have 7: "regs c7 3 = snd ge" "frame ({8..15} \<union> {22, 3}) {} c6 c7" "cache_ok s S ca7 c7"
      using load_slot_exec [OF e7 6(3) assms(6,4) r6(1)] 5(1) r6(2) by (simp_all add: c7_def)
    have r7: "regs c7 20 = s" "mem c7 = mem c5" "regs c7 2 = fst ge"
      using frame_reg [OF 7(2)] frame_empty_mem [OF 7(2)] r6 6(1) by simp_all
    have c8: "c8 = c7\<lparr>regs := (regs c7)(4 := v)\<rparr>" using r7 7(1) by (simp add: c8_def i8_def v_def)
    have f8: "frame {4} {} c7 c8" unfolding c8 by (intro frame_updates same_outside_intros) simp_all
    have k8: "cache_ok s S ca7 c8" by (rule cache_ok_frame [OF 7(3) f8]) simp_all
    have r8: "regs c8 20 = s" "mem c8 = mem c5" "regs c8 4 = v" using r7 by (simp_all add: c8)
    have 9: "mem c9 = (mem c5)(?sa := v)" "frame ({8..15} \<union> {22}) {?sa} c8 c9" "cache_ok s S ca9 c9"
      using store_slot_exec [OF e9 k8 assms(5,4) r8(1)] r8 by (simp_all add: c9_def)
    have F9: "frame work_regs {?sa, ?ea} c c9"
    proof -
      note w = frame_work [where A' = "{?sa, ?ea}"]
      have "frame work_regs {?sa, ?ea} c5 c6" "frame work_regs {?sa, ?ea} c6 c7" "frame work_regs {?sa, ?ea} c7 c8"
        "frame work_regs {?sa, ?ea} c8 c9"
        by (rule w [OF 6(2)] w [OF 7(2)] w [OF f8] w [OF 9(2)]; simp)+
      with F5 show ?thesis by (blast intro: frame_trans)
    qed
    have "is = is1 @ is2 @ is3 @ is4 @ is5 @ is6 @ is7 @ i8 @ is9" "ca' = ca9"
      using assms(1) True by (simp_all add: emit_cmp_def Let_def e1 e2 e4 e5 e6 e7 e9 is3_def i8_def sw_def)
    then have "c' = c9" by (simp add: c'_def c1_def c2_def c3_def c4_def c5_def c6_def c7_def c8_def c9_def)
    with F9 9 True masks \<open>ca' = ca9\<close> show ?thesis by (auto simp: v_def split: if_splits)
  qed
qed

section \<open>Logic and selection\<close>

lemma emit_logic_exec:
  assumes "emit_logic n l ro ca = (is, ca')" and "cache_ok s S ca c" and "slots_in S" and "regs c 20 = s"
    and "slot_id n \<in> S" and "slot_id l \<in> S" and "\<And>r. ro = Some r \<Longrightarrow> slot_id r \<in> S"
  defines "c' \<equiv> exec is c"
  defines "ma \<equiv> mem c (slot_addr s (slot_id l))"
  shows "mem c' (slot_addr s (slot_id n)) =
      (case ro of None \<Rightarrow> NOT ma
       | Some r \<Rightarrow> if kind n = K_AND then ma AND mem c (slot_addr s (slot_id r))
                 else ma OR mem c (slot_addr s (slot_id r))) \<and>
    frame work_regs {slot_addr s (slot_id n)} c c' \<and> cache_ok s S ca' c'"
proof -
  let ?sa = "slot_addr s (slot_id n)"
  note w = frame_work [where A' = "{?sa}"]
  obtain is1 ca1 where e1: "load_slot (slot_id l) plane_a ca = (is1, ca1)" by fastforce
  define c1 where "c1 = exec is1 c"
  have 1: "regs c1 2 = ma" "frame ({8..15} \<union> {22, 2}) {} c c1" "cache_ok s S ca1 c1"
    using load_slot_exec [OF e1 assms(2,6,3,4)] by (simp_all add: c1_def ma_def)
  have r1: "regs c1 20 = s" "mem c1 = mem c"
    using frame_reg [OF 1(2)] frame_empty_mem [OF 1(2)] assms(4) by simp_all
  define v where "v = (case ro of None \<Rightarrow> NOT ma
       | Some r \<Rightarrow> if kind n = K_AND then ma AND mem c (slot_addr s (slot_id r))
                 else ma OR mem c (slot_addr s (slot_id r)))"
  have "\<exists>is2 ca2. emit_logic n l ro ca = (is1 @ is2 @ fst (store_slot (slot_id n) result ca2), snd (store_slot (slot_id n) result ca2)) \<and>
      regs (exec is2 c1) 4 = v \<and> frame work_regs {} c1 (exec is2 c1) \<and> cache_ok s S ca2 (exec is2 c1)"
  proof (cases ro)
    case None
    have f: "frame {4} {} c1 (exec [I_MVN result plane_a] c1)"
      by (simp, intro frame_updates same_outside_intros) simp_all
    have "cache_ok s S ca1 (exec [I_MVN result plane_a] c1)" by (rule cache_ok_frame [OF 1(3) f]) simp_all
    moreover have "frame work_regs {} c1 (exec [I_MVN result plane_a] c1)"
      by (rule frame_work [OF f]) simp_all
    ultimately show ?thesis using None 1(1)
      by (intro exI [of _ "[I_MVN result plane_a]"] exI [of _ ca1])
        (simp add: emit_logic_def e1 v_def case_prod_beta)
  next
    case (Some r)
    obtain is2 ca2 where e2: "load_slot (slot_id r) plane_b ca1 = (is2, ca2)" by fastforce
    define c2 where "c2 = exec is2 c1"
    have 2: "regs c2 3 = mem c (slot_addr s (slot_id r))" "frame ({8..15} \<union> {22, 3}) {} c1 c2" "cache_ok s S ca2 c2"
      using load_slot_exec [OF e2 1(3) assms(7) [OF Some] assms(3) r1(1)] r1(2) by (simp_all add: c2_def)
    have r2: "regs c2 2 = ma" using frame_reg [OF 2(2)] 1(1) by simp
    define i3 where "i3 = (if kind n = K_AND then I_AND result plane_a plane_b else I_ORR result plane_a plane_b)"
    have c3: "exec (is2 @ [i3]) c1 = c2\<lparr>regs := (regs c2)(4 := v)\<rparr>"
      using Some r2 2(1) by (simp add: c2_def [symmetric] i3_def v_def)
    have f3: "frame {4} {} c2 (exec (is2 @ [i3]) c1)"
      unfolding c3 by (intro frame_updates same_outside_intros) simp_all
    have "cache_ok s S ca2 (exec (is2 @ [i3]) c1)" by (rule cache_ok_frame [OF 2(3) f3]) simp_all
    moreover have "frame work_regs {} c1 (exec (is2 @ [i3]) c1)"
      by (rule frame_trans [OF frame_work [OF 2(2)] frame_work [OF f3]]) simp_all
    ultimately show ?thesis using Some c3
      by (intro exI [of _ "is2 @ [i3]"] exI [of _ ca2])
        (simp add: emit_logic_def e1 e2 i3_def case_prod_beta)
  qed
  then obtain is2 ca2 where i2: "is = is1 @ is2 @ fst (store_slot (slot_id n) result ca2)"
    "ca' = snd (store_slot (slot_id n) result ca2)" "regs (exec is2 c1) 4 = v"
    "frame work_regs {} c1 (exec is2 c1)" "cache_ok s S ca2 (exec is2 c1)"
    using assms(1) by auto
  obtain is3 ca3 where e3: "store_slot (slot_id n) result ca2 = (is3, ca3)" by fastforce
  define c2 where "c2 = exec is2 c1"
  have r2: "regs c2 20 = s" using frame_reg [OF i2(4)] r1 work_regs_keep by (simp add: c2_def)
  have 3: "mem (exec is3 c2) = (mem c2)(?sa := v)" "frame ({8..15} \<union> {22}) {?sa} c2 (exec is3 c2)"
    "cache_ok s S ca3 (exec is3 c2)"
    using store_slot_exec [OF e3 i2(5) [folded c2_def] assms(5,3) r2] i2(3) by (simp_all add: c2_def)
  have c': "c' = exec is3 c2" by (simp add: c'_def i2(1) e3 c1_def c2_def)
  have "frame work_regs {?sa} c c1" "frame work_regs {?sa} c1 c2" "frame work_regs {?sa} c2 c'"
    using w [OF 1(2)] w [OF i2(4)] w [OF 3(2)] by (simp_all add: c2_def c')
  then have "frame work_regs {?sa} c c'" by (blast intro: frame_trans)
  with 3 i2(2) e3 show ?thesis by (simp add: c' v_def)
qed

lemma emit_select_exec:
  assumes "emit_select 64 n q l r ca = (is, ca')" and "cache_ok s S ca c" and "slots_in S"
    and "regs c 19 = f" and "regs c 20 = s" and "slot_id q \<in> S" and "slot_id n = sl"
    and "op_reads f s (mem c) l A" and "op_reads f s (mem c) r B"
    and "W = (\<lambda>b. slot_addr s (sl + int b)) ` {0..<64}"
    and "op_area f s (mem c) l \<inter> W = {}" and "op_area f s (mem c) r \<inter> W = {}"
    and "0 \<le> sl" and "sl + 64 \<le> int MAX_SLOTS" and "\<forall>i \<in> S. slot_addr s i \<notin> W"
  defines "c' \<equiv> exec is c"
  shows "(\<forall>t < 64. row_val (\<lambda>b. mem c' (slot_addr s (sl + int b))) t =
       (if bit (mem c (slot_addr s (slot_id q))) t then row_val A t else row_val B t)) \<and>
    frame work_regs W c c' \<and> cache_ok s S ca' c'"
proof -
  obtain is1 ca1 where e1: "load_slot (slot_id q) mask_gt ca = (is1, ca1)" by fastforce
  define c1 where "c1 = exec is1 c"
  have 1: "regs c1 5 = mem c (slot_addr s (slot_id q))" "frame ({8..15} \<union> {22, 5}) {} c c1" "cache_ok s S ca1 c1"
    using load_slot_exec [OF e1 assms(2,6,3,5)] by (simp_all add: c1_def)
  have r1: "regs c1 19 = f" "regs c1 20 = s" "mem c1 = mem c"
    using frame_reg [OF 1(2)] frame_empty_mem [OF 1(2)] assms(4,5) by simp_all
  have i: "is = is1 @ concat (map (select_bit n l r) [0..<64])" "ca' = ca1"
    using assms(1) by (simp_all add: emit_select_def e1)
  have L: "\<forall>b < 64. mem c' (slot_addr s (sl + int b)) = (regs c1 5 AND A b) OR (B b AND NOT (regs c1 5))"
    "frame {2, 3, 7, 21, 22} W c1 c'"
    using select_loop [of 64 c1 f s n sl l A r B W] assms(7-14) r1 by (simp_all add: c'_def i c1_def)
  have "row_val (\<lambda>b. mem c' (slot_addr s (sl + int b))) t =
      (if bit (mem c (slot_addr s (slot_id q))) t then row_val A t else row_val B t)" if t: "t < 64" for t
  proof -
    have "row_val (\<lambda>b. mem c' (slot_addr s (sl + int b))) t =
        row_val (\<lambda>b. (regs c1 5 AND A b) OR (B b AND NOT (regs c1 5))) t"
      using L(1) by (intro row_val_cong) simp
    then show ?thesis using t 1(1) by (simp add: row_val_select)
  qed
  moreover have "cache_ok s S ca' c'"
    unfolding i(2) by (rule cache_ok_frame [OF 1(3) L(2)]) (use assms(15) in simp_all)
  moreover have "frame work_regs W c c1" "frame work_regs W c1 c'"
    using frame_work [OF 1(2), of W] frame_work [OF L(2), of W] by simp_all
  ultimately show ?thesis by (blast intro: frame_trans)
qed

end
