(* ===== verification/Jit_Analysis.thy ===== *)
theory Jit_Analysis
  imports Jit_Compiler
begin

text \<open>
  What the passes before code emission guarantee: the analyzer visits every node once and after its
  operands, field indices stand for distinct field names, and the scratchpad allocator gives
  disjoint slots. No pass changes the expression itself (\<open>same_shape\<close>).
\<close>

section \<open>The expression is not changed\<close>

definition shape where
  "shape n = (kind n, left n, right n, cond n, operands n, field_name n, const_value n, weight n, skip_jit n,
     if is_cmp_kind (kind n) then 0 else eq_slot_id n,
     if kind n = K_LOAD \<or> kind n = K_CONST then slot_id n else 0)"

definition same_shape :: "Node list \<Rightarrow> Node list \<Rightarrow> bool" where
  "same_shape ns ns' \<longleftrightarrow> map shape ns' = map shape ns"

lemma shape_sel:
  assumes "shape n = shape n'"
  shows "kind n = kind n'" "left n = left n'" "right n = right n'" "cond n = cond n'"
    "operands n = operands n'" "field_name n = field_name n'" "const_value n = const_value n'"
    "skip_jit n = skip_jit n'" "children n = children n'"
    "\<not> is_cmp_kind (kind n) \<Longrightarrow> eq_slot_id n = eq_slot_id n'"
    "kind n = K_LOAD \<or> kind n = K_CONST \<Longrightarrow> slot_id n = slot_id n'" "weight n = weight n'"
proof -
  show *: "kind n = kind n'" "left n = left n'" "right n = right n'" "cond n = cond n'"
    "operands n = operands n'" "field_name n = field_name n'" "const_value n = const_value n'"
    "skip_jit n = skip_jit n'" "weight n = weight n'"
    using assms by (simp_all add: shape_def)
  then show "children n = children n'" by (simp add: children_def)
  show "eq_slot_id n = eq_slot_id n'" if "\<not> is_cmp_kind (kind n)" using assms that by (simp add: shape_def)
  show "slot_id n = slot_id n'" if "kind n = K_LOAD \<or> kind n = K_CONST"
    using assms * that by (auto simp: shape_def)
qed

lemma same_shape_length: "same_shape ns ns' \<Longrightarrow> length ns' = length ns"
  unfolding same_shape_def by (metis length_map)

lemma same_shape_nth: "same_shape ns ns' \<Longrightarrow> i < length ns \<Longrightarrow> shape (ns' ! i) = shape (ns ! i)"
  unfolding same_shape_def by (metis length_map nth_map)

lemma same_shape_sel:
  assumes "same_shape ns ns'" and "i < length ns"
  shows "kind (ns' ! i) = kind (ns ! i)" "left (ns' ! i) = left (ns ! i)" "right (ns' ! i) = right (ns ! i)"
    "cond (ns' ! i) = cond (ns ! i)" "operands (ns' ! i) = operands (ns ! i)"
    "field_name (ns' ! i) = field_name (ns ! i)" "const_value (ns' ! i) = const_value (ns ! i)"
    "skip_jit (ns' ! i) = skip_jit (ns ! i)" "children (ns' ! i) = children (ns ! i)"
    "\<not> is_cmp_kind (kind (ns ! i)) \<Longrightarrow> eq_slot_id (ns' ! i) = eq_slot_id (ns ! i)"
    "kind (ns ! i) = K_LOAD \<or> kind (ns ! i) = K_CONST \<Longrightarrow> slot_id (ns' ! i) = slot_id (ns ! i)"
    "weight (ns' ! i) = weight (ns ! i)"
  using shape_sel [OF same_shape_nth [OF assms]] by simp_all

lemma same_shape_refl [simp]: "same_shape ns ns"
  by (simp add: same_shape_def)

lemma same_shape_trans: "same_shape ns ns' \<Longrightarrow> same_shape ns' ns'' \<Longrightarrow> same_shape ns ns''"
  by (simp add: same_shape_def)

lemma same_shape_update:
  "same_shape ns ns' \<Longrightarrow> shape n = shape (ns' ! i) \<Longrightarrow> same_shape ns (ns'[i := n])"
  unfolding same_shape_def by (metis list_update_id map_update)

section \<open>The analyzer\<close>

definition ordered :: "Node list \<Rightarrow> nat list \<Rightarrow> bool" where
  "ordered ns xs \<longleftrightarrow> (\<forall>k < length xs. set (children (ns ! (xs ! k))) \<subseteq> set (take k xs))"

definition plain_kind :: "NodeKind \<Rightarrow> bool" where
  "plain_kind k \<longleftrightarrow> \<not> is_mask_kind k \<and> \<not> is_select_kind k"

definition ana_inv :: "Node list \<Rightarrow> ExpressionAnalyzer \<Rightarrow> bool" where
  "ana_inv ns s \<longleftrightarrow> same_shape ns (ea_nodes s) \<and> distinct (all_nodes s) \<and> ordered ns (all_nodes s) \<and>
     (\<forall>j \<in> set (all_nodes s). j < length ns \<and>
        result_kind (ea_nodes s ! j) = (if is_mask_kind (kind (ns ! j)) then BITMASK else BITPLANE)) \<and>
     arithmetic_nodes s = filter (\<lambda>j. plain_kind (kind (ns ! j))) (all_nodes s)"

lemma ordered_snoc:
  "ordered ns xs \<Longrightarrow> set (children (ns ! i)) \<subseteq> set xs \<Longrightarrow> ordered ns (xs @ [i])"
  unfolding ordered_def by (auto simp: nth_append less_Suc_eq)

lemma finish_node_inv:
  assumes "ana_inv ns s" and "i < length ns" and "i \<notin> set (all_nodes s)"
    and "set (children (ns ! i)) \<subseteq> set (all_nodes s)"
  shows "ana_inv ns (finish_node i s) \<and> all_nodes (finish_node i s) = all_nodes s @ [i]"
proof -
  have sh: "same_shape ns (ea_nodes s)" using assms(1) by (simp add: ana_inv_def)
  note sel = same_shape_sel [OF sh assms(2)]
  have "same_shape ns (ea_nodes (finish_node i s))"
    unfolding finish_node_def Let_def
    by (simp add: shape_def same_shape_update [OF sh])
  moreover have "ordered ns (all_nodes s @ [i])"
    using assms(1,4) by (intro ordered_snoc) (simp_all add: ana_inv_def)
  ultimately show ?thesis
    using assms same_shape_length [OF sh]
    by (auto simp: ana_inv_def finish_node_def Let_def sel plain_kind_def nth_list_update)
qed

lemma analyze_inv:
  assumes "pool_wf ns"
  shows "ana_inv ns s \<Longrightarrow> (\<forall>i. node = Some i \<longrightarrow> i < fuel \<and> i < length ns) \<Longrightarrow>
    ana_inv ns (analyze fuel node s) \<and>
    set (all_nodes s) \<subseteq> set (all_nodes (analyze fuel node s)) \<and>
    (\<forall>i. node = Some i \<longrightarrow> i \<in> set (all_nodes (analyze fuel node s)) \<and>
       set (all_nodes (analyze fuel node s)) \<subseteq> set (all_nodes s) \<union> {..i}) \<and>
    (node = None \<longrightarrow> analyze fuel node s = s)"
proof (induction fuel arbitrary: node s)
  case (Suc fuel)
  show ?case
  proof (cases node)
    case (Some i)
    show ?thesis
    proof (cases "i \<in> set (all_nodes s)")
      case True
      with Some Suc.prems show ?thesis by auto
    next
      case False
      define n where "n = ea_nodes s ! i"
      have i: "i < length ns" "i < Suc fuel" using Some Suc.prems(2) by auto
      have sh: "same_shape ns (ea_nodes s)" using Suc.prems(1) by (simp add: ana_inv_def)
      have ch: "children n = children (ns ! i)" using same_shape_sel [OF sh i(1)] by (simp add: n_def)
      have below: "c < i" if "c \<in> set (children n)" for c
        using assms that i(1) ch by (auto simp: pool_wf_iff)
      have parts: "left n = Some c \<Longrightarrow> c < i" "right n = Some c \<Longrightarrow> c < i" "cond n = Some c \<Longrightarrow> c < i"
        "c \<in> set (operands n) \<Longrightarrow> c < i" for c
        using below [of c] by (simp_all add: children_def)
      have step: "ana_inv ns (analyze fuel m t) \<and> set (all_nodes t) \<subseteq> set (all_nodes (analyze fuel m t)) \<and>
          (\<forall>c. m = Some c \<longrightarrow> c \<in> set (all_nodes (analyze fuel m t))) \<and>
          set (all_nodes (analyze fuel m t)) \<subseteq> set (all_nodes t) \<union> {..<i}"
        if "ana_inv ns t" "\<And>c. m = Some c \<Longrightarrow> c < i" for m t
        using Suc.IH [OF that(1), of m] that(2) i by (cases m) fastforce+
      have ops: "ana_inv ns (fold (\<lambda>j. analyze fuel (Some j)) os t) \<and>
          set (all_nodes t) \<union> set os \<subseteq> set (all_nodes (fold (\<lambda>j. analyze fuel (Some j)) os t)) \<and>
          set (all_nodes (fold (\<lambda>j. analyze fuel (Some j)) os t)) \<subseteq> set (all_nodes t) \<union> {..<i}"
        if "ana_inv ns t" "\<And>c. c \<in> set os \<Longrightarrow> c < i" for os t
        using that
      proof (induction os arbitrary: t)
        case (Cons x os)
        have "ana_inv ns (analyze fuel (Some x) t) \<and> set (all_nodes t) \<subseteq> set (all_nodes (analyze fuel (Some x) t)) \<and>
            x \<in> set (all_nodes (analyze fuel (Some x) t)) \<and>
            set (all_nodes (analyze fuel (Some x) t)) \<subseteq> set (all_nodes t) \<union> {..<i}"
          using step [of t "Some x"] Cons.prems by simp
        with Cons.IH [of "analyze fuel (Some x) t"] Cons.prems(2) show ?case by auto
      qed simp
      define s1 where "s1 = analyze fuel (left n) s"
      define s2 where "s2 = analyze fuel (right n) s1"
      define s3 where "s3 = analyze fuel (cond n) s2"
      define s4 where "s4 = fold (\<lambda>j. analyze fuel (Some j)) (operands n) s3"
      have r: "analyze (Suc fuel) node s = finish_node i s4"
        using Some False by (simp add: n_def [symmetric] s1_def s2_def s3_def s4_def Let_def)
      note t1 = step [of s "left n", OF Suc.prems(1) parts(1), folded s1_def]
      note t2 = step [of s1 "right n", OF conjunct1 [OF t1] parts(2), folded s2_def]
      note t3 = step [of s2 "cond n", OF conjunct1 [OF t2] parts(3), folded s3_def]
      note t4 = ops [of s3 "operands n", OF conjunct1 [OF t3] parts(4), folded s4_def]
      have "set (children n) \<subseteq> set (all_nodes s4)"
      proof
        fix x assume "x \<in> set (children n)"
        then show "x \<in> set (all_nodes s4)" using t1 t2 t3 t4 unfolding in_children by blast
      qed
      moreover have all: "set (all_nodes s4) \<subseteq> set (all_nodes s) \<union> {..<i}"
        using t1 t2 t3 t4 by blast
      moreover have "i \<notin> set (all_nodes s4)" using all False by auto
      ultimately have "ana_inv ns (finish_node i s4) \<and> all_nodes (finish_node i s4) = all_nodes s4 @ [i]"
        using t4 i(1) ch by (intro finish_node_inv) auto
      moreover have "set (all_nodes s) \<subseteq> set (all_nodes s4)" using t1 t2 t3 t4 by blast
      ultimately show ?thesis unfolding r using Some all by auto
    qed
  qed (use Suc.prems in simp)
qed simp

lemma run_analyzer_inv:
  assumes "pool_wf ns" and "root < length ns"
  shows "ana_inv ns (run_analyzer ns root)" and "root \<in> set (all_nodes (run_analyzer ns root))"
proof -
  have "ana_inv ns \<lparr>ea_nodes = ns, arithmetic_nodes = [], comparison_nodes = [], select_nodes = [], all_nodes = []\<rparr>"
    by (simp add: ana_inv_def ordered_def)
  from analyze_inv [OF assms(1) this, of "Some root" "Suc (length ns)"] assms(2)
  show "ana_inv ns (run_analyzer ns root)" "root \<in> set (all_nodes (run_analyzer ns root))"
    by (simp_all add: run_analyzer_def del: analyze.simps)
qed

section \<open>Fields and constants\<close>

text \<open>
  \<open>fields_ok fs ns is\<close>: every field node of the list has an index below the number of names, and
  the name there is its own.
\<close>

definition fields_ok :: "string list \<Rightarrow> Node list \<Rightarrow> nat list \<Rightarrow> bool" where
  "fields_ok fs ns is \<longleftrightarrow> (\<forall>i \<in> set is. kind (ns ! i) = K_LOAD \<longrightarrow>
     (\<exists>j < length fs. field_idx (ns ! i) = int j \<and> fs ! j = field_name (ns ! i)))"

lemma assign_fields_ok:
  assumes "assign_fields is fs ns = Some (fs', ns')" and "distinct is" and "\<forall>i \<in> set is. i < length ns"
  shows "same_shape ns ns' \<and> (\<exists>gs. fs' = fs @ gs) \<and> fields_ok fs' ns' is \<and>
    (\<forall>i. i \<notin> set is \<longrightarrow> ns' ! i = ns ! i) \<and>
    (\<forall>i < length ns. result_kind (ns' ! i) = result_kind (ns ! i))"
  using assms
proof (induction "is" fs ns arbitrary: fs' ns' rule: assign_fields.induct)
  case (2 i "is" fs ns)
  show ?case
  proof (cases "kind (ns ! i) = K_LOAD")
    case False
    with "2.prems" have r: "assign_fields is fs ns = Some (fs', ns')" by simp
    from "2.IH"(1) [OF False this] "2.prems" False show ?thesis
      by (auto simp: fields_ok_def)
  next
    case True
    define j where "j = (case find_index_of fs (field_name (ns ! i)) of Some j \<Rightarrow> j | None \<Rightarrow> length fs)"
    define fs1 where "fs1 = (case find_index_of fs (field_name (ns ! i)) of Some j \<Rightarrow> fs
      | None \<Rightarrow> fs @ [field_name (ns ! i)])"
    define ns1 where "ns1 = ns[i := (ns ! i)\<lparr>field_idx := int j\<rparr>]"
    have r: "assign_fields is fs1 ns1 = Some (fs', ns')"
      using "2.prems"(1) True by (auto simp: fs1_def ns1_def j_def split: option.splits if_splits)
    have j: "j < length fs1" "fs1 ! j = field_name (ns ! i)" "\<exists>gs. fs1 = fs @ gs"
      using find_index_of_Some [of fs "field_name (ns ! i)"]
      by (auto simp: j_def fs1_def split: option.splits)
    have IH: "same_shape ns1 ns' \<and> (\<exists>gs. fs' = fs1 @ gs) \<and> fields_ok fs' ns' is \<and>
        (\<forall>k. k \<notin> set is \<longrightarrow> ns' ! k = ns1 ! k) \<and> (\<forall>k < length ns1. result_kind (ns' ! k) = result_kind (ns1 ! k))"
    proof (cases "find_index_of fs (field_name (ns ! i))")
      case None
      with True "2.prems"(1) have "\<not> 128 \<le> length fs" by (auto split: if_splits)
      with None True r "2.prems"(2,3) show ?thesis
        using "2.IH"(2) [OF _ None, of fs' ns'] by (simp add: fs1_def ns1_def j_def)
    next
      case (Some q)
      with True r "2.prems"(2,3) show ?thesis
        using "2.IH"(3) [OF _ Some, of fs' ns'] by (simp add: fs1_def ns1_def j_def)
    qed
    have i: "i < length ns" "i \<notin> set is" using "2.prems" by auto
    have "same_shape ns ns1" unfolding ns1_def by (rule same_shape_update) (simp_all add: shape_def)
    then have sh: "same_shape ns ns'" using IH same_shape_trans by blast
    have "ns' ! i = (ns ! i)\<lparr>field_idx := int j\<rparr>" using IH i by (simp add: ns1_def)
    moreover obtain gs where "fs' = fs1 @ gs" using IH by blast
    ultimately have "\<exists>j < length fs'. field_idx (ns' ! i) = int j \<and> fs' ! j = field_name (ns' ! i)"
      using j by (intro exI [of _ j]) (simp add: nth_append)
    with IH i sh j(3) show ?thesis
      by (auto simp: fields_ok_def ns1_def nth_list_update)
  qed
qed (simp add: fields_ok_def)

lemma assign_fields_names:
  "assign_fields is fs ns = Some (fs', ns') \<Longrightarrow> \<forall>i \<in> set is. i < length ns \<Longrightarrow>
   set fs' \<subseteq> set fs \<union> {field_name (ns ! i) | i. i \<in> set is \<and> kind (ns ! i) = K_LOAD}"
proof (induction "is" fs ns arbitrary: fs' ns' rule: assign_fields.induct)
  case (2 i "is" fs ns)
  have upd: "kind (ns[i := (ns ! i)\<lparr>field_idx := j\<rparr>] ! k) = kind (ns ! k)"
    "field_name (ns[i := (ns ! i)\<lparr>field_idx := j\<rparr>] ! k) = field_name (ns ! k)" if "k \<in> set is" for j k
    using "2.prems"(2) that by (cases "k = i"; simp)+
  have mono: "{field_name (ns ! k) | k. k \<in> set is \<and> kind (ns ! k) = K_LOAD} \<subseteq>
      {field_name (ns ! k) | k. k \<in> set (i # is) \<and> kind (ns ! k) = K_LOAD}" by auto
  have sub: "{field_name (ns[i := (ns ! i)\<lparr>field_idx := j\<rparr>] ! k) | k. k \<in> set is \<and> kind (ns[i := (ns ! i)\<lparr>field_idx := j\<rparr>] ! k) = K_LOAD} \<subseteq>
      {field_name (ns ! k) | k. k \<in> set is \<and> kind (ns ! k) = K_LOAD}" for j
    using upd by auto
  have lt: "\<forall>k \<in> set is. k < length (ns[i := (ns ! i)\<lparr>field_idx := j\<rparr>])" for j using "2.prems"(2) by simp
  show ?case
  proof (cases "kind (ns ! i) = K_LOAD")
    case False
    then have "assign_fields is fs ns = Some (fs', ns')" "\<forall>k \<in> set is. k < length ns" using "2.prems" by simp_all
    from "2.IH"(1) [OF False this] mono show ?thesis by blast
  next
    case True
    show ?thesis
    proof (cases "find_index_of fs (field_name (ns ! i))")
      case (Some j)
      then have "assign_fields is fs (ns[i := (ns ! i)\<lparr>field_idx := int j\<rparr>]) = Some (fs', ns')" using "2.prems"(1) True by simp
      from "2.IH"(3) [OF _ Some this lt] True sub mono show ?thesis by blast
    next
      case None
      then have l: "\<not> 128 \<le> length fs" and
        r: "assign_fields is (fs @ [field_name (ns ! i)]) (ns[i := (ns ! i)\<lparr>field_idx := int (length fs)\<rparr>]) = Some (fs', ns')"
        using "2.prems"(1) True by (simp_all split: if_splits)
      have "set fs' \<subseteq> set (fs @ [field_name (ns ! i)]) \<union> {field_name (ns ! k) | k. k \<in> set is \<and> kind (ns ! k) = K_LOAD}"
        using "2.IH"(2) [OF _ None l r lt] True sub by blast
      with True show ?thesis by auto
    qed
  qed
qed simp

lemma assign_fields_distinct:
  "assign_fields is fs ns = Some (fs', ns') \<Longrightarrow> distinct fs \<Longrightarrow> length fs \<le> 128 \<Longrightarrow> distinct fs' \<and> length fs' \<le> 128"
proof (induction "is" fs ns arbitrary: fs' ns' rule: assign_fields.induct)
  case (2 i "is" fs ns)
  show ?case
  proof (cases "kind (ns ! i) = K_LOAD")
    case False
    then show ?thesis using "2.IH"(1) "2.prems" by simp
  next
    case True
    show ?thesis
    proof (cases "find_index_of fs (field_name (ns ! i))")
      case None
      with True "2.prems"(1) have "\<not> 128 \<le> length fs" by (auto split: if_splits)
      with None True show ?thesis
        using "2.IH"(2) [OF _ None] "2.prems" find_index_of_None [of fs "field_name (ns ! i)"] by simp
    next
      case (Some j)
      then show ?thesis using "2.IH"(3) [OF _ Some] True "2.prems" by simp
    qed
  qed
qed simp

section \<open>Reachability\<close>

definition child_rel :: "Node list \<Rightarrow> (nat \<times> nat) set" where
  "child_rel ns = {(a, b). b \<in> set (children (ns ! a))}"

lemma analyze_reach:
  assumes "pool_wf ns"
  shows "ana_inv ns s \<Longrightarrow> (\<forall>i. node = Some i \<longrightarrow> i < fuel \<and> i < length ns) \<Longrightarrow>
    set (all_nodes (analyze fuel node s)) \<subseteq> set (all_nodes s) \<union> {x. \<exists>i. node = Some i \<and> (i, x) \<in> (child_rel ns)\<^sup>*}"
proof (induction fuel arbitrary: node s)
  case (Suc fuel)
  show ?case
  proof (cases "\<exists>i. node = Some i \<and> i \<notin> set (all_nodes s)")
    case False
    then show ?thesis by (auto split: option.splits)
  next
    case True
    then obtain i where i: "node = Some i" "i \<notin> set (all_nodes s)" by blast
    let ?D = "{x. (i, x) \<in> (child_rel ns)\<^sup>*}"
    define n where "n = ea_nodes s ! i"
    have il: "i < Suc fuel" "i < length ns" using Suc.prems(2) i(1) by auto
    have sh: "same_shape ns (ea_nodes s)" using Suc.prems(1) by (simp add: ana_inv_def)
    have ch: "children n = children (ns ! i)" using same_shape_sel [OF sh il(2)] by (simp add: n_def)
    have sub: "ana_inv ns (analyze fuel m t) \<and> set (all_nodes (analyze fuel m t)) \<subseteq> set (all_nodes t) \<union> ?D"
      if t: "ana_inv ns t" and m: "\<And>c. m = Some c \<Longrightarrow> c \<in> set (children n)" for m t
    proof -
      have c: "c < fuel \<and> c < length ns \<and> (i, c) \<in> child_rel ns" if "m = Some c" for c
      proof -
        have "c \<in> set (children (ns ! i))" using m [OF that] ch by simp
        moreover from this have "c < i" using assms il(2) by (auto simp: pool_wf_iff)
        ultimately show ?thesis using il by (simp add: child_rel_def)
      qed
      then have b: "\<forall>c. m = Some c \<longrightarrow> c < fuel \<and> c < length ns" by blast
      have "{x. \<exists>c. m = Some c \<and> (c, x) \<in> (child_rel ns)\<^sup>*} \<subseteq> ?D"
        using c by (auto intro: converse_rtrancl_into_rtrancl)
      with Suc.IH [OF t b] analyze_inv [OF assms t b] show ?thesis by blast
    qed
    have ops: "ana_inv ns (fold (\<lambda>j. analyze fuel (Some j)) os t) \<and>
        set (all_nodes (fold (\<lambda>j. analyze fuel (Some j)) os t)) \<subseteq> set (all_nodes t) \<union> ?D"
      if "ana_inv ns t" and "set os \<subseteq> set (children n)" for os t
      using that
    proof (induction os arbitrary: t)
      case (Cons x os)
      have "ana_inv ns (analyze fuel (Some x) t) \<and> set (all_nodes (analyze fuel (Some x) t)) \<subseteq> set (all_nodes t) \<union> ?D"
        using sub [of t "Some x"] Cons.prems by simp
      with Cons.IH [of "analyze fuel (Some x) t"] Cons.prems(2) show ?case by auto
    qed simp
    define s1 where "s1 = analyze fuel (left n) s"
    define s2 where "s2 = analyze fuel (right n) s1"
    define s3 where "s3 = analyze fuel (cond n) s2"
    define s4 where "s4 = fold (\<lambda>j. analyze fuel (Some j)) (operands n) s3"
    have 1: "ana_inv ns s1 \<and> set (all_nodes s1) \<subseteq> set (all_nodes s) \<union> ?D"
      unfolding s1_def by (rule sub) (use Suc.prems(1) in \<open>auto simp: in_children\<close>)
    have 2: "ana_inv ns s2 \<and> set (all_nodes s2) \<subseteq> set (all_nodes s1) \<union> ?D"
      unfolding s2_def by (rule sub) (use 1 in \<open>auto simp: in_children\<close>)
    have 3: "ana_inv ns s3 \<and> set (all_nodes s3) \<subseteq> set (all_nodes s2) \<union> ?D"
      unfolding s3_def by (rule sub) (use 2 in \<open>auto simp: in_children\<close>)
    have "set (operands n) \<subseteq> set (children n)" by (auto simp: in_children)
    with 3 ops [of s3 "operands n"] have 4: "set (all_nodes s4) \<subseteq> set (all_nodes s3) \<union> ?D"
      unfolding s4_def by blast
    have "analyze (Suc fuel) node s = finish_node i s4"
      using i by (simp add: n_def [symmetric] s1_def s2_def s3_def s4_def Let_def)
    moreover have "all_nodes (finish_node i s4) = all_nodes s4 @ [i]" by (simp add: finish_node_def Let_def)
    ultimately show ?thesis using 1 2 3 4 i(1) by auto
  qed
qed simp

lemma run_analyzer_reach:
  assumes "pool_wf ns" and "root < length ns" and "x \<in> set (all_nodes (run_analyzer ns root))"
  shows "(root, x) \<in> (child_rel ns)\<^sup>*"
proof -
  let ?s = "\<lparr>ea_nodes = ns, arithmetic_nodes = [], comparison_nodes = [], select_nodes = [], all_nodes = []\<rparr>"
  have "ana_inv ns ?s" by (simp add: ana_inv_def ordered_def)
  from analyze_reach [OF assms(1) this, of "Some root" "Suc (length ns)"] assms(2,3)
  show ?thesis by (auto simp: run_analyzer_def simp del: analyze.simps)
qed

lemma mark_consts_ok:
  "\<forall>i \<in> set is. i < length ns \<Longrightarrow>
   same_shape ns (mark_consts is ns) \<and>
   (\<forall>i < length ns. result_kind (mark_consts is ns ! i) = result_kind (ns ! i) \<and>
      (kind (ns ! i) \<noteq> K_CONST \<longrightarrow> mark_consts is ns ! i = ns ! i))"
proof (induction "is" arbitrary: ns)
  case (Cons i "is")
  let ?ns = "if kind (ns ! i) = K_CONST then ns[i := (ns ! i)\<lparr>field_idx := - 2\<rparr>] else ns"
  have m: "mark_consts (i # is) ns = mark_consts is ?ns" by (simp add: mark_consts_def)
  have sh: "same_shape ns ?ns" by (auto intro!: same_shape_update simp: shape_def)
  have l: "length ?ns = length ns" by simp
  from Cons.IH [of ?ns] Cons.prems l have IH: "same_shape ?ns (mark_consts is ?ns)"
    "\<And>k. k < length ns \<Longrightarrow> result_kind (mark_consts is ?ns ! k) = result_kind (?ns ! k) \<and>
      (kind (?ns ! k) \<noteq> K_CONST \<longrightarrow> mark_consts is ?ns ! k = ?ns ! k)" by auto
  have k: "result_kind (?ns ! k) = result_kind (ns ! k)" "kind (?ns ! k) = kind (ns ! k)"
    "kind (ns ! k) \<noteq> K_CONST \<Longrightarrow> ?ns ! k = ns ! k" if "k < length ns" for k
    using that Cons.prems by (auto simp: nth_list_update)
  show ?case unfolding m using IH k same_shape_trans [OF sh] by metis
qed (simp add: mark_consts_def)

section \<open>Scratchpad slots\<close>

lemma first_free_Some: "first_free used i = Some j \<Longrightarrow> j < MAX_SLOTS \<and> \<not> used j"
  by (induction used i rule: first_free.induct)
    (subst (asm) (2) first_free.simps, auto split: if_splits)

lemma first_block_Some:
  "first_block used i = Some j \<Longrightarrow> j + 64 \<le> MAX_SLOTS \<and> (\<forall>b < 64. \<not> used (j + b))"
  by (induction used i rule: first_block.induct)
    (subst (asm) (2) first_block.simps, auto simp: list_all_iff split: if_splits)

text \<open>The slots a node owns.\<close>

definition node_slots :: "Node \<Rightarrow> int set" where
  "node_slots n =
     (if kind n = K_LOAD \<or> kind n = K_CONST then {}
      else (if result_kind n = BITPLANE then {slot_id n..<slot_id n + 64} else {slot_id n}) \<union>
           (if is_cmp_kind (kind n) then {eq_slot_id n} else {}))"

definition fresh_slots :: "slots_used \<Rightarrow> int set \<Rightarrow> bool" where
  "fresh_slots used S \<longleftrightarrow> S \<subseteq> {0..<int MAX_SLOTS} \<and> (\<forall>x \<in> S. \<not> used (nat x))"

definition node_ok_slots :: "Node \<Rightarrow> bool" where
  "node_ok_slots n \<longleftrightarrow> (is_cmp_kind (kind n) \<longrightarrow> eq_slot_id n \<noteq> slot_id n)"

lemma alloc_block_ok:
  "alloc_block used = (Some i, used') \<Longrightarrow> fresh_slots used {int i..<int i + 64} \<and>
   (\<forall>j. used' j \<longleftrightarrow> used j \<or> int j \<in> {int i..<int i + 64})"
proof -
  assume a: "alloc_block used = (Some i, used')"
  then have i: "first_block used 0 = Some i" "used' = (\<lambda>j. used j \<or> i \<le> j \<and> j < i + 64)"
    by (auto simp: alloc_block_def split: option.splits)
  from first_block_Some [OF i(1)] have l: "i + 64 \<le> MAX_SLOTS" "\<And>b. b < 64 \<Longrightarrow> \<not> used (i + b)" by auto
  have "\<not> used (nat x)" if "x \<in> {int i..<int i + 64}" for x
  proof -
    have "nat x - i < 64" "i + (nat x - i) = nat x" using that by auto
    with l(2) [of "nat x - i"] show ?thesis by simp
  qed
  with l(1) i(2) show ?thesis by (auto simp: fresh_slots_def)
qed

lemma alloc_slot_ok:
  "alloc_slot used = (Some i, used') \<Longrightarrow> fresh_slots used {int i} \<and> (\<forall>j. used' j \<longleftrightarrow> used j \<or> j = i)"
  by (auto simp: alloc_slot_def fresh_slots_def split: option.splits dest!: first_free_Some)

lemma alloc_node_ok:
  assumes "alloc_node i (used, cy, ns) = Some (used', cy', ns')" and "i < length ns"
  shows "\<exists>n'. ns' = ns[i := n'] \<and> shape n' = shape (ns ! i) \<and> result_kind n' = result_kind (ns ! i) \<and>
    field_idx n' = field_idx (ns ! i) \<and> fresh_slots used (node_slots n') \<and>
    (\<forall>j. used' j \<longleftrightarrow> used j \<or> int j \<in> node_slots n') \<and>
    (result_kind (ns ! i) = BITMASK \<longrightarrow> node_ok_slots n')"
proof (cases "kind (ns ! i) = K_LOAD \<or> kind (ns ! i) = K_CONST")
  case True
  with assms have e: "ns' = ns" "used' = used" by (simp_all add: alloc_node_def Let_def)
  with True show ?thesis
    by (intro exI [of _ "ns ! i"]) (auto simp: node_slots_def fresh_slots_def node_ok_slots_def is_cmp_kind_def)
next
  case False
  define n where "n = ns ! i"
  obtain sl used1 where a: "(if result_kind n = BITPLANE then alloc_block used else alloc_slot used) = (Some sl, used1)"
    using assms(1) False by (auto simp: alloc_node_def n_def Let_def split: prod.splits option.splits if_splits)
  define S where "S = (if result_kind n = BITPLANE then {int sl..<int sl + 64} else {int sl})"
  have S: "fresh_slots used S" "\<And>j. used1 j \<longleftrightarrow> used j \<or> int j \<in> S"
    using a alloc_block_ok [of used sl used1] alloc_slot_ok [of used sl used1]
    by (auto simp: S_def split: if_splits)
  show ?thesis
  proof (cases "is_cmp_kind (kind n)")
    case True
    then obtain e used2 where e: "alloc_slot used1 = (Some e, used2)"
      using assms(1) False a by (auto simp: alloc_node_def n_def [symmetric] Let_def split: prod.splits option.splits if_splits)
    from True have k: "kind n \<noteq> K_ADD" "kind n \<noteq> K_SUB" by (auto simp: is_cmp_kind_def)
    define n' where "n' = n\<lparr>slot_id := int sl, eq_slot_id := int e\<rparr>"
    have r: "ns' = ns[i := n']" "used' = used2"
      using assms(1) False a e True k by (simp_all add: alloc_node_def n_def [symmetric] n'_def Let_def)
    have E: "fresh_slots used1 {int e}" "\<And>j. used2 j \<longleftrightarrow> used1 j \<or> j = e"
      using alloc_slot_ok [OF e] by auto
    have "node_slots n' = S \<union> {int e}" using False True by (simp add: node_slots_def n'_def S_def n_def)
    moreover have "int e \<notin> S" using E(1) S(2) [of e] by (auto simp: fresh_slots_def)
    ultimately show ?thesis
      using r S E True
      using False by (intro exI [of _ n']) (auto simp: fresh_slots_def n'_def n_def shape_def node_ok_slots_def S_def)
  next
    case nc: False
    define n' where "n' = (if (kind n = K_ADD \<or> kind n = K_SUB) \<and> cy < 6
      then n\<lparr>slot_id := int sl, carry_reg := int cy\<rparr> else n\<lparr>slot_id := int sl\<rparr>)"
    have r: "ns' = ns[i := n']" "used' = used1"
      using assms(1) False a nc
      by (auto simp: alloc_node_def n_def [symmetric] n'_def Let_def split: if_splits)
    have "node_slots n' = S" using False nc by (simp add: node_slots_def n'_def S_def n_def)
    with r S nc False show ?thesis
      by (intro exI [of _ n']) (auto simp: n'_def n_def shape_def node_ok_slots_def)
  qed
qed

lemma alloc_nodes_ok:
  assumes "alloc_nodes is (used, cy, ns) = Some (used', cy', ns')" and "distinct is" and "\<forall>i \<in> set is. i < length ns"
  shows "same_shape ns ns' \<and> (\<forall>i. i \<notin> set is \<longrightarrow> ns' ! i = ns ! i) \<and>
    (\<forall>i < length ns. result_kind (ns' ! i) = result_kind (ns ! i) \<and> field_idx (ns' ! i) = field_idx (ns ! i)) \<and>
    (\<forall>i \<in> set is. fresh_slots used (node_slots (ns' ! i)) \<and> (result_kind (ns ! i) = BITMASK \<longrightarrow> node_ok_slots (ns' ! i))) \<and>
    (\<forall>i \<in> set is. \<forall>j \<in> set is. i \<noteq> j \<longrightarrow> node_slots (ns' ! i) \<inter> node_slots (ns' ! j) = {})"
  using assms
proof (induction "is" arbitrary: used cy ns)
  case (Cons i "is")
  obtain used1 cy1 ns1 where a: "alloc_node i (used, cy, ns) = Some (used1, cy1, ns1)"
    and r: "alloc_nodes is (used1, cy1, ns1) = Some (used', cy', ns')"
    using Cons.prems(1) by (auto split: option.splits)
  have i: "i < length ns" "i \<notin> set is" using Cons.prems by auto
  obtain n' where n': "ns1 = ns[i := n']" "shape n' = shape (ns ! i)" "result_kind n' = result_kind (ns ! i)"
    "field_idx n' = field_idx (ns ! i)" "fresh_slots used (node_slots n')"
    "\<And>j. used1 j \<longleftrightarrow> used j \<or> int j \<in> node_slots n'" "result_kind (ns ! i) = BITMASK \<longrightarrow> node_ok_slots n'"
    using alloc_node_ok [OF a i(1)] by blast
  have IH: "same_shape ns1 ns'" "\<And>k. k \<notin> set is \<Longrightarrow> ns' ! k = ns1 ! k"
    "\<And>k. k < length ns \<Longrightarrow> result_kind (ns' ! k) = result_kind (ns1 ! k) \<and> field_idx (ns' ! k) = field_idx (ns1 ! k)"
    "\<And>k. k \<in> set is \<Longrightarrow> fresh_slots used1 (node_slots (ns' ! k)) \<and> (result_kind (ns1 ! k) = BITMASK \<longrightarrow> node_ok_slots (ns' ! k))"
    "\<And>k j. k \<in> set is \<Longrightarrow> j \<in> set is \<Longrightarrow> k \<noteq> j \<Longrightarrow> node_slots (ns' ! k) \<inter> node_slots (ns' ! j) = {}"
    using Cons.IH [OF r] Cons.prems n'(1) by auto
  have ni: "ns' ! i = n'" using IH(2) [OF i(2)] i n'(1) by simp
  have sub: "fresh_slots used (node_slots (ns' ! k))" "node_slots (ns' ! k) \<inter> node_slots n' = {}" if "k \<in> set is" for k
  proof -
    have "fresh_slots used1 (node_slots (ns' ! k))" using IH(4) that by blast
    then have f: "node_slots (ns' ! k) \<subseteq> {0..<int MAX_SLOTS}" "\<And>x. x \<in> node_slots (ns' ! k) \<Longrightarrow> \<not> used1 (nat x)"
      by (auto simp: fresh_slots_def)
    show "fresh_slots used (node_slots (ns' ! k))" using f n'(6) by (auto simp: fresh_slots_def)
    show "node_slots (ns' ! k) \<inter> node_slots n' = {}"
    proof (rule ccontr)
      assume "node_slots (ns' ! k) \<inter> node_slots n' \<noteq> {}"
      then obtain x where x: "x \<in> node_slots (ns' ! k)" "x \<in> node_slots n'" by blast
      with f(1) have "int (nat x) = x" by auto
      with x f(2) n'(6) [of "nat x"] show False by simp
    qed
  qed
  have ne: "k \<noteq> i" if "k \<in> set is" for k using that i(2) by auto
  have "same_shape ns ns'"
    using same_shape_update [OF same_shape_refl n'(2)] IH(1) n'(1) same_shape_trans by blast
  moreover have "ns' ! k = ns ! k" if "k \<notin> set (i # is)" for k using IH(2) that n'(1) by simp
  moreover have "result_kind (ns' ! k) = result_kind (ns ! k) \<and> field_idx (ns' ! k) = field_idx (ns ! k)"
    if "k < length ns" for k using IH(3) [OF that] n'(1,3,4) i(1) by (cases "k = i") simp_all
  moreover have "fresh_slots used (node_slots (ns' ! k)) \<and> (result_kind (ns ! k) = BITMASK \<longrightarrow> node_ok_slots (ns' ! k))"
    if "k \<in> set (i # is)" for k
    using that sub(1) [of k] IH(4) [of k] n'(1,5,7) ni ne [of k] by (cases "k = i") simp_all
  moreover have "node_slots (ns' ! k) \<inter> node_slots (ns' ! j) = {}"
    if "k \<in> set (i # is)" "j \<in> set (i # is)" "k \<noteq> j" for k j
    using that sub(2) [of k] sub(2) [of j] IH(5) [of k j] ni
    by (cases "k = i"; cases "j = i") (simp_all add: Int_commute)
  ultimately show ?case by blast
qed simp

end
