(* ===== verification/Jit_Correct.thy ===== *)
theory Jit_Correct
  imports Jit_Emit Jit_Analysis
begin

text \<open>
  Correctness of the expression compiler: for a well-formed expression over fields, constants,
  additions, comparisons, logic and selections, the emitted kernel leaves in its result the mask of
  the rows on which the expression holds. The proof follows the single pass over the nodes with the
  invariant \<open>run_inv\<close>.
\<close>

section \<open>Expressions the compiler supports\<close>

definition plane_node :: "Node list \<Rightarrow> nat option \<Rightarrow> bool" where
  "plane_node ns p = (case p of None \<Rightarrow> False | Some i \<Rightarrow> kind (ns ! i) \<in> {K_LOAD, K_CONST, K_ADD, K_SELECT})"

definition mask_node :: "Node list \<Rightarrow> nat option \<Rightarrow> bool" where
  "mask_node ns p = (case p of None \<Rightarrow> False | Some i \<Rightarrow> is_mask_kind (kind (ns ! i)))"

definition jit_ok :: "Node list \<Rightarrow> nat \<Rightarrow> bool" where
  "jit_ok ns i =
     (let n = ns ! i; k = kind n in
      \<not> skip_jit n \<and> (is_cmp_kind k \<or> eq_slot_id n = - 1) \<and>
      (k = K_LOAD \<or> k = K_CONST \<or>
       (k = K_ADD \<or> is_cmp_kind k) \<and> plane_node ns (left n) \<and> plane_node ns (right n) \<or>
       k = K_SELECT \<and> mask_node ns (cond n) \<and> plane_node ns (left n) \<and> plane_node ns (right n) \<or>
       (k = K_AND \<or> k = K_OR) \<and> mask_node ns (left n) \<and> mask_node ns (right n) \<or>
       k = K_NOT \<and> mask_node ns (left n) \<and> right n = None))"

section \<open>The invariant of the pass\<close>

text \<open>What the passes before emission establish.\<close>

definition compiled_ok :: "Node list \<Rightarrow> Node list \<Rightarrow> nat list \<Rightarrow> bool" where
  "compiled_ok ns ns' all \<longleftrightarrow> pool_wf ns \<and> same_shape ns ns' \<and> distinct all \<and> ordered ns all \<and>
     (\<forall>i \<in> set all. i < length ns \<and> jit_ok ns i \<and>
        result_kind (ns' ! i) = (if is_mask_kind (kind (ns ! i)) then BITMASK else BITPLANE) \<and>
        node_slots (ns' ! i) \<subseteq> {0..<int MAX_SLOTS} \<and> node_ok_slots (ns' ! i)) \<and>
     (\<forall>i \<in> set all. \<forall>j \<in> set all. i \<noteq> j \<longrightarrow> node_slots (ns' ! i) \<inter> node_slots (ns' ! j) = {})"

definition mask_slots :: "Node list \<Rightarrow> nat list \<Rightarrow> int set" where
  "mask_slots ns' all = (\<Union>i \<in> {i \<in> set all. is_mask_kind (kind (ns' ! i))}. node_slots (ns' ! i))"

text \<open>The planes of the fields in memory, outside the scratchpad, and their values on the rows.\<close>

definition fields_at ::
  "u64 \<Rightarrow> u64 \<Rightarrow> (u64 \<Rightarrow> u64) \<Rightarrow> Node list \<Rightarrow> nat list \<Rightarrow> (nat \<Rightarrow> string \<Rightarrow> u64) \<Rightarrow> bool" where
  "fields_at f s m ns' all env \<longleftrightarrow>
     (\<forall>i \<in> set all. kind (ns' ! i) = K_LOAD \<longrightarrow>
        op_area f s m (ns' ! i) \<inter> scratch_area s = {} \<and>
        (\<forall>r < 64. row_val (\<lambda>b. m (m (f + slot_offset (field_idx (ns' ! i))) + of_nat (b * 8))) r =
           env r (field_name (ns' ! i))))"

definition node_holds ::
  "u64 \<Rightarrow> (u64 \<Rightarrow> u64) \<Rightarrow> Node list \<Rightarrow> Node list \<Rightarrow> (nat \<Rightarrow> string \<Rightarrow> u64) \<Rightarrow> nat \<Rightarrow> bool" where
  "node_holds s m ns ns' env i \<longleftrightarrow>
     (is_mask_kind (kind (ns ! i)) \<longrightarrow>
        (\<forall>r < 64. bit (m (slot_addr s (slot_id (ns' ! i)))) r \<longleftrightarrow> node_value ns (env r) i \<noteq> 0)) \<and>
     (kind (ns ! i) = K_ADD \<or> kind (ns ! i) = K_SELECT \<longrightarrow>
        (\<forall>r < 64. row_val (\<lambda>b. m (slot_addr s (slot_id (ns' ! i) + int b))) r = node_value ns (env r) i))"

definition node_ready :: "u64 \<Rightarrow> (u64 \<Rightarrow> u64) \<Rightarrow> Node \<Rightarrow> bool" where
  "node_ready s m n \<longleftrightarrow>
     (is_cmp_kind (kind n) \<longrightarrow> m (slot_addr s (slot_id n)) = 0 \<and> m (slot_addr s (eq_slot_id n)) = NOT 0)"

definition run_inv ::
  "u64 \<Rightarrow> u64 \<Rightarrow> u64 \<Rightarrow> (u64 \<Rightarrow> u64) \<Rightarrow> Node list \<Rightarrow> Node list \<Rightarrow> nat list \<Rightarrow> (nat \<Rightarrow> string \<Rightarrow> u64) \<Rightarrow>
   nat set \<Rightarrow> ScratchpadCache \<Rightarrow> cpu \<Rightarrow> bool" where
  "run_inv z f s m ns ns' all env done ca c \<longleftrightarrow>
     sp c = z \<and> regs c 19 = f \<and> regs c 20 = s \<and> (\<forall>a. a \<notin> scratch_area s \<longrightarrow> mem c a = m a) \<and>
     cache_ok s (mask_slots ns' all) ca c \<and>
     (\<forall>i \<in> done. node_holds s (mem c) ns ns' env i) \<and>
     (\<forall>i \<in> set all - done. node_ready s (mem c) (ns' ! i))"

definition node_area :: "u64 \<Rightarrow> Node \<Rightarrow> u64 set" where
  "node_area s n = slot_addr s ` node_slots n"

lemma node_slot_mem:
  "kind n \<noteq> K_LOAD \<Longrightarrow> kind n \<noteq> K_CONST \<Longrightarrow> slot_id n \<in> node_slots n"
  "is_cmp_kind (kind n) \<Longrightarrow> eq_slot_id n \<in> node_slots n"
  "kind n \<noteq> K_LOAD \<Longrightarrow> kind n \<noteq> K_CONST \<Longrightarrow> result_kind n = BITPLANE \<Longrightarrow> b < 64 \<Longrightarrow> slot_id n + int b \<in> node_slots n"
  by (auto simp: node_slots_def is_cmp_kind_def)

lemma kind_cases:
  "is_cmp_kind k \<Longrightarrow> is_mask_kind k" "is_mask_kind k \<Longrightarrow> k \<noteq> K_LOAD \<and> k \<noteq> K_CONST \<and> k \<noteq> K_ADD \<and> k \<noteq> K_SELECT"
  by (auto simp: is_cmp_kind_def is_mask_kind_def)

lemma areas_disjoint:
  assumes "compiled_ok ns ns' all" and "i \<in> set all" and "j \<in> set all" and "i \<noteq> j"
  shows "node_area s (ns' ! i) \<inter> node_area s (ns' ! j) = {}"
proof -
  have "node_slots (ns' ! i) \<inter> node_slots (ns' ! j) = {}" "node_slots (ns' ! i) \<subseteq> {0..<int MAX_SLOTS}"
    "node_slots (ns' ! j) \<subseteq> {0..<int MAX_SLOTS}"
    using assms by (auto simp: compiled_ok_def)
  then show ?thesis by (fastforce simp: node_area_def)
qed

lemma area_in_scratch: "compiled_ok ns ns' all \<Longrightarrow> i \<in> set all \<Longrightarrow> node_area s (ns' ! i) \<subseteq> scratch_area s"
  by (fastforce simp: compiled_ok_def node_area_def)

lemma mask_slots_in: "compiled_ok ns ns' all \<Longrightarrow> slots_in (mask_slots ns' all)"
  by (fastforce simp: compiled_ok_def slots_in_def mask_slots_def)

lemma compiled_sel:
  assumes "compiled_ok ns ns' all" and "i \<in> set all"
  shows "i < length ns" "jit_ok ns i" "kind (ns' ! i) = kind (ns ! i)" "left (ns' ! i) = left (ns ! i)"
    "right (ns' ! i) = right (ns ! i)" "cond (ns' ! i) = cond (ns ! i)" "field_name (ns' ! i) = field_name (ns ! i)"
    "const_value (ns' ! i) = const_value (ns ! i)" "skip_jit (ns' ! i) = skip_jit (ns ! i)"
    "result_kind (ns' ! i) = (if is_mask_kind (kind (ns ! i)) then BITMASK else BITPLANE)"
    "\<not> is_cmp_kind (kind (ns ! i)) \<Longrightarrow> eq_slot_id (ns' ! i) = - 1"
proof -
  show i: "i < length ns" and "jit_ok ns i" and "result_kind (ns' ! i) = (if is_mask_kind (kind (ns ! i)) then BITMASK else BITPLANE)"
    using assms by (auto simp: compiled_ok_def)
  have "same_shape ns ns'" using assms by (simp add: compiled_ok_def)
  from same_shape_sel [OF this i] show "kind (ns' ! i) = kind (ns ! i)" "left (ns' ! i) = left (ns ! i)"
    "right (ns' ! i) = right (ns ! i)" "cond (ns' ! i) = cond (ns ! i)" "field_name (ns' ! i) = field_name (ns ! i)"
    "const_value (ns' ! i) = const_value (ns ! i)" "skip_jit (ns' ! i) = skip_jit (ns ! i)" by simp_all
  show "eq_slot_id (ns' ! i) = - 1" if "\<not> is_cmp_kind (kind (ns ! i))"
    using same_shape_sel(10) [OF \<open>same_shape ns ns'\<close> i that] \<open>jit_ok ns i\<close> that by (simp add: jit_ok_def Let_def)
qed

text \<open>Code that stays within the area of one node keeps what is known of the others.\<close>

lemma node_holds_mem:
  assumes "compiled_ok ns ns' all" and "j \<in> set all" and "\<And>a. a \<in> node_area s (ns' ! j) \<Longrightarrow> m' a = m a"
  shows "node_holds s m' ns ns' env j \<longleftrightarrow> node_holds s m ns ns' env j"
    and "node_ready s m' (ns' ! j) \<longleftrightarrow> node_ready s m (ns' ! j)"
proof -
  note sel = compiled_sel [OF assms(1,2)]
  have m: "m' (slot_addr s x) = m (slot_addr s x)" if "x \<in> node_slots (ns' ! j)" for x
    using assms(3) that by (simp add: node_area_def)
  have 1: "m' (slot_addr s (slot_id (ns' ! j))) = m (slot_addr s (slot_id (ns' ! j)))" if "is_mask_kind (kind (ns ! j))"
    using that kind_cases(2) [OF that] sel(3) by (intro m node_slot_mem) simp_all
  have 2: "m' (slot_addr s (slot_id (ns' ! j) + int b)) = m (slot_addr s (slot_id (ns' ! j) + int b))"
    if "kind (ns ! j) = K_ADD \<or> kind (ns ! j) = K_SELECT" "b < 64" for b
    using that sel by (intro m node_slot_mem(3)) (auto simp: is_mask_kind_def)
  show "node_holds s m' ns ns' env j \<longleftrightarrow> node_holds s m ns ns' env j"
  proof -
    have "row_val (\<lambda>b. m' (slot_addr s (slot_id (ns' ! j) + int b))) r =
        row_val (\<lambda>b. m (slot_addr s (slot_id (ns' ! j) + int b))) r"
      if "kind (ns ! j) = K_ADD \<or> kind (ns ! j) = K_SELECT" for r
      using 2 that by (intro row_val_cong) simp
    then show ?thesis using 1 by (auto simp: node_holds_def)
  qed
  show "node_ready s m' (ns' ! j) \<longleftrightarrow> node_ready s m (ns' ! j)"
    using m node_slot_mem [of "ns' ! j"] kind_cases(1) [of "kind (ns' ! j)"] kind_cases(2) [of "kind (ns' ! j)"]
    by (auto simp: node_ready_def)
qed

lemma run_inv_step:
  assumes "compiled_ok ns ns' all" and "run_inv z f s m ns ns' all env done ca c" and "i \<in> set all" and "i \<notin> done"
    and "done \<subseteq> set all" and "frame work_regs (node_area s (ns' ! i)) c c'"
    and "cache_ok s (mask_slots ns' all) ca' c'" and "node_holds s (mem c') ns ns' env i"
  shows "run_inv z f s m ns ns' all env (insert i done) ca' c'"
proof -
  have out: "mem c' a = mem c a" if "a \<notin> node_area s (ns' ! i)" for a
    using frame_mem [OF assms(6) that] .
  have other: "node_holds s (mem c') ns ns' env j \<longleftrightarrow> node_holds s (mem c) ns ns' env j"
    "node_ready s (mem c') (ns' ! j) \<longleftrightarrow> node_ready s (mem c) (ns' ! j)" if "j \<in> set all" "j \<noteq> i" for j
    using node_holds_mem [OF assms(1) that(1)] out areas_disjoint [OF assms(1,3) that(1), of s] that(2) by blast+
  have "mem c' a = m a" if "a \<notin> scratch_area s" for a
  proof -
    have "a \<notin> node_area s (ns' ! i)" using area_in_scratch [OF assms(1,3), of s] that by blast
    with out that assms(2) show ?thesis by (simp add: run_inv_def)
  qed
  moreover have "sp c' = z" "regs c' 19 = f" "regs c' 20 = s"
    using assms(2,6) frame_reg [OF assms(6)] work_regs_keep by (simp_all add: run_inv_def frame_def)
  moreover have "node_holds s (mem c') ns ns' env j" if "j \<in> insert i done" for j
    using that other(1) [of j] assms(2,4,5,8) by (auto simp: run_inv_def)
  moreover have "node_ready s (mem c') (ns' ! j)" if "j \<in> set all - insert i done" for j
    using that other(2) [of j] assms(2) by (auto simp: run_inv_def)
  ultimately show ?thesis using assms(7) by (simp add: run_inv_def)
qed

section \<open>Operands\<close>

lemma operand:
  assumes "compiled_ok ns ns' all" and "run_inv z f s m ns ns' all env done ca c" and "fields_at f s m ns' all env"
    and "i \<in> set all" and "i \<in> done" and "plane_node ns (Some i)"
  shows "\<exists>A. op_reads f s (mem c) (ns' ! i) A \<and> (\<forall>r < 64. row_val A r = node_value ns (env r) i) \<and>
    (\<forall>j \<in> set all. j \<noteq> i \<longrightarrow> op_area f s (mem c) (ns' ! i) \<inter> node_area s (ns' ! j) = {})"
proof -
  note sel = compiled_sel [OF assms(1,4)]
  let ?n = "ns' ! i"
  consider "kind (ns ! i) = K_LOAD" | "kind (ns ! i) = K_CONST" | "kind (ns ! i) = K_ADD \<or> kind (ns ! i) = K_SELECT"
    using assms(6) by (auto simp: plane_node_def)
  then show ?thesis
  proof cases
    case 1
    define h where "h = m (f + slot_offset (field_idx ?n))"
    have fa: "op_area f s m ?n \<inter> scratch_area s = {}"
      "\<And>r. r < 64 \<Longrightarrow> row_val (\<lambda>b. m (h + of_nat (b * 8))) r = env r (field_name ?n)"
      using assms(3,4) 1 sel(3) by (simp_all add: fields_at_def h_def)
    have same: "mem c x = m x" if "x \<in> op_area f s m ?n" for x
      using that fa(1) assms(2) by (auto simp: run_inv_def)
    have A: "op_reads f s m ?n (\<lambda>b. m (h + of_nat (b * 8)))"
      using 1 sel(3) by (simp add: op_reads_def reads_def hoist_val_def h_def)
    note om = op_reads_mem [OF A same]
    have "op_area f s (mem c) ?n \<inter> node_area s (ns' ! j) = {}" if "j \<in> set all" for j
      using om(2) fa(1) area_in_scratch [OF assms(1) that, of s] by blast
    moreover have "node_value ns (env r) i = env r (field_name ?n)" for r
      using 1 sel(7) by (simp add: node_value.simps [of ns _ i] Let_def)
    ultimately show ?thesis using om(1) fa(2) by (intro exI [of _ "\<lambda>b. m (h + of_nat (b * 8))"]) simp
  next
    case 2
    have "op_area f s (mem c) ?n = {}" using 2 sel(3) by (simp add: op_area_def read_area_def)
    moreover have "node_value ns (env r) i = const_value ?n" for r
      using 2 sel(8) by (simp add: node_value.simps [of ns _ i] Let_def)
    ultimately show ?thesis using 2 sel(3)
      by (intro exI [of _ "\<lambda>b. if bit (const_value ?n) b then NOT 0 else 0"])
        (simp add: op_reads_def reads_def row_val_const)
  next
    case 3
    have k: "hoist_val f s (mem c) ?n = slot_addr s (slot_id ?n)" "kind ?n \<noteq> K_CONST" "kind ?n \<noteq> K_LOAD"
      using 3 sel(3) by (auto simp: hoist_val_def)
    have "op_reads f s (mem c) ?n (\<lambda>b. mem c (slot_addr s (slot_id ?n + int b)))"
      using k by (simp add: op_reads_def reads_def slot_addr_mult)
    moreover have "row_val (\<lambda>b. mem c (slot_addr s (slot_id ?n + int b))) r = node_value ns (env r) i" if "r < 64" for r
      using assms(2,5) 3 that by (auto simp: run_inv_def node_holds_def)
    moreover have "op_area f s (mem c) ?n \<subseteq> node_area s ?n"
    proof -
      have "result_kind ?n = BITPLANE" using 3 sel(10) by (auto simp: is_mask_kind_def)
      with node_slot_mem(3) [OF k(3,2)] show ?thesis
        using k by (auto simp: op_area_def read_area_def slot_addr_mult node_area_def)
    qed
    ultimately show ?thesis using areas_disjoint [OF assms(1,4), of _ s] by blast
  qed
qed

section \<open>One node\<close>

lemma mask_node_slot:
  assumes "compiled_ok ns ns' all" and "j \<in> set all" and "is_mask_kind (kind (ns ! j))"
  shows "slot_id (ns' ! j) \<in> mask_slots ns' all" and "is_cmp_kind (kind (ns ! j)) \<Longrightarrow> eq_slot_id (ns' ! j) \<in> mask_slots ns' all"
  using compiled_sel(3) [OF assms(1,2)] assms(2,3) kind_cases(2) [OF assms(3)] node_slot_mem [of "ns' ! j"]
  by (auto simp: mask_slots_def)

lemma mask_slots_disjoint:
  assumes "compiled_ok ns ns' all" and "i \<in> set all" and "\<not> is_mask_kind (kind (ns ! i))"
  shows "\<forall>x \<in> mask_slots ns' all. slot_addr s x \<notin> node_area s (ns' ! i)"
proof
  fix x assume "x \<in> mask_slots ns' all"
  then obtain j where j: "j \<in> set all" "is_mask_kind (kind (ns' ! j))" "x \<in> node_slots (ns' ! j)"
    by (auto simp: mask_slots_def)
  have "j \<noteq> i" using j(2) compiled_sel(3) [OF assms(1,2)] assms(3) by auto
  with areas_disjoint [OF assms(1) j(1) assms(2), of s] j(3) show "slot_addr s x \<notin> node_area s (ns' ! i)"
    by (auto simp: node_area_def)
qed

lemma plane_area:
  assumes "compiled_ok ns ns' all" and "i \<in> set all" and "kind (ns ! i) = K_ADD \<or> kind (ns ! i) = K_SUB \<or> kind (ns ! i) = K_SELECT"
  shows "node_area s (ns' ! i) = (\<lambda>b. slot_addr s (slot_id (ns' ! i) + int b)) ` {0..<64}"
    and "0 \<le> slot_id (ns' ! i)" and "slot_id (ns' ! i) + 64 \<le> int MAX_SLOTS"
proof -
  note sel = compiled_sel [OF assms(1,2)]
  have "node_slots (ns' ! i) = {slot_id (ns' ! i)..<slot_id (ns' ! i) + 64}"
    using assms(3) sel(3,10) by (auto simp: node_slots_def is_mask_kind_def is_cmp_kind_def)
  moreover have "{x..<x + 64} = (\<lambda>b. x + int b) ` {0..<64}" for x
  proof -
    have "y \<in> (\<lambda>b. x + int b) ` {0..<64}" if "y \<in> {x..<x + 64}" for y
      using that by (intro image_eqI [of _ _ "nat (y - x)"]) auto
    then show ?thesis by auto
  qed
  ultimately show "node_area s (ns' ! i) = (\<lambda>b. slot_addr s (slot_id (ns' ! i) + int b)) ` {0..<64}"
    by (simp add: node_area_def image_image)
  have "node_slots (ns' ! i) \<subseteq> {0..<int MAX_SLOTS}" using assms(1,2) by (auto simp: compiled_ok_def)
  with \<open>node_slots (ns' ! i) = _\<close> show "0 \<le> slot_id (ns' ! i)" and "slot_id (ns' ! i) + 64 \<le> int MAX_SLOTS"
    by auto
qed

text \<open>The situation before the code of node \<open>i\<close>: its operands are done.\<close>

definition step_pre ::
  "u64 \<Rightarrow> u64 \<Rightarrow> u64 \<Rightarrow> (u64 \<Rightarrow> u64) \<Rightarrow> Node list \<Rightarrow> Node list \<Rightarrow> nat list \<Rightarrow> (nat \<Rightarrow> string \<Rightarrow> u64) \<Rightarrow>
   nat set \<Rightarrow> ScratchpadCache \<Rightarrow> cpu \<Rightarrow> nat \<Rightarrow> bool" where
  "step_pre z f s m ns ns' all env done ca c i \<longleftrightarrow>
     compiled_ok ns ns' all \<and> fields_at f s m ns' all env \<and> run_inv z f s m ns ns' all env done ca c \<and>
     i \<in> set all \<and> i \<notin> done \<and> done \<subseteq> set all \<and> set (children (ns ! i)) \<subseteq> done"

lemma step_operand:
  assumes "step_pre z f s m ns ns' all env done ca c i" and "plane_node ns p" and "p \<in> {left (ns ! i), right (ns ! i)}"
  obtains j A where "p = Some j" and "op_reads f s (mem c) (ns' ! j) A"
    and "\<And>r. r < 64 \<Longrightarrow> row_val A r = node_value ns (env r) j" and "op_area f s (mem c) (ns' ! j) \<inter> node_area s (ns' ! i) = {}"
proof -
  obtain j where j: "p = Some j" using assms(2) by (auto simp: plane_node_def split: option.splits)
  with assms(3) have "j \<in> set (children (ns ! i))" by (auto simp: in_children)
  with assms(1) have d: "j \<in> done" "j \<in> set all" "i \<in> set all" "i \<noteq> j" by (auto simp: step_pre_def)
  have "\<exists>A. op_reads f s (mem c) (ns' ! j) A \<and> (\<forall>r < 64. row_val A r = node_value ns (env r) j) \<and>
      (\<forall>k \<in> set all. k \<noteq> j \<longrightarrow> op_area f s (mem c) (ns' ! j) \<inter> node_area s (ns' ! k) = {})"
    using assms(1,2) d j by (intro operand) (auto simp: step_pre_def)
  with d j that show thesis by blast
qed

lemma step_mask:
  assumes "step_pre z f s m ns ns' all env done ca c i" and "mask_node ns p"
    and "p \<in> {left (ns ! i), right (ns ! i), cond (ns ! i)}"
  obtains j where "p = Some j" and "slot_id (ns' ! j) \<in> mask_slots ns' all"
    and "\<And>r. r < 64 \<Longrightarrow> bit (mem c (slot_addr s (slot_id (ns' ! j)))) r \<longleftrightarrow> node_value ns (env r) j \<noteq> 0"
proof -
  obtain j where j: "p = Some j" "is_mask_kind (kind (ns ! j))" using assms(2) by (auto simp: mask_node_def split: option.splits)
  with assms(3) have "j \<in> set (children (ns ! i))" by (auto simp: in_children)
  with assms(1) have d: "j \<in> done" "j \<in> set all" by (auto simp: step_pre_def)
  have "node_holds s (mem c) ns ns' env j" using assms(1) d by (auto simp: step_pre_def run_inv_def)
  then have "bit (mem c (slot_addr s (slot_id (ns' ! j)))) r \<longleftrightarrow> node_value ns (env r) j \<noteq> 0" if "r < 64" for r
    using j(2) that by (simp add: node_holds_def)
  moreover have "slot_id (ns' ! j) \<in> mask_slots ns' all"
    using assms(1) d j(2) by (intro mask_node_slot) (auto simp: step_pre_def)
  ultimately show thesis using that j(1) by blast
qed

lemma step_facts:
  assumes "step_pre z f s m ns ns' all env done ca c i"
  shows "compiled_ok ns ns' all" "run_inv z f s m ns ns' all env done ca c" "i \<in> set all"
    "regs c 19 = f" "regs c 20 = s" "cache_ok s (mask_slots ns' all) ca c" "slots_in (mask_slots ns' all)"
    "node_ready s (mem c) (ns' ! i)" "pool_wf ns"
  using assms mask_slots_in [of ns ns' all] by (auto simp: step_pre_def run_inv_def compiled_ok_def)

lemma step_done:
  assumes "step_pre z f s m ns ns' all env done ca c i" and "frame work_regs (node_area s (ns' ! i)) c c'"
    and "cache_ok s (mask_slots ns' all) ca' c'" and "node_holds s (mem c') ns ns' env i"
  shows "run_inv z f s m ns ns' all env (insert i done) ca' c'"
  using assms run_inv_step by (auto simp: step_pre_def)

lemma step_add:
  assumes "step_pre z f s m ns ns' all env done ca c i" and "kind (ns ! i) = K_ADD"
    and "emit_node 64 ns' i ca = Some (code, ca')"
  shows "run_inv z f s m ns ns' all env (insert i done) ca' (exec code c)"
proof -
  note pre = step_facts [OF assms(1)]
  note sel = compiled_sel [OF pre(1,3)]
  have p: "plane_node ns (left (ns ! i))" "plane_node ns (right (ns ! i))" and sk: "\<not> skip_jit (ns ! i)"
    using sel(2) assms(2) by (auto simp: jit_ok_def Let_def is_cmp_kind_def)
  obtain l A where l: "left (ns ! i) = Some l" "op_reads f s (mem c) (ns' ! l) A"
    "\<And>r. r < 64 \<Longrightarrow> row_val A r = node_value ns (env r) l" "op_area f s (mem c) (ns' ! l) \<inter> node_area s (ns' ! i) = {}"
    using step_operand [OF assms(1) p(1)] by auto
  obtain r B where r: "right (ns ! i) = Some r" "op_reads f s (mem c) (ns' ! r) B"
    "\<And>q. q < 64 \<Longrightarrow> row_val B q = node_value ns (env q) r" "op_area f s (mem c) (ns' ! r) \<inter> node_area s (ns' ! i) = {}"
    using step_operand [OF assms(1) p(2)] by auto
  obtain cr where cr: "carry_register (ns' ! i) = Some (X cr)" "cr \<in> {23..28}"
    and code: "code = emit_add 64 (ns' ! i) (ns' ! l) (ns' ! r) (X cr)" "ca' = ca"
    using assms(2,3) l(1) r(1) sk sel(3-9)
    by (auto simp: emit_node_def Let_def carry_register_def split: if_splits)
  have W: "node_area s (ns' ! i) = (\<lambda>b. slot_addr s (slot_id (ns' ! i) + int b)) ` {0..<64}"
    "0 \<le> slot_id (ns' ! i)" "slot_id (ns' ! i) + 64 \<le> int MAX_SLOTS"
    using plane_area [OF pre(1,3)] assms(2) by auto
  note ex = emit_add_exec [OF pre(4,5) cr(2) refl l(2) r(2) W(1) l(4) r(4) W(2,3), folded code(1)]
  have fr: "frame {2, 3, 4, 7, 16, 17, 22, cr} (node_area s (ns' ! i)) c (exec code c)" using ex by blast
  have "frame work_regs (node_area s (ns' ! i)) c (exec code c)"
    by (rule frame_work [OF fr]) (use cr(2) in \<open>auto simp: work_regs_def\<close>)
  moreover have "cache_ok s (mask_slots ns' all) ca (exec code c)"
    using mask_slots_disjoint [OF pre(1,3)] assms(2) cr(2)
    by (intro cache_ok_frame [OF pre(6) fr]) (auto simp: is_mask_kind_def)
  moreover have "node_holds s (mem (exec code c)) ns ns' env i"
    using ex assms(2) sel(3) l(1,3) r(1,3) node_value_inner [OF pre(9) sel(1)]
    by (auto simp: node_holds_def is_mask_kind_def node_op_def)
  ultimately show ?thesis unfolding code(2) by (rule step_done [OF assms(1)])
qed

lemma mask_val_eq_0 [simp]: "mask_val b = 0 \<longleftrightarrow> \<not> b"
  by (simp add: mask_val_def)

lemma cmp_val_op: "is_cmp_kind k \<Longrightarrow> node_op k q a b \<noteq> 0 \<longleftrightarrow> cmp_val k a b"
  by (auto simp: is_cmp_kind_def node_op_def cmp_val_def)

lemma step_cmp:
  assumes "step_pre z f s m ns ns' all env done ca c i" and "is_cmp_kind (kind (ns ! i))"
    and "emit_node 64 ns' i ca = Some (code, ca')"
  shows "run_inv z f s m ns ns' all env (insert i done) ca' (exec code c)"
proof -
  note pre = step_facts [OF assms(1)]
  note sel = compiled_sel [OF pre(1,3)]
  note mk = kind_cases(1) [OF assms(2)] kind_cases(2) [OF kind_cases(1) [OF assms(2)]]
  have p: "plane_node ns (left (ns ! i))" "plane_node ns (right (ns ! i))" and sk: "\<not> skip_jit (ns ! i)"
    using sel(2) assms(2) by (auto simp: jit_ok_def Let_def is_cmp_kind_def)
  obtain l A where l: "left (ns ! i) = Some l" "op_reads f s (mem c) (ns' ! l) A"
    "\<And>r. r < 64 \<Longrightarrow> row_val A r = node_value ns (env r) l" "op_area f s (mem c) (ns' ! l) \<inter> node_area s (ns' ! i) = {}"
    using step_operand [OF assms(1) p(1)] by auto
  obtain r B where r: "right (ns ! i) = Some r" "op_reads f s (mem c) (ns' ! r) B"
    "\<And>q. q < 64 \<Longrightarrow> row_val B q = node_value ns (env q) r" "op_area f s (mem c) (ns' ! r) \<inter> node_area s (ns' ! i) = {}"
    using step_operand [OF assms(1) p(2)] by auto
  have cmp: "is_cmp_kind (kind (ns' ! i))" using assms(2) sel(3) by simp
  have code: "emit_cmp 64 (ns' ! i) (ns' ! l) (ns' ! r) ca = (code, ca')"
    using assms(2,3) l(1) r(1) sk sel(3-9) mk by (auto simp: emit_node_def Let_def is_cmp_kind_def)
  have ne: "eq_slot_id (ns' ! i) \<noteq> slot_id (ns' ! i)"
    using pre(1,3) cmp by (auto simp: compiled_ok_def node_ok_slots_def)
  have z: "mem c (slot_addr s (slot_id (ns' ! i))) = 0" "mem c (slot_addr s (eq_slot_id (ns' ! i))) = NOT 0"
    using pre(8) cmp by (simp_all add: node_ready_def)
  note ms = mask_node_slot [OF pre(1,3) mk(1)]
  note ex = emit_cmp_exec [OF code cmp pre(6,7) ms(1) ms(2) [OF assms(2)] ne pre(4,5) l(2) r(2) z]
  have "{slot_addr s (slot_id (ns' ! i)), slot_addr s (eq_slot_id (ns' ! i))} \<subseteq> node_area s (ns' ! i)"
    using node_slot_mem [of "ns' ! i"] mk sel(3) cmp by (auto simp: node_area_def)
  with ex have "frame work_regs (node_area s (ns' ! i)) c (exec code c)"
    using frame_work [of work_regs] by blast
  moreover have "node_holds s (mem (exec code c)) ns ns' env i"
    using ex mk sel(3) l(1,3) r(1,3) node_value_inner [OF pre(9) sel(1)] cmp_val_op [OF assms(2)]
    by (simp add: node_holds_def)
  ultimately show ?thesis using ex by (intro step_done [OF assms(1)]) simp_all
qed

lemma step_logic:
  assumes "step_pre z f s m ns ns' all env done ca c i" and "kind (ns ! i) \<in> {K_AND, K_OR, K_NOT}"
    and "emit_node 64 ns' i ca = Some (code, ca')"
  shows "run_inv z f s m ns ns' all env (insert i done) ca' (exec code c)"
proof -
  note pre = step_facts [OF assms(1)]
  note sel = compiled_sel [OF pre(1,3)]
  have mk: "is_mask_kind (kind (ns ! i))" "\<not> is_cmp_kind (kind (ns ! i))"
    using assms(2) by (auto simp: is_mask_kind_def is_cmp_kind_def)
  have p: "mask_node ns (left (ns ! i))" "\<not> skip_jit (ns ! i)"
    "if kind (ns ! i) = K_NOT then right (ns ! i) = None else mask_node ns (right (ns ! i))"
    using sel(2) assms(2) by (auto simp: jit_ok_def Let_def is_cmp_kind_def)
  obtain l where l: "left (ns ! i) = Some l" "slot_id (ns' ! l) \<in> mask_slots ns' all"
    "\<And>r. r < 64 \<Longrightarrow> bit (mem c (slot_addr s (slot_id (ns' ! l)))) r \<longleftrightarrow> node_value ns (env r) l \<noteq> 0"
    using step_mask [OF assms(1) p(1)] by auto
  have r: "kind (ns ! i) = K_NOT \<and> right (ns ! i) = None \<or> kind (ns ! i) \<noteq> K_NOT \<and>
     (\<exists>r. right (ns ! i) = Some r \<and> slot_id (ns' ! r) \<in> mask_slots ns' all \<and>
       (\<forall>q < 64. bit (mem c (slot_addr s (slot_id (ns' ! r)))) q \<longleftrightarrow> node_value ns (env q) r \<noteq> 0))"
  proof (cases "kind (ns ! i) = K_NOT")
    case False
    with p(3) have "mask_node ns (right (ns ! i))" by simp
    from step_mask [OF assms(1) this] False show ?thesis by auto
  qed (use p(3) in simp)
  have code: "emit_logic (ns' ! i) (ns' ! l) (map_option ((!) ns') (right (ns ! i))) ca = (code, ca')"
    using assms(2,3) l(1) p(2) sel(3-9) mk by (auto simp: emit_node_def Let_def)
  note ms = mask_node_slot(1) [OF pre(1,3) mk(1)]
  have rs: "slot_id x \<in> mask_slots ns' all" if "map_option ((!) ns') (right (ns ! i)) = Some x" for x
    using r that by auto
  note ex = emit_logic_exec [OF code pre(6,7,5) ms l(2) rs]
  have "{slot_addr s (slot_id (ns' ! i))} \<subseteq> node_area s (ns' ! i)"
    using node_slot_mem(1) [of "ns' ! i"] kind_cases(2) [OF mk(1)] sel(3) by (auto simp: node_area_def)
  with ex have "frame work_regs (node_area s (ns' ! i)) c (exec code c)"
    using frame_work [of work_regs] by blast
  moreover have "bit (mem (exec code c) (slot_addr s (slot_id (ns' ! i)))) q \<longleftrightarrow> node_value ns (env q) i \<noteq> 0" if "q < 64" for q
    using ex r l(1,3) assms(2) kind_cases(2) [OF mk(1)] sel(3) that node_value_inner [OF pre(9) sel(1)]
    by (auto simp: node_op_def bit_simps)
  then have "node_holds s (mem (exec code c)) ns ns' env i"
    using kind_cases(2) [OF mk(1)] by (simp add: node_holds_def)
  ultimately show ?thesis using ex by (intro step_done [OF assms(1)]) simp_all
qed

lemma step_select:
  assumes "step_pre z f s m ns ns' all env done ca c i" and "kind (ns ! i) = K_SELECT"
    and "emit_node 64 ns' i ca = Some (code, ca')"
  shows "run_inv z f s m ns ns' all env (insert i done) ca' (exec code c)"
proof -
  note pre = step_facts [OF assms(1)]
  note sel = compiled_sel [OF pre(1,3)]
  have p: "plane_node ns (left (ns ! i))" "plane_node ns (right (ns ! i))" "mask_node ns (cond (ns ! i))"
    and sk: "\<not> skip_jit (ns ! i)"
    using sel(2) assms(2) by (auto simp: jit_ok_def Let_def is_cmp_kind_def)
  obtain l A where l: "left (ns ! i) = Some l" "op_reads f s (mem c) (ns' ! l) A"
    "\<And>r. r < 64 \<Longrightarrow> row_val A r = node_value ns (env r) l" "op_area f s (mem c) (ns' ! l) \<inter> node_area s (ns' ! i) = {}"
    using step_operand [OF assms(1) p(1)] by auto
  obtain r B where r: "right (ns ! i) = Some r" "op_reads f s (mem c) (ns' ! r) B"
    "\<And>q. q < 64 \<Longrightarrow> row_val B q = node_value ns (env q) r" "op_area f s (mem c) (ns' ! r) \<inter> node_area s (ns' ! i) = {}"
    using step_operand [OF assms(1) p(2)] by auto
  obtain q where q: "cond (ns ! i) = Some q" "slot_id (ns' ! q) \<in> mask_slots ns' all"
    "\<And>r. r < 64 \<Longrightarrow> bit (mem c (slot_addr s (slot_id (ns' ! q)))) r \<longleftrightarrow> node_value ns (env r) q \<noteq> 0"
    using step_mask [OF assms(1) p(3)] by auto
  have code: "emit_select 64 (ns' ! i) (ns' ! q) (ns' ! l) (ns' ! r) ca = (code, ca')"
    using assms(2,3) l(1) r(1) q(1) sk sel(3-9) by (auto simp: emit_node_def Let_def is_cmp_kind_def)
  have W: "node_area s (ns' ! i) = (\<lambda>b. slot_addr s (slot_id (ns' ! i) + int b)) ` {0..<64}"
    "0 \<le> slot_id (ns' ! i)" "slot_id (ns' ! i) + 64 \<le> int MAX_SLOTS"
    using plane_area [OF pre(1,3)] assms(2) by auto
  have nm: "\<not> is_mask_kind (kind (ns ! i))" using assms(2) by (simp add: is_mask_kind_def)
  note ex = emit_select_exec [OF code pre(6,7,4,5) q(2) refl l(2) r(2) W(1) l(4) r(4) W(2,3)
      mask_slots_disjoint [OF pre(1,3) nm]]
  have "node_holds s (mem (exec code c)) ns ns' env i"
    using ex assms(2) nm l(1,3) r(1,3) q(1,3) node_value_inner [OF pre(9) sel(1)]
    by (auto simp: node_holds_def node_op_def)
  then show ?thesis using ex by (intro step_done [OF assms(1)]) simp_all
qed

lemma node_step:
  assumes "step_pre z f s m ns ns' all env done ca c i" and "emit_node 64 ns' i ca = Some (code, ca')"
  shows "run_inv z f s m ns ns' all env (insert i done) ca' (exec code c)"
proof -
  note pre = step_facts [OF assms(1)]
  note sel = compiled_sel [OF pre(1,3)]
  consider "kind (ns ! i) = K_ADD" | "is_cmp_kind (kind (ns ! i))" | "kind (ns ! i) \<in> {K_AND, K_OR, K_NOT}"
    | "kind (ns ! i) = K_SELECT" | "kind (ns ! i) \<in> {K_LOAD, K_CONST}"
    using sel(2) by (auto simp: jit_ok_def Let_def)
  then show ?thesis
  proof cases
    case 5
    then have "code = []" "ca' = ca" "node_holds s (mem c) ns ns' env i"
      using assms(2) sel(3) by (auto simp: emit_node_def Let_def is_cmp_kind_def node_holds_def is_mask_kind_def split: if_splits)
    then show ?thesis using pre(6) by (auto intro!: step_done [OF assms(1)])
  qed (use step_add [OF assms(1) _ assms(2)] step_cmp [OF assms(1) _ assms(2)] step_logic [OF assms(1) _ assms(2)]
      step_select [OF assms(1) _ assms(2)] in simp_all)
qed

text \<open>The whole pass.\<close>

lemma emit_nodes_run:
  assumes "compiled_ok ns ns' all" and "fields_at f s m ns' all env"
  shows "all = xs @ ys \<Longrightarrow> run_inv z f s m ns ns' all env (set xs) ca c \<Longrightarrow>
    emit_nodes 64 ns' ys ca = Some (code, ca') \<Longrightarrow>
    run_inv z f s m ns ns' all env (set all) ca' (exec code c)"
proof (induction ys arbitrary: xs ca c code)
  case (Cons i ys)
  obtain code1 ca1 code2 where e: "emit_node 64 ns' i ca = Some (code1, ca1)"
    "emit_nodes 64 ns' ys ca1 = Some (code2, ca')" "code = code1 @ code2"
    using Cons.prems(3) by (auto split: option.splits prod.splits)
  have o: "ordered ns all" "distinct all" using assms(1) by (simp_all add: compiled_ok_def)
  have "all ! length xs = i" "take (length xs) all = xs" "length xs < length all" using Cons.prems(1) by simp_all
  then have "set (children (ns ! i)) \<subseteq> set xs" using o(1) unfolding ordered_def by metis
  moreover have "i \<notin> set xs" using o(2) Cons.prems(1) by simp
  ultimately have "step_pre z f s m ns ns' all env (set xs) ca c i"
    using assms Cons.prems by (auto simp: step_pre_def)
  from node_step [OF this e(1)] have "run_inv z f s m ns ns' all env (set (xs @ [i])) ca1 (exec code1 c)" by simp
  from Cons.IH [OF _ this e(2)] Cons.prems(1) show ?case by (simp add: e(3))
qed simp

section \<open>Initialisation\<close>

lemma init_node_exec:
  assumes "compiled_ok ns ns' all" and "i \<in> set all" and "regs c 20 = s"
  defines "c' \<equiv> exec (init_node (ns' ! i)) c"
  shows "frame work_regs (node_area s (ns' ! i)) c c' \<and> node_ready s (mem c') (ns' ! i)"
proof -
  note sel = compiled_sel [OF assms(1,2)]
  let ?n = "ns' ! i"
  have sub: "kind ?n \<noteq> K_SUB" using sel(2,3) by (auto simp: jit_ok_def Let_def is_cmp_kind_def)
  have sl: "node_slots ?n \<subseteq> {0..<int MAX_SLOTS}" using assms(1,2) by (auto simp: compiled_ok_def)
  show ?thesis
  proof (cases "is_mask_kind (kind (ns ! i))")
    case False
    with sub sel(10) have "init_node ?n = []" by (simp add: init_node_def)
    moreover have "\<not> is_cmp_kind (kind ?n)" using False sel(3) kind_cases(1) by auto
    ultimately show ?thesis by (simp add: c'_def node_ready_def)
  next
    case True
    have s0: "slot_id ?n \<in> node_slots ?n" using kind_cases(2) [OF True] sel(3) by (intro node_slot_mem) simp_all
    with sl have p0: "0 \<le> slot_id ?n" by auto
    note a0 = imageI [OF s0, of "slot_addr s", folded node_area_def]
    show ?thesis
    proof (cases "is_cmp_kind (kind (ns ! i))")
      case False
      then have "c' = c\<lparr>regs := (regs c)(22 := slot_offset (slot_id ?n)), mem := (mem c)(slot_addr s (slot_id ?n) := 0)\<rparr>"
        using True sub sel(10,11) assms(3) p0 by (simp add: c'_def init_node_def st_mem_def slot_addr_def)
      moreover have "frame work_regs (node_area s ?n) c \<dots>"
        using a0 by (intro frame_updates same_outside_intros) simp_all
      ultimately show ?thesis using False sel(3) by (simp add: node_ready_def)
    next
      case cmp: True
      have e: "eq_slot_id ?n \<in> node_slots ?n" using cmp sel(3) by (intro node_slot_mem(2)) simp
      with sl have e0: "0 \<le> eq_slot_id ?n" by auto
      note ae = imageI [OF e, of "slot_addr s", folded node_area_def]
      have "eq_slot_id ?n \<noteq> slot_id ?n" using assms(1,2) cmp sel(3) by (auto simp: compiled_ok_def node_ok_slots_def)
      moreover have "slot_id ?n < int MAX_SLOTS" "eq_slot_id ?n < int MAX_SLOTS" using sl s0 e by auto
      ultimately have ne: "slot_addr s (slot_id ?n) \<noteq> slot_addr s (eq_slot_id ?n)" using p0 e0 by simp
      define c1 where "c1 = c\<lparr>regs := (regs c)(22 := slot_offset (slot_id ?n)), mem := (mem c)(slot_addr s (slot_id ?n) := 0)\<rparr>"
      have "c' = c1\<lparr>regs := (regs c1)(22 := slot_offset (eq_slot_id ?n), 7 := - 1),
          mem := (mem c1)(slot_addr s (eq_slot_id ?n) := - 1)\<rparr>"
        using True sub sel(10) assms(3) p0 e0 by (simp add: c'_def init_node_def st_mem_def slot_addr_def c1_def)
      moreover have "frame work_regs (node_area s ?n) c1 \<dots>"
        using ae by (intro frame_updates same_outside_intros) simp_all
      moreover have "frame work_regs (node_area s ?n) c c1"
        unfolding c1_def using a0 by (intro frame_updates same_outside_intros) simp_all
      ultimately show ?thesis using ne by (auto simp: node_ready_def c1_def intro: frame_trans)
    qed
  qed
qed

lemma init_nodes_exec:
  assumes "compiled_ok ns ns' all"
  shows "set ys \<subseteq> set all \<Longrightarrow> distinct ys \<Longrightarrow> regs c 20 = s \<Longrightarrow>
    frame work_regs (scratch_area s) c (exec (concat (map (\<lambda>i. init_node (ns' ! i)) ys)) c) \<and>
    (\<forall>i \<in> set ys. node_ready s (mem (exec (concat (map (\<lambda>i. init_node (ns' ! i)) ys)) c)) (ns' ! i)) \<and>
    (\<forall>a. (\<forall>i \<in> set ys. a \<notin> node_area s (ns' ! i)) \<longrightarrow>
       mem (exec (concat (map (\<lambda>i. init_node (ns' ! i)) ys)) c) a = mem c a)"
proof (induction ys arbitrary: c)
  case (Cons i ys)
  define c1 where "c1 = exec (init_node (ns' ! i)) c"
  define c2 where "c2 = exec (concat (map (\<lambda>i. init_node (ns' ! i)) ys)) c1"
  have i: "i \<in> set all" "i \<notin> set ys" using Cons.prems by auto
  have 1: "frame work_regs (node_area s (ns' ! i)) c c1" "node_ready s (mem c1) (ns' ! i)"
    using init_node_exec [OF assms i(1) Cons.prems(3)] by (simp_all add: c1_def)
  have r1: "regs c1 20 = s" using frame_reg [OF 1(1)] work_regs_keep Cons.prems(3) by simp
  have IH: "frame work_regs (scratch_area s) c1 c2" "\<And>j. j \<in> set ys \<Longrightarrow> node_ready s (mem c2) (ns' ! j)"
    "\<And>a. (\<forall>j \<in> set ys. a \<notin> node_area s (ns' ! j)) \<Longrightarrow> mem c2 a = mem c1 a"
    using Cons.IH [OF _ _ r1] Cons.prems unfolding c2_def by auto
  have "mem c2 a = mem c1 a" if a: "a \<in> node_area s (ns' ! i)" for a
  proof -
    have "a \<notin> node_area s (ns' ! j)" if "j \<in> set ys" for j
      using areas_disjoint [OF assms i(1), of j s] that a i(2) Cons.prems(1) by auto
    then show ?thesis using IH(3) by blast
  qed
  from node_holds_mem(2) [OF assms i(1), of s "mem c2" "mem c1", OF this] 1(2) have "node_ready s (mem c2) (ns' ! i)" by blast
  moreover have "frame work_regs (scratch_area s) c c2"
    using frame_work [OF 1(1) subset_refl area_in_scratch [OF assms i(1)]] IH(1) by (rule frame_trans)
  moreover have "mem c2 a = mem c a" if "\<forall>j \<in> set (i # ys). a \<notin> node_area s (ns' ! j)" for a
    using that IH(3) [of a] frame_mem [OF 1(1), of a] by simp
  ultimately show ?case using IH(2) by (simp add: c1_def c2_def)
qed simp

lemma init_code_exec:
  assumes "compiled_ok ns ns' all" and "regs c 19 = f" and "regs c 20 = s"
  defines "c' \<equiv> exec (init_code ns' all) c"
  shows "run_inv (sp c) f s (mem c) ns ns' all env {} cache_new c' \<and> frame work_regs (scratch_area s) c c'"
proof -
  define z where "z = map (\<lambda>i. I_MOVI (X (23 + i)) 0) [0..<6]"
  define c1 where "c1 = exec z c"
  have "z = [I_MOVI (X 23) 0, I_MOVI (X 24) 0, I_MOVI (X 25) 0, I_MOVI (X 26) 0, I_MOVI (X 27) 0, I_MOVI (X 28) 0]"
    by (simp add: z_def upt_rec)
  then have "c1 = c\<lparr>regs := (regs c)(23 := 0, 24 := 0, 25 := 0, 26 := 0, 27 := 0, 28 := 0)\<rparr>" by (simp add: c1_def)
  then have f1: "frame work_regs (scratch_area s) c c1" "mem c1 = mem c"
    by (auto simp: frame_def work_regs_def)
  have r1: "regs c1 20 = s" using frame_reg [OF f1(1)] work_regs_keep assms(3) by simp
  have d: "distinct all" using assms(1) by (simp add: compiled_ok_def)
  have c': "c' = exec (concat (map (\<lambda>i. init_node (ns' ! i)) all)) c1"
    by (simp add: c'_def init_code_def c1_def z_def)
  note N = init_nodes_exec [OF assms(1) subset_refl d r1, folded c']
  have F: "frame work_regs (scratch_area s) c c'" using f1(1) N by (blast intro: frame_trans)
  moreover have "sp c' = sp c" using F by (simp add: frame_def)
  moreover have "regs c' 19 = f" "regs c' 20 = s" "\<forall>a. a \<notin> scratch_area s \<longrightarrow> mem c' a = mem c a"
    using frame_reg [OF F] frame_mem [OF F] work_regs_keep assms(2,3) by simp_all
  ultimately show ?thesis using N by (simp add: run_inv_def cache_ok_def cache_new_def)
qed

end
