(* ===== verification/Jit_Kernel.thy ===== *)
theory Jit_Kernel
  imports Jit_Correct
begin

text \<open>
  The whole kernel of the expression compiler: prologue, initialisation, the pass over the nodes, the
  result and the epilogue. Called with the array of field planes and the scratchpad, the kernel
  returns the mask of the rows on which the expression holds and respects the calling convention.
\<close>

section \<open>What the passes before emission establish\<close>

lemma compile_expression_ok:
  assumes "compile_expression True 64 ns (Some root) = (Kernel code, ns')" and "pool_wf ns" and "root < length ns"
    and "all = all_nodes (run_analyzer ns root)" and "list_all (jit_ok ns) all"
  obtains body ca where "compiled_ok ns ns' all" and "root \<in> set all"
    and "code = prologue @ init_code ns' all @ body @ final_code (ns' ! root) @ epilogue"
    and "emit_nodes 64 ns' all cache_new = Some (body, ca)"
proof -
  let ?ea = "run_analyzer ns root"
  note ana = run_analyzer_inv [OF assms(2,3)]
  obtain fs ns1 used cy body ca where s: "assign_fields (arithmetic_nodes ?ea) [] (ea_nodes ?ea) = Some (fs, ns1)"
    "alloc_nodes all ((\<lambda>_. False), 0, mark_consts (arithmetic_nodes ?ea) ns1) = Some (used, cy, ns')"
    "emit_nodes 64 ns' all cache_new = Some (body, ca)"
    "code = prologue @ init_code ns' all @ body @ final_code (ns' ! root) @ epilogue"
    using assms(1,4) by (auto simp: compile_expression_def Let_def split: option.splits prod.splits)
  let ?ns2 = "mark_consts (arithmetic_nodes ?ea) ns1"
  have inv: "same_shape ns (ea_nodes ?ea)" "distinct all" "ordered ns all"
    "\<And>j. j \<in> set all \<Longrightarrow> j < length ns \<and>
       result_kind (ea_nodes ?ea ! j) = (if is_mask_kind (kind (ns ! j)) then BITMASK else BITPLANE)"
    "arithmetic_nodes ?ea = filter (\<lambda>j. plain_kind (kind (ns ! j))) all"
    using ana(1) assms(4) by (simp_all add: ana_inv_def)
  have ar: "distinct (arithmetic_nodes ?ea)" "\<forall>i \<in> set (arithmetic_nodes ?ea). i < length (ea_nodes ?ea)"
    using inv same_shape_length [OF inv(1)] by auto
  note F = assign_fields_ok [OF s(1) ar]
  have l1: "length ns1 = length (ea_nodes ?ea)" using F same_shape_length by blast
  note M = mark_consts_ok [of "arithmetic_nodes ?ea" ns1, unfolded l1, OF ar(2)]
  have l2: "length ?ns2 = length ns" using M same_shape_length l1 same_shape_length [OF inv(1)] by metis
  have "\<forall>i \<in> set all. i < length ?ns2" using inv(4) l2 by simp
  note A = alloc_nodes_ok [OF s(2) inv(2) this]
  have sh: "same_shape ns ns'"
    using same_shape_trans [OF same_shape_trans [OF same_shape_trans [OF inv(1) conjunct1 [OF F]] conjunct1 [OF M]] conjunct1 [OF A]] .
  have rk: "result_kind (ns' ! i) = result_kind (ea_nodes ?ea ! i)" if "i \<in> set all" for i
  proof -
    have i: "i < length ns" "i < length ns1" "i < length ?ns2" "i < length (ea_nodes ?ea)"
      using inv(4) [OF that] l1 l2 same_shape_length [OF inv(1)] by simp_all
    have "result_kind (ns' ! i) = result_kind (?ns2 ! i)" using A i(3) by blast
    also have "\<dots> = result_kind (ns1 ! i)" using M i(2) l1 by metis
    also have "\<dots> = result_kind (ea_nodes ?ea ! i)" using F i(4) by blast
    finally show ?thesis .
  qed
  have "result_kind (ns' ! i) = (if is_mask_kind (kind (ns ! i)) then BITMASK else BITPLANE)" if "i \<in> set all" for i
    using rk [OF that] inv(4) [OF that] by simp
  moreover have "node_ok_slots (ns' ! i)" if "i \<in> set all" for i
  proof (cases "is_cmp_kind (kind (ns' ! i))")
    case True
    then have "result_kind (?ns2 ! i) = BITMASK"
      using calculation [OF that] kind_cases(1) same_shape_sel(1) [OF sh] inv(4) [OF that] A l2 by auto
    with A that show ?thesis by blast
  qed (simp add: node_ok_slots_def)
  moreover have "node_slots (ns' ! i) \<subseteq> {0..<int MAX_SLOTS}" if "i \<in> set all" for i
    using A that by (auto simp: fresh_slots_def)
  ultimately have "compiled_ok ns ns' all"
    unfolding compiled_ok_def using assms(2,5) sh inv A by (auto simp: list_all_iff)
  with that s(3,4) ana(2) assms(4) show thesis by blast
qed

section \<open>Prologue and epilogue\<close>

definition stack_area :: "u64 \<Rightarrow> u64 set" where
  "stack_area a = set (map (\<lambda>k. a - of_nat (8 * k)) [1..<13])"

lemma stack_slot: "stack_area a = {a - 8, a - 16, a - 24, a - 32, a - 40, a - 48, a - 56, a - 64, a - 72, a - 80, a - 88, a - 96}"
  by (simp add: stack_area_def upt_rec)

definition saved :: "cpu \<Rightarrow> (u64 \<Rightarrow> u64) \<Rightarrow> bool" where
  "saved c m \<longleftrightarrow> m (sp c - 16) = regs c 29 \<and> m (sp c - 8) = regs c 30 \<and> m (sp c - 32) = regs c 19 \<and>
     m (sp c - 24) = regs c 20 \<and> m (sp c - 48) = regs c 21 \<and> m (sp c - 40) = regs c 22 \<and> m (sp c - 64) = regs c 23 \<and>
     m (sp c - 56) = regs c 24 \<and> m (sp c - 80) = regs c 25 \<and> m (sp c - 72) = regs c 26 \<and> m (sp c - 96) = regs c 27 \<and>
     m (sp c - 88) = regs c 28"

lemma sub_shift: "(a :: u64) - x - y = a - (x + y)" "a - x + y = a - (x - y)"
  by simp_all

lemma prologue_exec:
  fixes c :: cpu
  defines "c1 \<equiv> exec prologue c"
  shows "regs c1 19 = regs c 0" "regs c1 20 = regs c 1" "sp c1 = sp c - 96" "saved c (mem c1)"
    "\<And>a. a \<notin> stack_area (sp c) \<Longrightarrow> mem c1 a = mem c a"
  by (simp_all add: c1_def prologue_def Let_def saved_def stack_slot sub_shift)

lemma epilogue_exec:
  assumes "sp c2 = sp c - 96" and "saved c (mem c2)"
  defines "c3 \<equiv> exec epilogue c2"
  shows "sp c3 = sp c" "mem c3 = mem c2" "regs c3 0 = regs c2 0" "\<forall>r \<in> {19..30}. regs c3 r = regs c r"
proof -
  have "{19..30} = set [19..<31 :: nat]" by (simp only: set_upt) auto
  then show "\<forall>r \<in> {19..30}. regs c3 r = regs c r"
    using assms(1,2) by (simp only: list.pred_set [symmetric]) (simp add: c3_def epilogue_def saved_def sub_shift upt_rec)
qed (use assms in \<open>simp_all add: epilogue_def\<close>)

section \<open>The kernel\<close>

text \<open>The stack of the kernel is apart from the scratchpad and from the planes it reads.\<close>

definition stack_apart :: "u64 \<Rightarrow> u64 \<Rightarrow> u64 \<Rightarrow> (u64 \<Rightarrow> u64) \<Rightarrow> Node list \<Rightarrow> nat list \<Rightarrow> bool" where
  "stack_apart a f s m ns' all \<longleftrightarrow> stack_area a \<inter> scratch_area s = {} \<and>
     (\<forall>i \<in> set all. kind (ns' ! i) = K_LOAD \<longrightarrow> op_area f s m (ns' ! i) \<inter> stack_area a = {})"

lemma fields_at_mem:
  assumes "fields_at f s m ns' all env" and "\<And>a. a \<notin> T \<Longrightarrow> m' a = m a"
    and "\<And>i. i \<in> set all \<Longrightarrow> kind (ns' ! i) = K_LOAD \<Longrightarrow> op_area f s m (ns' ! i) \<inter> T = {}"
  shows "fields_at f s m' ns' all env"
  unfolding fields_at_def
proof (intro ballI impI conjI allI)
  fix i r assume i: "i \<in> set all" "kind (ns' ! i) = K_LOAD"
  let ?n = "ns' ! i" and ?P = "\<lambda>m b. m (m (f + slot_offset (field_idx (ns' ! i))) + of_nat (b * 8))"
  have same: "m' x = m x" if "x \<in> op_area f s m ?n" for x using assms(2) assms(3) [OF i] that by blast
  have "op_reads f s m ?n (?P m)" using i(2) by (simp add: op_reads_def reads_def hoist_val_def)
  note om = op_reads_mem [OF this same]
  show "op_area f s m' ?n \<inter> scratch_area s = {}" using om(2) assms(1) i by (auto simp: fields_at_def)
  have "m' (f + slot_offset (field_idx ?n)) = m (f + slot_offset (field_idx ?n))"
    using om(3) i(2) by (simp add: hoist_val_def)
  moreover have "m' (m (f + slot_offset (field_idx ?n)) + of_nat (b * 8)) = m (m (f + slot_offset (field_idx ?n)) + of_nat (b * 8))"
    if "b < 64" for b
    using i(2) that by (intro same) (auto simp: op_area_def read_area_def hoist_val_def)
  ultimately have "row_val (?P m') r = row_val (?P m) r" by (intro row_val_cong) simp
  then show "row_val (?P m') r = env r (field_name ?n)" if "r < 64"
    using assms(1) i that by (auto simp: fields_at_def)
qed

lemma kernel_run:
  assumes "compile_expression True 64 ns (Some root) = (Kernel code, ns')" and "pool_wf ns" and "root < length ns"
    and "all = all_nodes (run_analyzer ns root)" and "list_all (jit_ok ns) all" and "is_mask_kind (kind (ns ! root))"
    and "fields_at (regs c 0) (regs c 1) (mem c) ns' all env"
    and "stack_apart (sp c) (regs c 0) (regs c 1) (mem c) ns' all"
  defines "c' \<equiv> exec code c"
  shows "\<And>r. r < 64 \<Longrightarrow> bit (regs c' 0) r \<longleftrightarrow> node_value ns (env r) root \<noteq> 0"
    and "\<forall>r \<in> {19..30}. regs c' r = regs c r" and "sp c' = sp c"
    and "\<And>a. a \<notin> scratch_area (regs c 1) \<union> stack_area (sp c) \<Longrightarrow> mem c' a = mem c a"
proof -
  define f s where "f = regs c 0" and "s = regs c 1"
  obtain body ca where C: "compiled_ok ns ns' all" "root \<in> set all"
    "code = prologue @ init_code ns' all @ body @ final_code (ns' ! root) @ epilogue"
    "emit_nodes 64 ns' all cache_new = Some (body, ca)"
    using compile_expression_ok [OF assms(1-5)] by blast
  note sel = compiled_sel [OF C(1,2)]
  define c1 where "c1 = exec prologue c"
  define c2 where "c2 = exec (init_code ns' all) c1"
  define c3 where "c3 = exec body c2"
  define c4 where "c4 = exec (final_code (ns' ! root)) c3"
  have c': "c' = exec epilogue c4" by (simp add: c'_def C(3) c1_def c2_def c3_def c4_def)
  have p: "regs c1 19 = f" "regs c1 20 = s" "sp c1 = sp c - 96" "saved c (mem c1)"
    "\<And>a. a \<notin> stack_area (sp c) \<Longrightarrow> mem c1 a = mem c a"
    using prologue_exec [where c = c] by (simp_all add: c1_def f_def s_def)
  have ap: "\<And>i. i \<in> set all \<Longrightarrow> kind (ns' ! i) = K_LOAD \<Longrightarrow> op_area f s (mem c) (ns' ! i) \<inter> stack_area (sp c) = {}"
    "stack_area (sp c) \<inter> scratch_area s = {}"
    using assms(8) by (simp_all add: stack_apart_def f_def s_def)
  have fa: "fields_at f s (mem c1) ns' all env"
    by (rule fields_at_mem [OF assms(7) [folded f_def s_def] p(5) ap(1)])
  note I = init_code_exec [OF C(1) p(1,2), of env, folded c2_def]
  have "run_inv (sp c1) f s (mem c1) ns ns' all env (set all) ca c3"
    using emit_nodes_run [OF C(1) fa _ _ C(4), where xs = "[]" and c = c2 and z = "sp c1"] I by (simp add: c3_def)
  then have R: "regs c3 20 = s" "sp c3 = sp c1" "\<And>a. a \<notin> scratch_area s \<Longrightarrow> mem c3 a = mem c1 a" "node_holds s (mem c3) ns ns' env root"
    using C(2) by (auto simp: run_inv_def)
  have "final_code (ns' ! root) = emit_mov_imm64 temp_ptr (slot_offset (slot_id (ns' ! root))) @ [I_LDR_R (X 0) scratch_ptr temp_ptr 0]"
    using sel(2,9,10) assms(6) by (simp add: final_code_def jit_ok_def Let_def)
  then have 4: "c4 = c3\<lparr>regs := (regs c3)(22 := slot_offset (slot_id (ns' ! root)), 0 := mem c3 (slot_addr s (slot_id (ns' ! root))))\<rparr>"
    using R(1) by (simp add: c4_def slot_addr_def)
  have sv: "saved c (mem c4)"
  proof -
    have "mem c4 a = mem c1 a" if "a \<in> stack_area (sp c)" for a
      using R(3) [of a] ap(2) that by (auto simp: 4)
    then show ?thesis using p(4) by (simp add: saved_def stack_slot)
  qed
  have s4: "sp c4 = sp c - 96" using R(2) p(3) by (simp add: 4)
  note e = epilogue_exec [OF s4 sv, folded c']
  show "sp c' = sp c" "\<forall>r \<in> {19..30}. regs c' r = regs c r" by (rule e(1), rule e(4))
  show "bit (regs c' 0) r \<longleftrightarrow> node_value ns (env r) root \<noteq> 0" if "r < 64" for r
    using R(4) assms(6) that by (simp add: e(3) 4 node_holds_def)
  show "mem c' a = mem c a" if "a \<notin> scratch_area (regs c 1) \<union> stack_area (sp c)" for a
    using that R(3) [of a] p(5) [of a] by (simp add: e(2) 4 s_def)
qed

text \<open>A concrete call used by the witnesses: \<open>GT (Load ''a'') (Const 5)\<close> on 64 rows with value 7.\<close>

definition ex_nodes :: "Node list" where
  "ex_nodes = [Node_new\<lparr>kind := K_LOAD, field_name := ''a''\<rparr>, Node_new\<lparr>kind := K_CONST, const_value := 5\<rparr>,
     Node_new\<lparr>kind := K_GT, result_kind := BITMASK, left := Some 0, right := Some 1\<rparr>]"

definition ex_mem :: "u64 \<Rightarrow> u64" where
  "ex_mem a = (if a = 0x100 then 0x1000 else if a \<in> {0x1000, 0x1008, 0x1010} then NOT 0 else 0)"

definition ex_cpu :: cpu where
  "ex_cpu = \<lparr>regs = (\<lambda>r. if r = 0 then 0x100 else if r = 1 then 0x10000 else 0), sp = 0x100000, mem = ex_mem, flags = (0, 0)\<rparr>"

lemma ex_analysis:
  "all_nodes (run_analyzer ex_nodes 2) = [0, 1, 2]" "arithmetic_nodes (run_analyzer ex_nodes 2) = [0, 1]"
  "ea_nodes (run_analyzer ex_nodes 2) =
     [Node_new\<lparr>kind := K_LOAD, field_name := ''a'', active_bits := 64\<rparr>,
      Node_new\<lparr>kind := K_CONST, const_value := 5, active_bits := 3\<rparr>,
      Node_new\<lparr>kind := K_GT, result_kind := BITMASK, left := Some 0, right := Some 1, active_bits := 10\<rparr>]"
  by code_simp+

lemma ex_compiles:
  "\<exists>code. compile_expression True 64 ex_nodes (Some 2) = (Kernel code,
     [Node_new\<lparr>kind := K_LOAD, field_name := ''a'', active_bits := 64, field_idx := 0\<rparr>,
      Node_new\<lparr>kind := K_CONST, const_value := 5, active_bits := 3, field_idx := - 2\<rparr>,
      Node_new\<lparr>kind := K_GT, result_kind := BITMASK, left := Some 0, right := Some 1, active_bits := 10,
        slot_id := 0, eq_slot_id := 1\<rparr>])"
  by (simp add: compile_expression_def ex_analysis mark_consts_def alloc_node_def alloc_slot_def is_cmp_kind_def
      first_free.simps [of _ 0] first_free.simps [of _ "Suc 0"] MAX_SLOTS_def Node_new_def
      emit_node_def split: prod.split)

lemma ex_wf: "pool_wf ex_nodes" "list_all (jit_ok ex_nodes) [0, 1, 2]" "is_mask_kind (kind (ex_nodes ! 2))"
  by code_simp+

lemma addr_range:
  assumes "x \<in> (\<lambda>b. a + of_nat (b * 8)) ` {0..<n}" and "unat a + 8 * n < 2 ^ 64"
  shows "unat a \<le> unat (x :: u64) \<and> unat x < unat a + 8 * n"
proof -
  obtain b where b: "b < n" "x = a + of_nat (b * 8)" using assms(1) by auto
  have "unat (of_nat (b * 8) :: u64) = b * 8" using b(1) assms(2) unat_of_nat [of "b * 8", where ?'a = 64] by simp
  then have "unat x = unat a + b * 8"
    using b assms(2) unat_word_ariths(1) [of a "of_nat (b * 8)"] by simp
  with b(1) show ?thesis by simp
qed

lemma scratch_range:
  assumes "x \<in> scratch_area s" and "unat s + 8 * MAX_SLOTS < 2 ^ 64"
  shows "unat s \<le> unat x \<and> unat x < unat s + 8 * MAX_SLOTS"
proof (rule addr_range [OF _ assms(2)])
  obtain i where i: "0 \<le> i" "i < int MAX_SLOTS" "x = slot_addr s i" using assms(1) by (auto simp: scratch_area_def)
  then have "x = s + of_nat (nat i * 8)" by (simp add: slot_addr_def slot_offset_def)
  moreover have "nat i < MAX_SLOTS" using i by simp
  ultimately show "x \<in> (\<lambda>b. s + of_nat (b * 8)) ` {0..<MAX_SLOTS}" by auto
qed

lemma ex_fields:
  assumes "ns' = [Node_new\<lparr>kind := K_LOAD, field_name := ''a'', active_bits := 64, field_idx := 0\<rparr>,
      Node_new\<lparr>kind := K_CONST, const_value := 5, active_bits := 3, field_idx := - 2\<rparr>,
      Node_new\<lparr>kind := K_GT, result_kind := BITMASK, left := Some 0, right := Some 1, active_bits := 10,
        slot_id := 0, eq_slot_id := 1\<rparr>]"
  shows "fields_at 0x100 0x10000 ex_mem ns' [0, 1, 2] (\<lambda>r n. 7)"
    and "stack_apart 0x100000 0x100 0x10000 ex_mem ns' [0, 1, 2]"
proof -
  have ar: "op_area 0x100 0x10000 ex_mem (ns' ! 0) = insert 0x100 ((\<lambda>b. 0x1000 + of_nat (b * 8)) ` {0..<64})"
    by (simp add: assms op_area_def read_area_def hoist_val_def slot_offset_def ex_mem_def)
  have lo: "unat x < 0x10000" if "x \<in> op_area 0x100 0x10000 ex_mem (ns' ! 0)" for x
  proof (cases "x = 0x100")
    case False
    with that ar have "x \<in> (\<lambda>b. 0x1000 + of_nat (b * 8)) ` {0..<64}" by simp
    from addr_range [OF this] show ?thesis by simp
  qed simp
  have mid: "0x10000 \<le> unat x \<and> unat x < 0x50000" if "x \<in> scratch_area 0x10000" for x
    using scratch_range [OF that] by (simp add: MAX_SLOTS_def)
  have hi: "0x50000 \<le> unat x" if "x \<in> stack_area 0x100000" for x
    using that by (auto simp: stack_slot)
  have P: "ex_mem (0x1000 + of_nat (b * 8)) = (if bit (7 :: u64) b then NOT 0 else 0)" if "b < 64" for b
  proof -
    have "list_all (\<lambda>b. ex_mem (0x1000 + of_nat (b * 8)) = (if bit (7 :: u64) b then NOT 0 else 0)) [0..<64]"
      by code_simp
    with that show ?thesis by (simp add: list_all_iff)
  qed
  have "row_val (\<lambda>b. ex_mem (0x1000 + of_nat (b * 8))) r = 7" if "r < 64" for r
    using row_val_cong [of "\<lambda>b. ex_mem (0x1000 + of_nat (b * 8))" r "\<lambda>b. if bit (7 :: u64) b then NOT 0 else 0"]
      row_val_const [OF that, of 7] P by simp
  moreover have "ex_mem 0x100 = 0x1000" by (simp add: ex_mem_def)
  moreover have "op_area 0x100 0x10000 ex_mem (ns' ! 0) \<inter> scratch_area 0x10000 = {}"
    using lo mid by fastforce
  ultimately show "fields_at 0x100 0x10000 ex_mem ns' [0, 1, 2] (\<lambda>r n. 7)"
    by (simp add: fields_at_def assms slot_offset_def Node_new_def)
  have "stack_area 0x100000 \<inter> scratch_area 0x10000 = {}" using mid hi by fastforce
  moreover have "op_area 0x100 0x10000 ex_mem (ns' ! 0) \<inter> stack_area 0x100000 = {}" using lo hi by fastforce
  ultimately show "stack_apart 0x100000 0x100 0x10000 ex_mem ns' [0, 1, 2]"
    by (simp add: stack_apart_def assms Node_new_def)
qed

text \<open>
  Claim C11. The expression compiler is correct on the kinds of node of \<open>jit_ok\<close>: when \<open>compile_expression\<close>
  returns a kernel for a well-formed expression whose root is a mask and whose nodes are loads, constants,
  ADD, comparisons and SELECT over planes, and AND, OR and NOT over masks (no SUB, MUL, shift, POPCNT or
  SUM), the mask the emitted AArch64 code returns in x0 has bit r set exactly when the expression is true on
  row r, for all 64 rows of the planes it was called with.
\<close>

theorem expression_kernel_correct:
  assumes "compile_expression True 64 ns (Some root) = (Kernel code, ns')" and "pool_wf ns" and "root < length ns"
    and "list_all (jit_ok ns) (all_nodes (run_analyzer ns root))" and "is_mask_kind (kind (ns ! root))"
    and "fields_at (regs c 0) (regs c 1) (mem c) ns' (all_nodes (run_analyzer ns root)) env"
    and "stack_apart (sp c) (regs c 0) (regs c 1) (mem c) ns' (all_nodes (run_analyzer ns root))"
    and "r < 64"
  shows "bit (regs (exec code c) 0) r \<longleftrightarrow> node_value ns (env r) root \<noteq> 0"
  using kernel_run(1) [OF assms(1-3) refl assms(4-7)] assms(8) by blast

theorem expression_kernel_correct_witness:
  "\<exists>code ns'. compile_expression True 64 ex_nodes (Some 2) = (Kernel code, ns') \<and> bit (regs (exec code ex_cpu) 0) 9"
proof -
  obtain code ns' where c: "compile_expression True 64 ex_nodes (Some 2) = (Kernel code, ns')"
    and ns': "ns' = [Node_new\<lparr>kind := K_LOAD, field_name := ''a'', active_bits := 64, field_idx := 0\<rparr>,
      Node_new\<lparr>kind := K_CONST, const_value := 5, active_bits := 3, field_idx := - 2\<rparr>,
      Node_new\<lparr>kind := K_GT, result_kind := BITMASK, left := Some 0, right := Some 1, active_bits := 10,
        slot_id := 0, eq_slot_id := 1\<rparr>]"
    using ex_compiles by auto
  have "node_value ex_nodes (\<lambda>n. 7) 2 \<noteq> 0" by code_simp
  moreover have "bit (regs (exec code ex_cpu) 0) 9 \<longleftrightarrow> node_value ex_nodes (\<lambda>n. 7) 2 \<noteq> 0"
    using expression_kernel_correct [of ex_nodes 2 code ns' ex_cpu "\<lambda>r n. 7" 9] c ex_wf ex_fields [OF ns']
    by (simp add: ex_analysis ex_cpu_def) (simp add: ex_nodes_def)
  ultimately show ?thesis using c by blast
qed

text \<open>
  Claim C16. The kernel of such an expression (a mask as root, over loads, constants, ADD, comparisons and
  SELECT of planes, and AND, OR and NOT of masks; no SUB, MUL, shift, POPCNT or SUM) respects the calling
  convention: it restores the callee-saved registers x19 to x30 and the stack pointer, and it writes memory
  only in the scratchpad and in its own stack frame, so the planes of the fields are left as they were.
\<close>

theorem expression_kernel_abi:
  assumes "compile_expression True 64 ns (Some root) = (Kernel code, ns')" and "pool_wf ns" and "root < length ns"
    and "list_all (jit_ok ns) (all_nodes (run_analyzer ns root))" and "is_mask_kind (kind (ns ! root))"
    and "fields_at (regs c 0) (regs c 1) (mem c) ns' (all_nodes (run_analyzer ns root)) env"
    and "stack_apart (sp c) (regs c 0) (regs c 1) (mem c) ns' (all_nodes (run_analyzer ns root))"
    and "a \<notin> scratch_area (regs c 1) \<union> stack_area (sp c)" and "r \<in> {19..30}"
  shows "regs (exec code c) r = regs c r \<and> sp (exec code c) = sp c \<and> mem (exec code c) a = mem c a"
  using kernel_run(2-4) [OF assms(1-3) refl assms(4-7)] assms(8,9) by blast

theorem expression_kernel_abi_witness:
  "\<exists>code ns'. compile_expression True 64 ex_nodes (Some 2) = (Kernel code, ns') \<and>
     regs (exec code ex_cpu) 19 = 0 \<and> sp (exec code ex_cpu) = 0x100000 \<and> mem (exec code ex_cpu) 0x1000 = NOT 0"
proof -
  obtain code ns' where c: "compile_expression True 64 ex_nodes (Some 2) = (Kernel code, ns')"
    and ns': "ns' = [Node_new\<lparr>kind := K_LOAD, field_name := ''a'', active_bits := 64, field_idx := 0\<rparr>,
      Node_new\<lparr>kind := K_CONST, const_value := 5, active_bits := 3, field_idx := - 2\<rparr>,
      Node_new\<lparr>kind := K_GT, result_kind := BITMASK, left := Some 0, right := Some 1, active_bits := 10,
        slot_id := 0, eq_slot_id := 1\<rparr>]"
    using ex_compiles by auto
  have "0x1000 \<notin> scratch_area 0x10000" using scratch_range [of "0x1000" "0x10000"] by (auto simp: MAX_SLOTS_def)
  then have "0x1000 \<notin> scratch_area 0x10000 \<union> stack_area 0x100000" by (simp add: stack_slot)
  then have "regs (exec code ex_cpu) 19 = 0 \<and> sp (exec code ex_cpu) = 0x100000 \<and> mem (exec code ex_cpu) 0x1000 = NOT 0"
    using expression_kernel_abi [of ex_nodes 2 code ns' ex_cpu "\<lambda>r n. 7" "0x1000" 19] c ex_wf ex_fields [OF ns']
    by (simp add: ex_analysis ex_cpu_def ex_mem_def) (simp add: ex_nodes_def)
  then show ?thesis using c by blast
qed

text \<open>
  Subtraction as the compiler emits it: the carry plane is preset with the immediate 1, which
  is the carry-in of row 0 only, so the planes of a SUB node hold a - b on row 0 and a - b - 1 on each
  of the rows 1 to 63.
\<close>

lemma sub_carry_in_row_zero_only:
  assumes "kind n = K_SUB" and "regs c 19 = f" and "regs c 20 = s" and "cr \<in> {23..28}"
    and "op_reads f s (mem c) l A" and "op_reads f s (mem c) r B"
    and "op_area f s (mem c) l \<inter> scratch_area s = {}" and "op_area f s (mem c) r \<inter> scratch_area s = {}"
    and "0 \<le> slot_id n" and "slot_id n + 64 \<le> int MAX_SLOTS" and "q < 64"
  shows "row_val (\<lambda>b. mem (exec (emit_add 64 n l r (X cr)) c) (slot_addr s (slot_id n + int b))) q =
    row_val A q - row_val B q - of_bool (q \<noteq> 0)"
proof -
  let ?W = "(\<lambda>b. slot_addr s (slot_id n + int b)) ` {0..<64}"
  have "?W \<subseteq> scratch_area s" using assms(9,10) by auto
  then have "op_area f s (mem c) l \<inter> ?W = {}" "op_area f s (mem c) r \<inter> ?W = {}" using assms(7,8) by blast+
  from emit_add_exec [OF assms(2-4) refl assms(5,6) refl this assms(9,10)] assms(1,11)
  show ?thesis by (simp add: not_eq_complement)
qed

lemma sub_carry_in_row_zero_only_witness:
  "row_val (\<lambda>b. mem (exec (emit_add 64 (Node_new\<lparr>kind := K_SUB, slot_id := 0\<rparr>) (Node_new\<lparr>kind := K_CONST, const_value := 9\<rparr>)
     (Node_new\<lparr>kind := K_CONST, const_value := 4\<rparr>) (X 23)) (ex_cpu\<lparr>regs := (\<lambda>r. 0)\<rparr>)) (slot_addr 0 (int b))) 1 = 4"
proof -
  define A where "A = (\<lambda>(v :: u64) b. if bit v b then NOT 0 else 0 :: u64)"
  let ?n = "\<lambda>v. Node_new\<lparr>kind := K_CONST, const_value := v\<rparr>"
  have "op_reads 0 0 m (?n v) (A v)" "op_area 0 0 m (?n v) = {}" "row_val (A v) 1 = v" for m v
    using row_val_const [of 1 v] by (simp_all add: op_reads_def reads_def op_area_def read_area_def A_def)
  then show ?thesis
    using sub_carry_in_row_zero_only [of "Node_new\<lparr>kind := K_SUB, slot_id := 0\<rparr>" "ex_cpu\<lparr>regs := (\<lambda>r. 0)\<rparr>" 0 0 23
        "?n 9" "A 9" "?n 4" "A 4" 1]
    by (simp add: MAX_SLOTS_def)
qed

end
