(* ===== verification/Jit_Call.thy ===== *)
theory Jit_Call
  imports Jit_Kernel
begin

text \<open>
  Calling a compiled kernel from C++: the array of plane pointers, the column buffers, the scratchpad
  and the stack are words of one memory, and the kernel runs on them. The addresses are a parameter
  (\<open>layout\<close>); what the program relies on is that the objects do not overlap (\<open>layout_ok\<close>).
\<close>

section \<open>Memory of a call\<close>

record layout =
  la_planes :: u64
  la_buffers :: u64
  la_scratch :: u64
  la_sp :: u64
  la_regs :: "nat \<Rightarrow> u64"

definition region :: "u64 \<Rightarrow> nat \<Rightarrow> u64 list" where
  "region a n = map (\<lambda>k. a + of_nat (8 * k)) [0..<n]"

definition layout_ok :: "layout \<Rightarrow> nat \<Rightarrow> nat \<Rightarrow> nat \<Rightarrow> bool" where
  "layout_ok la np nb w \<longleftrightarrow> MAX_SLOTS \<le> w \<and>
     distinct (region (la_planes la) np @ region (la_buffers la) (64 * nb) @ region (la_scratch la) w @
       region (la_sp la - 96) 12)"

definition call_memory :: "layout \<Rightarrow> u64 list \<Rightarrow> u64 list list \<Rightarrow> u64 list \<Rightarrow> u64 \<Rightarrow> u64" where
  "call_memory la ptrs bufs scratch a =
     (case map_of (zip (region (la_planes la) (length ptrs) @ region (la_buffers la) (64 * length bufs) @
                        region (la_scratch la) (length scratch)) (ptrs @ concat bufs @ scratch)) a of
        Some v \<Rightarrow> v | None \<Rightarrow> 0)"

text \<open>
  A kernel: straight-line code of the bit-sliced compiler, or the prologue, loop body and epilogue of
  the scalar compiler, whose loop runs while \<open>row_index\<close> (x22) is below 64.
\<close>

datatype ExprKernel = Straight "instr list" | Loop "instr list" "instr list" "instr list"

primrec run_loop :: "nat \<Rightarrow> instr list \<Rightarrow> cpu \<Rightarrow> cpu" where
  "run_loop 0 body c = c"
| "run_loop (Suc n) body c = (if regs c 22 < 64 then run_loop n body (exec body c) else c)"

fun run_kernel :: "ExprKernel \<Rightarrow> cpu \<Rightarrow> cpu" where
  "run_kernel (Straight code) c = exec code c"
| "run_kernel (Loop pre body post) c = exec post (run_loop 64 body (exec pre c))"

definition call_cpu :: "layout \<Rightarrow> u64 list \<Rightarrow> u64 list list \<Rightarrow> u64 list \<Rightarrow> cpu" where
  "call_cpu la ptrs bufs scratch =
     \<lparr>regs = (la_regs la)(0 := la_planes la, 1 := la_scratch la), sp = la_sp la,
      mem = call_memory la ptrs bufs scratch, flags = (0, 0)\<rparr>"

definition call_kernel ::
  "layout \<Rightarrow> ExprKernel \<Rightarrow> u64 list \<Rightarrow> u64 list list \<Rightarrow> u64 list \<Rightarrow> u64 \<times> u64 list" where
  "call_kernel la k ptrs bufs scratch =
     (let c = run_kernel k (call_cpu la ptrs bufs scratch)
      in (regs c 0, map (mem c) (region (la_scratch la) (length scratch))))"

section \<open>Reading the memory\<close>

lemma length_region [simp]: "length (region a n) = n"
  by (simp add: region_def)

lemma nth_region: "k < n \<Longrightarrow> region a n ! k = a + of_nat (8 * k)"
  by (simp add: region_def)

lemma region_take: "m \<le> n \<Longrightarrow> set (region a m) \<subseteq> set (region a n)"
  by (auto simp: region_def)

lemma nth_concat_64:
  "(\<forall>xs \<in> set xss. length xs = 64) \<Longrightarrow> j < length xss \<Longrightarrow> b < 64 \<Longrightarrow> concat xss ! (64 * j + b) = xss ! j ! b"
proof (induction xss arbitrary: j)
  case (Cons xs xss)
  then show ?case by (cases j) (simp_all add: nth_append algebra_simps)
qed simp

lemma length_concat_64: "(\<forall>xs \<in> set xss. length xs = 64) \<Longrightarrow> length (concat xss) = 64 * length xss"
  by (induction xss) simp_all

lemma call_memory_reads:
  assumes "layout_ok la np n w" and "length ptrs = np" and "length bufs = n" and "\<forall>x \<in> set bufs. length x = 64"
    and "length scratch = w"
  defines "m \<equiv> call_memory la ptrs bufs scratch"
  shows "i < np \<Longrightarrow> m (la_planes la + of_nat (8 * i)) = ptrs ! i"
    and "j < n \<Longrightarrow> b < 64 \<Longrightarrow> m (la_buffers la + of_nat (8 * (64 * j + b))) = bufs ! j ! b"
proof -
  let ?as = "region (la_planes la) np @ region (la_buffers la) (64 * n) @ region (la_scratch la) w"
  have d: "distinct ?as" using assms(1) by (auto simp: layout_ok_def)
  have l: "length ?as = length (ptrs @ concat bufs @ scratch)"
    using assms(2-5) length_concat_64 [OF assms(4)] by simp
  have m: "m (?as ! k) = (ptrs @ concat bufs @ scratch) ! k" if "k < length (ptrs @ concat bufs @ scratch)" for k
    using map_of_zip_nth [OF l d that] assms(2,3,5) by (simp add: m_def call_memory_def)
  show "m (la_planes la + of_nat (8 * i)) = ptrs ! i" if "i < np"
    using m [of i] assms(2) that by (simp add: nth_append nth_region)
  show "m (la_buffers la + of_nat (8 * (64 * j + b))) = bufs ! j ! b" if jn: "j < n" and b64: "b < 64"
  proof -
    have k: "64 * j + b < 64 * n" using jn b64 by linarith
    have i: "?as ! (np + (64 * j + b)) = la_buffers la + of_nat (8 * (64 * j + b))"
      using k by (simp only: nth_append_length_plus length_region nth_append nth_region) (simp add: nth_append nth_region)
    have "(ptrs @ concat bufs @ scratch) ! (np + (64 * j + b)) = concat bufs ! (64 * j + b)"
      using k assms(2,3) length_concat_64 [OF assms(4)] by (simp add: nth_append)
    then show ?thesis
      using m [of "np + (64 * j + b)"] k i nth_concat_64 [OF assms(4) _ b64] assms(2,3) jn length_concat_64 [OF assms(4)]
      by simp
  qed
qed

lemma scratch_area_region: "scratch_area s = set (region s MAX_SLOTS)"
proof -
  have "x \<in> (\<lambda>k. s + of_nat (8 * k)) ` {0..<MAX_SLOTS}" if x: "x \<in> scratch_area s" for x
  proof -
    obtain i where i: "0 \<le> i" "i < int MAX_SLOTS" "x = slot_addr s i" using x by (auto simp: scratch_area_def)
    then have "x = s + of_nat (8 * nat i)" "nat i < MAX_SLOTS" by (simp_all add: slot_addr_def slot_offset_def)
    then show ?thesis by auto
  qed
  moreover have "s + of_nat (8 * k) \<in> scratch_area s" if "k < MAX_SLOTS" for k
    using that slot_addr_area [of "int k" s] by (simp add: slot_addr_def slot_offset_def mult.commute)
  ultimately show ?thesis unfolding region_def by auto
qed

lemma stack_area_region: "stack_area a = set (region (a - 96) 12)"
  by (auto simp: stack_slot region_def upt_rec)

section \<open>The mask a call returns\<close>

text \<open>
  \<open>columns_at\<close>: every field node has its column sliced into the buffer its pointer refers to.
\<close>

definition columns_at ::
  "layout \<Rightarrow> Node list \<Rightarrow> nat list \<Rightarrow> u64 list \<Rightarrow> u64 list list \<Rightarrow> (nat \<Rightarrow> string \<Rightarrow> u64) \<Rightarrow> bool" where
  "columns_at la ns' all ptrs bufs env \<longleftrightarrow>
     (\<forall>i \<in> set all. kind (ns' ! i) = K_LOAD \<longrightarrow>
        (\<exists>p < length ptrs. \<exists>j < length bufs. field_idx (ns' ! i) = int p \<and> ptrs ! p = la_buffers la + of_nat (512 * j) \<and>
           (\<forall>r < 64. row_val (\<lambda>b. bufs ! j ! b) r = env r (field_name (ns' ! i)))))"

lemma call_fields_at:
  assumes "layout_ok la np n w" and "length ptrs = np" and "length bufs = n" and "\<forall>x \<in> set bufs. length x = 64"
    and "length scratch = w" and "columns_at la ns' all ptrs bufs env"
  defines "m \<equiv> call_memory la ptrs bufs scratch"
  shows "fields_at (la_planes la) (la_scratch la) m ns' all env"
    and "stack_apart (la_sp la) (la_planes la) (la_scratch la) m ns' all"
proof -
  let ?P = "set (region (la_planes la) np)" and ?B = "set (region (la_buffers la) (64 * n))"
  let ?S = "set (region (la_scratch la) w)" and ?T = "set (region (la_sp la - 96) 12)"
  have dis: "(?P \<union> ?B) \<inter> ?S = {}" "(?P \<union> ?B) \<inter> ?T = {}" "?T \<inter> ?S = {}"
    using assms(1) by (auto simp: layout_ok_def)
  have sa: "scratch_area (la_scratch la) \<subseteq> ?S"
    unfolding scratch_area_region by (rule region_take) (use assms(1) in \<open>simp add: layout_ok_def\<close>)
  have nd: "op_area (la_planes la) (la_scratch la) m (ns' ! i) \<subseteq> ?P \<union> ?B \<and>
      (\<forall>r < 64. row_val (\<lambda>b. m (m (la_planes la + slot_offset (field_idx (ns' ! i))) + of_nat (b * 8))) r =
         env r (field_name (ns' ! i)))" if i: "i \<in> set all" "kind (ns' ! i) = K_LOAD" for i
  proof -
    obtain p j where j: "j < n" "field_idx (ns' ! i) = int p" "ptrs ! p = la_buffers la + of_nat (512 * j)"
      "\<And>r. r < 64 \<Longrightarrow> row_val (\<lambda>b. bufs ! j ! b) r = env r (field_name (ns' ! i))" "p < np"
      using assms(2,3,6) i by (auto simp: columns_at_def)
    note rd = call_memory_reads(1) [OF assms(1-5) j(5), folded m_def] call_memory_reads(2) [OF assms(1-5) j(1), folded m_def]
    have a: "la_planes la + slot_offset (field_idx (ns' ! i)) = la_planes la + of_nat (8 * p)"
      by (simp add: j(2) slot_offset_def mult.commute)
    have b: "la_buffers la + of_nat (512 * j) + of_nat (b * 8) = la_buffers la + of_nat (8 * (64 * j + b))" for b
      by (simp add: algebra_simps)
    have "la_planes la + of_nat (8 * p) \<in> ?P" using j(5) by (auto simp: region_def)
    moreover have "la_buffers la + of_nat (8 * (64 * j + b)) \<in> ?B" if "b < 64" for b
    proof -
      have "64 * j + b < 64 * n" using j(1) that by linarith
      then show ?thesis using nth_mem [of "64 * j + b" "region (la_buffers la) (64 * n)"]
        by (simp only: nth_region length_region)
    qed
    ultimately have "op_area (la_planes la) (la_scratch la) m (ns' ! i) \<subseteq> ?P \<union> ?B"
      using i(2) by (auto simp: op_area_def read_area_def hoist_val_def a rd(1) j(3) b simp del: of_nat_mult of_nat_add)
    moreover have "row_val (\<lambda>b. m (m (la_planes la + of_nat (8 * p)) + of_nat (b * 8))) r = row_val (\<lambda>b. bufs ! j ! b) r" for r
      using rd(2) by (intro row_val_cong) (simp add: rd(1) j(3) b del: of_nat_mult of_nat_add)
    ultimately show ?thesis using j(4) unfolding a by simp
  qed
  show "fields_at (la_planes la) (la_scratch la) m ns' all env"
    unfolding fields_at_def using nd dis(1) sa by blast
  show "stack_apart (la_sp la) (la_planes la) (la_scratch la) m ns' all"
    unfolding stack_apart_def stack_area_region using nd dis(2,3) sa by blast
qed

lemma call_kernel_mask:
  assumes "compile_expression True 64 ns (Some root) = (Kernel code, ns')" and "pool_wf ns" and "root < length ns"
    and "all = all_nodes (run_analyzer ns root)" and "list_all (jit_ok ns) all" and "is_mask_kind (kind (ns ! root))"
    and "layout_ok la np n w" and "length ptrs = np" and "length bufs = n" and "\<forall>x \<in> set bufs. length x = 64"
    and "length scratch = w" and "columns_at la ns' all ptrs bufs env" and "r < 64"
  shows "bit (fst (call_kernel la (Straight code) ptrs bufs scratch)) r \<longleftrightarrow> node_value ns (env r) root \<noteq> 0"
  using kernel_run(1) [OF assms(1-6), of "call_cpu la ptrs bufs scratch" env r] call_fields_at [OF assms(7-12)] assms(13)
  by (simp add: call_kernel_def call_cpu_def Let_def)

end
