(* ===== verification/Jit_Scalar.thy ===== *)
theory Jit_Scalar
  imports Jit_Call
begin

text \<open>
  The scalar expression compiler (\<open>JitCompiler::compile_scalar_expression\<close> of
  \<open>src/jit/compiler.cpp\<close>): a loop over the 64 rows of unsliced columns that evaluates every node
  of the expression in post-order. On the kinds of node it has code for, and as long as the slots can be
  addressed, the emitted loop is proved to return the mask of the rows on which the expression is true, as the
  bit-sliced compiler does.
\<close>

section \<open>Metadata\<close>

fun scalar_fields :: "nat list \<Rightarrow> string list \<Rightarrow> Node list \<Rightarrow> string list \<times> Node list" where
  "scalar_fields [] fs ns = (fs, ns)"
| "scalar_fields (i # is) fs ns =
     (if kind (ns ! i) \<noteq> K_LOAD then scalar_fields is fs ns
      else let fs' = (if field_name (ns ! i) \<in> set fs then fs else fs @ [field_name (ns ! i)]);
               j = (case find_index_of fs' (field_name (ns ! i)) of Some j \<Rightarrow> int j | None \<Rightarrow> - 1)
           in scalar_fields is fs' (ns[i := (ns ! i)\<lparr>field_idx := j\<rparr>]))"

fun scalar_slots :: "nat list \<Rightarrow> slots_used \<times> Node list \<Rightarrow> slots_used \<times> Node list" where
  "scalar_slots [] st = st"
| "scalar_slots (i # is) (used, ns) =
     (if kind (ns ! i) = K_LOAD \<or> kind (ns ! i) = K_CONST then scalar_slots is (used, ns)
      else case alloc_slot used of
        (None, used) \<Rightarrow> scalar_slots is (used, ns[i := (ns ! i)\<lparr>slot_id := - 1\<rparr>])
      | (Some s, used) \<Rightarrow> scalar_slots is (used, ns[i := (ns ! i)\<lparr>slot_id := int s\<rparr>]))"

section \<open>Code\<close>

abbreviation "final_mask \<equiv> X 21"
abbreviation "row_index \<equiv> X 22"
abbreviation "temp_reg \<equiv> X 23"
abbreviation "val_left \<equiv> X 16"
abbreviation "val_right \<equiv> X 17"
abbreviation "val_res \<equiv> X 5"

definition get_operand :: "Node list \<Rightarrow> nat option \<Rightarrow> reg \<Rightarrow> instr list" where
  "get_operand ns operand out =
     (case operand of None \<Rightarrow> []
      | Some j \<Rightarrow>
          (let n = ns ! j in
           if kind n = K_LOAD
           then [I_LDR temp_reg (X 19) (slot_offset (field_idx n)), I_LDR_R out temp_reg row_index 3]
           else if kind n = K_CONST then emit_mov_imm64 out (const_value n)
           else [I_LDR out (X 20) (slot_offset (slot_id n))]))"

text \<open>The operation itself; a SELECT without a condition is undefined.\<close>

definition scalar_op :: "Node list \<Rightarrow> Node \<Rightarrow> instr list option" where
  "scalar_op ns n =
     (case kind n of
        K_ADD \<Rightarrow> Some [I_ADD val_res val_left val_right]
      | K_SUB \<Rightarrow> Some [I_SUB val_res val_left val_right]
      | K_GT \<Rightarrow> Some [I_CMP val_left val_right, I_CSET val_res HI]
      | K_LT \<Rightarrow> Some [I_CMP val_left val_right, I_CSET val_res LO]
      | K_GE \<Rightarrow> Some [I_CMP val_left val_right, I_CSET val_res HS]
      | K_LE \<Rightarrow> Some [I_CMP val_left val_right, I_CSET val_res LS]
      | K_EQ \<Rightarrow> Some [I_CMP val_left val_right, I_CSET val_res EQ_cc]
      | K_AND \<Rightarrow> Some [I_AND val_res val_left val_right]
      | K_OR \<Rightarrow> Some [I_ORR val_res val_left val_right]
      | K_SELECT \<Rightarrow>
          (case cond n of None \<Rightarrow> None
           | Some q \<Rightarrow> Some [I_LDR temp_reg (X 20) (slot_offset (slot_id (ns ! q))), I_CMPI temp_reg 0,
               I_CSEL val_res val_left val_right NE])
      | _ \<Rightarrow> Some [])"

definition scalar_node :: "Node list \<Rightarrow> nat \<Rightarrow> instr list option" where
  "scalar_node ns i =
     (let n = ns ! i in
      case scalar_op ns n of None \<Rightarrow> None
      | Some op \<Rightarrow>
          Some (get_operand ns (left n) val_left @ get_operand ns (right n) val_right @ op @
            (if 0 \<le> slot_id n then [I_STR val_res (X 20) (slot_offset (slot_id n))] else [])))"

fun scalar_nodes :: "Node list \<Rightarrow> nat list \<Rightarrow> instr list option" where
  "scalar_nodes ns [] = Some []"
| "scalar_nodes ns (i # is) =
     (case (scalar_node ns i, scalar_nodes ns is) of (Some a, Some b) \<Rightarrow> Some (a @ b) | _ \<Rightarrow> None)"

definition scalar_prologue :: "instr list" where
  "scalar_prologue =
     [I_STP_PRE (X 29) (X 30), I_MOV (X 29) SP, I_STP_PRE (X 19) (X 20), I_STP_PRE (X 21) (X 22),
      I_STP_PRE (X 23) (X 24), I_MOV (X 19) (X 0), I_MOV (X 20) (X 1), I_MOVI final_mask 0, I_MOVI row_index 0]"

definition scalar_tail :: "instr list" where
  "scalar_tail = [I_LSLV temp_reg val_res row_index, I_ORR final_mask final_mask temp_reg, I_ADDI row_index row_index 1]"

definition scalar_epilogue :: "instr list" where
  "scalar_epilogue =
     [I_MOV (X 0) final_mask, I_LDP_POST (X 23) (X 24), I_LDP_POST (X 21) (X 22), I_LDP_POST (X 19) (X 20),
      I_LDP_POST (X 29) (X 30), I_RET]"

text \<open>Instructions that cannot be encoded, the accesses to slots above 4095, are silently left out.\<close>

datatype scalar_result = ScalarKernel ExprKernel | ScalarNull | ScalarUndefined

definition compile_scalar_expression ::
  "bool \<Rightarrow> Node list \<Rightarrow> nat option \<Rightarrow> scalar_result \<times> Node list" where
  "compile_scalar_expression add_ok ns root =
     (case root of None \<Rightarrow> (ScalarNull, ns)
      | Some root \<Rightarrow>
          let ea = run_analyzer ns root;
              ns1 = snd (scalar_fields (all_nodes ea) [] (ea_nodes ea));
              ns2 = snd (scalar_slots (all_nodes ea) ((\<lambda>_. False), ns1))
          in case scalar_nodes ns2 (all_nodes ea) of
               None \<Rightarrow> (ScalarUndefined, ns2)
             | Some body \<Rightarrow>
                 if add_ok then (ScalarKernel (Loop scalar_prologue (filter encodable (body @ scalar_tail)) scalar_epilogue), ns2)
                 else (ScalarNull, ns2))"

section \<open>Metadata is right\<close>

lemma find_index_of_mem: "x \<in> set xs \<Longrightarrow> \<exists>j. find_index_of xs x = Some j \<and> j < length xs \<and> xs ! j = x"
  using find_index_of_None [of xs x] find_index_of_Some [of xs x] by fastforce

lemma scalar_fields_ok:
  assumes "scalar_fields is fs ns = (fs', ns')" and "distinct is" and "\<forall>i \<in> set is. i < length ns"
  shows "same_shape ns ns' \<and> (\<exists>gs. fs' = fs @ gs) \<and> fields_ok fs' ns' is \<and> (\<forall>i. i \<notin> set is \<longrightarrow> ns' ! i = ns ! i) \<and>
    (\<forall>i < length ns. result_kind (ns' ! i) = result_kind (ns ! i))"
  using assms
proof (induction "is" arbitrary: fs ns)
  case (Cons i "is")
  have i: "i < length ns" "i \<notin> set is" using Cons.prems by auto
  show ?case
  proof (cases "kind (ns ! i) = K_LOAD")
    case False
    with Cons.IH [of fs ns] Cons.prems show ?thesis by (auto simp: fields_ok_def)
  next
    case True
    define fs1 where "fs1 = (if field_name (ns ! i) \<in> set fs then fs else fs @ [field_name (ns ! i)])"
    have mem: "field_name (ns ! i) \<in> set fs1" by (simp add: fs1_def)
    obtain j where j: "find_index_of fs1 (field_name (ns ! i)) = Some j" "j < length fs1" "fs1 ! j = field_name (ns ! i)"
      using find_index_of_mem [OF mem] by blast
    define ns1 where "ns1 = ns[i := (ns ! i)\<lparr>field_idx := int j\<rparr>]"
    have r: "scalar_fields is fs1 ns1 = (fs', ns')"
      using Cons.prems(1) True j(1) by (simp add: fs1_def ns1_def Let_def)
    have IH: "same_shape ns1 ns'" "\<exists>gs. fs' = fs1 @ gs" "fields_ok fs' ns' is" "\<And>k. k \<notin> set is \<Longrightarrow> ns' ! k = ns1 ! k"
      "\<And>k. k < length ns \<Longrightarrow> result_kind (ns' ! k) = result_kind (ns1 ! k)"
      using Cons.IH [OF r] Cons.prems by (auto simp: ns1_def)
    have sh: "same_shape ns ns1" unfolding ns1_def by (rule same_shape_update) (simp_all add: shape_def)
    have ni: "ns' ! i = (ns ! i)\<lparr>field_idx := int j\<rparr>" using IH(4) [OF i(2)] i by (simp add: ns1_def)
    obtain gs where gs: "fs' = fs1 @ gs" using IH(2) by blast
    have "j < length fs'" "fs' ! j = field_name (ns' ! i)" "field_idx (ns' ! i) = int j"
      using j gs ni by (simp_all add: nth_append)
    then have "fields_ok fs' ns' (i # is)" using IH(3) by (auto simp: fields_ok_def)
    moreover have "\<exists>gs. fs' = fs @ gs" using gs by (auto simp: fs1_def split: if_splits)
    moreover have "result_kind (ns1 ! k) = result_kind (ns ! k)" for k by (cases "k = i") (simp_all add: ns1_def i)
    ultimately show ?thesis using same_shape_trans [OF sh IH(1)] IH(4,5) by (auto simp: ns1_def)
  qed
qed (simp add: fields_ok_def)

lemma scalar_fields_length: "scalar_fields is fs ns = (fs', ns') \<Longrightarrow> length fs' \<le> length fs + length is"
proof (induction "is" arbitrary: fs ns)
  case (Cons i "is")
  define fs1 where "fs1 = (if kind (ns ! i) = K_LOAD \<and> field_name (ns ! i) \<notin> set fs then fs @ [field_name (ns ! i)] else fs)"
  obtain ns1 where "scalar_fields is fs1 ns1 = (fs', ns')"
    using Cons.prems by (cases "kind (ns ! i) = K_LOAD"; cases "field_name (ns ! i) \<in> set fs") (auto simp: fs1_def Let_def)
  from Cons.IH [OF this] show ?case by (auto simp: fs1_def split: if_splits)
qed simp

lemma first_free_prefix: "k < MAX_SLOTS \<Longrightarrow> i \<le> k \<Longrightarrow> first_free (\<lambda>j. j < k) i = Some k"
proof (induction "k - i" arbitrary: i)
  case 0
  then show ?case by (subst first_free.simps) simp
next
  case (Suc d)
  then have "i < k" by simp
  with Suc show ?case by (subst first_free.simps) simp
qed

lemma alloc_slot_prefix: "k < MAX_SLOTS \<Longrightarrow> alloc_slot (\<lambda>j. j < k) = (Some k, \<lambda>j. j < Suc k)"
  by (auto simp: alloc_slot_def first_free_prefix fun_eq_iff)

text \<open>Slots are handed out in order, so they are distinct and below the number of nodes.\<close>

definition inner :: "Node \<Rightarrow> bool" where
  "inner n \<longleftrightarrow> kind n \<noteq> K_LOAD \<and> kind n \<noteq> K_CONST"

lemma scalar_slots_ok:
  assumes "distinct is" and "\<forall>i \<in> set is. i < length ns" and "k + length is \<le> MAX_SLOTS"
  defines "ns' \<equiv> snd (scalar_slots is ((\<lambda>j. j < k), ns))"
  shows "same_shape ns ns' \<and> (\<forall>i. i \<notin> set is \<longrightarrow> ns' ! i = ns ! i) \<and>
    (\<forall>i < length ns. field_idx (ns' ! i) = field_idx (ns ! i)) \<and>
    (\<forall>i \<in> set is. inner (ns ! i) \<longrightarrow> int k \<le> slot_id (ns' ! i) \<and> slot_id (ns' ! i) < int (k + length is)) \<and>
    (\<forall>i \<in> set is. \<not> inner (ns ! i) \<longrightarrow> ns' ! i = ns ! i) \<and>
    (\<forall>i \<in> set is. \<forall>j \<in> set is. inner (ns ! i) \<longrightarrow> inner (ns ! j) \<longrightarrow> i \<noteq> j \<longrightarrow> slot_id (ns' ! i) \<noteq> slot_id (ns' ! j))"
  using assms(1-3) unfolding ns'_def
proof (induction "is" arbitrary: k ns)
  case (Cons i "is")
  have i: "i < length ns" "i \<notin> set is" using Cons.prems by auto
  show ?case
  proof (cases "inner (ns ! i)")
    case False
    then have r: "scalar_slots (i # is) ((\<lambda>j. j < k), ns) = scalar_slots is ((\<lambda>j. j < k), ns)"
      by (simp add: inner_def)
    show ?thesis unfolding r using Cons.IH [of ns k] Cons.prems False i(2) by fastforce
  next
    case True
    define ns1 where "ns1 = ns[i := (ns ! i)\<lparr>slot_id := int k\<rparr>]"
    have r: "scalar_slots (i # is) ((\<lambda>j. j < k), ns) = scalar_slots is ((\<lambda>j. j < Suc k), ns1)"
      using True Cons.prems(3) by (simp add: inner_def alloc_slot_prefix ns1_def)
    let ?ns' = "snd (scalar_slots is ((\<lambda>j. j < Suc k), ns1))"
    have in1: "inner (ns1 ! j) = inner (ns ! j)" for j by (cases "j = i") (simp_all add: ns1_def inner_def i)
    have IH: "same_shape ns1 ?ns'" "\<And>j. j \<notin> set is \<Longrightarrow> ?ns' ! j = ns1 ! j"
      "\<And>j. j < length ns \<Longrightarrow> field_idx (?ns' ! j) = field_idx (ns1 ! j)"
      "\<And>j. j \<in> set is \<Longrightarrow> inner (ns ! j) \<Longrightarrow> int (Suc k) \<le> slot_id (?ns' ! j) \<and> slot_id (?ns' ! j) < int (Suc k + length is)"
      "\<And>j. j \<in> set is \<Longrightarrow> \<not> inner (ns ! j) \<Longrightarrow> ?ns' ! j = ns1 ! j"
      "\<And>j l. j \<in> set is \<Longrightarrow> l \<in> set is \<Longrightarrow> inner (ns ! j) \<Longrightarrow> inner (ns ! l) \<Longrightarrow> j \<noteq> l \<Longrightarrow> slot_id (?ns' ! j) \<noteq> slot_id (?ns' ! l)"
      using Cons.IH [of ns1 "Suc k"] Cons.prems in1 by (auto simp: ns1_def)
    have sh: "same_shape ns ns1"
      unfolding ns1_def by (rule same_shape_update) (use True in \<open>simp_all add: shape_def inner_def\<close>)
    have ni: "?ns' ! i = (ns ! i)\<lparr>slot_id := int k\<rparr>" using IH(2) [OF i(2)] i by (simp add: ns1_def)
    have ne: "j \<noteq> i" if "j \<in> set is" for j using that i(2) by auto
    have lt: "int k < slot_id (?ns' ! j)" if "j \<in> set is" "inner (ns ! j)" for j using IH(4) [OF that] by simp
    have "same_shape ns ?ns'" using same_shape_trans [OF sh IH(1)] .
    moreover have "?ns' ! j = ns ! j" if "j \<notin> set (i # is)" for j using IH(2) [of j] that by (simp add: ns1_def)
    moreover have "field_idx (?ns' ! j) = field_idx (ns ! j)" if "j < length ns" for j
      using IH(3) [OF that] by (cases "j = i") (simp_all add: ns1_def i)
    moreover have "int k \<le> slot_id (?ns' ! j) \<and> slot_id (?ns' ! j) < int (k + length (i # is))" if "j \<in> set (i # is)" "inner (ns ! j)" for j
      using that IH(4) [of j] ni by (cases "j = i") auto
    moreover have "?ns' ! j = ns ! j" if "j \<in> set (i # is)" "\<not> inner (ns ! j)" for j
      using that IH(5) [of j] True ne [of j] by (cases "j = i") (simp_all add: ns1_def)
    moreover have "slot_id (?ns' ! j) \<noteq> slot_id (?ns' ! l)"
      if "j \<in> set (i # is)" "l \<in> set (i # is)" "inner (ns ! j)" "inner (ns ! l)" "j \<noteq> l" for j l
      using that IH(6) [of j l] lt [of j] lt [of l] ni by (cases "j = i"; cases "l = i") auto
    ultimately show ?thesis unfolding r by blast
  qed
qed simp

section \<open>Execution\<close>

definition scalar_ok :: "Node list \<Rightarrow> nat \<Rightarrow> bool" where
  "scalar_ok ns i =
     (let n = ns ! i; k = kind n in
      (k = K_LOAD \<or> k = K_CONST) \<and> slot_id n < 0 \<and> left n = None \<and> right n = None \<or>
      (k = K_ADD \<or> k = K_SUB \<or> is_cmp_kind k) \<and> left n \<noteq> None \<and> right n \<noteq> None \<or>
      (k = K_AND \<or> k = K_OR) \<and> mask_node ns (left n) \<and> mask_node ns (right n) \<or>
      k = K_SELECT \<and> mask_node ns (cond n) \<and> left n \<noteq> None \<and> right n \<noteq> None)"

definition scalar_compiled :: "Node list \<Rightarrow> Node list \<Rightarrow> nat list \<Rightarrow> bool" where
  "scalar_compiled ns ns' all \<longleftrightarrow> pool_wf ns \<and> same_shape ns ns' \<and> distinct all \<and> ordered ns all \<and>
     (\<forall>i \<in> set all. i < length ns \<and> scalar_ok ns i \<and>
        (if inner (ns ! i) then 0 \<le> slot_id (ns' ! i) \<and> slot_id (ns' ! i) < int MAX_SLOTS else slot_id (ns' ! i) < 0)) \<and>
     (\<forall>i \<in> set all. \<forall>j \<in> set all. inner (ns ! i) \<longrightarrow> inner (ns ! j) \<longrightarrow> i \<noteq> j \<longrightarrow> slot_id (ns' ! i) \<noteq> slot_id (ns' ! j))"

definition scalar_fields_at ::
  "u64 \<Rightarrow> u64 \<Rightarrow> (u64 \<Rightarrow> u64) \<Rightarrow> Node list \<Rightarrow> nat list \<Rightarrow> (nat \<Rightarrow> string \<Rightarrow> u64) \<Rightarrow> bool" where
  "scalar_fields_at f s m ns' all env \<longleftrightarrow>
     (\<forall>i \<in> set all. kind (ns' ! i) = K_LOAD \<longrightarrow>
        op_area f s m (ns' ! i) \<inter> scratch_area s = {} \<and>
        (\<forall>r < 64. m (m (f + slot_offset (field_idx (ns' ! i))) + of_nat (r * 8)) = env r (field_name (ns' ! i))))"

definition row_inv ::
  "cpu \<Rightarrow> u64 \<Rightarrow> u64 \<Rightarrow> (u64 \<Rightarrow> u64) \<Rightarrow> Node list \<Rightarrow> Node list \<Rightarrow> (string \<Rightarrow> u64) \<Rightarrow> nat set \<Rightarrow> cpu \<Rightarrow> bool" where
  "row_inv c0 f s m ns ns' e done c \<longleftrightarrow>
     sp c = sp c0 \<and> regs c 19 = f \<and> regs c 20 = s \<and> regs c 21 = regs c0 21 \<and> regs c 22 = regs c0 22 \<and>
     (\<forall>a. a \<notin> scratch_area s \<longrightarrow> mem c a = m a) \<and>
     (\<forall>j \<in> done. inner (ns ! j) \<longrightarrow> mem c (slot_addr s (slot_id (ns' ! j))) = node_value ns e j)"

lemma row_inv_frame:
  "row_inv c0 f s m ns ns' e done c \<Longrightarrow> frame {5, 16, 17, 23} {} c c' \<Longrightarrow> row_inv c0 f s m ns ns' e done c'"
  using frame_empty_mem [of "{5, 16, 17, 23}" c c'] by (auto simp: row_inv_def frame_def)

lemma inner_shape: "same_shape ns ns' \<Longrightarrow> i < length ns \<Longrightarrow> inner (ns' ! i) = inner (ns ! i)"
  by (simp add: inner_def same_shape_sel)

lemma get_operand_exec:
  assumes "scalar_compiled ns ns' all" and "row_inv c0 f s m ns ns' (env r) done c" and "scalar_fields_at f s m ns' all env"
    and "j \<in> set all" and "j \<in> done" and "d \<in> {16, 17}" and "r < 64" and "regs c0 22 = of_nat r"
  defines "c' \<equiv> exec (get_operand ns' (Some j) (X d)) c"
  shows "regs c' d = node_value ns (env r) j \<and> frame {23, d} {} c c'"
proof -
  have sh: "same_shape ns ns'" and jl: "j < length ns" using assms(1,4) by (auto simp: scalar_compiled_def)
  note sel = same_shape_sel [OF sh jl]
  have p: "push_bit 3 (of_nat r :: u64) = of_nat (r * 8)" by (simp add: push_bit_eq_mult mult.commute)
  have d: "d \<noteq> 23" "d \<noteq> 22" "d \<noteq> 19" "d \<noteq> 20" using assms(6) by auto
  consider "kind (ns ! j) = K_LOAD" | "kind (ns ! j) = K_CONST" | "inner (ns ! j)" by (auto simp: inner_def)
  then show ?thesis
  proof cases
    case 1
    let ?a = "f + slot_offset (field_idx (ns' ! j))"
    have ar: "op_area f s m (ns' ! j) \<inter> scratch_area s = {}"
      and v: "m (m ?a + of_nat (r * 8)) = env r (field_name (ns' ! j))"
      using assms(3,4,7) 1 sel(1) by (auto simp: scalar_fields_at_def)
    have "?a \<in> op_area f s m (ns' ! j)" "m ?a + of_nat (r * 8) \<in> op_area f s m (ns' ! j)"
      using 1 sel(1) assms(7) by (auto simp: op_area_def read_area_def hoist_val_def)
    then have "mem c ?a = m ?a" "mem c (m ?a + of_nat (r * 8)) = m (m ?a + of_nat (r * 8))"
      using ar assms(2) unfolding row_inv_def by blast+
    moreover have "c' = c\<lparr>regs := (regs c)(23 := mem c ?a, d := mem c (mem c ?a + of_nat (r * 8)))\<rparr>"
      using 1 sel(1) assms(2,8) d p by (simp add: c'_def get_operand_def row_inv_def)
    moreover have "frame {23, d} {} c \<dots>" by (intro frame_updates same_outside_intros) simp_all
    ultimately show ?thesis using 1 v sel(6) by (simp add: node_value.simps [of ns _ j])
  next
    case 2
    then have "c' = c\<lparr>regs := (regs c)(d := const_value (ns ! j))\<rparr>"
      using sel by (simp add: c'_def get_operand_def)
    moreover have "frame {23, d} {} c \<dots>" by (intro frame_updates same_outside_intros) simp_all
    ultimately show ?thesis using 2 by (simp add: node_value.simps [of ns _ j])
  next
    case 3
    then have "c' = c\<lparr>regs := (regs c)(d := node_value ns (env r) j)\<rparr>"
      using sel assms(2,5) by (simp add: c'_def get_operand_def inner_def row_inv_def slot_addr_def)
    moreover have "frame {23, d} {} c \<dots>" by (intro frame_updates same_outside_intros) simp_all
    ultimately show ?thesis by simp
  qed
qed

lemma mask_val_simps [simp]: "mask_val True = 1" "mask_val False = 0"
  by (simp_all add: mask_val_def)

lemma mask_val_eq_1 [simp]: "mask_val b = 1 \<longleftrightarrow> b"
  by (cases b) simp_all

lemma node_op_mask: "is_mask_kind k \<Longrightarrow> node_op k q a b \<in> {0, 1}"
  by (auto simp: is_mask_kind_def node_op_def)

lemma node_value_mask:
  assumes "pool_wf ns" and "j < length ns" and "is_mask_kind (kind (ns ! j))"
  shows "node_value ns e j \<in> {0, 1}"
proof -
  have "kind (ns ! j) \<noteq> K_LOAD" "kind (ns ! j) \<noteq> K_CONST" using kind_cases(2) [OF assms(3)] by simp_all
  from node_value_inner [OF assms(1,2) this, of e] node_op_mask [OF assms(3)] show ?thesis by metis
qed

lemma mask_and_or:
  "x \<in> {0, 1} \<Longrightarrow> y \<in> {0, 1} \<Longrightarrow> x AND y = mask_val (x \<noteq> 0 \<and> y \<noteq> 0)"
  "x \<in> {0, 1} \<Longrightarrow> y \<in> {0, 1} \<Longrightarrow> x OR y = mask_val (x \<noteq> 0 \<or> y \<noteq> 0)"
  by auto

lemma scalar_op_exec:
  assumes "scalar_op ns' n = Some code" and "kind n \<in> {K_ADD, K_SUB, K_AND, K_OR, K_SELECT} \<or> is_cmp_kind (kind n)"
    and "regs c 20 = s" and "kind n \<in> {K_AND, K_OR} \<Longrightarrow> regs c 16 \<in> {0, 1} \<and> regs c 17 \<in> {0, 1}"
    and "kind n = K_SELECT \<Longrightarrow> \<exists>q. cond n = Some q \<and> mem c (slot_addr s (slot_id (ns' ! q))) = cv"
  shows "regs (exec code c) 5 = node_op (kind n) cv (regs c 16) (regs c 17) \<and> frame {5, 16, 17, 23} {} c (exec code c)"
proof -
  have fl: "frame R A c c'' \<Longrightarrow> frame R A c (c''\<lparr>flags := x\<rparr>)" for R A c'' x by (simp add: frame_def)
  have up: "frame {5, 16, 17, 23} {} c (c\<lparr>regs := (regs c)(5 := v)\<rparr>)" for v
    by (intro frame_updates same_outside_intros) simp_all
  have cmp: "frame {5, 16, 17, 23} {} c (c\<lparr>flags := x, regs := (regs c)(5 := v)\<rparr>)"
    "frame {5, 16, 17, 23} {} c (c\<lparr>flags := x, regs := (regs c)(23 := u, 5 := v)\<rparr>)" for x v u
    by (simp_all add: frame_def)
  consider "kind n = K_ADD" | "kind n = K_SUB" | "kind n = K_AND" | "kind n = K_OR" | "kind n = K_SELECT" | "kind n = K_GT"
    | "kind n = K_LT" | "kind n = K_GE" | "kind n = K_LE" | "kind n = K_EQ"
    using assms(2) by (auto simp: is_cmp_kind_def)
  then show ?thesis
  proof cases
    case 3
    then show ?thesis using assms(1,4) up mask_and_or(1) by (auto simp: scalar_op_def node_op_def)
  next
    case 4
    then show ?thesis using assms(1,4) up mask_and_or(2) by (auto simp: scalar_op_def node_op_def)
  next
    case 5
    then obtain q where "cond n = Some q" "mem c (slot_addr s (slot_id (ns' ! q))) = cv" using assms(5) by blast
    then show ?thesis using 5 assms(1,3) by (auto simp: scalar_op_def node_op_def slot_addr_def frame_def)
  qed (use assms(1) in \<open>auto simp: scalar_op_def node_op_def mask_val_def frame_def\<close>)
qed

lemma scalar_node_exec:
  assumes "scalar_compiled ns ns' all" and "row_inv c0 f s m ns ns' (env r) done c" and "scalar_fields_at f s m ns' all env"
    and "i \<in> set all" and "i \<notin> done" and "done \<subseteq> set all" and "set (children (ns ! i)) \<subseteq> done"
    and "r < 64" and "regs c0 22 = of_nat r" and "scalar_node ns' i = Some code"
  shows "row_inv c0 f s m ns ns' (env r) (insert i done) (exec code c) \<and>
    (inner (ns ! i) \<longrightarrow> regs (exec code c) 5 = node_value ns (env r) i)"
proof -
  have sc: "pool_wf ns" "same_shape ns ns'" "i < length ns" "scalar_ok ns i" using assms(1,4) by (auto simp: scalar_compiled_def)
  note sel = same_shape_sel [OF sc(2,3)]
  show ?thesis
  proof (cases "inner (ns ! i)")
    case False
    then have "slot_id (ns' ! i) < 0" using assms(1,4) by (auto simp: scalar_compiled_def)
    moreover have "left (ns ! i) = None" "right (ns ! i) = None" "kind (ns ! i) = K_LOAD \<or> kind (ns ! i) = K_CONST"
      using False sc(4) by (auto simp: scalar_ok_def Let_def inner_def is_cmp_kind_def)
    ultimately have "code = []" using assms(10) sel by (auto simp: scalar_node_def scalar_op_def get_operand_def Let_def)
    then show ?thesis using False assms(2) by (simp add: row_inv_def)
  next
    case True
    let ?n = "ns' ! i"
    have k: "kind ?n \<in> {K_ADD, K_SUB, K_AND, K_OR, K_SELECT} \<or> is_cmp_kind (kind ?n)"
      and lr: "left (ns ! i) \<noteq> None" "right (ns ! i) \<noteq> None"
      using True sc(4) sel(1) by (auto simp: scalar_ok_def Let_def inner_def mask_node_def split: option.splits)
    obtain l q where l: "left (ns ! i) = Some l" and q: "right (ns ! i) = Some q" using lr by blast
    then have d: "l \<in> done" "q \<in> done" "l \<in> set all" "q \<in> set all" using assms(6,7) by (auto simp: in_children)
    have sl: "0 \<le> slot_id ?n" "slot_id ?n < int MAX_SLOTS" using True assms(1,4) by (auto simp: scalar_compiled_def)
    obtain op where op: "scalar_op ns' ?n = Some op"
      "code = get_operand ns' (Some l) val_left @ get_operand ns' (Some q) val_right @ op @ [I_STR val_res (X 20) (slot_offset (slot_id ?n))]"
      using assms(10) sel l q sl by (auto simp: scalar_node_def Let_def split: option.splits)
    define c1 where "c1 = exec (get_operand ns' (Some l) val_left) c"
    define c2 where "c2 = exec (get_operand ns' (Some q) val_right) c1"
    define c3 where "c3 = exec op c2"
    have 1: "regs c1 16 = node_value ns (env r) l" "frame {23, 16} {} c c1"
      using get_operand_exec [OF assms(1-3) d(3,1) _ assms(8,9), of 16] by (simp_all add: c1_def)
    have i1: "row_inv c0 f s m ns ns' (env r) done c1" by (rule row_inv_frame [OF assms(2) frame_mono [OF 1(2)]]) simp_all
    have 2: "regs c2 17 = node_value ns (env r) q" "frame {23, 17} {} c1 c2"
      using get_operand_exec [OF assms(1) i1 assms(3) d(4,2) _ assms(8,9), of 17] by (simp_all add: c2_def)
    have i2: "row_inv c0 f s m ns ns' (env r) done c2" by (rule row_inv_frame [OF i1 frame_mono [OF 2(2)]]) simp_all
    have r2: "regs c2 16 = node_value ns (env r) l" "regs c2 20 = s"
      using frame_reg [OF 2(2)] 1(1) i2 by (simp_all add: row_inv_def)
    have masks: "regs c2 16 \<in> {0, 1} \<and> regs c2 17 \<in> {0, 1}" if "kind ?n \<in> {K_AND, K_OR}"
    proof -
      have "is_mask_kind (kind (ns ! l))" "is_mask_kind (kind (ns ! q))"
        using that sc(4) sel(1) l q by (auto simp: scalar_ok_def Let_def is_cmp_kind_def mask_node_def)
      moreover have "l < length ns" "q < length ns" using d assms(1) by (auto simp: scalar_compiled_def)
      ultimately show ?thesis using r2 2(1) node_value_mask [OF sc(1)] by metis
    qed
    define cv where "cv = (case cond (ns ! i) of None \<Rightarrow> 0 | Some j \<Rightarrow> node_value ns (env r) j)"
    have cnd: "\<exists>q. cond ?n = Some q \<and> mem c2 (slot_addr s (slot_id (ns' ! q))) = cv" if ks: "kind ?n = K_SELECT"
    proof -
      obtain j where j: "cond (ns ! i) = Some j" "is_mask_kind (kind (ns ! j))"
        using ks sc(4) sel(1) by (auto simp: scalar_ok_def Let_def is_cmp_kind_def mask_node_def split: option.splits)
      then have "j \<in> done" "inner (ns ! j)" using assms(7) kind_cases(2) by (auto simp: in_children inner_def)
      then show ?thesis using i2 j(1) sel(4) by (auto simp: row_inv_def cv_def)
    qed
    have 3: "regs c3 5 = node_op (kind ?n) cv (regs c2 16) (regs c2 17)" "frame {5, 16, 17, 23} {} c2 c3"
      using scalar_op_exec [OF op(1) k r2(2) masks cnd] by (simp_all add: c3_def)
    have i3: "row_inv c0 f s m ns ns' (env r) done c3" by (rule row_inv_frame [OF i2 3(2)])
    have v: "regs c3 5 = node_value ns (env r) i"
      using 3(1) r2(1) 2(1) node_value_inner [OF sc(1,3)] True l q sel(1) by (simp add: inner_def cv_def)
    have c4: "exec code c = st_mem (slot_addr s (slot_id ?n)) (node_value ns (env r) i) c3"
      using i3 v by (simp add: op(2) c1_def c2_def c3_def row_inv_def slot_addr_def)
    have ne: "slot_addr s (slot_id (ns' ! j)) \<noteq> slot_addr s (slot_id ?n)" if "j \<in> done" "inner (ns ! j)" for j
    proof -
      have "j \<noteq> i" "j \<in> set all" using that(1) assms(5,6) by auto
      then have "slot_id (ns' ! j) \<noteq> slot_id ?n" "0 \<le> slot_id (ns' ! j)" "slot_id (ns' ! j) < int MAX_SLOTS"
        using assms(1,4) True that(2) by (auto simp: scalar_compiled_def)
      then show ?thesis using sl by simp
    qed
    have "slot_addr s (slot_id ?n) \<in> scratch_area s" using sl by simp
    then show ?thesis using i3 v ne unfolding c4 by (auto simp: row_inv_def)
  qed
qed

lemma scalar_nodes_exec:
  assumes "scalar_compiled ns ns' all" and "scalar_fields_at f s m ns' all env" and "r < 64" and "regs c0 22 = of_nat r"
  shows "all = xs @ ys \<Longrightarrow> row_inv c0 f s m ns ns' (env r) (set xs) c \<Longrightarrow> scalar_nodes ns' ys = Some code \<Longrightarrow>
    row_inv c0 f s m ns ns' (env r) (set all) (exec code c) \<and>
    (\<forall>zs. ys = zs @ [i] \<longrightarrow> inner (ns ! i) \<longrightarrow> regs (exec code c) 5 = node_value ns (env r) i)"
proof (induction ys arbitrary: xs c code)
  case (Cons j ys)
  obtain a b where e: "scalar_node ns' j = Some a" "scalar_nodes ns' ys = Some b" "code = a @ b"
    using Cons.prems(3) by (auto split: option.splits)
  have o: "ordered ns all" "distinct all" using assms(1) by (simp_all add: scalar_compiled_def)
  have "all ! length xs = j" "take (length xs) all = xs" "length xs < length all" using Cons.prems(1) by simp_all
  then have ch: "set (children (ns ! j)) \<subseteq> set xs" using o(1) unfolding ordered_def by metis
  have jn: "j \<in> set all" "j \<notin> set xs" "set xs \<subseteq> set all" using o(2) Cons.prems(1) by auto
  note step = scalar_node_exec [OF assms(1) Cons.prems(2) assms(2) jn ch assms(3,4) e(1)]
  have r: "row_inv c0 f s m ns ns' (env r) (set (xs @ [j])) (exec a c)" using step by simp
  have al: "all = (xs @ [j]) @ ys" using Cons.prems(1) by simp
  show ?case
  proof (cases ys)
    case Nil
    with e step al show ?thesis by auto
  next
    case (Cons y ys')
    then show ?thesis using Cons.IH [OF al r e(2)] by (auto simp: e(3) Cons_eq_append_conv)
  qed
qed simp

section \<open>The loop over the rows\<close>

definition loop_inv :: "u64 \<Rightarrow> u64 \<Rightarrow> (u64 \<Rightarrow> u64) \<Rightarrow> cpu \<Rightarrow> bool" where
  "loop_inv f s m c \<longleftrightarrow> regs c 19 = f \<and> regs c 20 = s \<and> (\<forall>a. a \<notin> scratch_area s \<longrightarrow> mem c a = m a)"

lemma scalar_body_exec:
  assumes "scalar_compiled ns ns' all" and "scalar_fields_at f s m ns' all env" and "r < 64" and "regs c 22 = of_nat r"
    and "loop_inv f s m c" and "scalar_nodes ns' all = Some code" and "all = zs @ [root]" and "inner (ns ! root)"
  defines "c' \<equiv> exec (code @ scalar_tail) c"
  shows "loop_inv f s m c' \<and> regs c' 22 = of_nat (Suc r) \<and> regs c' 21 = regs c 21 OR push_bit r (node_value ns (env r) root)"
proof -
  have "row_inv c f s m ns ns' (env r) (set []) c" using assms(5) by (simp add: row_inv_def loop_inv_def)
  from scalar_nodes_exec [OF assms(1-4) _ this assms(6), of root] assms(7,8)
  have e: "row_inv c f s m ns ns' (env r) (set all) (exec code c)" "regs (exec code c) 5 = node_value ns (env r) root"
    by auto
  have u: "unat (of_nat r :: u64) mod 64 = r" using assms(3) by (simp add: unat_of_nat)
  show ?thesis using e assms(4) u by (simp add: c'_def scalar_tail_def loop_inv_def row_inv_def add.commute)
qed

lemma run_loop_exec:
  assumes "scalar_compiled ns ns' all" and "scalar_fields_at f s m ns' all env"
    and "scalar_nodes ns' all = Some code" and "all = zs @ [root]" and "is_mask_kind (kind (ns ! root))" and "root < length ns"
  shows "r + n = 64 \<Longrightarrow> regs c 22 = of_nat r \<Longrightarrow> loop_inv f s m c \<Longrightarrow>
    bit (regs (run_loop n (code @ scalar_tail) c) 21) q \<longleftrightarrow>
      bit (regs c 21) q \<or> (r \<le> q \<and> q < 64 \<and> node_value ns (env q) root \<noteq> 0)"
proof (induction n arbitrary: r c)
  case (Suc n)
  have r: "r < 64" using Suc.prems(1) by simp
  have inn: "inner (ns ! root)" using kind_cases(2) [OF assms(5)] by (simp add: inner_def)
  define c' where "c' = exec (code @ scalar_tail) c"
  note b = scalar_body_exec [OF assms(1,2) r Suc.prems(2,3) assms(3,4) inn, folded c'_def]
  have lt: "regs c 22 < 64"
  proof -
    have "unat (of_nat r :: u64) = r" using r by (simp add: unat_of_nat)
    then show ?thesis using r Suc.prems(2) by (simp add: word_less_nat_alt)
  qed
  have v: "node_value ns (env r) root \<in> {0, 1}"
    using assms(1) node_value_mask [OF _ assms(6,5)] by (simp add: scalar_compiled_def)
  have "bit (regs (run_loop n (code @ scalar_tail) c') 21) q \<longleftrightarrow>
      bit (regs c' 21) q \<or> (Suc r \<le> q \<and> q < 64 \<and> node_value ns (env q) root \<noteq> 0)"
    using b Suc.prems(1) by (intro Suc.IH) simp_all
  moreover have "bit (regs c' 21) q \<longleftrightarrow> bit (regs c 21) q \<or> (q = r \<and> node_value ns (env r) root \<noteq> 0)"
    using b v r by (auto simp: bit_or_iff bit_push_bit_iff bit_1_iff)
  ultimately show ?case using lt r by (auto simp: c'_def not_less_eq_eq le_less)
qed auto

lemma analyzer_last: "\<exists>zs. all_nodes (run_analyzer ns root) = zs @ [root]"
proof -
  have "all_nodes (finish_node i s) = all_nodes s @ [i]" for i s by (simp add: finish_node_def Let_def)
  then show ?thesis by (simp add: run_analyzer_def Let_def)
qed

text \<open>Up to 4096 nodes every offset can be encoded.\<close>

definition short_slots :: "Node list \<Rightarrow> nat list \<Rightarrow> bool" where
  "short_slots ns' all \<longleftrightarrow> (\<forall>i \<in> set all. slot_id (ns' ! i) < 4096 \<and>
     (kind (ns' ! i) = K_LOAD \<longrightarrow> 0 \<le> field_idx (ns' ! i) \<and> field_idx (ns' ! i) < 4096) \<and>
     (inner (ns' ! i) \<longrightarrow> 0 \<le> slot_id (ns' ! i)))"

lemma encodable_slot: "0 \<le> s \<Longrightarrow> s < 4096 \<Longrightarrow> encodable_offset (slot_offset s)"
proof -
  assume s: "0 \<le> s" "s < 4096"
  then have u: "uint (slot_offset s) = s * 8" by (simp add: slot_offset_def uint_word_ariths uint_word_of_int take_bit_int_eq_self_iff word_of_int_eq_iff)
  have "slot_offset s mod 8 = 0" by (rule word_uint_eqI) (simp add: uint_mod u)
  moreover have "slot_offset s \<le> 32760" unfolding word_le_def u using s by simp
  ultimately show ?thesis by (simp add: encodable_offset_def)
qed

lemma encodable_mov: "list_all encodable (emit_mov_imm64 d v)"
  by (simp add: emit_mov_imm64_def)

lemma encodable_operand: "short_slots ns' all \<Longrightarrow> (\<forall>j. p = Some j \<longrightarrow> j \<in> set all) \<Longrightarrow> list_all encodable (get_operand ns' p d)"
  by (cases p) (auto simp: get_operand_def Let_def short_slots_def inner_def encodable_mov intro!: encodable_slot)

lemma encodable_nodes:
  assumes "short_slots ns' all"
    and "\<And>i. i \<in> set is \<Longrightarrow> i \<in> set all \<and> set (children (ns' ! i)) \<subseteq> set all \<and> (kind (ns' ! i) = K_SELECT \<longrightarrow> mask_node ns' (cond (ns' ! i)))"
  shows "scalar_nodes ns' is = Some code \<Longrightarrow> list_all encodable code"
  using assms(2)
proof (induction "is" arbitrary: code)
  case (Cons i "is")
  obtain a b where ab: "scalar_node ns' i = Some a" "scalar_nodes ns' is = Some b" "code = a @ b"
    using Cons.prems(1) by (auto split: option.splits)
  have i: "i \<in> set all" "set (children (ns' ! i)) \<subseteq> set all" "kind (ns' ! i) = K_SELECT \<Longrightarrow> mask_node ns' (cond (ns' ! i))"
    using Cons.prems(2) [of i] by auto
  obtain op where op: "scalar_op ns' (ns' ! i) = Some op"
    and a: "a = get_operand ns' (left (ns' ! i)) val_left @ get_operand ns' (right (ns' ! i)) val_right @ op @
      (if 0 \<le> slot_id (ns' ! i) then [I_STR val_res (X 20) (slot_offset (slot_id (ns' ! i)))] else [])"
    using ab(1) by (auto simp: scalar_node_def Let_def split: option.splits)
  have "list_all encodable (get_operand ns' (left (ns' ! i)) val_left)" "list_all encodable (get_operand ns' (right (ns' ! i)) val_right)"
    using i(2) by (intro encodable_operand [OF assms(1)]; auto simp: in_children)+
  moreover have "list_all encodable op"
  proof (cases "kind (ns' ! i) = K_SELECT")
    case True
    then obtain q where q: "cond (ns' ! i) = Some q" "is_mask_kind (kind (ns' ! q))" using i(3) by (auto simp: mask_node_def split: option.splits)
    then have "q \<in> set all" "inner (ns' ! q)" using i(2) by (auto simp: in_children inner_def is_mask_kind_def)
    then show ?thesis using op True q(1) assms(1) by (auto simp: scalar_op_def short_slots_def intro!: encodable_slot)
  next
    case False
    then show ?thesis using op by (auto simp: scalar_op_def split: NodeKind.splits)
  qed
  moreover have "list_all encodable b" using Cons.IH [OF ab(2)] Cons.prems(2) by simp
  ultimately show ?case using ab(3) a i(1) assms(1) by (auto simp: short_slots_def intro!: encodable_slot)
qed simp

lemma encodable_tail: "list_all encodable scalar_tail"
  by (simp add: scalar_tail_def)

lemma filter_encodable: "list_all encodable xs \<Longrightarrow> filter encodable xs = xs"
  by (simp add: list_all_iff filter_id_conv)

lemma compile_scalar_ok:
  assumes "compile_scalar_expression True ns (Some root) = (ScalarKernel k, ns')" and "pool_wf ns" and "root < length ns"
    and "all = all_nodes (run_analyzer ns root)" and "list_all (scalar_ok ns) all" and "length all \<le> 4096"
  obtains code where "scalar_compiled ns ns' all" and "k = Loop scalar_prologue (code @ scalar_tail) scalar_epilogue"
    and "scalar_nodes ns' all = Some code"
proof -
  let ?ea = "run_analyzer ns root"
  note ana = run_analyzer_inv [OF assms(2,3)]
  have inv: "same_shape ns (ea_nodes ?ea)" "distinct all" "ordered ns all" "\<And>j. j \<in> set all \<Longrightarrow> j < length ns"
    using ana(1) assms(4) by (auto simp: ana_inv_def)
  obtain fs ns1 where f: "scalar_fields all [] (ea_nodes ?ea) = (fs, ns1)" by fastforce
  obtain code where s: "ns' = snd (scalar_slots all ((\<lambda>j. j < 0), ns1))" "scalar_nodes ns' all = Some code"
    "k = Loop scalar_prologue (filter encodable (code @ scalar_tail)) scalar_epilogue"
    using assms(1,4) f by (auto simp: compile_scalar_expression_def Let_def split: option.splits)
  have l: "length (ea_nodes ?ea) = length ns" using same_shape_length [OF inv(1)] .
  have F: "same_shape (ea_nodes ?ea) ns1" "fields_ok fs ns1 all" using scalar_fields_ok [OF f inv(2)] inv(4) l by auto
  have l1: "length ns1 = length ns" using same_shape_length [OF F(1)] l by simp
  have S: "same_shape ns1 ns'"
    "\<And>i. i \<in> set all \<Longrightarrow> inner (ns1 ! i) \<Longrightarrow> 0 \<le> slot_id (ns' ! i) \<and> slot_id (ns' ! i) < 4096"
    "\<And>i j. i \<in> set all \<Longrightarrow> j \<in> set all \<Longrightarrow> inner (ns1 ! i) \<Longrightarrow> inner (ns1 ! j) \<Longrightarrow> i \<noteq> j \<Longrightarrow> slot_id (ns' ! i) \<noteq> slot_id (ns' ! j)"
    "\<And>i. i < length ns1 \<Longrightarrow> field_idx (ns' ! i) = field_idx (ns1 ! i)"
  proof -
    have "\<forall>i \<in> set all. i < length ns1" "0 + length all \<le> MAX_SLOTS" using inv(4) l1 assms(6) by (simp_all add: MAX_SLOTS_def)
    note S0 = scalar_slots_ok [OF inv(2) this, folded s(1)]
    show "same_shape ns1 ns'" using S0 by (rule conjunct1)
    show "0 \<le> slot_id (ns' ! i) \<and> slot_id (ns' ! i) < 4096" if "i \<in> set all" "inner (ns1 ! i)" for i
    proof -
      have "0 \<le> slot_id (ns' ! i)" "slot_id (ns' ! i) < int (length all)" using S0 that by simp_all
      then show ?thesis using assms(6) by linarith
    qed
    show "slot_id (ns' ! i) \<noteq> slot_id (ns' ! j)" if "i \<in> set all" "j \<in> set all" "inner (ns1 ! i)" "inner (ns1 ! j)" "i \<noteq> j" for i j
      using S0 that by blast
    show "field_idx (ns' ! i) = field_idx (ns1 ! i)" if "i < length ns1" for i using S0 that by blast
  qed
  have sh1: "same_shape ns ns1" using same_shape_trans [OF inv(1) F(1)] .
  have sh: "same_shape ns ns'" using same_shape_trans [OF sh1 S(1)] .
  have inn: "inner (ns1 ! i) = inner (ns ! i)" if "i \<in> set all" for i using inner_shape [OF sh1] inv(4) that by blast
  have leaf: "slot_id (ns' ! i) < 0" if "i \<in> set all" "\<not> inner (ns ! i)" for i
    using same_shape_sel(11) [OF sh inv(4) [OF that(1)]] that assms(5)
    by (auto simp: inner_def list_all_iff scalar_ok_def Let_def is_cmp_kind_def)
  have "scalar_compiled ns ns' all"
    unfolding scalar_compiled_def using assms(2,5) sh inv S(2,3) inn leaf by (fastforce simp: list_all_iff MAX_SLOTS_def)
  moreover have "filter encodable (code @ scalar_tail) = code @ scalar_tail"
  proof -
    have "length fs \<le> 4096" using scalar_fields_length [OF f] assms(6) by simp
    moreover have "kind (ns' ! i) = kind (ns1 ! i)" "field_idx (ns' ! i) = field_idx (ns1 ! i)" if "i \<in> set all" for i
      using same_shape_sel(1) [OF S(1)] S(4) inv(4) [OF that] l1 by simp_all
    ultimately have "0 \<le> field_idx (ns' ! i) \<and> field_idx (ns' ! i) < 4096" if "i \<in> set all" "kind (ns' ! i) = K_LOAD" for i
      using F(2) that by (fastforce simp: fields_ok_def)
    moreover have "inner (ns' ! i) = inner (ns ! i)" if "i \<in> set all" for i using inner_shape [OF sh] inv(4) that by blast
    ultimately have sl: "short_slots ns' all" using S(2) inn leaf by (fastforce simp: short_slots_def)
    have "i \<in> set all \<and> set (children (ns' ! i)) \<subseteq> set all \<and> (kind (ns' ! i) = K_SELECT \<longrightarrow> mask_node ns' (cond (ns' ! i)))"
      if i: "i \<in> set all" for i
    proof -
      note sel = same_shape_sel [OF sh inv(4) [OF i]]
      have ch: "set (children (ns ! i)) \<subseteq> set all"
        using inv(3) i unfolding ordered_def by (metis in_set_conv_nth set_take_subset subset_trans)
      moreover have "mask_node ns (cond (ns ! i))" if "kind (ns ! i) = K_SELECT"
        using assms(5) i that by (auto simp: list_all_iff scalar_ok_def Let_def is_cmp_kind_def)
      then have "mask_node ns' (cond (ns ! i))" if "kind (ns ! i) = K_SELECT"
        using that ch same_shape_sel(1) [OF sh] inv(4) by (auto simp: mask_node_def in_children split: option.splits)
      ultimately show ?thesis using i sel by auto
    qed
    from encodable_nodes [OF sl this s(2)] encodable_tail show ?thesis by (simp only: filter_append filter_encodable)
  qed
  ultimately show thesis using that s by metis
qed

lemma scalar_fields_at_mem:
  assumes "scalar_fields_at f s m ns' all env" and "\<And>a. a \<notin> T \<Longrightarrow> m' a = m a"
    and "\<And>i. i \<in> set all \<Longrightarrow> kind (ns' ! i) = K_LOAD \<Longrightarrow> op_area f s m (ns' ! i) \<inter> T = {}"
  shows "scalar_fields_at f s m' ns' all env"
  unfolding scalar_fields_at_def
proof (intro ballI impI conjI allI)
  fix i r assume i: "i \<in> set all" "kind (ns' ! i) = K_LOAD"
  let ?a = "f + slot_offset (field_idx (ns' ! i))"
  have same: "m' x = m x" if "x \<in> op_area f s m (ns' ! i)" for x using assms(2) assms(3) [OF i] that by blast
  have "op_reads f s m (ns' ! i) (\<lambda>b. m (m ?a + of_nat (b * 8)))" using i(2) by (simp add: op_reads_def reads_def hoist_val_def)
  note om = op_reads_mem [OF this same]
  show "op_area f s m' (ns' ! i) \<inter> scratch_area s = {}" using om(2) assms(1) i by (auto simp: scalar_fields_at_def)
  have "m' ?a = m ?a" using om(3) i(2) by (simp add: hoist_val_def)
  moreover have "m' (m ?a + of_nat (r * 8)) = m (m ?a + of_nat (r * 8))" if "r < 64"
    using i(2) that by (intro same) (auto simp: op_area_def read_area_def hoist_val_def)
  ultimately show "m' (m' ?a + of_nat (r * 8)) = env r (field_name (ns' ! i))" if "r < 64"
    using assms(1) i that by (auto simp: scalar_fields_at_def)
qed

lemma scalar_prologue_exec:
  fixes c :: cpu
  defines "c1 \<equiv> exec scalar_prologue c"
  shows "regs c1 19 = regs c 0" "regs c1 20 = regs c 1" "regs c1 21 = 0" "regs c1 22 = 0"
    "\<And>a. a \<notin> stack_area (sp c) \<Longrightarrow> mem c1 a = mem c a"
  by (simp_all add: c1_def scalar_prologue_def Let_def stack_slot sub_shift)

lemma scalar_epilogue_exec: "regs (exec scalar_epilogue c) 0 = regs c 21"
  by (simp add: scalar_epilogue_def)

lemma scalar_kernel_run:
  assumes "compile_scalar_expression True ns (Some root) = (ScalarKernel k, ns')" and "pool_wf ns" and "root < length ns"
    and "all = all_nodes (run_analyzer ns root)" and "list_all (scalar_ok ns) all" and "length all \<le> 4096"
    and "is_mask_kind (kind (ns ! root))" and "scalar_fields_at (regs c 0) (regs c 1) (mem c) ns' all env"
    and "stack_apart (sp c) (regs c 0) (regs c 1) (mem c) ns' all" and "r < 64"
  shows "bit (regs (run_kernel k c) 0) r \<longleftrightarrow> node_value ns (env r) root \<noteq> 0"
proof -
  obtain code where C: "scalar_compiled ns ns' all" "k = Loop scalar_prologue (code @ scalar_tail) scalar_epilogue"
    "scalar_nodes ns' all = Some code"
    using compile_scalar_ok [OF assms(1-6)] by blast
  obtain zs where zs: "all = zs @ [root]" using analyzer_last assms(4) by blast
  define c1 where "c1 = exec scalar_prologue c"
  note p = scalar_prologue_exec [where c = c, folded c1_def]
  have fa: "scalar_fields_at (regs c 0) (regs c 1) (mem c1) ns' all env"
    using assms(9) unfolding stack_apart_def by (intro scalar_fields_at_mem [OF assms(8) p(5)]) blast+
  have "loop_inv (regs c 0) (regs c 1) (mem c1) c1" using p by (simp add: loop_inv_def)
  from run_loop_exec [OF C(1) fa C(3) zs assms(7,3), of 0 64 c1 r] p this assms(10)
  show ?thesis by (simp add: C(2) c1_def [symmetric] scalar_epilogue_exec)
qed

text \<open>
  Claim C10. The scalar compiler is correct on the kinds of node it has code for: the loop
  \<open>compile_scalar_expression\<close> emits for a well-formed boolean expression of at most 4096 nodes over fields,
  constants, ADD, SUB, comparisons, AND, OR of masks and SELECT by a mask (not NOT, MUL, shifts or SUM,
  for which no instruction is emitted) returns in x0 the mask of exactly the rows on which the expression is
  true.
\<close>

theorem scalar_kernel_correct:
  assumes "compile_scalar_expression True ns (Some root) = (ScalarKernel k, ns')" and "pool_wf ns" and "root < length ns"
    and "list_all (scalar_ok ns) (all_nodes (run_analyzer ns root))"
    and "length (all_nodes (run_analyzer ns root)) \<le> 4096" and "is_mask_kind (kind (ns ! root))"
    and "scalar_fields_at (regs c 0) (regs c 1) (mem c) ns' (all_nodes (run_analyzer ns root)) env"
    and "stack_apart (sp c) (regs c 0) (regs c 1) (mem c) ns' (all_nodes (run_analyzer ns root))" and "r < 64"
  shows "bit (regs (run_kernel k c) 0) r \<longleftrightarrow> node_value ns (env r) root \<noteq> 0"
  by (rule scalar_kernel_run [OF assms(1-3) refl assms(4-9)])

lemma ex_scalar_compiles:
  "\<exists>k. compile_scalar_expression True ex_nodes (Some 2) = (ScalarKernel k,
     [Node_new\<lparr>kind := K_LOAD, field_name := ''a'', active_bits := 64, field_idx := 0\<rparr>,
      Node_new\<lparr>kind := K_CONST, const_value := 5, active_bits := 3\<rparr>,
      Node_new\<lparr>kind := K_GT, result_kind := BITMASK, left := Some 0, right := Some 1, active_bits := 10, slot_id := 0\<rparr>])"
  by (simp add: compile_scalar_expression_def ex_analysis Let_def alloc_slot_def first_free.simps [of _ 0] MAX_SLOTS_def
      Node_new_def scalar_node_def scalar_op_def)

theorem scalar_kernel_correct_witness:
  "\<exists>k ns'. compile_scalar_expression True ex_nodes (Some 2) = (ScalarKernel k, ns') \<and>
     bit (regs (run_kernel k ex_cpu) 0) 1 \<and> \<not> bit (regs (run_kernel k ex_cpu) 0) 3"
proof -
  obtain k ns' where c: "compile_scalar_expression True ex_nodes (Some 2) = (ScalarKernel k, ns')"
    and ns': "ns' = [Node_new\<lparr>kind := K_LOAD, field_name := ''a'', active_bits := 64, field_idx := 0\<rparr>,
      Node_new\<lparr>kind := K_CONST, const_value := 5, active_bits := 3\<rparr>,
      Node_new\<lparr>kind := K_GT, result_kind := BITMASK, left := Some 0, right := Some 1, active_bits := 10, slot_id := 0\<rparr>]"
    using ex_scalar_compiles by auto
  define env where "env = (\<lambda>(r :: nat) (n :: string). if r < 3 then NOT 0 else 0 :: u64)"
  note o = ex_fields [OF refl]
  have ld: "op_area 0x100 0x10000 ex_mem (ns' ! 0) = op_area 0x100 0x10000 ex_mem
      (Node_new\<lparr>kind := K_LOAD, field_name := ''a'', active_bits := 64, field_idx := 0\<rparr>)" by (simp add: ns')
  have "list_all (\<lambda>r. ex_mem (0x1000 + of_nat (r * 8)) = env r []) [0..<64]" unfolding env_def by code_simp
  then have v: "ex_mem (0x1000 + of_nat (r * 8)) = env r n" if "r < 64" for r n
    using that by (simp add: list_all_iff env_def)
  have m: "ex_mem 0x100 = 0x1000" by (simp add: ex_mem_def)
  have "scalar_fields_at 0x100 0x10000 ex_mem ns' [0, 1, 2] env"
    using o(1) v m by (simp add: scalar_fields_at_def fields_at_def ns' slot_offset_def Node_new_def)
  moreover have "stack_apart 0x100000 0x100 0x10000 ex_mem ns' [0, 1, 2]"
    using o(2) by (simp add: stack_apart_def ns' Node_new_def)
  moreover have "list_all (scalar_ok ex_nodes) [0, 1, 2]" by code_simp
  ultimately have "bit (regs (run_kernel k ex_cpu) 0) r \<longleftrightarrow> node_value ex_nodes (env r) 2 \<noteq> 0" if "r < 64" for r
    using scalar_kernel_correct [of ex_nodes 2 k ns' ex_cpu env r] c ex_wf that
    by (simp add: ex_analysis ex_cpu_def MAX_SLOTS_def) (simp add: ex_nodes_def)
  moreover have "node_value ex_nodes (env 1) 2 \<noteq> 0" "node_value ex_nodes (env 3) 2 = 0" unfolding env_def by code_simp+
  ultimately show ?thesis using c by auto
qed

end
