(* ===== verification/Apex_Engine.thy ===== *)
theory Apex_Engine
  imports Jit_Scalar Jit_Comparison Byte_Codec
begin

text \<open>
  The vector engine (\<open>src/core/registry.cpp\<close>, \<open>src/api/engine.cpp\<close>): schemas,
  compiled logic, the gathering and slicing of the columns of a batch, the call of the kernel on every
  64 rows and the aggregation of its results. Rows are the bytes of the caller's array. Standard
  library and runtime behaviour the engine depends on is the argument \<open>platform\<close>: which entry an
  unordered map yields first, the vector width, the addresses of the engine's objects, the outcome of
  allocation and of adding code to the runtime. The build without Metal is modelled.
\<close>

section \<open>Schemas\<close>

datatype DataType = UINT64 | INT64 | UINT32 | INT32 | FLOAT64

record FieldDescriptor =
  fd_name :: string
  fd_offset :: u32
  fd_bit_width :: u32
  fd_type :: DataType

type_synonym FieldMap = "string \<rightharpoonup> FieldDescriptor"
type_synonym SchemaRegistry = "string \<rightharpoonup> FieldMap"

text \<open>\<open>emplace\<close> keeps an entry that is already there.\<close>

definition emplace :: "'k \<Rightarrow> 'v \<Rightarrow> ('k \<rightharpoonup> 'v) \<Rightarrow> 'k \<rightharpoonup> 'v" where
  "emplace k v m = (case m k of None \<Rightarrow> m(k \<mapsto> v) | Some _ \<Rightarrow> m)"

definition registry_register :: "string \<Rightarrow> FieldDescriptor list \<Rightarrow> SchemaRegistry \<Rightarrow> SchemaRegistry" where
  "registry_register schema_name fs reg =
     emplace schema_name (fold (\<lambda>f. emplace (fd_name f) f) fs Map.empty) reg"

definition get_field :: "SchemaRegistry \<Rightarrow> string \<Rightarrow> string \<Rightarrow> FieldDescriptor option" where
  "get_field reg schema_name name = (case reg schema_name of None \<Rightarrow> None | Some fm \<Rightarrow> fm name)"

definition has_schema :: "SchemaRegistry \<Rightarrow> string \<Rightarrow> bool" where
  "has_schema reg schema_name \<longleftrightarrow> reg schema_name \<noteq> None"

section \<open>State\<close>

datatype ExecutionMode = BIT_SLICED | SCALAR | GPU_THROUGHPUT

record SchemaMetadata =
  sm_row_stride :: nat
  sm_fields :: "FieldDescriptor list"

record CompiledLogic =
  cl_field :: FieldDescriptor
  cl_kernel :: "instr list option"

record ExprCompiledLogic =
  el_kernel :: ExprKernel
  el_fields :: "FieldDescriptor option list"
  el_mode :: ExecutionMode
  el_result_kind :: ResultKind
  el_base_sum :: u64
  el_delta_weights :: "u64 list"
  el_masks :: "int list"
  el_active_bits :: nat

record ApexEngine =
  registry :: SchemaRegistry
  schema_metadata :: "string \<rightharpoonup> SchemaMetadata"
  compiled_logic :: "(string \<times> CompiledLogic) list"
  expr_logic :: "(string \<times> ExprCompiledLogic) list"
  field_buffers :: "u64 list list"
  num_threads :: int

record platform =
  pf_lanes :: "nat \<Rightarrow> nat"
  pf_begin :: "string list \<Rightarrow> string"
  pf_layout :: layout
  pf_add_ok :: bool
  pf_malloc_ok :: bool

definition platform_ok :: "platform \<Rightarrow> bool" where
  "platform_ok pf \<longleftrightarrow> lanes_ok (pf_lanes pf) \<and> layout_ok (pf_layout pf) 128 128 32768 \<and> pf_add_ok pf \<and> pf_malloc_ok pf"

text \<open>
  The constructor: four threads, or the performance cores (\<open>perf_cores\<close>, Apple only), or the
  positive number in \<open>APEX_THREADS\<close>. The buffers are not initialised; their contents are an
  argument.
\<close>

definition ApexEngine_new :: "int option \<Rightarrow> int option \<Rightarrow> u64 list list \<Rightarrow> ApexEngine" where
  "ApexEngine_new perf_cores env_threads bufs =
     (let n = (case perf_cores of Some p \<Rightarrow> p | None \<Rightarrow> 4);
          n = (case env_threads of Some count \<Rightarrow> if count > 0 then count else n | None \<Rightarrow> n)
      in \<lparr>registry = Map.empty, schema_metadata = Map.empty, compiled_logic = [], expr_logic = [],
          field_buffers = bufs, num_threads = n\<rparr>)"

definition set_thread_count :: "int \<Rightarrow> ApexEngine \<Rightarrow> ApexEngine" where
  "set_thread_count count e = e\<lparr>num_threads := count\<rparr>"

definition update_alist :: "'k \<Rightarrow> 'v \<Rightarrow> ('k \<times> 'v) list \<Rightarrow> ('k \<times> 'v) list" where
  "update_alist k v xs = (if k \<in> set (map fst xs) then map (\<lambda>(a, b). if a = k then (a, v) else (a, b)) xs else xs @ [(k, v)])"

definition register_schema :: "string \<Rightarrow> FieldDescriptor list \<Rightarrow> nat \<Rightarrow> ApexEngine \<Rightarrow> ApexEngine" where
  "register_schema schema_name fs total_row_stride e =
     e\<lparr>registry := registry_register schema_name fs (registry e),
       schema_metadata := (schema_metadata e)(schema_name \<mapsto> \<lparr>sm_row_stride = total_row_stride, sm_fields = fs\<rparr>)\<rparr>"

definition set_logic :: "platform \<Rightarrow> string \<Rightarrow> string \<Rightarrow> u64 \<Rightarrow> ApexEngine \<Rightarrow> ApexEngine" where
  "set_logic pf schema_name name threshold e =
     (case get_field (registry e) schema_name name of None \<Rightarrow> e
      | Some f \<Rightarrow> e\<lparr>compiled_logic := update_alist schema_name
          \<lparr>cl_field = f, cl_kernel = compile_comparison (pf_add_ok pf) threshold\<rparr> (compiled_logic e)\<rparr>)"

section \<open>Compiling an expression\<close>

text \<open>\<open>ADD(SUM ..., CONST)\<close>; the source dereferences the operands of an ADD, so a missing one is
  undefined (\<open>None\<close>).\<close>

definition sum_plus_const :: "Node list \<Rightarrow> nat \<Rightarrow> bool option" where
  "sum_plus_const ns i =
     (let n = ns ! i in
      if kind n \<noteq> K_ADD then Some False
      else case left n of None \<Rightarrow> None
        | Some l \<Rightarrow>
            if kind (ns ! l) \<noteq> K_SUM then Some False
            else case right n of None \<Rightarrow> None | Some r \<Rightarrow> Some (kind (ns ! r) = K_CONST))"

definition set_skip :: "bool \<Rightarrow> nat \<Rightarrow> Node list \<Rightarrow> Node list" where
  "set_skip b i ns = ns[i := (ns ! i)\<lparr>skip_jit := b\<rparr>]"

definition mark_sum :: "nat \<Rightarrow> Node list \<Rightarrow> Node list" where
  "mark_sum i ns =
     (if kind (ns ! i) = K_SUM
      then fold (\<lambda>j ns. if kind (ns ! j) = K_SELECT then set_skip True j ns else ns) (operands (ns ! i)) (set_skip True i ns)
      else ns)"

primrec reset_skip_jit :: "nat \<Rightarrow> nat option \<Rightarrow> Node list \<Rightarrow> Node list" where
  "reset_skip_jit 0 = (\<lambda>n ns. ns)"
| "reset_skip_jit (Suc fuel) = (\<lambda>n ns.
     case n of None \<Rightarrow> ns
     | Some i \<Rightarrow>
         let ns = set_skip False i ns;
             ns = reset_skip_jit fuel (left (ns ! i)) ns;
             ns = reset_skip_jit fuel (right (ns ! i)) ns;
             ns = reset_skip_jit fuel (cond (ns ! i)) ns
         in fold (\<lambda>j. reset_skip_jit fuel (Some j)) (operands (ns ! i)) ns)"

definition mark_skip :: "ExecutionMode \<Rightarrow> nat \<Rightarrow> Node list \<Rightarrow> Node list option" where
  "mark_skip mode root ns =
     (case mode of
        BIT_SLICED \<Rightarrow>
          (case sum_plus_const ns root of None \<Rightarrow> None
           | Some True \<Rightarrow>
               Some (mark_sum (the (left (ns ! root))) (set_skip True (the (right (ns ! root))) (set_skip True root ns)))
           | Some False \<Rightarrow> Some (mark_sum root ns))
      | SCALAR \<Rightarrow> Some ns
      | GPU_THROUGHPUT \<Rightarrow> Some (reset_skip_jit (Suc (length ns)) (Some root) ns))"

text \<open>The depth-first walk that fills the field table; the depth is bounded by the number of nodes.\<close>

primrec collect_fields ::
  "nat \<Rightarrow> SchemaRegistry \<Rightarrow> string \<Rightarrow> Node list \<Rightarrow> nat option \<Rightarrow> FieldDescriptor option list \<Rightarrow> FieldDescriptor option list" where
  "collect_fields 0 reg schema_name ns = (\<lambda>node fs. fs)"
| "collect_fields (Suc fuel) reg schema_name ns = (\<lambda>node fs.
     case node of None \<Rightarrow> fs
     | Some i \<Rightarrow>
         let n = ns ! i;
             fs = (if kind n = K_LOAD \<and> 0 \<le> field_idx n \<and> field_idx n < 128
                   then (case get_field reg schema_name (field_name n) of
                           Some f \<Rightarrow> fs[nat (field_idx n) := Some f] | None \<Rightarrow> fs)
                   else fs);
             fs = collect_fields fuel reg schema_name ns (left n) fs;
             fs = collect_fields fuel reg schema_name ns (right n) fs;
             fs = collect_fields fuel reg schema_name ns (cond n) fs
         in fold (\<lambda>j. collect_fields fuel reg schema_name ns (Some j)) (operands n) fs)"

definition trim_fields :: "FieldDescriptor option list \<Rightarrow> FieldDescriptor option list" where
  "trim_fields fs = rev (dropWhile (\<lambda>f. f = None) (rev fs))"

text \<open>Slots and weights of a SUM; a SELECT operand without a condition is undefined.\<close>

definition const_or :: "Node list \<Rightarrow> nat option \<Rightarrow> u64 \<Rightarrow> u64" where
  "const_or ns p d = (case p of Some i \<Rightarrow> if kind (ns ! i) = K_CONST then const_value (ns ! i) else d | None \<Rightarrow> d)"

definition sum_operand ::
  "Node list \<Rightarrow> nat \<Rightarrow> (u64 \<times> u64 list \<times> int list) option \<Rightarrow> (u64 \<times> u64 list \<times> int list) option" where
  "sum_operand ns j acc =
     (case acc of None \<Rightarrow> None
      | Some (base_sum, ws, ms) \<Rightarrow>
          let op = ns ! j in
          if kind op = K_SELECT
          then (case cond op of None \<Rightarrow> None
                | Some q \<Rightarrow>
                    let right_val = const_or ns (right op) 0 in
                    Some (base_sum + right_val, ws @ [const_or ns (left op) (of_int (weight op)) - right_val],
                          ms @ [slot_id (ns ! q)]))
          else Some (base_sum, ws @ [of_int (weight op)], ms @ [slot_id op]))"

definition sum_metadata :: "Node list \<Rightarrow> nat \<Rightarrow> (u64 \<times> u64 list \<times> int list) option" where
  "sum_metadata ns root =
     (case sum_plus_const ns root of None \<Rightarrow> None
      | Some b \<Rightarrow>
          let base_sum = (if b then const_value (ns ! the (right (ns ! root))) else 0);
              i = (if b then the (left (ns ! root)) else root)
          in if kind (ns ! i) = K_SUM then fold (sum_operand ns) (operands (ns ! i)) (Some (base_sum, [], []))
             else Some (base_sum, [], []))"

datatype kernel_outcome = KernelOk ExprKernel | KernelNull | KernelUndefined

definition compile_kernel :: "platform \<Rightarrow> ExecutionMode \<Rightarrow> Node list \<Rightarrow> nat \<Rightarrow> kernel_outcome \<times> Node list" where
  "compile_kernel pf mode ns root =
     (if mode = SCALAR
      then (case compile_scalar_expression (pf_add_ok pf) ns (Some root) of
              (ScalarKernel k, ns) \<Rightarrow> (KernelOk k, ns) | (ScalarNull, ns) \<Rightarrow> (KernelNull, ns)
            | (ScalarUndefined, ns) \<Rightarrow> (KernelUndefined, ns))
      else (case compile_expression (pf_add_ok pf) 64 ns (Some root) of
              (Kernel code, ns) \<Rightarrow> (KernelOk (Straight code), ns) | (Nullptr, ns) \<Rightarrow> (KernelNull, ns)
            | (Undefined, ns) \<Rightarrow> (KernelUndefined, ns)))"

text \<open>
  \<open>set_expression\<close> on the engine and the node pool. Active bits are always 64. The Metal source of
  the GPU mode is not part of the state here.
\<close>

definition set_expression ::
  "platform \<Rightarrow> string \<Rightarrow> nat option \<Rightarrow> ExecutionMode \<Rightarrow> ApexEngine \<times> Node list \<Rightarrow> (ApexEngine \<times> Node list) option" where
  "set_expression pf schema_name expr_root mode st =
     (case expr_root of None \<Rightarrow> Some st
      | Some root \<Rightarrow>
        case st of (e, ns) \<Rightarrow>
        case mark_skip mode root ns of None \<Rightarrow> None
        | Some ns \<Rightarrow>
          case compile_kernel pf mode ns root of
            (KernelUndefined, _) \<Rightarrow> None
          | (KernelNull, ns) \<Rightarrow> Some (e, ns)
          | (KernelOk kn, ns) \<Rightarrow>
              let fs = trim_fields (collect_fields (Suc (length ns)) (registry e) schema_name ns (Some root) (replicate 128 None))
              in case sum_metadata ns root of None \<Rightarrow> None
                 | Some (base_sum, ws, ms) \<Rightarrow>
                     Some (e\<lparr>expr_logic := update_alist schema_name
                       \<lparr>el_kernel = kn, el_fields = fs, el_mode = mode, el_result_kind = result_kind (ns ! root),
                        el_base_sum = base_sum, el_delta_weights = ws, el_masks = ms, el_active_bits = 64\<rparr> (expr_logic e)\<rparr>, ns))"

section \<open>Executing a batch\<close>

definition read64 :: "u8 list \<Rightarrow> nat \<Rightarrow> u64" where
  "read64 data off = le_word (take 8 (drop off data))"

text \<open>
  The engine does not know the length of the caller's array: it reads eight bytes of every installed field
  in every row, whatever the type and the width of the field. A read past the end is undefined, and so is
  the call (\<open>None\<close> below). The last row reaches furthest.
\<close>

definition rows_readable :: "FieldDescriptor option list \<Rightarrow> nat \<Rightarrow> nat \<Rightarrow> u8 list \<Rightarrow> bool" where
  "rows_readable fs row_stride row_count data \<longleftrightarrow> row_count = 0 \<or>
     list_all (\<lambda>f. case f of None \<Rightarrow> True
       | Some f \<Rightarrow> (row_count - 1) * row_stride + unat (fd_offset f) + 8 \<le> length data) fs"

definition gather_field :: "u8 list \<Rightarrow> nat \<Rightarrow> FieldDescriptor \<Rightarrow> nat \<Rightarrow> nat \<Rightarrow> u64 list" where
  "gather_field data base f row_stride row_count =
     map (\<lambda>i. if i < min row_count 64 then read64 data (base + i * row_stride + unat (fd_offset f)) else 0) [0..<64]"

definition use_simd_5 :: "FieldDescriptor option list \<Rightarrow> bool" where
  "use_simd_5 fs \<longleftrightarrow> 5 \<le> length fs \<and>
     list_all (\<lambda>i. case fs ! i of None \<Rightarrow> False | Some f \<Rightarrow> unat (fd_offset f) = 8 * i) [0..<5]"

text \<open>The vector path of the first five fields: rows past the end keep what the buffer held.\<close>

definition simd_column :: "u8 list \<Rightarrow> nat \<Rightarrow> nat \<Rightarrow> nat \<Rightarrow> nat \<Rightarrow> u64 list \<Rightarrow> u64 list" where
  "simd_column data base row_stride row_count i old =
     map (\<lambda>r. if r < row_count then read64 data (base + r * row_stride + 8 * i) else old ! r) [0..<64]"

definition slice_column :: "platform \<Rightarrow> ExprCompiledLogic \<Rightarrow> u64 list \<Rightarrow> u64 list" where
  "slice_column pf el col = (if el_mode el = BIT_SLICED then slice_n (pf_lanes pf) col (el_active_bits el) else col)"

definition fill_buffer ::
  "platform \<Rightarrow> ExprCompiledLogic \<Rightarrow> u8 list \<Rightarrow> nat \<Rightarrow> nat \<Rightarrow> nat \<Rightarrow> u64 list list \<Rightarrow> nat \<Rightarrow> u64 list" where
  "fill_buffer pf el data base row_stride row_count bufs i =
     (if i < length (el_fields el)
      then if use_simd_5 (el_fields el) \<and> i < 5
           then slice_column pf el (simd_column data base row_stride row_count i (bufs ! i))
           else (case el_fields el ! i of
                   None \<Rightarrow> bufs ! i
                 | Some f \<Rightarrow> slice_column pf el (gather_field data base f row_stride row_count))
      else bufs ! i)"

definition plane_ptr :: "platform \<Rightarrow> ExprCompiledLogic \<Rightarrow> nat \<Rightarrow> u64" where
  "plane_ptr pf el i =
     (if i < length (el_fields el) \<and> el_fields el ! i \<noteq> None then la_buffers (pf_layout pf) + of_nat (512 * i) else 0)"

definition process_chunk_expr ::
  "platform \<Rightarrow> u8 list \<Rightarrow> nat \<Rightarrow> nat \<Rightarrow> nat \<Rightarrow> ExprCompiledLogic \<Rightarrow> u64 list \<Rightarrow> u64 list list \<Rightarrow>
   (u64 \<times> u64 list) \<times> u64 list list" where
  "process_chunk_expr pf data base row_stride row_count el scratchpad bufs =
     (let bufs = map (fill_buffer pf el data base row_stride row_count bufs) [0..<128];
          ptrs = map (plane_ptr pf el) [0..<128]
      in (call_kernel (pf_layout pf) (el_kernel el) ptrs bufs scratchpad, bufs))"

text \<open>
  What one chunk adds to the result, by the kind of the expression. A slot outside the scratchpad, such
  as the -1 of an operand without a slot, is an access out of bounds (\<open>slots_in_range\<close>).
\<close>

definition slots_in_range :: "nat \<Rightarrow> ResultKind \<Rightarrow> int list \<Rightarrow> bool" where
  "slots_in_range w rk masks \<longleftrightarrow> rk = BITMASK \<or> list_all (\<lambda>s. 0 \<le> s \<and> s < int w) masks"

definition chunk_total :: "ExprCompiledLogic \<Rightarrow> u64 \<Rightarrow> u64 list \<Rightarrow> nat \<Rightarrow> u64" where
  "chunk_total el chunk_mask scratchpad rows =
     (if el_result_kind el = BITMASK then of_nat (popcount (chunk_mask AND rows_mask rows))
      else if el_delta_weights el \<noteq> []
      then el_base_sum el * of_nat rows +
           sum_list (map2 (\<lambda>w s. of_nat (popcount (scratchpad ! nat s AND rows_mask rows)) * w) (el_delta_weights el) (el_masks el))
      else sum_list (map (\<lambda>i. push_bit i (of_nat (popcount (scratchpad ! i AND rows_mask rows)))) [0..<64]))"

text \<open>The loops over the weights that are unrolled: \<open>k\<close> elements at a time, then the rest.\<close>

function unrolled_sum :: "nat \<Rightarrow> ('a \<Rightarrow> u64) \<Rightarrow> 'a list \<Rightarrow> u64 \<Rightarrow> u64" where
  "unrolled_sum k f xs total_sum =
     (if 0 < k \<and> k \<le> length xs then unrolled_sum k f (drop k xs) (fold (\<lambda>x s. s + f x) (take k xs) total_sum)
      else fold (\<lambda>x s. s + f x) xs total_sum)"
  by pat_completeness auto
termination by (relation "measure (\<lambda>(k, f, xs, s). length xs)") auto

declare unrolled_sum.simps [simp del]

lemma fold_add: "fold (\<lambda>x s. s + f x) xs t = t + sum_list (map f xs)" for t :: u64
  by (induction xs arbitrary: t) (simp_all add: add.assoc)

lemma unrolled_sum_eq: "unrolled_sum k f xs t = t + sum_list (map f xs)"
proof (induction k f xs t rule: unrolled_sum.induct)
  case (1 k f xs t)
  show ?case
  proof (cases "0 < k \<and> k \<le> length xs")
    case True
    have "unrolled_sum k f xs t = unrolled_sum k f (drop k xs) (t + sum_list (map f (take k xs)))"
      by (subst unrolled_sum.simps) (simp only: True if_True fold_add simp_thms)
    also have "\<dots> = t + sum_list (map f (take k xs)) + sum_list (map f (drop k xs))"
      using "1.IH" [OF True] by (simp only: fold_add)
    also have "\<dots> = t + sum_list (map f (take k xs @ drop k xs))" by (simp only: map_append sum_list_append add.assoc)
    finally show ?thesis by (simp only: append_take_drop_id)
  next
    case False
    then show ?thesis by (subst unrolled_sum.simps) (simp only: if_False fold_add)
  qed
qed

text \<open>So an unrolled loop sums what the plain loop of \<open>chunk_total\<close> sums.\<close>

lemma unrolled_weights: "unrolled_sum k (\<lambda>(w, s). f w s) (zip ws ms) t = t + sum_list (map2 f ws ms)"
  by (simp add: unrolled_sum_eq)

definition execute_chunk ::
  "platform \<Rightarrow> u8 list \<Rightarrow> nat \<Rightarrow> nat \<Rightarrow> ExprCompiledLogic \<Rightarrow> nat \<Rightarrow> u64 \<times> u64 list list \<Rightarrow> u64 \<times> u64 list list" where
  "execute_chunk pf data row_stride row_count el chunk st =
     (let rows = min 64 (row_count - chunk * 64);
          ((chunk_mask, scratchpad), bufs) =
            process_chunk_expr pf data (chunk * 64 * row_stride) row_stride rows el (replicate 32768 0) (snd st)
      in (fst st + chunk_total el chunk_mask scratchpad rows, bufs))"

definition num_chunks :: "nat \<Rightarrow> nat" where
  "num_chunks row_count = (row_count + 63) div 64"

text \<open>The single-field logic that \<open>set_logic\<close> installs; a null kernel is called, which is undefined.\<close>

definition execute_logic_chunk ::
  "platform \<Rightarrow> u8 list \<Rightarrow> nat \<Rightarrow> nat \<Rightarrow> FieldDescriptor \<Rightarrow> instr list \<Rightarrow> nat \<Rightarrow> u64 \<times> u64 list list \<Rightarrow> u64 \<times> u64 list list" where
  "execute_logic_chunk pf data row_stride row_count f code chunk st =
     (let rows = min 64 (row_count - chunk * 64);
          bufs = (snd st)[0 := slice_n (pf_lanes pf) (gather_field data (chunk * 64 * row_stride) f row_stride rows) 64];
          chunk_mask = call_comparison code (la_buffers (pf_layout pf)) (call_cpu (pf_layout pf) (replicate 128 0) bufs [])
      in (fst st + of_nat (popcount chunk_mask), bufs))"

definition execute :: "platform \<Rightarrow> u8 list \<Rightarrow> nat \<Rightarrow> ApexEngine \<Rightarrow> (u64 \<times> ApexEngine) option" where
  "execute pf data row_count e =
     (if expr_logic e \<noteq> []
      then let schema_name = pf_begin pf (map fst (expr_logic e)) in
           case (map_of (expr_logic e) schema_name, schema_metadata e schema_name) of
             (Some el, Some sm) \<Rightarrow>
               if el_mode el = GPU_THROUGHPUT \<or> \<not> pf_malloc_ok pf then Some (0, e)
               else if row_count \<noteq> 0 \<and> \<not> slots_in_range 32768 (el_result_kind el) (el_masks el) then None
               else if \<not> rows_readable (el_fields el) (sm_row_stride sm) row_count data then None
               else let (tot, bufs) = fold (execute_chunk pf data (sm_row_stride sm) row_count el)
                          [0..<num_chunks row_count] (0, field_buffers e)
                    in Some (tot, e\<lparr>field_buffers := bufs\<rparr>)
           | _ \<Rightarrow> Some (0, e)
      else if compiled_logic e = [] then Some (0, e)
      else let logic_key = pf_begin pf (map fst (compiled_logic e)) in
           case (map_of (compiled_logic e) logic_key, schema_metadata e logic_key) of
             (Some cl, Some sm) \<Rightarrow>
               if row_count = 0 then Some (0, e)
               else if \<not> rows_readable [Some (cl_field cl)] (sm_row_stride sm) row_count data then None
               else case cl_kernel cl of None \<Rightarrow> None
               | Some code \<Rightarrow>
                   let (tot, bufs) = fold (execute_logic_chunk pf data (sm_row_stride sm) row_count (cl_field cl) code)
                         [0..<num_chunks row_count] (0, field_buffers e)
                   in Some (tot, e\<lparr>field_buffers := bufs\<rparr>)
           | _ \<Rightarrow> Some (0, e))"

end
