(* ===== verification/Apex_Correct.thy ===== *)
theory Apex_Correct
  imports Apex_Engine
begin

text \<open>
  Correctness of a batch: for a compiled boolean expression, \<open>execute\<close> returns the number of rows
  of the caller's array on which the expression is true, whatever the number of rows.
\<close>

section \<open>The field table\<close>

text \<open>Field nodes refer to the field table by the index of their name in a list of distinct names.\<close>

definition names_ok :: "string list \<Rightarrow> Node list \<Rightarrow> nat list \<Rightarrow> bool" where
  "names_ok fs ns' all \<longleftrightarrow> distinct fs \<and> length fs \<le> 128 \<and>
     (\<forall>i \<in> set all. kind (ns' ! i) = K_LOAD \<longrightarrow>
        (\<exists>j < length fs. field_idx (ns' ! i) = int j \<and> fs ! j = field_name (ns' ! i))) \<and>
     (\<forall>name \<in> set fs. \<exists>i \<in> set all. kind (ns' ! i) = K_LOAD \<and> field_name (ns' ! i) = name)"

lemma compile_names_ok:
  assumes "compile_expression True 64 ns (Some root) = (Kernel code, ns')" and "pool_wf ns" and "root < length ns"
    and "all = all_nodes (run_analyzer ns root)"
  shows "\<exists>fs. names_ok fs ns' all" and "same_shape ns ns'"
proof -
  let ?ea = "run_analyzer ns root"
  note ana = run_analyzer_inv [OF assms(2,3)]
  obtain fs ns1 used cy where s: "assign_fields (arithmetic_nodes ?ea) [] (ea_nodes ?ea) = Some (fs, ns1)"
    "alloc_nodes all ((\<lambda>_. False), 0, mark_consts (arithmetic_nodes ?ea) ns1) = Some (used, cy, ns')"
    using assms(1,4) by (auto simp: compile_expression_def Let_def split: option.splits prod.splits)
  let ?ns2 = "mark_consts (arithmetic_nodes ?ea) ns1"
  have inv: "same_shape ns (ea_nodes ?ea)" "distinct all" "\<And>j. j \<in> set all \<Longrightarrow> j < length ns"
    "arithmetic_nodes ?ea = filter (\<lambda>j. plain_kind (kind (ns ! j))) all"
    using ana(1) assms(4) by (auto simp: ana_inv_def)
  have l0: "length (ea_nodes ?ea) = length ns" using same_shape_length [OF inv(1)] .
  have ar: "distinct (arithmetic_nodes ?ea)" "\<forall>i \<in> set (arithmetic_nodes ?ea). i < length (ea_nodes ?ea)"
    using inv l0 by auto
  note F = assign_fields_ok [OF s(1) ar]
  have l1: "length ns1 = length (ea_nodes ?ea)" using F same_shape_length by blast
  note M = mark_consts_ok [of "arithmetic_nodes ?ea" ns1, unfolded l1, OF ar(2)]
  have l2: "length ?ns2 = length ns" using M same_shape_length l1 l0 by metis
  have "\<forall>i \<in> set all. i < length ?ns2" using inv(3) l2 by simp
  note A = alloc_nodes_ok [OF s(2) inv(2) this]
  have sh1: "same_shape ns ns1" using same_shape_trans [OF inv(1) conjunct1 [OF F]] .
  show sh: "same_shape ns ns'" using same_shape_trans [OF same_shape_trans [OF sh1 conjunct1 [OF M]] conjunct1 [OF A]] .
  have idx: "field_idx (ns' ! i) = field_idx (ns1 ! i)" if i: "i \<in> set all" "kind (ns ! i) = K_LOAD" for i
  proof -
    have il: "i < length ns" using inv(3) i(1) .
    have "field_idx (ns' ! i) = field_idx (?ns2 ! i)" using A il l2 by metis
    moreover have "kind (ns1 ! i) \<noteq> K_CONST" using same_shape_sel(1) [OF sh1 il] i(2) by simp
    then have "?ns2 ! i = ns1 ! i" using M il l0 l1 by metis
    ultimately show ?thesis by simp
  qed
  have "distinct fs \<and> length fs \<le> 128" using assign_fields_distinct [OF s(1)] by simp
  moreover have "\<exists>j < length fs. field_idx (ns' ! i) = int j \<and> fs ! j = field_name (ns' ! i)"
    if i: "i \<in> set all" "kind (ns' ! i) = K_LOAD" for i
  proof -
    have il: "i < length ns" using inv(3) i(1) .
    have k: "kind (ns ! i) = K_LOAD" "kind (ns1 ! i) = K_LOAD" "field_name (ns' ! i) = field_name (ns1 ! i)"
      using same_shape_sel [OF sh il] same_shape_sel [OF sh1 il] i(2) by simp_all
    then have "i \<in> set (arithmetic_nodes ?ea)" using inv(4) i(1) by (simp add: plain_kind_def is_mask_kind_def is_select_kind_def)
    then have "\<exists>j < length fs. field_idx (ns1 ! i) = int j \<and> fs ! j = field_name (ns1 ! i)"
      using F k(2) unfolding fields_ok_def by blast
    then show ?thesis using idx [OF i(1) k(1)] k(3) by simp
  qed
  moreover have "\<exists>i \<in> set all. kind (ns' ! i) = K_LOAD \<and> field_name (ns' ! i) = name" if name: "name \<in> set fs" for name
  proof -
    obtain i where i: "i \<in> set (arithmetic_nodes ?ea)" "kind (ea_nodes ?ea ! i) = K_LOAD" "field_name (ea_nodes ?ea ! i) = name"
      using assign_fields_names [OF s(1) ar(2)] name by auto
    then have "i \<in> set all" using inv(4) by simp
    then show ?thesis using i inv(3) same_shape_sel [OF sh] same_shape_sel [OF inv(1)] by metis
  qed
  ultimately show "\<exists>fs. names_ok fs ns' all" unfolding names_ok_def by blast
qed

text \<open>The table \<open>collect_fields\<close> builds.\<close>

definition table_ok :: "SchemaRegistry \<Rightarrow> string \<Rightarrow> string list \<Rightarrow> FieldDescriptor option list \<Rightarrow> bool" where
  "table_ok reg schema_name fs t \<longleftrightarrow> length t = 128 \<and>
     (\<forall>j < 128. t ! j \<noteq> None \<longrightarrow> j < length fs \<and> t ! j = get_field reg schema_name (fs ! j))"

definition filled :: "FieldDescriptor option list \<Rightarrow> nat set" where
  "filled t = {j. j < length t \<and> t ! j \<noteq> None}"

definition entered :: "SchemaRegistry \<Rightarrow> string \<Rightarrow> Node list \<Rightarrow> nat set \<Rightarrow> nat set" where
  "entered reg schema_name ns D =
     {j. \<exists>i \<in> D. kind (ns ! i) = K_LOAD \<and> field_idx (ns ! i) = int j \<and> get_field reg schema_name (field_name (ns ! i)) \<noteq> None}"

lemma collect_fields_ok:
  assumes "names_ok fs ns all" and "pool_wf ns" and "\<And>i. i \<in> set all \<Longrightarrow> i < length ns \<and> set (children (ns ! i)) \<subseteq> set all"
  shows "table_ok reg sn fs t \<Longrightarrow> (\<forall>i. node = Some i \<longrightarrow> i < fuel \<and> i \<in> set all) \<Longrightarrow>
    table_ok reg sn fs (collect_fields fuel reg sn ns node t) \<and>
    filled t \<union> entered reg sn ns {x. \<exists>i. node = Some i \<and> (i, x) \<in> (child_rel ns)\<^sup>*} \<subseteq> filled (collect_fields fuel reg sn ns node t)"
proof (induction fuel arbitrary: node t)
  case 0
  then show ?case by (auto simp: entered_def)
next
  case (Suc fuel)
  show ?case
  proof (cases node)
    case None
    with Suc.prems show ?thesis by (auto simp: entered_def)
  next
    case (Some i)
    define n where "n = ns ! i"
    have i: "i \<in> set all" "i < Suc fuel" "i < length ns" using Some Suc.prems(2) assms(3) by auto
    have ch: "c \<in> set all" "c < fuel" if "c \<in> set (children n)" for c
    proof -
      show "c \<in> set all" using assms(3) [OF i(1)] that by (auto simp: n_def)
      have "c < i" using assms(2) i(3) that by (auto simp: pool_wf_iff n_def)
      then show "c < fuel" using i(2) by simp
    qed
    let ?D = "\<lambda>c. {x. (c, x) \<in> (child_rel ns)\<^sup>*}"
    define t0 where "t0 = (if kind n = K_LOAD \<and> 0 \<le> field_idx n \<and> field_idx n < 128
      then (case get_field reg sn (field_name n) of Some f \<Rightarrow> t[nat (field_idx n) := Some f] | None \<Rightarrow> t) else t)"
    have "table_ok reg sn fs t0 \<and> filled t \<union> entered reg sn ns {i} \<subseteq> filled t0"
    proof (cases "kind n = K_LOAD")
      case True
      then obtain j where j: "j < length fs" "field_idx n = int j" "fs ! j = field_name n" "j < 128"
        using assms(1) i(1) by (force simp: names_ok_def n_def)
      show ?thesis
      proof (cases "get_field reg sn (field_name n)")
        case N: None
        then have "t0 = t" by (simp add: t0_def)
        moreover have "entered reg sn ns {i} = {}" using N by (simp add: entered_def n_def)
        ultimately show ?thesis using Suc.prems(1) by simp
      next
        case S: (Some f)
        have t0: "t0 = t[j := Some f]" using True j S by (simp add: t0_def)
        have l: "length t = 128" using Suc.prems(1) by (simp add: table_ok_def)
        have "table_ok reg sn fs t0"
          using Suc.prems(1) j S by (auto simp: t0 table_ok_def nth_list_update)
        moreover have "entered reg sn ns {i} = {j}" using True j(2) S by (auto simp: entered_def n_def)
        ultimately show ?thesis using l j(4) by (auto simp: t0 filled_def nth_list_update)
      qed
    next
      case False
      then show ?thesis using Suc.prems(1) by (auto simp: t0_def entered_def n_def)
    qed
    note t0 = this
    have step: "table_ok reg sn fs (collect_fields fuel reg sn ns m u) \<and>
        filled u \<subseteq> filled (collect_fields fuel reg sn ns m u) \<and>
        (\<forall>c. m = Some c \<longrightarrow> entered reg sn ns (?D c) \<subseteq> filled (collect_fields fuel reg sn ns m u))"
      if "table_ok reg sn fs u" and "\<And>c. m = Some c \<Longrightarrow> c \<in> set (children n)" for m u
      using Suc.IH [OF that(1), of m] ch that(2) by fastforce
    have ops: "table_ok reg sn fs (fold (\<lambda>j. collect_fields fuel reg sn ns (Some j)) os u) \<and>
        filled u \<subseteq> filled (fold (\<lambda>j. collect_fields fuel reg sn ns (Some j)) os u) \<and>
        (\<forall>c \<in> set os. entered reg sn ns (?D c) \<subseteq> filled (fold (\<lambda>j. collect_fields fuel reg sn ns (Some j)) os u))"
      if "table_ok reg sn fs u" and "set os \<subseteq> set (children n)" for os u
      using that
    proof (induction os arbitrary: u)
      case (Cons x os)
      note s = step [of u "Some x", OF Cons.prems(1)]
      show ?case using Cons.IH [of "collect_fields fuel reg sn ns (Some x) u"] s Cons.prems(2) by fastforce
    qed simp
    define t1 where "t1 = collect_fields fuel reg sn ns (left n) t0"
    define t2 where "t2 = collect_fields fuel reg sn ns (right n) t1"
    define t3 where "t3 = collect_fields fuel reg sn ns (cond n) t2"
    define t4 where "t4 = fold (\<lambda>j. collect_fields fuel reg sn ns (Some j)) (operands n) t3"
    note s1 = step [of t0 "left n", folded t1_def]
    note s2 = step [of t1 "right n", folded t2_def]
    note s3 = step [of t2 "cond n", folded t3_def]
    note s4 = ops [of t3 "operands n", folded t4_def]
    have c: "left n = Some c \<Longrightarrow> c \<in> set (children n)" "right n = Some c \<Longrightarrow> c \<in> set (children n)"
      "cond n = Some c \<Longrightarrow> c \<in> set (children n)" "set (operands n) \<subseteq> set (children n)" for c
      by (auto simp: in_children)
    have ok: "table_ok reg sn fs t4" "filled t0 \<subseteq> filled t4"
      "\<And>c. c \<in> set (children n) \<Longrightarrow> entered reg sn ns (?D c) \<subseteq> filled t4"
      using t0 s1 s2 s3 s4 c unfolding in_children by (blast, blast, blast)
    have "collect_fields (Suc fuel) reg sn ns node t = t4"
      unfolding t4_def t3_def t2_def t1_def t0_def n_def Some by (simp only: collect_fields.simps Let_def option.case)
    moreover have "entered reg sn ns (?D i) \<subseteq> filled t4"
    proof
      fix j assume "j \<in> entered reg sn ns (?D i)"
      then obtain x where x: "(i, x) \<in> (child_rel ns)\<^sup>*" "j \<in> entered reg sn ns {x}" by (auto simp: entered_def)
      from x(1) show "j \<in> filled t4"
      proof (cases rule: converse_rtranclE)
        case base
        with x(2) t0 ok(2) show ?thesis by blast
      next
        case (step c)
        then have "c \<in> set (children n)" by (simp add: child_rel_def n_def)
        moreover have "j \<in> entered reg sn ns (?D c)" using x(2) step(2) by (auto simp: entered_def)
        ultimately show ?thesis using ok(3) by blast
      qed
    qed
    ultimately show ?thesis using ok t0 Some by auto
  qed
qed

lemma trim_fields_nth: "j \<in> filled t \<Longrightarrow> j < length (trim_fields t) \<and> trim_fields t ! j = t ! j"
proof -
  assume j: "j \<in> filled t"
  have e: "t = trim_fields t @ rev (takeWhile (\<lambda>f. f = None) (rev t))"
    unfolding trim_fields_def by (metis rev_append rev_rev_ident takeWhile_dropWhile_id)
  show ?thesis
  proof (cases "j < length (trim_fields t)")
    case True
    then show ?thesis using e by (metis nth_append)
  next
    case False
    let ?w = "rev (takeWhile (\<lambda>f. f = None) (rev t))"
    have l: "j - length (trim_fields t) < length ?w"
      using j False arg_cong [OF e, of length] by (auto simp: filled_def)
    have "t ! j = ?w ! (j - length (trim_fields t))" using e False by (metis nth_append)
    moreover have "?w ! (j - length (trim_fields t)) \<in> set ?w" using l by (rule nth_mem)
    then have "?w ! (j - length (trim_fields t)) = None" by (auto dest: set_takeWhileD)
    ultimately show ?thesis using j by (simp add: filled_def)
  qed
qed

lemma length_trim: "length (trim_fields t) \<le> length t"
proof -
  have "length (dropWhile P xs) \<le> length xs" for P and xs :: "FieldDescriptor option list" by (induction xs) simp_all
  then show ?thesis unfolding trim_fields_def by (metis length_rev)
qed

section \<open>The value of a node depends on its fields\<close>

lemma node_value_cong:
  assumes "pool_wf ns" and "\<And>i. i \<in> S \<Longrightarrow> i < length ns \<and> set (children (ns ! i)) \<subseteq> S"
    and "\<And>i. i \<in> S \<Longrightarrow> kind (ns ! i) = K_LOAD \<Longrightarrow> e (field_name (ns ! i)) = e' (field_name (ns ! i))"
  shows "i \<in> S \<Longrightarrow> node_value ns e i = node_value ns e' i"
proof (induction i rule: less_induct)
  case (less i)
  show ?case
  proof (cases "kind (ns ! i) = K_LOAD \<or> kind (ns ! i) = K_CONST")
    case True
    then show ?thesis using assms(3) [OF less.prems] by (auto simp: node_value.simps [of ns _ i] Let_def)
  next
    case False
    have il: "i < length ns" using assms(2) less.prems by blast
    have c: "node_value ns e c = node_value ns e' c" if "c \<in> set (children (ns ! i))" for c
      using less.IH [of c] that assms(1,2) less.prems il by (auto simp: pool_wf_iff)
    have "left (ns ! i) = Some x \<Longrightarrow> node_value ns e x = node_value ns e' x"
      "right (ns ! i) = Some x \<Longrightarrow> node_value ns e x = node_value ns e' x"
      "cond (ns ! i) = Some x \<Longrightarrow> node_value ns e x = node_value ns e' x" for x
      using c [of x] by (simp_all add: in_children)
    then show ?thesis using False by (auto simp: node_value_inner [OF assms(1) il] split: option.split)
  qed
qed

section \<open>One chunk\<close>

text \<open>The value of a field in a row of the batch.\<close>

definition row_field :: "SchemaRegistry \<Rightarrow> string \<Rightarrow> u8 list \<Rightarrow> nat \<Rightarrow> nat \<Rightarrow> string \<Rightarrow> u64" where
  "row_field reg schema_name data stride row name =
     (case get_field reg schema_name name of None \<Rightarrow> 0 | Some f \<Rightarrow> read64 data (row * stride + unat (fd_offset f)))"

lemma slice_column_row:
  assumes "lanes_ok (pf_lanes pf)" and "length col = 64" and "el_active_bits el = 64" and "el_mode el = BIT_SLICED" and "r < 64"
  shows "row_val (\<lambda>b. slice_column pf el col ! b) r = col ! r"
  using assms by (intro word_bit_eqI) (simp add: bit_row_val slice_column_def slice_n_def bit_slice)

lemma length_slice_column:
  "lanes_ok (pf_lanes pf) \<Longrightarrow> length col = 64 \<Longrightarrow> el_active_bits el = 64 \<Longrightarrow> length (slice_column pf el col) = 64"
  by (simp add: slice_column_def slice_n_def)

lemma length_columns [simp]: "length (gather_field data base f st n) = 64" "length (simd_column data base st n i old) = 64"
  by (simp_all add: gather_field_def simd_column_def)

lemma fill_buffer_length:
  assumes "lanes_ok (pf_lanes pf)" and "el_active_bits el = 64" and "length (bufs ! i) = 64"
  shows "length (fill_buffer pf el data base st n bufs i) = 64"
  using assms by (auto simp: fill_buffer_def length_slice_column split: option.split)

lemma fill_buffer_row:
  assumes "lanes_ok (pf_lanes pf)" and "el_active_bits el = 64" and "el_mode el = BIT_SLICED"
    and "i < length (el_fields el)" and "el_fields el ! i = Some f" and "r < n" and "n \<le> 64"
  shows "row_val (\<lambda>b. fill_buffer pf el data base st n bufs i ! b) r = read64 data (base + r * st + unat (fd_offset f))"
proof (cases "use_simd_5 (el_fields el) \<and> i < 5")
  case True
  then have "case el_fields el ! i of None \<Rightarrow> False | Some f \<Rightarrow> unat (fd_offset f) = 8 * i"
    by (simp add: use_simd_5_def list_all_iff)
  then have "unat (fd_offset f) = 8 * i" using assms(5) by simp
  with True assms show ?thesis
    using slice_column_row [OF assms(1) _ assms(2,3), of "simd_column data base st n i (bufs ! i)" r]
    by (simp add: fill_buffer_def simd_column_def)
next
  case False
  then have "fill_buffer pf el data base st n bufs i = slice_column pf el (gather_field data base f st n)"
    using assms(4,5) by (auto simp: fill_buffer_def)
  then show ?thesis
    using slice_column_row [OF assms(1) _ assms(2,3), of "gather_field data base f st n" r] assms(6,7)
    by (simp add: gather_field_def)
qed

text \<open>
  \<open>logic_for\<close>: what \<open>set_expression\<close> installs for a supported boolean expression whose
  fields are all in the schema.
\<close>

definition logic_for :: "SchemaRegistry \<Rightarrow> string \<Rightarrow> Node list \<Rightarrow> nat \<Rightarrow> ExprCompiledLogic \<Rightarrow> bool" where
  "logic_for reg sn ns root el \<longleftrightarrow>
     pool_wf ns \<and> root < length ns \<and> list_all (jit_ok ns) (all_nodes (run_analyzer ns root)) \<and> is_mask_kind (kind (ns ! root)) \<and>
     list_all (\<lambda>i. kind (ns ! i) = K_LOAD \<longrightarrow> get_field reg sn (field_name (ns ! i)) \<noteq> None) (all_nodes (run_analyzer ns root)) \<and>
     el_mode el = BIT_SLICED \<and> el_result_kind el = BITMASK \<and> el_active_bits el = 64 \<and>
     (\<exists>code ns'. compile_expression True 64 ns (Some root) = (Kernel code, ns') \<and> el_kernel el = Straight code \<and>
        el_fields el = trim_fields (collect_fields (Suc (length ns')) reg sn ns' (Some root) (replicate 128 None)))"

lemma all_nodes_closed:
  assumes "pool_wf ns" and "root < length ns" and "i \<in> set (all_nodes (run_analyzer ns root))"
  shows "i < length ns \<and> set (children (ns ! i)) \<subseteq> set (all_nodes (run_analyzer ns root))"
proof -
  note ana = run_analyzer_inv(1) [OF assms(1,2)]
  have o: "ordered ns (all_nodes (run_analyzer ns root))" "i < length ns" using ana assms(3) by (auto simp: ana_inv_def)
  obtain k where "k < length (all_nodes (run_analyzer ns root))" "all_nodes (run_analyzer ns root) ! k = i"
    using assms(3) by (metis in_set_conv_nth)
  then have "set (children (ns ! i)) \<subseteq> set (take k (all_nodes (run_analyzer ns root)))" using o(1) by (auto simp: ordered_def)
  with o(2) show ?thesis by (meson set_take_subset subset_trans)
qed

lemma field_table:
  assumes lf: "pool_wf ns" "root < length ns" "get_field reg sn (field_name (ns ! i)) \<noteq> None"
    and nm: "names_ok fs ns' (all_nodes (run_analyzer ns root))" and sh: "same_shape ns ns'"
    and i: "i \<in> set (all_nodes (run_analyzer ns root))" and k: "kind (ns ! i) = K_LOAD"
    and el: "t = trim_fields (collect_fields (Suc (length ns')) reg sn ns' (Some root) (replicate 128 None))"
  obtains j f where "j < length fs" and "fs ! j = field_name (ns ! i)" and "field_idx (ns' ! i) = int j" and "j < length t"
    and "t ! j = Some f" and "get_field reg sn (field_name (ns ! i)) = Some f"
proof -
  let ?all = "all_nodes (run_analyzer ns root)"
  have il: "i < length ns" using all_nodes_closed [OF lf(1,2) i] by simp
  note sel = same_shape_sel [OF sh il]
  obtain j where j: "j < length fs" "field_idx (ns' ! i) = int j" "fs ! j = field_name (ns ! i)"
    using nm i k sel by (auto simp: names_ok_def)
  have l: "length ns' = length ns" using same_shape_length [OF sh] .
  have wf: "pool_wf ns'" using lf(1) l same_shape_sel(9) [OF sh] by (simp add: pool_wf_iff)
  have cl: "c < length ns' \<and> set (children (ns' ! c)) \<subseteq> set ?all" if "c \<in> set ?all" for c
    using all_nodes_closed [OF lf(1,2) that] l same_shape_sel(9) [OF sh] by simp
  let ?t = "collect_fields (Suc (length ns')) reg sn ns' (Some root) (replicate 128 None)"
  have "table_ok reg sn fs (replicate 128 None)" by (simp add: table_ok_def)
  from collect_fields_ok [OF nm wf cl this, of "Some root" "Suc (length ns')"] lf(2) l run_analyzer_inv(2) [OF lf(1,2)]
  have tb: "table_ok reg sn fs ?t" "entered reg sn ns' {x. (root, x) \<in> (child_rel ns')\<^sup>*} \<subseteq> filled ?t" by auto
  have "(root, i) \<in> (child_rel ns)\<^sup>*" using run_analyzer_reach [OF lf(1,2) i] .
  moreover have "(root, x) \<in> (child_rel ns')\<^sup>* \<and> x < length ns" if "(root, x) \<in> (child_rel ns)\<^sup>*" for x
    using that
  proof (induction rule: rtrancl_induct)
    case (step y z)
    then have "z \<in> set (children (ns ! y))" "y < length ns" by (simp_all add: child_rel_def)
    moreover from this have "z < length ns" using lf(1) by (fastforce simp: pool_wf_iff)
    moreover have "(y, z) \<in> child_rel ns'" using calculation same_shape_sel(9) [OF sh] by (simp add: child_rel_def)
    ultimately show ?case using step.IH by (meson rtrancl.rtrancl_into_rtrancl)
  qed (use lf(2) in simp)
  ultimately have "j \<in> entered reg sn ns' {x. (root, x) \<in> (child_rel ns')\<^sup>*}"
    using sel j(2) k lf(3) by (auto simp: entered_def intro!: exI [of _ i])
  then have f: "j \<in> filled ?t" using tb(2) by blast
  then have e: "j < length t" "t ! j = ?t ! j" using trim_fields_nth [OF f] by (simp_all add: el)
  have "?t ! j \<noteq> None" "j < 128" using f tb(1) by (auto simp: filled_def table_ok_def)
  then have "?t ! j = get_field reg sn (fs ! j)" using tb(1) by (auto simp: table_ok_def)
  with lf(3) j e show thesis using that by (metis not_None_eq)
qed

lemma table_entries:
  assumes "logic_for reg sn ns root el" and "compile_expression True 64 ns (Some root) = (Kernel code, ns')"
    and "names_ok fs ns' (all_nodes (run_analyzer ns root))" and "same_shape ns ns'"
    and "i \<in> set (all_nodes (run_analyzer ns root))" and "kind (ns ! i) = K_LOAD"
  obtains j f where "j < length fs" and "fs ! j = field_name (ns ! i)" and "field_idx (ns' ! i) = int j" and "j < length (el_fields el)"
    and "el_fields el ! j = Some f" and "get_field reg sn (field_name (ns ! i)) = Some f"
proof -
  have lf: "pool_wf ns" "root < length ns" "get_field reg sn (field_name (ns ! i)) \<noteq> None"
    and el: "el_fields el = trim_fields (collect_fields (Suc (length ns')) reg sn ns' (Some root) (replicate 128 None))"
    using assms(1,2,5,6) by (auto simp: logic_for_def list_all_iff)
  show thesis by (rule field_table [OF lf assms(3-6) el]) (rule that)
qed

text \<open>
  The mask of one call: when every installed field has its rows in the buffer its pointer refers to,
  the kernel returns the rows on which the expression is true.
\<close>

lemma columns_mask:
  assumes "logic_for reg sn ns root el" and "layout_ok la np nb w" and "length P = np" and "length B = nb" and "\<forall>x \<in> set B. length x = 64"
    and "length scratch = w" and "n \<le> 64"
    and "\<And>j f name. j < length (el_fields el) \<Longrightarrow> el_fields el ! j = Some f \<Longrightarrow> get_field reg sn name = Some f \<Longrightarrow>
      j < np \<and> slot j < nb \<and> P ! j = la_buffers la + of_nat (512 * slot j) \<and>
      (\<forall>r < n. row_val (\<lambda>b. B ! slot j ! b) r = row r name)"
    and "r < n"
  shows "bit (fst (call_kernel la (el_kernel el) P B scratch)) r \<longleftrightarrow> node_value ns (row r) root \<noteq> 0"
proof -
  let ?all = "all_nodes (run_analyzer ns root)"
  obtain code ns' where lf: "pool_wf ns" "root < length ns" "list_all (jit_ok ns) ?all" "is_mask_kind (kind (ns ! root))"
    and C: "compile_expression True 64 ns (Some root) = (Kernel code, ns')" "el_kernel el = Straight code"
    using assms(1) unfolding logic_for_def by blast
  obtain fs where fs: "names_ok fs ns' ?all" using compile_names_ok(1) [OF C(1) lf(1,2) refl] by blast
  have sh: "same_shape ns ns'" using compile_names_ok(2) [OF C(1) lf(1,2) refl] .
  define env where "env = (\<lambda>r name. row_val (\<lambda>b. B ! slot (the (find_index_of fs name)) ! b) r)"
  have idx: "the (find_index_of fs (fs ! j)) = j" if jl: "j < length fs" for j
  proof -
    obtain k where k: "find_index_of fs (fs ! j) = Some k" "k < length fs" "fs ! k = fs ! j"
      using find_index_of_mem [of "fs ! j" fs] jl by auto
    then have "k = j" using fs jl nth_eq_iff_index_eq [of fs k j] by (simp add: names_ok_def)
    with k show ?thesis by simp
  qed
  have ent: "\<exists>j f. field_idx (ns' ! i) = int j \<and> the (find_index_of fs (field_name (ns ! i))) = j \<and>
      j < length (el_fields el) \<and> el_fields el ! j = Some f \<and> get_field reg sn (field_name (ns ! i)) = Some f"
    if i: "i \<in> set ?all" "kind (ns ! i) = K_LOAD" for i
  proof -
    obtain j f where j: "j < length fs" "fs ! j = field_name (ns ! i)" "field_idx (ns' ! i) = int j" "j < length (el_fields el)"
      "el_fields el ! j = Some f" "get_field reg sn (field_name (ns ! i)) = Some f"
      by (rule table_entries [OF assms(1) C(1) fs sh i])
    then show ?thesis using idx [OF j(1)] by (intro exI [of _ j] exI [of _ f]) simp
  qed
  have lt: "i < length ns" if "i \<in> set ?all" for i using all_nodes_closed [OF lf(1,2) that] by simp
  have cols: "columns_at la ns' ?all P B env"
    unfolding columns_at_def
  proof (intro ballI impI)
    fix i assume i: "i \<in> set ?all" "kind (ns' ! i) = K_LOAD"
    note sel = same_shape_sel [OF sh lt [OF i(1)]]
    obtain j f where j: "field_idx (ns' ! i) = int j" "the (find_index_of fs (field_name (ns ! i))) = j"
      "j < length (el_fields el)" "el_fields el ! j = Some f" "get_field reg sn (field_name (ns ! i)) = Some f"
      using ent [OF i(1)] i(2) sel by auto
    then show "\<exists>p < length P. \<exists>j < length B. field_idx (ns' ! i) = int p \<and> P ! p = la_buffers la + of_nat (512 * j) \<and>
        (\<forall>r < 64. row_val (\<lambda>b. B ! j ! b) r = env r (field_name (ns' ! i)))"
      using assms(3,4) assms(8) [OF j(3-5)] sel by (intro exI [of _ j] exI [of _ "slot j"] conjI) (simp_all add: env_def)
  qed
  have "bit (fst (call_kernel la (el_kernel el) P B scratch)) r \<longleftrightarrow> node_value ns (env r) root \<noteq> 0"
    unfolding C(2) by (rule call_kernel_mask [OF C(1) lf(1,2) refl lf(3,4) assms(2-6) cols]) (use assms(7,9) in simp)
  also have "node_value ns (env r) root = node_value ns (row r) root"
  proof (rule node_value_cong [OF lf(1), where S = "set ?all"])
    show "root \<in> set ?all" using run_analyzer_inv(2) [OF lf(1,2)] .
    show "i < length ns \<and> set (children (ns ! i)) \<subseteq> set ?all" if "i \<in> set ?all" for i
      using all_nodes_closed [OF lf(1,2) that] .
    fix i assume i: "i \<in> set ?all" "kind (ns ! i) = K_LOAD"
    obtain j f where j: "the (find_index_of fs (field_name (ns ! i))) = j"
      "j < length (el_fields el)" "el_fields el ! j = Some f" "get_field reg sn (field_name (ns ! i)) = Some f"
      using ent [OF i] by blast
    then show "env r (field_name (ns ! i)) = row r (field_name (ns ! i))"
      using assms(8) [OF j(2-4)] assms(9) by (simp add: env_def)
  qed
  finally show ?thesis .
qed

lemma length_fold: "(\<And>x y. length (f x y) = length y) \<Longrightarrow> length (fold f xs y) = length y"
  by (induction xs arbitrary: y) simp_all

lemma collect_fields_length: "length (collect_fields fuel reg sn ns n fs) = length fs"
proof (induction fuel arbitrary: n fs)
  case (Suc fuel)
  then show ?case by (simp add: Let_def length_fold split: option.split)
qed simp

lemma el_fields_128: "logic_for reg sn ns root el \<Longrightarrow> length (el_fields el) \<le> 128"
  by (auto simp: logic_for_def trim_fields_def collect_fields_length intro!: order_trans [OF length_dropWhile_le]
      simp del: collect_fields.simps)

lemma trim_fields_last: "trim_fields t \<noteq> [] \<Longrightarrow> length (trim_fields t) - 1 \<in> filled t"
proof -
  assume ne: "trim_fields t \<noteq> []"
  have "t = trim_fields t @ rev (takeWhile (\<lambda>f. f = None) (rev t))"
    unfolding trim_fields_def rev_append [symmetric] by simp
  then have "t ! (length (trim_fields t) - 1) = last (trim_fields t)" "length (trim_fields t) \<le> length t"
    using ne by (metis diff_less last_conv_nth length_greater_0_conv nth_append zero_less_one, metis le_add1 length_append)
  moreover have "last (trim_fields t) \<noteq> None"
    using ne hd_dropWhile [of "\<lambda>f. f = None" "rev t"] by (simp add: trim_fields_def last_rev)
  ultimately show ?thesis using ne by (cases "trim_fields t") (auto simp: filled_def)
qed

lemma el_fields_index:
  assumes "logic_for reg sn ns root el" and "compile_expression True 64 ns (Some root) = (Kernel code, ns')"
    and "names_ok fs ns' (all_nodes (run_analyzer ns root))" and "el_fields el \<noteq> []"
  shows "length (el_fields el) - 1 < length fs"
proof -
  have lf: "pool_wf ns" "root < length ns"
    and el: "el_fields el = trim_fields (collect_fields (Suc (length ns')) reg sn ns' (Some root) (replicate 128 None))"
    using assms(1,2) unfolding logic_for_def by auto
  let ?all = "all_nodes (run_analyzer ns root)"
  let ?t = "collect_fields (Suc (length ns')) reg sn ns' (Some root) (replicate 128 None)"
  have sh: "same_shape ns ns'" using compile_names_ok(2) [OF assms(2) lf refl] .
  have l: "length ns' = length ns" using same_shape_length [OF sh] .
  have wf: "pool_wf ns'" using lf(1) l same_shape_sel(9) [OF sh] by (simp add: pool_wf_iff)
  have cl: "k < length ns' \<and> set (children (ns' ! k)) \<subseteq> set ?all" if "k \<in> set ?all" for k
    using all_nodes_closed [OF lf that] l same_shape_sel(9) [OF sh] by simp
  have "table_ok reg sn fs (replicate 128 None)" by (simp add: table_ok_def)
  from collect_fields_ok [OF assms(3) wf cl this, of "Some root" "Suc (length ns')"] lf(2) l run_analyzer_inv(2) [OF lf]
  have t: "table_ok reg sn fs ?t" by auto
  have "length (el_fields el) - 1 \<in> filled ?t" using trim_fields_last [of ?t] el assms(4) by simp
  then show ?thesis using t by (auto simp: filled_def table_ok_def)
qed

lemma el_fields_entry:
  assumes "logic_for reg sn ns root el" and "k < length (el_fields el)"
  obtains i f where "i \<in> set (all_nodes (run_analyzer ns root))" and "kind (ns ! i) = K_LOAD"
    and "get_field reg sn (field_name (ns ! i)) = Some f" and "el_fields el ! k = Some f"
proof -
  obtain code ns' where lf: "pool_wf ns" "root < length ns" and C: "compile_expression True 64 ns (Some root) = (Kernel code, ns')"
    using assms unfolding logic_for_def by blast
  let ?all = "all_nodes (run_analyzer ns root)"
  obtain fs where fs: "names_ok fs ns' ?all" using compile_names_ok(1) [OF C lf refl] by blast
  have sh: "same_shape ns ns'" using compile_names_ok(2) [OF C lf refl] .
  have "el_fields el \<noteq> []" using assms(2) by auto
  then have kf: "k < length fs" using el_fields_index [OF assms(1) C fs] assms(2) by simp
  then obtain i where i: "i \<in> set ?all" "kind (ns' ! i) = K_LOAD" "field_name (ns' ! i) = fs ! k"
    using fs nth_mem unfolding names_ok_def by blast
  have sel: "kind (ns ! i) = K_LOAD" "field_name (ns ! i) = fs ! k"
    using i same_shape_sel [OF sh] all_nodes_closed [OF lf i(1)] by simp_all
  obtain j f where j: "j < length fs" "fs ! j = field_name (ns ! i)" "el_fields el ! j = Some f"
    "get_field reg sn (field_name (ns ! i)) = Some f"
    by (rule table_entries [OF assms(1) C fs sh i(1) sel(1)])
  moreover from this have "j = k" using fs kf sel(2) by (simp add: names_ok_def nth_eq_iff_index_eq)
  ultimately show thesis using that i(1) sel(1) by blast
qed

lemma el_fields_total: "logic_for reg sn ns root el \<Longrightarrow> None \<notin> set (el_fields el)"
proof
  assume lf: "logic_for reg sn ns root el" and "None \<in> set (el_fields el)"
  then obtain k where k: "k < length (el_fields el)" "el_fields el ! k = None" by (auto simp: in_set_conv_nth)
  then show False by (metis el_fields_entry [OF lf k(1)] option.distinct(1))
qed

text \<open>The rows of the batch lie in the caller's array, as far as the fields the expression loads are concerned.\<close>

definition rows_in_buffer :: "SchemaRegistry \<Rightarrow> string \<Rightarrow> Node list \<Rightarrow> nat \<Rightarrow> nat \<Rightarrow> nat \<Rightarrow> u8 list \<Rightarrow> bool" where
  "rows_in_buffer reg sn ns root row_stride row_count data \<longleftrightarrow> row_count = 0 \<or>
     list_all (\<lambda>i. kind (ns ! i) = K_LOAD \<longrightarrow> (case get_field reg sn (field_name (ns ! i)) of None \<Rightarrow> True
       | Some f \<Rightarrow> (row_count - 1) * row_stride + unat (fd_offset f) + 8 \<le> length data)) (all_nodes (run_analyzer ns root))"

lemma rows_in_buffer_readable:
  assumes "logic_for reg sn ns root el" and "rows_in_buffer reg sn ns root st n data"
  shows "rows_readable (el_fields el) st n data"
proof (cases "n = 0")
  case False
  have "case el_fields el ! k of None \<Rightarrow> True | Some f \<Rightarrow> (n - 1) * st + unat (fd_offset f) + 8 \<le> length data"
    if "k < length (el_fields el)" for k
  proof (rule el_fields_entry [OF assms(1) that])
    fix i f assume "i \<in> set (all_nodes (run_analyzer ns root))" "kind (ns ! i) = K_LOAD"
      "get_field reg sn (field_name (ns ! i)) = Some f" "el_fields el ! k = Some f"
    with assms(2) False show ?thesis by (force simp: rows_in_buffer_def list_all_iff)
  qed
  then show ?thesis by (simp add: rows_readable_def list_all_length)
qed (simp add: rows_readable_def)

lemma rows_readable_mono: "rows_readable fs st n data \<Longrightarrow> m \<le> n \<Longrightarrow> rows_readable fs st m data"
proof -
  assume r: "rows_readable fs st n data" and m: "m \<le> n"
  have "(m - 1) * st \<le> (n - 1) * st" using m by (intro mult_right_mono) simp_all
  then have "(m - 1) * st + unat (fd_offset f) + 8 \<le> length data"
    if "(n - 1) * st + unat (fd_offset f) + 8 \<le> length data" for f using that by linarith
  then show ?thesis using r m unfolding rows_readable_def list_all_iff by (auto split: option.splits simp del: One_nat_def)
qed

lemma chunk_mask:
  assumes "logic_for reg sn ns root el" and "platform_ok pf" and "length bufs = 128" and "\<forall>x \<in> set bufs. length x = 64"
    and "n \<le> 64" and "process_chunk_expr pf data (row0 * st) st n el (replicate 32768 0) bufs = ((m, sc), bufs')"
  shows "(\<forall>r < n. bit m r \<longleftrightarrow> node_value ns (row_field reg sn data st (row0 + r)) root \<noteq> 0) \<and>
    length bufs' = 128 \<and> (\<forall>x \<in> set bufs'. length x = 64)"
proof -
  have lf: "el_mode el = BIT_SLICED" "el_active_bits el = 64" using assms(1) by (simp_all add: logic_for_def)
  have pf: "lanes_ok (pf_lanes pf)" "layout_ok (pf_layout pf) 128 128 32768" using assms(2) by (simp_all add: platform_ok_def)
  define B where "B = map (fill_buffer pf el data (row0 * st) st n bufs) [0..<128]"
  define P where "P = map (plane_ptr pf el) [0..<128]"
  have b: "bufs' = B" "m = fst (call_kernel (pf_layout pf) (el_kernel el) P B (replicate 32768 0))"
    using assms(6) by (auto simp: process_chunk_expr_def B_def P_def Let_def)
  have lB: "length P = 128" "length B = 128" "\<forall>x \<in> set B. length x = 64"
    using assms(3,4) pf(1) lf(2) by (auto simp: B_def P_def intro!: fill_buffer_length)
  have "bit m r \<longleftrightarrow> node_value ns (row_field reg sn data st (row0 + r)) root \<noteq> 0" if r: "r < n" for r
    unfolding b(2)
  proof (rule columns_mask [OF assms(1) pf(2) lB _ assms(5) _ r, where slot = id])
    fix j f name assume j: "j < length (el_fields el)" "el_fields el ! j = Some f" and g: "get_field reg sn name = Some f"
    then have "j < 128" using el_fields_128 [OF assms(1)] by simp
    with j g show "j < 128 \<and> id j < 128 \<and> P ! j = la_buffers (pf_layout pf) + of_nat (512 * id j) \<and>
        (\<forall>r < n. row_val (\<lambda>b. B ! id j ! b) r = row_field reg sn data st (row0 + r) name)"
      using fill_buffer_row [OF pf(1) lf(2,1) j _ assms(5), of _ data "row0 * st" st bufs]
      by (simp add: P_def plane_ptr_def B_def row_field_def algebra_simps)
  qed simp
  with lB b(1) show ?thesis by simp
qed

section \<open>The whole batch\<close>

lemma popcount_rows:
  assumes "n \<le> 64" and "\<And>r. r < n \<Longrightarrow> bit m r \<longleftrightarrow> P r"
  shows "popcount (m AND rows_mask n) = length (filter P [0..<n])"
proof -
  have e: "[0..<64] = [0..<n] @ [n..<64]" using assms(1) by (metis le0 upt_add_eq_append le_add_diff_inverse)
  have "filter (bit (m AND rows_mask n)) [0..<n] = filter P [0..<n]"
    using assms by (intro filter_cong) (simp_all add: bit_and_iff bit_rows_mask)
  moreover have "filter (bit (m AND rows_mask n)) [n..<64] = []"
    using assms(1) by (simp add: filter_empty_conv bit_and_iff bit_rows_mask)
  ultimately show ?thesis unfolding popcount_def e by simp
qed

lemma filter_shift: "length (filter P [a..<a + n]) = length (filter (\<lambda>r. P (a + r)) [0..<n])"
proof -
  have "[a..<a + n] = map (\<lambda>r. a + r) [0..<n]" by (simp add: map_add_upt add.commute)
  then show ?thesis by (simp add: filter_map comp_def)
qed

lemma execute_chunks:
  assumes "logic_for reg sn ns root el" and "platform_ok pf" and "length bufs = 128" and "\<forall>x \<in> set bufs. length x = 64"
    and "k \<le> num_chunks n"
  shows "case fold (execute_chunk pf data st n el) [0..<k] (0, bufs) of (tot, bufs') \<Rightarrow>
    tot = of_nat (length (filter (\<lambda>i. node_value ns (row_field reg sn data st i) root \<noteq> 0) [0..<min n (64 * k)])) \<and>
    length bufs' = 128 \<and> (\<forall>x \<in> set bufs'. length x = 64)"
  using assms(5)
proof (induction k)
  case (Suc k)
  let ?Q = "\<lambda>i. node_value ns (row_field reg sn data st i) root \<noteq> 0"
  obtain tot bufs1 where f: "fold (execute_chunk pf data st n el) [0..<k] (0, bufs) = (tot, bufs1)" by fastforce
  have IH: "tot = of_nat (length (filter ?Q [0..<min n (64 * k)]))" "length bufs1 = 128" "\<forall>x \<in> set bufs1. length x = 64"
    using Suc f by simp_all
  define rows where "rows = min 64 (n - k * 64)"
  obtain m sc bufs2 where p: "process_chunk_expr pf data (k * 64 * st) st rows el (replicate 32768 0) bufs1 = ((m, sc), bufs2)"
    by (metis prod.exhaust_sel)
  have kn: "k * 64 < n" using Suc.prems by (simp add: num_chunks_def)
  have r64: "rows \<le> 64" by (simp add: rows_def)
  note c = chunk_mask [OF assms(1,2) IH(2,3) r64 p]
  have "popcount (m AND rows_mask rows) = length (filter (\<lambda>r. ?Q (k * 64 + r)) [0..<rows])"
    using c r64 by (intro popcount_rows) simp_all
  also have "\<dots> = length (filter ?Q [k * 64..<k * 64 + rows])" by (simp add: filter_shift)
  finally have pc: "popcount (m AND rows_mask rows) = length (filter ?Q [k * 64..<k * 64 + rows])" .
  have "[0..<min n (64 * Suc k)] = [0..<min n (64 * k)] @ [k * 64..<k * 64 + rows]"
  proof -
    obtain d where d: "n = k * 64 + d" using kn less_imp_add_positive by blast
    have e: "min n (64 * k) = k * 64" "min n (64 * Suc k) = k * 64 + rows" by (simp_all add: rows_def d)
    show ?thesis unfolding e by (rule upt_add_eq_append) simp
  qed
  then have s: "length (filter ?Q [0..<min n (64 * Suc k)]) =
      length (filter ?Q [0..<min n (64 * k)]) + popcount (m AND rows_mask rows)" using pc by simp
  have rk: "el_result_kind el = BITMASK" using assms(1) by (simp add: logic_for_def)
  have "fold (execute_chunk pf data st n el) [0..<Suc k] (0, bufs) = (tot + of_nat (popcount (m AND rows_mask rows)), bufs2)"
    using f p rk by (simp add: execute_chunk_def Let_def rows_def chunk_total_def)
  then show ?case using s IH(1) c by simp
qed (use assms(3,4) in simp)

lemma execute_counts:
  assumes "logic_for (registry e) sn ns root el" and "platform_ok pf" and "expr_logic e = [(sn, el)]"
    and "schema_metadata e sn = Some sm" and "pf_begin pf [sn] = sn"
    and "length (field_buffers e) = 128" and "\<forall>x \<in> set (field_buffers e). length x = 64"
    and "rows_in_buffer (registry e) sn ns root (sm_row_stride sm) n data"
  shows "\<exists>bufs. execute pf data n e = Some (of_nat (length (filter
    (\<lambda>i. node_value ns (row_field (registry e) sn data (sm_row_stride sm) i) root \<noteq> 0) [0..<n])), e\<lparr>field_buffers := bufs\<rparr>) \<and>
    length bufs = 128 \<and> (\<forall>x \<in> set bufs. length x = 64)"
proof -
  obtain tot bufs where f: "fold (execute_chunk pf data (sm_row_stride sm) n el) [0..<num_chunks n] (0, field_buffers e) = (tot, bufs)"
    by fastforce
  have "min n (64 * num_chunks n) = n" by (simp add: num_chunks_def)
  moreover note execute_chunks [OF assms(1,2,6,7) order_refl, of data "sm_row_stride sm" n, unfolded f]
  moreover have "el_mode el \<noteq> GPU_THROUGHPUT" "pf_malloc_ok pf" "slots_in_range 32768 (el_result_kind el) (el_masks el)"
    using assms(1,2) by (simp_all add: logic_for_def platform_ok_def slots_in_range_def)
  moreover have "rows_readable (el_fields el) (sm_row_stride sm) n data" using rows_in_buffer_readable [OF assms(1,8)] .
  ultimately show ?thesis using assms(3-5) f by (auto simp: execute_def Let_def)
qed

lemma set_expression_installs:
  assumes "set_expression pf sn (Some root) BIT_SLICED (e, ns) = Some (e', ns')" and "expr_logic e = []" and "expr_logic e' \<noteq> []"
    and "pool_wf ns" and "root < length ns" and "list_all (jit_ok ns) (all_nodes (run_analyzer ns root))"
    and "is_mask_kind (kind (ns ! root))" and "pf_add_ok pf"
    and "list_all (\<lambda>i. kind (ns ! i) = K_LOAD \<longrightarrow> get_field (registry e) sn (field_name (ns ! i)) \<noteq> None) (all_nodes (run_analyzer ns root))"
  obtains el where "expr_logic e' = [(sn, el)]" and "logic_for (registry e) sn ns root el" and "e' = e\<lparr>expr_logic := [(sn, el)]\<rparr>"
proof -
  have "mark_skip BIT_SLICED root ns = Some ns"
    using assms(7) by (auto simp: mark_skip_def sum_plus_const_def mark_sum_def is_mask_kind_def)
  then obtain code base ws ms where C: "compile_expression True 64 ns (Some root) = (Kernel code, ns')"
    and e': "e' = e\<lparr>expr_logic := [(sn, \<lparr>el_kernel = Straight code,
      el_fields = trim_fields (collect_fields (Suc (length ns')) (registry e) sn ns' (Some root) (replicate 128 None)),
      el_mode = BIT_SLICED, el_result_kind = result_kind (ns' ! root), el_base_sum = base, el_delta_weights = ws,
      el_masks = ms, el_active_bits = 64\<rparr>)]\<rparr>"
    using assms(1-3,8)
    by (auto simp: set_expression_def compile_kernel_def update_alist_def Let_def
        simp del: collect_fields.simps split: option.splits prod.splits compile_result.splits kernel_outcome.splits)
  have "result_kind (ns' ! root) = BITMASK"
  proof -
    obtain body ca where "compiled_ok ns ns' (all_nodes (run_analyzer ns root))"
      "root \<in> set (all_nodes (run_analyzer ns root))"
      using compile_expression_ok [OF C assms(4,5) refl assms(6)] by blast
    from compiled_sel(10) [OF this] assms(7) show ?thesis by simp
  qed
  then have "logic_for (registry e) sn ns root (snd (hd (expr_logic e')))"
    unfolding logic_for_def e' using assms(4-7,9) C by auto
  then show thesis using that e' by simp
qed

section \<open>A concrete platform\<close>

text \<open>
  A platform that meets \<open>platform_ok\<close>: vectors of two lanes, the four memory areas side by side,
  allocations that succeed, and a hash table that iterates its only element first.
\<close>

lemma region_append: "region a m @ region (a + of_nat (8 * m)) n = region a (m + n)"
proof (rule nth_equalityI)
  fix i assume "i < length (region a m @ region (a + of_nat (8 * m)) n)"
  then show "(region a m @ region (a + of_nat (8 * m)) n) ! i = region a (m + n) ! i"
    by (cases "i < m") (simp_all add: nth_append nth_region of_nat_diff)
qed simp

lemma distinct_region:
  assumes "8 * n \<le> 2 ^ 64"
  shows "distinct (region a n)"
proof -
  have "inj_on (\<lambda>k. a + of_nat (8 * k)) (set [0..<n])"
  proof (rule inj_onI)
    fix x y assume xy: "x \<in> set [0..<n]" "y \<in> set [0..<n]" and eq: "a + of_nat (8 * x) = a + of_nat (8 * y)"
    then have "unat (of_nat (8 * x) :: u64) = unat (of_nat (8 * y) :: u64)" by (simp only: add_left_cancel)
    with xy assms show "x = y" by (simp only: unat_of_nat) simp
  qed
  then show ?thesis by (simp add: region_def distinct_map)
qed

definition ex_layout :: layout where
  "ex_layout = \<lparr>la_planes = 0, la_buffers = 1024, la_scratch = 66560, la_sp = 328800, la_regs = (\<lambda>r. 0)\<rparr>"

definition ex_platform :: platform where
  "ex_platform = \<lparr>pf_lanes = (\<lambda>s. 2), pf_begin = hd, pf_layout = ex_layout, pf_add_ok = True, pf_malloc_ok = True\<rparr>"

lemma ex_layout_ok: "layout_ok ex_layout 128 128 32768"
proof -
  have "region 0 128 @ region 1024 8192 @ region 66560 32768 @ region 328704 12 = region 0 41100"
    using region_append [of 0 128 8192] region_append [of 0 8320 32768] region_append [of 0 41088 12]
    by (simp del: append_assoc add: append_assoc [symmetric])
  then show ?thesis using distinct_region [of 41100 0] by (simp add: layout_ok_def ex_layout_def MAX_SLOTS_def)
qed

lemma ex_platform_ok: "platform_ok ex_platform"
  using ex_layout_ok by (simp add: platform_ok_def ex_platform_def lanes_ok_def)

end
