(* ===== verification/Thread_Pool.thy ===== *)
theory Thread_Pool
  imports AG_Prelude
begin

text \<open>
  The thread pool of \<open>src/compute/parallel_runner.cpp\<close> (\<open>class ThreadPool\<close>) with one client
  that enqueues its tasks, waits for them and finally destroys the pool. A step is one critical section
  under \<open>queue_mutex_\<close>, one notification outside it, or one run of a task; any interleaving of the
  steps of the workers and the client is allowed. A worker or the client that finds the predicate of its
  condition variable false goes to sleep and is woken only by a notification. Spurious wake-ups, which
  only test the predicate again, are left out.

  Shown: every interleaving terminates, none of them deadlocks or loses a wake-up, and when
  \<open>wait_all\<close> returns every task has stored its result.
\<close>

section \<open>State\<close>

text \<open>A task: the range of rows and the index of its result slot; base pointer and configuration are the same for all.\<close>

record WorkerTask =
  wt_start_row :: nat
  wt_end_row :: nat
  wt_result :: nat

text \<open>Where a worker is in \<open>worker_loop\<close>.\<close>

datatype worker = Checking | Asleep | Running WorkerTask | Releasing | Exited

text \<open>Where the client is: in \<open>enqueue\<close>, in \<open>wait_all\<close>, after it, in \<open>~ThreadPool\<close>.\<close>

datatype client = Enqueuing "WorkerTask list" | Notifying "WorkerTask list" | Waiting | WaitAsleep | Returned | Stopping | Joining | Joined

record 'r ThreadPool =
  pool_workers :: "worker list"
  pool_tasks :: "WorkerTask list"
  pool_stop :: bool
  active_workers :: int
  pool_client :: client
  pool_results :: "nat \<rightharpoonup> 'r"

definition ThreadPool_new :: "nat \<Rightarrow> WorkerTask list \<Rightarrow> 'r ThreadPool" where
  "ThreadPool_new threads ts =
     \<lparr>pool_workers = replicate threads Checking, pool_tasks = [], pool_stop = False, active_workers = 0,
      pool_client = Enqueuing ts, pool_results = Map.empty\<rparr>"

definition set_worker :: "nat \<Rightarrow> worker \<Rightarrow> 'r ThreadPool \<Rightarrow> 'r ThreadPool" where
  "set_worker w x s = s\<lparr>pool_workers := (pool_workers s)[w := x]\<rparr>"

definition worker_at :: "nat \<Rightarrow> worker \<Rightarrow> 'r ThreadPool \<Rightarrow> bool" where
  "worker_at w x s \<longleftrightarrow> w < length (pool_workers s) \<and> pool_workers s ! w = x"

definition all_done :: "'r ThreadPool \<Rightarrow> bool" where
  "all_done s \<longleftrightarrow> pool_tasks s = [] \<and> active_workers s = 0"

definition wake_all :: "worker list \<Rightarrow> worker list" where
  "wake_all = map (\<lambda>x. if x = Asleep then Checking else x)"

section \<open>Steps\<close>

inductive pool_step :: "(WorkerTask \<Rightarrow> 'r) \<Rightarrow> 'r ThreadPool \<Rightarrow> 'r ThreadPool \<Rightarrow> bool" for work where
  enqueue_push: "pool_client s = Enqueuing (t # ts) \<Longrightarrow>
    pool_step work s (s\<lparr>pool_tasks := pool_tasks s @ [t], pool_client := Notifying ts\<rparr>)"
| notify_one: "pool_client s = Notifying ts \<Longrightarrow> worker_at w Asleep s \<Longrightarrow>
    pool_step work s (set_worker w Checking (s\<lparr>pool_client := Enqueuing ts\<rparr>))"
| notify_none: "pool_client s = Notifying ts \<Longrightarrow> Asleep \<notin> set (pool_workers s) \<Longrightarrow>
    pool_step work s (s\<lparr>pool_client := Enqueuing ts\<rparr>)"
| wait_all: "pool_client s = Enqueuing [] \<Longrightarrow> pool_step work s (s\<lparr>pool_client := Waiting\<rparr>)"
| wait_return: "pool_client s = Waiting \<Longrightarrow> all_done s \<Longrightarrow> pool_step work s (s\<lparr>pool_client := Returned\<rparr>)"
| wait_sleep: "pool_client s = Waiting \<Longrightarrow> \<not> all_done s \<Longrightarrow> pool_step work s (s\<lparr>pool_client := WaitAsleep\<rparr>)"
| set_stop: "pool_client s = Returned \<Longrightarrow> pool_step work s (s\<lparr>pool_stop := True, pool_client := Stopping\<rparr>)"
| notify_all: "pool_client s = Stopping \<Longrightarrow>
    pool_step work s (s\<lparr>pool_workers := wake_all (pool_workers s), pool_client := Joining\<rparr>)"
| join: "pool_client s = Joining \<Longrightarrow> set (pool_workers s) \<subseteq> {Exited} \<Longrightarrow> pool_step work s (s\<lparr>pool_client := Joined\<rparr>)"
| take_task: "worker_at w Checking s \<Longrightarrow> pool_tasks s = t # ts \<Longrightarrow>
    pool_step work s (set_worker w (Running t) (s\<lparr>pool_tasks := ts, active_workers := active_workers s + 1\<rparr>))"
| worker_sleep: "worker_at w Checking s \<Longrightarrow> pool_tasks s = [] \<Longrightarrow> \<not> pool_stop s \<Longrightarrow> pool_step work s (set_worker w Asleep s)"
| worker_exit: "worker_at w Checking s \<Longrightarrow> pool_tasks s = [] \<Longrightarrow> pool_stop s \<Longrightarrow> pool_step work s (set_worker w Exited s)"
| run_task: "worker_at w (Running t) s \<Longrightarrow>
    pool_step work s (set_worker w Releasing (s\<lparr>pool_results := (pool_results s)(wt_result t \<mapsto> work t)\<rparr>))"
| release: "worker_at w Releasing s \<Longrightarrow>
    pool_step work s (set_worker w Checking (s\<lparr>active_workers := active_workers s - 1,
      pool_client := (if pool_tasks s = [] \<and> active_workers s - 1 = 0 \<and> pool_client s = WaitAsleep then Waiting else pool_client s)\<rparr>))"

abbreviation pool_steps :: "(WorkerTask \<Rightarrow> 'r) \<Rightarrow> 'r ThreadPool \<Rightarrow> 'r ThreadPool \<Rightarrow> bool" where
  "pool_steps work \<equiv> (pool_step work)\<^sup>*\<^sup>*"

section \<open>Termination\<close>

fun worker_weight :: "worker \<Rightarrow> nat" where
  "worker_weight Checking = 1"
| "worker_weight (Running t) = 4"
| "worker_weight Releasing = 3"
| "worker_weight _ = 0"

fun client_weight :: "nat \<Rightarrow> client \<Rightarrow> nat" where
  "client_weight n (Enqueuing ts) = 7 * length ts + n + 6"
| "client_weight n (Notifying ts) = 7 * length ts + n + 8"
| "client_weight n Waiting = n + 4"
| "client_weight n WaitAsleep = n + 3"
| "client_weight n Returned = n + 3"
| "client_weight n Stopping = n + 2"
| "client_weight n Joining = 1"
| "client_weight n Joined = 0"

definition pool_weight :: "'r ThreadPool \<Rightarrow> nat" where
  "pool_weight s = client_weight (length (pool_workers s)) (pool_client s) + 4 * length (pool_tasks s) + sum_list (map worker_weight (pool_workers s))"

lemma weight_update:
  "worker_at w x s \<Longrightarrow> sum_list (map worker_weight ((pool_workers s)[w := y])) + worker_weight x =
     sum_list (map worker_weight (pool_workers s)) + worker_weight y"
  using sum_list_map_update [of w "pool_workers s" worker_weight y] by (simp add: worker_at_def)

lemma weight_wake_all: "sum_list (map worker_weight (wake_all ws)) \<le> sum_list (map worker_weight ws) + length ws"
  by (induction ws) (auto simp: wake_all_def)

lemma pool_step_weight: "pool_step work s s' \<Longrightarrow> pool_weight s' < pool_weight s"
proof (induction rule: pool_step.induct)
  case (notify_all s)
  then show ?case using weight_wake_all [of "pool_workers s"] by (simp add: pool_weight_def wake_all_def)
next
  case (notify_one s ts w)
  then show ?case using weight_update [OF notify_one(2), of Checking] by (simp add: pool_weight_def set_worker_def)
next
  case (take_task w s t ts)
  then show ?case using weight_update [OF take_task(1), of "Running t"] by (simp add: pool_weight_def set_worker_def)
next
  case (worker_sleep w s)
  then show ?case using weight_update [OF worker_sleep(1), of Asleep] by (simp add: pool_weight_def set_worker_def)
next
  case (worker_exit w s)
  then show ?case using weight_update [OF worker_exit(1), of Exited] by (simp add: pool_weight_def set_worker_def)
next
  case (run_task w t s)
  then show ?case using weight_update [OF run_task(1), of Releasing] by (simp add: pool_weight_def set_worker_def)
next
  case (release w s)
  then show ?case using weight_update [OF release(1), of Checking] by (auto simp: pool_weight_def set_worker_def)
qed (simp_all add: pool_weight_def)

text \<open>
  No schedule of the thread pool runs forever: every sequence of steps of the workers and the
  client is finite.
\<close>

lemma pool_terminates: "wfp (\<lambda>s' s. pool_step work s s')"
  by (rule wfp_if_convertible_to_nat [of _ pool_weight]) (rule pool_step_weight)

section \<open>Invariant\<close>

fun is_busy :: "worker \<Rightarrow> bool" where
  "is_busy (Running t) = True"
| "is_busy Releasing = True"
| "is_busy _ = False"

fun pending :: "client \<Rightarrow> WorkerTask list" where
  "pending (Enqueuing ts) = ts"
| "pending (Notifying ts) = ts"
| "pending _ = []"

fun notifying :: "client \<Rightarrow> bool" where
  "notifying (Notifying ts) = True"
| "notifying _ = False"

fun past_wait :: "client \<Rightarrow> bool" where
  "past_wait Returned = True"
| "past_wait Stopping = True"
| "past_wait Joining = True"
| "past_wait Joined = True"
| "past_wait _ = False"

fun stopping :: "client \<Rightarrow> bool" where
  "stopping Stopping = True"
| "stopping Joining = True"
| "stopping Joined = True"
| "stopping _ = False"

fun joining :: "client \<Rightarrow> bool" where
  "joining Joining = True"
| "joining Joined = True"
| "joining _ = False"

lemma past_wait_pending: "past_wait c \<Longrightarrow> pending c = []"
  by (cases c) simp_all

lemma stopping_past_wait: "stopping c \<Longrightarrow> past_wait c"
  by (cases c) simp_all

definition outstanding :: "'r ThreadPool \<Rightarrow> WorkerTask set" where
  "outstanding s = set (pending (pool_client s)) \<union> set (pool_tasks s) \<union> {t. Running t \<in> set (pool_workers s)}"

text \<open>The counter is exact, and the client is past \<open>wait_all\<close> only when no task is left.\<close>

definition counting_inv :: "'r ThreadPool \<Rightarrow> bool" where
  "counting_inv s \<longleftrightarrow> active_workers s = int (length (filter is_busy (pool_workers s))) \<and>
     (past_wait (pool_client s) \<longrightarrow> all_done s)"

text \<open>Every task is still outstanding or has stored its result.\<close>

definition results_inv :: "(WorkerTask \<Rightarrow> 'r) \<Rightarrow> WorkerTask list \<Rightarrow> 'r ThreadPool \<Rightarrow> bool" where
  "results_inv work ts s \<longleftrightarrow> outstanding s \<subseteq> set ts \<and>
     (\<forall>t \<in> set ts. t \<in> outstanding s \<or> pool_results s (wt_result t) = Some (work t))"

text \<open>No wake-up is lost.\<close>

definition wakeup_inv :: "nat \<Rightarrow> 'r ThreadPool \<Rightarrow> bool" where
  "wakeup_inv n s \<longleftrightarrow> length (pool_workers s) = n \<and>
     (pool_stop s \<longleftrightarrow> stopping (pool_client s)) \<and>
     (Exited \<in> set (pool_workers s) \<longrightarrow> pool_stop s) \<and>
     (pool_client s = WaitAsleep \<longrightarrow> \<not> all_done s) \<and>
     (joining (pool_client s) \<longrightarrow> Asleep \<notin> set (pool_workers s)) \<and>
     (pool_client s = Joined \<longrightarrow> set (pool_workers s) \<subseteq> {Exited}) \<and>
     (pool_tasks s \<noteq> [] \<and> \<not> notifying (pool_client s) \<longrightarrow> \<not> set (pool_workers s) \<subseteq> {Asleep})"

lemma worker_atE:
  assumes "worker_at w x s"
  obtains as bs where "pool_workers s = as @ x # bs" and "w = length as"
  using assms id_take_nth_drop [of w "pool_workers s"] that [of "take w (pool_workers s)" "drop (Suc w) (pool_workers s)"]
  by (auto simp: worker_at_def)

lemma workers_set_worker:
  "pool_workers s = as @ x # bs \<Longrightarrow> pool_workers (set_worker (length as) y s) = as @ y # bs"
  by (simp add: set_worker_def)

lemma set_worker_sel [simp]:
  "pool_tasks (set_worker w x s) = pool_tasks s" "pool_stop (set_worker w x s) = pool_stop s"
  "active_workers (set_worker w x s) = active_workers s" "pool_client (set_worker w x s) = pool_client s"
  "pool_results (set_worker w x s) = pool_results s"
  by (simp_all add: set_worker_def)

lemma filter_busy_wake_all [simp]: "length (filter is_busy (wake_all ws)) = length (filter is_busy ws)"
  by (induction ws) (auto simp: wake_all_def)

lemma length_wake_all [simp]: "length (wake_all ws) = length ws"
  by (simp add: wake_all_def)

lemma set_wake_all: "x \<in> set (wake_all ws) \<longleftrightarrow> x \<noteq> Asleep \<and> (x \<in> set ws \<or> x = Checking \<and> Asleep \<in> set ws)"
  by (induction ws) (auto simp: wake_all_def)

lemma no_busy: "counting_inv s \<Longrightarrow> active_workers s = 0 \<Longrightarrow> x \<in> set (pool_workers s) \<Longrightarrow> \<not> is_busy x"
  by (simp add: counting_inv_def filter_empty_conv)

lemma busy_before_return:
  assumes "counting_inv s" and "worker_at w x s" and "is_busy x"
  shows "\<not> past_wait (pool_client s)" and "\<not> all_done s"
  using assms no_busy [OF assms(1), of x] by (auto simp: counting_inv_def all_done_def worker_at_def)

lemma busy_update:
  "worker_at w x s \<Longrightarrow> int (length (filter is_busy (pool_workers (set_worker w y s)))) =
     int (length (filter is_busy (pool_workers s))) + of_bool (is_busy y) - of_bool (is_busy x)"
  by (elim worker_atE) (simp add: workers_set_worker)

lemma counting_step: "pool_step work s s' \<Longrightarrow> counting_inv s \<Longrightarrow> counting_inv s'"
proof (induction rule: pool_step.induct)
  case (run_task w t s)
  then show ?case using busy_update [OF run_task(1), of Releasing] busy_before_return(1) [OF run_task(2,1)]
    by (clarsimp simp: counting_inv_def all_done_def set_worker_def)
next
  case (release w s)
  then show ?case using busy_update [OF release(1), of Checking] busy_before_return(1) [OF release(2,1)]
    by (clarsimp simp: counting_inv_def all_done_def set_worker_def)
next
  case (take_task w s t ts)
  then show ?case using busy_update [OF take_task(1), of "Running t"]
    by (clarsimp simp: counting_inv_def all_done_def set_worker_def)
next
  case (worker_sleep w s)
  then show ?case using busy_update [OF worker_sleep(1), of Asleep] by (clarsimp simp: counting_inv_def all_done_def)
next
  case (worker_exit w s)
  then show ?case using busy_update [OF worker_exit(1), of Exited] by (clarsimp simp: counting_inv_def all_done_def)
next
  case (notify_one s ts w)
  then show ?case using busy_update [OF notify_one(2), of Checking] by (clarsimp simp: counting_inv_def all_done_def set_worker_def)
qed (auto simp: counting_inv_def all_done_def)

lemma results_step:
  assumes "pool_step work s s'" and "results_inv work ts s" and "inj_on wt_result (set ts)"
  shows "results_inv work ts s'"
  using assms(1,2)
proof (induction rule: pool_step.induct)
  case (run_task w t s)
  then obtain as bs where ws: "pool_workers s = as @ Running t # bs" "w = length as" by (elim worker_atE)
  have t: "t \<in> set ts" using run_task(2) ws by (auto simp: results_inv_def outstanding_def)
  have "u \<in> outstanding (set_worker w Releasing (s\<lparr>pool_results := (pool_results s)(wt_result t \<mapsto> work t)\<rparr>)) \<or>
      ((pool_results s)(wt_result t \<mapsto> work t)) (wt_result u) = Some (work u)" if u: "u \<in> set ts" for u
  proof (cases "u = t")
    case False
    then have "wt_result u \<noteq> wt_result t" using assms(3) t u by (auto dest: inj_onD)
    moreover have "u \<in> outstanding s \<or> pool_results s (wt_result u) = Some (work u)"
      using run_task(2) u by (simp add: results_inv_def)
    ultimately show ?thesis using False ws by (auto simp: outstanding_def workers_set_worker)
  qed simp
  moreover have "outstanding (set_worker w Releasing (s\<lparr>pool_results := (pool_results s)(wt_result t \<mapsto> work t)\<rparr>)) \<subseteq> set ts"
    using run_task(2) ws by (auto simp: results_inv_def outstanding_def workers_set_worker)
  ultimately show ?case by (simp add: results_inv_def)
qed (auto simp: results_inv_def outstanding_def workers_set_worker set_wake_all elim!: worker_atE)

lemma wakeup_step: "pool_step work s s' \<Longrightarrow> counting_inv s \<Longrightarrow> wakeup_inv n s \<Longrightarrow> 0 < n \<Longrightarrow> wakeup_inv n s'"
proof (induction rule: pool_step.induct)
  case (notify_all s)
  then show ?case using stopping_past_wait [of "pool_client s"]
    by (auto simp: wakeup_inv_def counting_inv_def all_done_def set_wake_all)
next
  case (notify_none s ts)
  then have "pool_workers s \<noteq> []" by (auto simp: wakeup_inv_def)
  then have "\<not> set (pool_workers s) \<subseteq> {Asleep}" using notify_none(2) by (cases "pool_workers s") auto
  with notify_none show ?case by (auto simp: wakeup_inv_def)
next
  case (notify_one s ts w)
  then obtain as bs where "pool_workers s = as @ Asleep # bs" "w = length as" by (elim worker_atE)
  with notify_one show ?case by (auto simp: wakeup_inv_def workers_set_worker)
next
  case (take_task w s t ts)
  then obtain as bs where "pool_workers s = as @ Checking # bs" "w = length as" by (elim worker_atE)
  moreover have "\<not> past_wait (pool_client s)" using take_task by (auto simp: counting_inv_def all_done_def)
  moreover have "active_workers s + 1 \<noteq> 0" using take_task(3) by (simp add: counting_inv_def)
  ultimately show ?case using take_task
    by (auto simp: wakeup_inv_def workers_set_worker all_done_def)
next
  case (worker_sleep w s)
  then obtain as bs where "pool_workers s = as @ Checking # bs" "w = length as" by (elim worker_atE)
  moreover have "\<not> joining (pool_client s)" using worker_sleep by (cases "pool_client s") (auto simp: wakeup_inv_def)
  ultimately show ?case using worker_sleep by (auto simp: wakeup_inv_def workers_set_worker all_done_def)
next
  case (worker_exit w s)
  then obtain as bs where "pool_workers s = as @ Checking # bs" "w = length as" by (elim worker_atE)
  with worker_exit show ?case by (auto simp: wakeup_inv_def workers_set_worker all_done_def)
next
  case (run_task w t s)
  then obtain as bs where "pool_workers s = as @ Running t # bs" "w = length as" by (elim worker_atE)
  with run_task show ?case by (auto simp: wakeup_inv_def workers_set_worker all_done_def)
next
  case (release w s)
  then obtain as bs where "pool_workers s = as @ Releasing # bs" "w = length as" by (elim worker_atE)
  with release show ?case by (auto simp: wakeup_inv_def workers_set_worker all_done_def)
qed (auto simp: wakeup_inv_def all_done_def)

definition pool_inv :: "(WorkerTask \<Rightarrow> 'r) \<Rightarrow> nat \<Rightarrow> WorkerTask list \<Rightarrow> 'r ThreadPool \<Rightarrow> bool" where
  "pool_inv work n ts s \<longleftrightarrow> counting_inv s \<and> results_inv work ts s \<and> wakeup_inv n s"

lemma pool_inv_new: "0 < n \<Longrightarrow> pool_inv work n ts (ThreadPool_new n ts)"
  by (auto simp: pool_inv_def counting_inv_def results_inv_def wakeup_inv_def ThreadPool_new_def outstanding_def all_done_def)

lemma pool_inv_reachable:
  assumes "pool_steps work (ThreadPool_new n ts) s" and "0 < n" and "inj_on wt_result (set ts)"
  shows "pool_inv work n ts s"
  using assms(1)
proof (induction rule: rtranclp_induct)
  case base
  then show ?case by (rule pool_inv_new [OF assms(2)])
next
  case (step s s')
  then show ?case using counting_step results_step [OF _ _ assms(3)] wakeup_step [OF _ _ _ assms(2)]
    by (auto simp: pool_inv_def)
qed

section \<open>Progress and results\<close>

lemma worker_steps:
  assumes "x \<in> set (pool_workers s)" and "x \<noteq> Asleep" and "x \<noteq> Exited"
  shows "\<exists>s'. pool_step work s s'"
proof -
  from assms(1) obtain w where w: "worker_at w x s" by (auto simp: worker_at_def in_set_conv_nth)
  show ?thesis
  proof (cases x)
    case Checking
    with w show ?thesis by (cases "pool_tasks s"; cases "pool_stop s") (auto intro: pool_step.intros)
  qed (use w assms(2,3) in \<open>auto intro: pool_step.intros\<close>)
qed

lemma busy_worker:
  assumes "counting_inv s" and "active_workers s \<noteq> 0"
  shows "\<exists>x \<in> set (pool_workers s). x \<noteq> Asleep \<and> x \<noteq> Exited"
proof -
  have "filter is_busy (pool_workers s) \<noteq> []" using assms by (auto simp: counting_inv_def)
  then obtain x where "x \<in> set (pool_workers s)" "is_busy x" by (auto simp: filter_empty_conv)
  then show ?thesis by (intro bexI [of _ x]) auto
qed

lemma pool_progress:
  assumes "pool_inv work n ts s" and "pool_client s \<noteq> Joined"
  shows "\<exists>s'. pool_step work s s'"
proof (cases "pool_client s")
  case (Enqueuing ts)
  then show ?thesis by (cases ts) (auto intro: pool_step.intros)
next
  case (Notifying ts)
  show ?thesis
  proof (cases "Asleep \<in> set (pool_workers s)")
    case True
    then obtain w where "worker_at w Asleep s" by (auto simp: worker_at_def in_set_conv_nth)
    with Notifying show ?thesis by (blast intro: pool_step.notify_one)
  qed (use Notifying in \<open>blast intro: pool_step.notify_none\<close>)
next
  case WaitAsleep
  then have "\<not> all_done s" "Exited \<notin> set (pool_workers s)" using assms(1) by (auto simp: pool_inv_def wakeup_inv_def)
  moreover have "\<exists>x \<in> set (pool_workers s). x \<noteq> Asleep" if "pool_tasks s \<noteq> []"
    using that WaitAsleep assms(1) by (auto simp: pool_inv_def wakeup_inv_def)
  ultimately obtain x where "x \<in> set (pool_workers s)" "x \<noteq> Asleep" "x \<noteq> Exited"
    using busy_worker [of s] assms(1) by (metis all_done_def pool_inv_def)
  then show ?thesis by (rule worker_steps)
next
  case Joining
  then have "Asleep \<notin> set (pool_workers s)" using assms(1) by (auto simp: pool_inv_def wakeup_inv_def)
  with Joining show ?thesis
    using pool_step.join [of s work] worker_steps [of _ s work] by (cases "set (pool_workers s) \<subseteq> {Exited}") auto
next
  case Waiting
  then show ?thesis by (cases "all_done s") (auto intro: pool_step.intros)
qed (use assms(2) in \<open>auto intro: pool_step.intros\<close>)

lemma returned_results:
  assumes "pool_inv work n ts s" and "past_wait (pool_client s)" and "t \<in> set ts"
  shows "pool_results s (wt_result t) = Some (work t)"
proof -
  have "all_done s" and c: "counting_inv s" using assms(1,2) by (auto simp: pool_inv_def counting_inv_def)
  then have "pool_tasks s = []" "\<forall>x \<in> set (pool_workers s). \<not> is_busy x"
    by (auto simp: counting_inv_def all_done_def filter_empty_conv)
  then have "outstanding s = {}" using assms(2) by (auto simp: outstanding_def past_wait_pending)
  with assms(1,3) show ?thesis by (auto simp: pool_inv_def results_inv_def)
qed

lemma pool_run_exists: "\<exists>s'. pool_steps work s s' \<and> (\<nexists>s''. pool_step work s' s'')"
  by (rule maximal_run) (rule pool_step_weight)

lemma pool_run_joined:
  assumes "0 < n" and "inj_on wt_result (set ts)"
  shows "\<exists>s. pool_steps work (ThreadPool_new n ts) s \<and> pool_client s = Joined"
  using pool_run_exists [of work "ThreadPool_new n ts"] pool_inv_reachable [OF _ assms] pool_progress by blast

text \<open>
  Claim C7. No interleaving deadlocks or loses a wake-up: whatever has happened since the client began
  to enqueue its tasks, a state in which neither the client nor a worker can move is one in which the
  client has returned from \<open>wait_all\<close> and from the destructor, all workers have exited, and every
  task has stored its result.
\<close>

theorem pool_completes:
  assumes "pool_steps work (ThreadPool_new n ts) s" and "0 < n" and "inj_on wt_result (set ts)"
    and "\<nexists>s'. pool_step work s s'"
  shows "pool_client s = Joined \<and> set (pool_workers s) \<subseteq> {Exited} \<and>
    (\<forall>t \<in> set ts. pool_results s (wt_result t) = Some (work t))"
proof -
  note inv = pool_inv_reachable [OF assms(1-3)]
  have j: "pool_client s = Joined" using pool_progress [OF inv] assms(4) by blast
  moreover have "set (pool_workers s) \<subseteq> {Exited}" using inv j by (auto simp: pool_inv_def wakeup_inv_def)
  ultimately show ?thesis using returned_results [OF inv] by simp
qed

theorem pool_completes_witness:
  "\<exists>s. pool_steps (\<lambda>t. wt_end_row t - wt_start_row t) (ThreadPool_new 2
      [\<lparr>wt_start_row = 0, wt_end_row = 64, wt_result = 0\<rparr>, \<lparr>wt_start_row = 64, wt_end_row = 70, wt_result = 1\<rparr>]) s \<and>
     pool_client s = Joined \<and> pool_results s 1 = Some 6"
proof -
  let ?ts = "[\<lparr>wt_start_row = 0, wt_end_row = 64, wt_result = 0\<rparr>, \<lparr>wt_start_row = 64, wt_end_row = 70, wt_result = 1\<rparr>]"
  obtain s where s: "pool_steps (\<lambda>t. wt_end_row t - wt_start_row t) (ThreadPool_new 2 ?ts) s"
    "\<nexists>s'. pool_step (\<lambda>t. wt_end_row t - wt_start_row t) s s'" using pool_run_exists by blast
  from pool_completes [OF s(1) _ _ s(2)] s(1) show ?thesis by (intro exI [of _ s]) simp
qed

end
