(* ===== verification/Parallel_Runner.thy ===== *)
theory Parallel_Runner
  imports Apex_Correct Thread_Pool
begin

text \<open>
  The parallel runner (\<open>src/compute/parallel_runner.cpp\<close>) and \<open>ApexEngine::execute_parallel\<close>:
  the per-thread worker over a range of rows, the split of a batch into ranges aligned to 64 rows, and
  the run over the thread pool. Shown: for every number of threads, every size of the pool and every
  interleaving, the total is the number of rows the sequential engine counts.
\<close>

section \<open>Worker\<close>

record TaskConfig =
  tc_kernel :: ExprKernel
  tc_fields :: "FieldDescriptor option list"
  tc_row_stride :: nat
  tc_mode :: ExecutionMode
  tc_result_kind :: int
  tc_base_sum :: u64
  tc_delta_weights :: "u64 list"
  tc_masks_to_popcount :: "int list"
  tc_active_bits :: nat

record PaddedResult =
  pr_count :: u64
  pr_cycles :: u64

text \<open>
  What a worker finds at run time: the vector width, the addresses of its objects, whether
  \<open>posix_memalign\<close> succeeds, the contents of its uninitialised buffers and the two readings of the
  cycle counter.
\<close>

record worker_env =
  we_lanes :: "nat \<Rightarrow> nat"
  we_layout :: layout
  we_malloc_ok :: bool
  we_buffers :: "u64 list list"
  we_cycles :: "u64 \<times> u64"

definition worker_column :: "u8 list \<Rightarrow> nat \<Rightarrow> nat \<Rightarrow> nat \<Rightarrow> nat \<Rightarrow> u64 list" where
  "worker_column data base row_stride offset rows =
     map (\<lambda>r. if r < rows then read64 data (base + r * row_stride + offset) else 0) [0..<64]"

definition worker_fill :: "worker_env \<Rightarrow> TaskConfig \<Rightarrow> u8 list \<Rightarrow> nat \<Rightarrow> nat \<Rightarrow> u64 list list \<Rightarrow> nat \<Rightarrow> u64 list" where
  "worker_fill we cfg data base rows bufs i =
     (if i < length (tc_fields cfg) \<and> i < 32
      then let offset = (if use_simd_5 (tc_fields cfg) \<and> i < 5 then 8 * i else unat (fd_offset (the (tc_fields cfg ! i))));
               col = worker_column data base (tc_row_stride cfg) offset rows
           in if tc_mode cfg = BIT_SLICED then slice_n (we_lanes we) col (tc_active_bits cfg) else col
      else bufs ! i)"

definition worker_plane :: "worker_env \<Rightarrow> TaskConfig \<Rightarrow> nat \<Rightarrow> u64" where
  "worker_plane we cfg i = (if i < length (tc_fields cfg) then la_buffers (we_layout we) + of_nat (512 * i) else 0)"

definition worker_total :: "TaskConfig \<Rightarrow> u64 \<Rightarrow> u64 list \<Rightarrow> nat \<Rightarrow> u64" where
  "worker_total cfg kernel_res scratchpad rows =
     (if tc_result_kind cfg = 1 then of_nat (popcount (kernel_res AND rows_mask rows))
      else if tc_delta_weights cfg \<noteq> []
      then unrolled_sum 8 (\<lambda>(w, s). of_nat (popcount (scratchpad ! nat s AND rows_mask rows)) * w)
             (zip (tc_delta_weights cfg) (tc_masks_to_popcount cfg)) (tc_base_sum cfg * of_nat rows)
      else sum_list (map (\<lambda>i. push_bit i (of_nat (popcount (scratchpad ! i AND rows_mask rows)))) [0..<64]))"

definition worker_chunk ::
  "worker_env \<Rightarrow> TaskConfig \<Rightarrow> u8 list \<Rightarrow> nat \<Rightarrow> nat \<Rightarrow> u64 \<times> u64 list \<times> u64 list list \<Rightarrow> u64 \<times> u64 list \<times> u64 list list" where
  "worker_chunk we cfg data end_row row st =
     (case st of (total_matches, scratchpad, bufs) \<Rightarrow>
        let rows = min 64 (end_row - row);
            bufs = map (worker_fill we cfg data (row * tc_row_stride cfg) rows bufs) [0..<32];
            (kernel_res, scratchpad) = call_kernel (we_layout we) (tc_kernel cfg) (map (worker_plane we cfg) [0..<32]) bufs scratchpad
        in (total_matches + worker_total cfg kernel_res scratchpad rows, scratchpad, bufs))"

text \<open>
  The rows \<open>start_row\<close>, \<open>start_row + 64\<close>, ... below \<open>end_row\<close>; and what the source relies on without a
  test: no null field descriptor, at most 32 fields (the stores into the array of 32 plane pointers stop at
  32, but the kernel reads the pointer of every field), mask slots inside the scratchpad, and rows inside
  the caller's array. Otherwise the behaviour is undefined (\<open>None\<close>).
\<close>

definition block_rows :: "nat \<Rightarrow> nat \<Rightarrow> nat list" where
  "block_rows start_row end_row = map (\<lambda>k. start_row + 64 * k) [0..<num_chunks (end_row - start_row)]"

definition worker_defined :: "TaskConfig \<Rightarrow> bool" where
  "worker_defined cfg \<longleftrightarrow> length (tc_fields cfg) \<le> 32 \<and> None \<notin> set (tc_fields cfg) \<and>
     slots_in_range 262144 (if tc_result_kind cfg = 1 then BITMASK else BITPLANE) (tc_masks_to_popcount cfg)"

definition worker_thread :: "worker_env \<Rightarrow> TaskConfig \<Rightarrow> u8 list \<Rightarrow> nat \<Rightarrow> nat \<Rightarrow> PaddedResult option" where
  "worker_thread we cfg data start_row end_row =
     (if \<not> we_malloc_ok we \<or> tc_fields cfg = [] then Some \<lparr>pr_count = 0, pr_cycles = 0\<rparr>
      else if start_row < end_row \<and> \<not> (worker_defined cfg \<and> rows_readable (tc_fields cfg) (tc_row_stride cfg) end_row data) then None
      else let (total_matches, _, _) = fold (worker_chunk we cfg data end_row) (block_rows start_row end_row)
                 (0, replicate 262144 0, we_buffers we)
           in Some \<lparr>pr_count = total_matches, pr_cycles = snd (we_cycles we) - fst (we_cycles we)\<rparr>)"

section \<open>Runner\<close>

definition rows_per_thread :: "nat \<Rightarrow> nat \<Rightarrow> nat" where
  "rows_per_thread total_rows nt =
     (let rows = total_rows div nt div 64 * 64 in if rows = 0 then 64 else rows)"

fun split_tasks :: "nat \<Rightarrow> nat \<Rightarrow> nat \<Rightarrow> nat \<Rightarrow> nat \<Rightarrow> WorkerTask list" where
  "split_tasks 0 total_rows nt rpt t = []"
| "split_tasks (Suc k) total_rows nt rpt t =
     (let start = t * rpt;
          end_row = (if start + rpt > total_rows \<or> t = nt - 1 then total_rows else start + rpt)
      in if start \<ge> total_rows then []
         else \<lparr>wt_start_row = start, wt_end_row = end_row, wt_result = t\<rparr> # split_tasks k total_rows nt rpt (Suc t))"

definition clamp_threads :: "int \<Rightarrow> nat" where
  "clamp_threads nt = (if nt \<le> 0 then 1 else nat nt)"

definition run_tasks :: "nat \<Rightarrow> int \<Rightarrow> WorkerTask list" where
  "run_tasks total_rows nt =
     (if total_rows = 0 then []
      else let n = clamp_threads nt in split_tasks n total_rows n (rows_per_thread total_rows n) 0)"

text \<open>The work of one task; \<open>wes\<close> gives the surroundings of the worker that runs it.\<close>

definition run_worker :: "(WorkerTask \<Rightarrow> worker_env) \<Rightarrow> TaskConfig \<Rightarrow> u8 list \<Rightarrow> WorkerTask \<Rightarrow> PaddedResult option" where
  "run_worker wes cfg data t = worker_thread (wes t) cfg data (wt_start_row t) (wt_end_row t)"

text \<open>Aggregation over the result slots after \<open>wait_all\<close>.\<close>

definition total_count :: "PaddedResult option list \<Rightarrow> u64 option" where
  "total_count rs = (if None \<in> set rs then None else Some (sum_list (map (\<lambda>r. pr_count (the r)) rs)))"

definition run :: "(WorkerTask \<Rightarrow> worker_env) \<Rightarrow> u8 list \<Rightarrow> nat \<Rightarrow> TaskConfig \<Rightarrow> int \<Rightarrow> u64 option" where
  "run wes data total_rows cfg nt =
     total_count (map (run_worker wes cfg data) (run_tasks total_rows nt))"

record ExecutionStats =
  total_matches :: u64
  total_cycles :: u64
  avg_cycles_per_row :: u64

definition run_with_stats ::
  "(WorkerTask \<Rightarrow> worker_env) \<Rightarrow> u8 list \<Rightarrow> nat \<Rightarrow> TaskConfig \<Rightarrow> int \<Rightarrow> ExecutionStats option" where
  "run_with_stats wes data total_rows cfg nt =
     (let rs = map (run_worker wes cfg data) (run_tasks total_rows nt);
          cycles = sum_list (map (\<lambda>r. pr_cycles (the r)) rs)
      in map_option (\<lambda>n. \<lparr>total_matches = n, total_cycles = cycles,
           avg_cycles_per_row = (if total_rows > 0 then cycles div of_nat total_rows else 0)\<rparr>) (total_count rs))"

definition task_config :: "ExprCompiledLogic \<Rightarrow> SchemaMetadata \<Rightarrow> TaskConfig" where
  "task_config el sm =
     \<lparr>tc_kernel = el_kernel el, tc_fields = el_fields el, tc_row_stride = sm_row_stride sm, tc_mode = el_mode el,
      tc_result_kind = (case el_result_kind el of BITPLANE \<Rightarrow> 0 | BITMASK \<Rightarrow> 1), tc_base_sum = el_base_sum el,
      tc_delta_weights = el_delta_weights el, tc_masks_to_popcount = el_masks el, tc_active_bits = el_active_bits el\<rparr>"

definition execute_parallel ::
  "platform \<Rightarrow> (WorkerTask \<Rightarrow> worker_env) \<Rightarrow> u8 list \<Rightarrow> nat \<Rightarrow> int \<Rightarrow> ApexEngine \<Rightarrow> (u64 \<times> ApexEngine) option" where
  "execute_parallel pf wes data row_count threads e =
     (let threads = (if threads \<le> 0 then num_threads e else threads) in
      if expr_logic e = [] then execute pf data row_count e
      else let schema_name = pf_begin pf (map fst (expr_logic e)) in
           case (map_of (expr_logic e) schema_name, schema_metadata e schema_name) of
             (Some el, Some sm) \<Rightarrow> map_option (\<lambda>n. (n, e)) (run wes data row_count (task_config el sm) threads)
           | _ \<Rightarrow> Some (0, e))"

section \<open>One worker\<close>

definition worker_ok :: "worker_env \<Rightarrow> bool" where
  "worker_ok we \<longleftrightarrow> lanes_ok (we_lanes we) \<and> layout_ok (we_layout we) 32 32 262144 \<and> we_malloc_ok we \<and>
     length (we_buffers we) = 32 \<and> (\<forall>x \<in> set (we_buffers we). length x = 64)"

lemma worker_fill_row:
  assumes "lanes_ok (we_lanes we)" and "tc_active_bits cfg = 64" and "tc_mode cfg = BIT_SLICED" and "i < length (tc_fields cfg)"
    and "i < 32" and "tc_fields cfg ! i = Some f" and "r < n" and "n \<le> 64"
  shows "row_val (\<lambda>b. worker_fill we cfg data base n bufs i ! b) r = read64 data (base + r * tc_row_stride cfg + unat (fd_offset f))"
proof -
  define offset where "offset = (if use_simd_5 (tc_fields cfg) \<and> i < 5 then 8 * i else unat (fd_offset (the (tc_fields cfg ! i))))"
  have o: "offset = unat (fd_offset f)"
    using assms(6) by (auto simp: offset_def use_simd_5_def list_all_iff dest: bspec [where x = i])
  let ?col = "worker_column data base (tc_row_stride cfg) offset n"
  have "worker_fill we cfg data base n bufs i = slice_n (we_lanes we) ?col 64"
    using assms(2-5) by (simp add: worker_fill_def offset_def [symmetric])
  moreover have "length ?col = 64" by (simp add: worker_column_def)
  then have "row_val (\<lambda>b. slice_n (we_lanes we) ?col 64 ! b) r = ?col ! r"
    using assms(1,7,8) by (intro word_bit_eqI) (simp add: bit_row_val slice_n_def bit_slice)
  ultimately show ?thesis using assms(7,8) by (simp add: worker_column_def o)
qed

lemma length_worker_fill:
  assumes "lanes_ok (we_lanes we)" and "tc_active_bits cfg = 64" and "length (bufs ! i) = 64"
  shows "length (worker_fill we cfg data base n bufs i) = 64"
  using assms by (simp add: worker_fill_def slice_n_def worker_column_def Let_def)

lemma worker_chunk_counts:
  assumes "logic_for reg sn ns root el" and "length (el_fields el) \<le> 32" and "worker_ok we" and "length bufs = 32"
    and "\<forall>x \<in> set bufs. length x = 64" and "length scratch = 262144" and "row < end_row"
  defines "rows \<equiv> min 64 (end_row - row)"
  shows "\<exists>scratch' bufs'. worker_chunk we (task_config el sm) data end_row row (tot, scratch, bufs) =
    (tot + of_nat (length (filter (\<lambda>i. node_value ns (row_field reg sn data (sm_row_stride sm) i) root \<noteq> 0) [row..<row + rows])), scratch', bufs') \<and>
    length scratch' = 262144 \<and> length bufs' = 32 \<and> (\<forall>x \<in> set bufs'. length x = 64)"
proof -
  let ?cfg = "task_config el sm" and ?st = "sm_row_stride sm"
  let ?Q = "\<lambda>i. node_value ns (row_field reg sn data ?st i) root \<noteq> 0"
  have el: "el_mode el = BIT_SLICED" "el_active_bits el = 64" "el_result_kind el = BITMASK" using assms(1) by (simp_all add: logic_for_def)
  have we: "lanes_ok (we_lanes we)" "layout_ok (we_layout we) 32 32 262144" using assms(3) by (simp_all add: worker_ok_def)
  define B where "B = map (worker_fill we ?cfg data (row * ?st) rows bufs) [0..<32]"
  define P where "P = map (worker_plane we ?cfg) [0..<32]"
  have lB: "length P = 32" "length B = 32" "\<forall>x \<in> set B. length x = 64"
    using assms(4,5) we(1) el by (auto simp: B_def P_def task_config_def intro!: length_worker_fill)
  obtain m scratch' where ck: "call_kernel (we_layout we) (el_kernel el) P B scratch = (m, scratch')" by fastforce
  have r64: "rows \<le> 64" by (simp add: rows_def)
  have "bit m r \<longleftrightarrow> ?Q (row + r)" if r: "r < rows" for r
  proof -
    have "bit (fst (call_kernel (we_layout we) (el_kernel el) P B scratch)) r \<longleftrightarrow> ?Q (row + r)"
    proof (rule columns_mask [OF assms(1) we(2) lB assms(6) r64 _ r, where slot = id])
      fix j f name assume j: "j < length (el_fields el)" "el_fields el ! j = Some f" and g: "get_field reg sn name = Some f"
      then have j32: "j < 32" using assms(2) by simp
      have "row_val (\<lambda>b. worker_fill we ?cfg data (row * ?st) rows bufs j ! b) r = read64 data ((row + r) * ?st + unat (fd_offset f))"
        if "r < rows" for r
        using worker_fill_row [OF we(1), of ?cfg j f r rows data "row * ?st" bufs] j j32 el that r64
        by (simp add: task_config_def algebra_simps)
      then show "j < 32 \<and> id j < 32 \<and> P ! j = la_buffers (we_layout we) + of_nat (512 * id j) \<and>
          (\<forall>r < rows. row_val (\<lambda>b. B ! id j ! b) r = row_field reg sn data ?st (row + r) name)"
        using j j32 g by (simp add: P_def B_def worker_plane_def task_config_def row_field_def)
    qed
    with ck show ?thesis by simp
  qed
  then have "popcount (m AND rows_mask rows) = length (filter ?Q [row..<row + rows])"
    using popcount_rows [OF r64] by (simp add: filter_shift)
  moreover have "worker_chunk we ?cfg data end_row row (tot, scratch, bufs) =
      (tot + of_nat (popcount (m AND rows_mask rows)), scratch', B)"
    using ck el(3) by (simp add: worker_chunk_def rows_def [symmetric] task_config_def worker_total_def Let_def B_def P_def)
  moreover have "length scratch' = 262144" using ck assms(6) by (auto simp: call_kernel_def Let_def)
  ultimately show ?thesis using lB by auto
qed

lemma worker_blocks:
  assumes "logic_for reg sn ns root el" and "length (el_fields el) \<le> 32" and "worker_ok we" and "k \<le> num_chunks (end_row - start)"
  shows "\<exists>scratch' bufs'. fold (worker_chunk we (task_config el sm) data end_row) (map (\<lambda>k. start + 64 * k) [0..<k])
      (0, replicate 262144 0, we_buffers we) =
    (of_nat (length (filter (\<lambda>i. node_value ns (row_field reg sn data (sm_row_stride sm) i) root \<noteq> 0)
      [start..<start + min (end_row - start) (64 * k)])), scratch', bufs') \<and>
    length scratch' = 262144 \<and> length bufs' = 32 \<and> (\<forall>x \<in> set bufs'. length x = 64)"
  using assms(4)
proof (induction k)
  case 0
  then show ?case using assms(3) by (simp add: worker_ok_def)
next
  case (Suc k)
  let ?Q = "\<lambda>i. node_value ns (row_field reg sn data (sm_row_stride sm) i) root \<noteq> 0"
  let ?row = "start + 64 * k" and ?st = "\<lambda>k. fold (worker_chunk we (task_config el sm) data end_row) (map (\<lambda>k. start + 64 * k) [0..<k])
      (0, replicate 262144 0, we_buffers we)"
  have kn: "64 * k < end_row - start" using Suc.prems by (simp add: num_chunks_def)
  then have lt: "?row < end_row" by simp
  obtain sc bufs where IH: "?st k = (of_nat (length (filter ?Q [start..<?row])), sc, bufs)"
    "length sc = 262144" "length bufs = 32" "\<forall>x \<in> set bufs. length x = 64"
    using Suc kn by (auto simp: min_def)
  define rows where "rows = min 64 (end_row - ?row)"
  obtain sc' bufs' where w: "worker_chunk we (task_config el sm) data end_row ?row (of_nat (length (filter ?Q [start..<?row])), sc, bufs) =
      (of_nat (length (filter ?Q [start..<?row])) + of_nat (length (filter ?Q [?row..<?row + rows])), sc', bufs')"
    "length sc' = 262144 \<and> length bufs' = 32 \<and> (\<forall>x \<in> set bufs'. length x = 64)"
    using worker_chunk_counts [OF assms(1-3) IH(3,4,2) lt] unfolding rows_def by blast
  have e: "start + min (end_row - start) (64 * Suc k) = ?row + rows" using kn by (simp add: rows_def)
  have "[start..<?row + rows] = [start..<?row] @ [?row..<?row + rows]" by (rule upt_add_eq_append) simp
  then have "of_nat (length (filter ?Q [start..<?row])) + of_nat (length (filter ?Q [?row..<?row + rows])) =
      (of_nat (length (filter ?Q [start..<?row + rows])) :: u64)" by simp
  moreover have "?st (Suc k) = worker_chunk we (task_config el sm) data end_row ?row (?st k)" by simp
  ultimately show ?case unfolding e using w by (simp only: IH(1)) blast
qed

lemma worker_thread_counts:
  assumes "logic_for reg sn ns root el" and "length (el_fields el) \<le> 32" and "el_fields el \<noteq> []" and "worker_ok we" and "start \<le> end_row"
    and "rows_readable (el_fields el) (sm_row_stride sm) end_row data"
  shows "\<exists>cy. worker_thread we (task_config el sm) data start end_row =
    Some \<lparr>pr_count = of_nat (length (filter (\<lambda>i. node_value ns (row_field reg sn data (sm_row_stride sm) i) root \<noteq> 0) [start..<end_row])),
      pr_cycles = cy\<rparr>"
proof -
  have "worker_defined (task_config el sm)"
    using assms(1,2) el_fields_total [OF assms(1)] by (simp add: worker_defined_def task_config_def slots_in_range_def logic_for_def)
  moreover have "start + min (end_row - start) (64 * num_chunks (end_row - start)) = end_row" using assms(5) by (simp add: num_chunks_def)
  ultimately show ?thesis
    using worker_blocks [OF assms(1,2,4) order_refl, where end_row = end_row and start = start and sm = sm and data = data] assms(3,4,6)
    by (auto simp: worker_thread_def block_rows_def worker_ok_def task_config_def)
qed

section \<open>The split covers the batch\<close>

lemma split_tasks_slots: "map wt_result (split_tasks k n nt rpt t) = [t..<t + length (split_tasks k n nt rpt t)]"
  by (induction k arbitrary: t) (simp_all add: Let_def upt_conv_Cons del: upt_Suc)

lemma split_tasks_ordered: "x \<in> set (split_tasks k n nt rpt t) \<Longrightarrow> wt_start_row x \<le> wt_end_row x"
  by (induction k arbitrary: t) (auto simp: Let_def split: if_splits)

lemma split_tasks_within: "x \<in> set (split_tasks k n nt rpt t) \<Longrightarrow> wt_end_row x \<le> n"
  by (induction k arbitrary: t) (auto simp: Let_def split: if_splits)

lemma split_tasks_cover:
  assumes "0 < rpt" and "t + k = nt" and "0 < k" and "t * rpt \<le> n"
  shows "concat (map (\<lambda>x. [wt_start_row x..<wt_end_row x]) (split_tasks k n nt rpt t)) = [t * rpt..<n]"
  using assms(2-4)
proof (induction k arbitrary: t)
  case (Suc k)
  show ?case
  proof (cases "k = 0 \<or> n < t * rpt + rpt \<or> n \<le> t * rpt")
    case True
    then have "split_tasks k n nt rpt (Suc t) = []" by (cases k) (auto simp: Let_def)
    with True Suc.prems show ?thesis by (auto simp: Let_def)
  next
    case False
    then have "concat (map (\<lambda>x. [wt_start_row x..<wt_end_row x]) (split_tasks k n nt rpt (Suc t))) = [Suc t * rpt..<n]"
      using Suc.IH [of "Suc t"] Suc.prems by (simp add: add.commute)
    moreover have "[t * rpt..<n] = [t * rpt..<t * rpt + rpt] @ [t * rpt + rpt..<n]"
      using False upt_add_eq_append [of "t * rpt" "t * rpt + rpt" "n - (t * rpt + rpt)"] by simp
    moreover have "t \<noteq> nt - 1" using False Suc.prems by linarith
    ultimately show ?thesis using False by (simp add: Let_def add.commute)
  qed
qed simp

lemma rows_per_thread_pos: "0 < rows_per_thread n nt"
  by (simp add: rows_per_thread_def Let_def)

lemma run_tasks_cover: "concat (map (\<lambda>x. [wt_start_row x..<wt_end_row x]) (run_tasks n nt)) = [0..<n]"
proof -
  have "0 < clamp_threads nt" by (simp add: clamp_threads_def)
  from split_tasks_cover [OF rows_per_thread_pos, where t = 0 and k = "clamp_threads nt" and nt = "clamp_threads nt", OF _ this]
  show ?thesis by (simp add: run_tasks_def Let_def)
qed

lemma run_tasks_slots: "map wt_result (run_tasks n nt) = [0..<length (run_tasks n nt)]"
  using split_tasks_slots by (simp add: run_tasks_def Let_def)

lemma filter_concat_length: "sum_list (map (\<lambda>x. of_nat (length (filter Q (f x)))) xs) = (of_nat (length (filter Q (concat (map f xs)))) :: u64)"
  by (induction xs) simp_all

lemma run_counts:
  assumes "logic_for reg sn ns root el" and "length (el_fields el) \<le> 32" and "el_fields el \<noteq> []" and "\<And>t. worker_ok (wes t)"
    and "rows_in_buffer reg sn ns root (sm_row_stride sm) n data"
  shows "run wes data n (task_config el sm) nt =
    Some (of_nat (length (filter (\<lambda>i. node_value ns (row_field reg sn data (sm_row_stride sm) i) root \<noteq> 0) [0..<n])))"
proof -
  let ?Q = "\<lambda>i. node_value ns (row_field reg sn data (sm_row_stride sm) i) root \<noteq> 0"
  let ?w = "run_worker wes (task_config el sm) data" and ?ts = "run_tasks n nt"
  have w: "\<exists>cy. ?w t = Some \<lparr>pr_count = of_nat (length (filter ?Q [wt_start_row t..<wt_end_row t])), pr_cycles = cy\<rparr>" if "t \<in> set ?ts" for t
  proof -
    have le: "wt_start_row t \<le> wt_end_row t" "wt_end_row t \<le> n"
      using that split_tasks_ordered split_tasks_within by (auto simp: run_tasks_def Let_def split: if_splits)
    then have "rows_readable (el_fields el) (sm_row_stride sm) (wt_end_row t) data"
      using rows_readable_mono [OF rows_in_buffer_readable [OF assms(1,5)]] by blast
    with le(1) show ?thesis using worker_thread_counts [OF assms(1-4)] by (simp add: run_worker_def)
  qed
  then have "None \<notin> set (map ?w ?ts)" by (auto simp del: not_None_eq) (metis option.distinct(1))
  moreover have "map (\<lambda>r. pr_count (the r)) (map ?w ?ts) = map (\<lambda>t. of_nat (length (filter ?Q [wt_start_row t..<wt_end_row t]))) ?ts"
    using w by fastforce
  ultimately show ?thesis unfolding run_def total_count_def by (simp only: if_False filter_concat_length run_tasks_cover)
qed

end
