(* ===== verification/Apex_Native.thy ===== *)
theory Apex_Native
  imports Parallel_Runner
begin

text \<open>
  The engine on data that is already bit-sliced (\<open>execute_native\<close> and
  \<open>execute_native_parallel\<close> of \<open>src/api/engine.cpp\<close>) and the engine that returns one value per
  row (\<open>execute_vector\<close>). The planes are the columns of all blocks, one list of 64 words per field
  and block.
\<close>

section \<open>Native blocks\<close>

definition field_position :: "FieldDescriptor list \<Rightarrow> FieldDescriptor option \<Rightarrow> nat" where
  "field_position schema_fields f =
     (case f of None \<Rightarrow> 0
      | Some f \<Rightarrow> (case find_index_of (map fd_name schema_fields) (fd_name f) of Some i \<Rightarrow> i | None \<Rightarrow> 0))"

definition dynamic_to_schema_index :: "ExprCompiledLogic \<Rightarrow> SchemaMetadata \<Rightarrow> nat list" where
  "dynamic_to_schema_index el sm = map (field_position (sm_fields sm)) (el_fields el)"

definition kernel_ptrs :: "layout \<Rightarrow> ExprCompiledLogic \<Rightarrow> SchemaMetadata \<Rightarrow> nat \<Rightarrow> u64 list" where
  "kernel_ptrs la el sm b =
     map (\<lambda>i. if i < length (el_fields el)
              then la_buffers la + of_nat (512 * (b * length (sm_fields sm) + dynamic_to_schema_index el sm ! i)) else 0) [0..<8]"

definition native_total :: "ExprCompiledLogic \<Rightarrow> u64 \<Rightarrow> u64 list \<Rightarrow> u64" where
  "native_total el res scratchpad =
     (if el_result_kind el = BITMASK then of_nat (popcount res)
      else if el_delta_weights el \<noteq> []
      then unrolled_sum 16 (\<lambda>(w, s). of_nat (popcount (scratchpad ! nat s)) * w) (zip (el_delta_weights el) (el_masks el))
             (el_base_sum el * 64)
      else sum_list (map (\<lambda>i. push_bit i (of_nat (popcount (scratchpad ! i)))) [0..<64]))"

definition native_block ::
  "layout \<Rightarrow> ExprCompiledLogic \<Rightarrow> SchemaMetadata \<Rightarrow> u64 list list \<Rightarrow> nat \<Rightarrow> u64 \<times> u64 list \<Rightarrow> u64 \<times> u64 list" where
  "native_block la el sm bit_planes b st =
     (let (res, scratchpad) = call_kernel la (el_kernel el) (kernel_ptrs la el sm b) bit_planes (snd st)
      in (fst st + native_total el res scratchpad, scratchpad))"

definition native_range ::
  "layout \<Rightarrow> ExprCompiledLogic \<Rightarrow> SchemaMetadata \<Rightarrow> u64 list list \<Rightarrow> nat \<Rightarrow> nat \<Rightarrow> u64" where
  "native_range la el sm bit_planes start_block end_block =
     fst (fold (native_block la el sm bit_planes) [start_block..<end_block] (0, replicate 262144 0))"

text \<open>
  The array \<open>kernel_ptrs\<close> has eight elements and is written for every field; a logic of more fields
  writes past its end, which is undefined (\<open>None\<close>), as is a mask slot outside the scratchpad and a block
  outside the caller's planes.
\<close>

definition native_defined :: "ExprCompiledLogic \<Rightarrow> SchemaMetadata \<Rightarrow> u64 list list \<Rightarrow> nat \<Rightarrow> bool" where
  "native_defined el sm bit_planes num_blocks \<longleftrightarrow> length (el_fields el) \<le> 8 \<and>
     slots_in_range 262144 (el_result_kind el) (el_masks el) \<and> num_blocks * length (sm_fields sm) \<le> length bit_planes"

definition execute_native :: "layout \<Rightarrow> bool \<Rightarrow> string \<Rightarrow> u64 list list \<Rightarrow> nat \<Rightarrow> ApexEngine \<Rightarrow> u64 option" where
  "execute_native la memalign_ok schema_name bit_planes num_blocks e =
     (case map_of (expr_logic e) schema_name of None \<Rightarrow> Some 0
      | Some logic \<Rightarrow>
          if el_mode logic = GPU_THROUGHPUT then Some 0
          else case schema_metadata e schema_name of None \<Rightarrow> Some 0
          | Some sm \<Rightarrow>
              if \<not> memalign_ok then Some 0
              else if num_blocks \<noteq> 0 \<and> \<not> native_defined logic sm bit_planes num_blocks then None
              else Some (native_range la logic sm bit_planes 0 num_blocks))"

text \<open>
  The parallel variant: thread \<open>t\<close> has its own stack and scratchpad (\<open>las t\<close>) and its own
  allocation. A negative thread count makes the result vector throw in a \<open>noexcept\<close> function.
\<close>

definition thread_blocks :: "nat \<Rightarrow> nat \<Rightarrow> nat \<Rightarrow> nat \<times> nat" where
  "thread_blocks num_blocks nt t =
     (let start_block = num_blocks div nt * t
      in (start_block, if t = nt - 1 then num_blocks else start_block + num_blocks div nt))"

definition execute_native_parallel ::
  "(nat \<Rightarrow> layout) \<Rightarrow> (nat \<Rightarrow> bool) \<Rightarrow> string \<Rightarrow> u64 list list \<Rightarrow> nat \<Rightarrow> int \<Rightarrow> ApexEngine \<Rightarrow> u64 option" where
  "execute_native_parallel las memalign_ok schema_name bit_planes num_blocks threads e =
     (let threads = (if threads \<le> 0 then num_threads e else threads) in
      case map_of (expr_logic e) schema_name of None \<Rightarrow> Some 0
      | Some logic \<Rightarrow>
          case schema_metadata e schema_name of None \<Rightarrow> Some 0
          | Some sm \<Rightarrow>
              if threads < 0 \<or> num_blocks \<noteq> 0 \<and> 0 < threads \<and> \<not> native_defined logic sm bit_planes num_blocks then None
              else Some (sum_list (map (\<lambda>t. if memalign_ok t
                     then (case thread_blocks num_blocks (nat threads) t of (a, b) \<Rightarrow> native_range (las t) logic sm bit_planes a b)
                     else 0) [0..<nat threads])))"

section \<open>Values per row\<close>

text \<open>A \<open>double\<close> of the result: 0.0, 1.0, or a signed 64-bit sum divided by the precision multiplier.\<close>

datatype row_result = Zero_dbl | One_dbl | Quotient u64

definition vector_row :: "ExprCompiledLogic \<Rightarrow> u64 \<Rightarrow> u64 list \<Rightarrow> nat \<Rightarrow> row_result" where
  "vector_row el chunk_mask scratchpad r =
     (if el_result_kind el = BITMASK then (if bit chunk_mask r then One_dbl else Zero_dbl)
      else if el_delta_weights el \<noteq> []
      then Quotient (fold (\<lambda>(w, s) row_sum. if bit (scratchpad ! nat s) r then row_sum + w else row_sum)
             (zip (el_delta_weights el) (el_masks el)) (el_base_sum el))
      else Quotient (fold (\<lambda>b row_sum. if bit (scratchpad ! b) r then row_sum OR push_bit b 1 else row_sum) [0..<64] 0))"

definition vector_chunk ::
  "platform \<Rightarrow> u8 list \<Rightarrow> nat \<Rightarrow> nat \<Rightarrow> ExprCompiledLogic \<Rightarrow> nat \<Rightarrow> row_result list \<times> u64 list list \<Rightarrow> row_result list \<times> u64 list list" where
  "vector_chunk pf data row_stride row_count el chunk st =
     (let rows = min 64 (row_count - chunk * 64);
          ((chunk_mask, scratchpad), bufs) =
            process_chunk_expr pf data (chunk * 64 * row_stride) row_stride rows el (replicate 32768 0) (snd st)
      in (fold (\<lambda>r results. results[chunk * 64 + r := vector_row el chunk_mask scratchpad r]) [0..<rows] (fst st), bufs))"

definition execute_vector :: "platform \<Rightarrow> u8 list \<Rightarrow> nat \<Rightarrow> ApexEngine \<Rightarrow> (row_result list \<times> ApexEngine) option" where
  "execute_vector pf data row_count e =
     (let results = replicate row_count Zero_dbl in
      if expr_logic e = [] then Some (results, e)
      else let schema_name = pf_begin pf (map fst (expr_logic e)) in
           case (map_of (expr_logic e) schema_name, schema_metadata e schema_name) of
             (Some el, Some sm) \<Rightarrow>
               if \<not> pf_malloc_ok pf then Some (results, e)
               else if row_count \<noteq> 0 \<and> \<not> slots_in_range 32768 (el_result_kind el) (el_masks el) then None
               else if \<not> rows_readable (el_fields el) (sm_row_stride sm) row_count data then None
               else let (results, bufs) = fold (vector_chunk pf data (sm_row_stride sm) row_count el) [0..<num_chunks row_count]
                          (results, field_buffers e)
                    in Some (results, e\<lparr>field_buffers := bufs\<rparr>)
           | _ \<Rightarrow> Some (results, e))"

section \<open>The native engine counts rows\<close>

text \<open>The value of a field in row \<open>r\<close> of block \<open>b\<close>, read off the planes.\<close>

definition native_row :: "SchemaMetadata \<Rightarrow> u64 list list \<Rightarrow> nat \<Rightarrow> nat \<Rightarrow> string \<Rightarrow> u64" where
  "native_row sm bit_planes b r name =
     row_val (\<lambda>k. bit_planes ! (b * length (sm_fields sm) +
       (case find_index_of (map fd_name (sm_fields sm)) name of Some i \<Rightarrow> i | None \<Rightarrow> 0)) ! k) r"

text \<open>Registry and metadata describe the same fields.\<close>

definition schema_consistent :: "ApexEngine \<Rightarrow> string \<Rightarrow> SchemaMetadata \<Rightarrow> bool" where
  "schema_consistent e sn sm \<longleftrightarrow>
     (\<forall>name f. get_field (registry e) sn name = Some f \<longrightarrow> fd_name f = name \<and> name \<in> fd_name ` set (sm_fields sm))"

lemma emplace_fold:
  "fold (\<lambda>f m. emplace (fd_name f) f m) fs m name =
     (case m name of Some f \<Rightarrow> Some f | None \<Rightarrow> find (\<lambda>f. fd_name f = name) fs)"
  by (induction fs arbitrary: m) (auto simp: emplace_def split: option.splits)

lemma register_consistent:
  assumes "registry e sn = None"
  shows "schema_consistent (register_schema sn fs stride e) sn \<lparr>sm_row_stride = stride, sm_fields = fs\<rparr>"
proof -
  have "get_field (registry (register_schema sn fs stride e)) sn name = find (\<lambda>f. fd_name f = name) fs" for name
    using assms by (simp add: register_schema_def registry_register_def get_field_def emplace_fold emplace_def)
  then show ?thesis by (auto simp: schema_consistent_def find_Some_iff)
qed

text \<open>Row \<open>i\<close> of the planes satisfies the expression.\<close>

definition native_holds :: "Node list \<Rightarrow> nat \<Rightarrow> SchemaMetadata \<Rightarrow> u64 list list \<Rightarrow> nat \<Rightarrow> bool" where
  "native_holds ns root sm bit_planes i \<longleftrightarrow> node_value ns (native_row sm bit_planes (i div 64) (i mod 64)) root \<noteq> 0"

definition planes_ok :: "layout \<Rightarrow> SchemaMetadata \<Rightarrow> u64 list list \<Rightarrow> nat \<Rightarrow> bool" where
  "planes_ok la sm bit_planes nb \<longleftrightarrow> layout_ok la 8 (nb * length (sm_fields sm)) 262144 \<and>
     length bit_planes = nb * length (sm_fields sm) \<and> (\<forall>x \<in> set bit_planes. length x = 64)"

lemma native_block_counts:
  assumes "logic_for (registry e) sn ns root el" and "schema_consistent e sn sm" and "length (el_fields el) \<le> 8"
    and "planes_ok la sm bit_planes nb" and "b < nb" and "length scratch = 262144"
  shows "\<exists>scratch'. native_block la el sm bit_planes b (tot, scratch) =
    (tot + of_nat (length (filter (native_holds ns root sm bit_planes) [64 * b..<64 * b + 64])), scratch') \<and> length scratch' = 262144"
proof -
  let ?nf = "length (sm_fields sm)" and ?P = "kernel_ptrs la el sm b"
  have pl: "layout_ok la 8 (nb * ?nf) 262144" "length bit_planes = nb * ?nf" "\<forall>x \<in> set bit_planes. length x = 64"
    using assms(4) by (simp_all add: planes_ok_def)
  obtain m scratch' where ck: "call_kernel la (el_kernel el) ?P bit_planes scratch = (m, scratch')" by fastforce
  define slot where "slot = (\<lambda>j. b * ?nf + dynamic_to_schema_index el sm ! j)"
  have "bit m r \<longleftrightarrow> native_holds ns root sm bit_planes (64 * b + r)" if r: "r < 64" for r
  proof -
    have "bit (fst (call_kernel la (el_kernel el) ?P bit_planes scratch)) r \<longleftrightarrow> node_value ns (native_row sm bit_planes b r) root \<noteq> 0"
    proof (rule columns_mask [OF assms(1) pl(1) _ pl(2,3) assms(6) order_refl _ r, where slot = slot])
      fix j f name assume j: "j < length (el_fields el)" "el_fields el ! j = Some f" and g: "get_field (registry e) sn name = Some f"
      have f: "fd_name f = name" "name \<in> set (map fd_name (sm_fields sm))" using assms(2) g by (auto simp: schema_consistent_def)
      obtain i where i: "find_index_of (map fd_name (sm_fields sm)) name = Some i" "i < ?nf"
        using find_index_of_mem [OF f(2)] by auto
      have d: "dynamic_to_schema_index el sm ! j = i" using j f(1) i(1) by (simp add: dynamic_to_schema_index_def field_position_def)
      then have s: "slot j = b * ?nf + i" by (simp add: slot_def)
      have "(b + 1) * ?nf \<le> nb * ?nf" using assms(5) by (intro mult_right_mono) simp_all
      then have lt: "slot j < nb * ?nf" using i(2) s by simp
      show "j < 8 \<and> slot j < nb * ?nf \<and> ?P ! j = la_buffers la + of_nat (512 * slot j) \<and>
          (\<forall>r < 64. row_val (\<lambda>k. bit_planes ! slot j ! k) r = native_row sm bit_planes b r name)"
        using j(1) assms(3) lt by (simp add: kernel_ptrs_def native_row_def i(1) s d)
    qed (simp add: kernel_ptrs_def)
    with ck r show ?thesis by (simp add: native_holds_def)
  qed
  then have "popcount m = length (filter (\<lambda>r. native_holds ns root sm bit_planes (64 * b + r)) [0..<64])"
    unfolding popcount_def by (intro arg_cong [of _ _ length] filter_cong) simp_all
  also have "\<dots> = length (filter (native_holds ns root sm bit_planes) [64 * b..<64 * b + 64])" by (simp add: filter_shift)
  finally have "popcount m = \<dots>" .
  moreover have "el_result_kind el = BITMASK" using assms(1) by (simp add: logic_for_def)
  moreover have "length scratch' = 262144" using ck assms(6) by (auto simp: call_kernel_def Let_def)
  ultimately show ?thesis using ck by (simp add: native_block_def native_total_def)
qed

lemma native_blocks:
  assumes "logic_for (registry e) sn ns root el" and "schema_consistent e sn sm" and "length (el_fields el) \<le> 8"
    and "planes_ok la sm bit_planes nb" and "a \<le> b" and "b \<le> nb" and "length scratch = 262144"
  shows "\<exists>scratch'. fold (native_block la el sm bit_planes) [a..<b] (tot, scratch) =
    (tot + of_nat (length (filter (native_holds ns root sm bit_planes) [64 * a..<64 * b])), scratch') \<and> length scratch' = 262144"
  using assms(5,6)
proof (induction b rule: dec_induct)
  case base
  then show ?case using assms(7) by simp
next
  case (step b)
  from step obtain sc where IH: "fold (native_block la el sm bit_planes) [a..<b] (tot, scratch) =
    (tot + of_nat (length (filter (native_holds ns root sm bit_planes) [64 * a..<64 * b])), sc)" "length sc = 262144" by auto
  have "[64 * a..<64 * Suc b] = [64 * a..<64 * b] @ [64 * b..<64 * b + 64]"
    using step(1) upt_add_eq_append [of "64 * a" "64 * b" 64] by (simp add: add.commute)
  moreover obtain sc' where "native_block la el sm bit_planes b (tot + of_nat (length (filter (native_holds ns root sm bit_planes) [64 * a..<64 * b])), sc) =
    (tot + of_nat (length (filter (native_holds ns root sm bit_planes) [64 * a..<64 * b])) +
      of_nat (length (filter (native_holds ns root sm bit_planes) [64 * b..<64 * b + 64])), sc')" "length sc' = 262144"
    using native_block_counts [OF assms(1-4) _ IH(2)] step by (metis Suc_le_lessD)
  ultimately show ?case using IH(1) step(1) by simp
qed

lemma native_range_counts:
  assumes "logic_for (registry e) sn ns root el" and "schema_consistent e sn sm" and "length (el_fields el) \<le> 8"
    and "planes_ok la sm bit_planes nb" and "a \<le> b" and "b \<le> nb"
  shows "native_range la el sm bit_planes a b = of_nat (length (filter (native_holds ns root sm bit_planes) [64 * a..<64 * b]))"
  using native_blocks [OF assms, of "replicate 262144 0" 0] by (auto simp: native_range_def)

text \<open>The blocks of the threads, one after the other, are all the blocks.\<close>

lemma thread_blocks_le: "0 < nt \<Longrightarrow> t < nt \<Longrightarrow> thread_blocks nb nt t = (a, b) \<Longrightarrow> a \<le> b \<and> b \<le> nb"
proof -
  assume t: "0 < nt" "t < nt" "thread_blocks nb nt t = (a, b)"
  have "nb div nt * (t + 1) \<le> nb div nt * nt" using t(2) by (intro mult_left_mono) simp_all
  also have "\<dots> \<le> nb" by simp
  finally show ?thesis using t by (auto simp: thread_blocks_def Let_def)
qed

lemma thread_blocks_cover:
  assumes "0 < nt" and "k < nt"
  shows "concat (map (\<lambda>t. [64 * fst (thread_blocks nb nt t)..<64 * snd (thread_blocks nb nt t)]) [0..<k]) = [0..<64 * (nb div nt * k)]"
  using assms(2)
proof (induction k)
  case (Suc k)
  then have "thread_blocks nb nt k = (nb div nt * k, nb div nt * k + nb div nt)" by (auto simp: thread_blocks_def Let_def)
  moreover have "[0..<64 * (nb div nt * k) + 64 * (nb div nt)] = [0..<64 * (nb div nt * k)] @ [64 * (nb div nt * k)..<64 * (nb div nt * k) + 64 * (nb div nt)]"
    by (rule upt_add_eq_append) simp
  ultimately show ?case using Suc by (simp add: algebra_simps)
qed simp

lemma thread_blocks_all:
  assumes "0 < nt"
  shows "concat (map (\<lambda>t. [64 * fst (thread_blocks nb nt t)..<64 * snd (thread_blocks nb nt t)]) [0..<nt]) = [0..<64 * nb]"
proof -
  obtain k where k: "nt = Suc k" using assms by (cases nt) auto
  have "nb div nt * k \<le> nb" using thread_blocks_le [OF assms, of k nb] k by (simp add: thread_blocks_def Let_def)
  then have "[0..<64 * nb] = [0..<64 * (nb div nt * k)] @ [64 * (nb div nt * k)..<64 * nb]"
    using upt_add_eq_append [of 0 "64 * (nb div nt * k)" "64 * nb - 64 * (nb div nt * k)"] by simp
  moreover have "thread_blocks nb nt k = (nb div nt * k, nb)" using k by (simp add: thread_blocks_def Let_def)
  ultimately show ?thesis using thread_blocks_cover [OF assms, of k nb] k by simp
qed

lemma execute_native_counts:
  assumes "logic_for (registry e) sn ns root el" and "map_of (expr_logic e) sn = Some el" and "schema_metadata e sn = Some sm"
    and "schema_consistent e sn sm" and "length (el_fields el) \<le> 8" and "planes_ok la sm bit_planes nb"
  shows "execute_native la True sn bit_planes nb e = Some (of_nat (length (filter (native_holds ns root sm bit_planes) [0..<64 * nb])))"
  using native_range_counts [OF assms(1,4-6), of 0 nb] assms(1-3,5,6)
  by (simp add: execute_native_def native_defined_def slots_in_range_def logic_for_def planes_ok_def)

lemma execute_native_parallel_counts:
  assumes "logic_for (registry e) sn ns root el" and "map_of (expr_logic e) sn = Some el" and "schema_metadata e sn = Some sm"
    and "schema_consistent e sn sm" and "length (el_fields el) \<le> 8" and "\<And>t. planes_ok (las t) sm bit_planes nb" and "0 < nt"
  shows "execute_native_parallel las (\<lambda>_. True) sn bit_planes nb nt e =
    Some (of_nat (length (filter (native_holds ns root sm bit_planes) [0..<64 * nb])))"
proof -
  let ?r = "\<lambda>t. [64 * fst (thread_blocks nb (nat nt) t)..<64 * snd (thread_blocks nb (nat nt) t)]"
  have n: "0 < nat nt" using assms(7) by simp
  have "(case thread_blocks nb (nat nt) t of (a, b) \<Rightarrow> native_range (las t) el sm bit_planes a b) =
      of_nat (length (filter (native_holds ns root sm bit_planes) (?r t)))" if "t < nat nt" for t
    using native_range_counts [OF assms(1,4,5,6)] thread_blocks_le [OF n that, of nb] by (cases "thread_blocks nb (nat nt) t") simp
  then have "map (\<lambda>t. case thread_blocks nb (nat nt) t of (a, b) \<Rightarrow> native_range (las t) el sm bit_planes a b) [0..<nat nt] =
      map (\<lambda>t. of_nat (length (filter (native_holds ns root sm bit_planes) (?r t)))) [0..<nat nt]" by simp
  moreover have "el_result_kind el = BITMASK" using assms(1) by (simp add: logic_for_def)
  then have "execute_native_parallel las (\<lambda>_. True) sn bit_planes nb nt e =
      Some (sum_list (map (\<lambda>t. case thread_blocks nb (nat nt) t of (a, b) \<Rightarrow> native_range (las t) el sm bit_planes a b) [0..<nat nt]))"
    using assms(2,3,5,7) assms(6) [of 0] by (simp add: execute_native_parallel_def native_defined_def slots_in_range_def planes_ok_def)
  ultimately show ?thesis by (simp only: filter_concat_length thread_blocks_all [OF n])
qed

section \<open>One value per row\<close>

lemma fold_update_nth:
  "length (fold (\<lambda>r xs. xs[a + r := f r]) [0..<n] xs) = length xs \<and>
   (\<forall>i < length xs. fold (\<lambda>r xs. xs[a + r := f r]) [0..<n] xs ! i = (if a \<le> i \<and> i < a + n then f (i - a) else xs ! i))"
proof (induction n)
  case (Suc n)
  let ?ys = "fold (\<lambda>r xs. xs[a + r := f r]) [0..<n] xs"
  have "?ys[a + n := f n] ! i = (if a \<le> i \<and> i < a + Suc n then f (i - a) else xs ! i)" if "i < length xs" for i
    using Suc that by (cases "i = a + n") auto
  then show ?case using Suc by simp
qed auto

lemma vector_chunks:
  assumes "logic_for reg sn ns root el" and "platform_ok pf" and "length bufs = 128" and "\<forall>x \<in> set bufs. length x = 64" and "k \<le> num_chunks n"
  shows "case fold (vector_chunk pf data st n el) [0..<k] (replicate n Zero_dbl, bufs) of (rs, bufs') \<Rightarrow>
    length rs = n \<and> (\<forall>i < n. i < 64 * k \<longrightarrow> rs ! i = (if node_value ns (row_field reg sn data st i) root \<noteq> 0 then One_dbl else Zero_dbl)) \<and>
    length bufs' = 128 \<and> (\<forall>x \<in> set bufs'. length x = 64)"
  using assms(5)
proof (induction k)
  case (Suc k)
  obtain rs bufs1 where f: "fold (vector_chunk pf data st n el) [0..<k] (replicate n Zero_dbl, bufs) = (rs, bufs1)" by fastforce
  have IH: "length rs = n" "\<And>i. i < n \<Longrightarrow> i < 64 * k \<Longrightarrow> rs ! i = (if node_value ns (row_field reg sn data st i) root \<noteq> 0 then One_dbl else Zero_dbl)"
    "length bufs1 = 128" "\<forall>x \<in> set bufs1. length x = 64" using Suc f by simp_all
  define rows where "rows = min 64 (n - k * 64)"
  obtain m sc bufs2 where p: "process_chunk_expr pf data (k * 64 * st) st rows el (replicate 32768 0) bufs1 = ((m, sc), bufs2)"
    by (metis prod.exhaust_sel)
  have r64: "rows \<le> 64" by (simp add: rows_def)
  note c = chunk_mask [OF assms(1,2) IH(3,4) r64 p]
  have rk: "el_result_kind el = BITMASK" using assms(1) by (simp add: logic_for_def)
  let ?rs = "fold (\<lambda>r xs. xs[k * 64 + r := vector_row el m sc r]) [0..<rows] rs"
  note u = fold_update_nth [of "k * 64" "vector_row el m sc" rows rs, unfolded IH(1)]
  have "?rs ! i = (if node_value ns (row_field reg sn data st i) root \<noteq> 0 then One_dbl else Zero_dbl)" if i: "i < n" "i < 64 * Suc k" for i
  proof (cases "k * 64 \<le> i")
    case True
    then have r: "i - k * 64 < rows" "k * 64 + (i - k * 64) = i" "i < k * 64 + rows" using i by (auto simp: rows_def)
    have "bit m (i - k * 64) \<longleftrightarrow> node_value ns (row_field reg sn data st i) root \<noteq> 0"
      using conjunct1 [OF c] r by (metis (no_types))
    moreover have "?rs ! i = vector_row el m sc (i - k * 64)" using conjunct2 [OF u] i(1) True r(3) by simp
    ultimately show ?thesis using rk by (simp add: vector_row_def)
  qed (use u IH(2) i in simp)
  moreover have "fold (vector_chunk pf data st n el) [0..<Suc k] (replicate n Zero_dbl, bufs) = (?rs, bufs2)"
    using f p by (simp add: vector_chunk_def Let_def rows_def)
  ultimately show ?case using u c by simp
qed (use assms(3,4) in simp)

lemma execute_vector_rows:
  assumes "logic_for (registry e) sn ns root el" and "platform_ok pf" and "expr_logic e = [(sn, el)]"
    and "schema_metadata e sn = Some sm" and "pf_begin pf [sn] = sn"
    and "length (field_buffers e) = 128" and "\<forall>x \<in> set (field_buffers e). length x = 64"
    and "rows_in_buffer (registry e) sn ns root (sm_row_stride sm) n data"
  shows "map_option fst (execute_vector pf data n e) = Some (map (\<lambda>i.
    if node_value ns (row_field (registry e) sn data (sm_row_stride sm) i) root \<noteq> 0 then One_dbl else Zero_dbl) [0..<n])"
proof -
  obtain rs bufs where f: "fold (vector_chunk pf data (sm_row_stride sm) n el) [0..<num_chunks n] (replicate n Zero_dbl, field_buffers e) = (rs, bufs)"
    by fastforce
  note v = vector_chunks [OF assms(1,2,6,7) order_refl, where data = data and st = "sm_row_stride sm" and n = n, unfolded f]
  have "n \<le> 64 * num_chunks n" by (simp add: num_chunks_def)
  then have "rs = map (\<lambda>i. if node_value ns (row_field (registry e) sn data (sm_row_stride sm) i) root \<noteq> 0 then One_dbl else Zero_dbl) [0..<n]"
    using v by (intro nth_equalityI) auto
  moreover have "pf_malloc_ok pf" "slots_in_range 32768 (el_result_kind el) (el_masks el)"
    using assms(1,2) by (simp_all add: logic_for_def platform_ok_def slots_in_range_def)
  moreover have "rows_readable (el_fields el) (sm_row_stride sm) n data" using rows_in_buffer_readable [OF assms(1,8)] .
  ultimately show ?thesis using assms(3-5) f by (simp add: execute_vector_def Let_def)
qed

end
