(* ===== verification/Jit_Total.thy ===== *)
theory Jit_Total
  imports Jit_Scalar
begin

text \<open>
  The expression compiler does not give up on policies: a well-formed expression of at most 128 nodes
  made of fields, constants, comparisons and logic always compiles to a kernel.
\<close>

lemma assign_fields_total: "length fs + length is \<le> 128 \<Longrightarrow> \<exists>r. assign_fields is fs ns = Some r"
proof (induction "is" fs ns rule: assign_fields.induct)
  case (2 i "is" fs ns)
  show ?case
  proof (cases "kind (ns ! i) = K_LOAD")
    case False
    then show ?thesis using "2.IH"(1) "2.prems" by simp
  next
    case True
    show ?thesis
    proof (cases "find_index_of fs (field_name (ns ! i))")
      case None
      then show ?thesis using "2.IH"(2) [OF _ None] "2.prems" True by simp
    next
      case (Some j)
      then show ?thesis using "2.IH"(3) [OF _ Some] "2.prems" True by simp
    qed
  qed
qed simp

lemma alloc_node_prefix:
  assumes "kind (ns ! i) = K_LOAD \<or> kind (ns ! i) = K_CONST \<or> result_kind (ns ! i) = BITMASK"
    and "kind (ns ! i) \<noteq> K_ADD" and "kind (ns ! i) \<noteq> K_SUB" and "k + 2 \<le> MAX_SLOTS"
  shows "\<exists>k' n'. alloc_node i ((\<lambda>j. j < k), cy, ns) = Some ((\<lambda>j. j < k'), cy, ns[i := n']) \<and> k' \<le> k + 2 \<and>
    kind n' = kind (ns ! i) \<and> result_kind n' = result_kind (ns ! i)"
proof (cases "kind (ns ! i) = K_LOAD \<or> kind (ns ! i) = K_CONST")
  case True
  then show ?thesis by (intro exI [of _ k] exI [of _ "ns ! i"]) (auto simp: alloc_node_def Let_def)
next
  case False
  with assms(1) have r: "result_kind (ns ! i) = BITMASK" by simp
  note a = alloc_slot_prefix [of k] alloc_slot_prefix [of "Suc k"]
  show ?thesis
  proof (cases "is_cmp_kind (kind (ns ! i))")
    case True
    then show ?thesis using False r assms(2-4) a
      by (intro exI [of _ "k + 2"] exI [of _ "(ns ! i)\<lparr>slot_id := int k, eq_slot_id := int (Suc k)\<rparr>"])
        (simp add: alloc_node_def Let_def)
  next
    case nc: False
    then show ?thesis using False r assms(2-4) a
      by (intro exI [of _ "k + 1"] exI [of _ "(ns ! i)\<lparr>slot_id := int k\<rparr>"]) (simp add: alloc_node_def Let_def)
  qed
qed

lemma alloc_nodes_total:
  "\<forall>i \<in> set is. i < length ns \<and> (kind (ns ! i) = K_LOAD \<or> kind (ns ! i) = K_CONST \<or> result_kind (ns ! i) = BITMASK) \<and>
     kind (ns ! i) \<noteq> K_ADD \<and> kind (ns ! i) \<noteq> K_SUB \<Longrightarrow>
   k + 2 * length is \<le> MAX_SLOTS \<Longrightarrow> \<exists>r. alloc_nodes is ((\<lambda>j. j < k), cy, ns) = Some r"
proof (induction "is" arbitrary: k ns)
  case (Cons i "is")
  obtain k' n' where a: "alloc_node i ((\<lambda>j. j < k), cy, ns) = Some ((\<lambda>j. j < k'), cy, ns[i := n'])" "k' \<le> k + 2"
    "kind n' = kind (ns ! i)" "result_kind n' = result_kind (ns ! i)"
    using alloc_node_prefix [of ns i k cy] Cons.prems by auto
  have "\<exists>r. alloc_nodes is ((\<lambda>j. j < k'), cy, ns[i := n']) = Some r"
  proof (rule Cons.IH)
    have "kind (ns[i := n'] ! j) = kind (ns ! j)" "result_kind (ns[i := n'] ! j) = result_kind (ns ! j)" for j
      using a(3,4) Cons.prems(1) by (cases "j = i"; simp)+
    then show "\<forall>j \<in> set is. j < length (ns[i := n']) \<and> (kind (ns[i := n'] ! j) = K_LOAD \<or> kind (ns[i := n'] ! j) = K_CONST \<or>
        result_kind (ns[i := n'] ! j) = BITMASK) \<and> kind (ns[i := n'] ! j) \<noteq> K_ADD \<and> kind (ns[i := n'] ! j) \<noteq> K_SUB"
      using Cons.prems(1) by simp
    show "k' + 2 * length is \<le> MAX_SLOTS" using a(2) Cons.prems(2) by simp
  qed
  with a(1) show ?case by simp
qed simp

lemma emit_nodes_total:
  assumes "same_shape ns ns'" and "\<forall>i \<in> set is. i < length ns \<and> jit_ok ns i \<and> kind (ns ! i) \<noteq> K_ADD"
  shows "\<exists>r. emit_nodes abits ns' is ca = Some r"
  using assms(2)
proof (induction "is" arbitrary: ca)
  case (Cons i "is")
  have i: "i < length ns" "jit_ok ns i" "kind (ns ! i) \<noteq> K_ADD" using Cons.prems by auto
  note sel = same_shape_sel [OF assms(1) i(1)]
  have "kind (ns ! i) \<in> {K_LOAD, K_CONST} \<or> left (ns ! i) \<noteq> None \<and>
      (is_cmp_kind (kind (ns ! i)) \<and> right (ns ! i) \<noteq> None \<or> kind (ns ! i) \<in> {K_AND, K_OR, K_NOT} \<or>
       kind (ns ! i) = K_SELECT \<and> cond (ns ! i) \<noteq> None \<and> right (ns ! i) \<noteq> None)"
    using i(2,3) unfolding jit_ok_def Let_def plane_node_def mask_node_def by (auto split: option.splits)
  then have "emit_node abits ns' i ca \<noteq> None"
    unfolding emit_node_def Let_def sel by (auto simp: is_cmp_kind_def)
  then obtain code ca' where e: "emit_node abits ns' i ca = Some (code, ca')" by fastforce
  obtain r where "emit_nodes abits ns' is ca' = Some r" using Cons.IH [of ca'] Cons.prems by auto
  with e show ?case by (cases r) simp
qed simp

lemma policy_compiles:
  assumes "pool_wf ns" and "root < length ns" and "all = all_nodes (run_analyzer ns root)" and "list_all (jit_ok ns) all"
    and "list_all (\<lambda>i. kind (ns ! i) \<in> {K_LOAD, K_CONST} \<or> is_mask_kind (kind (ns ! i))) all" and "length all \<le> 128"
  shows "\<exists>code ns'. compile_expression True abits ns (Some root) = (Kernel code, ns')"
proof -
  let ?ea = "run_analyzer ns root"
  note ana = run_analyzer_inv [OF assms(1,2)]
  have inv: "same_shape ns (ea_nodes ?ea)" "distinct all"
    "\<And>j. j \<in> set all \<Longrightarrow> j < length ns \<and>
       result_kind (ea_nodes ?ea ! j) = (if is_mask_kind (kind (ns ! j)) then BITMASK else BITPLANE)"
    "arithmetic_nodes ?ea = filter (\<lambda>j. plain_kind (kind (ns ! j))) all"
    using ana(1) assms(3) by (auto simp: ana_inv_def)
  have l0: "length (ea_nodes ?ea) = length ns" using same_shape_length [OF inv(1)] .
  have "length (arithmetic_nodes ?ea) \<le> 128" using assms(6) inv(4) length_filter_le le_trans by metis
  then obtain fs ns1 where f: "assign_fields (arithmetic_nodes ?ea) [] (ea_nodes ?ea) = Some (fs, ns1)"
    using assign_fields_total [of "[]" "arithmetic_nodes ?ea" "ea_nodes ?ea"] by auto
  have ar: "distinct (arithmetic_nodes ?ea)" "\<forall>i \<in> set (arithmetic_nodes ?ea). i < length (ea_nodes ?ea)"
    using inv l0 by auto
  note F = assign_fields_ok [OF f ar]
  let ?ns2 = "mark_consts (arithmetic_nodes ?ea) ns1"
  have l1: "length ns1 = length (ea_nodes ?ea)" using F same_shape_length by blast
  note M = mark_consts_ok [of "arithmetic_nodes ?ea" ns1, unfolded l1, OF ar(2)]
  have sh2: "same_shape ns ?ns2" using same_shape_trans [OF same_shape_trans [OF inv(1) conjunct1 [OF F]] conjunct1 [OF M]] .
  have l2: "length ?ns2 = length ns" using same_shape_length [OF sh2] .
  have k2: "i < length ?ns2 \<and> (kind (?ns2 ! i) = K_LOAD \<or> kind (?ns2 ! i) = K_CONST \<or> result_kind (?ns2 ! i) = BITMASK) \<and>
      kind (?ns2 ! i) \<noteq> K_ADD \<and> kind (?ns2 ! i) \<noteq> K_SUB" if i: "i \<in> set all" for i
  proof -
    have il: "i < length ns" using inv(3) [OF i] by simp
    have "result_kind (?ns2 ! i) = result_kind (ns1 ! i)" using M il l0 l1 by metis
    also have "\<dots> = result_kind (ea_nodes ?ea ! i)" using F il l0 by auto
    finally have "result_kind (?ns2 ! i) = (if is_mask_kind (kind (ns ! i)) then BITMASK else BITPLANE)"
      using inv(3) [OF i] by simp
    moreover have "kind (ns ! i) \<in> {K_LOAD, K_CONST} \<or> is_mask_kind (kind (ns ! i))"
      using assms(5) i by (simp add: list_all_iff)
    ultimately show ?thesis using same_shape_sel(1) [OF sh2 il] il l2 by (auto simp: is_mask_kind_def)
  qed
  have "2 * length all \<le> MAX_SLOTS" using assms(6) by (simp add: MAX_SLOTS_def)
  then obtain used cy ns3 where a: "alloc_nodes all ((\<lambda>j. j < 0), 0, ?ns2) = Some (used, cy, ns3)"
    using alloc_nodes_total [of all ?ns2 0 0] k2 by auto
  have "same_shape ?ns2 ns3" using alloc_nodes_ok [OF a inv(2)] k2 by blast
  then have sh3: "same_shape ns ns3" using same_shape_trans [OF sh2] by blast
  have "\<forall>i \<in> set all. i < length ns \<and> jit_ok ns i \<and> kind (ns ! i) \<noteq> K_ADD"
    using inv(3) assms(4,5) by (auto simp: list_all_iff is_mask_kind_def)
  from emit_nodes_total [OF sh3 this] obtain code ca where "emit_nodes abits ns3 all cache_new = Some (code, ca)" by fastforce
  with f a show ?thesis by (simp add: compile_expression_def Let_def assms(3) [symmetric])
qed

end
