(* ===== verification/Policy_Jit.thy ===== *)
theory Policy_Jit
  imports Apex_Correct Jit_Total Policy_Engine
begin

text \<open>
  The compiled policy (\<open>PolicyEngine::init_JIT_schema\<close> and \<open>evaluate_batch\<close> of
  \<open>src/host/policy_engine.cpp\<close>): the schema of the trace records, the policy expression built
  with the expression builders and compiled by the engine, and the evaluation of a batch of records.
  The compiled policy is shown to agree with the decision \<open>process_event\<close> takes event by event.
\<close>

section \<open>The policy expression\<close>

definition trace_field :: "string \<Rightarrow> u32 \<Rightarrow> FieldDescriptor" where
  "trace_field name off = \<lparr>fd_name = name, fd_offset = off, fd_bit_width = 64, fd_type = UINT64\<rparr>"

definition trace_fields :: "FieldDescriptor list" where
  "trace_fields = [trace_field ''pid'' 0, trace_field ''ppid'' 8, trace_field ''event_type'' 16,
     trace_field ''is_preinstall'' 24, trace_field ''is_sensitive'' 32, trace_field ''is_unauthorized'' 40]"

definition sizeof_SyscallTraceRecord :: nat where
  "sizeof_SyscallTraceRecord = 64"

definition policy_ast :: "NodePool \<Rightarrow> nat option \<times> NodePool" where
  "policy_ast p =
     (let (is_preinstall, p) = Load ''is_preinstall'' p;
          (event_type, p) = Load ''event_type'' p;
          (is_sensitive, p) = Load ''is_sensitive'' p;
          (is_unauthorized, p) = Load ''is_unauthorized'' p;
          (c1, p) = Const 1 p; (is_preinstall_mask, p) = EQ is_preinstall c1 p;
          (c2, p) = Const 1 p; (is_sensitive_mask, p) = EQ is_sensitive c2 p;
          (c3, p) = Const 1 p; (is_unauthorized_mask, p) = EQ is_unauthorized c3 p;
          (c4, p) = Const EVENT_OPEN p; (is_open, p) = EQ event_type c4 p;
          (open_check, p) = And is_open is_sensitive_mask p;
          (c5, p) = Const EVENT_CONNECT p; (is_connect, p) = EQ event_type c5 p;
          (connect_check, p) = And is_connect is_unauthorized_mask p;
          (violation_check, p) = Or open_check connect_check p
      in And is_preinstall_mask violation_check p)"

definition init_JIT_schema :: "platform \<Rightarrow> ApexEngine \<times> NodePool \<Rightarrow> (ApexEngine \<times> NodePool) option" where
  "init_JIT_schema pf st =
     (case st of (e, p) \<Rightarrow>
        let e = register_schema ''SyscallTrace'' trace_fields sizeof_SyscallTraceRecord e;
            (root, p) = policy_ast p
        in map_option (\<lambda>(e, ns). (e, p\<lparr>nodes := ns\<rparr>)) (set_expression pf ''SyscallTrace'' root BIT_SLICED (e, nodes p)))"

definition encode_record :: "SyscallTraceRecord \<Rightarrow> u8 list" where
  "encode_record r =
     le_bytes 8 (tr_pid r) @ le_bytes 8 (tr_ppid r) @ le_bytes 8 (tr_event_type r) @ le_bytes 8 (tr_is_preinstall r) @
     le_bytes 8 (tr_is_sensitive r) @ le_bytes 8 (tr_is_unauthorized r) @ concat (map (le_bytes 8) (tr_padding r))"

definition evaluate_batch :: "platform \<Rightarrow> SyscallTraceRecord list \<Rightarrow> ApexEngine \<Rightarrow> (u64 \<times> ApexEngine) option" where
  "evaluate_batch pf records e =
     (if records = [] then Some (0, e) else execute pf (concat (map encode_record records)) (length records) e)"

section \<open>The compiled expression\<close>

definition policy_pool :: NodePool where
  "policy_pool = snd (policy_ast (NodePool_new True))"

lemma policy_pool_nodes:
  "fst (policy_ast (NodePool_new True)) = Some 17"
  "nodes policy_pool =
    [Node_new\<lparr>kind := K_LOAD, field_name := ''is_preinstall''\<rparr>, Node_new\<lparr>kind := K_LOAD, field_name := ''event_type''\<rparr>,
     Node_new\<lparr>kind := K_LOAD, field_name := ''is_sensitive''\<rparr>, Node_new\<lparr>kind := K_LOAD, field_name := ''is_unauthorized''\<rparr>,
     Node_new\<lparr>kind := K_CONST, const_value := 1\<rparr>,
     Node_new\<lparr>kind := K_EQ, result_kind := BITMASK, left := Some 0, right := Some 4\<rparr>,
     Node_new\<lparr>kind := K_CONST, const_value := 1\<rparr>,
     Node_new\<lparr>kind := K_EQ, result_kind := BITMASK, left := Some 2, right := Some 6\<rparr>,
     Node_new\<lparr>kind := K_CONST, const_value := 1\<rparr>,
     Node_new\<lparr>kind := K_EQ, result_kind := BITMASK, left := Some 3, right := Some 8\<rparr>,
     Node_new\<lparr>kind := K_CONST, const_value := 2\<rparr>,
     Node_new\<lparr>kind := K_EQ, result_kind := BITMASK, left := Some 1, right := Some 10\<rparr>,
     Node_new\<lparr>kind := K_AND, result_kind := BITMASK, left := Some 11, right := Some 7\<rparr>,
     Node_new\<lparr>kind := K_CONST, const_value := 3\<rparr>,
     Node_new\<lparr>kind := K_EQ, result_kind := BITMASK, left := Some 1, right := Some 13\<rparr>,
     Node_new\<lparr>kind := K_AND, result_kind := BITMASK, left := Some 14, right := Some 9\<rparr>,
     Node_new\<lparr>kind := K_OR, result_kind := BITMASK, left := Some 12, right := Some 15\<rparr>,
     Node_new\<lparr>kind := K_AND, result_kind := BITMASK, left := Some 5, right := Some 16\<rparr>]"
  by (simp_all add: policy_pool_def policy_ast_def builder_defs build_room NodePool_new_def MAX_NODES_def c_str_def
      EVENT_OPEN_def EVENT_CONNECT_def Node_new_def)

lemma policy_nodes_ok:
  "pool_wf (nodes policy_pool)" "length (nodes policy_pool) = 18" "is_mask_kind (kind (nodes policy_pool ! 17))"
  "all_nodes (run_analyzer (nodes policy_pool) 17) = [0, 4, 5, 1, 10, 11, 2, 6, 7, 12, 13, 14, 3, 8, 9, 15, 16, 17]"
  "list_all (jit_ok (nodes policy_pool)) [0, 4, 5, 1, 10, 11, 2, 6, 7, 12, 13, 14, 3, 8, 9, 15, 16, 17]"
  "list_all (\<lambda>i. kind (nodes policy_pool ! i) \<in> {K_LOAD, K_CONST} \<or> is_mask_kind (kind (nodes policy_pool ! i)))
     [0, 4, 5, 1, 10, 11, 2, 6, 7, 12, 13, 14, 3, 8, 9, 15, 16, 17]"
  unfolding policy_pool_nodes(2) by code_simp+

lemma policy_value:
  "node_value (nodes policy_pool) e 17 \<noteq> 0 \<longleftrightarrow>
     e ''is_preinstall'' = 1 \<and> (e ''event_type'' = 2 \<and> e ''is_sensitive'' = 1 \<or> e ''event_type'' = 3 \<and> e ''is_unauthorized'' = 1)"
proof -
  let ?ns = "nodes policy_pool"
  note inner = node_value_inner [OF policy_nodes_ok(1), unfolded policy_nodes_ok(2)]
  have "node_value ?ns e 0 = e ''is_preinstall''" "node_value ?ns e 1 = e ''event_type''"
    "node_value ?ns e 2 = e ''is_sensitive''" "node_value ?ns e 3 = e ''is_unauthorized''"
    "node_value ?ns e 4 = 1" "node_value ?ns e 6 = 1" "node_value ?ns e 8 = 1" "node_value ?ns e 10 = 2" "node_value ?ns e 13 = 3"
    by (simp_all add: node_value_leaf policy_pool_nodes(2))
  moreover from this have "node_value ?ns e 5 = mask_val (e ''is_preinstall'' = 1)" "node_value ?ns e 7 = mask_val (e ''is_sensitive'' = 1)"
    "node_value ?ns e 9 = mask_val (e ''is_unauthorized'' = 1)" "node_value ?ns e 11 = mask_val (e ''event_type'' = 2)"
    "node_value ?ns e 14 = mask_val (e ''event_type'' = 3)"
    by (subst inner; simp add: policy_pool_nodes(2) node_op_def)+
  moreover from this have "node_value ?ns e 12 = mask_val (e ''event_type'' = 2 \<and> e ''is_sensitive'' = 1)"
    "node_value ?ns e 15 = mask_val (e ''event_type'' = 3 \<and> e ''is_unauthorized'' = 1)"
    by (subst inner; simp add: policy_pool_nodes(2) node_op_def)+
  moreover from this have "node_value ?ns e 16 = mask_val (e ''event_type'' = 2 \<and> e ''is_sensitive'' = 1 \<or> e ''event_type'' = 3 \<and> e ''is_unauthorized'' = 1)"
    by (subst inner; simp add: policy_pool_nodes(2) node_op_def)
  ultimately have "node_value ?ns e 17 = mask_val (e ''is_preinstall'' = 1 \<and>
      (e ''event_type'' = 2 \<and> e ''is_sensitive'' = 1 \<or> e ''event_type'' = 3 \<and> e ''is_unauthorized'' = 1))"
    by (subst inner; simp add: policy_pool_nodes(2) node_op_def)
  then show ?thesis by simp
qed

section \<open>Installing the policy\<close>

lemma set_expression_total:
  assumes "pool_wf ns" and "root < length ns" and "all = all_nodes (run_analyzer ns root)" and "list_all (jit_ok ns) all"
    and "list_all (\<lambda>i. kind (ns ! i) \<in> {K_LOAD, K_CONST} \<or> is_mask_kind (kind (ns ! i))) all" and "length all \<le> 128"
    and "is_mask_kind (kind (ns ! root))" and "pf_add_ok pf"
  shows "\<exists>e' ns'. set_expression pf sn (Some root) BIT_SLICED (e, ns) = Some (e', ns') \<and> expr_logic e' \<noteq> [] \<and>
    schema_metadata e' = schema_metadata e"
proof -
  obtain code ns' where c: "compile_expression True 64 ns (Some root) = (Kernel code, ns')"
    using policy_compiles [OF assms(1-6)] by blast
  have k: "kind (ns' ! root) = kind (ns ! root)"
    using same_shape_sel(1) [OF compile_names_ok(2) [OF c assms(1,2) refl] assms(2)] .
  have ki: "kind (ns ! root) \<noteq> K_ADD" "kind (ns ! root) \<noteq> K_SUM" using assms(7) by (auto simp: is_mask_kind_def)
  then have m: "mark_skip BIT_SLICED root ns = Some ns" "sum_metadata ns' root = Some (0, [], [])"
    using k by (simp_all add: mark_skip_def sum_plus_const_def mark_sum_def sum_metadata_def)
  show ?thesis
    using c m assms(8)
    by (auto simp: set_expression_def compile_kernel_def Let_def update_alist_def simp del: collect_fields.simps)
qed

text \<open>An engine in which the policy is installed.\<close>

definition policy_ready :: "platform \<Rightarrow> ApexEngine \<Rightarrow> bool" where
  "policy_ready pf e \<longleftrightarrow> platform_ok pf \<and> pf_begin pf [''SyscallTrace''] = ''SyscallTrace'' \<and>
     registry e = registry_register ''SyscallTrace'' trace_fields Map.empty \<and>
     schema_metadata e ''SyscallTrace'' = Some \<lparr>sm_row_stride = 64, sm_fields = trace_fields\<rparr> \<and>
     (\<exists>el. expr_logic e = [(''SyscallTrace'', el)] \<and> logic_for (registry e) ''SyscallTrace'' (nodes policy_pool) 17 el) \<and>
     length (field_buffers e) = 128 \<and> (\<forall>x \<in> set (field_buffers e). length x = 64)"

lemma init_ready:
  assumes "platform_ok pf" and "pf_begin pf [''SyscallTrace''] = ''SyscallTrace''" and "length bufs = 128" and "\<forall>x \<in> set bufs. length x = 64"
  shows "\<exists>e p. init_JIT_schema pf (ApexEngine_new pc th bufs, NodePool_new True) = Some (e, p) \<and> policy_ready pf e"
proof -
  let ?sn = "''SyscallTrace''" and ?ns = "nodes policy_pool"
  define e0 where "e0 = register_schema ?sn trace_fields 64 (ApexEngine_new pc th bufs)"
  have e0: "expr_logic e0 = []" "registry e0 = registry_register ?sn trace_fields Map.empty"
    "schema_metadata e0 ?sn = Some \<lparr>sm_row_stride = 64, sm_fields = trace_fields\<rparr>" "field_buffers e0 = bufs"
    by (simp_all add: e0_def register_schema_def ApexEngine_new_def Let_def)
  have add: "pf_add_ok pf" using assms(1) by (simp add: platform_ok_def)
  have lt: "17 < length ?ns" by (simp add: policy_nodes_ok(2))
  obtain e' ns' where s: "set_expression pf ?sn (Some 17) BIT_SLICED (e0, ?ns) = Some (e', ns')" "expr_logic e' \<noteq> []"
    using set_expression_total [OF policy_nodes_ok(1) lt policy_nodes_ok(4) [symmetric] policy_nodes_ok(5,6) _ policy_nodes_ok(3) add, of ?sn e0]
    by auto
  have flds: "list_all (\<lambda>i. kind (?ns ! i) = K_LOAD \<longrightarrow> get_field (registry e0) ?sn (field_name (?ns ! i)) \<noteq> None)
      (all_nodes (run_analyzer ?ns 17))"
    unfolding policy_nodes_ok(4) e0(2) policy_pool_nodes(2) by code_simp
  have jo: "list_all (jit_ok ?ns) (all_nodes (run_analyzer ?ns 17))" unfolding policy_nodes_ok(4) by (rule policy_nodes_ok(5))
  obtain el where el: "expr_logic e' = [(?sn, el)]" "logic_for (registry e0) ?sn ?ns 17 el" "e' = e0\<lparr>expr_logic := [(?sn, el)]\<rparr>"
    by (rule set_expression_installs [OF s(1) e0(1) s(2) policy_nodes_ok(1) lt jo policy_nodes_ok(3) add flds])
  have "policy_ready pf e'" using assms el e0 by (auto simp: policy_ready_def)
  moreover have "policy_ast (NodePool_new True) = (Some 17, policy_pool)"
    using policy_pool_nodes(1) by (simp add: policy_pool_def prod_eq_iff)
  then have "init_JIT_schema pf (ApexEngine_new pc th bufs, NodePool_new True) = Some (e', policy_pool\<lparr>nodes := ns'\<rparr>)"
    using s(1) by (simp add: init_JIT_schema_def sizeof_SyscallTraceRecord_def e0_def Let_def)
  ultimately show ?thesis by blast
qed

section \<open>Records in memory\<close>

lemma length_encode_record: "record_wf r \<Longrightarrow> length (encode_record r) = 64"
  by (auto simp: record_wf_def encode_record_def length_Suc_conv numeral_2_eq_2)

lemma length_records: "\<forall>r \<in> set rs. record_wf r \<Longrightarrow> length (concat (map encode_record rs)) = length rs * 64"
  by (induction rs) (simp_all add: length_encode_record)

lemma drop_records:
  "\<forall>r \<in> set rs. record_wf r \<Longrightarrow> i \<le> length rs \<Longrightarrow>
   drop (i * 64) (concat (map encode_record rs)) = concat (map encode_record (drop i rs))"
proof (induction i arbitrary: rs)
  case (Suc i)
  then obtain r rs' where rs: "rs = r # rs'" by (cases rs) auto
  with Suc.prems have "length (encode_record r) = 64" "\<forall>r \<in> set rs'. record_wf r" "i \<le> length rs'"
    by (auto simp: length_encode_record)
  with Suc.IH [of rs'] show ?case by (simp add: rs)
qed simp

lemma read64_at: "drop a data = pre @ le_bytes 8 v @ post \<Longrightarrow> length pre = off \<Longrightarrow> read64 data (a + off) = v"
proof -
  assume d: "drop a data = pre @ le_bytes 8 v @ post" and l: "length pre = off"
  have "drop (a + off) data = drop off (drop a data)" by (simp add: add.commute)
  also have "\<dots> = le_bytes 8 v @ post" by (simp only: d l [symmetric] append_eq_conv_conj) simp
  finally show ?thesis by (simp add: read64_def)
qed

lemma read_record_field:
  assumes "\<forall>r \<in> set rs. record_wf r" and "i < length rs" and "encode_record (rs ! i) = pre @ le_bytes 8 v @ post" and "length pre = off"
  shows "read64 (concat (map encode_record rs)) (i * 64 + off) = v"
proof (rule read64_at [OF _ assms(4)])
  show "drop (i * 64) (concat (map encode_record rs)) = pre @ le_bytes 8 v @ (post @ concat (map encode_record (drop (Suc i) rs)))"
    using drop_records [OF assms(1), of i] assms(2,3) by (simp add: Cons_nth_drop_Suc [symmetric])
qed

lemma row_field_record:
  assumes "\<forall>r \<in> set rs. record_wf r" and "i < length rs" and "reg = registry_register ''SyscallTrace'' trace_fields Map.empty"
  defines "e \<equiv> row_field reg ''SyscallTrace'' (concat (map encode_record rs)) 64 i"
  shows "e ''event_type'' = tr_event_type (rs ! i)" "e ''is_preinstall'' = tr_is_preinstall (rs ! i)"
    "e ''is_sensitive'' = tr_is_sensitive (rs ! i)" "e ''is_unauthorized'' = tr_is_unauthorized (rs ! i)"
proof -
  note rd = read_record_field [OF assms(1,2)]
  let ?r = "rs ! i"
  have g: "get_field reg ''SyscallTrace'' ''event_type'' = Some (trace_field ''event_type'' 16)"
    "get_field reg ''SyscallTrace'' ''is_preinstall'' = Some (trace_field ''is_preinstall'' 24)"
    "get_field reg ''SyscallTrace'' ''is_sensitive'' = Some (trace_field ''is_sensitive'' 32)"
    "get_field reg ''SyscallTrace'' ''is_unauthorized'' = Some (trace_field ''is_unauthorized'' 40)"
    by (simp_all add: assms(3) registry_register_def emplace_def get_field_def trace_fields_def trace_field_def)
  have "read64 (concat (map encode_record rs)) (i * 64 + 16) = tr_event_type ?r"
    by (rule rd [of "le_bytes 8 (tr_pid ?r) @ le_bytes 8 (tr_ppid ?r)"]) (simp_all add: encode_record_def)
  moreover have "read64 (concat (map encode_record rs)) (i * 64 + 24) = tr_is_preinstall ?r"
    by (rule rd [of "le_bytes 8 (tr_pid ?r) @ le_bytes 8 (tr_ppid ?r) @ le_bytes 8 (tr_event_type ?r)"]) (simp_all add: encode_record_def)
  moreover have "read64 (concat (map encode_record rs)) (i * 64 + 32) = tr_is_sensitive ?r"
    by (rule rd [of "le_bytes 8 (tr_pid ?r) @ le_bytes 8 (tr_ppid ?r) @ le_bytes 8 (tr_event_type ?r) @ le_bytes 8 (tr_is_preinstall ?r)"])
      (simp_all add: encode_record_def)
  moreover have "read64 (concat (map encode_record rs)) (i * 64 + 40) = tr_is_unauthorized ?r"
    by (rule rd [of "le_bytes 8 (tr_pid ?r) @ le_bytes 8 (tr_ppid ?r) @ le_bytes 8 (tr_event_type ?r) @ le_bytes 8 (tr_is_preinstall ?r) @
      le_bytes 8 (tr_is_sensitive ?r)"]) (simp_all add: encode_record_def)
  ultimately show "e ''event_type'' = tr_event_type ?r" "e ''is_preinstall'' = tr_is_preinstall ?r"
    "e ''is_sensitive'' = tr_is_sensitive ?r" "e ''is_unauthorized'' = tr_is_unauthorized ?r"
    by (simp_all add: e_def row_field_def g trace_field_def)
qed

text \<open>The fields the policy loads end at byte 48 of a record.\<close>

lemma policy_rows_in_buffer:
  assumes "n * 64 \<le> length data"
  shows "rows_in_buffer (registry_register ''SyscallTrace'' trace_fields Map.empty) ''SyscallTrace'' (nodes policy_pool) 17 64 n data"
proof (cases n)
  case (Suc k)
  let ?reg = "registry_register ''SyscallTrace'' trace_fields Map.empty"
  have "list_all (\<lambda>i. kind (nodes policy_pool ! i) = K_LOAD \<longrightarrow>
      (case get_field ?reg ''SyscallTrace'' (field_name (nodes policy_pool ! i)) of None \<Rightarrow> True | Some f \<Rightarrow> unat (fd_offset f) + 8 \<le> 64))
      (all_nodes (run_analyzer (nodes policy_pool) 17))"
    unfolding policy_nodes_ok(4) policy_pool_nodes(2) by code_simp
  then show ?thesis using assms Suc unfolding rows_in_buffer_def list_all_iff by (auto split: option.splits)
qed (simp add: rows_in_buffer_def)

section \<open>The compiled policy and the event-by-event policy\<close>

lemma filter_nth: "length (filter (\<lambda>i. P (xs ! i)) [0..<length xs]) = length (filter P xs)"
proof -
  have "filter P xs = filter P (map ((!) xs) [0..<length xs])" by (simp add: map_nth)
  then show ?thesis by (simp add: filter_map comp_def)
qed

lemma batch_counts:
  assumes "registry e = registry_register ''SyscallTrace'' trace_fields Map.empty" and "\<forall>r \<in> set rs. flags_01 r"
    and "\<forall>data n. n * 64 \<le> length data \<longrightarrow> map_option fst (execute pf data n e) = Some (of_nat (length (filter
      (\<lambda>i. node_value (nodes policy_pool) (row_field (registry e) ''SyscallTrace'' data 64 i) 17 \<noteq> 0) [0..<n])))"
  shows "map_option fst (evaluate_batch pf rs e) = Some (of_nat (length (filter record_violates rs)))"
proof -
  have wf: "\<forall>r \<in> set rs. record_wf r" using assms(2) by (simp add: flags_01_def)
  have "node_value (nodes policy_pool) (row_field (registry e) ''SyscallTrace'' (concat (map encode_record rs)) 64 i) 17 \<noteq> 0 \<longleftrightarrow>
      record_violates (rs ! i)" if i: "i < length rs" for i
  proof -
    have "flags_01 (rs ! i)" using assms(2) i nth_mem by blast
    then show ?thesis
      by (auto simp: policy_value row_field_record [OF wf i assms(1)] record_violates_def flags_01_def EVENT_OPEN_def EVENT_CONNECT_def)
  qed
  then have "filter (\<lambda>i. node_value (nodes policy_pool) (row_field (registry e) ''SyscallTrace'' (concat (map encode_record rs)) 64 i) 17 \<noteq> 0)
      [0..<length rs] = filter (\<lambda>i. record_violates (rs ! i)) [0..<length rs]"
    by (intro filter_cong) simp_all
  with spec [OF spec [OF assms(3), of "concat (map encode_record rs)"], of "length rs"] length_records [OF wf] show ?thesis
    by (simp add: evaluate_batch_def filter_nth)
qed

lemma ready_execute:
  assumes "policy_ready pf e" and "n * 64 \<le> length data"
  shows "\<exists>e'. execute pf data n e = Some (of_nat (length (filter
    (\<lambda>i. node_value (nodes policy_pool) (row_field (registry e) ''SyscallTrace'' data 64 i) 17 \<noteq> 0) [0..<n])), e') \<and> policy_ready pf e'"
proof -
  obtain el where el: "expr_logic e = [(''SyscallTrace'', el)]" "logic_for (registry e) ''SyscallTrace'' (nodes policy_pool) 17 el"
    and r: "platform_ok pf" "pf_begin pf [''SyscallTrace''] = ''SyscallTrace''"
    "schema_metadata e ''SyscallTrace'' = Some \<lparr>sm_row_stride = 64, sm_fields = trace_fields\<rparr>"
    "length (field_buffers e) = 128" "\<forall>x \<in> set (field_buffers e). length x = 64"
    using assms(1) unfolding policy_ready_def by blast
  have "rows_in_buffer (registry e) ''SyscallTrace'' (nodes policy_pool) 17 64 n data"
    using policy_rows_in_buffer [OF assms(2)] assms(1) by (simp add: policy_ready_def)
  with execute_counts [OF el(2) r(1) el(1) r(3,2,4,5), of n data] obtain bufs where
    x: "execute pf data n e = Some (of_nat (length (filter (\<lambda>i. node_value (nodes policy_pool)
      (row_field (registry e) ''SyscallTrace'' data 64 i) 17 \<noteq> 0) [0..<n])), e\<lparr>field_buffers := bufs\<rparr>)"
      "length bufs = 128" "\<forall>x \<in> set bufs. length x = 64" by auto
  moreover from this have "policy_ready pf (e\<lparr>field_buffers := bufs\<rparr>)" using assms(1) by (auto simp: policy_ready_def)
  ultimately show ?thesis by blast
qed

lemma evaluate_batch_ready:
  assumes "policy_ready pf e" and "\<forall>r \<in> set rs. flags_01 r"
  shows "\<exists>e'. evaluate_batch pf rs e = Some (of_nat (length (filter record_violates rs)), e') \<and> policy_ready pf e'"
proof -
  have "length rs * 64 \<le> length (concat (map encode_record rs))" using assms(2) length_records [of rs] by (simp add: flags_01_def)
  then have "\<exists>v e'. evaluate_batch pf rs e = Some (v, e') \<and> policy_ready pf e'"
    using ready_execute [OF assms(1), of "length rs" "concat (map encode_record rs)"] assms(1)
    by (cases "rs = []") (auto simp: evaluate_batch_def)
  moreover have "map_option fst (evaluate_batch pf rs e) = Some (of_nat (length (filter record_violates rs)))"
  proof (rule batch_counts [OF _ assms(2)])
    show "registry e = registry_register ''SyscallTrace'' trace_fields Map.empty" using assms(1) by (simp add: policy_ready_def)
    show "\<forall>data n. n * 64 \<le> length data \<longrightarrow> map_option fst (execute pf data n e) = Some (of_nat (length (filter
        (\<lambda>i. node_value (nodes policy_pool) (row_field (registry e) ''SyscallTrace'' data 64 i) 17 \<noteq> 0) [0..<n])))"
    proof (intro allI impI)
      fix data :: "u8 list" and n assume "n * 64 \<le> length data"
      from ready_execute [OF assms(1) this] show "map_option fst (execute pf data n e) = Some (of_nat (length (filter
        (\<lambda>i. node_value (nodes policy_pool) (row_field (registry e) ''SyscallTrace'' data 64 i) 17 \<noteq> 0) [0..<n])))" by auto
    qed
  qed
  ultimately show ?thesis by auto
qed

text \<open>
  Claim C9. The compiled policy and the event-by-event policy agree: \<open>init_JIT_schema\<close> always
  succeeds, and after it, for every sequence of events, \<open>evaluate_batch\<close> on the records
  \<open>process_event\<close> returned for them (whatever their number) returns the number of records that are
  violations. The result passes through the expression builders, the JIT compiler, the emitted AArch64
  code and the bit slicer.
\<close>

theorem evaluate_batch_counts_violations:
  assumes "platform_ok pf" and "pf_begin pf [''SyscallTrace''] = ''SyscallTrace''"
    and "length bufs = 128" and "\<forall>x \<in> set bufs. length x = 64"
  shows "\<exists>e p. init_JIT_schema pf (ApexEngine_new pc th bufs, NodePool_new True) = Some (e, p) \<and>
    map_option fst (evaluate_batch pf (fst (process_events pe evs)) e) =
      Some (of_nat (length (filter record_violates (fst (process_events pe evs)))))"
proof -
  obtain e p where ini: "init_JIT_schema pf (ApexEngine_new pc th bufs, NodePool_new True) = Some (e, p)" "policy_ready pf e"
    using init_ready [OF assms] by blast
  from evaluate_batch_ready [OF ini(2) process_events_flags [of pe evs]]
  have "map_option fst (evaluate_batch pf (fst (process_events pe evs)) e) =
      Some (of_nat (length (filter record_violates (fst (process_events pe evs)))))" by auto
  with ini(1) show ?thesis by blast
qed

lemma ex_violation:
  "length (filter record_violates (fst (process_events PolicyEngine_new
     [mk_event EVENT_EXEC 7 5 ''sh'' ''/bin/sh'' 0, mk_event EVENT_CONNECT 7 5 ''sh'' [] 0, mk_event EVENT_CONNECT 9 5 ''sh'' [] 0]))) = 1"
  by code_simp

theorem evaluate_batch_counts_violations_witness:
  "platform_ok ex_platform \<and> (\<exists>e p. init_JIT_schema ex_platform (ApexEngine_new None None (replicate 128 (replicate 64 7)), NodePool_new True) =
     Some (e, p) \<and> map_option fst (evaluate_batch ex_platform (fst (process_events PolicyEngine_new
     [mk_event EVENT_EXEC 7 5 ''sh'' ''/bin/sh'' 0, mk_event EVENT_CONNECT 7 5 ''sh'' [] 0, mk_event EVENT_CONNECT 9 5 ''sh'' [] 0])) e) = Some 1)"
proof -
  have "pf_begin ex_platform [''SyscallTrace''] = ''SyscallTrace''" by (simp add: ex_platform_def)
  from evaluate_batch_counts_violations [OF ex_platform_ok this, of "replicate 128 (replicate 64 7)" None None PolicyEngine_new
    "[mk_event EVENT_EXEC 7 5 ''sh'' ''/bin/sh'' 0, mk_event EVENT_CONNECT 7 5 ''sh'' [] 0, mk_event EVENT_CONNECT 9 5 ''sh'' [] 0]"]
  show ?thesis unfolding ex_violation by (simp add: ex_platform_ok)
qed

text \<open>
  A batch is counted exactly: after \<open>set_expression\<close> has installed a well-formed boolean
  expression over the fields of a schema in bit-sliced mode, \<open>execute\<close> on a batch of any number of
  rows returns the number of rows on which the expression is true; chunks of fewer than 64 rows and
  the padding of the last chunk do not change the count.
\<close>

lemma execute_counts_matching_rows:
  assumes "set_expression pf sn (Some root) BIT_SLICED (e, ns) = Some (e', ns')" and "expr_logic e = []" and "expr_logic e' \<noteq> []"
    and "pool_wf ns" and "root < length ns" and "list_all (jit_ok ns) (all_nodes (run_analyzer ns root))"
    and "is_mask_kind (kind (ns ! root))"
    and "list_all (\<lambda>i. kind (ns ! i) = K_LOAD \<longrightarrow> get_field (registry e) sn (field_name (ns ! i)) \<noteq> None) (all_nodes (run_analyzer ns root))"
    and "platform_ok pf" and "pf_begin pf [sn] = sn" and "schema_metadata e sn = Some sm"
    and "length (field_buffers e) = 128" and "\<forall>x \<in> set (field_buffers e). length x = 64"
    and "rows_in_buffer (registry e) sn ns root (sm_row_stride sm) n data"
  shows "map_option fst (execute pf data n e') = Some (of_nat (length (filter
    (\<lambda>i. node_value ns (row_field (registry e) sn data (sm_row_stride sm) i) root \<noteq> 0) [0..<n])))"
proof -
  have "pf_add_ok pf" using assms(9) by (simp add: platform_ok_def)
  from set_expression_installs [OF assms(1-7) this assms(8)] obtain el
    where el: "expr_logic e' = [(sn, el)]" "logic_for (registry e) sn ns root el" "e' = e\<lparr>expr_logic := [(sn, el)]\<rparr>" by blast
  then have r: "registry e' = registry e" "schema_metadata e' sn = Some sm" "field_buffers e' = field_buffers e"
    using assms(11) by simp_all
  from execute_counts [of e' sn ns root el pf sm n data] el(1,2) r assms(9,10,12-14) show ?thesis by auto
qed

lemma execute_counts_matching_rows_witness:
  "\<exists>e' ns'. set_expression ex_platform ''SyscallTrace'' (Some 17) BIT_SLICED
       (register_schema ''SyscallTrace'' trace_fields 64 (ApexEngine_new None None (replicate 128 (replicate 64 7))), nodes policy_pool) = Some (e', ns') \<and>
     map_option fst (execute ex_platform [] 0 e') = Some 0"
proof -
  define e where "e = register_schema ''SyscallTrace'' trace_fields 64 (ApexEngine_new None None (replicate 128 (replicate 64 7)))"
  have e: "expr_logic e = []" "registry e = registry_register ''SyscallTrace'' trace_fields Map.empty"
    "schema_metadata e ''SyscallTrace'' = Some \<lparr>sm_row_stride = 64, sm_fields = trace_fields\<rparr>" "field_buffers e = replicate 128 (replicate 64 7)"
    by (simp_all add: e_def register_schema_def ApexEngine_new_def Let_def)
  have lt: "17 < length (nodes policy_pool)" by (simp add: policy_nodes_ok(2))
  have add: "pf_add_ok ex_platform" by (simp add: ex_platform_def)
  obtain e' ns' where s: "set_expression ex_platform ''SyscallTrace'' (Some 17) BIT_SLICED (e, nodes policy_pool) = Some (e', ns')" "expr_logic e' \<noteq> []"
    using set_expression_total [OF policy_nodes_ok(1) lt policy_nodes_ok(4) [symmetric] policy_nodes_ok(5,6) _ policy_nodes_ok(3) add, of "''SyscallTrace''" e]
    by auto
  have flds: "list_all (\<lambda>i. kind (nodes policy_pool ! i) = K_LOAD \<longrightarrow>
      get_field (registry e) ''SyscallTrace'' (field_name (nodes policy_pool ! i)) \<noteq> None) (all_nodes (run_analyzer (nodes policy_pool) 17))"
    unfolding policy_nodes_ok(4) e(2) policy_pool_nodes(2) by code_simp
  have "list_all (jit_ok (nodes policy_pool)) (all_nodes (run_analyzer (nodes policy_pool) 17))"
    unfolding policy_nodes_ok(4) by (rule policy_nodes_ok(5))
  from execute_counts_matching_rows [OF s(1) e(1) s(2) policy_nodes_ok(1) lt this policy_nodes_ok(3) flds ex_platform_ok _ e(3), of 0 "[]"]
  show ?thesis using s(1) unfolding e_def [symmetric] by (simp add: e(4) ex_platform_def rows_in_buffer_def)
qed

end
