(* ===== verification/Parallel_Correct.thy ===== *)
theory Parallel_Correct
  imports Apex_Native Policy_Jit
begin

text \<open>
  The parallel engine against the sequential one: the result slots of every schedule of the thread pool
  hold what the tasks compute, the parallel count is the sequential count for expressions over 1 to 32
  fields, and an expression without fields is counted as zero.
\<close>

section \<open>The fields of an expression\<close>

definition loaded_fields :: "Node list \<Rightarrow> nat \<Rightarrow> string set" where
  "loaded_fields ns root = {field_name (ns ! i) | i. i \<in> set (all_nodes (run_analyzer ns root)) \<and> kind (ns ! i) = K_LOAD}"

lemma loaded_fields_code:
  "loaded_fields ns root = set (map (\<lambda>i. field_name (ns ! i)) (filter (\<lambda>i. kind (ns ! i) = K_LOAD) (all_nodes (run_analyzer ns root))))"
  by (auto simp: loaded_fields_def)

lemma el_fields_loaded:
  assumes "logic_for reg sn ns root el"
  shows "length (el_fields el) \<le> card (loaded_fields ns root)" and "loaded_fields ns root \<noteq> {} \<Longrightarrow> el_fields el \<noteq> []"
proof -
  obtain code ns' where lf: "pool_wf ns" "root < length ns"
    and C: "compile_expression True 64 ns (Some root) = (Kernel code, ns')"
    using assms unfolding logic_for_def by blast
  let ?all = "all_nodes (run_analyzer ns root)"
  obtain fs where fs: "names_ok fs ns' ?all" using compile_names_ok(1) [OF C lf refl] by blast
  have sh: "same_shape ns ns'" using compile_names_ok(2) [OF C lf refl] .
  have sel: "kind (ns' ! i) = kind (ns ! i)" "field_name (ns' ! i) = field_name (ns ! i)" if "i \<in> set ?all" for i
    using same_shape_sel [OF sh] all_nodes_closed [OF lf that] by simp_all
  have "set fs \<subseteq> loaded_fields ns root" using fs sel by (fastforce simp: names_ok_def loaded_fields_def)
  then have "length fs \<le> card (loaded_fields ns root)"
    using fs card_mono [of "loaded_fields ns root" "set fs"] by (simp add: loaded_fields_code names_ok_def distinct_card)
  moreover have "length (el_fields el) \<le> length fs"
  proof (cases "el_fields el = []")
    case False
    then show ?thesis using el_fields_index [OF assms C fs] by (cases "el_fields el") auto
  qed simp
  ultimately show "length (el_fields el) \<le> card (loaded_fields ns root)" by simp
  show "el_fields el \<noteq> []" if ne: "loaded_fields ns root \<noteq> {}"
  proof -
    obtain i where i: "i \<in> set ?all" "kind (ns ! i) = K_LOAD" using ne by (auto simp: loaded_fields_def)
    then show ?thesis using table_entries [OF assms C fs sh i] by (metis list.size(3) not_less_zero)
  qed
qed

section \<open>A concrete worker\<close>

definition ex_worker :: worker_env where
  "ex_worker = \<lparr>we_lanes = (\<lambda>s. 2), we_layout = \<lparr>la_planes = 0, la_buffers = 256, la_scratch = 16640, la_sp = 2113888, la_regs = (\<lambda>r. 0)\<rparr>,
     we_malloc_ok = True, we_buffers = replicate 32 (replicate 64 9), we_cycles = (10, 25)\<rparr>"

definition ex_config :: TaskConfig where
  "ex_config = \<lparr>tc_kernel = Straight [I_MOVI (X 0) 5, I_RET],
     tc_fields = [Some \<lparr>fd_name = ''a'', fd_offset = 0, fd_bit_width = 64, fd_type = UINT64\<rparr>], tc_row_stride = 8, tc_mode = BIT_SLICED,
     tc_result_kind = 1, tc_base_sum = 0, tc_delta_weights = [], tc_masks_to_popcount = [], tc_active_bits = 64\<rparr>"

lemma ex_worker_ok: "worker_ok ex_worker"
proof -
  have "region 0 32 @ region 256 2048 @ region 16640 262144 @ region 2113792 12 = region 0 264236"
    using region_append [of 0 32 2048] region_append [of 0 2080 262144] region_append [of 0 264224 12]
    by (simp del: append_assoc add: append_assoc [symmetric])
  then show ?thesis using distinct_region [of 264236 0]
    by (simp add: worker_ok_def ex_worker_def layout_ok_def lanes_ok_def MAX_SLOTS_def)
qed

section \<open>Schedules\<close>

text \<open>
  Claim C6. The parallel result does not depend on the schedule: for every number of pool threads and
  every interleaving, once \<open>wait_all\<close> has returned the result slots aggregate to the value of
  \<open>run\<close>, the sum over the tasks.
\<close>

theorem run_schedule_independent:
  assumes "pool_steps (run_worker wes cfg data) (ThreadPool_new threads (run_tasks n nt)) s" and "0 < threads"
    and "past_wait (pool_client s)"
  shows "total_count (map (\<lambda>t. the (pool_results s t)) [0..<length (run_tasks n nt)]) = run wes data n cfg nt"
proof -
  let ?ts = "run_tasks n nt"
  have "distinct (map wt_result ?ts)" by (simp add: run_tasks_slots)
  then have inj: "inj_on wt_result (set ?ts)" by (simp add: distinct_map)
  have "pool_results s (wt_result t) = Some (run_worker wes cfg data t)" if "t \<in> set ?ts" for t
    by (rule returned_results [OF pool_inv_reachable [OF assms(1,2) inj] assms(3) that])
  then have "map (\<lambda>t. the (pool_results s t)) (map wt_result ?ts) = map (run_worker wes cfg data) ?ts" by simp
  then show ?thesis unfolding run_tasks_slots by (simp add: run_def)
qed

theorem run_schedule_independent_witness:
  "\<exists>s :: PaddedResult option ThreadPool. pool_client s = Joined \<and> total_count (map (\<lambda>t. the (pool_results s t)) [0..<length (run_tasks 200 3)]) =
     run (\<lambda>t. ex_worker) [] 200 ex_config 3"
proof -
  have "distinct (map wt_result (run_tasks 200 3))" by (simp only: run_tasks_slots distinct_upt)
  then have "inj_on wt_result (set (run_tasks 200 3))" by (simp only: distinct_map)
  then obtain s where s: "pool_steps (run_worker (\<lambda>t. ex_worker) ex_config []) (ThreadPool_new 2 (run_tasks 200 3)) s" "pool_client s = Joined"
    using pool_run_joined [of 2] by (metis zero_less_numeral)
  from run_schedule_independent [OF s(1)] s(2) show ?thesis by (intro exI [of _ s]) simp
qed

section \<open>The parallel engine\<close>

lemma installed:
  assumes "set_expression pf sn (Some root) BIT_SLICED (e, ns) = Some (e', ns')" and "expr_logic e = []" and "expr_logic e' \<noteq> []"
    and "pool_wf ns" and "root < length ns" and "list_all (jit_ok ns) (all_nodes (run_analyzer ns root))"
    and "is_mask_kind (kind (ns ! root))" and "pf_add_ok pf"
    and "list_all (\<lambda>i. kind (ns ! i) = K_LOAD \<longrightarrow> get_field (registry e) sn (field_name (ns ! i)) \<noteq> None) (all_nodes (run_analyzer ns root))"
    and "pf_begin pf [sn] = sn" and "schema_metadata e sn = Some sm"
  obtains el where "logic_for (registry e) sn ns root el"
    and "\<And>wes data n nt. execute_parallel pf wes data n nt e' = map_option (\<lambda>k. (k, e'))
      (run wes data n (task_config el sm) (if nt \<le> 0 then num_threads e' else nt))"
proof -
  obtain el where el: "expr_logic e' = [(sn, el)]" "logic_for (registry e) sn ns root el" "e' = e\<lparr>expr_logic := [(sn, el)]\<rparr>"
    by (rule set_expression_installs [OF assms(1-9)])
  then have "schema_metadata e' sn = Some sm" using assms(11) by simp
  then have "execute_parallel pf wes data n nt e' = map_option (\<lambda>k. (k, e'))
      (run wes data n (task_config el sm) (if nt \<le> 0 then num_threads e' else nt))" for wes data n nt
    using el(1) assms(10) by (simp add: execute_parallel_def Let_def)
  with el(2) show thesis using that by blast
qed

text \<open>An installed expression over at most 32 fields, run by the parallel engine.\<close>

lemma execute_parallel_counts:
  assumes "set_expression pf sn (Some root) BIT_SLICED (e, ns) = Some (e', ns')" and "expr_logic e = []" and "expr_logic e' \<noteq> []"
    and "pool_wf ns" and "root < length ns" and "list_all (jit_ok ns) (all_nodes (run_analyzer ns root))"
    and "is_mask_kind (kind (ns ! root))" and "pf_add_ok pf"
    and "list_all (\<lambda>i. kind (ns ! i) = K_LOAD \<longrightarrow> get_field (registry e) sn (field_name (ns ! i)) \<noteq> None) (all_nodes (run_analyzer ns root))"
    and "pf_begin pf [sn] = sn" and "schema_metadata e sn = Some sm"
    and "loaded_fields ns root \<noteq> {}" and "card (loaded_fields ns root) \<le> 32" and "\<forall>t. worker_ok (wes t)"
    and "rows_in_buffer (registry e) sn ns root (sm_row_stride sm) n data"
  shows "execute_parallel pf wes data n nt e' = Some (of_nat (length (filter
    (\<lambda>i. node_value ns (row_field (registry e) sn data (sm_row_stride sm) i) root \<noteq> 0) [0..<n])), e')"
proof -
  obtain el where el: "logic_for (registry e) sn ns root el" and ex: "\<And>wes data n nt. execute_parallel pf wes data n nt e' =
      map_option (\<lambda>k. (k, e')) (run wes data n (task_config el sm) (if nt \<le> 0 then num_threads e' else nt))"
    by (rule installed [OF assms(1-11)]) blast
  have "length (el_fields el) \<le> 32" "el_fields el \<noteq> []" using el_fields_loaded [OF el] assms(12,13) by auto
  from run_counts [OF el this _ assms(15), where wes = wes] assms(14) show ?thesis by (simp add: ex)
qed



text \<open>
  An expression without fields is lost by the parallel engine: whatever it evaluates to,
  \<open>execute_parallel\<close> returns 0, while \<open>execute\<close> counts the rows (all of them for a
  constant truth).
\<close>

lemma parallel_without_fields_zero:
  assumes "set_expression pf sn (Some root) BIT_SLICED (e, ns) = Some (e', ns')" and "expr_logic e = []" and "expr_logic e' \<noteq> []"
    and "pool_wf ns" and "root < length ns" and "list_all (jit_ok ns) (all_nodes (run_analyzer ns root))"
    and "is_mask_kind (kind (ns ! root))" and "pf_add_ok pf" and "pf_begin pf [sn] = sn" and "schema_metadata e sn = Some sm"
    and "loaded_fields ns root = {}"
  shows "execute_parallel pf wes data n nt e' = Some (0, e')"
proof -
  have "list_all (\<lambda>i. kind (ns ! i) = K_LOAD \<longrightarrow> get_field (registry e) sn (field_name (ns ! i)) \<noteq> None) (all_nodes (run_analyzer ns root))"
    using assms(11) by (auto simp: loaded_fields_def list_all_iff)
  then obtain el where el: "logic_for (registry e) sn ns root el" and ex: "\<And>wes data n nt. execute_parallel pf wes data n nt e' =
      map_option (\<lambda>k. (k, e')) (run wes data n (task_config el sm) (if nt \<le> 0 then num_threads e' else nt))"
    using installed [OF assms(1-8) _ assms(9,10)] by blast
  have "el_fields el = []" using el_fields_loaded(1) [OF el] assms(11) by simp
  then have "run_worker wes (task_config el sm) data t = Some \<lparr>pr_count = 0, pr_cycles = 0\<rparr>" for t
    by (simp add: run_worker_def worker_thread_def task_config_def)
  then show ?thesis by (auto simp: ex run_def total_count_def comp_def)
qed

text \<open>The constant truth \<open>1 > 0\<close>.\<close>

definition true_nodes :: "Node list" where
  "true_nodes = [Node_new\<lparr>kind := K_CONST, const_value := 1\<rparr>, Node_new\<lparr>kind := K_CONST, const_value := 0\<rparr>,
     Node_new\<lparr>kind := K_GT, result_kind := BITMASK, left := Some 0, right := Some 1\<rparr>]"

lemma true_nodes_ok:
  "pool_wf true_nodes" "all_nodes (run_analyzer true_nodes 2) = [0, 1, 2]" "list_all (jit_ok true_nodes) [0, 1, 2]"
  "is_mask_kind (kind (true_nodes ! 2))"
  "list_all (\<lambda>i. kind (true_nodes ! i) \<in> {K_LOAD, K_CONST} \<or> is_mask_kind (kind (true_nodes ! i))) [0, 1, 2]"
  by code_simp+

lemma parallel_without_fields_zero_witness:
  "\<exists>e' ns'. set_expression ex_platform ''S'' (Some 2) BIT_SLICED
       (register_schema ''S'' [] 8 (ApexEngine_new None None (replicate 128 (replicate 64 0))), true_nodes) = Some (e', ns') \<and>
     execute_parallel ex_platform (\<lambda>t. ex_worker) (replicate 8 0) 1 4 e' = Some (0, e') \<and>
     map_option fst (execute ex_platform (replicate 8 0) 1 e') = Some 1"
proof -
  define e where "e = register_schema ''S'' [] 8 (ApexEngine_new None None (replicate 128 (replicate 64 0)))"
  have e: "expr_logic e = []" "schema_metadata e ''S'' = Some \<lparr>sm_row_stride = 8, sm_fields = []\<rparr>"
    "field_buffers e = replicate 128 (replicate 64 0)"
    by (simp_all add: e_def register_schema_def ApexEngine_new_def Let_def)
  have lt: "2 < length true_nodes" by (simp add: true_nodes_def)
  have add: "pf_add_ok ex_platform" and beg: "pf_begin ex_platform [''S''] = ''S''" by (simp_all add: ex_platform_def)
  obtain e' ns' where s: "set_expression ex_platform ''S'' (Some 2) BIT_SLICED (e, true_nodes) = Some (e', ns')" "expr_logic e' \<noteq> []"
    using set_expression_total [OF true_nodes_ok(1) lt true_nodes_ok(2) [symmetric] true_nodes_ok(3,5) _ true_nodes_ok(4) add, of "''S''" e]
    by auto
  have jo: "list_all (jit_ok true_nodes) (all_nodes (run_analyzer true_nodes 2))" unfolding true_nodes_ok(2) by (rule true_nodes_ok(3))
  have ld: "loaded_fields true_nodes 2 = {}" unfolding loaded_fields_code true_nodes_ok(2) by (simp add: true_nodes_def Node_new_def)
  then have fl: "list_all (\<lambda>i. kind (true_nodes ! i) = K_LOAD \<longrightarrow> get_field (registry e) ''S'' (field_name (true_nodes ! i)) \<noteq> None)
      (all_nodes (run_analyzer true_nodes 2))" by (auto simp: loaded_fields_def list_all_iff)
  obtain el where el: "expr_logic e' = [(''S'', el)]" "logic_for (registry e) ''S'' true_nodes 2 el" "e' = e\<lparr>expr_logic := [(''S'', el)]\<rparr>"
    by (rule set_expression_installs [OF s(1) e(1) s(2) true_nodes_ok(1) lt jo true_nodes_ok(4) add fl])
  have v: "node_value true_nodes env 2 \<noteq> 0" for env
    by (subst node_value_inner [OF true_nodes_ok(1)]) (simp_all add: true_nodes_def node_op_def node_value_leaf)
  have "map_option fst (execute ex_platform (replicate 8 0) 1 e') = Some 1"
  proof -
    have r: "logic_for (registry e') ''S'' true_nodes 2 el" "schema_metadata e' ''S'' = Some \<lparr>sm_row_stride = 8, sm_fields = []\<rparr>"
      "length (field_buffers e') = 128" "\<forall>x \<in> set (field_buffers e'). length x = 64"
      using el e by simp_all
    have "rows_in_buffer (registry e') ''S'' true_nodes 2 8 1 (replicate 8 0)"
      unfolding rows_in_buffer_def true_nodes_ok(2) by (simp add: true_nodes_def Node_new_def)
    then show ?thesis using execute_counts [OF r(1) ex_platform_ok el(1) r(2) beg r(3,4), of 1 "replicate 8 0"] v by auto
  qed
  moreover have "execute_parallel ex_platform (\<lambda>t. ex_worker) (replicate 8 0) 1 4 e' = Some (0, e')"
    by (rule parallel_without_fields_zero [OF s(1) e(1) s(2) true_nodes_ok(1) lt jo true_nodes_ok(4) add beg e(2) ld])
  ultimately show ?thesis using s(1) unfolding e_def [symmetric] by blast
qed

section \<open>The native and the vector engine\<close>

lemma installed_logic:
  assumes "set_expression pf sn (Some root) BIT_SLICED (e, ns) = Some (e', ns')" and "expr_logic e = []" and "expr_logic e' \<noteq> []"
    and "pool_wf ns" and "root < length ns" and "list_all (jit_ok ns) (all_nodes (run_analyzer ns root))"
    and "is_mask_kind (kind (ns ! root))" and "pf_add_ok pf"
    and "list_all (\<lambda>i. kind (ns ! i) = K_LOAD \<longrightarrow> get_field (registry e) sn (field_name (ns ! i)) \<noteq> None) (all_nodes (run_analyzer ns root))"
  obtains el where "logic_for (registry e') sn ns root el" and "expr_logic e' = [(sn, el)]" and "registry e' = registry e"
    and "schema_metadata e' = schema_metadata e" and "field_buffers e' = field_buffers e"
proof -
  obtain el where el: "expr_logic e' = [(sn, el)]" "logic_for (registry e) sn ns root el" "e' = e\<lparr>expr_logic := [(sn, el)]\<rparr>"
    by (rule set_expression_installs [OF assms])
  then have "registry e' = registry e" "schema_metadata e' = schema_metadata e" "field_buffers e' = field_buffers e" by simp_all
  with el(1,2) show thesis using that by simp
qed

text \<open>
  The native engine counts rows of bit-sliced data exactly, sequentially and with any positive
  number of threads: with an installed boolean expression over at most 8 distinct fields,
  \<open>execute_native\<close> and \<open>execute_native_parallel\<close> return the number of rows of the planes on
  which the expression is true.
\<close>

lemma native_engine_counts_rows:
  assumes "set_expression pf sn (Some root) BIT_SLICED (e, ns) = Some (e', ns')" and "expr_logic e = []" and "expr_logic e' \<noteq> []"
    and "pool_wf ns" and "root < length ns" and "list_all (jit_ok ns) (all_nodes (run_analyzer ns root))"
    and "is_mask_kind (kind (ns ! root))" and "pf_add_ok pf"
    and "list_all (\<lambda>i. kind (ns ! i) = K_LOAD \<longrightarrow> get_field (registry e) sn (field_name (ns ! i)) \<noteq> None) (all_nodes (run_analyzer ns root))"
    and "schema_metadata e sn = Some sm" and "schema_consistent e sn sm" and "card (loaded_fields ns root) \<le> 8"
    and "planes_ok la sm bit_planes nb" and "\<forall>t. planes_ok (las t) sm bit_planes nb" and "0 < nt"
  shows "execute_native la True sn bit_planes nb e' = Some (of_nat (length (filter (native_holds ns root sm bit_planes) [0..<64 * nb]))) \<and>
    execute_native_parallel las (\<lambda>_. True) sn bit_planes nb nt e' = execute_native la True sn bit_planes nb e'"
proof -
  obtain el where el: "logic_for (registry e') sn ns root el" "expr_logic e' = [(sn, el)]" "registry e' = registry e"
    "schema_metadata e' = schema_metadata e"
    by (rule installed_logic [OF assms(1-9)])
  have r: "map_of (expr_logic e') sn = Some el" "schema_metadata e' sn = Some sm" "schema_consistent e' sn sm"
    using el assms(10,11) by (simp_all add: schema_consistent_def)
  have "length (el_fields el) \<le> 8" using el_fields_loaded(1) [OF el(1)] assms(12) by simp
  from execute_native_counts [OF el(1) r this assms(13)] execute_native_parallel_counts [OF el(1) r this, of las] assms(14,15)
  show ?thesis by simp
qed


text \<open>The policy expression installed in an engine with the trace schema, for the witnesses below.\<close>

definition policy_engine0 :: "u64 list list \<Rightarrow> ApexEngine" where
  "policy_engine0 bufs = register_schema ''SyscallTrace'' trace_fields 64 (ApexEngine_new None None bufs)"

lemma policy_engine0:
  "expr_logic (policy_engine0 bufs) = []" "registry (policy_engine0 bufs) = registry_register ''SyscallTrace'' trace_fields Map.empty"
  "schema_metadata (policy_engine0 bufs) ''SyscallTrace'' = Some \<lparr>sm_row_stride = 64, sm_fields = trace_fields\<rparr>"
  "field_buffers (policy_engine0 bufs) = bufs"
  "schema_consistent (policy_engine0 bufs) ''SyscallTrace'' \<lparr>sm_row_stride = 64, sm_fields = trace_fields\<rparr>"
  "17 < length (nodes policy_pool)" "pf_add_ok ex_platform" "pf_begin ex_platform [''SyscallTrace''] = ''SyscallTrace''"
  "list_all (jit_ok (nodes policy_pool)) (all_nodes (run_analyzer (nodes policy_pool) 17))"
proof -
  show "list_all (jit_ok (nodes policy_pool)) (all_nodes (run_analyzer (nodes policy_pool) 17))"
    unfolding policy_nodes_ok(4) by (rule policy_nodes_ok(5))
  show "schema_consistent (policy_engine0 bufs) ''SyscallTrace'' \<lparr>sm_row_stride = 64, sm_fields = trace_fields\<rparr>"
    unfolding policy_engine0_def by (rule register_consistent) (simp add: ApexEngine_new_def Let_def)
qed (simp_all add: policy_engine0_def register_schema_def ApexEngine_new_def Let_def policy_nodes_ok(2) ex_platform_def)

lemma policy_installs:
  "\<exists>e' ns'. set_expression ex_platform ''SyscallTrace'' (Some 17) BIT_SLICED (policy_engine0 bufs, nodes policy_pool) = Some (e', ns') \<and> expr_logic e' \<noteq> []"
  using set_expression_total [OF policy_nodes_ok(1) policy_engine0(6) policy_nodes_ok(4) [symmetric] policy_nodes_ok(5,6) _ policy_nodes_ok(3) policy_engine0(7),
    of "''SyscallTrace''" "policy_engine0 bufs"] by auto

lemma policy_fields_registered:
  "list_all (\<lambda>i. kind (nodes policy_pool ! i) = K_LOAD \<longrightarrow> get_field (registry (policy_engine0 bufs)) ''SyscallTrace''
     (field_name (nodes policy_pool ! i)) \<noteq> None) (all_nodes (run_analyzer (nodes policy_pool) 17))"
  unfolding policy_nodes_ok(4) policy_engine0(2) policy_pool_nodes(2) by code_simp

lemma policy_loads: "card (loaded_fields (nodes policy_pool) 17) = 4"
proof -
  have "loaded_fields (nodes policy_pool) 17 = {''is_preinstall'', ''event_type'', ''is_sensitive'', ''is_unauthorized''}"
    unfolding loaded_fields_code policy_nodes_ok(4) by (simp add: policy_pool_nodes(2) Node_new_def)
  then show ?thesis by (simp add: card_insert_if)
qed

lemma native_engine_counts_rows_witness:
  "\<exists>e' ns'. set_expression ex_platform ''SyscallTrace'' (Some 17) BIT_SLICED (policy_engine0 [], nodes policy_pool) = Some (e', ns') \<and>
     execute_native_parallel (\<lambda>t. ex_layout\<lparr>la_buffers := 64, la_scratch := 64, la_sp := 2097312\<rparr>) (\<lambda>_. True) ''SyscallTrace'' [] 0 3 e' = Some 0"
proof -
  obtain e' ns' where s: "set_expression ex_platform ''SyscallTrace'' (Some 17) BIT_SLICED (policy_engine0 [], nodes policy_pool) = Some (e', ns')"
    "expr_logic e' \<noteq> []" using policy_installs by blast
  have "region 0 8 @ region 64 262144 @ region 2097216 12 = region 0 262164"
    using region_append [of 0 8 262144] region_append [of 0 262152 12] by (simp del: append_assoc add: append_assoc [symmetric])
  then have "distinct (region 0 8 @ region 64 262144 @ region 2097216 12)" using distinct_region [of 262164 0] by simp
  then have p: "planes_ok (ex_layout\<lparr>la_buffers := 64, la_scratch := 64, la_sp := 2097312\<rparr>) \<lparr>sm_row_stride = 64, sm_fields = trace_fields\<rparr> [] 0"
    by (simp add: planes_ok_def layout_ok_def ex_layout_def MAX_SLOTS_def region_def)
  have c: "card (loaded_fields (nodes policy_pool) 17) \<le> 8" by (simp add: policy_loads)
  from native_engine_counts_rows [OF s(1) policy_engine0(1) s(2) policy_nodes_ok(1) policy_engine0(6,9) policy_nodes_ok(3) policy_engine0(7)
      policy_fields_registered policy_engine0(3,5) c p, of "\<lambda>t. ex_layout\<lparr>la_buffers := 64, la_scratch := 64, la_sp := 2097312\<rparr>" 3] p s(1)
  show ?thesis by auto
qed


end
