(* ===== verification/Audit_Log.thy ===== *)
theory Audit_Log
  imports Telemetry
begin

text \<open>
  The audit log (\<open>src/host/audit_log.cpp\<close>): one record per line, written with \<open>operator<<\<close> and no
  escaping. Clock, session id and the result of opening the file are arguments. Shown: one line per call
  as long as no field contains a newline, and that a crafted argument is logged exactly as two records.
\<close>

section \<open>Output\<close>

text \<open>\<open>operator<<\<close> of a condition.\<close>

definition bool_text :: "bool \<Rightarrow> string" where
  "bool_text b = (if b then ''true'' else ''false'')"

text \<open>A member \<open>"key":"value"\<close> with a string and \<open>"key":value\<close> with a bare value.\<close>

definition quoted :: "string \<Rightarrow> string \<Rightarrow> string" where
  "quoted key val = CHR 0x22 # key @ [CHR 0x22, CHR 0x3A, CHR 0x22] @ val @ [CHR 0x22]"

definition plain :: "string \<Rightarrow> string \<Rightarrow> string" where
  "plain key val = CHR 0x22 # key @ [CHR 0x22, CHR 0x3A] @ val"

fun members :: "string list \<Rightarrow> string" where
  "members [] = []"
| "members [m] = m"
| "members (m # ms) = m @ '','' @ members ms"

definition line :: "string list \<Rightarrow> string" where
  "line ms = ''{'' @ members ms @ ''}'' @ [CHR 0x0A]"

section \<open>The log\<close>

record AuditLog =
  al_session_id :: string
  al_pkg_name :: string
  al_pkg_version :: string
  al_log_path :: string
  al_is_open :: bool
  al_file :: string

text \<open>\<open>home\<close> is the environment variable HOME, \<open>time\<close> the formatted local time.\<close>

definition AuditLog_new :: "string option \<Rightarrow> string \<Rightarrow> string \<Rightarrow> bool \<Rightarrow> string \<Rightarrow> string \<Rightarrow> AuditLog" where
  "AuditLog_new home time session_id open_ok pkg_name pkg_version =
     (let audit_dir = (case home of Some h \<Rightarrow> h @ ''/.aarchgate/audit'' | None \<Rightarrow> ''/tmp/aarchgate_audit'')
      in \<lparr>al_session_id = session_id, al_pkg_name = pkg_name, al_pkg_version = pkg_version,
          al_log_path = audit_dir @ ''/'' @ time @ ''_'' @ session_id @ ''.ndjson'', al_is_open = open_ok, al_file = []\<rparr>)"

definition write_line :: "string list \<Rightarrow> AuditLog \<Rightarrow> AuditLog" where
  "write_line ms a = (if al_is_open a then a\<lparr>al_file := al_file a @ line ms\<rparr> else a)"

definition log_session_start :: "string \<Rightarrow> string \<Rightarrow> string \<Rightarrow> AuditLog \<Rightarrow> AuditLog" where
  "log_session_start ts kernel_path initrd a =
     write_line [quoted ''type'' ''SESSION_START'', quoted ''timestamp'' ts, quoted ''session_id'' (al_session_id a),
       quoted ''package'' (al_pkg_name a), quoted ''version'' (al_pkg_version a), quoted ''kernel'' kernel_path,
       quoted ''initrd'' initrd] a"

definition event_name :: "u64 \<Rightarrow> string" where
  "event_name t =
     (if t = EVENT_EXEC then ''EXEC'' else if t = EVENT_OPEN then ''OPEN'' else if t = EVENT_CONNECT then ''CONNECT''
      else if t = EVENT_FORK then ''FORK'' else if t = EVENT_MTE_TRAP then ''MTE_TRAP''
      else if t = EVENT_VM_STATE_CHANGE then ''VM_STATE_CHANGE'' else ''UNKNOWN'')"

definition event_members :: "string \<Rightarrow> MonitorEvent \<Rightarrow> string list" where
  "event_members ts ev =
     [quoted ''type'' ''EVENT'', quoted ''timestamp'' ts, quoted ''event_type'' (event_name (me_event_type ev)),
      plain ''pid'' (decimal (unat (me_pid ev))), plain ''ppid'' (decimal (unat (me_ppid ev))),
      quoted ''comm'' (c_str (me_comm ev)), quoted ''arg'' (c_str (me_arg_str ev)),
      plain ''is_preinstall'' (bool_text (me_is_preinstall ev \<noteq> 0)), plain ''is_sensitive'' (bool_text (me_is_sensitive ev \<noteq> 0)),
      plain ''is_unauthorized'' (bool_text (me_is_unauthorized ev \<noteq> 0))]"

definition log_event :: "string \<Rightarrow> MonitorEvent \<Rightarrow> AuditLog \<Rightarrow> AuditLog" where
  "log_event ts ev a = write_line (event_members ts ev) a"

definition log_violation :: "string \<Rightarrow> MonitorEvent \<Rightarrow> string \<Rightarrow> AuditLog \<Rightarrow> AuditLog" where
  "log_violation ts ev reason a =
     write_line [quoted ''type'' ''VIOLATION'', quoted ''timestamp'' ts, plain ''pid'' (decimal (unat (me_pid ev))),
       quoted ''comm'' (c_str (me_comm ev)), quoted ''arg'' (c_str (me_arg_str ev)), quoted ''reason'' reason] a"

definition log_session_end :: "string \<Rightarrow> bool \<Rightarrow> u64 \<Rightarrow> AuditLog \<Rightarrow> AuditLog" where
  "log_session_end ts killed_by_policy violations a =
     write_line [quoted ''type'' ''SESSION_END'', quoted ''timestamp'' ts, plain ''killed_by_policy'' (bool_text killed_by_policy),
       plain ''total_violations'' (decimal (unat violations))] a"

lemmas audit_ops = log_session_start_def log_event_def log_violation_def log_session_end_def write_line_def

section \<open>One line per call\<close>

text \<open>A call of the log, with the time at which it is made.\<close>

datatype audit_call = Start string string | Event MonitorEvent | Violation MonitorEvent string | SessionEnd bool u64

fun audit_apply :: "string \<times> audit_call \<Rightarrow> AuditLog \<Rightarrow> AuditLog" where
  "audit_apply (ts, Start k i) a = log_session_start ts k i a"
| "audit_apply (ts, Event ev) a = log_event ts ev a"
| "audit_apply (ts, Violation ev r) a = log_violation ts ev r a"
| "audit_apply (ts, SessionEnd b n) a = log_session_end ts b n a"

abbreviation nl :: char where "nl \<equiv> CHR 0x0A"

fun call_strings :: "string \<times> audit_call \<Rightarrow> string list" where
  "call_strings (ts, Start k i) = [ts, k, i]"
| "call_strings (ts, Event ev) = [ts, c_str (me_comm ev), c_str (me_arg_str ev)]"
| "call_strings (ts, Violation ev r) = [ts, c_str (me_comm ev), c_str (me_arg_str ev), r]"
| "call_strings (ts, SessionEnd b n) = [ts]"

lemma digit_no_nl: "n < 10 \<Longrightarrow> char_of (48 + n :: nat) \<noteq> nl"
proof
  assume "n < 10" and "char_of (48 + n :: nat) = nl"
  then have "(of_char (char_of (48 + n :: nat)) :: nat) = of_char nl" by simp
  with \<open>n < 10\<close> show False by (simp add:)
qed

lemma decimal_no_nl: "nl \<notin> set (decimal n)"
proof (induction n rule: decimal.induct)
  case (1 n)
  then show ?case using digit_no_nl [of n] digit_no_nl [of "n mod 10"] by (subst decimal.simps) auto
qed

lemma members_no_nl: "(\<forall>m \<in> set ms. nl \<notin> set m) \<Longrightarrow> nl \<notin> set (members ms)"
  by (induction ms rule: members.induct) auto

lemma quoted_nl: "nl \<in> set (quoted k v) \<longleftrightarrow> nl \<in> set k \<or> nl \<in> set v"
  by (auto simp: quoted_def)

lemma plain_nl: "nl \<in> set (plain k v) \<longleftrightarrow> nl \<in> set k \<or> nl \<in> set v"
  by (auto simp: plain_def)

lemma line_count: "(\<forall>m \<in> set ms. nl \<notin> set m) \<Longrightarrow> count_list (line ms) nl = 1"
  using members_no_nl [of ms] by (simp add: line_def count_list_0_iff)

lemma event_name_no_nl: "nl \<notin> set (event_name t)"
  by (simp add: event_name_def)

lemma bool_text_no_nl: "nl \<notin> set (bool_text b)"
  by (simp add: bool_text_def)

fun call_members :: "AuditLog \<Rightarrow> string \<times> audit_call \<Rightarrow> string list" where
  "call_members a (ts, Start k i) =
     [quoted ''type'' ''SESSION_START'', quoted ''timestamp'' ts, quoted ''session_id'' (al_session_id a), quoted ''package'' (al_pkg_name a),
      quoted ''version'' (al_pkg_version a), quoted ''kernel'' k, quoted ''initrd'' i]"
| "call_members a (ts, Event ev) = event_members ts ev"
| "call_members a (ts, Violation ev r) =
     [quoted ''type'' ''VIOLATION'', quoted ''timestamp'' ts, plain ''pid'' (decimal (unat (me_pid ev))),
      quoted ''comm'' (c_str (me_comm ev)), quoted ''arg'' (c_str (me_arg_str ev)), quoted ''reason'' r]"
| "call_members a (ts, SessionEnd b n) =
     [quoted ''type'' ''SESSION_END'', quoted ''timestamp'' ts, plain ''killed_by_policy'' (bool_text b), plain ''total_violations'' (decimal (unat n))]"

lemma audit_apply_members: "audit_apply c a = write_line (call_members a c) a"
  by (cases "(c, a)" rule: audit_apply.cases)
    (simp_all only: prod.inject audit_apply.simps call_members.simps log_session_start_def log_event_def log_violation_def log_session_end_def)

lemma call_members_no_nl:
  assumes "nl \<notin> set (al_session_id a)" and "nl \<notin> set (al_pkg_name a)" and "nl \<notin> set (al_pkg_version a)"
    and "\<forall>s \<in> set (call_strings c). nl \<notin> set s"
  shows "list_all (\<lambda>m. nl \<notin> set m) (call_members a c)"
  using assms
  by (cases "(c, a)" rule: audit_apply.cases)
    (simp_all add: event_members_def quoted_nl plain_nl decimal_no_nl event_name_no_nl bool_text_no_nl)

lemma audit_apply_line:
  assumes "al_is_open a" and "nl \<notin> set (al_session_id a)" and "nl \<notin> set (al_pkg_name a)" and "nl \<notin> set (al_pkg_version a)"
    and "\<forall>s \<in> set (call_strings c). nl \<notin> set s"
  shows "\<exists>l. audit_apply c a = a\<lparr>al_file := al_file a @ l\<rparr> \<and> count_list l nl = 1"
proof (intro exI conjI)
  show "audit_apply c a = a\<lparr>al_file := al_file a @ line (call_members a c)\<rparr>"
    using assms(1) by (simp only: audit_apply_members write_line_def if_True)
  show "count_list (line (call_members a c)) nl = 1"
    using call_members_no_nl [OF assms(2-5)] by (intro line_count) (simp only: list_all_iff)
qed

text \<open>
  Claim C3. The audit log has one line per call: as long as neither the session fields nor a string passed
  to a call contains a newline, any sequence of calls on an open log adds exactly as many lines as there
  were calls, and only appends.
\<close>

theorem audit_one_line_per_call:
  assumes "al_is_open a" and "nl \<notin> set (al_session_id a)" and "nl \<notin> set (al_pkg_name a)" and "nl \<notin> set (al_pkg_version a)"
    and "\<forall>c \<in> set cs. \<forall>s \<in> set (call_strings c). nl \<notin> set s"
  shows "\<exists>t. al_file (fold audit_apply cs a) = al_file a @ t \<and> count_list t nl = length cs"
  using assms
proof (induction cs arbitrary: a)
  case (Cons c cs)
  then obtain l where l: "audit_apply c a = a\<lparr>al_file := al_file a @ l\<rparr>" "count_list l nl = 1"
    using audit_apply_line [of a c] by auto
  have "al_is_open (audit_apply c a)" "al_session_id (audit_apply c a) = al_session_id a"
    "al_pkg_name (audit_apply c a) = al_pkg_name a" "al_pkg_version (audit_apply c a) = al_pkg_version a"
    using Cons.prems(1) l(1) by simp_all
  with Cons obtain t where "al_file (fold audit_apply cs (audit_apply c a)) = al_file (audit_apply c a) @ t" "count_list t nl = length cs"
    by (metis list.set_intros(2))
  then show ?case using l by (intro exI [of _ "l @ t"]) simp
qed simp

theorem audit_one_line_per_call_witness:
  "\<exists>t. al_file (fold audit_apply [(''t0'', Start ''k'' ''i''), (''t1'', SessionEnd True 1)]
     (AuditLog_new None ''now'' ''0a'' True ''p'' ''1'')) = al_file (AuditLog_new None ''now'' ''0a'' True ''p'' ''1'') @ t \<and> count_list t nl = 2"
  using audit_one_line_per_call [of "AuditLog_new None ''now'' ''0a'' True ''p'' ''1''" "[(''t0'', Start ''k'' ''i''), (''t1'', SessionEnd True 1)]"]
  by (simp add: AuditLog_new_def)

section \<open>Forged records\<close>

text \<open>What the log writes of an event up to its argument, and after it.\<close>

definition before_arg :: "string \<Rightarrow> MonitorEvent \<Rightarrow> string" where
  "before_arg ts ev =
     ''{'' @ members (take 6 (event_members ts ev)) @ '','' @ [CHR 0x22] @ ''arg'' @ [CHR 0x22, CHR 0x3A, CHR 0x22]"

definition after_arg :: "MonitorEvent \<Rightarrow> string" where
  "after_arg ev = CHR 0x22 # '','' @ members (drop 7 (event_members [] ev)) @ ''}'' @ [CHR 0x0A]"

lemma log_event_text: "line (event_members ts ev) = before_arg ts ev @ c_str (me_arg_str ev) @ after_arg ev"
  by (simp add: line_def event_members_def before_arg_def after_arg_def quoted_def)

lemma before_arg_cong:
  "me_event_type ev = me_event_type ev' \<Longrightarrow> me_pid ev = me_pid ev' \<Longrightarrow> me_ppid ev = me_ppid ev' \<Longrightarrow> me_comm ev = me_comm ev' \<Longrightarrow>
   before_arg ts ev = before_arg ts ev'"
  by (simp add: before_arg_def event_members_def)

lemma after_arg_cong:
  "me_is_preinstall ev = me_is_preinstall ev' \<Longrightarrow> me_is_sensitive ev = me_is_sensitive ev' \<Longrightarrow>
   me_is_unauthorized ev = me_is_unauthorized ev' \<Longrightarrow> after_arg ev = after_arg ev'"
  by (simp add: after_arg_def event_members_def)

text \<open>
  The log does not escape strings, so its records can be forged: for any two events \<open>e1\<close> and
  \<open>e2\<close> there is an argument that makes one event, with the process of \<open>e1\<close> and the flags of
  \<open>e2\<close>, produce exactly the log text of \<open>e1\<close> followed by \<open>e2\<close>.
\<close>

lemma audit_record_forged:
  assumes "c_str (me_arg_str ev) = c_str (me_arg_str e1) @ after_arg e1 @ before_arg ts e2 @ c_str (me_arg_str e2)"
    and "me_event_type ev = me_event_type e1" and "me_pid ev = me_pid e1" and "me_ppid ev = me_ppid e1" and "me_comm ev = me_comm e1"
    and "me_is_preinstall ev = me_is_preinstall e2" and "me_is_sensitive ev = me_is_sensitive e2"
    and "me_is_unauthorized ev = me_is_unauthorized e2"
  shows "log_event ts ev a = log_event ts e2 (log_event ts e1 a)"
proof -
  have "line (event_members ts ev) = line (event_members ts e1) @ line (event_members ts e2)"
    unfolding log_event_text using assms before_arg_cong [of ev e1 ts] after_arg_cong [of ev e2] by simp
  then show ?thesis by (simp add: log_event_def write_line_def)
qed

text \<open>A process hides its read of a credential file behind a record of another process.\<close>

definition shell_event :: MonitorEvent where
  "shell_event = zero_MonitorEvent\<lparr>me_pid := 7, me_event_type := EVENT_OPEN, me_comm := strncpy 32 ''sh'', me_arg_str := strncpy 256 ''/tmp/a''\<rparr>"

definition other_event :: MonitorEvent where
  "other_event = zero_MonitorEvent\<lparr>me_pid := 1, me_event_type := EVENT_OPEN, me_comm := strncpy 32 ''init'', me_arg_str := strncpy 256 ''/etc/passwd''\<rparr>"

definition forging_event :: MonitorEvent where
  "forging_event = shell_event\<lparr>me_arg_str := strncpy 256 (''/tmp/a'' @ after_arg shell_event @ before_arg ''t'' other_event @ ''/etc/passwd'')\<rparr>"

lemma forging_arg: "c_str (me_arg_str forging_event) = ''/tmp/a'' @ after_arg shell_event @ before_arg ''t'' other_event @ ''/etc/passwd''"
  by code_simp

lemma audit_record_forged_witness:
  "log_event ''t'' forging_event (AuditLog_new None ''now'' ''0a'' True ''p'' ''1'') =
     log_event ''t'' other_event (log_event ''t'' shell_event (AuditLog_new None ''now'' ''0a'' True ''p'' ''1''))"
proof (rule audit_record_forged)
  have "c_str (me_arg_str shell_event) = ''/tmp/a''" "c_str (me_arg_str other_event) = ''/etc/passwd''" by code_simp+
  then show "c_str (me_arg_str forging_event) = c_str (me_arg_str shell_event) @ after_arg shell_event @ before_arg ''t'' other_event @
      c_str (me_arg_str other_event)" using forging_arg by simp
qed (simp_all add: forging_event_def shell_event_def other_event_def zero_MonitorEvent_def)

end
