(* ===== verification/Daemon.thy ===== *)
theory Daemon
  imports Vm_Controller Audit_Log
begin

text \<open>
  The host daemon (\<open>src/host/main.cpp\<close>): the collector that classifies every event as it arrives and
  fires the kill switch, the batch worker that evaluates 64 records at a time, the detached threads that
  stop the virtual machine, signals, and the shutdown sequence. A step of the relation is one event, one
  batch, one detached thread, one signal or one phase of \<open>main\<close>; they interleave freely. The batch
  evaluation (\<open>PolicyEngine::evaluate_batch\<close>) is a parameter here; the locale \<open>batch_policy\<close> states
  what the daemon relies on.
\<close>

section \<open>State\<close>

datatype collector_worker = WorkerWaiting | WorkerExited

datatype main_phase = Guarding | Exited0

record 'e Daemon =
  dm_pe :: PolicyEngine
  dm_engine :: 'e
  dm_vm :: VMController
  dm_audit :: AuditLog
  dm_publisher :: SharedMemoryPublisher
  dm_shm :: "MonitorSharedBuffer option"
  dm_published :: "MonitorEvent list"
  dm_pending :: "SyscallTraceRecord list"
  dm_stop :: bool
  dm_shutdown :: bool
  dm_stoppers :: nat
  dm_worker :: collector_worker
  dm_main :: main_phase

text \<open>The monitor callback; \<open>dm_published\<close> is the history of the events passed to it.\<close>

definition monitor_cb :: "MonitorEvent \<Rightarrow> 'e Daemon \<Rightarrow> 'e Daemon" where
  "monitor_cb ev d = d\<lparr>dm_shm := publish (dm_publisher d) ev (dm_shm d), dm_published := dm_published d @ [ev]\<rparr>"

definition state_change :: "string \<Rightarrow> u8 \<Rightarrow> MonitorEvent" where
  "state_change text vm_running =
     zero_MonitorEvent\<lparr>me_event_type := EVENT_VM_STATE_CHANGE, me_comm := strncpy 32 ''system'',
       me_arg_str := strncpy 256 text, me_vm_running := vm_running\<rparr>"

definition killed_event :: MonitorEvent where
  "killed_event = state_change ''Virtual Machine Terminated (Security Kill Switch)'' 0"

section \<open>Collector\<close>

definition is_violation :: "SyscallTraceRecord \<Rightarrow> bool" where
  "is_violation r \<longleftrightarrow> tr_is_preinstall r = 1 \<and>
     (tr_is_sensitive r = 1 \<and> tr_event_type r = EVENT_OPEN \<or> tr_is_unauthorized r = 1 \<and> tr_event_type r = EVENT_CONNECT)"

definition monitor_event :: "SyscallEvent \<Rightarrow> SyscallTraceRecord \<Rightarrow> u8 \<Rightarrow> u8 \<Rightarrow> MonitorEvent" where
  "monitor_event ev r preinstall vm_running =
     zero_MonitorEvent\<lparr>me_timestamp_ns := se_timestamp_ns ev, me_pid := se_pid ev, me_ppid := se_ppid ev,
       me_event_type := se_event_type ev, me_comm := strncpy 32 (se_comm ev), me_arg_str := strncpy 256 (se_arg_str ev),
       me_ip_address := se_ip_address ev, me_port := se_port ev, me_is_preinstall := preinstall,
       me_is_sensitive := ucast (tr_is_sensitive r), me_is_unauthorized := ucast (tr_is_unauthorized r), me_vm_running := vm_running\<rparr>"

definition fire_kill_switch :: "string \<Rightarrow> SyscallEvent \<Rightarrow> SyscallTraceRecord \<Rightarrow> 'e Daemon \<Rightarrow> 'e Daemon" where
  "fire_kill_switch ts ev r d =
     (let mon_ev = monitor_event ev r 1 1;
          reason = (if tr_is_sensitive r \<noteq> 0 then ''Sensitive file read'' else ''Unauthorized network connection'');
          d = d\<lparr>dm_audit := log_session_end ts True 1 (log_violation ts mon_ev reason (dm_audit d))\<rparr>;
          d = monitor_cb killed_event (monitor_cb mon_ev d)
      in d\<lparr>dm_stoppers := Suc (dm_stoppers d)\<rparr>)"

definition add_event :: "string \<Rightarrow> SyscallEvent \<Rightarrow> 'e Daemon \<Rightarrow> 'e Daemon" where
  "add_event ts ev d =
     (case process_event (dm_pe d) ev of (r, pe) \<Rightarrow>
        let d = d\<lparr>dm_pe := pe\<rparr> in
        if is_violation r \<and> is_running (dm_vm d) then fire_kill_switch ts ev r d
        else let mon_ev = monitor_event ev r (ucast (tr_is_preinstall r)) (if is_running (dm_vm d) then 1 else 0);
                 d = monitor_cb mon_ev (d\<lparr>dm_audit := log_event ts mon_ev (dm_audit d)\<rparr>)
             in d\<lparr>dm_pending := dm_pending d @ [r]\<rparr>)"

text \<open>One round of \<open>process_queue\<close> when at least 64 records are pending; \<open>None\<close> if the evaluation is undefined.\<close>

definition process_batch ::
  "(SyscallTraceRecord list \<Rightarrow> 'e \<Rightarrow> (u64 \<times> 'e) option) \<Rightarrow> 'e Daemon \<Rightarrow> 'e Daemon option" where
  "process_batch evaluate d =
     (case evaluate (take 64 (dm_pending d)) (dm_engine d) of None \<Rightarrow> None
      | Some (violations, e) \<Rightarrow>
          let d = d\<lparr>dm_pending := drop 64 (dm_pending d), dm_engine := e\<rparr> in
          if violations > 0
          then let d = monitor_cb killed_event d
               in Some (d\<lparr>dm_vm := vm_stop (dm_vm d), dm_shutdown := True, dm_worker := WorkerExited\<rparr>)
          else Some d)"

section \<open>Main\<close>

record daemon_options =
  opt_kernel :: string
  opt_initrd :: string
  opt_share :: string

text \<open>The command line; \<open>None\<close> when the help text was asked for.\<close>

fun parse_args :: "string list \<Rightarrow> daemon_options \<Rightarrow> daemon_options option" where
  "parse_args [] o0 = Some o0"
| "parse_args [arg] o0 = (if arg = ''--help'' \<or> arg = ''-h'' then None else Some o0)"
| "parse_args (arg # val # args) o0 =
     (if arg = ''--kernel'' then parse_args args (o0\<lparr>opt_kernel := val\<rparr>)
      else if arg = ''--initrd'' then parse_args args (o0\<lparr>opt_initrd := val\<rparr>)
      else if arg = ''--share'' then parse_args args (o0\<lparr>opt_share := val\<rparr>)
      else if arg = ''--help'' \<or> arg = ''-h'' then None
      else parse_args (val # args) o0)"

definition default_options :: daemon_options where
  "default_options = \<lparr>opt_kernel = ''mock'', opt_initrd = [], opt_share = ''.''\<rparr>"

text \<open>\<open>main\<close> up to the wait: \<open>None\<close> when the virtual machine could not be started.\<close>

definition daemon_start ::
  "string \<Rightarrow> bool \<Rightarrow> AuditLog \<Rightarrow> SharedMemoryPublisher \<times> MonitorSharedBuffer option \<Rightarrow> 'e \<Rightarrow> daemon_options \<Rightarrow> 'e Daemon option" where
  "daemon_start ts valid audit pub e opts =
     (let audit = log_session_start ts (opt_kernel opts) (opt_initrd opts) audit;
          (ok, vm) = vm_start valid (VMController_new (opt_kernel opts) (opt_initrd opts) (opt_share opts));
          d = \<lparr>dm_pe = PolicyEngine_new, dm_engine = e, dm_vm = vm, dm_audit = audit, dm_publisher = fst pub, dm_shm = snd pub,
               dm_published = [], dm_pending = [], dm_stop = False, dm_shutdown = False, dm_stoppers = 0,
               dm_worker = WorkerWaiting, dm_main = Guarding\<rparr>
      in if ok then Some (monitor_cb (state_change ''Virtual Machine Started'' 1) d) else None)"

definition daemon_cleanup :: "'e Daemon \<Rightarrow> 'e Daemon" where
  "daemon_cleanup d =
     (let d = monitor_cb (state_change ''Virtual Machine Terminated (Graceful Shutdown)'' 0) d
      in d\<lparr>dm_vm := vm_stop (dm_vm d), dm_stop := True, dm_main := Exited0\<rparr>)"

section \<open>Steps\<close>

inductive daemon_step ::
  "(SyscallTraceRecord list \<Rightarrow> 'e \<Rightarrow> (u64 \<times> 'e) option) \<Rightarrow> 'e Daemon \<Rightarrow> 'e Daemon \<Rightarrow> bool" for evaluate where
  event: "daemon_step evaluate d (add_event ts ev d)"
| batch: "dm_worker d = WorkerWaiting \<Longrightarrow> \<not> dm_stop d \<Longrightarrow> 64 \<le> length (dm_pending d) \<Longrightarrow>
    process_batch evaluate d = Some d' \<Longrightarrow> daemon_step evaluate d d'"
| worker_stop: "dm_worker d = WorkerWaiting \<Longrightarrow> dm_stop d \<Longrightarrow> daemon_step evaluate d (d\<lparr>dm_worker := WorkerExited\<rparr>)"
| stopper: "0 < dm_stoppers d \<Longrightarrow>
    daemon_step evaluate d (d\<lparr>dm_vm := vm_stop (dm_vm d), dm_shutdown := True, dm_stoppers := dm_stoppers d - 1\<rparr>)"
| started: "vc_starting (dm_vm d) \<Longrightarrow> daemon_step evaluate d (d\<lparr>dm_vm := start_completed ok (dm_vm d)\<rparr>)"
| connection: "vc_vm (dm_vm d) \<Longrightarrow> daemon_step evaluate d (d\<lparr>dm_vm := start_reader fd (dm_vm d)\<rparr>)"
| signal: "daemon_step evaluate d (d\<lparr>dm_shutdown := True\<rparr>)"
| cleanup: "dm_main d = Guarding \<Longrightarrow> dm_shutdown d \<Longrightarrow> daemon_step evaluate d (daemon_cleanup d)"

abbreviation daemon_steps ::
  "(SyscallTraceRecord list \<Rightarrow> 'e \<Rightarrow> (u64 \<times> 'e) option) \<Rightarrow> 'e Daemon \<Rightarrow> 'e Daemon \<Rightarrow> bool" where
  "daemon_steps evaluate \<equiv> (daemon_step evaluate)\<^sup>*\<^sup>*"

lemmas daemon_defs = monitor_cb_def fire_kill_switch_def process_batch_def daemon_cleanup_def

section \<open>Invariants\<close>

lemma is_violation_eq: "flags_01 r \<Longrightarrow> is_violation r = record_violates r"
  by (auto simp: is_violation_def record_violates_def flags_01_def)

lemma is_violation_event: "is_violation (fst (process_event pe ev)) = record_violates (fst (process_event pe ev))"
  by (rule is_violation_eq) (rule process_event_flags)

text \<open>A running machine has no start outstanding, and the pending records are well formed.\<close>

definition daemon_inv :: "'e Daemon \<Rightarrow> bool" where
  "daemon_inv d \<longleftrightarrow> (vc_running (dm_vm d) \<longrightarrow> \<not> vc_starting (dm_vm d)) \<and> (\<forall>r \<in> set (dm_pending d). flags_01 r)"

text \<open>The kill switch has fired: a thread is on its way to stop the machine, or it is stopped for good.\<close>

definition kill_inv :: "'e Daemon \<Rightarrow> bool" where
  "kill_inv d \<longleftrightarrow> \<not> vc_starting (dm_vm d) \<and> (0 < dm_stoppers d \<or> \<not> vc_running (dm_vm d) \<and> dm_shutdown d)"

lemma add_event_sel:
  "dm_vm (add_event ts ev d) = dm_vm d" "dm_shutdown (add_event ts ev d) = dm_shutdown d"
  "dm_engine (add_event ts ev d) = dm_engine d" "dm_pe (add_event ts ev d) = snd (process_event (dm_pe d) ev)"
  "dm_stoppers (add_event ts ev d) =
     dm_stoppers d + (if record_violates (fst (process_event (dm_pe d) ev)) \<and> vc_running (dm_vm d) then 1 else 0)"
  "dm_pending (add_event ts ev d) = dm_pending d @
     (if record_violates (fst (process_event (dm_pe d) ev)) \<and> vc_running (dm_vm d) then [] else [fst (process_event (dm_pe d) ev)])"
  using is_violation_event [of "dm_pe d" ev]
  by (cases "process_event (dm_pe d) ev"; simp add: add_event_def daemon_defs is_running_def Let_def)+

lemma process_batch_sel:
  assumes "process_batch evaluate d = Some d'"
  shows "\<exists>n e. evaluate (take 64 (dm_pending d)) (dm_engine d) = Some (n, e) \<and> dm_engine d' = e \<and>
    dm_pending d' = drop 64 (dm_pending d) \<and> dm_stoppers d' = dm_stoppers d \<and>
    (if 0 < n then dm_vm d' = vm_stop (dm_vm d) \<and> dm_shutdown d' \<and> dm_worker d' = WorkerExited \<and> dm_published d' = dm_published d @ [killed_event]
     else dm_vm d' = dm_vm d \<and> dm_shutdown d' = dm_shutdown d \<and> dm_worker d' = dm_worker d \<and> dm_published d' = dm_published d)"
proof (cases "evaluate (take 64 (dm_pending d)) (dm_engine d)")
  case None
  then show ?thesis using assms by (simp add: process_batch_def)
next
  case (Some ne)
  obtain n e where ne: "ne = (n, e)" by fastforce
  then show ?thesis using assms Some by (cases "0 < n") (auto simp: process_batch_def monitor_cb_def Let_def)
qed

lemma daemon_inv_step: "daemon_step evaluate d d' \<Longrightarrow> daemon_inv d \<Longrightarrow> daemon_inv d'"
proof (induction rule: daemon_step.induct)
  case (event d ts ev)
  then show ?case using process_event_flags [of "dm_pe d" ev] by (auto simp: daemon_inv_def add_event_sel)
next
  case (batch d d')
  then show ?case using process_batch_sel [OF batch(4)] by (auto simp: daemon_inv_def split: if_splits dest!: in_set_dropD)
qed (auto simp: daemon_inv_def start_completed_def start_reader_def daemon_cleanup_def monitor_cb_def Let_def)

lemma kill_inv_step: "daemon_step evaluate d d' \<Longrightarrow> kill_inv d \<Longrightarrow> kill_inv d'"
proof (induction rule: daemon_step.induct)
  case (event d ts ev)
  then show ?case by (auto simp: kill_inv_def add_event_sel)
next
  case (batch d d')
  then show ?case using process_batch_sel [OF batch(4)] by (auto simp: kill_inv_def split: if_splits)
qed (auto simp: kill_inv_def start_completed_def start_reader_def daemon_cleanup_def monitor_cb_def Let_def)

lemma daemon_start_inv: "daemon_start ts valid audit pub e opts = Some d \<Longrightarrow> daemon_inv d"
  by (auto simp: daemon_start_def daemon_inv_def vm_start_def VMController_new_def monitor_cb_def Let_def split: if_splits)

lemma daemon_steps_inv: "daemon_steps evaluate d d' \<Longrightarrow> daemon_inv d \<Longrightarrow> daemon_inv d'"
  by (induction rule: rtranclp_induct) (auto intro: daemon_inv_step)

lemma kill_inv_steps: "daemon_steps evaluate d d' \<Longrightarrow> kill_inv d \<Longrightarrow> kill_inv d'"
  by (induction rule: rtranclp_induct) (auto intro: kill_inv_step)

text \<open>The detached threads can always run.\<close>

lemma stoppers_run:
  assumes "kill_inv d"
  shows "\<exists>d'. daemon_steps evaluate d d' \<and> dm_stoppers d' = 0 \<and> \<not> is_running (dm_vm d') \<and> dm_shutdown d'"
  using assms
proof (induction "dm_stoppers d" arbitrary: d)
  case 0
  then show ?case by (auto simp: kill_inv_def is_running_def)
next
  case (Suc n)
  let ?d = "d\<lparr>dm_vm := vm_stop (dm_vm d), dm_shutdown := True, dm_stoppers := dm_stoppers d - 1\<rparr>"
  have st: "daemon_step evaluate d ?d" using Suc.hyps(2) by (intro daemon_step.stopper) simp
  have "n = dm_stoppers ?d" using Suc.hyps(2) by simp
  from Suc.hyps(1) [OF this kill_inv_step [OF st Suc.prems]] st show ?case
    by (meson converse_rtranclp_into_rtranclp)
qed

section \<open>The kill switch\<close>

text \<open>
  Claim C1. The kill switch works: when an event that violates the policy arrives while the machine is
  running, then in every later state, whatever happened in between, the machine is stopped and the
  shutdown is requested, or a thread that will do so is outstanding; and from every such state those
  threads can finish.
\<close>

theorem kill_switch_stops_vm:
  assumes "daemon_start ts0 valid audit pub e opts = Some d0" and "daemon_steps evaluate d0 d" and "is_running (dm_vm d)"
    and "record_violates (fst (process_event (dm_pe d) ev))" and "daemon_steps evaluate (add_event ts ev d) d'"
  shows "(0 < dm_stoppers d' \<or> \<not> is_running (dm_vm d') \<and> dm_shutdown d') \<and>
    (\<exists>d''. daemon_steps evaluate d' d'' \<and> dm_stoppers d'' = 0 \<and> \<not> is_running (dm_vm d'') \<and> dm_shutdown d'')"
proof -
  have "daemon_inv d" using daemon_steps_inv [OF assms(2) daemon_start_inv [OF assms(1)]] .
  then have "kill_inv (add_event ts ev d)" using assms(3,4) by (simp add: kill_inv_def daemon_inv_def add_event_sel is_running_def)
  then have k: "kill_inv d'" using kill_inv_steps [OF assms(5)] by blast
  then show ?thesis using stoppers_run [OF k] by (auto simp: kill_inv_def is_running_def)
qed

text \<open>
  A violation is reported before the machine goes down: the event that fires the kill switch is
  published to the monitor, marked as a violation, directly followed by the state change, the audit log
  receives the violation record and the end of the session, and the record does not enter the batch
  queue.
\<close>

lemma kill_switch_reported:
  assumes "is_running (dm_vm d)" and "record_violates (fst (process_event (dm_pe d) ev))"
  shows "dm_published (add_event ts ev d) = dm_published d @ [monitor_event ev (fst (process_event (dm_pe d) ev)) 1 1, killed_event] \<and>
    (\<exists>reason. dm_audit (add_event ts ev d) = log_session_end ts True 1
      (log_violation ts (monitor_event ev (fst (process_event (dm_pe d) ev)) 1 1) reason (dm_audit d))) \<and>
    dm_pending (add_event ts ev d) = dm_pending d \<and> dm_stoppers (add_event ts ev d) = Suc (dm_stoppers d)"
proof -
  obtain r pe where p: "process_event (dm_pe d) ev = (r, pe)" by fastforce
  then have "is_violation r" using is_violation_event [of "dm_pe d" ev] assms(2) by simp
  then show ?thesis using assms(1) p by (auto simp: add_event_def fire_kill_switch_def monitor_cb_def Let_def)
qed

text \<open>
  A violation that arrives before the machine is reported as running is not acted upon: it is
  queued, no thread is started to stop the machine, and no batch is evaluated before 64 records are
  pending.
\<close>

lemma early_violation_queued:
  assumes "\<not> is_running (dm_vm d)" and "record_violates (fst (process_event (dm_pe d) ev))" and "length (dm_pending d) < 63"
  shows "dm_stoppers (add_event ts ev d) = dm_stoppers d \<and> dm_vm (add_event ts ev d) = dm_vm d \<and>
    dm_shutdown (add_event ts ev d) = dm_shutdown d \<and> fst (process_event (dm_pe d) ev) \<in> set (dm_pending (add_event ts ev d)) \<and>
    length (dm_pending (add_event ts ev d)) < 64"
  using assms by (simp add: add_event_sel is_running_def)

text \<open>A daemon in mock mode that has seen a shell start under a lifecycle script.\<close>

definition ex_daemon0 :: "unit Daemon" where
  "ex_daemon0 = the (daemon_start ''t0'' True (AuditLog_new None ''now'' ''0a'' True ''p'' ''1'') (SharedMemoryPublisher_new True None) () default_options)"

definition ex_daemon :: "unit Daemon" where
  "ex_daemon = add_event ''t1'' (mk_event EVENT_EXEC 7 5 ''sh'' ''/bin/sh'' 0) ex_daemon0"

lemma ex_daemon:
  "daemon_start ''t0'' True (AuditLog_new None ''now'' ''0a'' True ''p'' ''1'') (SharedMemoryPublisher_new True None) () default_options = Some ex_daemon0"
  "daemon_steps (\<lambda>rs e. Some (0, e)) ex_daemon0 ex_daemon" "is_running (dm_vm ex_daemon)"
  "record_violates (fst (process_event (dm_pe ex_daemon) (mk_event EVENT_CONNECT 7 5 ''sh'' [] 0)))"
proof -
  have v: "record_violates (fst (process_event (snd (process_event PolicyEngine_new (mk_event EVENT_EXEC 7 5 ''sh'' ''/bin/sh'' 0)))
      (mk_event EVENT_CONNECT 7 5 ''sh'' [] 0)))" by code_simp
  show "daemon_start ''t0'' True (AuditLog_new None ''now'' ''0a'' True ''p'' ''1'') (SharedMemoryPublisher_new True None) () default_options = Some ex_daemon0"
    by (simp add: ex_daemon0_def daemon_start_def vm_start_def VMController_new_def default_options_def Let_def)
  have "dm_pe ex_daemon0 = PolicyEngine_new" and r: "vc_running (dm_vm ex_daemon0)"
    by (simp_all add: ex_daemon0_def daemon_start_def vm_start_def VMController_new_def default_options_def monitor_cb_def Let_def)
  then show "record_violates (fst (process_event (dm_pe ex_daemon) (mk_event EVENT_CONNECT 7 5 ''sh'' [] 0)))"
    using v by (simp add: ex_daemon_def add_event_sel)
  show "is_running (dm_vm ex_daemon)" using r by (simp add: is_running_def ex_daemon_def add_event_sel)
  show "daemon_steps (\<lambda>rs e. Some (0, e)) ex_daemon0 ex_daemon" unfolding ex_daemon_def by (rule r_into_rtranclp) (rule daemon_step.event)
qed

theorem kill_switch_stops_vm_witness:
  "\<exists>d'. daemon_steps (\<lambda>rs e. Some (0, e)) (add_event ''t2'' (mk_event EVENT_CONNECT 7 5 ''sh'' [] 0) ex_daemon) d' \<and>
     \<not> is_running (dm_vm d') \<and> dm_shutdown d'"
  using kill_switch_stops_vm [OF ex_daemon rtranclp.rtrancl_refl, of "''t2''"] by blast

lemma kill_switch_reported_witness:
  "dm_stoppers (add_event ''t2'' (mk_event EVENT_CONNECT 7 5 ''sh'' [] 0) ex_daemon) = Suc (dm_stoppers ex_daemon)"
  using kill_switch_reported [OF ex_daemon(3,4), of "''t2''"] by blast

lemma early_violation_queued_witness:
  "length (dm_pending (add_event ''t2'' (mk_event EVENT_CONNECT 7 5 ''sh'' [] 0) (ex_daemon\<lparr>dm_vm := VMController_new ''k'' ''i'' ''s''\<rparr>))) < 64"
proof -
  have "length (dm_pending ex_daemon) < 63"
    by (simp add: ex_daemon_def add_event_sel)
      (simp add: ex_daemon0_def daemon_start_def vm_start_def VMController_new_def default_options_def monitor_cb_def Let_def)
  then show ?thesis
    using early_violation_queued [of "ex_daemon\<lparr>dm_vm := VMController_new ''k'' ''i'' ''s''\<rparr>" "mk_event EVENT_CONNECT 7 5 ''sh'' [] 0" "''t2''"] ex_daemon(4)
    by (simp add: is_running_def VMController_new_def)
qed

section \<open>Batches\<close>

text \<open>What the daemon relies on: a batch of well-formed records is counted exactly.\<close>

locale batch_policy =
  fixes evaluate :: "SyscallTraceRecord list \<Rightarrow> 'e \<Rightarrow> (u64 \<times> 'e) option" and ready :: "'e \<Rightarrow> bool"
  assumes evaluate_counts: "ready e \<Longrightarrow> \<forall>r \<in> set rs. flags_01 r \<Longrightarrow>
    \<exists>e'. evaluate rs e = Some (of_nat (length (filter record_violates rs)), e') \<and> ready e'"
begin

lemma ready_step: "daemon_step evaluate d d' \<Longrightarrow> daemon_inv d \<Longrightarrow> ready (dm_engine d) \<Longrightarrow> ready (dm_engine d')"
proof (induction rule: daemon_step.induct)
  case (batch d d')
  then have "\<forall>r \<in> set (take 64 (dm_pending d)). flags_01 r" by (auto simp: daemon_inv_def dest: in_set_takeD)
  from evaluate_counts [OF batch(6) this] process_batch_sel [OF batch(4)] show ?case by auto
qed (simp_all add: add_event_sel daemon_cleanup_def monitor_cb_def Let_def)

lemma ready_steps: "daemon_steps evaluate d d' \<Longrightarrow> daemon_inv d \<Longrightarrow> ready (dm_engine d) \<Longrightarrow> daemon_inv d' \<and> ready (dm_engine d')"
  by (induction rule: rtranclp_induct) (auto intro: daemon_inv_step ready_step)

lemma batch_kills_iff:
  assumes "daemon_inv d" and "ready (dm_engine d)"
  shows "\<exists>d'. process_batch evaluate d = Some d' \<and> dm_pending d' = drop 64 (dm_pending d) \<and>
    (if \<exists>r \<in> set (take 64 (dm_pending d)). record_violates r
     then \<not> is_running (dm_vm d') \<and> dm_shutdown d' \<and> dm_published d' = dm_published d @ [killed_event]
     else dm_vm d' = dm_vm d \<and> dm_shutdown d' = dm_shutdown d \<and> dm_published d' = dm_published d)"
proof -
  let ?rs = "take 64 (dm_pending d)" and ?n = "length (filter record_violates (take 64 (dm_pending d)))"
  have "\<forall>r \<in> set ?rs. flags_01 r" using assms(1) by (auto simp: daemon_inv_def dest: in_set_takeD)
  from evaluate_counts [OF assms(2) this] obtain e' where e: "evaluate ?rs (dm_engine d) = Some (of_nat ?n, e')" by blast
  then have "process_batch evaluate d \<noteq> None" by (simp add: process_batch_def Let_def)
  then obtain d' where d': "process_batch evaluate d = Some d'" by blast
  have "?n \<le> length ?rs" by (rule length_filter_le)
  then have "?n < 2 ^ 64" by simp
  then have "unat (of_nat ?n :: u64) = ?n" by (simp add: unat_of_nat)
  then have "(0 :: u64) < of_nat ?n \<longleftrightarrow> 0 < ?n" by (metis unat_gt_0 word_gt_0)
  also have "\<dots> \<longleftrightarrow> (\<exists>r \<in> set ?rs. record_violates r)" by (simp add: filter_empty_conv)
  finally show ?thesis using process_batch_sel [OF d'] d' e by (auto simp: is_running_def split: if_splits)
qed

end

end
