(* ===== verification/Daemon_Jit.thy ===== *)
theory Daemon_Jit
  imports Daemon Policy_Jit
begin

text \<open>
  The daemon with the compiled policy: the batch evaluation of the policy engine meets the contract of the
  locale \<open>batch_policy\<close>, so the batch worker stops the machine exactly when one of its 64 records is a
  violation.
\<close>

interpretation jit_batch: batch_policy "evaluate_batch pf" "policy_ready pf" for pf
  by unfold_locales (rule evaluate_batch_ready)

text \<open>
  Claim C2. The batch worker is exact: in a daemon that started with an engine in which the policy is
  installed, after any interleaving, evaluating the next batch is defined, removes its 64 records, and
  stops the machine and requests the shutdown exactly if one of them is a violation; otherwise machine,
  shutdown flag and monitor are unchanged.
\<close>

theorem batch_worker_exact:
  assumes "policy_ready pf e" and "daemon_start ts valid audit pub e opts = Some d0"
    and "daemon_steps (evaluate_batch pf) d0 d"
  shows "\<exists>d'. process_batch (evaluate_batch pf) d = Some d' \<and> dm_pending d' = drop 64 (dm_pending d) \<and>
    (if \<exists>r \<in> set (take 64 (dm_pending d)). record_violates r
     then \<not> is_running (dm_vm d') \<and> dm_shutdown d' \<and> dm_published d' = dm_published d @ [killed_event]
     else dm_vm d' = dm_vm d \<and> dm_shutdown d' = dm_shutdown d \<and> dm_published d' = dm_published d)"
proof -
  have "dm_engine d0 = e" using assms(2) by (auto simp: daemon_start_def monitor_cb_def Let_def split: prod.splits if_splits)
  then have "daemon_inv d \<and> policy_ready pf (dm_engine d)"
    using jit_batch.ready_steps [OF assms(3)] daemon_start_inv [OF assms(2)] assms(1) by simp
  then show ?thesis by (intro jit_batch.batch_kills_iff) simp_all
qed

theorem batch_worker_exact_witness:
  "\<exists>e d0 d'. policy_ready ex_platform e \<and> daemon_start ''t0'' True (AuditLog_new None ''now'' ''0a'' True ''p'' ''1'')
     (SharedMemoryPublisher_new True None) e default_options = Some d0 \<and> process_batch (evaluate_batch ex_platform) d0 = Some d'"
proof -
  have b: "pf_begin ex_platform [''SyscallTrace''] = ''SyscallTrace''" by (simp add: ex_platform_def)
  obtain e p where e: "policy_ready ex_platform e"
    using init_ready [OF ex_platform_ok b, of "replicate 128 (replicate 64 7)"] by auto
  obtain d0 where d0: "daemon_start ''t0'' True (AuditLog_new None ''now'' ''0a'' True ''p'' ''1'') (SharedMemoryPublisher_new True None) e default_options = Some d0"
    by (simp add: daemon_start_def vm_start_def VMController_new_def default_options_def Let_def)
  from batch_worker_exact [OF e d0 rtranclp.rtrancl_refl] e d0 show ?thesis by blast
qed

end
