(* ===== verification/Dep_Graph.thy ===== *)
theory Dep_Graph
  imports AG_Prelude "HOL-Library.AList" "HOL-Library.Multiset"
begin

text \<open>
  The dependency graph of a lockfile (\<open>src/host/dep_graph.cpp\<close>): the line-oriented parser, the depth
  first traversal with its \<open>visited\<close> and \<open>in_stack\<close> sets, the install order and the split of that
  order among virtual machines. The unordered map \<open>nodes_\<close> is an association list in its iteration order,
  which the results hold for whatever it is.
\<close>

section \<open>Packages\<close>

record DepNode =
  dn_name :: string
  dn_version :: string
  dn_integrity_hash :: string
  dn_resolved_url :: string
  dn_deps :: "string list"
  dn_is_leaf :: bool

definition DepNode_new :: DepNode where
  "DepNode_new = \<lparr>dn_name = [], dn_version = [], dn_integrity_hash = [], dn_resolved_url = [], dn_deps = [], dn_is_leaf = False\<rparr>"

type_synonym dep_graph = "(string \<times> DepNode) list"

type_synonym Subgraph = "DepNode list"

section \<open>Parser\<close>

text \<open>
  \<open>find_first_not_of\<close> and \<open>find_last_not_of\<close>, with \<open>npos\<close> as the largest \<open>size_t\<close>; the length
  passed to \<open>substr\<close> wraps around as in the code.
\<close>

definition first_not_of :: "char list \<Rightarrow> string \<Rightarrow> nat option" where
  "first_not_of cs s = find_index_of (map (\<lambda>c. c \<notin> set cs) s) True"

definition last_not_of :: "char list \<Rightarrow> string \<Rightarrow> u64" where
  "last_not_of cs s = (case first_not_of cs (rev s) of None \<Rightarrow> - 1 | Some i \<Rightarrow> of_nat (length s - 1 - i))"

definition trim_quotes :: "string \<Rightarrow> string" where
  "trim_quotes str =
     (case first_not_of [CHR 0x20, CHR 0x22, CHR 0x09, CHR 0x0D, CHR 0x0A] str of None \<Rightarrow> []
      | Some start \<Rightarrow>
          let end_pos = last_not_of [CHR 0x20, CHR 0x22, CHR 0x09, CHR 0x0D, CHR 0x0A, CHR 0x2C] str
          in substr str start (unat (end_pos - of_nat start + 1)))"

record parse_state =
  ps_nodes :: dep_graph
  ps_current_pkg :: string
  ps_current_node :: DepNode
  ps_in_packages :: bool
  ps_in_deps :: bool

text \<open>\<open>nodes_[key] = current_node\<close> if a package with a version has been read.\<close>

definition add_current :: "parse_state \<Rightarrow> parse_state" where
  "add_current st =
     (if ps_current_pkg st \<noteq> [] \<and> dn_version (ps_current_node st) \<noteq> []
      then st\<lparr>ps_nodes := AList.update (ps_current_pkg st @ ''@'' @ dn_version (ps_current_node st)) (ps_current_node st) (ps_nodes st)\<rparr>
      else st)"

definition after_colon :: "string \<Rightarrow> string" where
  "after_colon l = (case find_sub '':'' l of None \<Rightarrow> trim_quotes l | Some colon \<Rightarrow> trim_quotes (drop (colon + 1) l))"

definition set_node :: "(DepNode \<Rightarrow> DepNode) \<Rightarrow> parse_state \<Rightarrow> parse_state" where
  "set_node f st = st\<lparr>ps_current_node := f (ps_current_node st)\<rparr>"

definition package_line :: "nat \<Rightarrow> string \<Rightarrow> parse_state \<Rightarrow> parse_state" where
  "package_line start l st =
     (let st = add_current st in
      case find_from [dq] l (start + 14) of None \<Rightarrow> st
      | Some end_pos \<Rightarrow>
          let pkg = substr l (start + 14) (end_pos - start - 14)
          in st\<lparr>ps_current_pkg := pkg, ps_current_node := DepNode_new\<lparr>dn_name := pkg\<rparr>\<rparr>)"

definition dependency_line :: "string \<Rightarrow> parse_state \<Rightarrow> parse_state" where
  "dependency_line l st =
     (if has_sub l ''}'' then st\<lparr>ps_in_deps := False\<rparr>
      else case find_sub '':'' l of None \<Rightarrow> st
        | Some colon \<Rightarrow>
            let dep_name = trim_quotes (take colon l)
            in if dep_name = [] then st else set_node (\<lambda>n. n\<lparr>dn_deps := dn_deps n @ [dep_name]\<rparr>) st)"

definition parse_line :: "string \<Rightarrow> parse_state \<Rightarrow> parse_state" where
  "parse_line l st =
     (if has_sub l (dq # ''packages'' @ dq # '': {'') then st\<lparr>ps_in_packages := True\<rparr>
      else if \<not> ps_in_packages st then st
      else case find_sub (dq # ''node_modules/'') l of
        Some start \<Rightarrow> package_line start l st
      | None \<Rightarrow>
          if has_sub l (dq # ''version'' @ dq # '':'') then set_node (\<lambda>n. n\<lparr>dn_version := after_colon l\<rparr>) st
          else if has_sub l (dq # ''resolved'' @ dq # '':'') then set_node (\<lambda>n. n\<lparr>dn_resolved_url := after_colon l\<rparr>) st
          else if has_sub l (dq # ''integrity'' @ dq # '':'') then set_node (\<lambda>n. n\<lparr>dn_integrity_hash := after_colon l\<rparr>) st
          else if has_sub l (dq # ''dependencies'' @ dq # '': {'') then st\<lparr>ps_in_deps := True\<rparr>
          else if ps_in_deps st then dependency_line l st
          else st)"

definition parse_init :: "dep_graph \<Rightarrow> parse_state" where
  "parse_init g = \<lparr>ps_nodes = g, ps_current_pkg = [], ps_current_node = DepNode_new, ps_in_packages = False, ps_in_deps = False\<rparr>"

text \<open>\<open>parse\<close> on the contents of the file, \<open>None\<close> if it cannot be opened.\<close>

definition parse :: "string option \<Rightarrow> dep_graph \<Rightarrow> bool \<times> dep_graph" where
  "parse file g =
     (case file of None \<Rightarrow> (False, g)
      | Some s \<Rightarrow> (True, map (\<lambda>(k, n). (k, n\<lparr>dn_is_leaf := (dn_deps n = [])\<rparr>))
          (ps_nodes (add_current (fold parse_line (getlines s) (parse_init g))))))"

section \<open>Install order\<close>

text \<open>The first node of the iteration with a given name.\<close>

definition find_named :: "dep_graph \<Rightarrow> string \<Rightarrow> string option" where
  "find_named g dep = map_option fst (find (\<lambda>(k, n). dn_name n = dep) g)"

type_synonym topo_state = "string set \<times> string set \<times> string list"

text \<open>
  \<open>topo_visit\<close>; the fuel bounds the depth of the recursion and \<open>None\<close> means it was exceeded.
\<close>

fun topo_visit :: "nat \<Rightarrow> dep_graph \<Rightarrow> string \<Rightarrow> topo_state \<Rightarrow> topo_state option" where
  "topo_visit 0 g key st = None"
| "topo_visit (Suc fuel) g key (visited, in_stack, order) =
     (if key \<in> visited \<or> key \<in> in_stack then Some (visited, in_stack, order)
      else case fold_option (\<lambda>dep st. case find_named g dep of None \<Rightarrow> Some st | Some node_key \<Rightarrow> topo_visit fuel g node_key st)
                  (case map_of g key of None \<Rightarrow> [] | Some node \<Rightarrow> dn_deps node) (visited, insert key in_stack, order) of
             None \<Rightarrow> None
           | Some (visited, in_stack, order) \<Rightarrow> Some (insert key visited, in_stack - {key}, order @ [key]))"

definition topo_fuel :: "dep_graph \<Rightarrow> nat" where
  "topo_fuel g = Suc (length g)"

definition topo_keys :: "dep_graph \<Rightarrow> string list option" where
  "topo_keys g =
     map_option (\<lambda>(visited, in_stack, order). order)
       (fold_option (\<lambda>(key, node) (visited, in_stack, order).
          if key \<in> visited then Some (visited, in_stack, order) else topo_visit (topo_fuel g) g key (visited, in_stack, order))
        g ({}, {}, []))"

text \<open>\<open>nodes_.at(key)\<close> throws for a missing key, which is \<open>None\<close> here.\<close>

definition topological_order :: "dep_graph \<Rightarrow> DepNode list option" where
  "topological_order g =
     (case topo_keys g of None \<Rightarrow> None
      | Some keys \<Rightarrow> if list_all (\<lambda>k. map_of g k \<noteq> None) keys then Some (map (\<lambda>k. the (map_of g k)) keys) else None)"

section \<open>Subgraphs\<close>

fun greedy_split :: "nat \<Rightarrow> Subgraph \<Rightarrow> DepNode list \<Rightarrow> Subgraph list" where
  "greedy_split per current [] = (if current = [] then [] else [current])"
| "greedy_split per current (n # ns) =
     (let current = current @ [n]
      in if per \<le> length current then current # greedy_split per [] ns else greedy_split per current ns)"

text \<open>The rounding loop: the last subgraph is appended to the one before it.\<close>

function merge_last :: "nat \<Rightarrow> Subgraph list \<Rightarrow> Subgraph list" where
  "merge_last m sg =
     (if m < length sg \<and> 1 < length sg
      then merge_last m ((butlast (butlast sg)) @ [last (butlast sg) @ last sg])
      else sg)"
  by auto

termination by (relation "measure (\<lambda>(m, sg). length sg)") auto

declare merge_last.simps [simp del]

definition extract_parallel_subgraphs :: "nat \<Rightarrow> nat \<Rightarrow> dep_graph \<Rightarrow> Subgraph list option" where
  "extract_parallel_subgraphs hardware_concurrency max_vms g =
     (let max_vms = (if max_vms = 0 then max 1 (hardware_concurrency div 2) else max_vms)
      in case topological_order g of None \<Rightarrow> None
         | Some topo_nodes \<Rightarrow>
             let nodes_per_vm = (length topo_nodes + max_vms - 1) div max_vms
             in Some (merge_last max_vms (greedy_split nodes_per_vm [] topo_nodes)))"

section \<open>The traversal\<close>

text \<open>The edges the traversal follows, and the invariant of its state.\<close>

definition dep_rel :: "dep_graph \<Rightarrow> (string \<times> string) set" where
  "dep_rel g = {(k, d). \<exists>n dep. map_of g k = Some n \<and> dep \<in> set (dn_deps n) \<and> find_named g dep = Some d}"

definition deps_first :: "dep_graph \<Rightarrow> string list \<Rightarrow> bool" where
  "deps_first g ks \<longleftrightarrow> (\<forall>xs k ys. ks = xs @ k # ys \<longrightarrow> dep_rel g `` {k} \<subseteq> set xs)"

definition topo_inv :: "dep_graph \<Rightarrow> string set \<Rightarrow> string set \<Rightarrow> string list \<Rightarrow> bool" where
  "topo_inv g visited in_stack order \<longleftrightarrow>
     set order = visited \<and> distinct order \<and> visited \<inter> in_stack = {} \<and> visited \<union> in_stack \<subseteq> fst ` set g \<and>
     (acyclic (dep_rel g) \<longrightarrow> deps_first g order)"

lemma deps_first_snoc: "deps_first g ks \<Longrightarrow> dep_rel g `` {k} \<subseteq> set ks \<Longrightarrow> deps_first g (ks @ [k])"
  unfolding deps_first_def
proof (intro allI impI)
  fix xs k' ys assume d: "\<forall>xs k ys. ks = xs @ k # ys \<longrightarrow> dep_rel g `` {k} \<subseteq> set xs" "dep_rel g `` {k} \<subseteq> set ks" and e: "ks @ [k] = xs @ k' # ys"
  show "dep_rel g `` {k'} \<subseteq> set xs" using d e by (cases ys rule: rev_cases) auto
qed

lemma find_named_Some: "find_named g dep = Some k \<Longrightarrow> \<exists>n. (k, n) \<in> set g \<and> dn_name n = dep"
  by (auto simp: find_named_def find_Some_iff) (metis nth_mem)

lemma topo_visit_ok:
  assumes "topo_inv g V S od" and "key \<in> fst ` set g" and "card (fst ` set g - S) < fuel" and "\<forall>s \<in> S. (s, key) \<in> (dep_rel g)\<^sup>+"
  shows "\<exists>V' od'. topo_visit fuel g key (V, S, od) = Some (V', S, od') \<and> topo_inv g V' S od' \<and> V \<subseteq> V' \<and> (key \<in> V' \<or> key \<in> S)"
  using assms
proof (induction fuel arbitrary: key V S od)
  case (Suc fuel)
  show ?case
  proof (cases "key \<in> V \<or> key \<in> S")
    case True
    then show ?thesis using Suc.prems(1) by auto
  next
    case new: False
    let ?S = "insert key S"
    let ?deps = "case map_of g key of None \<Rightarrow> [] | Some node \<Rightarrow> dn_deps node"
    let ?f = "\<lambda>dep st. case find_named g dep of None \<Rightarrow> Some st | Some node_key \<Rightarrow> topo_visit fuel g node_key st"
    let ?P = "\<lambda>ys (V', S', od'). S' = ?S \<and> topo_inv g V' ?S od' \<and> V \<subseteq> V' \<and>
      (\<forall>dep \<in> set ys. \<forall>d. find_named g dep = Some d \<longrightarrow> d \<in> V' \<or> d \<in> ?S)"
    have edge: "(key, d) \<in> dep_rel g \<longleftrightarrow> (\<exists>dep \<in> set ?deps. find_named g dep = Some d)" for d
      by (cases "map_of g key") (auto simp: dep_rel_def)
    have "card (fst ` set g - ?S) < card (fst ` set g - S)" using new Suc.prems(2) by (intro psubset_card_mono) auto
    then have fuel: "card (fst ` set g - ?S) < fuel" using Suc.prems(3) by simp
    have "\<exists>st. fold_option ?f ?deps (V, ?S, od) = Some st \<and> ?P ?deps st"
    proof (rule fold_option_invariant [where P = ?P])
      show "?P [] (V, ?S, od)" using Suc.prems(1,2) new by (auto simp: topo_inv_def)
    next
      fix ys dep zs st assume deps: "?deps = ys @ dep # zs" and "?P ys st"
      then obtain V' od' where st: "st = (V', ?S, od')" and P: "?P ys (V', ?S, od')" by (cases st) auto
      show "\<exists>st'. ?f dep st = Some st' \<and> ?P (ys @ [dep]) st'"
      proof (cases "find_named g dep")
        case None
        then show ?thesis using P st by auto
      next
        case (Some d)
        then have "(key, d) \<in> dep_rel g" using edge deps by auto
        then have "\<forall>s \<in> ?S. (s, d) \<in> (dep_rel g)\<^sup>+" using Suc.prems(4) by (auto intro: trancl_into_trancl)
        moreover have "d \<in> fst ` set g" using find_named_Some [OF Some] by force
        ultimately obtain V'' od'' where "topo_visit fuel g d (V', ?S, od') = Some (V'', ?S, od'')" "topo_inv g V'' ?S od''" "V' \<subseteq> V''" "d \<in> V'' \<or> d \<in> ?S"
          using Suc.IH [of V' ?S od' d] P fuel by blast
        then show ?thesis using Some st P by (auto split: option.splits)
      qed
    qed
    then obtain V' od' where loop: "fold_option ?f ?deps (V, ?S, od) = Some (V', ?S, od')" and P: "?P ?deps (V', ?S, od')" by auto
    have visit: "topo_visit (Suc fuel) g key (V, S, od) = Some (insert key V', S, od' @ [key])" using loop new by auto
    have "dep_rel g `` {key} \<subseteq> V'" if "acyclic (dep_rel g)"
    proof
      fix d assume "d \<in> dep_rel g `` {key}"
      then have d: "(key, d) \<in> dep_rel g" by simp
      then have "d \<in> V' \<or> d \<in> ?S" using P edge by blast
      moreover have "d \<notin> ?S" using d Suc.prems(4) that by (auto simp: acyclic_def intro: trancl_into_trancl)
      ultimately show "d \<in> V'" by blast
    qed
    then have "topo_inv g (insert key V') S (od' @ [key])" using P new Suc.prems(2) by (auto simp: topo_inv_def intro!: deps_first_snoc)
    then show ?thesis using visit P by blast
  qed
qed simp

lemma topo_keys_ok:
  "\<exists>ks. topo_keys g = Some ks \<and> distinct ks \<and> set ks = fst ` set g \<and> (acyclic (dep_rel g) \<longrightarrow> deps_first g ks)"
proof -
  let ?f = "\<lambda>(key, node :: DepNode) (visited, in_stack, order).
    if key \<in> visited then Some (visited, in_stack, order) else topo_visit (topo_fuel g) g key (visited, in_stack, order)"
  let ?P = "\<lambda>ys (V, S :: string set, od). S = {} \<and> topo_inv g V {} od \<and> fst ` set ys \<subseteq> V"
  have "\<exists>st. fold_option ?f g ({}, {}, []) = Some st \<and> ?P g st"
  proof (rule fold_option_invariant [where P = ?P])
    show "?P [] ({}, {}, [])" by (simp add: topo_inv_def deps_first_def)
  next
    fix ys x zs st assume g: "g = ys @ x # zs" and "?P ys st"
    then obtain V od where st: "st = (V, {}, od)" and P: "?P ys (V, {}, od)" by (cases st) auto
    obtain k n where x: "x = (k, n)" by (cases x)
    have "card (fst ` set g) < topo_fuel g" using card_length [of "map fst g"] by (simp add: topo_fuel_def)
    moreover have "k \<in> fst ` set g" using g x by simp
    ultimately obtain V' od' where "topo_visit (topo_fuel g) g k (V, {}, od) = Some (V', {}, od')" "topo_inv g V' {} od'" "V \<subseteq> V'" "k \<in> V'"
      using topo_visit_ok [of g V "{}" od k "topo_fuel g"] P by auto
    then show "\<exists>st'. ?f x st = Some st' \<and> ?P (ys @ [x]) st'" using P st x by auto
  qed
  then show ?thesis by (fastforce simp: topo_keys_def topo_inv_def)
qed

section \<open>Install order\<close>

lemma map_snd_keys: "distinct (map fst g) \<Longrightarrow> map (\<lambda>k. the (map_of g k)) (map fst g) = map snd g"
  by (auto intro!: nth_equalityI)

lemma topological_order_keys:
  assumes "topo_keys g = Some ks" and "set ks = fst ` set g"
  shows "topological_order g = Some (map (\<lambda>k. the (map_of g k)) ks)"
proof -
  have "list_all (\<lambda>k. map_of g k \<noteq> None) ks" using assms(2) by (simp add: list_all_iff map_of_eq_None_iff)
  then show ?thesis using assms(1) by (simp add: topological_order_def)
qed

text \<open>
  The traversal always ends and the install order is complete: for every graph, with or without
  cycles, \<open>topological_order\<close> returns each package exactly once.
\<close>

lemma topological_order_permutation:
  assumes "distinct (map fst g)"
  shows "\<exists>ns. topological_order g = Some ns \<and> mset ns = mset (map snd g)"
proof -
  obtain ks where ks: "topo_keys g = Some ks" "distinct ks" "set ks = fst ` set g" using topo_keys_ok by blast
  then have "mset ks = mset (map fst g)" using assms by (intro set_eq_iff_mset_eq_distinct [THEN iffD1]) simp_all
  then have "mset (map (\<lambda>k. the (map_of g k)) ks) = mset (map (\<lambda>k. the (map_of g k)) (map fst g))" by (simp only: mset_map)
  then show ?thesis using topological_order_keys [OF ks(1,3)] map_snd_keys [OF assms] by metis
qed

text \<open>
  Claim C22. The install order respects the dependencies: if they have no cycle, every dependency that is in
  the lockfile comes before the package that needs it.
\<close>

theorem topological_order_deps_first:
  assumes "distinct (map fst g)" and "acyclic (dep_rel g)"
  shows "\<exists>ns. topological_order g = Some ns \<and>
    (\<forall>i < length ns. \<forall>dep \<in> set (dn_deps (ns ! i)). dep \<in> dn_name ` snd ` set g \<longrightarrow> (\<exists>j < i. dn_name (ns ! j) = dep))"
proof -
  obtain ks where ks: "topo_keys g = Some ks" "set ks = fst ` set g" "deps_first g ks" using topo_keys_ok assms(2) by blast
  let ?ns = "map (\<lambda>k. the (map_of g k)) ks"
  have "\<exists>j < i. dn_name (?ns ! j) = dep"
    if i: "i < length ?ns" and dep: "dep \<in> set (dn_deps (?ns ! i))" "dep \<in> dn_name ` snd ` set g" for i dep
  proof -
    obtain n where n: "map_of g (ks ! i) = Some n" using i ks(2) by (metis length_map map_of_eq_None_iff not_Some_eq nth_mem)
    obtain k' n' where "(k', n') \<in> set g" "dn_name n' = dep" using dep(2) by auto
    then have "find_named g dep \<noteq> None" by (simp add: find_named_def find_None_iff) blast
    then obtain d where d: "find_named g dep = Some d" by blast
    then obtain m where m: "(d, m) \<in> set g" "dn_name m = dep" using find_named_Some by blast
    have "(ks ! i, d) \<in> dep_rel g" using n d dep(1) i by (auto simp: dep_rel_def)
    moreover have "ks = take i ks @ ks ! i # drop (Suc i) ks" using i by (simp add: id_take_nth_drop)
    ultimately have "d \<in> set (take i ks)" using ks(3) unfolding deps_first_def by blast
    then obtain j where "j < i" "j < length ks" "ks ! j = d" by (auto simp: in_set_conv_nth)
    then show ?thesis using m assms(1) by (intro exI [of _ j]) auto
  qed
  then show ?thesis using topological_order_keys [OF ks(1,2)] by blast
qed

section \<open>Subgraphs\<close>

lemma concat_greedy_split: "concat (greedy_split per cur ns) = cur @ ns"
  by (induction per cur ns rule: greedy_split.induct) (auto simp: Let_def)

lemma greedy_split_sizes: "length cur < per \<Longrightarrow> sg \<in> set (greedy_split per cur ns) \<Longrightarrow> sg \<noteq> [] \<and> length sg \<le> per"
  by (induction per cur ns rule: greedy_split.induct) (auto simp: Let_def split: if_splits)

lemma length_greedy_split: "length cur < per \<Longrightarrow> length cur + length ns \<le> m * per \<Longrightarrow> length (greedy_split per cur ns) \<le> m"
proof (induction per cur ns arbitrary: m rule: greedy_split.induct)
  case (1 per cur)
  then show ?case by (cases m) auto
next
  case (2 per cur n ns)
  show ?case
  proof (cases "per \<le> length (cur @ [n])")
    case True
    then have "length cur = per - 1" using 2(3) by simp
    then obtain m' where "m = Suc m'" "length ns \<le> m' * per" using 2(3,4) by (cases m) auto
    then show ?thesis using 2(1) [OF refl True] 2(3) True by (auto simp: Let_def)
  next
    case False
    then show ?thesis using 2(2) [OF refl False] 2(4) by (simp add: Let_def)
  qed
qed

text \<open>
  The split hands every package to exactly one machine: for any bound on the number of machines
  the subgraphs, one after the other, are the install order, there are at most \<open>max_vms\<close> of them, and
  none is empty or larger than the rounded share.
\<close>

lemma subgraphs_split_order:
  assumes "distinct (map fst g)" and "0 < max_vms"
  shows "\<exists>ns sgs. topological_order g = Some ns \<and> extract_parallel_subgraphs hc max_vms g = Some sgs \<and> concat sgs = ns \<and>
    length sgs \<le> max_vms \<and> (\<forall>sg \<in> set sgs. sg \<noteq> [] \<and> length sg \<le> (length ns + max_vms - 1) div max_vms)"
proof -
  obtain ks where ks: "topo_keys g = Some ks" "set ks = fst ` set g" using topo_keys_ok by blast
  obtain ns where ns: "topological_order g = Some ns" using topological_order_keys [OF ks] by blast
  let ?per = "(length ns + max_vms - 1) div max_vms"
  have "length ns \<le> max_vms * ?per"
    using dividend_less_times_div [OF assms(2), of "length ns + max_vms - 1"] by linarith
  moreover have "0 < ?per" if "ns \<noteq> []" using that assms(2) by (cases ns) (simp_all add: div_greater_zero_iff)
  ultimately have len: "length (greedy_split ?per [] ns) \<le> max_vms" using length_greedy_split [of "[]" ?per ns max_vms] by (cases ns) simp_all
  then have m: "merge_last max_vms (greedy_split ?per [] ns) = greedy_split ?per [] ns" by (subst merge_last.simps) simp
  have "sg \<noteq> [] \<and> length sg \<le> ?per" if "sg \<in> set (greedy_split ?per [] ns)" for sg
    using that greedy_split_sizes [of "[]" ?per sg ns] \<open>ns \<noteq> [] \<Longrightarrow> 0 < ?per\<close> by (cases ns) auto
  then show ?thesis using ns len m assms(2) concat_greedy_split [of ?per "[]" ns]
    by (simp add: extract_parallel_subgraphs_def Let_def)
qed

section \<open>An example\<close>

definition ex_lockfile :: string where
  "ex_lockfile = concat (map (\<lambda>l. map (\<lambda>c. if c = CHR 0x27 then dq else c) l @ [CHR 0x0A])
     [''{'', ''  'packages': {'', ''    'node_modules/a': {'', ''      'version': '1.0.0','', ''      'integrity': 'sha512-A==','',
      ''      'dependencies': {'', ''        'b': '^2.0.0','', ''        'c': '*' '', ''      }'', ''    },'',
      ''    'node_modules/b': {'', ''      'version': '2.0.1','', ''      'dependencies': {'', ''        'c': '~3'',
      ''      }'', ''    },'', ''    'node_modules/c': {'', ''      'version': '3.0.0' '', ''    }'', ''  }'', ''}''])"

definition ex_graph :: dep_graph where
  "ex_graph =
     [(''a@1.0.0'', DepNode_new\<lparr>dn_name := ''a'', dn_version := ''1.0.0'', dn_integrity_hash := ''sha512-A=='', dn_deps := [''b'', ''c'']\<rparr>),
      (''b@2.0.1'', DepNode_new\<lparr>dn_name := ''b'', dn_version := ''2.0.1'', dn_deps := [''c'']\<rparr>),
      (''c@3.0.0'', DepNode_new\<lparr>dn_name := ''c'', dn_version := ''3.0.0'', dn_is_leaf := True\<rparr>)]"

lemma ex_parse: "parse (Some ex_lockfile) [] = (True, ex_graph)"
  by code_simp

lemma ex_order: "map_option (map dn_name) (topological_order ex_graph) = Some [''c'', ''b'', ''a'']"
  by code_simp

lemma ex_distinct: "distinct (map fst ex_graph)"
  by (simp add: ex_graph_def)

text \<open>The edges, as a list.\<close>

definition edges :: "dep_graph \<Rightarrow> (string \<times> string) list" where
  "edges g = concat (map (\<lambda>(k, n). concat (map (\<lambda>dep. case find_named g dep of None \<Rightarrow> [] | Some d \<Rightarrow> [(k, d)]) (dn_deps n))) g)"

lemma dep_rel_edges: "dep_rel g \<subseteq> set (edges g)"
proof
  fix e assume "e \<in> dep_rel g"
  then obtain k d n dep where e: "e = (k, d)" "map_of g k = Some n" "dep \<in> set (dn_deps n)" "find_named g dep = Some d"
    by (auto simp: dep_rel_def)
  have "(k, n) \<in> set g" using e(2) by (rule map_of_SomeD)
  then show "e \<in> set (edges g)" using e by (force simp: edges_def)
qed

lemma ex_acyclic: "acyclic (dep_rel ex_graph)"
proof -
  have "edges ex_graph = [(''a@1.0.0'', ''b@2.0.1''), (''a@1.0.0'', ''c@3.0.0''), (''b@2.0.1'', ''c@3.0.0'')]" by code_simp
  then have "dep_rel ex_graph \<subseteq> measure (\<lambda>k. if k = ''a@1.0.0'' then 0 else if k = ''b@2.0.1'' then 1 else 2)"
    using dep_rel_edges [of ex_graph] by auto
  then show ?thesis using wf_subset [OF wf_measure] wf_acyclic by blast
qed

lemma topological_order_permutation_witness:
  "\<exists>ns. topological_order ex_graph = Some ns \<and> mset ns = mset (map snd ex_graph)"
  by (rule topological_order_permutation [OF ex_distinct])

theorem topological_order_deps_first_witness:
  "\<exists>ns. topological_order ex_graph = Some ns \<and>
    (\<forall>i < length ns. \<forall>dep \<in> set (dn_deps (ns ! i)). dep \<in> dn_name ` snd ` set ex_graph \<longrightarrow> (\<exists>j < i. dn_name (ns ! j) = dep))"
  by (rule topological_order_deps_first [OF ex_distinct ex_acyclic])

lemma subgraphs_split_order_witness:
  "\<exists>ns sgs. topological_order ex_graph = Some ns \<and> extract_parallel_subgraphs 8 2 ex_graph = Some sgs \<and> concat sgs = ns \<and> length sgs \<le> 2"
  using subgraphs_split_order [OF ex_distinct, of 2 8] by auto

text \<open>
  The subgraphs are not independent: for this lockfile the second machine gets the package \<open>a\<close>,
  whose dependencies \<open>b\<close> and \<open>c\<close> went to the first.
\<close>

lemma subgraphs_not_independent:
  "map_option (map (map (\<lambda>n. (dn_name n, dn_deps n)))) (extract_parallel_subgraphs 8 2 (snd (parse (Some ex_lockfile) []))) =
     Some [[(''c'', []), (''b'', [''c''])], [(''a'', [''b'', ''c''])]]"
  unfolding ex_parse by code_simp

section \<open>Parsed graphs\<close>

lemma add_current_distinct: "distinct (map fst (ps_nodes st)) \<Longrightarrow> distinct (map fst (ps_nodes (add_current st)))"
  by (simp add: add_current_def distinct_update)

lemma parse_line_distinct: "distinct (map fst (ps_nodes st)) \<Longrightarrow> distinct (map fst (ps_nodes (parse_line l st)))"
  by (simp add: parse_line_def package_line_def dependency_line_def set_node_def Let_def add_current_distinct split: option.splits)

text \<open>What \<open>parse\<close> builds has one entry per key, so the results on the install order apply.\<close>

lemma parse_distinct:
  assumes "distinct (map fst g)"
  shows "distinct (map fst (snd (parse file g)))"
proof -
  have "distinct (map fst (ps_nodes (fold parse_line ls st)))" if "distinct (map fst (ps_nodes st))" for ls st
    using that by (induction ls arbitrary: st) (simp_all add: parse_line_distinct)
  then have "distinct (map fst (ps_nodes (add_current (fold parse_line ls (parse_init g)))))" for ls
    using assms by (intro add_current_distinct) (simp add: parse_init_def)
  then show ?thesis using assms by (auto simp: parse_def case_prod_beta comp_def split: option.splits)
qed

end
