(* ===== verification/Integrity_Verifier.thy ===== *)
theory Integrity_Verifier
  imports Byte_Codec "HOL-Library.Multiset"
begin

text \<open>
  The integrity verifier (\<open>src/host/integrity_verifier.cpp\<close>): base64, the comparison of tarball digests
  with the lockfile, the parallel check of all packages, and the lockfile scanner. \<open>CC_SHA512\<close> is a
  parameter; the files are a partial function from paths to bytes.
\<close>

section \<open>Base64\<close>

definition b64_chars :: string where
  "b64_chars = ''ABCDEFGHIJKLMNOPQRSTUVWXYZabcdefghijklmnopqrstuvwxyz0123456789+/''"

definition b64 :: "u8 \<Rightarrow> char" where
  "b64 i = b64_chars ! unat i"

definition sextet0 :: "u8 \<Rightarrow> u8" where "sextet0 a = drop_bit 2 (a AND 0xFC)"

definition sextet1 :: "u8 \<Rightarrow> u8 \<Rightarrow> u8" where "sextet1 a b = push_bit 4 (a AND 0x03) + drop_bit 4 (b AND 0xF0)"

definition sextet2 :: "u8 \<Rightarrow> u8 \<Rightarrow> u8" where "sextet2 b c = push_bit 2 (b AND 0x0F) + drop_bit 6 (c AND 0xC0)"

definition sextet3 :: "u8 \<Rightarrow> u8" where "sextet3 c = c AND 0x3F"

fun base64_encode :: "u8 list \<Rightarrow> string" where
  "base64_encode [] = []"
| "base64_encode [a] = [b64 (sextet0 a), b64 (sextet1 a 0), CHR ''='', CHR ''='']"
| "base64_encode [a, b] = [b64 (sextet0 a), b64 (sextet1 a b), b64 (sextet2 b 0), CHR ''='']"
| "base64_encode (a # b # c # bs) = b64 (sextet0 a) # b64 (sextet1 a b) # b64 (sextet2 b c) # b64 (sextet3 c) # base64_encode bs"

definition hex_digit :: "nat \<Rightarrow> char" where
  "hex_digit n = ''0123456789abcdef'' ! n"

definition hex2 :: "u8 \<Rightarrow> string" where
  "hex2 b = [hex_digit (unat b div 16), hex_digit (unat b mod 16)]"

section \<open>Verification\<close>

record PackageIntegrity =
  pi_name :: string
  pi_version :: string
  pi_integrity_hash :: string
  pi_tarball_path :: string

record IntegrityResult =
  ir_valid :: bool
  ir_name :: string
  ir_version :: string
  ir_expected_hash :: string
  ir_actual_hash :: string
  ir_failure_reason :: string

definition sha512_hex :: "(u8 list \<Rightarrow> u8 list) \<Rightarrow> u8 list \<Rightarrow> string" where
  "sha512_hex sha512 data = concat (map hex2 (sha512 data))"

definition sha512_base64 :: "(u8 list \<Rightarrow> u8 list) \<Rightarrow> u8 list \<Rightarrow> string" where
  "sha512_base64 sha512 data = ''sha512-'' @ base64_encode (sha512 data)"

text \<open>A file that cannot be opened reads as an empty one.\<close>

definition read_file :: "(string \<Rightarrow> u8 list option) \<Rightarrow> string \<Rightarrow> u8 list \<times> nat" where
  "read_file fs path = (case fs path of None \<Rightarrow> ([], 0) | Some bs \<Rightarrow> (bs, length bs))"

definition verify_one :: "(u8 list \<Rightarrow> u8 list) \<Rightarrow> (string \<Rightarrow> u8 list option) \<Rightarrow> PackageIntegrity \<Rightarrow> IntegrityResult" where
  "verify_one sha512 fs pkg =
     (case read_file fs (pi_tarball_path pkg) of (content, sz) \<Rightarrow>
        if sz = 0 \<and> content = []
        then \<lparr>ir_valid = False, ir_name = pi_name pkg, ir_version = pi_version pkg, ir_expected_hash = pi_integrity_hash pkg,
              ir_actual_hash = [], ir_failure_reason = ''Failed to read tarball: '' @ pi_tarball_path pkg\<rparr>
        else let actual = sha512_base64 sha512 content;
                 valid = (actual = pi_integrity_hash pkg)
             in \<lparr>ir_valid = valid, ir_name = pi_name pkg, ir_version = pi_version pkg, ir_expected_hash = pi_integrity_hash pkg,
                 ir_actual_hash = actual, ir_failure_reason = (if valid then [] else ''Hash mismatch'')\<rparr>)"

text \<open>
  \<open>verify_all\<close>: the iterations of \<open>dispatch_apply\<close> take the lock in some order \<open>sched\<close> of the indices.
\<close>

definition verify_all ::
  "(u8 list \<Rightarrow> u8 list) \<Rightarrow> (string \<Rightarrow> u8 list option) \<Rightarrow> nat list \<Rightarrow> PackageIntegrity list \<Rightarrow> IntegrityResult list \<Rightarrow>
   bool \<times> IntegrityResult list" where
  "verify_all sha512 fs sched packages failures =
     (if packages = [] then (True, failures)
      else let failures = fold (\<lambda>i fl. let res = verify_one sha512 fs (packages ! i) in if ir_valid res then fl else fl @ [res]) sched failures
           in (failures = [], failures))"

section \<open>Lockfile scanner\<close>

definition extract_val :: "string \<Rightarrow> string \<Rightarrow> string" where
  "extract_val l key =
     (case find_sub (dq # key @ dq # '':'') l of None \<Rightarrow> []
      | Some pos \<Rightarrow>
          case find_from [dq] l (pos + length key + 3) of None \<Rightarrow> []
          | Some start \<Rightarrow>
              case find_from [dq] l (start + 1) of None \<Rightarrow> []
              | Some end_pos \<Rightarrow> substr l (start + 1) (end_pos - start - 1))"

record lock_state =
  ls_packages :: "PackageIntegrity list"
  ls_name :: string
  ls_version :: string

definition name_line :: "string \<Rightarrow> lock_state \<Rightarrow> lock_state" where
  "name_line l st =
     (case find_sub (dq # ''node_modules/'') l of None \<Rightarrow> st
      | Some pos \<Rightarrow> case find_from [dq] l (pos + 14) of None \<Rightarrow> st
          | Some start \<Rightarrow> st\<lparr>ls_name := substr l (pos + 14) (start - (pos + 14))\<rparr>)"

definition lock_line :: "string \<Rightarrow> lock_state \<Rightarrow> lock_state" where
  "lock_line l st =
     (if has_sub l (dq # ''dependencies'' @ dq # '':'') then st
      else let st = name_line l st;
               v = extract_val l ''version'';
               st = (if v \<noteq> [] then st\<lparr>ls_version := v\<rparr> else st);
               integrity = extract_val l ''integrity''
           in if integrity \<noteq> [] \<and> ls_name st \<noteq> [] \<and> find_sub ''sha512-'' integrity = Some 0
              then st\<lparr>ls_packages := ls_packages st @
                       [\<lparr>pi_name = ls_name st, pi_version = ls_version st, pi_integrity_hash = integrity,
                         pi_tarball_path = ''node_modules/'' @ ls_name st @ ''/.aarchgate_tarball.tgz''\<rparr>],
                     ls_name := [], ls_version := []\<rparr>
              else st)"

definition parse_lockfile :: "string option \<Rightarrow> PackageIntegrity list" where
  "parse_lockfile file =
     (case file of None \<Rightarrow> []
      | Some s \<Rightarrow> ls_packages (fold lock_line (getlines s) \<lparr>ls_packages = [], ls_name = [], ls_version = []\<rparr>))"

section \<open>Base64 loses nothing\<close>

lemma bit_u8_lower: "bit (w :: u8) n \<Longrightarrow> n < 8"
  using bit_imp_le_length [of w n] by simp

lemma b64_chars_distinct: "distinct b64_chars" "length b64_chars = 64" "CHR ''='' \<notin> set b64_chars"
  by (simp_all add: b64_chars_def)

lemma b64_inj: "unat i < 64 \<Longrightarrow> unat j < 64 \<Longrightarrow> b64 i = b64 j \<longleftrightarrow> unat i = unat j"
  using b64_chars_distinct by (simp add: b64_def nth_eq_iff_index_eq)

lemma b64_not_pad: "unat i < 64 \<Longrightarrow> b64 i \<noteq> CHR ''=''"
  using b64_chars_distinct(2,3) unfolding b64_def by (metis nth_mem)

lemma mask_takes:
  "(a :: u8) AND 0x03 = take_bit 2 a" "a AND 0x0F = take_bit 4 a" "a AND 0x3F = take_bit 6 a"
  by (simp_all add: take_bit_eq_mask mask_eq_exp_minus_1)

lemma mask_drops:
  "drop_bit 2 (a AND 0xFC) = take_bit 6 (drop_bit 2 (a :: u8))" "drop_bit 4 (a AND 0xF0) = take_bit 4 (drop_bit 4 a)"
  "drop_bit 6 (a AND 0xC0) = take_bit 2 (drop_bit 6 a)"
  by (simp_all add: drop_bit_and flip: mask_takes)

lemmas unat_bits = mask_takes mask_drops unat_word_ariths(1) unat_drop_bit_eq unsigned_take_bit_eq unsigned_push_bit_eq

lemma unat_sextets:
  "unat (sextet0 a) = unat a div 4" "unat (sextet1 a b) = unat a mod 4 * 16 + unat b div 16"
  "unat (sextet2 b c) = unat b mod 16 * 4 + unat c div 64" "unat (sextet3 c) = unat c mod 64"
proof -
  have u: "unat a < 256" "unat b < 256" "unat c < 256" using unsigned_less [of a] unsigned_less [of b] unsigned_less [of c] by simp_all
  note nat_bits = drop_bit_eq_div take_bit_eq_mod push_bit_eq_mult
  show "unat (sextet0 a) = unat a div 4" unfolding sextet0_def unat_bits using u by (simp add: nat_bits)
  show "unat (sextet1 a b) = unat a mod 4 * 16 + unat b div 16" unfolding sextet1_def unat_bits using u by (simp add: nat_bits)
  show "unat (sextet2 b c) = unat b mod 16 * 4 + unat c div 64" unfolding sextet2_def unat_bits using u by (simp add: nat_bits)
  show "unat (sextet3 c) = unat c mod 64" unfolding sextet3_def unat_bits by (simp add: nat_bits)
qed

lemma sextet_less: "unat (sextet0 a) < 64" "unat (sextet1 a b) < 64" "unat (sextet2 b c) < 64" "unat (sextet3 c) < 64"
proof -
  have "unat a < 256" "unat b < 256" "unat c < 256" using unsigned_less [of a] unsigned_less [of b] unsigned_less [of c] by simp_all
  then show "unat (sextet0 a) < 64" "unat (sextet1 a b) < 64" "unat (sextet2 b c) < 64" "unat (sextet3 c) < 64"
    unfolding unat_sextets by arith+
qed

lemma b64_sextets:
  "b64 (sextet0 a) = b64 (sextet0 a') \<longleftrightarrow> unat a div 4 = unat a' div 4"
  "b64 (sextet1 a b) = b64 (sextet1 a' b') \<longleftrightarrow> unat a mod 4 * 16 + unat b div 16 = unat a' mod 4 * 16 + unat b' div 16"
  "b64 (sextet2 b c) = b64 (sextet2 b' c') \<longleftrightarrow> unat b mod 16 * 4 + unat c div 64 = unat b' mod 16 * 4 + unat c' div 64"
  "b64 (sextet3 c) = b64 (sextet3 c') \<longleftrightarrow> unat c mod 64 = unat c' mod 64"
  by (simp_all only: b64_inj sextet_less, simp_all only: unat_sextets)

text \<open>Four characters determine the bytes they encode.\<close>

lemma digit_pair:
  fixes q :: nat
  assumes "x mod p * q + y div r = x' mod p * q + y' div r" and "y div r < q" "y' div r < q"
  shows "x mod p = x' mod p \<and> y div r = y' div r"
proof -
  have "(x mod p * q + y div r) div q = x mod p" "(x' mod p * q + y' div r) div q = x' mod p"
    "(x mod p * q + y div r) mod q = y div r" "(x' mod p * q + y' div r) mod q = y' div r"
    using assms(2,3) by simp_all
  then show ?thesis using assms(1) by metis
qed

lemma sextets_inj:
  assumes "b64 (sextet0 a) = b64 (sextet0 a')" and "b64 (sextet1 a b) = b64 (sextet1 a' b')"
  shows "a = a'" and "b64 (sextet2 b c) = b64 (sextet2 b' c') \<Longrightarrow> b = b'"
    and "b64 (sextet2 b c) = b64 (sextet2 b' c') \<Longrightarrow> b64 (sextet3 c) = b64 (sextet3 c') \<Longrightarrow> c = c'"
proof -
  have u: "unat w div 16 < 16" "unat w div 64 < 4" for w :: u8
  proof -
    have "unat w < 256" using unsigned_less [of w] by simp
    then show "unat w div 16 < 16" "unat w div 64 < 4" by simp_all
  qed
  have eq: "w = w'" if "unat w div n = unat w' div n" "unat w mod n = unat w' mod n" for w w' :: u8 and n
    using that by (metis div_mult_mod_eq word_unat_eq_iff)
  have s1: "unat a mod 4 = unat a' mod 4 \<and> unat b div 16 = unat b' div 16"
    using assms(2) u [of b] u [of b'] by (intro digit_pair) (simp_all add: b64_sextets)
  then show "a = a'" using assms(1) by (intro eq [of a 4 a']) (simp_all add: b64_sextets)
  assume "b64 (sextet2 b c) = b64 (sextet2 b' c')"
  then have s2: "unat b mod 16 = unat b' mod 16 \<and> unat c div 64 = unat c' div 64"
    using u [of c] u [of c'] by (intro digit_pair) (simp_all add: b64_sextets)
  then show "b = b'" using s1 by (intro eq [of b 16 b']) simp_all
  assume "b64 (sextet3 c) = b64 (sextet3 c')"
  then show "c = c'" using s2 by (intro eq [of c 64 c']) (simp_all add: b64_sextets)
qed

lemma base64_encode_inj: "base64_encode xs = base64_encode ys \<Longrightarrow> xs = ys"
proof (induction xs arbitrary: ys rule: base64_encode.induct)
  case 1
  then show ?case by (cases ys rule: base64_encode.cases) simp_all
next
  case (2 a)
  then show ?case by (cases ys rule: base64_encode.cases) (auto simp: b64_not_pad [THEN not_sym] b64_not_pad sextet_less dest: sextets_inj(1))
next
  case (3 a b)
  then show ?case
    by (cases ys rule: base64_encode.cases) (auto simp: b64_not_pad [THEN not_sym] b64_not_pad sextet_less dest: sextets_inj(1) sextets_inj(2))
next
  case (4 a b c bs)
  then show ?case
    by (cases ys rule: base64_encode.cases) (auto simp: b64_not_pad [THEN not_sym] b64_not_pad sextet_less dest: sextets_inj(1) sextets_inj(2) sextets_inj(3))
qed

section \<open>Verification of packages\<close>

lemma verify_one_valid:
  "ir_valid (verify_one sha512 fs pkg) \<longleftrightarrow>
     (\<exists>content. fs (pi_tarball_path pkg) = Some content \<and> content \<noteq> [] \<and> sha512_base64 sha512 content = pi_integrity_hash pkg)"
  by (auto simp: verify_one_def read_file_def Let_def split: option.splits)

text \<open>
  A package passes exactly if its tarball can be read, is not empty, and has the digest the lockfile
  names: base64 loses nothing, so no tarball with another digest is accepted under that string.
\<close>

lemma verify_one_exact:
  "ir_valid (verify_one sha512 fs (pkg\<lparr>pi_integrity_hash := ''sha512-'' @ base64_encode digest\<rparr>)) \<longleftrightarrow>
     (\<exists>content. fs (pi_tarball_path pkg) = Some content \<and> content \<noteq> [] \<and> sha512 content = digest)"
  unfolding verify_one_valid using base64_encode_inj by (auto simp: sha512_base64_def)

lemma verify_fold:
  "fold (\<lambda>i fl. let res = verify_one sha512 fs (packages ! i) in if ir_valid res then fl else fl @ [res]) sched fl =
     fl @ filter (\<lambda>r. \<not> ir_valid r) (map (\<lambda>i. verify_one sha512 fs (packages ! i)) sched)"
  by (induction sched arbitrary: fl) (simp_all add: Let_def)

text \<open>
  The parallel check does not depend on the schedule: whatever the order in which the iterations of
  \<open>dispatch_apply\<close> take the lock, \<open>verify_all\<close> accepts exactly if every package passes, and reports the
  failed ones, each once.
\<close>

lemma verify_all_schedule_independent:
  assumes "mset sched = mset [0..<length packages]"
  shows "(fst (verify_all sha512 fs sched packages []) \<longleftrightarrow> (\<forall>pkg \<in> set packages. ir_valid (verify_one sha512 fs pkg))) \<and>
    mset (snd (verify_all sha512 fs sched packages [])) = mset (filter (\<lambda>r. \<not> ir_valid r) (map (verify_one sha512 fs) packages))"
proof -
  let ?bad = "filter (\<lambda>r. \<not> ir_valid r)"
  have "mset (map (\<lambda>i. verify_one sha512 fs (packages ! i)) sched) = mset (map (\<lambda>i. verify_one sha512 fs (packages ! i)) [0..<length packages])"
    using assms by (simp only: mset_map)
  moreover have "map (\<lambda>i. verify_one sha512 fs (packages ! i)) [0..<length packages] = map (verify_one sha512 fs) packages"
    by (intro nth_equalityI) simp_all
  ultimately have m: "mset (?bad (map (\<lambda>i. verify_one sha512 fs (packages ! i)) sched)) = mset (?bad (map (verify_one sha512 fs) packages))"
    by (simp add: mset_filter)
  then have res: "mset (snd (verify_all sha512 fs sched packages [])) = mset (?bad (map (verify_one sha512 fs) packages))"
    unfolding verify_all_def verify_fold by (simp add: Let_def)
  have "?bad (map (\<lambda>i. verify_one sha512 fs (packages ! i)) sched) = [] \<longleftrightarrow> ?bad (map (verify_one sha512 fs) packages) = []"
    using m by (metis mset_zero_iff)
  also have "\<dots> \<longleftrightarrow> (\<forall>pkg \<in> set packages. ir_valid (verify_one sha512 fs pkg))" by (auto simp: filter_empty_conv)
  finally have "fst (verify_all sha512 fs sched packages []) \<longleftrightarrow> (\<forall>pkg \<in> set packages. ir_valid (verify_one sha512 fs pkg))"
    unfolding verify_all_def verify_fold by (auto simp: Let_def)
  with res show ?thesis by blast
qed

definition ex_pkg :: "string \<Rightarrow> u8 list \<Rightarrow> PackageIntegrity" where
  "ex_pkg n digest = \<lparr>pi_name = n, pi_version = ''1.0.0'', pi_integrity_hash = ''sha512-'' @ base64_encode digest, pi_tarball_path = n @ ''.tgz''\<rparr>"

lemma verify_all_schedule_independent_witness:
  "fst (verify_all (\<lambda>bs. take 2 bs) (\<lambda>p. if p = ''a.tgz'' then Some [1, 2, 3] else Some [4, 5]) [1, 0] [ex_pkg ''a'' [1, 2], ex_pkg ''b'' [4, 5]] [])"
proof -
  have "mset [1, 0] = mset [0..<length [ex_pkg ''a'' [1, 2], ex_pkg ''b'' [4, 5]]]" by (simp add: upt_rec)
  from verify_all_schedule_independent [OF this] show ?thesis
    by (simp add: verify_one_valid ex_pkg_def sha512_base64_def)
qed

section \<open>Lockfiles as npm writes them\<close>

text \<open>A member with a string value, and the opening line of an object, with any indentation.\<close>

definition kv_line :: "string \<Rightarrow> string \<Rightarrow> string \<Rightarrow> string \<Rightarrow> string" where
  "kv_line ind k v tail = ind @ dq # k @ dq # '': '' @ dq # v @ dq # tail"

definition obj_line :: "string \<Rightarrow> string \<Rightarrow> string" where
  "obj_line ind k = ind @ dq # k @ dq # '': {''"

declare find_sub.simps(2) [simp del]

lemma find_kv:
  assumes "dq \<notin> set ind" "dq \<notin> set k" "dq \<notin> set v" "dq \<notin> set tail" "dq \<notin> set w" and "w \<noteq> '': ''" and "take 1 tail \<noteq> '':''"
  shows "find_sub (dq # w @ dq # '':'') (kv_line ind k v tail) = (if k = w then Some (length ind) else None)"
proof -
  have "find_sub (dq # w @ dq # '':'') (dq # v @ dq # tail) = None"
    using find_quoted [OF assms(5,3), of "'':''" tail] find_quoted_last [OF assms(4)] assms(7) by simp
  moreover have "find_sub (dq # w @ dq # '':'') (dq # '': '' @ dq # v @ dq # tail) =
      map_option (\<lambda>i. Suc (2 + i)) (find_sub (dq # w @ dq # '':'') (dq # v @ dq # tail))"
    using find_quoted [OF assms(5), of "'': ''" "'':''" "v @ dq # tail"] assms(6) by auto
  ultimately have "find_sub (dq # w @ dq # '':'') (dq # k @ dq # '': '' @ dq # v @ dq # tail) = (if k = w then Some 0 else None)"
    using find_quoted [OF assms(5,2), of "'':''" "'': '' @ dq # v @ dq # tail"] by simp
  then show ?thesis
    unfolding kv_line_def using find_sub_skip [OF assms(1), of "w @ dq # '':''"] by simp
qed

lemma find_obj:
  assumes "dq \<notin> set ind" "dq \<notin> set k" "dq \<notin> set w" and "k \<noteq> w"
  shows "find_sub (dq # w @ dq # '':'') (obj_line ind k) = None"
proof -
  have "find_sub (dq # w @ dq # '':'') (dq # k @ dq # '': {'') = None"
    using find_quoted [OF assms(3,2), of "'':''" "'': {''"] find_quoted_last [of dq "'': {''" w "'':''"] assms(4) by simp
  then show ?thesis unfolding obj_line_def using find_sub_skip [OF assms(1), of "w @ dq # '':''"] by simp
qed

lemma extract_kv:
  assumes "dq \<notin> set ind" "dq \<notin> set k" "dq \<notin> set v" "dq \<notin> set tail" "dq \<notin> set w" and "w \<noteq> '': ''" and "take 1 tail \<noteq> '':''"
  shows "extract_val (kv_line ind k v tail) w = (if k = w then v else [])"
proof (cases "k = w")
  case True
  let ?l = "kv_line ind k v tail" and ?n = "length ind"
  have d1: "drop (?n + length k + 3) ?l = '' '' @ dq # v @ dq # tail" and d2: "drop (?n + length k + 4 + 1) ?l = v @ dq # tail"
    by (simp_all add: kv_line_def numeral_eq_Suc)
  have len: "length ?l = 6 + ?n + length k + length v + length tail" by (simp add: kv_line_def)
  have f1: "find_from [dq] ?l (?n + length k + 3) = Some (?n + length k + 4)"
    unfolding find_from_def d1 using len by (simp add: find_sub.simps)
  have f2: "find_from [dq] ?l (?n + length k + 4 + 1) = Some (?n + length k + 4 + 1 + length v)"
    unfolding find_from_def d2 using len find_sub_skip [OF assms(3), of "[]" "dq # tail"] by (simp add: find_sub.simps)
  show ?thesis unfolding extract_val_def find_kv [OF assms] using f1 f2 d2 True by (simp add: substr_def)
next
  case False
  then show ?thesis unfolding extract_val_def find_kv [OF assms] by simp
qed

lemma extract_obj: "dq \<notin> set ind \<Longrightarrow> dq \<notin> set k \<Longrightarrow> dq \<notin> set w \<Longrightarrow> k \<noteq> w \<Longrightarrow> extract_val (obj_line ind k) w = []"
  by (simp add: extract_val_def find_obj)

text \<open>The opening line of a package names it; a member whose value does not look like a package path does not.\<close>

lemma name_obj:
  assumes "dq \<notin> set ind" and "dq \<notin> set n"
  shows "name_line (obj_line ind (''node_modules/'' @ n)) st = st\<lparr>ls_name := n\<rparr>"
proof -
  let ?l = "obj_line ind (''node_modules/'' @ n)"
  have "find_sub (dq # ''node_modules/'') (dq # (''node_modules/'' @ n) @ dq # '': {'') = Some 0"
    by (subst find_open) (use assms in \<open>auto simp: starts_with_def\<close>)
  then have f: "find_sub (dq # ''node_modules/'') ?l = Some (length ind)"
    unfolding obj_line_def using find_sub_skip [OF assms(1), of "''node_modules/''"] by simp
  have d: "drop (length ind + 14) ?l = n @ dq # '': {''" by (simp add: obj_line_def numeral_eq_Suc)
  have "find_from [dq] ?l (length ind + 14) = Some (length ind + 14 + length n)"
    using d find_sub_skip [OF assms(2), of "[]" "dq # '': {''"] by (simp add: find_from_def find_sub.simps obj_line_def)
  then show ?thesis using f d by (simp add: name_line_def substr_def)
qed

lemma name_kv:
  assumes "dq \<notin> set ind" "dq \<notin> set k" "dq \<notin> set v" "dq \<notin> set tail"
    and "\<not> starts_with k ''node_modules/''" "\<not> starts_with v ''node_modules/''" "length tail < 13"
  shows "name_line (kv_line ind k v tail) st = st"
proof -
  let ?w = "''node_modules/''"
  have t: "\<not> starts_with tail ?w" by (rule starts_with_short) (use assms(7) in simp)
  have "find_sub (dq # ?w) (dq # tail) = None" by (rule find_open_last) (use assms(4) t in simp_all)
  then have "find_sub (dq # ?w) (dq # v @ dq # tail) = None" using find_open [of dq ?w v tail] assms(3,6) by simp
  then have "find_sub (dq # ?w) (dq # '': '' @ dq # v @ dq # tail) = None"
    using find_open [of dq ?w "'': ''" "v @ dq # tail"] by (simp add: starts_with_def)
  then have "find_sub (dq # ?w) (dq # k @ dq # '': '' @ dq # v @ dq # tail) = None"
    using find_open [of dq ?w k "'': '' @ dq # v @ dq # tail"] assms(2,5) by simp
  then have "find_sub (dq # ?w) (kv_line ind k v tail) = None"
    unfolding kv_line_def using find_sub_skip [OF assms(1), of ?w] by simp
  then show ?thesis by (simp add: name_line_def)
qed

text \<open>
  A line that names no package and no SHA-512 digest (it may give a version, as the root project's does), and
  one that gives no version either.
\<close>

definition quiet :: "string \<Rightarrow> bool" where
  "quiet l \<longleftrightarrow> CHR 0x0A \<notin> set l \<and> find_sub (dq # ''node_modules/'') l = None \<and> \<not> starts_with (extract_val l ''integrity'') ''sha512-''"

definition neutral :: "string \<Rightarrow> bool" where
  "neutral l \<longleftrightarrow> quiet l \<and> extract_val l ''version'' = []"

definition plain_text :: "string \<Rightarrow> bool" where
  "plain_text s \<longleftrightarrow> s \<noteq> [] \<and> dq \<notin> set s \<and> CHR 0x0A \<notin> set s \<and> \<not> starts_with s ''node_modules/''"

definition indent_ok :: "string \<Rightarrow> bool" where
  "indent_ok s \<longleftrightarrow> dq \<notin> set s \<and> CHR 0x0A \<notin> set s"

text \<open>
  An entry with a digest: its opening line, the version before the digest, each followed by a comma or by
  nothing, and other lines before, between and after them. An entry without a digest of this kind (a link, a
  workspace, an old digest) is a name and other lines.
\<close>

record lock_entry =
  le_indent :: "string \<times> string"
  le_name :: string
  le_version :: string
  le_hash :: string
  le_commas :: "bool \<times> bool"
  le_pre :: "string list"
  le_mid :: "string list"
  le_post :: "string list"

datatype lock_item = Digest lock_entry | Bare string string "string list"

definition comma :: "bool \<Rightarrow> string" where
  "comma b = (if b then '','' else [])"

definition entry_ok :: "lock_entry \<Rightarrow> bool" where
  "entry_ok e \<longleftrightarrow> indent_ok (fst (le_indent e)) \<and> indent_ok (snd (le_indent e)) \<and>
     plain_text (le_name e) \<and> plain_text (le_version e) \<and> plain_text (le_hash e) \<and> starts_with (le_hash e) ''sha512-'' \<and>
     list_all quiet (le_pre e) \<and> list_all neutral (le_mid e) \<and> list_all quiet (le_post e)"

definition entry_lines :: "lock_entry \<Rightarrow> string list" where
  "entry_lines e = obj_line (fst (le_indent e)) (''node_modules/'' @ le_name e) # le_pre e @
     kv_line (snd (le_indent e)) ''version'' (le_version e) (comma (fst (le_commas e))) # le_mid e @
     kv_line (snd (le_indent e)) ''integrity'' (le_hash e) (comma (snd (le_commas e))) # le_post e"

definition entry_package :: "lock_entry \<Rightarrow> PackageIntegrity" where
  "entry_package e = \<lparr>pi_name = le_name e, pi_version = le_version e, pi_integrity_hash = le_hash e,
     pi_tarball_path = ''node_modules/'' @ le_name e @ ''/.aarchgate_tarball.tgz''\<rparr>"

fun item_ok :: "lock_item \<Rightarrow> bool" where
  "item_ok (Digest e) = entry_ok e"
| "item_ok (Bare ind n ls) = (indent_ok ind \<and> plain_text n \<and> list_all quiet ls)"

fun item_lines :: "lock_item \<Rightarrow> string list" where
  "item_lines (Digest e) = entry_lines e"
| "item_lines (Bare ind n ls) = obj_line ind (''node_modules/'' @ n) # ls"

fun item_packages :: "lock_item \<Rightarrow> PackageIntegrity list" where
  "item_packages (Digest e) = [entry_package e]"
| "item_packages (Bare ind n ls) = []"

lemma lock_quiet:
  assumes "quiet l"
  shows "\<exists>v. lock_line l st = st\<lparr>ls_version := v\<rparr>" and "extract_val l ''version'' = [] \<Longrightarrow> lock_line l st = st"
proof -
  have n: "name_line l st = st" using assms by (simp add: quiet_def name_line_def)
  have "find_sub ''sha512-'' (extract_val l ''integrity'') \<noteq> Some 0"
    using assms find_sub_Some [of "''sha512-''" "extract_val l ''integrity''" 0] by (auto simp: quiet_def starts_with_def)
  then have "lock_line l st = (if has_sub l (dq # ''dependencies'' @ dq # '':'') \<or> extract_val l ''version'' = [] then st
      else st\<lparr>ls_version := extract_val l ''version''\<rparr>)"
    using n by (simp add: lock_line_def Let_def)
  moreover have "st = st\<lparr>ls_version := ls_version st\<rparr>" by simp
  ultimately show "\<exists>v. lock_line l st = st\<lparr>ls_version := v\<rparr>" "extract_val l ''version'' = [] \<Longrightarrow> lock_line l st = st" by metis+
qed

lemma lock_quiet_lines: "list_all quiet ls \<Longrightarrow> \<exists>v. fold lock_line ls st = st\<lparr>ls_version := v\<rparr>"
proof (induction ls arbitrary: st)
  case Nil
  show ?case by (rule exI [of _ "ls_version st"]) simp
next
  case (Cons l ls)
  then have "quiet l" by simp
  then obtain v where "lock_line l st = st\<lparr>ls_version := v\<rparr>" using lock_quiet(1) by blast
  then show ?case using Cons.IH [of "st\<lparr>ls_version := v\<rparr>"] Cons.prems by auto
qed

lemma lock_neutral: "list_all neutral ls \<Longrightarrow> fold lock_line ls st = st"
  by (induction ls) (simp_all add: lock_quiet(2) neutral_def)

lemma lock_obj:
  assumes "indent_ok ind" and "dq \<notin> set n"
  shows "lock_line (obj_line ind (''node_modules/'' @ n)) st = st\<lparr>ls_name := n\<rparr>"
proof -
  have i: "dq \<notin> set ind" using assms(1) by (simp add: indent_ok_def)
  have "extract_val (obj_line ind (''node_modules/'' @ n)) ''version'' = []" "extract_val (obj_line ind (''node_modules/'' @ n)) ''integrity'' = []"
    by (rule extract_obj; use i assms(2) in simp)+
  moreover have "\<not> has_sub (obj_line ind (''node_modules/'' @ n)) (dq # ''dependencies'' @ dq # '':'')"
    unfolding has_sub_def by (subst find_obj) (use i assms(2) in simp_all)
  ultimately show ?thesis unfolding lock_line_def name_obj [OF i assms(2)] by simp
qed

text \<open>What the scanner sees in a member of an entry.\<close>

lemma member_line:
  assumes "indent_ok ind" and "plain_text v" and "k \<in> {''version'', ''integrity''}"
  shows "\<not> has_sub (kv_line ind k v (comma b)) (dq # ''dependencies'' @ dq # '':'')"
    and "name_line (kv_line ind k v (comma b)) st = st"
    and "w \<in> {''version'', ''integrity''} \<Longrightarrow> extract_val (kv_line ind k v (comma b)) w = (if k = w then v else [])"
proof -
  have c: "dq \<notin> set ind" "dq \<notin> set k" "dq \<notin> set v" "dq \<notin> set (comma b)" "take 1 (comma b) \<noteq> '':''" "length (comma b) < 13"
    "\<not> starts_with k ''node_modules/''" "\<not> starts_with v ''node_modules/''" "k \<noteq> ''dependencies''"
    using assms by (auto simp: indent_ok_def plain_text_def comma_def starts_with_def)
  show "\<not> has_sub (kv_line ind k v (comma b)) (dq # ''dependencies'' @ dq # '':'')"
    unfolding has_sub_def by (subst find_kv) (use c in simp_all)
  show "name_line (kv_line ind k v (comma b)) st = st" by (rule name_kv [OF c(1-4,7,8,6)])
  show "extract_val (kv_line ind k v (comma b)) w = (if k = w then v else [])" if "w \<in> {''version'', ''integrity''}"
    by (rule extract_kv [OF c(1-4) _ _ c(5)]) (use that in auto)
qed

lemma lock_version:
  assumes "indent_ok ind" and "plain_text v"
  shows "lock_line (kv_line ind ''version'' v (comma b)) st = st\<lparr>ls_version := v\<rparr>"
proof -
  have "v \<noteq> []" using assms by (simp add: plain_text_def)
  then show ?thesis using member_line [OF assms, of "''version''"] by (simp add: lock_line_def Let_def)
qed

lemma lock_integrity:
  assumes "indent_ok ind" and "plain_text h" and "starts_with h ''sha512-''" and "ls_name st \<noteq> []"
  shows "lock_line (kv_line ind ''integrity'' h (comma b)) st = st\<lparr>ls_packages := ls_packages st @
    [\<lparr>pi_name = ls_name st, pi_version = ls_version st, pi_integrity_hash = h,
      pi_tarball_path = ''node_modules/'' @ ls_name st @ ''/.aarchgate_tarball.tgz''\<rparr>], ls_name := [], ls_version := []\<rparr>"
proof -
  have "h \<noteq> []" "find_sub ''sha512-'' h = Some 0" using assms by (auto intro: find_sub_prefix simp: plain_text_def)
  then show ?thesis using member_line [OF assms(1,2), of "''integrity''"] assms(4) by (simp add: lock_line_def Let_def)
qed

lemma lock_entry_lines:
  assumes "entry_ok e"
  shows "\<exists>v. fold lock_line (entry_lines e) st = st\<lparr>ls_packages := ls_packages st @ [entry_package e], ls_name := [], ls_version := v\<rparr>"
proof -
  have ok: "plain_text (le_name e)" "plain_text (le_version e)" "plain_text (le_hash e)" "starts_with (le_hash e) ''sha512-''"
    "list_all quiet (le_pre e)" "list_all neutral (le_mid e)" "list_all quiet (le_post e)"
    "indent_ok (fst (le_indent e))" "indent_ok (snd (le_indent e))"
    using assms(1) by (simp_all add: entry_ok_def)
  have n: "dq \<notin> set (le_name e)" "le_name e \<noteq> []" using ok(1) by (simp_all add: plain_text_def)
  obtain u where u: "fold lock_line (le_pre e) (st\<lparr>ls_name := le_name e\<rparr>) = st\<lparr>ls_name := le_name e, ls_version := u\<rparr>"
    using lock_quiet_lines [OF ok(5)] by blast
  let ?st = "st\<lparr>ls_packages := ls_packages st @ [entry_package e], ls_name := [], ls_version := []\<rparr>"
  have "fold lock_line (entry_lines e) st = fold lock_line (le_post e)
      (lock_line (kv_line (snd (le_indent e)) ''integrity'' (le_hash e) (comma (snd (le_commas e))))
        (st\<lparr>ls_name := le_name e, ls_version := le_version e\<rparr>))"
    unfolding entry_lines_def
    by (simp only: fold.simps fold_append comp_apply lock_obj [OF ok(8) n(1)] u lock_version [OF ok(9,2)] lock_neutral [OF ok(6)]
        lock_state.update_convs lock_state.cases id_apply) simp
  also have "\<dots> = fold lock_line (le_post e) ?st"
    using lock_integrity [OF ok(9,3,4), of "st\<lparr>ls_name := le_name e, ls_version := le_version e\<rparr>"] n(2) by (simp add: entry_package_def)
  finally show ?thesis using lock_quiet_lines [OF ok(7), of ?st] by auto
qed

lemma lock_item_lines:
  assumes "item_ok i"
  shows "ls_packages (fold lock_line (item_lines i) st) = ls_packages st @ item_packages i"
proof (cases i)
  case (Digest e)
  then show ?thesis using lock_entry_lines [of e st] assms by auto
next
  case (Bare ind n ls)
  then have n: "indent_ok ind" "dq \<notin> set n" "list_all quiet ls" using assms by (simp_all add: plain_text_def)
  obtain v where "fold lock_line ls (st\<lparr>ls_name := n\<rparr>) = st\<lparr>ls_name := n, ls_version := v\<rparr>"
    using lock_quiet_lines [OF n(3)] by blast
  then show ?thesis unfolding Bare item_lines.simps fold.simps comp_apply lock_obj [OF n(1,2)] by simp
qed

lemma lock_items:
  "list_all item_ok is \<Longrightarrow> ls_packages (fold lock_line (concat (map item_lines is)) st) = ls_packages st @ concat (map item_packages is)"
  by (induction "is" arbitrary: st) (simp_all add: lock_item_lines)

lemma item_lines_no_nl: "item_ok i \<Longrightarrow> l \<in> set (item_lines i) \<Longrightarrow> CHR 0x0A \<notin> set l"
  by (cases i) (auto simp: entry_ok_def entry_lines_def plain_text_def neutral_def quiet_def indent_ok_def obj_line_def kv_line_def
      comma_def list_all_iff split: if_splits)

text \<open>
  Claim C23. The lockfile scanner recovers the packages of a lockfile with one line per member: after any
  first lines without a package path or digest (the version of the root project may be among them), any
  sequence of entries in which the version comes before the SHA-512 digest, with or without commas, with any
  indentation and any other lines that name no package and no further version or digest, or which have no
  such digest at all. The scanner returns the entries that have one, in order, with their versions and
  digests, whether or not the last line ends with a newline.
\<close>

theorem parse_lockfile_recovers:
  assumes "list_all item_ok is" and "list_all quiet header" and "quiet final"
  shows "parse_lockfile (Some (concat (map (\<lambda>l. l @ [CHR 0x0A]) (header @ concat (map item_lines is))) @ final)) =
    concat (map item_packages is)"
proof -
  let ?ls = "header @ concat (map item_lines is)"
  let ?st = "\<lparr>ls_packages = [], ls_name = [], ls_version = []\<rparr>"
  have "\<forall>l \<in> set ?ls. CHR 0x0A \<notin> set l"
    using assms item_lines_no_nl by (auto simp: list_all_iff quiet_def)
  then have g: "getlines (concat (map (\<lambda>l. l @ [CHR 0x0A]) ?ls) @ final) = ?ls @ (if final = [] then [] else [final])"
    using assms(3) by (intro getlines_concat_rest) (simp_all only: quiet_def simp_thms)
  have "list_all quiet (if final = [] then [] else [final])" using assms(3) by simp
  from lock_quiet_lines [OF this] have "ls_packages (fold lock_line (?ls @ (if final = [] then [] else [final])) ?st) = ls_packages (fold lock_line ?ls ?st)"
    by (metis fold_append comp_apply lock_state.select_convs(1) lock_state.surjective lock_state.update_convs(3))
  also have "\<dots> = concat (map item_packages is)"
    using lock_quiet_lines [OF assms(2), of ?st] lock_items [OF assms(1)] by auto
  finally show ?thesis unfolding parse_lockfile_def option.case g .
qed

definition ex_entry :: lock_entry where
  "ex_entry = \<lparr>le_indent = (''    '', ''      ''), le_name = ''left-pad'', le_version = ''1.3.0'', le_hash = ''sha512-AAAA'', le_commas = (True, True),
     le_pre = [], le_mid = [kv_line ''      '' ''resolved'' ''https://registry.npmjs.org/left-pad/-/left-pad-1.3.0.tgz'' '',''],
     le_post = [kv_line ''      '' ''license'' ''MIT'' [], ''    }'']\<rparr>"

text \<open>The lockfile of the repository's test, with the version of the root project and a linked package.\<close>

definition ex_lodash :: lock_entry where
  "ex_lodash = \<lparr>le_indent = (''    '', ''      ''), le_name = ''lodash'', le_version = ''4.17.21'', le_hash = ''sha512-v2kDEe57lecT'',
     le_commas = (True, False), le_pre = [],
     le_mid = [kv_line ''      '' ''resolved'' ''https://registry.npmjs.org/lodash/-/lodash-4.17.21.tgz'' '',''], le_post = [''    }'', ''  }'']\<rparr>"

definition ex_header :: "string list" where
  "ex_header = [''{'', kv_line ''  '' ''name'' ''test-project'' '','', kv_line ''  '' ''version'' ''1.0.0'' '','', ''  '' @ dq # ''packages'' @ dq # '': {'']"

theorem parse_lockfile_recovers_witness:
  "parse_lockfile (Some (concat (map (\<lambda>l. l @ [CHR 0x0A]) (ex_header @
     concat (map item_lines [Bare ''    '' ''local'' [kv_line ''      '' ''resolved'' ''packages/local'' [], ''    },''], Digest ex_lodash]))) @ ''}'')) =
     [\<lparr>pi_name = ''lodash'', pi_version = ''4.17.21'', pi_integrity_hash = ''sha512-v2kDEe57lecT'',
       pi_tarball_path = ''node_modules/lodash/.aarchgate_tarball.tgz''\<rparr>]"
proof -
  have "list_all item_ok [Bare ''    '' ''local'' [kv_line ''      '' ''resolved'' ''packages/local'' [], ''    },''], Digest ex_lodash]"
    "list_all quiet ex_header" "quiet ''}''" by code_simp+
  from parse_lockfile_recovers [OF this] show ?thesis
    by (simp only: list.map concat.simps item_packages.simps append.simps entry_package_def) (simp add: ex_lodash_def)
qed

end
