(* ===== verification/Install_Manifest.thy ===== *)
theory Install_Manifest
  imports Integrity_Verifier "HOL-Library.AList"
begin

text \<open>
  The install manifest (\<open>src/host/install_manifest.cpp\<close>): the text file of installed packages, its
  difference with a new lockfile, and the updates after an install. \<open>CC_SHA256\<close> and the environment are
  parameters; the unordered map is an association list in its iteration order, and the manifest file is its
  contents, if it can be opened.
\<close>

section \<open>Model\<close>

record ManifestEntry =
  mf_name :: string
  mf_version :: string
  mf_integrity_hash :: string
  mf_cars_slot :: string
  mf_install_time_ns :: u64

record InstallDelta =
  dl_added :: "ManifestEntry list"
  dl_removed :: "ManifestEntry list"
  dl_changed :: "ManifestEntry list"
  dl_unchanged :: "ManifestEntry list"

definition is_fully_cached :: "InstallDelta \<Rightarrow> bool" where
  "is_fully_cached d \<longleftrightarrow> dl_added d = [] \<and> dl_changed d = []"

record InstallManifest =
  im_project_dir :: string
  im_manifest_path :: string
  im_entries :: "(string \<times> ManifestEntry) list"

definition project_hash :: "(u8 list \<Rightarrow> u8 list) \<Rightarrow> string \<Rightarrow> string" where
  "project_hash sha256 project_dir = concat (map hex2 (sha256 (chars_bytes project_dir)))"

definition aarchgate_dir :: "string option \<Rightarrow> string" where
  "aarchgate_dir home = (case home of Some h \<Rightarrow> h @ ''/.aarchgate'' | None \<Rightarrow> ''/tmp/.aarchgate'')"

definition InstallManifest_new :: "(u8 list \<Rightarrow> u8 list) \<Rightarrow> string option \<Rightarrow> string \<Rightarrow> InstallManifest" where
  "InstallManifest_new sha256 home project_dir =
     \<lparr>im_project_dir = project_dir,
      im_manifest_path = aarchgate_dir home @ ''/workspace/'' @ project_hash sha256 project_dir @ ''/manifest.lock'',
      im_entries = []\<rparr>"

definition pkg_key :: "string \<Rightarrow> string \<Rightarrow> string" where
  "pkg_key name version = name @ ''@'' @ version"

text \<open>\<open>std::getline(ss, out, d)\<close> on the rest of a string stream; it fails at the end of the stream.\<close>

definition getline_delim :: "char \<Rightarrow> string \<Rightarrow> (string \<times> string) option" where
  "getline_delim d s = (if s = [] then None else Some (takeWhile (\<lambda>c. c \<noteq> d) s, drop 1 (dropWhile (\<lambda>c. c \<noteq> d) s)))"

definition split_line :: "string \<Rightarrow> (string \<times> string \<times> string \<times> string) option" where
  "split_line l =
     (case getline_delim CHR 0x7C l of None \<Rightarrow> None | Some (nv, l) \<Rightarrow>
      case getline_delim CHR 0x7C l of None \<Rightarrow> None | Some (integrity, l) \<Rightarrow>
      case getline_delim CHR 0x7C l of None \<Rightarrow> None | Some (slot, l) \<Rightarrow>
      case getline_delim CHR 0x0A l of None \<Rightarrow> None | Some (ts, l) \<Rightarrow> Some (nv, integrity, slot, ts))"

definition load_line :: "string \<Rightarrow> (string \<times> ManifestEntry) list \<Rightarrow> (string \<times> ManifestEntry) list" where
  "load_line l es =
     (if l = [] then es
      else case split_line l of None \<Rightarrow> es
      | Some (nv, integrity, slot, ts) \<Rightarrow>
          case rfind_char CHR ''@'' nv of None \<Rightarrow> es
          | Some at_pos \<Rightarrow>
              if 0 < at_pos
              then AList.update nv \<lparr>mf_name = take at_pos nv, mf_version = drop (at_pos + 1) nv, mf_integrity_hash = integrity, mf_cars_slot = slot,
                     mf_install_time_ns = (case stoull ts of None \<Rightarrow> 0 | Some t \<Rightarrow> t)\<rparr> es
              else es)"

definition manifest_load :: "string option \<Rightarrow> InstallManifest \<Rightarrow> bool \<times> InstallManifest" where
  "manifest_load file m =
     (case file of None \<Rightarrow> (False, m)
      | Some s \<Rightarrow> (True, m\<lparr>im_entries := fold load_line (getlines s) []\<rparr>))"

definition entry_text :: "ManifestEntry \<Rightarrow> string" where
  "entry_text e = mf_name e @ ''@'' @ mf_version e @ ''|'' @ mf_integrity_hash e @ ''|'' @ mf_cars_slot e @ ''|'' @ decimal (unat (mf_install_time_ns e))"

text \<open>\<open>save\<close>: the result and the contents of the file afterwards.\<close>

definition manifest_save :: "bool \<Rightarrow> string option \<Rightarrow> InstallManifest \<Rightarrow> bool \<times> string option" where
  "manifest_save opens file m =
     (if \<not> opens then (False, file) else (True, Some (concat (map (\<lambda>(k, e). entry_text e @ [CHR 0x0A]) (im_entries m)))))"

definition new_entry :: "PackageIntegrity \<Rightarrow> ManifestEntry" where
  "new_entry p = \<lparr>mf_name = pi_name p, mf_version = pi_version p, mf_integrity_hash = pi_integrity_hash p, mf_cars_slot = [], mf_install_time_ns = 0\<rparr>"

definition diff_package :: "(string \<times> ManifestEntry) list \<Rightarrow> PackageIntegrity \<Rightarrow> InstallDelta \<Rightarrow> InstallDelta" where
  "diff_package es p d =
     (case map_of es (pkg_key (pi_name p) (pi_version p)) of
        None \<Rightarrow> d\<lparr>dl_added := dl_added d @ [new_entry p]\<rparr>
      | Some e \<Rightarrow>
          if mf_integrity_hash e = pi_integrity_hash p
          then d\<lparr>dl_unchanged := dl_unchanged d @ [(new_entry p)\<lparr>mf_cars_slot := mf_cars_slot e, mf_install_time_ns := mf_install_time_ns e\<rparr>]\<rparr>
          else d\<lparr>dl_changed := dl_changed d @ [new_entry p]\<rparr>)"

definition manifest_diff :: "string option \<Rightarrow> InstallManifest \<Rightarrow> InstallDelta" where
  "manifest_diff lockfile m =
     (let new_packages = parse_lockfile lockfile;
          processed = set (map (\<lambda>p. pkg_key (pi_name p) (pi_version p)) new_packages);
          d = fold (diff_package (im_entries m)) new_packages \<lparr>dl_added = [], dl_removed = [], dl_changed = [], dl_unchanged = []\<rparr>
      in d\<lparr>dl_removed := map snd (filter (\<lambda>(k, e). k \<notin> processed) (im_entries m))\<rparr>)"

definition update_entry :: "ManifestEntry \<Rightarrow> InstallManifest \<Rightarrow> InstallManifest" where
  "update_entry e m = m\<lparr>im_entries := AList.update (pkg_key (mf_name e) (mf_version e)) e (im_entries m)\<rparr>"

definition remove_entry :: "string \<Rightarrow> InstallManifest \<Rightarrow> InstallManifest" where
  "remove_entry name m = m\<lparr>im_entries := filter (\<lambda>(k, e). mf_name e \<noteq> name) (im_entries m)\<rparr>"

section \<open>Saving and loading\<close>

definition field_ok :: "string \<Rightarrow> bool" where
  "field_ok s \<longleftrightarrow> CHR 0x7C \<notin> set s \<and> CHR 0x0A \<notin> set s"

definition entry_wf :: "ManifestEntry \<Rightarrow> bool" where
  "entry_wf e \<longleftrightarrow> mf_name e \<noteq> [] \<and> field_ok (mf_name e) \<and> field_ok (mf_version e) \<and> field_ok (mf_integrity_hash e) \<and>
     field_ok (mf_cars_slot e) \<and> CHR ''@'' \<notin> set (mf_version e)"

definition manifest_wf :: "InstallManifest \<Rightarrow> bool" where
  "manifest_wf m \<longleftrightarrow> distinct (map fst (im_entries m)) \<and>
     (\<forall>(k, e) \<in> set (im_entries m). k = pkg_key (mf_name e) (mf_version e) \<and> entry_wf e)"

lemma getline_delim_append: "d \<notin> set s \<Longrightarrow> getline_delim d (s @ d # r) = Some (s, r)"
proof (induction s)
  case (Cons c s)
  then show ?case by (auto simp: getline_delim_def)
qed (simp add: getline_delim_def)

lemma getline_delim_rest: "d \<notin> set s \<Longrightarrow> s \<noteq> [] \<Longrightarrow> getline_delim d s = Some (s, [])"
proof -
  assume "d \<notin> set s" and "s \<noteq> []"
  then have t: "takeWhile (\<lambda>c. c \<noteq> d) s = s" and w: "dropWhile (\<lambda>c. c \<noteq> d) s = []" by (auto simp: takeWhile_eq_all_conv dropWhile_eq_Nil_conv)
  show ?thesis unfolding getline_delim_def t w using \<open>s \<noteq> []\<close> by simp
qed

lemma rfind_char_last: "c \<notin> set r \<Longrightarrow> rfind_char c (s @ c # r) = Some (length s)"
proof (induction s)
  case Nil
  moreover have "c \<notin> set r \<Longrightarrow> rfind_char c r = None" for r by (induction r) auto
  ultimately show ?case by simp
qed simp

lemma decimal_ok: "field_ok (decimal n)"
proof -
  have "\<not> is_digit CHR 0x7C" "\<not> is_digit CHR 0x0A" by (simp_all add: is_digit_def)
  then show ?thesis using decimal_digits [of n] by (auto simp: field_ok_def list_all_iff)
qed

lemma split_entry_text:
  assumes "entry_wf e"
  shows "split_line (entry_text e) = Some (pkg_key (mf_name e) (mf_version e), mf_integrity_hash e, mf_cars_slot e, decimal (unat (mf_install_time_ns e)))"
proof -
  let ?ts = "decimal (unat (mf_install_time_ns e))" and ?k = "pkg_key (mf_name e) (mf_version e)"
  have tx: "entry_text e = ?k @ CHR 0x7C # mf_integrity_hash e @ CHR 0x7C # mf_cars_slot e @ CHR 0x7C # ?ts"
    by (simp add: entry_text_def pkg_key_def)
  have f: "CHR 0x7C \<notin> set ?k" "CHR 0x7C \<notin> set (mf_integrity_hash e)" "CHR 0x7C \<notin> set (mf_cars_slot e)" "CHR 0x0A \<notin> set ?ts" "?ts \<noteq> []"
    using assms decimal_ok [of "unat (mf_install_time_ns e)"] decimal_digits [of "unat (mf_install_time_ns e)"]
    by (simp_all add: entry_wf_def field_ok_def pkg_key_def)
  show ?thesis unfolding split_line_def tx by (simp add: getline_delim_append f getline_delim_rest [OF f(4,5)])
qed

lemma load_entry_text:
  assumes "entry_wf e"
  shows "load_line (entry_text e) es = AList.update (pkg_key (mf_name e) (mf_version e)) e es"
proof -
  have "rfind_char CHR ''@'' (pkg_key (mf_name e) (mf_version e)) = Some (length (mf_name e))"
    using assms rfind_char_last [of "CHR ''@''" "mf_version e" "mf_name e"] by (simp add: pkg_key_def entry_wf_def)
  moreover have "mf_name e \<noteq> []" using assms by (simp add: entry_wf_def)
  moreover have "entry_text e \<noteq> []" by (simp add: entry_text_def)
  ultimately show ?thesis unfolding load_line_def split_entry_text [OF assms]
    by (cases e) (simp add: pkg_key_def stoull_decimal)
qed

lemma update_fresh: "k \<notin> fst ` set xs \<Longrightarrow> AList.update k v xs = xs @ [(k, v)]"
  by (induction xs) auto

lemma load_entries:
  assumes "distinct (map fst (xs @ es))" and "\<forall>(k, e) \<in> set es. k = pkg_key (mf_name e) (mf_version e) \<and> entry_wf e"
  shows "fold load_line (map (\<lambda>(k, e). entry_text e) es) xs = xs @ es"
  using assms by (induction es arbitrary: xs) (auto simp: load_entry_text update_fresh)

text \<open>
  Claim C24. Saving and loading a manifest gives it back: for any manifest whose fields contain no separator
  and no newline and whose versions contain no at sign (names may, as scoped packages do), loading the saved
  file restores every entry, with its digest, slot and time stamp.
\<close>

theorem manifest_save_load:
  assumes "manifest_wf m"
  shows "\<exists>file. manifest_save True old m = (True, Some file) \<and> manifest_load (Some file) m' = (True, m'\<lparr>im_entries := im_entries m\<rparr>)"
proof -
  let ?ls = "map (\<lambda>(k, e). entry_text e) (im_entries m)"
  have "CHR 0x0A \<notin> set (entry_text e)" if "entry_wf e" for e
    using that decimal_ok [of "unat (mf_install_time_ns e)"] by (simp add: entry_wf_def field_ok_def entry_text_def)
  then have "\<forall>l \<in> set ?ls. CHR 0x0A \<notin> set l" using assms by (auto simp: manifest_wf_def)
  then have "getlines (concat (map (\<lambda>l. l @ [CHR 0x0A]) ?ls)) = ?ls" by (rule getlines_concat)
  moreover have "map (\<lambda>(k, e). entry_text e @ [CHR 0x0A]) (im_entries m) = map (\<lambda>l. l @ [CHR 0x0A]) ?ls" by auto
  moreover have "fold load_line ?ls [] = im_entries m" using load_entries [of "[]" "im_entries m"] assms by (simp add: manifest_wf_def)
  ultimately show ?thesis unfolding manifest_save_def manifest_load_def by (simp del: map_map)
qed

definition ex_manifest :: InstallManifest where
  "ex_manifest = \<lparr>im_project_dir = ''/p'', im_manifest_path = ''/m'',
     im_entries = [(''@babel/core@7.0.0'', \<lparr>mf_name = ''@babel/core'', mf_version = ''7.0.0'', mf_integrity_hash = ''sha512-A+/=='',
       mf_cars_slot = ''slot'', mf_install_time_ns = 18446744073709551615\<rparr>)]\<rparr>"

theorem manifest_save_load_witness:
  "\<exists>file. manifest_save True None ex_manifest = (True, Some file) \<and>
     manifest_load (Some file) (InstallManifest_new (\<lambda>bs. bs) None ''/p'') =
       (True, (InstallManifest_new (\<lambda>bs. bs) None ''/p'')\<lparr>im_entries := im_entries ex_manifest\<rparr>)"
proof -
  have "manifest_wf ex_manifest" by code_simp
  then show ?thesis by (rule manifest_save_load)
qed

section \<open>Differences\<close>

abbreviation key_of :: "PackageIntegrity \<Rightarrow> string" where
  "key_of p \<equiv> pkg_key (pi_name p) (pi_version p)"

text \<open>A package is cached when the manifest has it with the same digest.\<close>

definition known :: "(string \<times> ManifestEntry) list \<Rightarrow> PackageIntegrity \<Rightarrow> bool" where
  "known es p \<longleftrightarrow> map_of es (key_of p) \<noteq> None"

definition cached :: "(string \<times> ManifestEntry) list \<Rightarrow> PackageIntegrity \<Rightarrow> bool" where
  "cached es p \<longleftrightarrow> (\<exists>e. map_of es (key_of p) = Some e \<and> mf_integrity_hash e = pi_integrity_hash p)"

definition old_entry :: "(string \<times> ManifestEntry) list \<Rightarrow> PackageIntegrity \<Rightarrow> ManifestEntry" where
  "old_entry es p = (new_entry p)\<lparr>mf_cars_slot := mf_cars_slot (the (map_of es (key_of p))),
     mf_install_time_ns := mf_install_time_ns (the (map_of es (key_of p)))\<rparr>"

lemma cached_known: "cached es p \<Longrightarrow> known es p"
  by (auto simp: cached_def known_def)

lemma diff_fold:
  "fold (diff_package es) ps d = d\<lparr>dl_added := dl_added d @ map new_entry (filter (\<lambda>p. \<not> known es p) ps),
     dl_changed := dl_changed d @ map new_entry (filter (\<lambda>p. known es p \<and> \<not> cached es p) ps),
     dl_unchanged := dl_unchanged d @ map (old_entry es) (filter (cached es) ps)\<rparr>"
  by (induction ps arbitrary: d) (auto simp: diff_package_def known_def cached_def old_entry_def split: option.splits)

lemma manifest_diff_sel:
  "dl_added (manifest_diff f m) = map new_entry (filter (\<lambda>p. \<not> known (im_entries m) p) (parse_lockfile f))"
  "dl_changed (manifest_diff f m) = map new_entry (filter (\<lambda>p. known (im_entries m) p \<and> \<not> cached (im_entries m) p) (parse_lockfile f))"
  "dl_unchanged (manifest_diff f m) = map (old_entry (im_entries m)) (filter (cached (im_entries m)) (parse_lockfile f))"
  "dl_removed (manifest_diff f m) = map snd (filter (\<lambda>(k, e). k \<notin> key_of ` set (parse_lockfile f)) (im_entries m))"
  by (simp_all add: manifest_diff_def diff_fold Let_def)

lemma fully_cached_iff: "is_fully_cached (manifest_diff f m) \<longleftrightarrow> (\<forall>p \<in> set (parse_lockfile f). cached (im_entries m) p)"
  by (auto simp: is_fully_cached_def manifest_diff_sel filter_empty_conv dest: cached_known)

lemma mset_three: "(\<And>p. Q p \<Longrightarrow> R p) \<Longrightarrow>
  mset (filter (\<lambda>p. \<not> R p) ps @ filter (\<lambda>p. R p \<and> \<not> Q p) ps @ filter Q ps) = mset ps"
  by (induction ps) auto

text \<open>
  The difference between a manifest and a lockfile is exact: every package of the lockfile is in
  exactly one of the lists of added, changed and unchanged packages, the removed ones are the manifest
  entries whose name and version the lockfile does not have, and the install is reported as fully cached
  exactly if the manifest has every package with the digest of the lockfile.
\<close>

lemma manifest_diff_exact:
  "mset (map (\<lambda>e. (mf_name e, mf_version e, mf_integrity_hash e)) (dl_added (manifest_diff f m) @ dl_changed (manifest_diff f m) @ dl_unchanged (manifest_diff f m))) =
     mset (map (\<lambda>p. (pi_name p, pi_version p, pi_integrity_hash p)) (parse_lockfile f)) \<and>
   set (dl_removed (manifest_diff f m)) =
     {e. \<exists>k. (k, e) \<in> set (im_entries m) \<and> (\<forall>p \<in> set (parse_lockfile f). k \<noteq> pkg_key (pi_name p) (pi_version p))} \<and>
   (is_fully_cached (manifest_diff f m) \<longleftrightarrow> (\<forall>p \<in> set (parse_lockfile f). \<exists>e. map_of (im_entries m) (pkg_key (pi_name p) (pi_version p)) = Some e \<and>
      mf_integrity_hash e = pi_integrity_hash p))"
proof (intro conjI)
  let ?ps = "parse_lockfile f" and ?es = "im_entries m"
  let ?e = "\<lambda>e. (mf_name e, mf_version e, mf_integrity_hash e)" and ?p = "\<lambda>p. (pi_name p, pi_version p, pi_integrity_hash p)"
  have "map ?e (dl_added (manifest_diff f m) @ dl_changed (manifest_diff f m) @ dl_unchanged (manifest_diff f m)) =
      map ?p (filter (\<lambda>p. \<not> known ?es p) ?ps @ filter (\<lambda>p. known ?es p \<and> \<not> cached ?es p) ?ps @ filter (cached ?es) ?ps)"
    by (simp add: manifest_diff_sel new_entry_def old_entry_def)
  then show "mset (map ?e (dl_added (manifest_diff f m) @ dl_changed (manifest_diff f m) @ dl_unchanged (manifest_diff f m))) = mset (map ?p ?ps)"
    using mset_three [of "cached ?es" "known ?es" ?ps, OF cached_known] by (simp only: mset_map)
  show "set (dl_removed (manifest_diff f m)) = {e. \<exists>k. (k, e) \<in> set ?es \<and> (\<forall>p \<in> set ?ps. k \<noteq> pkg_key (pi_name p) (pi_version p))}"
    by (auto simp: manifest_diff_sel image_iff)
  show "is_fully_cached (manifest_diff f m) \<longleftrightarrow> (\<forall>p \<in> set ?ps. \<exists>e. map_of ?es (pkg_key (pi_name p) (pi_version p)) = Some e \<and>
      mf_integrity_hash e = pi_integrity_hash p)"
    unfolding fully_cached_iff cached_def ..
qed

lemma update_entry_map_of: "map_of (im_entries (update_entry e m)) = (map_of (im_entries m))(pkg_key (mf_name e) (mf_version e) \<mapsto> e)"
  by (simp add: update_entry_def update_conv')

lemma find_SomeD: "find P xs = Some x \<Longrightarrow> x \<in> set xs \<and> P x"
  by (induction xs) (auto split: if_splits)

lemma update_packages:
  assumes "distinct (map key_of ps)"
  shows "map_of (im_entries (fold update_entry (map new_entry ps) m)) k =
    (case find (\<lambda>p. key_of p = k) ps of Some p \<Rightarrow> Some (new_entry p) | None \<Rightarrow> map_of (im_entries m) k)"
  using assms
proof (induction ps arbitrary: m)
  case (Cons p ps)
  have "key_of q \<noteq> key_of p" if "q \<in> set ps" for q
  proof
    assume "key_of q = key_of p"
    then show False using imageI [OF that, of key_of] Cons.prems by simp
  qed
  then have "find (\<lambda>q. key_of q = key_of p) ps = None" by (auto simp: find_None_iff)
  then show ?case using Cons by (auto simp: update_entry_map_of new_entry_def split: option.splits)
qed simp

text \<open>
  Claim C25. An install converges: if the lockfile has no two entries of the same name and version, recording
  the added and the changed packages makes the next difference fully cached.
\<close>

theorem install_converges:
  assumes "distinct (map (\<lambda>p. pkg_key (pi_name p) (pi_version p)) (parse_lockfile f))"
  shows "is_fully_cached (manifest_diff f (fold update_entry (dl_added (manifest_diff f m) @ dl_changed (manifest_diff f m)) m))"
proof -
  let ?ps = "parse_lockfile f"
  let ?new = "filter (\<lambda>p. \<not> known (im_entries m) p) ?ps @ filter (\<lambda>p. known (im_entries m) p \<and> \<not> cached (im_entries m) p) ?ps"
  let ?m = "fold update_entry (map new_entry ?new) m"
  have inj: "inj_on key_of (set ?ps)" "distinct ?ps" using assms by (simp_all add: distinct_map)
  then have d: "distinct (map key_of ?new)" by (auto simp: distinct_map inj_on_def)
  have "cached (im_entries ?m) p" if p: "p \<in> set ?ps" for p
  proof (cases "find (\<lambda>q. key_of q = key_of p) ?new")
    case None
    then have "cached (im_entries m) p" using p by (auto simp: find_None_iff dest: cached_known)
    then show ?thesis using update_packages [OF d, of m "key_of p"] None by (auto simp: cached_def)
  next
    case (Some q)
    then have "q \<in> set ?new" "key_of q = key_of p" using find_SomeD by fastforce+
    then have "q = p" using inj p by (auto simp: inj_on_def)
    then show ?thesis using update_packages [OF d, of m "key_of p"] Some by (auto simp: cached_def new_entry_def)
  qed
  then show ?thesis unfolding fully_cached_iff by (simp add: manifest_diff_sel)
qed

theorem install_converges_witness:
  "is_fully_cached (manifest_diff (Some (concat (map (\<lambda>l. l @ [CHR 0x0A]) (entry_lines ex_entry))))
     (fold update_entry (dl_added (manifest_diff (Some (concat (map (\<lambda>l. l @ [CHR 0x0A]) (entry_lines ex_entry)))) ex_manifest) @
        dl_changed (manifest_diff (Some (concat (map (\<lambda>l. l @ [CHR 0x0A]) (entry_lines ex_entry)))) ex_manifest)) ex_manifest))"
proof (rule install_converges)
  show "distinct (map (\<lambda>p. pkg_key (pi_name p) (pi_version p)) (parse_lockfile (Some (concat (map (\<lambda>l. l @ [CHR 0x0A]) (entry_lines ex_entry))))))"
    by code_simp
qed

text \<open>
  Removing by name forgets upgrades: once the new version of a package has been recorded, removing the old
  version under the same name removes the new entry too.
\<close>

lemma remove_entry_forgets_upgrade:
  assumes "distinct (map fst (im_entries m))"
  shows "map_of (im_entries (remove_entry (mf_name e) (update_entry e m))) (pkg_key (mf_name e) (mf_version e)) = None"
proof -
  have "map_of (filter (\<lambda>(k, v). mf_name v \<noteq> mf_name e) (AList.update k e xs)) k = None" if "distinct (map fst xs)" for k xs
    using that by (induction xs) (auto simp: map_of_eq_None_iff image_iff)
  then show ?thesis using assms by (simp add: remove_entry_def update_entry_def)
qed

end
