(* ===== verification/Binary_Manifest.thy ===== *)
theory Binary_Manifest
  imports Install_Manifest
begin

text \<open>
  The packed manifest (\<open>src/host/binary_manifest.cpp\<close>): 32-byte entries behind a 24-byte header, keyed by
  four bytes of a digest of name and version. The entries are an instance of the locale \<open>record_codec\<close>.
  \<open>CC_SHA256\<close>, the clock and the file contents are parameters. The main results are the round trip of the
  file format and that the packed manifest implements the text manifest as long as the shortened digests
  do not collide.
\<close>

section \<open>Format\<close>

record PackedManifestHeader =
  ph_magic :: u32
  ph_version :: u32
  ph_entry_count :: u32
  ph_flags :: u32
  ph_timestamp_ns :: u64

record PackedManifestEntry =
  pk_hash_prefix :: u64
  pk_package_id_hash :: u32
  pk_cars_slot_index :: u32
  pk_install_time_ns :: u64
  pk_flags :: u16
  pk_reserved :: u16
  pk_reserved2 :: u32

definition encode_header :: "PackedManifestHeader \<Rightarrow> u8 list" where
  "encode_header h = le_bytes 4 (ph_magic h) @ le_bytes 4 (ph_version h) @ le_bytes 4 (ph_entry_count h) @ le_bytes 4 (ph_flags h) @
     le_bytes 8 (ph_timestamp_ns h)"

definition decode_header :: "u8 list \<Rightarrow> PackedManifestHeader" where
  "decode_header bs =
     \<lparr>ph_magic = le_word (take 4 bs), ph_version = le_word (take 4 (drop 4 bs)), ph_entry_count = le_word (take 4 (drop 8 bs)),
      ph_flags = le_word (take 4 (drop 12 bs)), ph_timestamp_ns = le_word (take 8 (drop 16 bs))\<rparr>"

definition encode_entry :: "PackedManifestEntry \<Rightarrow> u8 list" where
  "encode_entry e = le_bytes 8 (pk_hash_prefix e) @ le_bytes 4 (pk_package_id_hash e) @ le_bytes 4 (pk_cars_slot_index e) @
     le_bytes 8 (pk_install_time_ns e) @ le_bytes 2 (pk_flags e) @ le_bytes 2 (pk_reserved e) @ le_bytes 4 (pk_reserved2 e)"

definition decode_entry :: "u8 list \<Rightarrow> PackedManifestEntry" where
  "decode_entry bs =
     \<lparr>pk_hash_prefix = le_word (take 8 bs), pk_package_id_hash = le_word (take 4 (drop 8 bs)), pk_cars_slot_index = le_word (take 4 (drop 12 bs)),
      pk_install_time_ns = le_word (take 8 (drop 16 bs)), pk_flags = le_word (take 2 (drop 24 bs)), pk_reserved = le_word (take 2 (drop 26 bs)),
      pk_reserved2 = le_word (take 4 (drop 28 bs))\<rparr>"

lemma length_encode_header [simp]: "length (encode_header h) = 24"
  by (simp add: encode_header_def)

lemma decode_header_append [simp]: "decode_header (encode_header h @ bs) = h"
  by (simp add: encode_header_def decode_header_def)

lemma length_encode_entry [simp]: "length (encode_entry e) = 32"
  by (simp add: encode_entry_def)

lemma decode_encode_entry [simp]: "decode_entry (encode_entry e) = e"
  by (simp add: encode_entry_def decode_entry_def)

interpretation packed: record_codec encode_entry decode_entry 32 "\<lambda>_. True"
  by unfold_locales simp_all

section \<open>Operations\<close>

record BinaryInstallDelta =
  bd_added :: "PackedManifestEntry list"
  bd_removed :: "PackedManifestEntry list"
  bd_changed :: "PackedManifestEntry list"
  bd_unchanged :: "PackedManifestEntry list"

definition binary_fully_cached :: "BinaryInstallDelta \<Rightarrow> bool" where
  "binary_fully_cached d \<longleftrightarrow> bd_added d = [] \<and> bd_changed d = []"

record BinaryManifest =
  bm_project_dir :: string
  bm_binary_path :: string
  bm_entries :: "(u32 \<times> PackedManifestEntry) list"

definition binary_dir :: "string option \<Rightarrow> string" where
  "binary_dir home = (case home of Some h \<Rightarrow> h | None \<Rightarrow> ''/tmp'') @ ''/.aarchgate''"

definition BinaryManifest_new :: "(u8 list \<Rightarrow> u8 list) \<Rightarrow> string option \<Rightarrow> string \<Rightarrow> BinaryManifest" where
  "BinaryManifest_new sha256 home project_dir =
     \<lparr>bm_project_dir = project_dir,
      bm_binary_path = binary_dir home @ ''/workspace/'' @ project_hash sha256 project_dir @ ''/manifest.agmb'', bm_entries = []\<rparr>"

definition compute_package_id_hash :: "(u8 list \<Rightarrow> u8 list) \<Rightarrow> string \<Rightarrow> u32" where
  "compute_package_id_hash sha256 name_version = le_word (take 4 (sha256 (chars_bytes name_version)))"

definition compute_hash_prefix :: "(u8 list \<Rightarrow> u8 list) \<Rightarrow> string \<Rightarrow> u64" where
  "compute_hash_prefix sha256 integrity_hash = le_word (take 8 (sha256 (chars_bytes integrity_hash)))"

definition MAGIC :: u32 where "MAGIC = 0x41474D46"

text \<open>The entries the loop of \<open>load\<close> reads; \<open>None\<close> if one of them lies outside the file.\<close>

fun read_entries :: "nat \<Rightarrow> u8 list \<Rightarrow> (u32 \<times> PackedManifestEntry) list \<Rightarrow> (u32 \<times> PackedManifestEntry) list option" where
  "read_entries 0 bs es = Some es"
| "read_entries (Suc n) bs es =
     (if length bs < 32 then None
      else let e = decode_entry (take 32 bs) in read_entries n (drop 32 bs) (AList.update (pk_package_id_hash e) e es))"

definition binary_load :: "u8 list option \<Rightarrow> BinaryManifest \<Rightarrow> (bool \<times> BinaryManifest) option" where
  "binary_load file m =
     (let m = m\<lparr>bm_entries := []\<rparr> in
      case file of None \<Rightarrow> Some (False, m)
      | Some bytes \<Rightarrow>
          if length bytes < 24 then Some (False, m)
          else let header = decode_header bytes in
            if ph_magic header \<noteq> MAGIC then Some (False, m)
            else map_option (\<lambda>es. (True, m\<lparr>bm_entries := es\<rparr>)) (read_entries (unat (ph_entry_count header)) (drop 24 bytes) []))"

definition binary_save :: "u64 \<Rightarrow> bool \<Rightarrow> u8 list option \<Rightarrow> BinaryManifest \<Rightarrow> bool \<times> u8 list option" where
  "binary_save now opens file m =
     (let entry_list = map snd (bm_entries m);
          header = \<lparr>ph_magic = MAGIC, ph_version = 1, ph_entry_count = of_nat (length entry_list), ph_flags = 0, ph_timestamp_ns = now\<rparr>
      in if \<not> opens then (False, file) else (True, Some (encode_header header @ concat (map encode_entry entry_list))))"

definition lock_entry_packed :: "(u8 list \<Rightarrow> u8 list) \<Rightarrow> PackageIntegrity \<Rightarrow> PackedManifestEntry" where
  "lock_entry_packed sha256 p =
     \<lparr>pk_hash_prefix = compute_hash_prefix sha256 (pi_integrity_hash p),
      pk_package_id_hash = compute_package_id_hash sha256 (pi_name p @ ''@'' @ pi_version p), pk_cars_slot_index = 0,
      pk_install_time_ns = 0, pk_flags = 0, pk_reserved = 0, pk_reserved2 = 0\<rparr>"

text \<open>
  The map from package ids to the entries of the lockfile. Its iteration order, which the C++ standard leaves
  open, is the order of first insertion here; only the order within the lists of a difference depends on it.
\<close>

definition lock_map :: "(u8 list \<Rightarrow> u8 list) \<Rightarrow> PackageIntegrity list \<Rightarrow> (u32 \<times> PackedManifestEntry) list" where
  "lock_map sha256 ps = fold (\<lambda>p. AList.update (pk_package_id_hash (lock_entry_packed sha256 p)) (lock_entry_packed sha256 p)) ps []"

definition binary_diff_entry :: "(u32 \<times> PackedManifestEntry) list \<Rightarrow> u32 \<times> PackedManifestEntry \<Rightarrow> BinaryInstallDelta \<Rightarrow> BinaryInstallDelta" where
  "binary_diff_entry es x d =
     (case x of (pid, entry) \<Rightarrow>
        case map_of es pid of
          None \<Rightarrow> d\<lparr>bd_added := bd_added d @ [entry]\<rparr>
        | Some old \<Rightarrow> if pk_hash_prefix old \<noteq> pk_hash_prefix entry then d\<lparr>bd_changed := bd_changed d @ [entry]\<rparr>
                     else d\<lparr>bd_unchanged := bd_unchanged d @ [old]\<rparr>)"

definition binary_diff :: "(u8 list \<Rightarrow> u8 list) \<Rightarrow> string option \<Rightarrow> BinaryManifest \<Rightarrow> BinaryInstallDelta" where
  "binary_diff sha256 lockfile m =
     (let lm = lock_map sha256 (parse_lockfile lockfile);
          d = fold (binary_diff_entry (bm_entries m)) lm \<lparr>bd_added = [], bd_removed = [], bd_changed = [], bd_unchanged = []\<rparr>
      in d\<lparr>bd_removed := map snd (filter (\<lambda>(pid, e). map_of lm pid = None) (bm_entries m))\<rparr>)"

definition binary_update_entry :: "PackedManifestEntry \<Rightarrow> BinaryManifest \<Rightarrow> BinaryManifest" where
  "binary_update_entry e m = m\<lparr>bm_entries := AList.update (pk_package_id_hash e) e (bm_entries m)\<rparr>"

definition binary_remove_entry :: "u32 \<Rightarrow> BinaryManifest \<Rightarrow> BinaryManifest" where
  "binary_remove_entry pid m = m\<lparr>bm_entries := AList.delete pid (bm_entries m)\<rparr>"

section \<open>Saving and loading\<close>

text \<open>Every entry is stored under its own id, and no id twice.\<close>

definition packed_wf :: "BinaryManifest \<Rightarrow> bool" where
  "packed_wf m \<longleftrightarrow> distinct (map fst (bm_entries m)) \<and> (\<forall>(k, e) \<in> set (bm_entries m). k = pk_package_id_hash e)"

lemma read_entries_concat:
  assumes "distinct (map fst (es @ xs))" and "\<forall>(k, e) \<in> set xs. k = pk_package_id_hash e"
  shows "read_entries (length xs) (concat (map encode_entry (map snd xs)) @ rest) es = Some (es @ xs)"
  using assms by (induction xs arbitrary: es) (auto simp: update_fresh Let_def)

text \<open>
  Claim C26. The packed manifest survives a save and a load: for every manifest with fewer than \<open>2 ^ 32\<close>
  entries, loading the file that \<open>save\<close> writes restores the entries, field by field.
\<close>

theorem binary_save_load:
  assumes "packed_wf m" and "length (bm_entries m) < 2 ^ 32"
  shows "\<exists>file. binary_save now True old m = (True, Some file) \<and> length file = 24 + 32 * length (bm_entries m) \<and>
    binary_load (Some file) m' = Some (True, m'\<lparr>bm_entries := bm_entries m\<rparr>)"
proof -
  let ?h = "\<lparr>ph_magic = MAGIC, ph_version = 1, ph_entry_count = of_nat (length (bm_entries m)), ph_flags = 0, ph_timestamp_ns = now\<rparr>"
  let ?file = "encode_header ?h @ concat (map encode_entry (map snd (bm_entries m)))"
  have "unat (of_nat (length (bm_entries m)) :: u32) = length (bm_entries m)" using assms(2) by (simp add: unat_of_nat)
  then have "binary_load (Some ?file) m' = Some (True, m'\<lparr>bm_entries := bm_entries m\<rparr>)"
    using read_entries_concat [of "[]" "bm_entries m" "[]"] assms(1) by (simp add: binary_load_def packed_wf_def Let_def)
  moreover have "length ?file = 24 + 32 * length (bm_entries m)"
    using packed.length_concat_enc [of "map snd (bm_entries m)"] by simp
  ultimately show ?thesis by (simp add: binary_save_def Let_def)
qed

definition ex_packed :: BinaryManifest where
  "ex_packed = \<lparr>bm_project_dir = ''/p'', bm_binary_path = ''/b'',
     bm_entries = [(5, \<lparr>pk_hash_prefix = 77, pk_package_id_hash = 5, pk_cars_slot_index = 1, pk_install_time_ns = 9, pk_flags = 0, pk_reserved = 0,
       pk_reserved2 = 0\<rparr>)]\<rparr>"

theorem binary_save_load_witness:
  "\<exists>file. binary_save 1 True None ex_packed = (True, Some file) \<and> binary_load (Some file) (ex_packed\<lparr>bm_entries := []\<rparr>) = Some (True, ex_packed)"
proof -
  have "packed_wf ex_packed" "length (bm_entries ex_packed) < 2 ^ 32" by (simp_all add: packed_wf_def ex_packed_def)
  from binary_save_load [OF this, of 1 None "ex_packed\<lparr>bm_entries := []\<rparr>"] show ?thesis by auto
qed

text \<open>
  A file whose header announces more entries than the file has makes \<open>load\<close> read past its end.
\<close>

lemma binary_load_out_of_bounds:
  assumes "24 \<le> length bytes" and "ph_magic (decode_header bytes) = MAGIC" and "length bytes < 24 + 32 * unat (ph_entry_count (decode_header bytes))"
  shows "binary_load (Some bytes) m = None"
proof -
  have "read_entries n bs es = None" if "length bs < 32 * n" for n bs es
    using that by (induction n arbitrary: bs es) (auto simp: Let_def)
  then show ?thesis using assms by (simp add: binary_load_def Let_def)
qed

section \<open>Refinement of the text manifest\<close>

text \<open>A packed manifest holds, for every entry of the text manifest, the shortened digests of its key and of its hash.\<close>

definition packs :: "(u8 list \<Rightarrow> u8 list) \<Rightarrow> string \<times> ManifestEntry \<Rightarrow> u32 \<times> PackedManifestEntry \<Rightarrow> bool" where
  "packs sha256 x y \<longleftrightarrow> fst y = compute_package_id_hash sha256 (fst x) \<and> pk_package_id_hash (snd y) = fst y \<and>
     pk_hash_prefix (snd y) = compute_hash_prefix sha256 (mf_integrity_hash (snd x))"

definition packed_as :: "(u8 list \<Rightarrow> u8 list) \<Rightarrow> InstallManifest \<Rightarrow> BinaryManifest \<Rightarrow> bool" where
  "packed_as sha256 m b \<longleftrightarrow> list_all2 (packs sha256) (im_entries m) (bm_entries b)"

text \<open>The shortened digests of the strings involved do not collide.\<close>

definition collision_free :: "(u8 list \<Rightarrow> u8 list) \<Rightarrow> PackageIntegrity list \<Rightarrow> InstallManifest \<Rightarrow> bool" where
  "collision_free sha256 ps m \<longleftrightarrow> inj_on (compute_package_id_hash sha256) (key_of ` set ps \<union> fst ` set (im_entries m)) \<and>
     inj_on (compute_hash_prefix sha256) (pi_integrity_hash ` set ps \<union> mf_integrity_hash ` snd ` set (im_entries m))"

abbreviation pid_of :: "(u8 list \<Rightarrow> u8 list) \<Rightarrow> PackageIntegrity \<Rightarrow> u32" where
  "pid_of sha256 p \<equiv> compute_package_id_hash sha256 (key_of p)"

lemma lock_packed_sel [simp]:
  "pk_package_id_hash (lock_entry_packed sha256 p) = pid_of sha256 p"
  "pk_hash_prefix (lock_entry_packed sha256 p) = compute_hash_prefix sha256 (pi_integrity_hash p)"
  by (simp_all add: lock_entry_packed_def pkg_key_def)

lemma lock_map_eq:
  assumes "distinct (map (pid_of sha256) ps)"
  shows "lock_map sha256 ps = map (\<lambda>p. (pid_of sha256 p, lock_entry_packed sha256 p)) ps"
proof -
  have "distinct (map fst xs @ map (pid_of sha256) ps) \<Longrightarrow>
    fold (\<lambda>p. AList.update (pk_package_id_hash (lock_entry_packed sha256 p)) (lock_entry_packed sha256 p)) ps xs =
      xs @ map (\<lambda>p. (pid_of sha256 p, lock_entry_packed sha256 p)) ps" for xs
    by (induction ps arbitrary: xs) (simp_all add: update_fresh)
  from this [of "[]"] assms show ?thesis by (simp add: lock_map_def)
qed

lemma binary_diff_fold:
  "fold (binary_diff_entry es) xs d = d\<lparr>bd_added := bd_added d @ map snd (filter (\<lambda>x. map_of es (fst x) = None) xs),
     bd_changed := bd_changed d @ map snd (filter (\<lambda>x. \<exists>e. map_of es (fst x) = Some e \<and> pk_hash_prefix e \<noteq> pk_hash_prefix (snd x)) xs),
     bd_unchanged := bd_unchanged d @ map (\<lambda>x. the (map_of es (fst x))) (filter (\<lambda>x. \<exists>e. map_of es (fst x) = Some e \<and> pk_hash_prefix e = pk_hash_prefix (snd x)) xs)\<rparr>"
proof (induction xs arbitrary: d)
  case (Cons x xs)
  show ?case
  proof (cases "map_of es (fst x)")
    case None
    then have "binary_diff_entry es x d = d\<lparr>bd_added := bd_added d @ [snd x]\<rparr>" by (simp add: binary_diff_entry_def case_prod_beta)
    then show ?thesis using None by (simp add: Cons.IH)
  next
    case (Some e)
    then have "binary_diff_entry es x d = (if pk_hash_prefix e \<noteq> pk_hash_prefix (snd x) then d\<lparr>bd_changed := bd_changed d @ [snd x]\<rparr>
        else d\<lparr>bd_unchanged := bd_unchanged d @ [e]\<rparr>)" by (simp add: binary_diff_entry_def case_prod_beta)
    then show ?thesis using Some by (simp add: Cons.IH)
  qed
qed simp

lemma packed_lookup:
  assumes "list_all2 (packs sha256) es bs" and "inj_on (compute_package_id_hash sha256) (insert k (fst ` set es))"
  shows "rel_option (\<lambda>e b. pk_hash_prefix b = compute_hash_prefix sha256 (mf_integrity_hash e) \<and> pk_package_id_hash b = compute_package_id_hash sha256 k)
    (map_of es k) (map_of bs (compute_package_id_hash sha256 k))"
  using assms
proof (induction rule: list_all2_induct)
  case (Cons x es y bs)
  have "inj_on (compute_package_id_hash sha256) (insert k (fst ` set es))"
    by (rule inj_on_subset [OF Cons.prems]) auto
  moreover have "compute_package_id_hash sha256 k = compute_package_id_hash sha256 (fst x) \<longleftrightarrow> k = fst x"
    using Cons.prems by (auto dest: inj_onD)
  ultimately show ?case using Cons.IH Cons.hyps(1) by (cases x; cases y) (auto simp: packs_def)
qed simp

lemma packed_known:
  assumes "packed_as sha256 m b" and "collision_free sha256 ps m" and "p \<in> set ps"
  shows "map_of (bm_entries b) (pid_of sha256 p) = None \<longleftrightarrow> \<not> known (im_entries m) p"
    and "(\<exists>e. map_of (bm_entries b) (pid_of sha256 p) = Some e \<and> pk_hash_prefix e = compute_hash_prefix sha256 (pi_integrity_hash p)) \<longleftrightarrow>
      cached (im_entries m) p"
    and "map_of (bm_entries b) (pid_of sha256 p) = Some e \<Longrightarrow> pk_package_id_hash e = pid_of sha256 p"
proof -
  have l: "list_all2 (packs sha256) (im_entries m) (bm_entries b)" using assms(1) by (simp add: packed_as_def)
  have "inj_on (compute_package_id_hash sha256) (insert (key_of p) (fst ` set (im_entries m)))"
    by (rule inj_on_subset [of _ "key_of ` set ps \<union> fst ` set (im_entries m)"]) (use assms(2,3) in \<open>auto simp: collision_free_def\<close>)
  note r = packed_lookup [OF l this]
  show "map_of (bm_entries b) (pid_of sha256 p) = None \<longleftrightarrow> \<not> known (im_entries m) p" using r by (auto simp: known_def option_rel_Some2 option_rel_Some1)
  show "pk_package_id_hash e = pid_of sha256 p" if "map_of (bm_entries b) (pid_of sha256 p) = Some e" using r that by (auto simp: option_rel_Some2)
  have "compute_hash_prefix sha256 (mf_integrity_hash e) = compute_hash_prefix sha256 (pi_integrity_hash p) \<longleftrightarrow> mf_integrity_hash e = pi_integrity_hash p"
    if "map_of (im_entries m) (key_of p) = Some e" for e
  proof -
    have "mf_integrity_hash e \<in> mf_integrity_hash ` snd ` set (im_entries m)" using map_of_SomeD [OF that] by force
    then show ?thesis using assms(2,3)
      by (intro inj_on_eq_iff [of _ "pi_integrity_hash ` set ps \<union> mf_integrity_hash ` snd ` set (im_entries m)"]) (auto simp: collision_free_def)
  qed
  then show "(\<exists>e. map_of (bm_entries b) (pid_of sha256 p) = Some e \<and> pk_hash_prefix e = compute_hash_prefix sha256 (pi_integrity_hash p)) \<longleftrightarrow>
      cached (im_entries m) p"
    using r by (cases "map_of (im_entries m) (key_of p)") (auto simp: cached_def option_rel_Some1)
qed

lemma filter_fst_map2:
  assumes "list_all2 R xs ys" and "\<And>x y. R x y \<Longrightarrow> x \<in> set xs \<Longrightarrow> P x = Q y" and "\<And>x y. R x y \<Longrightarrow> f x = g y"
  shows "map f (filter P xs) = map g (filter Q ys)"
  using assms by (induction rule: list_all2_induct) auto

abbreviation entry_pid :: "(u8 list \<Rightarrow> u8 list) \<Rightarrow> ManifestEntry \<Rightarrow> u32" where
  "entry_pid sha256 e \<equiv> compute_package_id_hash sha256 (pkg_key (mf_name e) (mf_version e))"

lemma lock_map_refines:
  assumes "collision_free sha256 (parse_lockfile f) m" and "distinct (map key_of (parse_lockfile f))"
  shows "lock_map sha256 (parse_lockfile f) = map (\<lambda>p. (pid_of sha256 p, lock_entry_packed sha256 p)) (parse_lockfile f)"
proof -
  let ?ps = "parse_lockfile f"
  have "inj_on (compute_package_id_hash sha256) (key_of ` set ?ps)"
    using assms(1) unfolding collision_free_def by (meson Un_upper1 inj_on_subset)
  then have "distinct (map (compute_package_id_hash sha256) (map key_of ?ps))" using assms(2) by (subst distinct_map) simp
  then show ?thesis by (intro lock_map_eq) (simp add: comp_def)
qed

lemma binary_diff_lock:
  assumes "packed_as sha256 m b" and c: "collision_free sha256 (parse_lockfile f) m" and d: "distinct (map key_of (parse_lockfile f))"
  shows "map pk_package_id_hash (bd_added (binary_diff sha256 f b)) = map (entry_pid sha256) (dl_added (manifest_diff f m))"
    and "map pk_package_id_hash (bd_changed (binary_diff sha256 f b)) = map (entry_pid sha256) (dl_changed (manifest_diff f m))"
    and "map pk_package_id_hash (bd_unchanged (binary_diff sha256 f b)) = map (entry_pid sha256) (dl_unchanged (manifest_diff f m))"
proof -
  note known = packed_known [OF assms(1,2)]
  note diffs = binary_diff_def lock_map_refines [OF c d] binary_diff_fold manifest_diff_sel Let_def filter_map comp_def new_entry_def old_entry_def
  show "map pk_package_id_hash (bd_added (binary_diff sha256 f b)) = map (entry_pid sha256) (dl_added (manifest_diff f m))"
    using known(1) by (simp add: diffs cong: filter_cong)
  have "(\<exists>e. map_of (bm_entries b) (pid_of sha256 p) = Some e \<and> pk_hash_prefix e \<noteq> compute_hash_prefix sha256 (pi_integrity_hash p)) \<longleftrightarrow>
      known (im_entries m) p \<and> \<not> cached (im_entries m) p" if "p \<in> set (parse_lockfile f)" for p using known(1,2) [OF that] by auto
  then show "map pk_package_id_hash (bd_changed (binary_diff sha256 f b)) = map (entry_pid sha256) (dl_changed (manifest_diff f m))"
    by (simp add: diffs cong: filter_cong)
  have "pk_package_id_hash (the (map_of (bm_entries b) (pid_of sha256 p))) = pid_of sha256 p"
    if "p \<in> set (parse_lockfile f)" "cached (im_entries m) p" for p using known(2,3) [OF that(1)] that(2) by force
  then show "map pk_package_id_hash (bd_unchanged (binary_diff sha256 f b)) = map (entry_pid sha256) (dl_unchanged (manifest_diff f m))"
    using known(2) by (simp add: diffs cong: filter_cong)
qed

lemma binary_diff_removed:
  assumes "packed_as sha256 m b" and c: "collision_free sha256 (parse_lockfile f) m" and "manifest_wf m" and d: "distinct (map key_of (parse_lockfile f))"
  shows "map pk_package_id_hash (bd_removed (binary_diff sha256 f b)) = map (entry_pid sha256) (dl_removed (manifest_diff f m))"
proof -
  let ?ps = "parse_lockfile f" and ?id = "compute_package_id_hash sha256"
  have "map (?id \<circ> fst) (filter (\<lambda>x. fst x \<notin> key_of ` set ?ps) (im_entries m)) =
      map (pk_package_id_hash \<circ> snd) (filter (\<lambda>y. map_of (lock_map sha256 ?ps) (fst y) = None) (bm_entries b))"
  proof (rule filter_fst_map2)
    show "list_all2 (packs sha256) (im_entries m) (bm_entries b)" using assms(1) by (simp add: packed_as_def)
    fix x y assume "packs sha256 x y"
    then show "(?id \<circ> fst) x = (pk_package_id_hash \<circ> snd) y" by (simp add: packs_def)
    assume "x \<in> set (im_entries m)"
    then have "?id (fst x) \<in> ?id ` key_of ` set ?ps \<longleftrightarrow> fst x \<in> key_of ` set ?ps"
      using c inj_on_image_mem_iff [of ?id "key_of ` set ?ps \<union> fst ` set (im_entries m)" "fst x" "key_of ` set ?ps"] by (auto simp: collision_free_def)
    then show "fst x \<notin> key_of ` set ?ps \<longleftrightarrow> map_of (lock_map sha256 ?ps) (fst y) = None"
      using \<open>packs sha256 x y\<close> by (auto simp: lock_map_refines [OF c d] map_of_eq_None_iff packs_def image_image)
  qed
  moreover have "(\<lambda>(k, e :: ManifestEntry). k \<notin> key_of ` set ?ps) = (\<lambda>x. fst x \<notin> key_of ` set ?ps)" by auto
  then have "map (entry_pid sha256) (dl_removed (manifest_diff f m)) = map (?id \<circ> fst) (filter (\<lambda>x. fst x \<notin> key_of ` set ?ps) (im_entries m))"
    using assms(3) unfolding manifest_diff_sel map_map by (intro map_cong) (auto simp: manifest_wf_def)
  ultimately show ?thesis by (simp add: binary_diff_def Let_def case_prod_unfold)
qed

text \<open>
  Claim C27. The packed manifest implements the text manifest: if it holds the shortened digests of the
  entries of the text manifest, the lockfile has no two entries of the same name and version, and the
  shortened digests of the strings involved do not collide, its difference lists the same packages as
  added, changed, unchanged and removed, so both report the install as fully cached in the same cases.
\<close>

theorem binary_diff_refines:
  assumes "packed_as sha256 m b" and "collision_free sha256 (parse_lockfile f) m" and "manifest_wf m"
    and "distinct (map (\<lambda>p. pkg_key (pi_name p) (pi_version p)) (parse_lockfile f))"
  shows "map pk_package_id_hash (bd_added (binary_diff sha256 f b)) = map (entry_pid sha256) (dl_added (manifest_diff f m)) \<and>
    map pk_package_id_hash (bd_changed (binary_diff sha256 f b)) = map (entry_pid sha256) (dl_changed (manifest_diff f m)) \<and>
    map pk_package_id_hash (bd_unchanged (binary_diff sha256 f b)) = map (entry_pid sha256) (dl_unchanged (manifest_diff f m)) \<and>
    map pk_package_id_hash (bd_removed (binary_diff sha256 f b)) = map (entry_pid sha256) (dl_removed (manifest_diff f m)) \<and>
    (binary_fully_cached (binary_diff sha256 f b) \<longleftrightarrow> is_fully_cached (manifest_diff f m))"
  using binary_diff_lock [OF assms(1,2,4)] binary_diff_removed [OF assms] unfolding binary_fully_cached_def is_fully_cached_def
  by (metis list.map_disc_iff)

definition ex_lock :: string where
  "ex_lock = concat (map (\<lambda>l. l @ [CHR 0x0A]) (entry_lines ex_entry))"

definition ex_pack :: BinaryManifest where
  "ex_pack = ex_packed\<lparr>bm_entries := map (\<lambda>(k, e). (compute_package_id_hash rev k,
     \<lparr>pk_hash_prefix = compute_hash_prefix rev (mf_integrity_hash e), pk_package_id_hash = compute_package_id_hash rev k, pk_cars_slot_index = 0,
      pk_install_time_ns = 0, pk_flags = 0, pk_reserved = 0, pk_reserved2 = 0\<rparr>)) (im_entries ex_manifest)\<rparr>"

lemma ex_lock_packages: "parse_lockfile (Some ex_lock) =
  [\<lparr>pi_name = ''left-pad'', pi_version = ''1.3.0'', pi_integrity_hash = ''sha512-AAAA'', pi_tarball_path = ''node_modules/left-pad/.aarchgate_tarball.tgz''\<rparr>]"
  by code_simp

theorem binary_diff_refines_witness:
  "binary_fully_cached (binary_diff rev (Some ex_lock) ex_pack) \<longleftrightarrow> is_fully_cached (manifest_diff (Some ex_lock) ex_manifest)"
proof -
  have "compute_package_id_hash rev ''left-pad@1.3.0'' \<noteq> compute_package_id_hash rev ''@babel/core@7.0.0''"
    "compute_hash_prefix rev ''sha512-AAAA'' \<noteq> compute_hash_prefix rev ''sha512-A+/==''" by code_simp+
  then have "collision_free rev (parse_lockfile (Some ex_lock)) ex_manifest"
    unfolding ex_lock_packages by (simp add: collision_free_def ex_manifest_def pkg_key_def)
  moreover have "packed_as rev ex_manifest ex_pack" by (simp add: packed_as_def packs_def ex_pack_def ex_manifest_def)
  moreover have "manifest_wf ex_manifest" by code_simp
  ultimately show ?thesis using binary_diff_refines [of rev ex_manifest ex_pack "Some ex_lock"] by (simp add: ex_lock_packages)
qed

end
