(* ===== verification/Vm_Pool.thy ===== *)
theory Vm_Pool
  imports Dep_Graph
begin

text \<open>
  The parallel installer (\<open>src/host/vm_pool.cpp\<close>): \<open>install_parallel\<close> starts one thread and one virtual
  machine per subgraph, at most \<open>max_vms\<close> at a time, and stops launching once a machine failed to boot. A
  step of the relation is one critical section or one visible action of the caller or of a worker. Whether
  a machine boots is a parameter (the class in \<open>vm_pool.hpp\<close> always succeeds).
\<close>

section \<open>State\<close>

record VMJobResult =
  jr_subgraph_index :: nat
  jr_success :: bool
  jr_error_message :: string
  jr_installed_packages :: "string list"
  jr_blocked_packages :: "string list"

record VMPool =
  vp_kernel_path :: string
  vp_initrd_path :: string
  vp_share_path :: string
  vp_max_vms :: nat

definition VMPool_new :: "nat \<Rightarrow> string \<Rightarrow> string \<Rightarrow> string \<Rightarrow> nat \<Rightarrow> VMPool" where
  "VMPool_new hardware_concurrency k i s max_vms =
     \<lparr>vp_kernel_path = k, vp_initrd_path = i, vp_share_path = s,
      vp_max_vms = (if max_vms = 0 then max 1 (hardware_concurrency div 2) else max_vms)\<rparr>"

text \<open>Program points of a worker thread and of the caller.\<close>

datatype vm_worker = Fresh nat | Booting nat | Reporting VMJobResult | Leaving | Left

datatype vm_caller = AtLoop nat | WaitSlot nat | SlotAsleep nat | JoiningVms | Finished bool

record vm_install =
  vi_kill_switch :: bool
  vi_active_vms :: nat
  vi_workers :: "vm_worker list"
  vi_caller :: vm_caller
  vi_results :: "VMJobResult list"

definition install_start :: vm_install where
  "install_start = \<lparr>vi_kill_switch = False, vi_active_vms = 0, vi_workers = [], vi_caller = AtLoop 0, vi_results = []\<rparr>"

section \<open>Steps\<close>

definition subgraph_keys :: "Subgraph \<Rightarrow> string list" where
  "subgraph_keys sg = map (\<lambda>pkg. dn_name pkg @ ''@'' @ dn_version pkg) sg"

definition job_result :: "(nat \<Rightarrow> bool) \<Rightarrow> Subgraph list \<Rightarrow> nat \<Rightarrow> VMJobResult" where
  "job_result boots subgraphs i =
     (if boots i
      then \<lparr>jr_subgraph_index = i, jr_success = True, jr_error_message = [], jr_installed_packages = subgraph_keys (subgraphs ! i), jr_blocked_packages = []\<rparr>
      else \<lparr>jr_subgraph_index = i, jr_success = False, jr_error_message = ''VM boot failed'', jr_installed_packages = [], jr_blocked_packages = []\<rparr>)"

definition worker_to :: "nat \<Rightarrow> vm_worker \<Rightarrow> vm_install \<Rightarrow> vm_install" where
  "worker_to w x s = s\<lparr>vi_workers := (vi_workers s)[w := x]\<rparr>"

definition worker_in :: "nat \<Rightarrow> vm_worker \<Rightarrow> vm_install \<Rightarrow> bool" where
  "worker_in w x s \<longleftrightarrow> w < length (vi_workers s) \<and> vi_workers s ! w = x"

fun wake_caller :: "vm_caller \<Rightarrow> vm_caller" where
  "wake_caller (SlotAsleep i) = WaitSlot i"
| "wake_caller c = c"

inductive install_step :: "(nat \<Rightarrow> bool) \<Rightarrow> Subgraph list \<Rightarrow> nat \<Rightarrow> vm_install \<Rightarrow> vm_install \<Rightarrow> bool" for boots subgraphs max_vms where
  break_loop: "vi_caller s = AtLoop i \<Longrightarrow> i < length subgraphs \<Longrightarrow> vi_kill_switch s \<Longrightarrow>
    install_step boots subgraphs max_vms s (s\<lparr>vi_caller := JoiningVms\<rparr>)"
| enter: "vi_caller s = AtLoop i \<Longrightarrow> i < length subgraphs \<Longrightarrow> \<not> vi_kill_switch s \<Longrightarrow>
    install_step boots subgraphs max_vms s (s\<lparr>vi_caller := WaitSlot i\<rparr>)"
| end_loop: "vi_caller s = AtLoop i \<Longrightarrow> length subgraphs \<le> i \<Longrightarrow> install_step boots subgraphs max_vms s (s\<lparr>vi_caller := JoiningVms\<rparr>)"
| launch: "vi_caller s = WaitSlot i \<Longrightarrow> vi_active_vms s < max_vms \<Longrightarrow>
    install_step boots subgraphs max_vms s
      (s\<lparr>vi_active_vms := vi_active_vms s + 1, vi_workers := vi_workers s @ [Fresh i], vi_caller := AtLoop (i + 1)\<rparr>)"
| sleep: "vi_caller s = WaitSlot i \<Longrightarrow> max_vms \<le> vi_active_vms s \<Longrightarrow> install_step boots subgraphs max_vms s (s\<lparr>vi_caller := SlotAsleep i\<rparr>)"
| skip: "worker_in w (Fresh i) s \<Longrightarrow> vi_kill_switch s \<Longrightarrow> install_step boots subgraphs max_vms s (worker_to w Leaving s)"
| boot: "worker_in w (Fresh i) s \<Longrightarrow> \<not> vi_kill_switch s \<Longrightarrow> install_step boots subgraphs max_vms s (worker_to w (Booting i) s)"
| booted: "worker_in w (Booting i) s \<Longrightarrow>
    install_step boots subgraphs max_vms s
      (worker_to w (Reporting (job_result boots subgraphs i)) (s\<lparr>vi_kill_switch := (vi_kill_switch s \<or> \<not> boots i)\<rparr>))"
| report: "worker_in w (Reporting r) s \<Longrightarrow> install_step boots subgraphs max_vms s (worker_to w Leaving (s\<lparr>vi_results := vi_results s @ [r]\<rparr>))"
| leave: "worker_in w Leaving s \<Longrightarrow>
    install_step boots subgraphs max_vms s
      (worker_to w Left (s\<lparr>vi_active_vms := vi_active_vms s - 1, vi_caller := wake_caller (vi_caller s)\<rparr>))"
| join: "vi_caller s = JoiningVms \<Longrightarrow> set (vi_workers s) \<subseteq> {Left} \<Longrightarrow>
    install_step boots subgraphs max_vms s (s\<lparr>vi_caller := Finished (\<not> vi_kill_switch s)\<rparr>)"

abbreviation install_steps :: "(nat \<Rightarrow> bool) \<Rightarrow> Subgraph list \<Rightarrow> nat \<Rightarrow> vm_install \<Rightarrow> vm_install \<Rightarrow> bool" where
  "install_steps boots subgraphs max_vms \<equiv> (install_step boots subgraphs max_vms)\<^sup>*\<^sup>*"

section \<open>Invariants\<close>

text \<open>The thread launched for subgraph \<open>w\<close> is the \<open>w\<close>-th worker.\<close>

fun launched :: "nat \<Rightarrow> vm_install \<Rightarrow> nat" where
  "launched n s = (case vi_caller s of AtLoop i \<Rightarrow> i | WaitSlot i \<Rightarrow> i | SlotAsleep i \<Rightarrow> i | JoiningVms \<Rightarrow> length (vi_workers s) | Finished b \<Rightarrow> length (vi_workers s))"

fun worker_ok :: "(nat \<Rightarrow> VMJobResult) \<Rightarrow> nat \<Rightarrow> vm_worker \<Rightarrow> bool" where
  "worker_ok res w (Fresh i) \<longleftrightarrow> i = w"
| "worker_ok res w (Booting i) \<longleftrightarrow> i = w"
| "worker_ok res w (Reporting r) \<longleftrightarrow> r = res w"
| "worker_ok res w x \<longleftrightarrow> True"

fun past_report :: "vm_worker \<Rightarrow> bool" where
  "past_report Leaving \<longleftrightarrow> True"
| "past_report Left \<longleftrightarrow> True"
| "past_report x \<longleftrightarrow> False"

fun past_boot :: "vm_worker \<Rightarrow> bool" where
  "past_boot (Fresh i) \<longleftrightarrow> False"
| "past_boot (Booting i) \<longleftrightarrow> False"
| "past_boot x \<longleftrightarrow> True"

definition active_count :: "vm_worker list \<Rightarrow> nat" where
  "active_count ws = length (filter (\<lambda>x. x \<noteq> Left) ws)"

definition position_inv :: "(nat \<Rightarrow> VMJobResult) \<Rightarrow> nat \<Rightarrow> vm_install \<Rightarrow> bool" where
  "position_inv res n s \<longleftrightarrow> length (vi_workers s) = launched n s \<and> launched n s \<le> n \<and> (\<forall>w < length (vi_workers s). worker_ok res w (vi_workers s ! w))"

definition slots_inv :: "nat \<Rightarrow> nat \<Rightarrow> vm_install \<Rightarrow> bool" where
  "slots_inv n m s \<longleftrightarrow> vi_active_vms s = active_count (vi_workers s) \<and> vi_active_vms s \<le> m \<and>
     (\<forall>i. vi_caller s = WaitSlot i \<or> vi_caller s = SlotAsleep i \<longrightarrow> i < n) \<and>
     (\<forall>i. vi_caller s = SlotAsleep i \<longrightarrow> m \<le> vi_active_vms s) \<and>
     (\<forall>b. vi_caller s = Finished b \<longrightarrow> set (vi_workers s) \<subseteq> {Left} \<and> b = (\<not> vi_kill_switch s))"

definition results_inv :: "(nat \<Rightarrow> VMJobResult) \<Rightarrow> vm_install \<Rightarrow> bool" where
  "results_inv res s \<longleftrightarrow> distinct (map jr_subgraph_index (vi_results s)) \<and>
     (\<forall>r \<in> set (vi_results s). \<exists>w < length (vi_workers s). past_report (vi_workers s ! w) \<and> r = res w) \<and>
     (\<not> vi_kill_switch s \<longrightarrow> (\<forall>w < length (vi_workers s). past_report (vi_workers s ! w) \<longrightarrow> res w \<in> set (vi_results s)))"

definition kill_switch_inv :: "(nat \<Rightarrow> bool) \<Rightarrow> nat \<Rightarrow> vm_install \<Rightarrow> bool" where
  "kill_switch_inv boots n s \<longleftrightarrow>
     (if vi_kill_switch s then \<exists>i < n. \<not> boots i
      else (\<forall>w < length (vi_workers s). past_boot (vi_workers s ! w) \<longrightarrow> boots w) \<and>
           (\<forall>b. vi_caller s = JoiningVms \<or> vi_caller s = Finished b \<longrightarrow> length (vi_workers s) = n))"

lemma active_count_update:
  "w < length ws \<Longrightarrow> active_count (ws[w := x]) + (if ws ! w = Left then 0 else 1) = active_count ws + (if x = Left then 0 else 1)"
proof -
  have "active_count vs = sum_list (map (\<lambda>x. if x = Left then 0 else 1) vs)" for vs by (induction vs) (simp_all add: active_count_def)
  moreover assume "w < length ws"
  ultimately show ?thesis using sum_list_map_update [of w ws "\<lambda>x. if x = Left then 0 else 1 :: nat" x] by simp
qed

lemma index_job_result [simp]: "jr_subgraph_index (job_result boots subgraphs i) = i"
  by (simp add: job_result_def)

lemma worker_sel [simp]:
  "vi_kill_switch (worker_to w x s) = vi_kill_switch s" "vi_active_vms (worker_to w x s) = vi_active_vms s"
  "vi_caller (worker_to w x s) = vi_caller s" "vi_results (worker_to w x s) = vi_results s"
  "vi_workers (worker_to w x s) = (vi_workers s)[w := x]"
  by (simp_all add: worker_to_def)

lemma launched_wake [simp]: "launched n (s\<lparr>vi_active_vms := a, vi_caller := wake_caller (vi_caller s)\<rparr>) = launched n s"
  by (cases "vi_caller s") simp_all

lemma position_inv_step:
  "install_step boots subgraphs m s s' \<Longrightarrow> slots_inv (length subgraphs) m s \<Longrightarrow> position_inv (job_result boots subgraphs) (length subgraphs) s \<Longrightarrow>
   position_inv (job_result boots subgraphs) (length subgraphs) s'"
  by (induction rule: install_step.induct)
    (auto simp: position_inv_def slots_inv_def worker_in_def nth_list_update nth_append less_Suc_eq split: vm_caller.splits)

lemma worker_inE: "worker_in w x s \<Longrightarrow> w < length (vi_workers s) \<and> vi_workers s ! w = x"
  by (simp add: worker_in_def)

lemma active_same:
  "worker_in w x s \<Longrightarrow> x \<noteq> Left \<Longrightarrow> y \<noteq> Left \<Longrightarrow> active_count ((vi_workers s)[w := y]) = active_count (vi_workers s)"
  using active_count_update [of w "vi_workers s" y] by (simp add: worker_in_def)

lemma worker_not_left: "worker_in w x s \<Longrightarrow> x \<noteq> Left \<Longrightarrow> \<not> set (vi_workers s) \<subseteq> {Left}"
  using nth_mem by (fastforce simp: worker_in_def)

lemma not_finished: "worker_in w x s \<Longrightarrow> x \<noteq> Left \<Longrightarrow> slots_inv n m s \<Longrightarrow> vi_caller s \<noteq> Finished b"
  using worker_not_left by (auto simp: slots_inv_def)

lemma slots_inv_step:
  assumes "install_step boots subgraphs m s s'" and "slots_inv (length subgraphs) m s"
  shows "slots_inv (length subgraphs) m s'"
  using assms
proof (induction rule: install_step.induct)
  case (leave w s)
  then have w: "w < length (vi_workers s)" "vi_workers s ! w = Leaving" by (simp_all add: worker_in_def)
  have "active_count ((vi_workers s)[w := Left]) + 1 = active_count (vi_workers s)" using active_count_update [OF w(1), of Left] w(2) by simp
  then show ?case using leave(2) not_finished [OF leave(1) _ leave(2)] by (cases "vi_caller s") (auto simp: slots_inv_def)
next
  case (launch s i)
  then show ?case by (auto simp: slots_inv_def active_count_def)
next
  case (skip w i s)
  then show ?case using not_finished [OF skip(1) _ skip(3)] active_same [OF skip(1), of Leaving] by (auto simp: slots_inv_def)
next
  case (boot w i s)
  then show ?case using not_finished [OF boot(1) _ boot(3)] active_same [OF boot(1), of "Booting i"] by (auto simp: slots_inv_def)
next
  case (booted w i s)
  then show ?case using not_finished [OF booted(1) _ booted(2)] active_same [OF booted(1), of "Reporting (job_result boots subgraphs i)"]
    by (auto simp: slots_inv_def)
next
  case (report w r s)
  then show ?case using not_finished [OF report(1) _ report(2)] active_same [OF report(1), of Leaving] by (auto simp: slots_inv_def)
qed (auto simp: slots_inv_def)

lemma results_inv_same:
  assumes "results_inv res s" and "length (vi_workers s') = length (vi_workers s)" and "vi_results s' = vi_results s"
    and "\<forall>w < length (vi_workers s). past_report (vi_workers s' ! w) = past_report (vi_workers s ! w)" and "vi_kill_switch s \<longrightarrow> vi_kill_switch s'"
  shows "results_inv res s'"
  using assms unfolding results_inv_def by metis

lemma results_inv_step:
  assumes "install_step boots subgraphs m s s'" and "position_inv (job_result boots subgraphs) n s" and "results_inv (job_result boots subgraphs) s"
  shows "results_inv (job_result boots subgraphs) s'"
  using assms
proof (induction rule: install_step.induct)
  case (report w r s)
  let ?res = "job_result boots subgraphs"
  have w: "w < length (vi_workers s)" "vi_workers s ! w = Reporting r" using worker_inE [OF report(1)] by simp_all
  then have r: "r = ?res w" using report(2) by (auto simp: position_inv_def)
  have "w \<notin> jr_subgraph_index ` set (vi_results s)"
  proof
    assume "w \<in> jr_subgraph_index ` set (vi_results s)"
    then obtain q where q: "q \<in> set (vi_results s)" "w = jr_subgraph_index q" by blast
    have "\<forall>q \<in> set (vi_results s). \<exists>w' < length (vi_workers s). past_report (vi_workers s ! w') \<and> q = ?res w'"
      using report(3) by (simp add: results_inv_def)
    then obtain w' where "past_report (vi_workers s ! w')" "q = ?res w'" using q(1) by blast
    then show False using w(2) q(2) by simp
  qed
  moreover have "\<exists>w' < length (vi_workers s). past_report ((vi_workers s)[w := Leaving] ! w') \<and> q = ?res w'" if "q \<in> set (vi_results s @ [r])" for q
    using that w r report(3) by (auto simp: results_inv_def nth_list_update)
  moreover have "?res v \<in> set (vi_results s @ [r])"
    if "\<not> vi_kill_switch s" "v < length (vi_workers s)" "past_report ((vi_workers s)[w := Leaving] ! v)" for v
    using that r report(3) by (cases "v = w") (auto simp: results_inv_def)
  ultimately show ?case using report(3) r by (simp add: results_inv_def)
next
  case (boot w i s)
  show ?case by (rule results_inv_same [OF boot(4)]) (use boot(1) in \<open>simp_all add: worker_in_def nth_list_update\<close>)
next
  case (booted w i s)
  show ?case by (rule results_inv_same [OF booted(3)]) (use booted(1) in \<open>simp_all add: worker_in_def nth_list_update\<close>)
next
  case (leave w s)
  show ?case by (rule results_inv_same [OF leave(3)]) (use leave(1) in \<open>simp_all add: worker_in_def nth_list_update\<close>)
next
  case (skip w i s)
  then show ?case by (auto simp: results_inv_def worker_in_def nth_list_update split: if_splits)
next
  case (launch s i)
  then show ?case by (auto simp: results_inv_def nth_append less_Suc_eq)
qed (auto simp: results_inv_def worker_in_def nth_list_update)

lemma kill_switch_inv_step:
  assumes "install_step boots subgraphs m s s'" and "position_inv (job_result boots subgraphs) (length subgraphs) s"
    and "kill_switch_inv boots (length subgraphs) s"
  shows "kill_switch_inv boots (length subgraphs) s'"
  using assms
proof (induction rule: install_step.induct)
  case (booted w i s)
  have w: "w < length (vi_workers s)" "vi_workers s ! w = Booting i" using worker_inE [OF booted(1)] by simp_all
  then have i: "i = w" "w < length subgraphs" using booted(2) by (auto simp: position_inv_def)
  show ?case
  proof (cases "vi_kill_switch s \<or> \<not> boots i")
    case True
    then show ?thesis using booted(3) i by (auto simp: kill_switch_inv_def)
  next
    case False
    then have "past_boot ((vi_workers s)[w := Reporting (job_result boots subgraphs i)] ! v) \<longrightarrow> boots v" if "v < length (vi_workers s)" for v
      using booted(3) that i by (cases "v = w") (auto simp: kill_switch_inv_def)
    then show ?thesis using False booted(3) by (simp add: kill_switch_inv_def)
  qed
next
  case (end_loop s i)
  then show ?case by (auto simp: kill_switch_inv_def position_inv_def)
next
  case (launch s i)
  then show ?case by (auto simp: kill_switch_inv_def nth_append less_Suc_eq)
next
  case (leave w s)
  then have "past_boot ((vi_workers s)[w := Left] ! v) \<longrightarrow> past_boot (vi_workers s ! v)" if "v < length (vi_workers s)" for v
    using that by (cases "v = w") (auto simp: worker_in_def)
  then show ?case using leave(3) by (cases "vi_caller s") (auto simp: kill_switch_inv_def)
qed (auto simp: kill_switch_inv_def worker_in_def nth_list_update)

definition install_inv :: "(nat \<Rightarrow> bool) \<Rightarrow> Subgraph list \<Rightarrow> nat \<Rightarrow> vm_install \<Rightarrow> bool" where
  "install_inv boots subgraphs m s \<longleftrightarrow> position_inv (job_result boots subgraphs) (length subgraphs) s \<and> slots_inv (length subgraphs) m s \<and>
     results_inv (job_result boots subgraphs) s \<and> kill_switch_inv boots (length subgraphs) s"

lemma install_inv_reachable:
  assumes "install_steps boots subgraphs m install_start s"
  shows "install_inv boots subgraphs m s"
  using assms
proof (induction rule: rtranclp_induct)
  case base
  show ?case
    by (simp add: install_inv_def install_start_def position_inv_def slots_inv_def results_inv_def kill_switch_inv_def active_count_def)
next
  case (step s s')
  then have i: "position_inv (job_result boots subgraphs) (length subgraphs) s" "slots_inv (length subgraphs) m s"
    "results_inv (job_result boots subgraphs) s" "kill_switch_inv boots (length subgraphs) s"
    by (simp_all add: install_inv_def)
  show ?case unfolding install_inv_def
    using position_inv_step [OF step(2) i(2,1)] slots_inv_step [OF step(2) i(2)] results_inv_step [OF step(2) i(1,3)] kill_switch_inv_step [OF step(2) i(1,4)]
    by blast
qed

section \<open>Termination and progress\<close>

fun vm_worker_weight :: "vm_worker \<Rightarrow> nat" where
  "vm_worker_weight (Fresh i) = 8"
| "vm_worker_weight (Booting i) = 7"
| "vm_worker_weight (Reporting r) = 6"
| "vm_worker_weight Leaving = 5"
| "vm_worker_weight Left = 0"

fun caller_weight :: "nat \<Rightarrow> vm_caller \<Rightarrow> nat" where
  "caller_weight n (AtLoop i) = 12 * (n - i) + 4"
| "caller_weight n (WaitSlot i) = 12 * (n - i) + 3"
| "caller_weight n (SlotAsleep i) = 12 * (n - i) + 2"
| "caller_weight n JoiningVms = 1"
| "caller_weight n (Finished b) = 0"

definition install_weight :: "nat \<Rightarrow> vm_install \<Rightarrow> nat" where
  "install_weight n s = caller_weight n (vi_caller s) + sum_list (map vm_worker_weight (vi_workers s))"

lemma weight_wake: "caller_weight n (wake_caller c) \<le> caller_weight n c + 1"
  by (cases c) simp_all

lemma worker_weight_update:
  "worker_in w x s \<Longrightarrow> sum_list (map vm_worker_weight ((vi_workers s)[w := y])) + vm_worker_weight x =
     sum_list (map vm_worker_weight (vi_workers s)) + vm_worker_weight y"
  using sum_list_map_update [of w "vi_workers s" vm_worker_weight y] by (simp add: worker_in_def)

lemma install_step_weight:
  assumes "install_step boots subgraphs m s s'" and "slots_inv (length subgraphs) m s"
  shows "install_weight (length subgraphs) s' < install_weight (length subgraphs) s"
  using assms
proof (induction rule: install_step.induct)
  case (launch s i)
  then have "i < length subgraphs" by (simp add: slots_inv_def)
  then show ?case using launch by (simp add: install_weight_def)
next
  case (skip w i s)
  then show ?case using worker_weight_update [OF skip(1), of Leaving] by (simp add: install_weight_def)
next
  case (boot w i s)
  then show ?case using worker_weight_update [OF boot(1), of "Booting i"] by (simp add: install_weight_def)
next
  case (booted w i s)
  then show ?case using worker_weight_update [OF booted(1), of "Reporting (job_result boots subgraphs i)"] by (simp add: install_weight_def)
next
  case (report w r s)
  then show ?case using worker_weight_update [OF report(1), of Leaving] by (simp add: install_weight_def)
next
  case (leave w s)
  then show ?case using worker_weight_update [OF leave(1), of Left] weight_wake [of "length subgraphs" "vi_caller s"] by (simp add: install_weight_def)
qed (simp_all add: install_weight_def)

text \<open>A worker that has not left can always take a step.\<close>

lemma install_worker_steps:
  assumes "x \<in> set (vi_workers s)" and "x \<noteq> Left"
  shows "\<exists>s'. install_step boots subgraphs m s s'"
proof -
  obtain w where w: "worker_in w x s" using assms(1) by (auto simp: in_set_conv_nth worker_in_def)
  show ?thesis
  proof (cases x)
    case (Fresh i)
    then show ?thesis using install_step.skip [of w i s] install_step.boot [of w i s] w by (cases "vi_kill_switch s") auto
  next
    case (Booting i)
    then show ?thesis using install_step.booted [of w i s] w by auto
  next
    case (Reporting r)
    then show ?thesis using install_step.report [of w r s] w by auto
  next
    case Leaving
    then show ?thesis using install_step.leave [of w s] w by auto
  qed (use assms(2) in simp)
qed

lemma install_progress:
  assumes "slots_inv (length subgraphs) m s" and "0 < m" and stuck: "\<nexists>s'. install_step boots subgraphs m s s'"
  shows "\<exists>b. vi_caller s = Finished b"
proof -
  have left: "set (vi_workers s) \<subseteq> {Left}" using install_worker_steps stuck by blast
  then have "active_count (vi_workers s) = 0" by (auto simp: active_count_def filter_empty_conv)
  then have a: "vi_active_vms s = 0" using assms(1) by (simp add: slots_inv_def)
  show ?thesis
  proof (cases "vi_caller s")
    case (AtLoop i)
    then show ?thesis using stuck install_step.break_loop [of s i subgraphs] install_step.enter [of s i subgraphs] install_step.end_loop [of s i subgraphs]
      by (cases "i < length subgraphs"; cases "vi_kill_switch s") (simp_all add: not_less, blast+)
  next
    case (WaitSlot i)
    then have False using stuck install_step.launch [of s i m] a assms(2) by auto
    then show ?thesis ..
  next
    case (SlotAsleep i)
    then show ?thesis using assms(1,2) a by (simp add: slots_inv_def)
  next
    case JoiningVms
    then have False using stuck install_step.join [OF _ left] by auto
    then show ?thesis ..
  qed simp
qed

section \<open>Results\<close>

lemma finished_results:
  assumes "install_inv boots subgraphs m s" and "vi_caller s = Finished b"
  shows "b = (\<forall>i < length subgraphs. boots i)"
    and "b \<Longrightarrow> mset (vi_results s) = mset (map (job_result boots subgraphs) [0..<length subgraphs])"
proof -
  let ?res = "job_result boots subgraphs" and ?n = "length subgraphs"
  have left: "set (vi_workers s) \<subseteq> {Left}" and b: "b = (\<not> vi_kill_switch s)" using assms by (auto simp: install_inv_def slots_inv_def)
  have pos: "vi_workers s ! w = Left" if "w < length (vi_workers s)" for w using left that nth_mem by blast
  have k: "kill_switch_inv boots ?n s" and r: "results_inv ?res s" using assms(1) by (simp_all add: install_inv_def)
  show "b = (\<forall>i < ?n. boots i)" using k b pos assms(2) by (auto simp: kill_switch_inv_def split: if_splits)
  assume b
  then have n: "length (vi_workers s) = ?n" using k b assms(2) by (auto simp: kill_switch_inv_def)
  have "set (vi_results s) = ?res ` {0..<?n}" using r pos n b \<open>b\<close> by (auto simp: results_inv_def)
  moreover have "distinct (vi_results s)" using r by (simp add: results_inv_def distinct_map)
  moreover have "inj_on ?res {0..<?n}" by (rule inj_on_inverseI [of _ jr_subgraph_index]) simp
  ultimately show "mset (vi_results s) = mset (map ?res [0..<?n])"
    by (intro set_eq_iff_mset_eq_distinct [THEN iffD1]) (simp_all add: distinct_map)
qed

text \<open>
  Claim C29. No more machines than allowed: in every reachable state of an install, the number of machines that
  have been started and not yet released is the counter \<open>active_vms\<close> and at most \<open>max_vms\<close>.
\<close>

theorem install_bounded:
  assumes "install_steps boots subgraphs max_vms install_start s"
  shows "length (filter (\<lambda>x. x \<noteq> Left) (vi_workers s)) = vi_active_vms s \<and> vi_active_vms s \<le> max_vms"
  using install_inv_reachable [OF assms] by (simp add: install_inv_def slots_inv_def active_count_def)

lemma mset_concat_map: "mset (concat (map f xs)) = (\<Sum>x \<in># mset xs. mset (f x))"
  by (induction xs) simp_all

text \<open>
  No interleaving runs forever or gets stuck; when it is over, \<open>install_parallel\<close> has returned true exactly if
  every machine booted, and then each subgraph was reported once, with all of its packages.
\<close>

lemma install_terminates:
  "wfp (\<lambda>s' s. install_steps boots subgraphs max_vms install_start s \<and> install_step boots subgraphs max_vms s s')"
  by (rule wfp_if_convertible_to_nat [of _ "install_weight (length subgraphs)"])
    (use install_step_weight install_inv_reachable in \<open>auto simp: install_inv_def\<close>)

lemma install_outcome:
  assumes "0 < max_vms" and "install_steps boots subgraphs max_vms install_start s" and stuck: "\<nexists>s'. install_step boots subgraphs max_vms s s'"
  shows "vi_caller s = Finished (\<forall>i < length subgraphs. boots i)"
    and "\<forall>i < length subgraphs. boots i \<Longrightarrow>
      mset (concat (map jr_installed_packages (vi_results s))) = mset (concat (map subgraph_keys subgraphs))"
proof -
  have inv: "install_inv boots subgraphs max_vms s" using assms(2) by (rule install_inv_reachable)
  then have "slots_inv (length subgraphs) max_vms s" by (simp add: install_inv_def)
  then obtain b where b: "vi_caller s = Finished b" using install_progress [OF _ assms(1), of subgraphs s boots] stuck by blast
  then show "vi_caller s = Finished (\<forall>i < length subgraphs. boots i)" using finished_results(1) [OF inv] by simp
  assume all: "\<forall>i < length subgraphs. boots i"
  then have "mset (vi_results s) = mset (map (job_result boots subgraphs) [0..<length subgraphs])"
    using finished_results [OF inv b] by simp
  then have "mset (concat (map jr_installed_packages (vi_results s))) =
      mset (concat (map jr_installed_packages (map (job_result boots subgraphs) [0..<length subgraphs])))"
    by (simp only: mset_concat_map)
  also have "map jr_installed_packages (map (job_result boots subgraphs) [0..<length subgraphs]) = map subgraph_keys subgraphs"
    using all by (intro nth_equalityI) (simp_all add: job_result_def)
  finally show "mset (concat (map jr_installed_packages (vi_results s))) = mset (concat (map subgraph_keys subgraphs))" .
qed

lemma install_run_exists:
  "\<exists>s. install_steps boots subgraphs max_vms install_start s \<and> (\<nexists>s'. install_step boots subgraphs max_vms s s')"
  by (rule maximal_run [of _ _ "install_weight (length subgraphs)"])
    (use install_step_weight install_inv_reachable in \<open>auto simp: install_inv_def\<close>)

text \<open>Nothing else is ever reported: at any time the packages reported are among those of the subgraphs, each at most once.\<close>

lemma concat_map_subset: "mset xs \<subseteq># mset ys \<Longrightarrow> mset (concat (map f xs)) \<subseteq># mset (concat (map f ys))"
  by (auto simp: mset_concat_map subset_mset.le_iff_add)

lemma mset_distinct_subset: "distinct xs \<Longrightarrow> set xs \<subseteq> set ys \<Longrightarrow> mset xs \<subseteq># mset ys"
proof (rule mset_subset_eqI)
  fix a assume "distinct xs" "set xs \<subseteq> set ys"
  then show "count (mset xs) a \<le> count (mset ys) a"
    by (cases "a \<in> set xs") (auto simp: distinct_count_atmost_1 Suc_le_eq count_greater_zero_iff)
qed

lemma reported_subgraphs:
  "mset (concat (map (\<lambda>i. jr_installed_packages (job_result boots sgs i)) is)) \<subseteq># mset (concat (map (\<lambda>i. subgraph_keys (sgs ! i)) is))"
  by (induction "is") (auto simp: job_result_def subset_mset.add_mono subset_mset.add_increasing)

lemma reported_only:
  assumes "install_steps boots sgs max_vms install_start s"
  shows "mset (concat (map jr_installed_packages (vi_results s))) \<subseteq># mset (concat (map subgraph_keys sgs))"
proof -
  let ?res = "job_result boots sgs" and ?n = "length sgs"
  have inv: "results_inv ?res s" "position_inv ?res ?n s" using install_inv_reachable [OF assms] by (simp_all add: install_inv_def)
  have "length (vi_workers s) \<le> ?n" using inv(2) by (simp add: position_inv_def)
  then have sub: "set (vi_results s) \<subseteq> set (map ?res [0..<?n])" using inv(1) by (fastforce simp: results_inv_def)
  have "distinct (vi_results s)" using inv(1) by (simp add: results_inv_def distinct_map)
  then have "mset (vi_results s) \<subseteq># mset (map ?res [0..<?n])"
    using sub by (rule mset_distinct_subset)
  then have "mset (concat (map jr_installed_packages (vi_results s))) \<subseteq># mset (concat (map jr_installed_packages (map ?res [0..<?n])))"
    by (rule concat_map_subset)
  also have "\<dots> \<subseteq># mset (concat (map (\<lambda>i. subgraph_keys (sgs ! i)) [0..<?n]))"
    using reported_subgraphs [of boots sgs "[0..<?n]"] by (simp only: map_map comp_def)
  also have "map (\<lambda>i. subgraph_keys (sgs ! i)) [0..<?n] = map subgraph_keys sgs" by (intro nth_equalityI) simp_all
  finally show ?thesis .
qed

text \<open>
  Claim C28. From the dependency graph to the report: for every dependency graph (its keys are distinct, as those of
  the map the parser fills are), every bound on the number of machines and whichever machines boot, the packages
  of the graph are ordered and split into at most that many subgraphs, and no interleaving of the parallel install
  of them runs forever or gets stuck. At any time the packages reported as installed are packages of the graph, none
  more often than in the graph. The call returns true exactly if every machine boots, and then the packages
  reported are those of the graph, each once. What a machine does after booting is not part of the code: it
  reports its packages without running an installer.
\<close>

theorem graph_installed:
  assumes "distinct (map fst g)" and "0 < max_vms"
  shows "\<exists>sgs. extract_parallel_subgraphs hc max_vms g = Some sgs \<and> length sgs \<le> max_vms \<and>
    wfp (\<lambda>s' s. install_steps boots sgs max_vms install_start s \<and> install_step boots sgs max_vms s s') \<and>
    (\<forall>s. install_steps boots sgs max_vms install_start s \<longrightarrow>
      mset (concat (map jr_installed_packages (vi_results s))) \<subseteq># mset (map (\<lambda>(k, n). dn_name n @ ''@'' @ dn_version n) g) \<and>
      ((\<nexists>s'. install_step boots sgs max_vms s s') \<longrightarrow>
        vi_caller s = Finished (\<forall>i < length sgs. boots i) \<and>
        ((\<forall>i < length sgs. boots i) \<longrightarrow>
          mset (concat (map jr_installed_packages (vi_results s))) = mset (map (\<lambda>(k, n). dn_name n @ ''@'' @ dn_version n) g))))"
proof -
  obtain ns sgs where sgs: "topological_order g = Some ns" "extract_parallel_subgraphs hc max_vms g = Some sgs" "concat sgs = ns" "length sgs \<le> max_vms"
    using subgraphs_split_order [OF assms, of hc] by blast
  have "mset ns = mset (map snd g)" using topological_order_permutation [OF assms(1)] sgs(1) by simp
  moreover have "subgraph_keys = map (\<lambda>n. dn_name n @ ''@'' @ dn_version n)" by (simp add: fun_eq_iff subgraph_keys_def)
  then have "concat (map subgraph_keys sgs) = map (\<lambda>n. dn_name n @ ''@'' @ dn_version n) ns" using sgs(3) by (metis map_concat)
  ultimately have k: "mset (concat (map subgraph_keys sgs)) = mset (map (\<lambda>(k, n). dn_name n @ ''@'' @ dn_version n) g)"
    by (simp add: image_mset.compositionality comp_def case_prod_unfold)
  show ?thesis
    using sgs(2,4) install_terminates [of boots sgs max_vms] install_outcome [OF assms(2), of boots sgs] reported_only [of boots sgs max_vms]
    unfolding k by (intro exI [of _ sgs]) blast
qed

theorem graph_installed_witness:
  "\<exists>sgs s. extract_parallel_subgraphs 8 2 ex_graph = Some sgs \<and> install_steps (\<lambda>i. True) sgs 2 install_start s \<and> vi_caller s = Finished True \<and>
     mset (concat (map jr_installed_packages (vi_results s))) = mset [''a@1.0.0'', ''b@2.0.1'', ''c@3.0.0'']"
proof -
  have g: "distinct (map fst ex_graph)" using parse_distinct [of "[]"] ex_parse by (metis distinct.simps(1) list.map(1) snd_conv)
  obtain sgs where sgs: "extract_parallel_subgraphs 8 2 ex_graph = Some sgs"
    "\<And>s. install_steps (\<lambda>i. True) sgs 2 install_start s \<Longrightarrow> (\<nexists>s'. install_step (\<lambda>i. True) sgs 2 s s') \<Longrightarrow>
      vi_caller s = Finished True \<and>
      mset (concat (map jr_installed_packages (vi_results s))) = mset (map (\<lambda>(k, n). dn_name n @ ''@'' @ dn_version n) ex_graph)"
    using graph_installed [OF g, of 2 8 "\<lambda>i. True"] by auto
  obtain s where s: "install_steps (\<lambda>i. True) sgs 2 install_start s" "\<nexists>s'. install_step (\<lambda>i. True) sgs 2 s s'" using install_run_exists by blast
  have "map (\<lambda>(k, n). dn_name n @ ''@'' @ dn_version n) ex_graph = [''a@1.0.0'', ''b@2.0.1'', ''c@3.0.0'']"
    by (simp add: ex_graph_def DepNode_new_def)
  then have "vi_caller s = Finished True \<and> mset (concat (map jr_installed_packages (vi_results s))) = mset [''a@1.0.0'', ''b@2.0.1'', ''c@3.0.0'']"
    using sgs(2) [OF s] by simp
  then show ?thesis using sgs(1) s(1) by blast
qed

definition ex_subgraphs :: "Subgraph list" where
  "ex_subgraphs = [[DepNode_new\<lparr>dn_name := ''c'', dn_version := ''3''\<rparr>], [DepNode_new\<lparr>dn_name := ''a'', dn_version := ''1''\<rparr>]]"

lemma ex_first_launch:
  "install_steps (\<lambda>i. True) ex_subgraphs 1 install_start
     (install_start\<lparr>vi_active_vms := 1, vi_workers := [Fresh 0], vi_caller := AtLoop 1\<rparr>)"
proof -
  have "install_step (\<lambda>i. True) ex_subgraphs 1 install_start (install_start\<lparr>vi_caller := WaitSlot 0\<rparr>)"
    by (rule install_step.enter) (simp_all add: install_start_def ex_subgraphs_def)
  moreover have "install_step (\<lambda>i. True) ex_subgraphs 1 (install_start\<lparr>vi_caller := WaitSlot 0\<rparr>)
      (install_start\<lparr>vi_active_vms := 1, vi_workers := [Fresh 0], vi_caller := AtLoop 1\<rparr>)"
    using install_step.launch [of "install_start\<lparr>vi_caller := WaitSlot 0\<rparr>" 0 1 "\<lambda>i. True" ex_subgraphs] by (simp add: install_start_def)
  ultimately show ?thesis by (meson converse_rtranclp_into_rtranclp rtranclp.rtrancl_refl)
qed

theorem install_bounded_witness:
  "length (filter (\<lambda>x. x \<noteq> Left) (vi_workers (install_start\<lparr>vi_active_vms := 1, vi_workers := [Fresh 0], vi_caller := AtLoop 1\<rparr>))) \<le> 1"
  using install_bounded [OF ex_first_launch] by simp

end
