(* ===== verification/Warm_Pool.thy ===== *)
theory Warm_Pool
  imports AG_Prelude "HOL-Library.Multiset"
begin

text \<open>
  The pool of pre-booted virtual machines (\<open>src/host/vm_snapshot_pool.cpp\<close>): one replenisher
  thread, any number of callers of \<open>get_warm_vm\<close> and \<open>release_vm\<close>, and the thread that
  destroys the pool. A step is one critical section under \<open>mutex_\<close>, one access to the atomic
  \<open>shutdown_\<close>, one notification outside the lock, or one time-out. A thread that found its
  predicate false still owns the mutex until it sleeps (\<open>WaitBlock\<close>, \<open>GetBlock\<close>), so
  that the steps of other threads that need no mutex can come between the two.
  \<open>notify_one\<close> may wake any sleeper. Spurious wake-ups, which only test the predicate again,
  are left out. A caller releases a machine only while it holds it, and once.

  Shown: no machine is ever in two hands, the pool stays within its size when no caller returns a
  machine for reuse, and the two ways in which the notifications get lost: the destructor can wait
  for ever, and the replenisher can sleep beside an empty pool.
\<close>

section \<open>State\<close>

record WarmVM =
  vm_id :: u32
  is_ready :: bool
  workspace_mount_point :: string

text \<open>Where the replenisher is in \<open>replenish_loop\<close>.\<close>

datatype replenisher = NotStarted | LoopTest | SizeTest | Booting | Pushing WarmVM | WaitTest | WaitBlock | WaitAsleep | LoopExited

text \<open>Where a caller is: in \<open>get_warm_vm\<close>, holding its result, or after \<open>release_vm\<close>.\<close>

datatype caller = GetTest | GetBlock | GetAsleep | GetTimedOut | Holding WarmVM | GotNull | Released

text \<open>Where the owner is in \<open>~VMSnapshotPool\<close>.\<close>

datatype owner = Alive | ShutdownSet | DtorJoining | Destroyed

record VMSnapshotPool =
  kernel_path :: string
  initrd_path :: string
  pool_size :: nat
  shutdown :: bool
  warm_vms :: "WarmVM list"
  next_vm_id :: u32
  replenish_thread :: replenisher
  callers :: "caller list"
  pool_owner :: owner

definition VMSnapshotPool_new :: "string \<Rightarrow> string \<Rightarrow> nat \<Rightarrow> VMSnapshotPool" where
  "VMSnapshotPool_new kernel_image initrd_image n =
     \<lparr>kernel_path = kernel_image, initrd_path = initrd_image, pool_size = n, shutdown = False, warm_vms = [], next_vm_id = 1,
      replenish_thread = NotStarted, callers = [], pool_owner = Alive\<rparr>"

definition available_count :: "VMSnapshotPool \<Rightarrow> nat" where
  "available_count s = length (warm_vms s)"

text \<open>\<open>std::to_string\<close> of a 32-bit \<open>int\<close>.\<close>

definition int_string :: "u32 \<Rightarrow> string" where
  "int_string w = (if sint w < 0 then CHR ''-'' # decimal (nat (- sint w)) else decimal (nat (sint w)))"

text \<open>The machine \<open>boot_one_vm\<close> makes when the pool is not shutting down.\<close>

definition booted_vm :: "VMSnapshotPool \<Rightarrow> WarmVM" where
  "booted_vm s =
     \<lparr>vm_id = next_vm_id s, is_ready = True, workspace_mount_point = ''/tmp/aarchgate/warm_vm_'' @ int_string (next_vm_id s)\<rparr>"

definition boot_one_vm :: "VMSnapshotPool \<Rightarrow> WarmVM option \<times> VMSnapshotPool" where
  "boot_one_vm s = (if shutdown s then (None, s) else (Some (booted_vm s), s\<lparr>next_vm_id := next_vm_id s + 1\<rparr>))"

definition set_caller :: "nat \<Rightarrow> caller \<Rightarrow> VMSnapshotPool \<Rightarrow> VMSnapshotPool" where
  "set_caller c x s = s\<lparr>callers := (callers s)[c := x]\<rparr>"

definition caller_at :: "nat \<Rightarrow> caller \<Rightarrow> VMSnapshotPool \<Rightarrow> bool" where
  "caller_at c x s \<longleftrightarrow> c < length (callers s) \<and> callers s ! c = x"

section \<open>The mutex and the condition variable\<close>

definition mutex_free :: "VMSnapshotPool \<Rightarrow> bool" where
  "mutex_free s \<longleftrightarrow> replenish_thread s \<noteq> WaitBlock \<and> GetBlock \<notin> set (callers s)"

datatype sleeper = ReplenishSleeper | CallerSleeper nat

definition sleepers :: "VMSnapshotPool \<Rightarrow> sleeper list" where
  "sleepers s = (if replenish_thread s = WaitAsleep then [ReplenishSleeper] else []) @
     map CallerSleeper (filter (\<lambda>c. callers s ! c = GetAsleep) [0..<length (callers s)])"

fun wake :: "sleeper \<Rightarrow> VMSnapshotPool \<Rightarrow> VMSnapshotPool" where
  "wake ReplenishSleeper s = s\<lparr>replenish_thread := WaitTest\<rparr>"
| "wake (CallerSleeper c) s = set_caller c GetTest s"

text \<open>The states \<open>cv_.notify_one()\<close> can lead to, and the one \<open>cv_.notify_all()\<close> leads to.\<close>

definition cv_notify_one :: "VMSnapshotPool \<Rightarrow> VMSnapshotPool list" where
  "cv_notify_one s = (if sleepers s = [] then [s] else map (\<lambda>t. wake t s) (sleepers s))"

definition cv_notify_all :: "VMSnapshotPool \<Rightarrow> VMSnapshotPool" where
  "cv_notify_all s = s\<lparr>replenish_thread := (if replenish_thread s = WaitAsleep then WaitTest else replenish_thread s),
     callers := map (\<lambda>x. if x = GetAsleep then GetTest else x) (callers s)\<rparr>"

section \<open>Steps\<close>

definition wait_pred :: "VMSnapshotPool \<Rightarrow> bool" where
  "wait_pred s \<longleftrightarrow> length (warm_vms s) < pool_size s \<or> shutdown s"

definition get_pred :: "VMSnapshotPool \<Rightarrow> bool" where
  "get_pred s \<longleftrightarrow> warm_vms s \<noteq> [] \<or> shutdown s"

text \<open>
  The critical sections of \<open>get_warm_vm\<close> after its wait (the result, and the pool before the
  notification) and of \<open>release_vm\<close>.
\<close>

definition get_take :: "VMSnapshotPool \<Rightarrow> WarmVM option \<times> VMSnapshotPool" where
  "get_take s = (if warm_vms s = [] then (None, s) else (Some (last (warm_vms s)), s\<lparr>warm_vms := butlast (warm_vms s)\<rparr>))"

definition release_vm :: "WarmVM option \<Rightarrow> bool \<Rightarrow> VMSnapshotPool \<Rightarrow> VMSnapshotPool list" where
  "release_vm v reuse s = (case v of None \<Rightarrow> [s]
     | Some vm \<Rightarrow> cv_notify_one (if reuse then s\<lparr>warm_vms := warm_vms s @ [vm]\<rparr> else s))"

text \<open>\<open>may_reuse\<close> says whether callers may release with \<open>reuse = true\<close>.\<close>

inductive vm_step :: "bool \<Rightarrow> VMSnapshotPool \<Rightarrow> VMSnapshotPool \<Rightarrow> bool" for may_reuse where
  start_warming: "replenish_thread s = NotStarted \<Longrightarrow> pool_owner s = Alive \<Longrightarrow> vm_step may_reuse s (s\<lparr>replenish_thread := LoopTest\<rparr>)"
| loop_test: "replenish_thread s = LoopTest \<Longrightarrow>
    vm_step may_reuse s (s\<lparr>replenish_thread := (if shutdown s then LoopExited else SizeTest)\<rparr>)"
| size_test: "replenish_thread s = SizeTest \<Longrightarrow> mutex_free s \<Longrightarrow>
    vm_step may_reuse s (s\<lparr>replenish_thread := (if length (warm_vms s) < pool_size s then Booting else WaitTest)\<rparr>)"
| boot: "replenish_thread s = Booting \<Longrightarrow> boot_one_vm s = (v, s') \<Longrightarrow>
    vm_step may_reuse s (s'\<lparr>replenish_thread := (case v of None \<Rightarrow> LoopTest | Some vm \<Rightarrow> Pushing vm)\<rparr>)"
| push: "replenish_thread s = Pushing vm \<Longrightarrow> mutex_free s \<Longrightarrow>
    s' \<in> set (cv_notify_one (s\<lparr>warm_vms := warm_vms s @ [vm], replenish_thread := LoopTest\<rparr>)) \<Longrightarrow> vm_step may_reuse s s'"
| wait_test: "replenish_thread s = WaitTest \<Longrightarrow> mutex_free s \<Longrightarrow>
    vm_step may_reuse s (s\<lparr>replenish_thread := (if wait_pred s then LoopTest else WaitBlock)\<rparr>)"
| wait_sleep: "replenish_thread s = WaitBlock \<Longrightarrow> vm_step may_reuse s (s\<lparr>replenish_thread := WaitAsleep\<rparr>)"
| get_call: "pool_owner s = Alive \<Longrightarrow> vm_step may_reuse s (s\<lparr>callers := callers s @ [GetTest]\<rparr>)"
| get_block: "caller_at c GetTest s \<Longrightarrow> mutex_free s \<Longrightarrow> \<not> get_pred s \<Longrightarrow> vm_step may_reuse s (set_caller c GetBlock s)"
| get_sleep: "caller_at c GetBlock s \<Longrightarrow> vm_step may_reuse s (set_caller c GetAsleep s)"
| get_timeout: "caller_at c GetAsleep s \<Longrightarrow> vm_step may_reuse s (set_caller c GetTimedOut s)"
| get_null: "caller_at c GetTest s \<and> get_pred s \<or> caller_at c GetTimedOut s \<Longrightarrow> mutex_free s \<Longrightarrow> get_take s = (None, s') \<Longrightarrow>
    vm_step may_reuse s (set_caller c GotNull s')"
| get_vm: "caller_at c GetTest s \<or> caller_at c GetTimedOut s \<Longrightarrow> mutex_free s \<Longrightarrow> get_take s = (Some vm, s') \<Longrightarrow>
    s'' \<in> set (cv_notify_one (set_caller c (Holding vm) s')) \<Longrightarrow> vm_step may_reuse s s''"
| release: "caller_at c (Holding vm) s \<Longrightarrow> mutex_free s \<Longrightarrow> (reuse \<Longrightarrow> may_reuse) \<Longrightarrow>
    s' \<in> set (release_vm (Some vm) reuse (set_caller c Released s)) \<Longrightarrow> vm_step may_reuse s s'"
| dtor_shutdown: "pool_owner s = Alive \<Longrightarrow> vm_step may_reuse s (s\<lparr>shutdown := True, pool_owner := ShutdownSet\<rparr>)"
| dtor_notify: "pool_owner s = ShutdownSet \<Longrightarrow> vm_step may_reuse s (cv_notify_all (s\<lparr>pool_owner := DtorJoining\<rparr>))"
| dtor_join: "pool_owner s = DtorJoining \<Longrightarrow> replenish_thread s \<in> {NotStarted, LoopExited} \<Longrightarrow>
    vm_step may_reuse s (s\<lparr>pool_owner := Destroyed\<rparr>)"

abbreviation vm_steps :: "bool \<Rightarrow> VMSnapshotPool \<Rightarrow> VMSnapshotPool \<Rightarrow> bool" where
  "vm_steps may_reuse \<equiv> (vm_step may_reuse)\<^sup>*\<^sup>*"

section \<open>No machine in two hands\<close>

fun replenisher_vms :: "replenisher \<Rightarrow> WarmVM list" where
  "replenisher_vms (Pushing vm) = [vm]"
| "replenisher_vms _ = []"

fun caller_vms :: "caller \<Rightarrow> WarmVM list" where
  "caller_vms (Holding vm) = [vm]"
| "caller_vms _ = []"

text \<open>The machines in the pool, on their way into it, and with the callers.\<close>

definition live_vms :: "VMSnapshotPool \<Rightarrow> WarmVM list" where
  "live_vms s = warm_vms s @ replenisher_vms (replenish_thread s) @ concat (map caller_vms (callers s))"

lemma mset_concat_update:
  "c < length xs \<Longrightarrow> mset (concat (map f (xs[c := x]))) + mset (f (xs ! c)) = mset (concat (map f xs)) + mset (f x)"
proof (induction xs arbitrary: c)
  case (Cons y ys)
  then show ?case by (cases c) (auto simp: ac_simps)
qed simp

lemma live_set_caller:
  assumes "caller_at c x s"
  shows "mset (live_vms (set_caller c y s)) + mset (caller_vms x) = mset (live_vms s) + mset (caller_vms y)"
  using assms mset_concat_update [of c "callers s" caller_vms y] by (simp add: live_vms_def set_caller_def caller_at_def add.assoc)

lemma sleepers_asleep:
  "ReplenishSleeper \<in> set (sleepers s) \<longleftrightarrow> replenish_thread s = WaitAsleep"
  "CallerSleeper c \<in> set (sleepers s) \<longleftrightarrow> caller_at c GetAsleep s"
  by (auto simp: sleepers_def caller_at_def)

lemma wake_keeps:
  assumes "t \<in> set (sleepers s)"
  shows "mset (live_vms (wake t s)) = mset (live_vms s)" "warm_vms (wake t s) = warm_vms s" "next_vm_id (wake t s) = next_vm_id s"
    "pool_size (wake t s) = pool_size s" "replenisher_vms (replenish_thread (wake t s)) = replenisher_vms (replenish_thread s)"
    "replenish_thread (wake t s) = Booting \<longleftrightarrow> replenish_thread s = Booting"
proof -
  consider "t = ReplenishSleeper" "replenish_thread s = WaitAsleep" | c where "t = CallerSleeper c" "caller_at c GetAsleep s"
    by (cases t) (use assms in \<open>auto simp: sleepers_asleep\<close>)
  then have keep: "mset (live_vms (wake t s)) = mset (live_vms s) \<and> warm_vms (wake t s) = warm_vms s \<and> next_vm_id (wake t s) = next_vm_id s \<and>
    pool_size (wake t s) = pool_size s \<and> replenisher_vms (replenish_thread (wake t s)) = replenisher_vms (replenish_thread s) \<and>
    (replenish_thread (wake t s) = Booting \<longleftrightarrow> replenish_thread s = Booting)"
  proof cases
    case 1
    then show ?thesis by (simp add: live_vms_def)
  next
    case (2 c)
    then show ?thesis using live_set_caller [OF 2(2), of GetTest] by (simp add: set_caller_def)
  qed
  then show "mset (live_vms (wake t s)) = mset (live_vms s)" "warm_vms (wake t s) = warm_vms s" "next_vm_id (wake t s) = next_vm_id s"
    "pool_size (wake t s) = pool_size s" "replenisher_vms (replenish_thread (wake t s)) = replenisher_vms (replenish_thread s)"
    "replenish_thread (wake t s) = Booting \<longleftrightarrow> replenish_thread s = Booting" by simp_all
qed

lemma notify_one_keeps:
  assumes "s' \<in> set (cv_notify_one s)"
  shows "mset (live_vms s') = mset (live_vms s)" "warm_vms s' = warm_vms s" "next_vm_id s' = next_vm_id s"
    "pool_size s' = pool_size s" "replenisher_vms (replenish_thread s') = replenisher_vms (replenish_thread s)"
    "replenish_thread s' = Booting \<longleftrightarrow> replenish_thread s = Booting"
  using assms wake_keeps [of _ s] by (auto simp: cv_notify_one_def split: if_splits)

lemma notify_all_keeps:
  "live_vms (cv_notify_all s) = live_vms s" "next_vm_id (cv_notify_all s) = next_vm_id s"
proof -
  have "concat (map caller_vms (map (\<lambda>x. if x = GetAsleep then GetTest else x) cs)) = concat (map caller_vms cs)" for cs
    by (induction cs) auto
  then show "live_vms (cv_notify_all s) = live_vms s"
    by (simp only: live_vms_def cv_notify_all_def) simp
qed (simp add: cv_notify_all_def)

text \<open>A step creates at most one machine, under the next identifier, and may drop a released one.\<close>

definition fresh_boot :: "VMSnapshotPool \<Rightarrow> VMSnapshotPool \<Rightarrow> bool" where
  "fresh_boot s s' \<longleftrightarrow> mset (live_vms s') = add_mset (booted_vm s) (mset (live_vms s)) \<and> next_vm_id s' = next_vm_id s + 1"

lemma vm_step_live:
  "vm_step may_reuse s s' \<Longrightarrow> fresh_boot s s' \<or> mset (live_vms s') \<subseteq># mset (live_vms s) \<and> next_vm_id s' = next_vm_id s"
proof (induction rule: vm_step.induct)
  case (boot s v s')
  then show ?case by (auto simp: boot_one_vm_def fresh_boot_def live_vms_def split: if_splits)
next
  case (push s vm s')
  then show ?case using notify_one_keeps [OF push(3)] by (simp add: live_vms_def)
next
  case (get_vm c s vm s' s'')
  let ?n = "set_caller c (Holding vm) s'"
  have take: "warm_vms s \<noteq> []" "vm = last (warm_vms s)" "s' = s\<lparr>warm_vms := butlast (warm_vms s)\<rparr>"
    using get_vm(3) by (auto simp: get_take_def split: if_splits)
  then obtain x where x: "caller_at c x s'" "caller_vms x = []" using get_vm(1) by (auto simp: caller_at_def)
  have "mset (warm_vms s) = add_mset vm (mset (butlast (warm_vms s)))"
    using take(1,2) by (metis append_butlast_last_id mset_append mset.simps add.commute add_mset_add_single union_commute)
  then have "mset (live_vms s) = add_mset vm (mset (live_vms s'))" using take(3) by (simp add: live_vms_def)
  then have "mset (live_vms ?n) = mset (live_vms s)" using live_set_caller [OF x(1), of "Holding vm"] x(2) by simp
  then show ?case using notify_one_keeps [OF get_vm(4)] take(3) by (simp add: set_caller_def)
next
  case (release c vm s reuse s')
  let ?r = "set_caller c Released s"
  have "mset (live_vms s) = add_mset vm (mset (live_vms ?r))"
    using live_set_caller [OF release(1), of Released] by simp
  moreover have "s' \<in> set (cv_notify_one (if reuse then ?r\<lparr>warm_vms := warm_vms ?r @ [vm]\<rparr> else ?r))"
    using release(4) by (simp add: release_vm_def)
  ultimately show ?case
    using notify_one_keeps [of s'] by (cases reuse) (auto simp: live_vms_def set_caller_def)
next
  case (get_block c s)
  then show ?case using live_set_caller [OF get_block(1), of GetBlock] by (simp add: set_caller_def)
next
  case (get_sleep c s)
  then show ?case using live_set_caller [OF get_sleep(1), of GetAsleep] by (simp add: set_caller_def)
next
  case (get_timeout c s)
  then show ?case using live_set_caller [OF get_timeout(1), of GetTimedOut] by (simp add: set_caller_def)
next
  case (get_null c s s')
  then obtain x where "caller_at c x s" "caller_vms x = []" by auto
  moreover have "s' = s" using get_null(3) by (auto simp: get_take_def split: if_splits)
  ultimately show ?case using live_set_caller [of c x s GotNull] by (simp add: set_caller_def)
qed (auto simp: live_vms_def notify_all_keeps [unfolded live_vms_def])

lemma distinct_mset_subseteq: "mset xs \<subseteq># mset ys \<Longrightarrow> distinct ys \<Longrightarrow> distinct xs"
proof (rule ccontr)
  assume sub: "mset xs \<subseteq># mset ys" and ys: "distinct ys" and "\<not> distinct xs"
  then obtain a where "count (mset xs) a > 1"
    by (metis distinct_count_atmost_1 count_eq_zero_iff less_one linorder_neqE_nat set_mset_mset)
  moreover have "count (mset xs) a \<le> count (mset ys) a" using sub by (rule mset_subset_eq_count)
  moreover have "count (mset ys) a \<le> 1" using ys by (auto simp: distinct_count_atmost_1)
  ultimately show False by simp
qed

text \<open>After \<open>n\<close> steps the identifiers in use are distinct and below the next one, which has not wrapped.\<close>

definition ids_ok :: "nat \<Rightarrow> VMSnapshotPool \<Rightarrow> bool" where
  "ids_ok n s \<longleftrightarrow> distinct (map vm_id (live_vms s)) \<and> (\<forall>vm \<in> set (live_vms s). vm_id vm < next_vm_id s) \<and> unat (next_vm_id s) \<le> n + 1"

lemma ids_ok_step:
  assumes ok: "ids_ok n s" and step: "vm_step may_reuse s s'" and n: "n + 2 < 2 ^ 32"
  shows "ids_ok (Suc n) s'"
proof (cases "fresh_boot s s'")
  case True
  have "unat (next_vm_id s) + 1 < 2 ^ 32" using ok n by (simp add: ids_ok_def)
  then have up: "unat (next_vm_id s + 1) = unat (next_vm_id s) + 1" by (simp add: unat_word_ariths)
  have live: "mset (live_vms s') = mset (booted_vm s # live_vms s)" and nxt: "next_vm_id s' = next_vm_id s + 1"
    using True by (simp_all add: fresh_boot_def)
  have "vm_id (booted_vm s) = next_vm_id s" by (simp add: booted_vm_def)
  then have "distinct (map vm_id (booted_vm s # live_vms s))" using ok by (auto simp: ids_ok_def)
  moreover have "mset (map vm_id (live_vms s')) = mset (map vm_id (booted_vm s # live_vms s))" using live by (metis mset_map)
  ultimately have d: "distinct (map vm_id (live_vms s'))" using mset_eq_imp_distinct_iff by blast
  have "vm_id vm < next_vm_id s'" if "vm \<in> set (live_vms s')" for vm
  proof -
    have "vm \<in> set (booted_vm s # live_vms s)" using that mset_eq_setD [OF live] by blast
    then have "vm_id vm \<le> next_vm_id s" using ok by (auto simp: ids_ok_def booted_vm_def)
    then show ?thesis using up nxt by (simp add: word_less_nat_alt word_le_nat_alt)
  qed
  then show ?thesis using d up nxt ok by (simp add: ids_ok_def)
next
  case False
  then have sub: "mset (live_vms s') \<subseteq># mset (live_vms s)" and nxt: "next_vm_id s' = next_vm_id s"
    using vm_step_live [OF step] by simp_all
  have "mset (map vm_id (live_vms s')) \<subseteq># mset (map vm_id (live_vms s))" using sub by (simp add: image_mset_subseteq_mono)
  then have "distinct (map vm_id (live_vms s'))" by (rule distinct_mset_subseteq) (use ok in \<open>simp add: ids_ok_def\<close>)
  moreover have "set (live_vms s') \<subseteq> set (live_vms s)" using sub by (metis set_mset_mono set_mset_mset)
  ultimately show ?thesis using ok nxt by (auto simp: ids_ok_def)
qed

lemma ids_ok_new: "ids_ok 0 (VMSnapshotPool_new k i n)"
  by (simp add: ids_ok_def live_vms_def VMSnapshotPool_new_def)

lemma ids_ok_steps:
  "(vm_step may_reuse ^^ n) (VMSnapshotPool_new k i m) s \<Longrightarrow> n + 1 < 2 ^ 32 \<Longrightarrow> ids_ok n s"
proof (induction n arbitrary: s)
  case (Suc n)
  from Suc.prems(1) obtain s' where "(vm_step may_reuse ^^ n) (VMSnapshotPool_new k i m) s'" "vm_step may_reuse s' s"
    by (rule relpowp_Suc_E)
  then show ?case using Suc.IH [of s'] Suc.prems(2) ids_ok_step by simp
qed (simp add: ids_ok_new)

section \<open>The size of the pool\<close>

definition size_ok :: "VMSnapshotPool \<Rightarrow> bool" where
  "size_ok s \<longleftrightarrow> length (warm_vms s) + length (replenisher_vms (replenish_thread s)) \<le> pool_size s \<and>
     (replenish_thread s = Booting \<longrightarrow> length (warm_vms s) < pool_size s)"

lemma size_ok_notify: "s' \<in> set (cv_notify_one s) \<Longrightarrow> size_ok s' \<longleftrightarrow> size_ok s"
  using notify_one_keeps [of s' s] by (simp add: size_ok_def)

lemma size_ok_set_caller [simp]: "size_ok (set_caller c x s) \<longleftrightarrow> size_ok s"
  by (simp add: size_ok_def set_caller_def)

lemma size_ok_step: "vm_step False s s' \<Longrightarrow> size_ok s \<Longrightarrow> size_ok s'"
proof (induction rule: vm_step.induct)
  case (push s vm s')
  then show ?case using size_ok_notify [OF push(3)] by (simp add: size_ok_def)
next
  case (get_vm c s vm s' s'')
  then have "size_ok s'" by (auto simp: size_ok_def get_take_def split: if_splits)
  then show ?case using size_ok_notify [OF get_vm(4)] by simp
next
  case (release c vm s reuse s')
  then show ?case using size_ok_notify [of s' "set_caller c Released s"] by (cases reuse) (auto simp: release_vm_def)
next
  case (boot s v s')
  then show ?case by (auto simp: size_ok_def boot_one_vm_def split: if_splits)
next
  case (get_null c s s')
  then show ?case by (auto simp: get_take_def split: if_splits)
qed (auto simp: size_ok_def cv_notify_all_def set_caller_def)

lemma pool_size_step: "vm_step may_reuse s s' \<Longrightarrow> pool_size s' = pool_size s"
  by (induction rule: vm_step.induct)
    (auto simp: set_caller_def boot_one_vm_def get_take_def release_vm_def cv_notify_all_def split: if_splits dest!: notify_one_keeps(4))

lemma pool_size_steps: "vm_steps may_reuse s s' \<Longrightarrow> pool_size s' = pool_size s"
  by (induction rule: rtranclp_induct) (auto dest: pool_size_step)

lemma size_ok_steps: "vm_steps False s s' \<Longrightarrow> size_ok s \<Longrightarrow> size_ok s'"
  by (induction rule: rtranclp_induct) (auto intro: size_ok_step)

section \<open>Lost notifications\<close>

text \<open>The states in which the replenisher of an unused pool is back at the head of its loop with \<open>j\<close> machines.\<close>

definition warming :: "nat \<Rightarrow> nat \<Rightarrow> VMSnapshotPool \<Rightarrow> bool" where
  "warming n j s \<longleftrightarrow> pool_size s = n \<and> length (warm_vms s) = j \<and> callers s = [] \<and> \<not> shutdown s \<and> pool_owner s = Alive \<and> replenish_thread s = LoopTest"

lemma warming_one_more:
  assumes w: "warming n j s" and "j < n"
  shows "\<exists>s'. vm_steps r s s' \<and> warming n (Suc j) s'"
proof -
  let ?b = "s\<lparr>replenish_thread := SizeTest\<rparr>"
  let ?c = "s\<lparr>replenish_thread := Booting\<rparr>"
  let ?d = "s\<lparr>next_vm_id := next_vm_id s + 1, replenish_thread := Pushing (booted_vm s)\<rparr>"
  let ?e = "s\<lparr>next_vm_id := next_vm_id s + 1, warm_vms := warm_vms s @ [booted_vm s], replenish_thread := LoopTest\<rparr>"
  have "vm_step r s ?b" using vm_step.loop_test [of s r] w by (simp add: warming_def)
  moreover have "vm_step r ?b ?c" using vm_step.size_test [of ?b r] assms by (simp add: warming_def mutex_free_def)
  moreover have "vm_step r ?c ?d" using vm_step.boot [of ?c "Some (booted_vm s)" "?c\<lparr>next_vm_id := next_vm_id s + 1\<rparr>" r] w
    by (simp add: boot_one_vm_def warming_def booted_vm_def)
  moreover have "vm_step r ?d ?e"
    using w by (intro vm_step.push [of _ "booted_vm s"]) (simp_all add: mutex_free_def warming_def cv_notify_one_def sleepers_def)
  ultimately have "vm_steps r s ?e" by (meson converse_rtranclp_into_rtranclp rtranclp.rtrancl_refl)
  moreover have "warming n (Suc j) ?e" using w by (simp add: warming_def)
  ultimately show ?thesis by blast
qed

lemma warming_reachable: "j \<le> n \<Longrightarrow> \<exists>s. vm_steps r (VMSnapshotPool_new k i n) s \<and> warming n j s"
proof (induction j)
  case 0
  let ?s = "VMSnapshotPool_new k i n"
  have "vm_step r ?s (?s\<lparr>replenish_thread := LoopTest\<rparr>)" by (rule vm_step.start_warming) (simp_all add: VMSnapshotPool_new_def)
  moreover have "warming n 0 (?s\<lparr>replenish_thread := LoopTest\<rparr>)" by (simp add: warming_def VMSnapshotPool_new_def)
  ultimately show ?case by blast
next
  case (Suc j)
  then obtain s where "vm_steps r (VMSnapshotPool_new k i n) s" "warming n j s" by auto
  then show ?case using warming_one_more [of n j s r] Suc.prems by (meson Suc_le_eq rtranclp_trans)
qed

lemma full_pool_blocks:
  assumes w: "warming n n s"
  shows "vm_steps r s (s\<lparr>replenish_thread := WaitBlock\<rparr>)"
proof -
  let ?b = "s\<lparr>replenish_thread := SizeTest\<rparr>"
  let ?c = "s\<lparr>replenish_thread := WaitTest\<rparr>"
  have "vm_step r s ?b" using vm_step.loop_test [of s r] w by (simp add: warming_def)
  moreover have "vm_step r ?b ?c" using vm_step.size_test [of ?b r] w by (simp add: warming_def mutex_free_def)
  moreover have "vm_step r ?c (s\<lparr>replenish_thread := WaitBlock\<rparr>)"
    using vm_step.wait_test [of ?c r] w by (simp add: warming_def mutex_free_def wait_pred_def)
  ultimately show ?thesis by (meson converse_rtranclp_into_rtranclp rtranclp.rtrancl_refl)
qed

text \<open>The destructor stores \<open>shutdown_\<close> and notifies before the replenisher, which saw the old value, sleeps.\<close>

lemma shutdown_overtakes:
  assumes "pool_owner s = Alive" and "callers s = []" and "replenish_thread s = WaitBlock"
  shows "vm_steps r s (s\<lparr>shutdown := True, pool_owner := DtorJoining, replenish_thread := WaitAsleep\<rparr>)"
proof -
  let ?a = "s\<lparr>shutdown := True, pool_owner := ShutdownSet\<rparr>"
  let ?b = "s\<lparr>shutdown := True, pool_owner := DtorJoining\<rparr>"
  have "vm_step r s ?a" using assms by (intro vm_step.dtor_shutdown)
  moreover have "cv_notify_all (?a\<lparr>pool_owner := DtorJoining\<rparr>) = ?b" using assms by (cases s) (simp add: cv_notify_all_def)
  then have "vm_step r ?a ?b" using vm_step.dtor_notify [of ?a r] by simp
  moreover have "vm_step r ?b (?b\<lparr>replenish_thread := WaitAsleep\<rparr>)" using assms by (intro vm_step.wait_sleep) simp
  ultimately show ?thesis by (simp add: converse_rtranclp_into_rtranclp)
qed

lemma join_stuck:
  "pool_owner s = DtorJoining \<Longrightarrow> callers s = [] \<Longrightarrow> replenish_thread s = WaitAsleep \<Longrightarrow> \<not> vm_step r s s'"
  by (auto elim!: vm_step.cases simp: caller_at_def)

text \<open>The pool is empty, not shutting down, and its replenisher sleeps.\<close>

definition starved :: "VMSnapshotPool \<Rightarrow> bool" where
  "starved s \<longleftrightarrow> warm_vms s = [] \<and> \<not> shutdown s \<and> pool_owner s = Alive \<and> replenish_thread s = WaitAsleep"

lemma notify_keeps_released: "s' \<in> set (cv_notify_one s) \<Longrightarrow> caller_at c Released s \<Longrightarrow> caller_at c Released s'"
proof -
  assume s': "s' \<in> set (cv_notify_one s)" and c: "caller_at c Released s"
  have "caller_at c Released (wake t s)" if "t \<in> set (sleepers s)" for t
    by (cases t) (use that c in \<open>auto simp: sleepers_asleep caller_at_def set_caller_def nth_list_update\<close>)
  then show ?thesis using s' c by (auto simp: cv_notify_one_def split: if_splits)
qed

text \<open>Steps other than a release and those of the destructor.\<close>

definition quiet_step :: "bool \<Rightarrow> VMSnapshotPool \<Rightarrow> VMSnapshotPool \<Rightarrow> bool" where
  "quiet_step r s s' \<longleftrightarrow> vm_step r s s' \<and> \<not> shutdown s' \<and> (\<forall>c vm. caller_at c (Holding vm) s \<longrightarrow> \<not> caller_at c Released s')"

lemma starved_step:
  assumes "quiet_step r s s'" and "starved s"
  shows "starved s'"
proof -
  have "vm_step r s s'" using assms(1) by (simp add: quiet_step_def)
  then show ?thesis
  proof (cases rule: vm_step.cases)
    case (release c vm reuse)
    have "caller_at c Released (set_caller c Released s)" using release(1) by (simp add: caller_at_def set_caller_def)
    then have "caller_at c Released (if reuse then set_caller c Released s\<lparr>warm_vms := warm_vms (set_caller c Released s) @ [vm]\<rparr> else set_caller c Released s)"
      by (simp add: caller_at_def)
    then have "caller_at c Released s'" using release(4) notify_keeps_released by (simp add: release_vm_def)
    then show ?thesis using assms(1) release(1) by (auto simp: quiet_step_def)
  qed (use assms in \<open>auto simp: starved_def quiet_step_def set_caller_def get_take_def split: if_splits\<close>)
qed

lemma starved_steps: "(quiet_step r)\<^sup>*\<^sup>* s s' \<Longrightarrow> starved s \<Longrightarrow> starved s'"
  by (induction rule: rtranclp_induct) (auto intro: starved_step)

text \<open>
  A pool of one machine and two callers: the push wakes caller 0, the replenisher sleeps before
  caller 0 runs, and the notification of caller 0 goes to caller 1 instead of the replenisher.
\<close>

definition duel :: "string \<Rightarrow> string \<Rightarrow> WarmVM list \<Rightarrow> u32 \<Rightarrow> replenisher \<Rightarrow> caller list \<Rightarrow> VMSnapshotPool" where
  "duel k i ws j t cs = \<lparr>kernel_path = k, initrd_path = i, pool_size = 1, shutdown = False, warm_vms = ws, next_vm_id = j,
     replenish_thread = t, callers = cs, pool_owner = Alive\<rparr>"

lemmas duel_simps = duel_def mutex_free_def get_pred_def wait_pred_def caller_at_def set_caller_def boot_one_vm_def get_take_def
  cv_notify_one_def sleepers_def

definition duel_vm :: WarmVM where
  "duel_vm = booted_vm (duel [] [] [] 1 NotStarted [])"

lemma duel_callers_sleep: "vm_steps r (VMSnapshotPool_new k i 1) (duel k i [] 1 LoopTest [GetAsleep, GetAsleep])"
proof -
  have "vm_steps r (VMSnapshotPool_new k i 1) (duel k i [] 1 LoopTest [])"
    using vm_step.start_warming [of "VMSnapshotPool_new k i 1" r] by (intro r_into_rtranclp) (simp add: VMSnapshotPool_new_def duel_def)
  also have "vm_steps r (duel k i [] 1 LoopTest []) (duel k i [] 1 LoopTest [GetTest])"
    using vm_step.get_call [of "duel k i [] 1 LoopTest []" r] by (intro r_into_rtranclp) (simp add: duel_simps)
  also have "vm_steps r (duel k i [] 1 LoopTest [GetTest]) (duel k i [] 1 LoopTest [GetBlock])"
    using vm_step.get_block [of 0 "duel k i [] 1 LoopTest [GetTest]" r] by (intro r_into_rtranclp) (simp add: duel_simps)
  also have "vm_steps r (duel k i [] 1 LoopTest [GetBlock]) (duel k i [] 1 LoopTest [GetAsleep])"
    using vm_step.get_sleep [of 0 "duel k i [] 1 LoopTest [GetBlock]" r] by (intro r_into_rtranclp) (simp add: duel_simps)
  also have "vm_steps r (duel k i [] 1 LoopTest [GetAsleep]) (duel k i [] 1 LoopTest [GetAsleep, GetTest])"
    using vm_step.get_call [of "duel k i [] 1 LoopTest [GetAsleep]" r] by (intro r_into_rtranclp) (simp add: duel_simps)
  also have "vm_steps r (duel k i [] 1 LoopTest [GetAsleep, GetTest]) (duel k i [] 1 LoopTest [GetAsleep, GetBlock])"
    using vm_step.get_block [of 1 "duel k i [] 1 LoopTest [GetAsleep, GetTest]" r] by (intro r_into_rtranclp) (simp add: duel_simps)
  also have "vm_steps r (duel k i [] 1 LoopTest [GetAsleep, GetBlock]) (duel k i [] 1 LoopTest [GetAsleep, GetAsleep])"
    using vm_step.get_sleep [of 1 "duel k i [] 1 LoopTest [GetAsleep, GetBlock]" r] by (intro r_into_rtranclp) (simp add: duel_simps)
  finally show ?thesis .
qed

lemma duel_starves: "vm_steps r (duel k i [] 1 LoopTest [GetAsleep, GetAsleep]) (duel k i [] 2 WaitAsleep [Holding duel_vm, GetAsleep])"
proof -
  have "vm_steps r (duel k i [] 1 LoopTest [GetAsleep, GetAsleep]) (duel k i [] 1 SizeTest [GetAsleep, GetAsleep])"
    using vm_step.loop_test [of "duel k i [] 1 LoopTest [GetAsleep, GetAsleep]" r] by (intro r_into_rtranclp) (simp add: duel_simps)
  also have "vm_steps r (duel k i [] 1 SizeTest [GetAsleep, GetAsleep]) (duel k i [] 1 Booting [GetAsleep, GetAsleep])"
    using vm_step.size_test [of "duel k i [] 1 SizeTest [GetAsleep, GetAsleep]" r] by (intro r_into_rtranclp) (simp add: duel_simps)
  also have "vm_steps r (duel k i [] 1 Booting [GetAsleep, GetAsleep]) (duel k i [] 2 (Pushing duel_vm) [GetAsleep, GetAsleep])"
    using vm_step.boot [of "duel k i [] 1 Booting [GetAsleep, GetAsleep]" "Some duel_vm" "duel k i [] 2 Booting [GetAsleep, GetAsleep]" r] by (intro r_into_rtranclp) (simp add: duel_simps duel_vm_def booted_vm_def)
  also have "vm_steps r (duel k i [] 2 (Pushing duel_vm) [GetAsleep, GetAsleep]) (duel k i [duel_vm] 2 LoopTest [GetTest, GetAsleep])"
    using vm_step.push [of "duel k i [] 2 (Pushing duel_vm) [GetAsleep, GetAsleep]" duel_vm "duel k i [duel_vm] 2 LoopTest [GetTest, GetAsleep]" r] by (intro r_into_rtranclp) (simp add: duel_simps)
  also have "vm_steps r (duel k i [duel_vm] 2 LoopTest [GetTest, GetAsleep]) (duel k i [duel_vm] 2 SizeTest [GetTest, GetAsleep])"
    using vm_step.loop_test [of "duel k i [duel_vm] 2 LoopTest [GetTest, GetAsleep]" r] by (intro r_into_rtranclp) (simp add: duel_simps)
  also have "vm_steps r (duel k i [duel_vm] 2 SizeTest [GetTest, GetAsleep]) (duel k i [duel_vm] 2 WaitTest [GetTest, GetAsleep])"
    using vm_step.size_test [of "duel k i [duel_vm] 2 SizeTest [GetTest, GetAsleep]" r] by (intro r_into_rtranclp) (simp add: duel_simps)
  also have "vm_steps r (duel k i [duel_vm] 2 WaitTest [GetTest, GetAsleep]) (duel k i [duel_vm] 2 WaitBlock [GetTest, GetAsleep])"
    using vm_step.wait_test [of "duel k i [duel_vm] 2 WaitTest [GetTest, GetAsleep]" r] by (intro r_into_rtranclp) (simp add: duel_simps)
  also have "vm_steps r (duel k i [duel_vm] 2 WaitBlock [GetTest, GetAsleep]) (duel k i [duel_vm] 2 WaitAsleep [GetTest, GetAsleep])"
    using vm_step.wait_sleep [of "duel k i [duel_vm] 2 WaitBlock [GetTest, GetAsleep]" r] by (intro r_into_rtranclp) (simp add: duel_simps)
  also have "vm_steps r (duel k i [duel_vm] 2 WaitAsleep [GetTest, GetAsleep]) (duel k i [] 2 WaitAsleep [Holding duel_vm, GetTest])"
    using vm_step.get_vm [of 0 "duel k i [duel_vm] 2 WaitAsleep [GetTest, GetAsleep]" duel_vm "duel k i [] 2 WaitAsleep [GetTest, GetAsleep]" "duel k i [] 2 WaitAsleep [Holding duel_vm, GetTest]" r] by (intro r_into_rtranclp) (simp add: duel_simps)
  also have "vm_steps r (duel k i [] 2 WaitAsleep [Holding duel_vm, GetTest]) (duel k i [] 2 WaitAsleep [Holding duel_vm, GetBlock])"
    using vm_step.get_block [of 1 "duel k i [] 2 WaitAsleep [Holding duel_vm, GetTest]" r] by (intro r_into_rtranclp) (simp add: duel_simps)
  also have "vm_steps r (duel k i [] 2 WaitAsleep [Holding duel_vm, GetBlock]) (duel k i [] 2 WaitAsleep [Holding duel_vm, GetAsleep])"
    using vm_step.get_sleep [of 1 "duel k i [] 2 WaitAsleep [Holding duel_vm, GetBlock]" r] by (intro r_into_rtranclp) (simp add: duel_simps)
  finally show ?thesis .
qed

text \<open>One machine handed out, the next one booted behind it.\<close>

definition duel_vm2 :: WarmVM where
  "duel_vm2 = booted_vm (duel [] [] [] 2 NotStarted [])"

lemma handover_run: "(vm_step r ^^ 10) (VMSnapshotPool_new k i 1) (duel k i [] 3 (Pushing duel_vm2) [Holding duel_vm])"
proof -
  have s0: "vm_step r (VMSnapshotPool_new k i 1) (duel k i [] 1 LoopTest [])"
    using vm_step.start_warming [of "VMSnapshotPool_new k i 1" r] by (simp add: VMSnapshotPool_new_def duel_def)
  have s1: "vm_step r (duel k i [] 1 LoopTest []) (duel k i [] 1 SizeTest [])"
    using vm_step.loop_test [of "duel k i [] 1 LoopTest []" r] by (simp add: duel_simps)
  have s2: "vm_step r (duel k i [] 1 SizeTest []) (duel k i [] 1 Booting [])"
    using vm_step.size_test [of "duel k i [] 1 SizeTest []" r] by (simp add: duel_simps)
  have s3: "vm_step r (duel k i [] 1 Booting []) (duel k i [] 2 (Pushing duel_vm) [])"
    using vm_step.boot [of "duel k i [] 1 Booting []" "Some duel_vm" "duel k i [] 2 Booting []" r] by (simp add: duel_simps duel_vm_def booted_vm_def)
  have s4: "vm_step r (duel k i [] 2 (Pushing duel_vm) []) (duel k i [duel_vm] 2 LoopTest [])"
    using vm_step.push [of "duel k i [] 2 (Pushing duel_vm) []" duel_vm "duel k i [duel_vm] 2 LoopTest []" r] by (simp add: duel_simps)
  have s5: "vm_step r (duel k i [duel_vm] 2 LoopTest []) (duel k i [duel_vm] 2 LoopTest [GetTest])"
    using vm_step.get_call [of "duel k i [duel_vm] 2 LoopTest []" r] by (simp add: duel_simps)
  have s6: "vm_step r (duel k i [duel_vm] 2 LoopTest [GetTest]) (duel k i [] 2 LoopTest [Holding duel_vm])"
    using vm_step.get_vm [of 0 "duel k i [duel_vm] 2 LoopTest [GetTest]" duel_vm "duel k i [] 2 LoopTest [GetTest]" "duel k i [] 2 LoopTest [Holding duel_vm]" r] by (simp add: duel_simps)
  have s7: "vm_step r (duel k i [] 2 LoopTest [Holding duel_vm]) (duel k i [] 2 SizeTest [Holding duel_vm])"
    using vm_step.loop_test [of "duel k i [] 2 LoopTest [Holding duel_vm]" r] by (simp add: duel_simps)
  have s8: "vm_step r (duel k i [] 2 SizeTest [Holding duel_vm]) (duel k i [] 2 Booting [Holding duel_vm])"
    using vm_step.size_test [of "duel k i [] 2 SizeTest [Holding duel_vm]" r] by (simp add: duel_simps)
  have s9: "vm_step r (duel k i [] 2 Booting [Holding duel_vm]) (duel k i [] 3 (Pushing duel_vm2) [Holding duel_vm])"
    using vm_step.boot [of "duel k i [] 2 Booting [Holding duel_vm]" "Some duel_vm2" "duel k i [] 3 Booting [Holding duel_vm]" r] by (simp add: duel_simps duel_vm2_def booted_vm_def)
  have "Suc (Suc (Suc (Suc (Suc (Suc (Suc (Suc (Suc (Suc 0))))))))) = 10" by simp
  then show ?thesis
    by (rule subst [where P = "\<lambda>n. (vm_step r ^^ n) _ _"]) (rule relpowp_Suc_I2, rule s0, rule relpowp_Suc_I2, rule s1, rule relpowp_Suc_I2, rule s2, rule relpowp_Suc_I2, rule s3, rule relpowp_Suc_I2, rule s4,
      rule relpowp_Suc_I2, rule s5, rule relpowp_Suc_I2, rule s6, rule relpowp_Suc_I2, rule s7, rule relpowp_Suc_I2, rule s8, rule relpowp_Suc_I2, rule s9, simp)
qed

section \<open>Properties\<close>

text \<open>
  Claim C30. No two callers share a machine. In every run of fewer than \<open>2 ^ 32 - 1\<close> steps of the
  replenisher, the callers and the destructor, the machines in the pool, the one on its way into
  it and the ones held by callers carry pairwise distinct identifiers. (The identifier counter
  is a 32-bit integer that wraps.)
\<close>

theorem warm_vms_exclusive:
  assumes "(vm_step may_reuse ^^ n) (VMSnapshotPool_new k i m) s" and "n + 1 < 2 ^ 32"
  shows "distinct (map vm_id (live_vms s))"
  using ids_ok_steps [OF assms] by (simp add: ids_ok_def)

theorem warm_vms_exclusive_witness:
  "distinct (map vm_id (live_vms (duel ''vmlinux'' ''initrd'' [] 3 (Pushing duel_vm2) [Holding duel_vm])))"
  using warm_vms_exclusive [OF handover_run [of True "''vmlinux''" "''initrd''"]] by simp

text \<open>
  The pool never holds more than \<open>pool_size_\<close> machines as long as no caller releases one
  for reuse, although the replenisher tests the size before it boots and pushes without testing it
  again.
\<close>

lemma warm_pool_bounded:
  assumes "vm_steps False (VMSnapshotPool_new k i n) s"
  shows "available_count s \<le> n"
proof -
  have "size_ok (VMSnapshotPool_new k i n)" by (simp add: size_ok_def VMSnapshotPool_new_def)
  then have "size_ok s" by (rule size_ok_steps [OF assms])
  moreover have "pool_size s = n" using pool_size_steps [OF assms] by (simp add: VMSnapshotPool_new_def)
  ultimately show ?thesis by (simp add: size_ok_def available_count_def)
qed

lemma warm_pool_bounded_witness: "available_count (duel ''vmlinux'' ''initrd'' [] 1 LoopTest [GetAsleep, GetAsleep]) \<le> 1"
  by (rule warm_pool_bounded [of "''vmlinux''" "''initrd''" 1]) (rule duel_callers_sleep)

text \<open>
  Claim C31. The destructor can wait for ever. It stores \<open>shutdown_\<close> and notifies without the
  mutex, so both can fall between the replenisher's test of its predicate and its sleep: for every
  pool size there is a run of an unused pool after which the destructor joins a sleeping thread
  and no step is possible.
\<close>

theorem destructor_deadlock:
  "\<exists>s. vm_steps r (VMSnapshotPool_new k i n) s \<and> pool_owner s = DtorJoining \<and> (\<forall>s'. \<not> vm_step r s s')"
proof -
  obtain s where s: "vm_steps r (VMSnapshotPool_new k i n) s" "warming n n s" using warming_reachable by blast
  let ?b = "s\<lparr>replenish_thread := WaitBlock\<rparr>"
  let ?d = "?b\<lparr>shutdown := True, pool_owner := DtorJoining, replenish_thread := WaitAsleep\<rparr>"
  have "vm_steps r ?b ?d" using s(2) by (intro shutdown_overtakes) (simp_all add: warming_def)
  then have "vm_steps r (VMSnapshotPool_new k i n) ?d" using s full_pool_blocks [of n s r] by (meson rtranclp_trans)
  moreover have "\<not> vm_step r ?d s'" for s' by (rule join_stuck) (use s(2) in \<open>simp_all add: warming_def\<close>)
  ultimately show ?thesis by (intro exI [of _ ?d]) simp
qed

text \<open>
  The replenisher can miss its notification. \<open>get_warm_vm\<close> notifies one waiter,
  meaning the replenisher, but callers wait on the same condition variable: there is a run of a
  pool of one machine after which the pool is empty, the replenisher sleeps and a caller waits; and
  nothing but a release or the destructor changes that.
\<close>

lemma replenisher_starves:
  "\<exists>s. vm_steps r (VMSnapshotPool_new k i 1) s \<and> starved s \<and> caller_at 1 GetAsleep s \<and> {s'. (quiet_step r)\<^sup>*\<^sup>* s s'} \<subseteq> Collect starved"
proof -
  let ?s = "duel k i [] 2 WaitAsleep [Holding duel_vm, GetAsleep]"
  have "vm_steps r (VMSnapshotPool_new k i 1) ?s" using duel_callers_sleep duel_starves by (rule rtranclp_trans)
  moreover have "starved ?s" "caller_at 1 GetAsleep ?s" by (simp_all add: starved_def duel_def caller_at_def)
  ultimately show ?thesis using starved_steps [of r ?s] by blast
qed

end
