(* ===== verification/Terminal_Monitor.thy ===== *)
theory Terminal_Monitor
  imports Daemon "HOL-Library.Multiset"
begin

text \<open>
  The terminal monitor (\<open>src/host/monitor.cpp\<close>): the event model it keeps, the drawing of the
  process tree, what the dashboard reports, the keyboard, and its main loop over the shared ring.
  Cursor movement, colours of the fixed texts and the clock are left out; the text of a process line
  is modelled byte by byte.

  Shown: the number of violations on the screen is the policy engine's as long as the monitor is not
  lapped and does not pop between the reservation of a slot and the store, drawing the tree always ends, and protection is only switched off by the two keys meant for it.
\<close>

section \<open>Event model\<close>

record ProcessNode =
  pn_pid :: u64
  pn_ppid :: u64
  pn_comm :: string
  pn_arg :: string
  pn_is_preinstall :: bool
  pn_children :: "u64 list"

record TelemetryModel =
  tm_vm_running :: bool
  tm_vm_status_desc :: string
  tm_total_execs :: u64
  tm_total_opens :: u64
  tm_total_connects :: u64
  tm_total_forks :: u64
  tm_total_mte_traps :: u64
  tm_total_violations :: u64
  tm_processes :: "u64 \<rightharpoonup> ProcessNode"
  tm_root_pids :: "u64 list"
  tm_logs :: "MonitorEvent list"

definition TelemetryModel_new :: TelemetryModel where
  "TelemetryModel_new =
     \<lparr>tm_vm_running = False, tm_vm_status_desc = ''Offline'', tm_total_execs = 0, tm_total_opens = 0, tm_total_connects = 0,
      tm_total_forks = 0, tm_total_mte_traps = 0, tm_total_violations = 0, tm_processes = Map.empty, tm_root_pids = [], tm_logs = []\<rparr>"

text \<open>The parts of \<open>add_event\<close>: the log, the counters, the violations, the process tree.\<close>

definition log_push :: "MonitorEvent \<Rightarrow> MonitorEvent list \<Rightarrow> MonitorEvent list" where
  "log_push ev logs = (let logs' = logs @ [ev] in if 30 < length logs' then drop 1 logs' else logs')"

definition count_event :: "MonitorEvent \<Rightarrow> TelemetryModel \<Rightarrow> TelemetryModel" where
  "count_event ev m =
     (if me_event_type ev = EVENT_EXEC then m\<lparr>tm_total_execs := tm_total_execs m + 1\<rparr>
      else if me_event_type ev = EVENT_OPEN then m\<lparr>tm_total_opens := tm_total_opens m + 1\<rparr>
      else if me_event_type ev = EVENT_CONNECT then m\<lparr>tm_total_connects := tm_total_connects m + 1\<rparr>
      else if me_event_type ev = EVENT_FORK then m\<lparr>tm_total_forks := tm_total_forks m + 1\<rparr>
      else if me_event_type ev = EVENT_MTE_TRAP then m\<lparr>tm_total_mte_traps := tm_total_mte_traps m + 1\<rparr>
      else m)"

definition blocked_open :: "MonitorEvent \<Rightarrow> bool" where
  "blocked_open ev \<longleftrightarrow> me_is_sensitive ev \<noteq> 0 \<and> me_is_preinstall ev \<noteq> 0 \<and> me_event_type ev = EVENT_OPEN"

definition blocked_connect :: "MonitorEvent \<Rightarrow> bool" where
  "blocked_connect ev \<longleftrightarrow> me_is_unauthorized ev \<noteq> 0 \<and> me_is_preinstall ev \<noteq> 0 \<and> me_event_type ev = EVENT_CONNECT"

definition count_violations :: "MonitorEvent \<Rightarrow> TelemetryModel \<Rightarrow> TelemetryModel" where
  "count_violations ev m =
     (let m = (if blocked_open ev then m\<lparr>tm_total_violations := tm_total_violations m + 1\<rparr> else m)
      in if blocked_connect ev then m\<lparr>tm_total_violations := tm_total_violations m + 1\<rparr> else m)"

definition new_node :: "MonitorEvent \<Rightarrow> ProcessNode" where
  "new_node ev = \<lparr>pn_pid = me_pid ev, pn_ppid = me_ppid ev, pn_comm = c_str (me_comm ev), pn_arg = c_str (me_arg_str ev),
     pn_is_preinstall = (me_is_preinstall ev = 1), pn_children = []\<rparr>"

definition add_process :: "MonitorEvent \<Rightarrow> TelemetryModel \<Rightarrow> TelemetryModel" where
  "add_process ev m =
     (if tm_processes m (me_pid ev) \<noteq> None then m
      else let ps = (tm_processes m)(me_pid ev \<mapsto> new_node ev)
           in case (if me_ppid ev \<noteq> 0 then ps (me_ppid ev) else None) of
                Some parent \<Rightarrow>
                  m\<lparr>tm_processes := ps(me_ppid ev \<mapsto> parent\<lparr>pn_children := pn_children parent @ [me_pid ev]\<rparr>)\<rparr>
              | None \<Rightarrow> m\<lparr>tm_processes := ps, tm_root_pids := tm_root_pids m @ [me_pid ev]\<rparr>)"

definition model_add_event :: "MonitorEvent \<Rightarrow> TelemetryModel \<Rightarrow> TelemetryModel" where
  "model_add_event ev m =
     (if me_event_type ev = EVENT_VM_STATE_CHANGE
      then m\<lparr>tm_vm_running := (me_vm_running ev = 1), tm_vm_status_desc := c_str (me_arg_str ev)\<rparr>
      else let m = m\<lparr>tm_logs := log_push ev (tm_logs m)\<rparr>;
               m = count_violations ev (count_event ev m)
           in if me_event_type ev = EVENT_EXEC \<or> me_event_type ev = EVENT_FORK then add_process ev m else m)"

section \<open>Process tree\<close>

definition esc :: "string \<Rightarrow> string" where "esc s = CHR 0x1B # s"

definition line_horizontal :: string where
  "line_horizontal = [CHR 0xE2, CHR 0x94, CHR 0x80, CHR 0xE2, CHR 0x94, CHR 0x80] @ '' ''"

definition connector :: "bool \<Rightarrow> string" where
  "connector is_last = [CHR 0xE2, CHR 0x94, if is_last then CHR 0x94 else CHR 0x9C] @ line_horizontal"

definition indent :: "bool \<Rightarrow> string" where
  "indent is_last = (if is_last then ''    '' else [CHR 0xE2, CHR 0x94, CHR 0x82] @ ''   '')"

definition process_line :: "ProcessNode \<Rightarrow> string \<Rightarrow> bool \<Rightarrow> string" where
  "process_line node prefix is_last =
     prefix @ connector is_last @
     (if pn_is_preinstall node
      then esc ''[33m'' @ esc ''[1m'' @ pn_comm node @ esc ''[0m'' @ '' (PID: '' @ decimal (unat (pn_pid node)) @ '')'' @
           esc ''[31m'' @ '' [UNTRUSTED]'' @ esc ''[0m''
      else esc ''[32m'' @ pn_comm node @ esc ''[0m'' @ '' (PID: '' @ decimal (unat (pn_pid node)) @ '')'') @
     (if pn_arg node \<noteq> [] \<and> pn_arg node \<noteq> ''fork''
      then '' '' @ esc ''[37m'' @ ''['' @ pn_arg node @ '']'' @ esc ''[0m'' else []) @ [CHR 0x0A]"

text \<open>
  \<open>draw_process_node\<close> and its loop over the children, with the recursion depth as fuel: \<open>None\<close>
  when the depth is exceeded.
\<close>

fun draw_process_node :: "nat \<Rightarrow> TelemetryModel \<Rightarrow> u64 \<Rightarrow> string \<Rightarrow> bool \<Rightarrow> string option"
and draw_children :: "nat \<Rightarrow> TelemetryModel \<Rightarrow> u64 list \<Rightarrow> string \<Rightarrow> string option" where
  "draw_process_node 0 m pid prefix is_last = None"
| "draw_process_node (Suc f) m pid prefix is_last =
     (case tm_processes m pid of None \<Rightarrow> Some []
      | Some node \<Rightarrow> map_option ((@) (process_line node prefix is_last))
          (draw_children f m (pn_children node) (prefix @ indent is_last)))"
| "draw_children f m [] prefix = Some []"
| "draw_children f m (c # cs) prefix =
     (case draw_process_node f m c prefix (cs = []) of None \<Rightarrow> None
      | Some a \<Rightarrow> map_option ((@) a) (draw_children f m cs prefix))"

text \<open>The loop over \<open>root_pids\<close> in \<open>render_dashboard\<close>.\<close>

definition draw_tree :: "nat \<Rightarrow> TelemetryModel \<Rightarrow> string option" where
  "draw_tree f m = draw_children f m (tm_root_pids m) ''  ''"

section \<open>Dashboard\<close>

datatype lifecycle = Bypassed | RunningVM string | KilledVM string | WaitingForDaemon | OfflineVM string

definition vm_lifecycle :: "bool \<Rightarrow> TelemetryModel \<Rightarrow> lifecycle" where
  "vm_lifecycle disabled m =
     (if disabled then Bypassed
      else if tm_vm_running m then RunningVM (tm_vm_status_desc m)
      else if 0 < tm_total_violations m \<or> has_sub (tm_vm_status_desc m) ''Kill Switch'' then KilledVM (tm_vm_status_desc m)
      else if tm_logs m = [] \<and> tm_total_execs m = 0 then WaitingForDaemon
      else OfflineVM (tm_vm_status_desc m))"

definition model_risk :: "TelemetryModel \<Rightarrow> u32" where
  "model_risk m = (if 0 < tm_total_violations m then 80 + min (ucast (tm_total_violations m * 5)) 20 else 0)"

datatype risk_banner = MonitoringPaused | CriticalThreat u32 | SuspiciousBehaviour u32 | CleanWorkspace u32

definition risk_line :: "bool \<Rightarrow> TelemetryModel \<Rightarrow> risk_banner" where
  "risk_line disabled m =
     (if disabled then MonitoringPaused
      else if 80 \<le> model_risk m then CriticalThreat (model_risk m)
      else if 40 \<le> model_risk m then SuspiciousBehaviour (model_risk m)
      else CleanWorkspace (model_risk m))"

datatype log_tag = TagMteTrap | TagBlockedOpen | TagBlockedConn | TagExec | TagFork | TagOpen | TagConnect string

definition dotted :: "u32 \<Rightarrow> string" where
  "dotted ip = decimal (unat (drop_bit 24 ip AND 0xFF)) @ ''.'' @ decimal (unat (drop_bit 16 ip AND 0xFF)) @ ''.'' @
     decimal (unat (drop_bit 8 ip AND 0xFF)) @ ''.'' @ decimal (unat (ip AND 0xFF))"

definition log_line_tag :: "MonitorEvent \<Rightarrow> log_tag option" where
  "log_line_tag ev =
     (if me_event_type ev = EVENT_MTE_TRAP then Some TagMteTrap
      else if blocked_open ev then Some TagBlockedOpen
      else if blocked_connect ev then Some TagBlockedConn
      else if me_event_type ev = EVENT_EXEC then Some TagExec
      else if me_event_type ev = EVENT_FORK then Some TagFork
      else if me_event_type ev = EVENT_OPEN then Some TagOpen
      else if me_event_type ev = EVENT_CONNECT
      then let dest = c_str (me_arg_str ev)
           in Some (TagConnect (if dest = [] \<or> dest = ''other_connect'' then dotted (me_ip_address ev) else dest))
      else None)"

section \<open>Keyboard\<close>

record monitor_ui =
  g_stop :: bool
  g_show_help :: bool
  awaiting_disable_confirm :: bool
  protection_disabled :: bool

text \<open>
  \<open>set_protection_disabled\<close> creates or removes the flag file, which may fail (\<open>ok\<close>);
  \<open>protection_disabled\<close> is whether the file exists.
\<close>

definition set_protection_disabled :: "bool \<Rightarrow> bool \<Rightarrow> monitor_ui \<Rightarrow> monitor_ui" where
  "set_protection_disabled ok disable u = (if ok then u\<lparr>protection_disabled := disable\<rparr> else u)"

definition handle_key :: "bool \<Rightarrow> char \<Rightarrow> monitor_ui \<Rightarrow> monitor_ui" where
  "handle_key ok key u =
     (if key = CHR 0x00 then u
      else if key \<in> set ''qQ'' then u\<lparr>g_stop := True\<rparr>
      else if key \<in> set ''hH'' then u\<lparr>g_show_help := \<not> g_show_help u\<rparr>
      else if key \<in> set ''eE'' then (set_protection_disabled ok False u)\<lparr>awaiting_disable_confirm := False\<rparr>
      else if key \<in> set ''dD'' then (if \<not> awaiting_disable_confirm u then u\<lparr>awaiting_disable_confirm := True\<rparr> else u)
      else if key \<in> set ''yY''
      then (if awaiting_disable_confirm u then (set_protection_disabled ok True u)\<lparr>awaiting_disable_confirm := False\<rparr> else u)
      else if key \<in> set ''tT'' then (set_protection_disabled ok (\<not> protection_disabled u) u)\<lparr>awaiting_disable_confirm := False\<rparr>
      else if awaiting_disable_confirm u then u\<lparr>awaiting_disable_confirm := False\<rparr> else u)"

definition handle_keys :: "(bool \<times> char) list \<Rightarrow> monitor_ui \<Rightarrow> monitor_ui" where
  "handle_keys ks u = fold (\<lambda>(ok, key). handle_key ok key) ks u"

section \<open>Main loop\<close>

text \<open>\<open>while (subscriber.pop(ev)) model.add_event(ev)\<close> while the ring does not change.\<close>

definition poll_events ::
  "MonitorSharedBuffer option \<Rightarrow> SharedMemorySubscriber \<times> TelemetryModel \<Rightarrow> SharedMemorySubscriber \<times> TelemetryModel" where
  "poll_events shm sm =
     (case sm of (s, m) \<Rightarrow>
        let s' = (if sub_connected s then s else s\<lparr>sub_connected := (shm \<noteq> None)\<rparr>)
        in case shm of
             Some b \<Rightarrow> if sub_connected s'
               then (case drain_from b (local_read_index s') of (es, r) \<Rightarrow> (s'\<lparr>local_read_index := r\<rparr>, fold model_add_event es m))
               else (s', m)
           | None \<Rightarrow> (s', m))"

definition monitor_iteration ::
  "bool \<Rightarrow> char \<Rightarrow> MonitorSharedBuffer option \<Rightarrow> monitor_ui \<times> SharedMemorySubscriber \<times> TelemetryModel \<Rightarrow>
   monitor_ui \<times> SharedMemorySubscriber \<times> TelemetryModel" where
  "monitor_iteration ok key shm st = (handle_key ok key (fst st), poll_events shm (snd st))"

text \<open>The loop of \<open>poll_events\<close> is the repeated \<open>pop\<close>.\<close>

lemma poll_pop:
  "poll_events shm (s, m) = (case pop shm s of (None, s') \<Rightarrow> (s', m) | (Some e, s') \<Rightarrow> poll_events shm (s', model_add_event e m))"
proof (cases shm)
  case (Some b)
  show ?thesis
    by (cases "read_slot b (local_read_index s)")
      (auto simp: Some poll_events_def pop_def Let_def drain_from.simps [of b "local_read_index s"] split: prod.splits)
qed (auto simp: poll_events_def pop_def Let_def)

section \<open>The violation counters of daemon and monitor\<close>

definition mon_violates :: "MonitorEvent \<Rightarrow> bool" where
  "mon_violates ev \<longleftrightarrow> blocked_open ev \<or> blocked_connect ev"

lemma blocked_exclusive: "blocked_open ev \<Longrightarrow> \<not> blocked_connect ev"
  by (auto simp: blocked_open_def blocked_connect_def)

lemma model_violations:
  "tm_total_violations (model_add_event ev m) = tm_total_violations m + flag64 (mon_violates ev)"
proof -
  have c: "tm_total_violations (count_event ev m) = tm_total_violations m" for m by (simp add: count_event_def)
  have a: "tm_total_violations (add_process ev m) = tm_total_violations m" for m
    by (auto simp: add_process_def Let_def split: option.splits)
  have v: "tm_total_violations (count_violations ev m) = tm_total_violations m + flag64 (mon_violates ev)" for m
    using blocked_exclusive [of ev] by (auto simp: count_violations_def mon_violates_def flag64_def Let_def)
  have "\<not> mon_violates ev" if "me_event_type ev = EVENT_VM_STATE_CHANGE"
    using that by (simp add: mon_violates_def blocked_open_def blocked_connect_def)
  then show ?thesis by (simp add: model_add_event_def Let_def c a v flag64_def)
qed

lemma model_violations_fold:
  "tm_total_violations (fold model_add_event es m) = tm_total_violations m + of_nat (length (filter mon_violates es))"
proof (induction es arbitrary: m)
  case (Cons e es)
  then show ?case using model_violations [of e m] by (simp add: flag64_def)
qed simp

lemma state_change_not_violates: "\<not> mon_violates (state_change s v)" "\<not> mon_violates killed_event"
  by (simp_all add: mon_violates_def blocked_open_def blocked_connect_def state_change_def killed_event_def zero_MonitorEvent_def)

lemma monitor_event_violates:
  assumes "flags_01 r" and "tr_event_type r = se_event_type ev" and "preinstall = ucast (tr_is_preinstall r)"
  shows "mon_violates (monitor_event ev r preinstall v) \<longleftrightarrow> record_violates r"
proof -
  have "(ucast (tr_is_preinstall r) :: u8) \<noteq> 0 \<longleftrightarrow> tr_is_preinstall r \<noteq> 0" "(ucast (tr_is_sensitive r) :: u8) \<noteq> 0 \<longleftrightarrow> tr_is_sensitive r \<noteq> 0"
    "(ucast (tr_is_unauthorized r) :: u8) \<noteq> 0 \<longleftrightarrow> tr_is_unauthorized r \<noteq> 0"
    using assms(1) by (auto simp: flags_01_def)
  then show ?thesis using assms(2,3)
    by (auto simp: mon_violates_def blocked_open_def blocked_connect_def monitor_event_def record_violates_def)
qed

lemma process_event_type: "tr_event_type (fst (process_event pe ev)) = se_event_type ev"
  by (simp add: process_event_fst)

lemma add_event_published:
  "\<exists>es. dm_published (add_event ts ev d) = dm_published d @ es \<and> dm_shm (add_event ts ev d) = fold (publish (dm_publisher d)) es (dm_shm d) \<and>
     dm_publisher (add_event ts ev d) = dm_publisher d \<and>
     length (filter mon_violates es) = (if record_violates (fst (process_event (dm_pe d) ev)) then 1 else 0)"
proof -
  obtain r pe where p: "process_event (dm_pe d) ev = (r, pe)" by fastforce
  have f: "flags_01 r" "tr_event_type r = se_event_type ev" using process_event_flags [of "dm_pe d" ev] process_event_type [of "dm_pe d" ev] p by simp_all
  have v: "is_violation r \<longleftrightarrow> record_violates r" using is_violation_eq [OF f(1)] .
  note m = monitor_event_violates [OF f]
  show ?thesis
  proof (cases "is_violation r \<and> is_running (dm_vm d)")
    case True
    then have "tr_is_preinstall r = 1" by (simp add: is_violation_def)
    then have "mon_violates (monitor_event ev r 1 1)" using m [of 1 1] True v by simp
    then show ?thesis using True v
      by (intro exI [of _ "[monitor_event ev r 1 1, killed_event]"])
        (simp add: add_event_def p fire_kill_switch_def monitor_cb_def Let_def state_change_not_violates)
  next
    case False
    then show ?thesis using m [of "ucast (tr_is_preinstall r)"]
      by (intro exI [of _ "[monitor_event ev r (ucast (tr_is_preinstall r)) (if is_running (dm_vm d) then 1 else 0)]"])
        (auto simp: add_event_def p monitor_cb_def Let_def)
  qed
qed

lemma add_event_length: "length (dm_published (add_event ts ev d)) \<le> length (dm_published d) + 2"
  by (cases "process_event (dm_pe d) ev") (simp add: add_event_def fire_kill_switch_def monitor_cb_def Let_def)

text \<open>A step of the daemon publishes as many violations as the policy engine counts.\<close>

definition publishes :: "MonitorEvent list \<Rightarrow> 'e Daemon \<Rightarrow> 'e Daemon \<Rightarrow> bool" where
  "publishes es d d' \<longleftrightarrow> dm_published d' = dm_published d @ es \<and> dm_shm d' = fold (publish (dm_publisher d)) es (dm_shm d) \<and>
     dm_publisher d' = dm_publisher d \<and>
     total_violations (dm_pe d') = total_violations (dm_pe d) + of_nat (length (filter mon_violates es))"

lemma daemon_step_publishes: "daemon_step evaluate d d' \<Longrightarrow> \<exists>es. publishes es d d'"
proof (induction rule: daemon_step.induct)
  case (event d ts ev)
  show ?case using add_event_published [of ts ev d] process_event_counters(2) [of "dm_pe d" ev]
    by (auto simp: publishes_def add_event_sel flag64_def)
next
  case (batch d d')
  obtain v e where e: "evaluate (take 64 (dm_pending d)) (dm_engine d) = Some (v, e)"
    using process_batch_sel [OF batch(4)] by auto
  show ?case using batch(4)
    by (intro exI [of _ "if 0 < v then [killed_event] else []"])
      (auto simp: process_batch_def e publishes_def monitor_cb_def Let_def state_change_not_violates split: if_splits)
next
  case (cleanup d)
  show ?case
    by (intro exI [of _ "[state_change ''Virtual Machine Terminated (Graceful Shutdown)'' 0]"])
      (simp add: publishes_def daemon_cleanup_def monitor_cb_def Let_def state_change_not_violates)
qed (auto simp: publishes_def intro!: exI [of _ "[]"])

section \<open>Daemon and monitor together\<close>

text \<open>
  The daemon and a monitor on the same ring. A call of \<open>publish\<close> is two steps that another thread
  or process may come between: an event the daemon passes on is first \<open>due\<close>, then it is \<open>taken\<close>,
  when the write index advanced past its position, with its slot and its event among the
  \<open>w_open\<close> stores, and then stored. The due events of the daemon's threads may be taken in any order,
  and the open stores made in any order; the monitor pops one event at a time. \<open>w_buf\<close> is the shared
  buffer.

  Two restrictions are placed on the schedule. A position is taken only while the monitor is
  less than the capacity of the ring behind, and the monitor does not pop at a position that is taken and
  not stored. The code enforces neither: \<open>pop_lapped\<close> and \<open>pop_between_reserve_and_store\<close> show what
  happens otherwise.
\<close>

record 'e watch =
  w_daemon :: "'e Daemon"
  w_due :: "MonitorEvent list"
  w_taken :: "MonitorEvent list"
  w_open :: "nat \<rightharpoonup> nat \<times> MonitorEvent"
  w_buf :: MonitorSharedBuffer
  w_sub :: SharedMemorySubscriber
  w_model :: TelemetryModel

definition remove_nth :: "nat \<Rightarrow> 'a list \<Rightarrow> 'a list" where
  "remove_nth i xs = take i xs @ drop (Suc i) xs"

definition take_position :: "nat \<Rightarrow> 'e watch \<Rightarrow> 'e watch" where
  "take_position i w =
     w\<lparr>w_due := remove_nth i (w_due w), w_taken := w_taken w @ [w_due w ! i],
       w_open := (w_open w)(length (w_taken w) \<mapsto> (fst (publish_reserve (w_buf w)), w_due w ! i)),
       w_buf := snd (publish_reserve (w_buf w))\<rparr>"

inductive watch_step :: "(SyscallTraceRecord list \<Rightarrow> 'e \<Rightarrow> (u64 \<times> 'e) option) \<Rightarrow> 'e watch \<Rightarrow> 'e watch \<Rightarrow> bool" for evaluate where
  watch_daemon: "daemon_step evaluate (w_daemon w) d' \<Longrightarrow> dm_published d' = dm_published (w_daemon w) @ es \<Longrightarrow>
    watch_step evaluate w (w\<lparr>w_daemon := d', w_due := w_due w @ es\<rparr>)"
| watch_take: "i < length (w_due w) \<Longrightarrow>
    length (w_taken w) < unat (local_read_index (w_sub w)) + AARCHGATE_RING_CAPACITY \<Longrightarrow>
    watch_step evaluate w (take_position i w)"
| watch_store: "w_open w k = Some (slot, e) \<Longrightarrow>
    watch_step evaluate w (w\<lparr>w_open := (w_open w)(k := None), w_buf := publish_store slot e (w_buf w)\<rparr>)"
| watch_pop: "w_open w (unat (local_read_index (w_sub w))) = None \<Longrightarrow> pop (Some (w_buf w)) (w_sub w) = (Some e, s') \<Longrightarrow>
    watch_step evaluate w (w\<lparr>w_sub := s', w_model := model_add_event e (w_model w)\<rparr>)"
| watch_idle: "pop (Some (w_buf w)) (w_sub w) = (None, s') \<Longrightarrow> watch_step evaluate w (w\<lparr>w_sub := s'\<rparr>)"

definition watch_start :: "'e Daemon \<Rightarrow> MonitorSharedBuffer option \<Rightarrow> 'e watch" where
  "watch_start d shm =
     \<lparr>w_daemon = d, w_due = dm_published d, w_taken = [], w_open = Map.empty, w_buf = fresh_buffer,
      w_sub = SharedMemorySubscriber_new shm, w_model = TelemetryModel_new\<rparr>"

text \<open>Nothing is lost on the way to the ring, and the engine counts the violations passed on.\<close>

definition accounted :: "'e watch \<Rightarrow> bool" where
  "accounted w \<longleftrightarrow> mset (w_taken w) + mset (w_due w) = mset (dm_published (w_daemon w)) \<and>
     total_violations (dm_pe (w_daemon w)) = of_nat (length (filter mon_violates (dm_published (w_daemon w))))"

text \<open>The ring, its open stores and the monitor, which has read the first \<open>r\<close> taken events.\<close>

definition in_step :: "nat \<Rightarrow> 'e watch \<Rightarrow> bool" where
  "in_step r w \<longleftrightarrow> ring_partial (w_taken w) (dom (w_open w)) (w_buf w) \<and> local_read_index (w_sub w) = of_nat r \<and>
     r \<le> length (w_taken w) \<and> length (w_taken w) \<le> r + AARCHGATE_RING_CAPACITY \<and>
     (\<forall>k slot e. w_open w k = Some (slot, e) \<longrightarrow>
        r \<le> k \<and> k < length (w_taken w) \<and> slot = k mod AARCHGATE_RING_CAPACITY \<and> e = w_taken w ! k) \<and>
     w_model w = fold model_add_event (take r (w_taken w)) TelemetryModel_new"

lemma mset_remove_nth: "i < length xs \<Longrightarrow> mset xs = add_mset (xs ! i) (mset (remove_nth i xs))"
  by (subst id_take_nth_drop [of i xs]) (simp_all add: remove_nth_def)

lemma accounted_step: "watch_step evaluate w w' \<Longrightarrow> accounted w \<Longrightarrow> accounted w'"
proof (induction rule: watch_step.induct)
  case (watch_daemon w d' es)
  then show ?case using daemon_step_publishes [OF watch_daemon(1)] by (auto simp: accounted_def publishes_def)
next
  case (watch_take i w)
  then show ?case using mset_remove_nth [of i "w_due w"] by (simp add: accounted_def take_position_def)
qed (simp_all add: accounted_def)

lemma accounted_taken: "accounted w \<Longrightarrow> length (w_taken w) \<le> length (dm_published (w_daemon w))"
  unfolding accounted_def by (metis le_add1 size_mset size_union)

lemma in_step_step:
  assumes "watch_step evaluate w w'" and "in_step r w" and "length (w_taken w) < 2 ^ 64"
  shows "\<exists>r'. in_step r' w'"
  using assms
proof (induction rule: watch_step.induct)
  case (watch_daemon w d' es)
  then show ?case by (auto simp: in_step_def)
next
  case (watch_take i w)
  have "unat (local_read_index (w_sub w)) = r" using watch_take by (simp add: in_step_def unat_of_nat)
  then have "in_step r (take_position i w)"
    using watch_take ring_partial_reserve [of "w_taken w" "dom (w_open w)" "w_buf w" "w_due w ! i"]
    by (fastforce simp: in_step_def take_position_def nth_append)
  then show ?case ..
next
  case (watch_store w k slot e)
  then have k: "r \<le> k" "k < length (w_taken w)" "slot = k mod AARCHGATE_RING_CAPACITY" "e = w_taken w ! k"
    by (auto simp: in_step_def)
  then have "length (w_taken w) \<le> k + AARCHGATE_RING_CAPACITY" using watch_store(2) by (simp add: in_step_def)
  note k = k this
  have "dom ((w_open w)(k := None)) = dom (w_open w) - {k}" by auto
  then have "in_step r (w\<lparr>w_open := (w_open w)(k := None), w_buf := publish_store slot e (w_buf w)\<rparr>)"
    using watch_store(2) ring_partial_store [of "w_taken w" "dom (w_open w)" "w_buf w" k] k by (auto simp: in_step_def)
  then show ?case ..
next
  case (watch_pop w e s')
  then have r: "unat (local_read_index (w_sub w)) = r" by (simp add: in_step_def unat_of_nat)
  then have p: "r < length (w_taken w)" "e = w_taken w ! r" "local_read_index s' = of_nat (Suc r)"
    using watch_pop ring_partial_pop [of "w_taken w" "dom (w_open w)" "w_buf w" r "w_sub w"] domIff [of r "w_open w"]
    by (auto simp: in_step_def split: if_splits)
  have o: "Suc r \<le> k" if "w_open w k = Some x" for k x
    using that watch_pop(1,3) r by (cases x; cases "k = r") (force simp: in_step_def)+
  have "in_step (Suc r) (w\<lparr>w_sub := s', w_model := model_add_event e (w_model w)\<rparr>)"
    using watch_pop(3) p o by (auto simp: in_step_def take_Suc_conv_app_nth)
  then show ?case ..
next
  case (watch_idle w s')
  have "local_read_index s' = local_read_index (w_sub w)" using watch_idle(1) by (auto simp: pop_def Let_def split: if_splits option.splits)
  then have "in_step r (w\<lparr>w_sub := s'\<rparr>)" using watch_idle(2) by (simp add: in_step_def)
  then show ?case ..
qed

lemma published_mono: "watch_step evaluate w w' \<Longrightarrow> length (dm_published (w_daemon w)) \<le> length (dm_published (w_daemon w'))"
  by (induction rule: watch_step.induct) (simp_all add: take_position_def)

definition watch_inv :: "'e watch \<Rightarrow> bool" where
  "watch_inv w \<longleftrightarrow> accounted w \<and> (length (dm_published (w_daemon w)) < 2 ^ 64 \<longrightarrow> (\<exists>r. in_step r w))"

lemma watch_inv_steps: "(watch_step evaluate)\<^sup>*\<^sup>* w w' \<Longrightarrow> watch_inv w \<Longrightarrow> watch_inv w'"
proof (induction rule: rtranclp_induct)
  case (step y z)
  then have y: "accounted y" "length (dm_published (w_daemon y)) \<le> length (dm_published (w_daemon z))"
    using published_mono [of evaluate y z] by (auto simp: watch_inv_def)
  have "\<exists>r. in_step r z" if "length (dm_published (w_daemon z)) < 2 ^ 64"
    using that y step accounted_taken [OF y(1)] in_step_step [of evaluate y z] by (auto simp: watch_inv_def)
  then show ?case using accounted_step [OF step(2)] y(1) by (simp add: watch_inv_def)
qed

lemma watch_inv_start:
  assumes "daemon_start ts valid audit (SharedMemoryPublisher_new True None) e opts = Some d"
  shows "watch_inv (watch_start d shm)"
proof -
  have "total_violations (dm_pe d) = of_nat (length (filter mon_violates (dm_published d)))" using assms
    by (auto simp: daemon_start_def monitor_cb_def PolicyEngine_new_def state_change_not_violates Let_def split: if_splits prod.splits)
  moreover have "in_step 0 (watch_start d shm)"
    by (simp add: in_step_def watch_start_def SharedMemorySubscriber_new_def ring_partial_complete fresh_buffer_holds)
  ultimately show ?thesis by (auto simp: watch_inv_def accounted_def watch_start_def)
qed

lemma poll_in_step:
  assumes "in_step r w" and "w_open w = Map.empty" and "length (w_taken w) < 2 ^ 64"
  shows "snd (poll_events (Some (w_buf w)) (w_sub w, w_model w)) = fold model_add_event (w_taken w) TelemetryModel_new"
proof -
  have "drain_from (w_buf w) (of_nat r) = (drop r (w_taken w), of_nat (length (w_taken w)))"
    using assms by (intro drain_from_holds) (simp_all add: in_step_def ring_partial_complete)
  moreover have "fold model_add_event (drop r (w_taken w)) (w_model w) = fold model_add_event (w_taken w) TelemetryModel_new"
    using assms(1) fold_append [of model_add_event "take r (w_taken w)" "drop r (w_taken w)"] by (simp add: in_step_def)
  ultimately show ?thesis using assms(1) by (simp add: poll_events_def in_step_def Let_def)
qed

text \<open>With room in the ring the waiting events can all be published.\<close>

lemma watch_flush:
  assumes "w_open w = Map.empty" and "length (w_taken w) + length (w_due w) \<le> unat (local_read_index (w_sub w)) + AARCHGATE_RING_CAPACITY"
  shows "\<exists>w'. (watch_step evaluate)\<^sup>*\<^sup>* w w' \<and> w_daemon w' = w_daemon w \<and> w_due w' = [] \<and> w_open w' = Map.empty"
  using assms
proof (induction "w_due w" arbitrary: w)
  case Nil
  then show ?case by (intro exI [of _ w]) simp
next
  case (Cons x xs)
  let ?t = "take_position 0 w" and ?idx = "fst (publish_reserve (w_buf w))"
  let ?u = "?t\<lparr>w_open := (w_open ?t)(length (w_taken w) := None), w_buf := publish_store ?idx x (w_buf ?t)\<rparr>"
  have d: "w_due w = x # xs" using Cons.hyps(2) by simp
  have "watch_step evaluate w ?t" using Cons.prems(2) d by (intro watch_take) simp_all
  moreover have "watch_step evaluate ?t ?u" using d by (intro watch_store) (simp add: take_position_def)
  moreover have "\<exists>w'. (watch_step evaluate)\<^sup>*\<^sup>* ?u w' \<and> w_daemon w' = w_daemon ?u \<and> w_due w' = [] \<and> w_open w' = Map.empty"
    using Cons.prems d by (intro Cons.hyps(1)) (simp_all add: take_position_def remove_nth_def)
  moreover have "w_daemon ?u = w_daemon w" by (simp add: take_position_def)
  ultimately show ?case by (metis converse_rtranclp_into_rtranclp)
qed

lemma filter_length_mset: "mset xs = mset ys \<Longrightarrow> length (filter P xs) = length (filter P ys)"
  by (metis mset_filter size_mset)

section \<open>The process tree is a forest\<close>

text \<open>Parent and children of a process; children of an unknown process are none.\<close>

definition parent_of :: "TelemetryModel \<Rightarrow> u64 \<rightharpoonup> u64" where
  "parent_of m p = map_option pn_ppid (tm_processes m p)"

definition children_of :: "TelemetryModel \<Rightarrow> u64 \<Rightarrow> u64 list" where
  "children_of m p = (case tm_processes m p of None \<Rightarrow> [] | Some n \<Rightarrow> pn_children n)"

text \<open>
  A rank (the order of arrival) grows along every edge that is not a self-loop, a child names its
  parent, and no root has itself as parent except process 0, which has no children.
\<close>

definition ranked :: "(u64 \<Rightarrow> nat) \<Rightarrow> TelemetryModel \<Rightarrow> bool" where
  "ranked rk m \<longleftrightarrow> (\<forall>p \<in> dom (parent_of m). rk p < card (dom (parent_of m))) \<and>
     (\<forall>p. \<forall>c \<in> set (children_of m p). c \<noteq> p \<longrightarrow> rk p < rk c)"

definition forest :: "TelemetryModel \<Rightarrow> bool" where
  "forest m \<longleftrightarrow> finite (dom (parent_of m)) \<and> (\<exists>rk. ranked rk m) \<and>
     (\<forall>p. \<forall>c \<in> set (children_of m p). p \<noteq> 0 \<and> parent_of m c = Some p) \<and>
     (\<forall>p. children_of m p \<noteq> [] \<longrightarrow> p \<in> dom (parent_of m)) \<and>
     (\<forall>r \<in> set (tm_root_pids m). r \<in> dom (parent_of m) \<and> (r = 0 \<or> parent_of m r \<noteq> Some r))"

lemma add_process_known: "tm_processes m (me_pid ev) \<noteq> None \<Longrightarrow> add_process ev m = m"
  by (simp add: add_process_def)

lemma add_process_new:
  assumes "tm_processes m (me_pid ev) = None"
  defines "attached \<equiv> me_ppid ev \<noteq> 0 \<and> (me_ppid ev = me_pid ev \<or> tm_processes m (me_ppid ev) \<noteq> None)"
  shows "parent_of (add_process ev m) = (parent_of m)(me_pid ev \<mapsto> me_ppid ev)"
    "children_of (add_process ev m) =
       (if attached then (children_of m)(me_ppid ev := children_of m (me_ppid ev) @ [me_pid ev]) else children_of m)"
    "tm_root_pids (add_process ev m) = tm_root_pids m @ (if attached then [] else [me_pid ev])"
proof -
  show "parent_of (add_process ev m) = (parent_of m)(me_pid ev \<mapsto> me_ppid ev)"
    using assms(1) by (auto simp: fun_eq_iff parent_of_def add_process_def new_node_def Let_def split: option.splits if_splits)
  show "children_of (add_process ev m) =
       (if attached then (children_of m)(me_ppid ev := children_of m (me_ppid ev) @ [me_pid ev]) else children_of m)"
    using assms(1) by (auto simp: attached_def fun_eq_iff children_of_def add_process_def new_node_def Let_def split: option.splits if_splits)
  show "tm_root_pids (add_process ev m) = tm_root_pids m @ (if attached then [] else [me_pid ev])"
    using assms(1) by (auto simp: attached_def add_process_def Let_def split: option.splits if_splits)
qed

lemma ranked_add:
  assumes rk: "ranked rk m" and f: "forest m" and new: "tm_processes m (me_pid ev) = None"
  shows "ranked (rk(me_pid ev := card (dom (parent_of m)))) (add_process ev m)"
proof -
  let ?p = "me_pid ev" and ?q = "me_ppid ev" and ?n = "card (dom (parent_of m))"
  let ?rk = "rk(?p := ?n)"
  have pn: "?p \<notin> dom (parent_of m)" and nc: "children_of m ?p = []" using new by (simp_all add: parent_of_def children_of_def dom_def)
  have card: "card (dom ((parent_of m)(?p \<mapsto> ?q))) = Suc ?n" using f pn by (simp add: forest_def)
  have bound: "?rk p < Suc ?n" if "p \<in> dom ((parent_of m)(?p \<mapsto> ?q))" for p
    using that rk by (auto simp: ranked_def less_Suc_eq)
  have old: "?rk p < ?rk c" if "c \<in> set (children_of m p)" "c \<noteq> p" for p c
  proof -
    have "c \<in> dom (parent_of m)" "p \<noteq> ?p" using f that nc by (auto simp: forest_def)
    then show ?thesis using that rk pn by (auto simp: ranked_def)
  qed
  have edge: "?rk ?q < ?rk ?p" if "?q \<noteq> ?p" "tm_processes m ?q \<noteq> None"
    using that rk by (auto simp: ranked_def parent_of_def)
  show ?thesis using card bound old edge by (auto simp: ranked_def add_process_new [OF new] split: if_splits)
qed

lemma forest_add_process: "forest m \<Longrightarrow> forest (add_process ev m)"
proof (cases "tm_processes m (me_pid ev) = None")
  case True
  assume f: "forest m"
  then obtain rk where rk: "ranked rk m" by (auto simp: forest_def)
  have pn: "me_pid ev \<notin> dom (parent_of m)" using True by (simp add: parent_of_def dom_def)
  have old: "c \<noteq> me_pid ev" if "c \<in> set (children_of m p)" for p c using f that pn by (force simp: forest_def)
  have roots: "r \<in> dom (parent_of m) \<and> r \<noteq> me_pid ev \<and> (r = 0 \<or> parent_of m r \<noteq> Some r)" if "r \<in> set (tm_root_pids m)" for r
    using f that pn by (auto simp: forest_def)
  show ?thesis unfolding forest_def
  proof (intro conjI)
    show "finite (dom (parent_of (add_process ev m)))" using f True by (simp add: forest_def add_process_new)
    show "\<exists>rk. ranked rk (add_process ev m)" using ranked_add [OF rk f True] by blast
    show "\<forall>p. \<forall>c\<in>set (children_of (add_process ev m) p). p \<noteq> 0 \<and> parent_of (add_process ev m) c = Some p"
      using f old by (auto simp: add_process_new [OF True] forest_def split: if_splits)
    show "\<forall>p. children_of (add_process ev m) p \<noteq> [] \<longrightarrow> p \<in> dom (parent_of (add_process ev m))"
      using f by (auto simp: add_process_new [OF True] forest_def parent_of_def dom_def split: if_splits)
    show "\<forall>r\<in>set (tm_root_pids (add_process ev m)). r \<in> dom (parent_of (add_process ev m)) \<and> (r = 0 \<or> parent_of (add_process ev m) r \<noteq> Some r)"
      using roots by (auto simp: add_process_new [OF True])
  qed
qed (simp add: add_process_known)

lemma forest_cong: "tm_processes m' = tm_processes m \<Longrightarrow> tm_root_pids m' = tm_root_pids m \<Longrightarrow> forest m' = forest m"
proof -
  assume p: "tm_processes m' = tm_processes m" and r: "tm_root_pids m' = tm_root_pids m"
  have "parent_of m' = parent_of m" by (rule ext) (simp only: parent_of_def p)
  moreover have "children_of m' = children_of m" by (rule ext) (simp only: children_of_def p)
  ultimately show ?thesis by (simp only: forest_def ranked_def r)
qed

lemma forest_add_event: "forest m \<Longrightarrow> forest (model_add_event ev m)"
proof -
  assume f: "forest m"
  have "forest (m\<lparr>tm_vm_running := x, tm_vm_status_desc := y\<rparr>)" for x y
    using f forest_cong [of "m\<lparr>tm_vm_running := x, tm_vm_status_desc := y\<rparr>" m] by simp
  moreover have "forest (count_violations ev (count_event ev (m\<lparr>tm_logs := l\<rparr>)))" for l
    using f forest_cong [of "count_violations ev (count_event ev (m\<lparr>tm_logs := l\<rparr>))" m]
    by (simp add: count_violations_def count_event_def Let_def)
  ultimately show ?thesis using forest_add_process by (simp add: model_add_event_def Let_def)
qed

lemma forest_events: "forest (fold model_add_event es TelemetryModel_new)"
proof -
  have "forest TelemetryModel_new"
    by (simp add: forest_def ranked_def TelemetryModel_new_def parent_of_def children_of_def dom_def)
  then have "forest m \<Longrightarrow> forest (fold model_add_event es m)" for m by (induction es arbitrary: m) (auto simp: forest_add_event)
  then show ?thesis using \<open>forest TelemetryModel_new\<close> .
qed

section \<open>Drawing ends\<close>

lemma draw_children_defined: "(\<And>c x l. c \<in> set cs \<Longrightarrow> draw_process_node f m c x l \<noteq> None) \<Longrightarrow> draw_children f m cs x \<noteq> None"
proof (induction cs arbitrary: x)
  case (Cons c cs)
  have "draw_children f m cs x \<noteq> None" using Cons.IH Cons.prems by simp
  moreover have "draw_process_node f m c x (cs = []) \<noteq> None" using Cons.prems by simp
  ultimately show ?case by auto
qed simp

lemma draw_defined:
  assumes f: "forest m" and rk: "ranked rk m"
  shows "p \<in> dom (parent_of m) \<Longrightarrow> p \<notin> set (children_of m p) \<Longrightarrow> card (dom (parent_of m)) - rk p \<le> n \<Longrightarrow>
    draw_process_node n m p x l \<noteq> None"
proof (induction n arbitrary: p x l)
  case 0
  then have "rk p < card (dom (parent_of m))" using rk by (simp add: ranked_def)
  then show ?case using 0 by simp
next
  case (Suc n)
  obtain node where node: "tm_processes m p = Some node" using Suc.prems(1) by (auto simp: parent_of_def)
  have "draw_process_node n m c y k \<noteq> None" if "c \<in> set (children_of m p)" for c y k
  proof (rule Suc.IH)
    have c: "parent_of m c = Some p" "c \<noteq> p" using f that Suc.prems(2) by (auto simp: forest_def)
    then show "c \<in> dom (parent_of m)" by blast
    show "c \<notin> set (children_of m c)" using f c by (force simp: forest_def)
    have "rk p < rk c" using rk that c by (simp add: ranked_def)
    then show "card (dom (parent_of m)) - rk c \<le> n" using Suc.prems(3) by simp
  qed
  then have "draw_children n m (pn_children node) (x @ indent l) \<noteq> None" using node by (intro draw_children_defined) (simp add: children_of_def)
  then show ?case using node by auto
qed

lemma draw_mono:
  "draw_process_node f m p x l = Some s \<Longrightarrow> draw_process_node (f + k) m p x l = Some s"
  "draw_children f m cs x = Some s \<Longrightarrow> draw_children (f + k) m cs x = Some s"
proof (induction f m p x l and f m cs x arbitrary: s and s rule: draw_process_node_draw_children.induct)
  case (4 f m c cs x)
  then show ?case by (auto split: option.splits)
qed (auto split: option.splits)

lemma draw_tree_defined:
  assumes "forest m"
  shows "draw_tree (card (dom (tm_processes m))) m \<noteq> None"
proof -
  have d: "dom (tm_processes m) = dom (parent_of m)" by (auto simp: parent_of_def)
  obtain rk where rk: "ranked rk m" using assms by (auto simp: forest_def)
  have "draw_process_node (card (dom (parent_of m))) m r x l \<noteq> None" if "r \<in> set (tm_root_pids m)" for r x l
  proof (rule draw_defined [OF assms rk])
    show "r \<in> dom (parent_of m)" using assms that by (simp add: forest_def)
    show "r \<notin> set (children_of m r)" using assms that by (auto simp: forest_def)
  qed simp
  then show ?thesis unfolding draw_tree_def d by (intro draw_children_defined)
qed

text \<open>
  A process that names itself as its parent becomes its own child: it is not a root and no other
  process lists it, so neither it nor what it starts is drawn.
\<close>

lemma self_parent_hidden:
  assumes "tm_processes m (me_pid ev) = None" and "me_ppid ev = me_pid ev" and "me_pid ev \<noteq> 0" and "forest m"
  shows "tm_root_pids (add_process ev m) = tm_root_pids m \<and> {p. me_pid ev \<in> set (children_of (add_process ev m) p)} = {me_pid ev}"
proof -
  have "me_pid ev \<notin> set (children_of m p)" for p
  proof
    assume "me_pid ev \<in> set (children_of m p)"
    then have "parent_of m (me_pid ev) = Some p" using assms(4) by (simp add: forest_def)
    then show False using assms(1) by (simp add: parent_of_def)
  qed
  then show ?thesis using assms by (auto simp: add_process_new)
qed

section \<open>Keyboard\<close>

text \<open>Keys that leave a pending question open; the screen says that any key but Y cancels it.\<close>

definition keeps_asking :: "char \<Rightarrow> bool" where
  "keeps_asking key \<longleftrightarrow> key = CHR 0x00 \<or> key \<in> set ''qQhHdD''"

lemma handle_key_disabled:
  "protection_disabled (handle_key ok key u) \<Longrightarrow> protection_disabled u \<or> awaiting_disable_confirm u \<and> key \<in> set ''yY'' \<or> key \<in> set ''tT''"
  by (auto simp: handle_key_def set_protection_disabled_def split: if_splits)

lemma handle_key_awaiting:
  "awaiting_disable_confirm (handle_key ok key u) \<Longrightarrow> awaiting_disable_confirm u \<and> keeps_asking key \<or> key \<in> set ''dD''"
  by (auto simp: handle_key_def set_protection_disabled_def keeps_asking_def split: if_splits)

text \<open>A question was asked and nothing but keys that keep it open came since.\<close>

definition asked :: "(bool \<times> char) list \<Rightarrow> bool" where
  "asked ks \<longleftrightarrow> (\<exists>xs d ys. ks = xs @ d # ys \<and> snd d \<in> set ''dD'' \<and> list_all (keeps_asking \<circ> snd) ys)"

lemma asked_snoc: "asked ks \<Longrightarrow> keeps_asking (snd k) \<Longrightarrow> asked (ks @ [k])"
proof -
  assume "asked ks" and k: "keeps_asking (snd k)"
  then obtain xs d ys where "ks = xs @ d # ys" "snd d \<in> set ''dD''" "list_all (keeps_asking \<circ> snd) ys" unfolding asked_def by blast
  then have "ks @ [k] = xs @ d # (ys @ [k])" "snd d \<in> set ''dD''" "list_all (keeps_asking \<circ> snd) (ys @ [k])" using k by simp_all
  then show ?thesis unfolding asked_def by blast
qed

lemma handle_keys_snoc: "handle_keys (ks @ [k]) u = handle_key (fst k) (snd k) (handle_keys ks u)"
  by (simp add: handle_keys_def case_prod_unfold)

lemma awaiting_asked:
  assumes "\<not> awaiting_disable_confirm u"
  shows "awaiting_disable_confirm (handle_keys ks u) \<Longrightarrow> asked ks"
proof (induction ks rule: rev_induct)
  case (snoc k ks)
  then consider "awaiting_disable_confirm (handle_keys ks u)" "keeps_asking (snd k)" | "snd k \<in> set ''dD''"
    using handle_key_awaiting [of "fst k" "snd k" "handle_keys ks u"] by (auto simp: handle_keys_snoc)
  then show ?case
  proof cases
    case 1
    then show ?thesis using snoc.IH asked_snoc by blast
  next
    case 2
    then have "ks @ [k] = ks @ k # []" "list_all (keeps_asking \<circ> snd) []" by simp_all
    then show ?thesis using 2 unfolding asked_def by blast
  qed
qed (use assms in \<open>simp add: handle_keys_def\<close>)

section \<open>Properties\<close>



text \<open>
  Claim C33. Drawing the process tree ends for every stream of events, forged parents included: with
  at least as much stack depth as there are processes the recursion returns, and the text does not
  depend on the depth.
\<close>

theorem process_tree_drawn:
  "let m = fold model_add_event es TelemetryModel_new
   in \<exists>screen. \<forall>k. draw_tree (card (dom (tm_processes m)) + k) m = Some screen"
proof -
  define m where "m = fold model_add_event es TelemetryModel_new"
  obtain s where "draw_tree (card (dom (tm_processes m))) m = Some s"
    using draw_tree_defined [OF forest_events [of es]] unfolding m_def by blast
  then have "\<exists>s. \<forall>k. draw_tree (card (dom (tm_processes m)) + k) m = Some s" using draw_mono(2) unfolding draw_tree_def by blast
  then show ?thesis by (simp add: m_def Let_def)
qed

text \<open>
  Protection is switched off only on request: if it was on and no question was pending, and
  it is off after some keys, then a T was pressed, or a D and after it a Y with nothing between them
  but keys that leave the question open (Q, H and D do, although the screen says that any key other
  than Y cancels).
\<close>

lemma protection_off_on_request:
  assumes "\<not> protection_disabled u" and "\<not> awaiting_disable_confirm u" and "protection_disabled (handle_keys ks u)"
  shows "(\<exists>k \<in> set ks. snd k \<in> set ''tT'') \<or> (\<exists>xs y zs. ks = xs @ y # zs \<and> asked xs \<and> snd y \<in> set ''yY'')"
  using assms(3)
proof (induction ks rule: rev_induct)
  case (snoc k ks)
  then consider "protection_disabled (handle_keys ks u)" | "awaiting_disable_confirm (handle_keys ks u)" "snd k \<in> set ''yY''" | "snd k \<in> set ''tT''"
    using handle_key_disabled [of "fst k" "snd k" "handle_keys ks u"] by (auto simp: handle_keys_snoc)
  then show ?case
  proof cases
    case 1
    then show ?thesis using snoc.IH by (metis Un_iff append_Cons append.assoc set_append)
  next
    case 2
    then have "asked ks" using awaiting_asked [OF assms(2)] by blast
    then show ?thesis using 2(2) by blast
  next
    case 3
    then show ?thesis by auto
  qed
qed (use assms(1) in \<open>simp add: handle_keys_def\<close>)

lemma protection_off_on_request_witness:
  "(\<exists>k \<in> set [(True, CHR ''D''), (True, CHR ''h''), (True, CHR ''y'')]. snd k \<in> set ''tT'') \<or>
   (\<exists>xs y zs. [(True, CHR ''D''), (True, CHR ''h''), (True, CHR ''y'')] = xs @ y # zs \<and> asked xs \<and> snd y \<in> set ''yY'')"
  by (rule protection_off_on_request
      [of "\<lparr>g_stop = False, g_show_help = False, awaiting_disable_confirm = False, protection_disabled = False\<rparr>"])
    (simp_all add: handle_keys_def handle_key_def set_protection_disabled_def)

text \<open>The risk on the screen is 0 without violations and between 80 and 100 with them.\<close>

lemma model_risk_range: "model_risk m = 0 \<and> tm_total_violations m = 0 \<or> 80 \<le> model_risk m \<and> model_risk m \<le> 100 \<and> 0 < tm_total_violations m"
proof (cases "tm_total_violations m = 0")
  case False
  define x :: u32 where "x = min (ucast (tm_total_violations m * 5)) 20"
  have "x \<le> 20" by (simp add: x_def)
  then have "unat x \<le> 20" by (simp add: word_le_nat_alt)
  then have "unat (80 + x) = 80 + unat x" by (simp add: unat_word_ariths)
  then have "80 \<le> 80 + x \<and> 80 + x \<le> 100" using \<open>unat x \<le> 20\<close> by (simp add: word_le_nat_alt)
  then show ?thesis using False by (simp add: model_risk_def x_def word_gt_0)
qed (simp add: model_risk_def)

end
