(* ===== verification/Reputation.thy ===== *)
theory Reputation
  imports AG_Prelude
begin

text \<open>
  The reputation scorer (\<open>src/host/reputation_scorer.cpp\<close>): the score of a package, the decision
  whether a cached package may be served without a new scan, and the capability policy.
\<close>

section \<open>Data\<close>

record PackageMetadata =
  pm_name :: string
  pm_version :: string
  pm_author :: string
  pm_age_days :: u32
  pm_has_install_scripts :: bool
  pm_has_sigstore_provenance :: bool
  pm_file_count :: u64
  pm_total_size_bytes :: u64

record CapabilityPolicy =
  allow_network :: bool
  allowed_paths :: "string list"
  allowed_executables :: "string list"
  is_strict :: bool

record ReputationResult =
  rr_score :: u32
  rr_verdict :: string
  rr_risk_factors :: "string list"

record HotPathDecision =
  hp_eligible :: bool
  hp_reason :: string

section \<open>Operations\<close>

text \<open>One \<open>if\<close> of \<open>score_package\<close>: the points subtracted from an unsigned score and the text added.\<close>

definition risk_factor :: "bool \<Rightarrow> u32 \<Rightarrow> string \<Rightarrow> u32 \<times> string list \<Rightarrow> u32 \<times> string list" where
  "risk_factor cond points factor acc = (if cond then (fst acc - points, snd acc @ [factor]) else acc)"

definition score_package :: "PackageMetadata \<Rightarrow> ReputationResult" where
  "score_package meta =
     (let acc = (100, []);
          acc = risk_factor (pm_has_install_scripts meta) 20 ''Package contains lifecycle install scripts (postinstall/preinstall)'' acc;
          acc = risk_factor (pm_age_days meta < 7) 40 ''Package was published less than 7 days ago (high squatting risk)'' acc;
          acc = risk_factor (\<not> pm_age_days meta < 7 \<and> pm_age_days meta < 30) 15 ''Package was published less than 30 days ago'' acc;
          acc = risk_factor (\<not> pm_has_sigstore_provenance meta) 10 ''Package lacks Sigstore build provenance signature'' acc;
          acc = risk_factor (5000 < pm_file_count meta) 15 ''Abnormally high file count in package distribution'' acc
      in \<lparr>rr_score = fst acc,
          rr_verdict = (if 80 \<le> fst acc then ''PASS'' else if 50 \<le> fst acc then ''FLAGGED'' else ''REJECT''),
          rr_risk_factors = snd acc\<rparr>)"

text \<open>\<open>None\<close>: the manifest could not be opened.\<close>

definition load_capability_policy :: "string option \<Rightarrow> CapabilityPolicy" where
  "load_capability_policy manifest =
     \<lparr>allow_network = (case manifest of None \<Rightarrow> False | Some content \<Rightarrow> has_sub content ([dq] @ ''allow_network'' @ [dq] @ '': true'')),
      allowed_paths = [''/workspace/'', ''/tmp/''], allowed_executables = [], is_strict = True\<rparr>"

definition is_hot_path_eligible :: "PackageMetadata \<Rightarrow> string \<Rightarrow> bool \<Rightarrow> u32 \<Rightarrow> HotPathDecision" where
  "is_hot_path_eligible meta integrity_hash cars_hit reputation_threshold =
     (if \<not> cars_hit then \<lparr>hp_eligible = False, hp_reason = ''Not a CARS hit''\<rparr>
      else let res = score_package meta
           in if rr_score res < reputation_threshold then \<lparr>hp_eligible = False, hp_reason = ''Reputation score below threshold''\<rparr>
              else if \<not> pm_has_sigstore_provenance meta \<and> rr_score res < 90
              then \<lparr>hp_eligible = False, hp_reason = ''Missing sigstore provenance and score below 90''\<rparr>
              else \<lparr>hp_eligible = True, hp_reason = ''Eligible for hot path''\<rparr>)"

section \<open>The score\<close>

definition weight :: "bool \<Rightarrow> nat \<Rightarrow> nat" where
  "weight b n = (if b then n else 0)"

text \<open>The points a package loses, as a number.\<close>

definition demerits :: "PackageMetadata \<Rightarrow> nat" where
  "demerits meta = weight (pm_has_install_scripts meta) 20 + weight (pm_age_days meta < 7) 40 +
     weight (7 \<le> pm_age_days meta \<and> pm_age_days meta < 30) 15 + weight (\<not> pm_has_sigstore_provenance meta) 10 +
     weight (5000 < pm_file_count meta) 15"

lemma demerits_le: "demerits meta \<le> 85"
  by (auto simp: demerits_def weight_def)

text \<open>The unsigned subtraction never wraps, and a factor is named for every reason points are lost.\<close>

lemma score_exact: "rr_score (score_package meta) = of_nat (100 - demerits meta)"
  by (cases "pm_has_install_scripts meta"; cases "pm_age_days meta < 7"; cases "pm_age_days meta < 30";
      cases "pm_has_sigstore_provenance meta"; cases "5000 < pm_file_count meta")
    (auto simp: score_package_def risk_factor_def demerits_def weight_def Let_def not_less)

lemma unat_score: "unat (rr_score (score_package meta)) = 100 - demerits meta"
proof -
  have "(100 - demerits meta) mod 2 ^ 32 = 100 - demerits meta" by (rule mod_less) simp
  then show ?thesis by (simp add: score_exact unat_of_nat)
qed

lemma score_range: "15 \<le> unat (rr_score (score_package meta)) \<and> unat (rr_score (score_package meta)) \<le> 100"
  using demerits_le [of meta] unfolding unat_score by arith

lemma verdict_exact:
  "rr_verdict (score_package meta) =
     (if demerits meta \<le> 20 then ''PASS'' else if demerits meta \<le> 50 then ''FLAGGED'' else ''REJECT'')"
proof -
  have "rr_verdict (score_package meta) = (if 80 \<le> rr_score (score_package meta) then ''PASS''
    else if 50 \<le> rr_score (score_package meta) then ''FLAGGED'' else ''REJECT'')"
    by (simp add: score_package_def Let_def)
  then show ?thesis using demerits_le [of meta] by (simp add: word_le_nat_alt unat_score) arith
qed

lemma eligible_iff:
  "hp_eligible (is_hot_path_eligible meta h cars_hit t) \<longleftrightarrow>
     cars_hit \<and> t \<le> rr_score (score_package meta) \<and> (pm_has_sigstore_provenance meta \<or> 90 \<le> rr_score (score_package meta))"
  by (auto simp: is_hot_path_eligible_def Let_def not_less)

section \<open>Properties\<close>

text \<open>
  The hot path at its default threshold, spelt out: a package is served without a new scan if
  and only if it is in the store, at least a week old, and has none of the risks (install scripts,
  younger than 30 days, more than 5000 files); with build provenance one of them is forgiven. Neither the
  integrity hash nor an earlier scan result is looked at.
\<close>

lemma hot_path_exact:
  "hp_eligible (is_hot_path_eligible meta h cars_hit 80) \<longleftrightarrow>
     cars_hit \<and> 7 \<le> pm_age_days meta \<and>
     weight (pm_has_install_scripts meta) 1 + weight (pm_age_days meta < 30) 1 + weight (5000 < pm_file_count meta) 1
       \<le> weight (pm_has_sigstore_provenance meta) 1"
proof -
  have "hp_eligible (is_hot_path_eligible meta h cars_hit 80) \<longleftrightarrow>
    cars_hit \<and> demerits meta \<le> (if pm_has_sigstore_provenance meta then 20 else 10)"
    using demerits_le [of meta] by (auto simp: eligible_iff word_le_nat_alt unat_score)
  also have "\<dots> \<longleftrightarrow> cars_hit \<and> 7 \<le> pm_age_days meta \<and>
     weight (pm_has_install_scripts meta) 1 + weight (pm_age_days meta < 30) 1 + weight (5000 < pm_file_count meta) 1
       \<le> weight (pm_has_sigstore_provenance meta) 1"
    by (cases "pm_has_install_scripts meta"; cases "pm_age_days meta < 7"; cases "pm_age_days meta < 30";
        cases "pm_has_sigstore_provenance meta"; cases "5000 < pm_file_count meta")
      (auto simp: demerits_def weight_def not_less)
  finally show ?thesis .
qed

end
