(* ===== verification/Bitwise_Policy.thy ===== *)
theory Bitwise_Policy
  imports AG_Prelude
begin

text \<open>
  The capability bitmask policy (\<open>src/host/bitwise_policy.cpp\<close>): the mask of an event, the scalar
  test and the vector routine, which tests two masks at a time with NEON instructions.
\<close>

section \<open>Masks\<close>

definition CAP_NONE :: u64 where "CAP_NONE = 0"
definition CAP_OPEN_READ :: u64 where "CAP_OPEN_READ = push_bit 0 1"
definition CAP_OPEN_WRITE :: u64 where "CAP_OPEN_WRITE = push_bit 1 1"
definition CAP_EXECVE :: u64 where "CAP_EXECVE = push_bit 2 1"
definition CAP_CONNECT_NET :: u64 where "CAP_CONNECT_NET = push_bit 3 1"
definition CAP_UNLINK :: u64 where "CAP_UNLINK = push_bit 4 1"
definition CAP_PATH_SENSITIVE :: u64 where "CAP_PATH_SENSITIVE = push_bit 5 1"
definition CAP_PATH_WORKSPACE :: u64 where "CAP_PATH_WORKSPACE = push_bit 6 1"
definition CAP_ALL :: u64 where "CAP_ALL = 0xFFFFFFFFFFFFFFFF"

lemmas cap_defs = CAP_NONE_def CAP_OPEN_READ_def CAP_OPEN_WRITE_def CAP_EXECVE_def CAP_CONNECT_NET_def CAP_UNLINK_def
  CAP_PATH_SENSITIVE_def CAP_PATH_WORKSPACE_def CAP_ALL_def

definition event_mask :: "string \<Rightarrow> u64" where
  "event_mask event_type =
     (if event_type = ''EVENT_OPEN'' then CAP_OPEN_READ
      else if event_type = ''EVENT_WRITE'' then CAP_OPEN_WRITE
      else if event_type = ''EVENT_EXECVE'' then CAP_EXECVE
      else if event_type = ''EVENT_CONNECT'' then CAP_CONNECT_NET
      else if event_type = ''EVENT_UNLINK'' then CAP_UNLINK
      else CAP_NONE)"

definition path_mask :: "string \<Rightarrow> u64" where
  "path_mask target_path =
     (if has_sub target_path ''.ssh'' \<or> has_sub target_path ''.env'' \<or> has_sub target_path ''/etc/'' then CAP_PATH_SENSITIVE
      else if has_sub target_path ''node_modules'' \<or> has_sub target_path ''/tmp'' then CAP_PATH_WORKSPACE
      else CAP_NONE)"

definition map_event_to_bitmask :: "string \<Rightarrow> string \<Rightarrow> u64" where
  "map_event_to_bitmask event_type target_path = CAP_NONE OR event_mask event_type OR path_mask target_path"

section \<open>Evaluation\<close>

definition evaluate_fast :: "u64 \<Rightarrow> u64 \<Rightarrow> u64 \<Rightarrow> bool" where
  "evaluate_fast requested_mask allowed_mask denied_mask =
     (if requested_mask AND denied_mask \<noteq> 0 then False else requested_mask AND allowed_mask = requested_mask)"

text \<open>A NEON register of two lanes and the instructions used.\<close>

type_synonym uint64x2 = "u64 \<times> u64"

definition vdupq_n_u64 :: "u64 \<Rightarrow> uint64x2" where "vdupq_n_u64 x = (x, x)"

definition vandq_u64 :: "uint64x2 \<Rightarrow> uint64x2 \<Rightarrow> uint64x2" where
  "vandq_u64 a b = (fst a AND fst b, snd a AND snd b)"

definition vceqq_u64 :: "uint64x2 \<Rightarrow> uint64x2 \<Rightarrow> uint64x2" where
  "vceqq_u64 a b = (if fst a = fst b then 0xFFFFFFFFFFFFFFFF else 0, if snd a = snd b then 0xFFFFFFFFFFFFFFFF else 0)"

definition neon_pair :: "u64 \<Rightarrow> u64 \<Rightarrow> uint64x2 \<Rightarrow> uint64x2" where
  "neon_pair allowed_mask denied_mask v_req =
     (let v_allowed = vdupq_n_u64 allowed_mask;
          v_denied = vdupq_n_u64 denied_mask;
          v_zero = vdupq_n_u64 0;
          v_denied_check = vandq_u64 v_req v_denied;
          v_denied_pass = vceqq_u64 v_denied_check v_zero;
          v_allowed_check = vandq_u64 v_req v_allowed;
          v_allowed_pass = vceqq_u64 v_allowed_check v_req
      in vandq_u64 v_denied_pass v_allowed_pass)"

definition lane_result :: "u64 \<Rightarrow> u8" where
  "lane_result r = (if r = 0xFFFFFFFFFFFFFFFF then 1 else 0)"

text \<open>
  The two loops. \<open>None\<close> when an access would be outside \<open>requested_masks\<close> or
  \<open>out_results\<close>.
\<close>

function neon_loop :: "u64 list \<Rightarrow> u64 \<Rightarrow> u64 \<Rightarrow> nat \<Rightarrow> nat \<Rightarrow> u8 list \<Rightarrow> (nat \<times> u8 list) option" where
  "neon_loop req a d count i out =
     (if i + 1 < count
      then if i + 1 < length req \<and> i + 1 < length out
           then let res = neon_pair a d (req ! i, req ! (i + 1))
                in neon_loop req a d count (i + 2) (out[i := lane_result (fst res), i + 1 := lane_result (snd res)])
           else None
      else Some (i, out))"
  by pat_completeness auto
termination by (relation "measure (\<lambda>(req, a, d, count, i, out). count - i)") auto

function tail_loop :: "u64 list \<Rightarrow> u64 \<Rightarrow> u64 \<Rightarrow> nat \<Rightarrow> nat \<Rightarrow> u8 list \<Rightarrow> u8 list option" where
  "tail_loop req a d count i out =
     (if i < count
      then if i < length req \<and> i < length out
           then tail_loop req a d count (i + 1) (out[i := if evaluate_fast (req ! i) a d then 1 else 0])
           else None
      else Some out)"
  by pat_completeness auto
termination by (relation "measure (\<lambda>(req, a, d, count, i, out). count - i)") auto

declare neon_loop.simps [simp del] tail_loop.simps [simp del]

definition evaluate_batch_neon :: "u64 list \<Rightarrow> u64 \<Rightarrow> u64 \<Rightarrow> u8 list \<Rightarrow> nat \<Rightarrow> u8 list option" where
  "evaluate_batch_neon requested_masks allowed_mask denied_mask out_results count =
     (case neon_loop requested_masks allowed_mask denied_mask count 0 out_results of None \<Rightarrow> None
      | Some (i, out) \<Rightarrow> tail_loop requested_masks allowed_mask denied_mask count i out)"

section \<open>Correctness\<close>

text \<open>The scalar test bit by bit.\<close>

lemma evaluate_fast_iff: "evaluate_fast r a d \<longleftrightarrow> (\<forall>n. bit r n \<longrightarrow> bit a n \<and> \<not> bit d n)"
proof -
  have "r AND d = 0 \<longleftrightarrow> (\<forall>n. \<not> bit (r AND d) n)" by (auto intro: bit_eqI)
  then have "r AND d = 0 \<longleftrightarrow> (\<forall>n. \<not> (bit r n \<and> bit d n))" by (simp only: bit_and_iff)
  moreover have "r AND a = r \<longleftrightarrow> (\<forall>n. bit (r AND a) n \<longleftrightarrow> bit r n)" by (metis bit_eqI)
  then have "r AND a = r \<longleftrightarrow> (\<forall>n. bit r n \<longrightarrow> bit a n)" by (auto simp only: bit_and_iff)
  ultimately show ?thesis by (auto simp: evaluate_fast_def)
qed

lemma neon_pair_fast:
  "lane_result (fst (neon_pair a d (x, y))) = (if evaluate_fast x a d then 1 else 0)"
  "lane_result (snd (neon_pair a d (x, y))) = (if evaluate_fast y a d then 1 else 0)"
  by (simp_all add: neon_pair_def vandq_u64_def vceqq_u64_def vdupq_n_u64_def lane_result_def evaluate_fast_def Let_def)

text \<open>The results up to \<open>i\<close> written over the old buffer.\<close>

definition results_upto :: "u64 list \<Rightarrow> u64 \<Rightarrow> u64 \<Rightarrow> nat \<Rightarrow> u8 list \<Rightarrow> u8 list" where
  "results_upto req a d i out = map (\<lambda>r. if evaluate_fast r a d then 1 else 0) (take i req) @ drop i out"

lemma upto_step:
  assumes "i < length req" and "i < length out"
  shows "(results_upto req a d i out)[i := if evaluate_fast (req ! i) a d then 1 else 0] = results_upto req a d (i + 1) out"
  using assms by (simp add: results_upto_def list_update_append take_Suc_conv_app_nth Cons_nth_drop_Suc [symmetric])

lemma length_results: "i \<le> length req \<Longrightarrow> i \<le> length out \<Longrightarrow> length (results_upto req a d i out) = length out"
  by (simp add: results_upto_def)

lemma tail_loop_correct:
  assumes "count \<le> length req" and "count \<le> length out" and "i \<le> count"
  shows "tail_loop req a d count i (results_upto req a d i out) = Some (results_upto req a d count out)"
  using assms(3)
proof (induction "count - i" arbitrary: i)
  case 0
  then show ?case by (simp add: tail_loop.simps)
next
  case (Suc n)
  then have "i < length req" "i < length out" "i < length (results_upto req a d i out)" using assms by (simp_all add: length_results)
  then show ?case using Suc upto_step [of i req out a d] by (subst tail_loop.simps) simp
qed

lemma neon_loop_correct:
  assumes "count \<le> length req" and "count \<le> length out" and "i \<le> count"
  shows "\<exists>j \<le> count. neon_loop req a d count i (results_upto req a d i out) = Some (j, results_upto req a d j out)"
  using assms(3)
proof (induction "count - i" arbitrary: i rule: less_induct)
  case less
  show ?case
  proof (cases "i + 1 < count")
    case True
    let ?x = "if evaluate_fast (req ! i) a d then 1 else 0 :: u8" and ?y = "if evaluate_fast (req ! (i + 1)) a d then 1 else 0 :: u8"
    have "(results_upto req a d i out)[i := ?x, i + 1 := ?y] = results_upto req a d (i + 2) out"
      using True assms upto_step [of i req out a d] upto_step [of "i + 1" req out a d] by simp
    moreover have "length (results_upto req a d i out) = length out" using True assms by (simp add: length_results)
    ultimately have "neon_loop req a d count i (results_upto req a d i out) = neon_loop req a d count (i + 2) (results_upto req a d (i + 2) out)"
      using True assms by (subst neon_loop.simps) (simp add: neon_pair_fast Let_def)
    then show ?thesis using less.hyps [of "i + 2"] True by simp
  next
    case False
    then show ?thesis using less.prems by (subst neon_loop.simps) auto
  qed
qed

section \<open>Properties\<close>

text \<open>
  Claim C34. The vector routine agrees with the scalar test: for every number of masks, even or odd,
  it writes for each one whether \<open>evaluate_fast\<close> accepts it, leaves the rest of the result buffer
  alone and stays within both buffers.
\<close>

theorem batch_neon_equals_scalar:
  assumes "count \<le> length req" and "count \<le> length out"
  shows "evaluate_batch_neon req a d out count =
    Some (map (\<lambda>r. if evaluate_fast r a d then 1 else 0) (take count req) @ drop count out)"
proof -
  have "results_upto req a d 0 out = out" by (simp add: results_upto_def)
  then obtain j where "j \<le> count" "neon_loop req a d count 0 out = Some (j, results_upto req a d j out)"
    using neon_loop_correct [OF assms, of 0 a d] by auto
  then show ?thesis using tail_loop_correct [OF assms, of j a d] by (simp add: evaluate_batch_neon_def results_upto_def)
qed

theorem batch_neon_equals_scalar_witness:
  "evaluate_batch_neon [CAP_OPEN_READ, CAP_CONNECT_NET, CAP_EXECVE] CAP_ALL CAP_CONNECT_NET [7, 7, 7, 7] 3 = Some [1, 0, 1, 7]"
  using batch_neon_equals_scalar [of 3 "[CAP_OPEN_READ, CAP_CONNECT_NET, CAP_EXECVE]" "[7, 7, 7, 7]" CAP_ALL CAP_CONNECT_NET]
  by (simp add: evaluate_fast_def cap_defs)

text \<open>
  The policy fails open on events it does not know: an event type outside the five names (such as
  \<open>EVENT_EXEC\<close>, \<open>EVENT_FORK\<close>) on a path that is neither sensitive nor in the workspace asks for no
  capability, and every rule grants that.
\<close>

lemma unknown_event_allowed:
  assumes "event_type \<notin> {''EVENT_OPEN'', ''EVENT_WRITE'', ''EVENT_EXECVE'', ''EVENT_CONNECT'', ''EVENT_UNLINK''}" and "path_mask p = CAP_NONE"
  shows "evaluate_fast (map_event_to_bitmask event_type p) allowed denied"
  using assms by (simp add: map_event_to_bitmask_def event_mask_def evaluate_fast_def CAP_NONE_def)

text \<open>A known event needs its own capability, and a sensitive path needs the sensitive capability even in the workspace.\<close>

lemma sensitive_path_needs_capability:
  assumes "has_sub p ''.ssh'' \<or> has_sub p ''.env'' \<or> has_sub p ''/etc/''" and "evaluate_fast (map_event_to_bitmask t p) allowed denied"
  shows "bit allowed 5 \<and> \<not> bit denied 5"
proof -
  have "bit (map_event_to_bitmask t p) 5" using assms(1)
    by (simp add: map_event_to_bitmask_def path_mask_def CAP_PATH_SENSITIVE_def bit_or_iff bit_push_bit_iff)
  then show ?thesis using assms(2) by (simp add: evaluate_fast_iff)
qed

end
