(* ===== verification/File_Oracle.thy ===== *)
theory File_Oracle
  imports Byte_Codec "HOL-Library.Sublist"
begin

text \<open>
  The file access oracle (\<open>src/host/file_oracle.cpp\<close>): the traces of opened files per package, their
  file format and the prefetch. The files of the disk are a map from paths to bytes.
  Shown: a trace survives a restart, and a file that was cut off at any byte still yields a prefix of
  the trace.
\<close>

section \<open>State\<close>

record FileAccessRecord =
  fa_sequence_no :: u32
  fa_path :: string
  fa_offset :: u64
  fa_length :: u32

record FileOracle =
  oracle_dir :: string
  fo_traces :: "string \<rightharpoonup> FileAccessRecord list"
  seq_counter :: u32

type_synonym files = "string \<rightharpoonup> u8 list"

text \<open>\<open>home\<close> is the environment variable.\<close>

definition oracle_aarchgate_dir :: "string option \<Rightarrow> string" where
  "oracle_aarchgate_dir home = (case home of Some h \<Rightarrow> h @ ''/.aarchgate'' | None \<Rightarrow> ''/tmp/.aarchgate'')"

definition FileOracle_new :: "string option \<Rightarrow> string \<Rightarrow> FileOracle" where
  "FileOracle_new home dir =
     (let d = (if dir = [] then oracle_aarchgate_dir home @ ''/oracle/'' else dir);
          d = (if last d \<noteq> CHR ''/'' then d @ ''/'' else d)
      in \<lparr>oracle_dir = d, fo_traces = Map.empty, seq_counter = 0\<rparr>)"

definition safe_hash :: "string \<Rightarrow> string" where
  "safe_hash = map (\<lambda>c. if c = CHR ''/'' \<or> c = CHR ''+'' \<or> c = CHR ''='' then CHR ''_'' else c)"

definition trace_path :: "FileOracle \<Rightarrow> string \<Rightarrow> string" where
  "trace_path fo integrity_hash = oracle_dir fo @ safe_hash integrity_hash @ ''.trace''"

section \<open>Operations\<close>

definition record_access :: "string \<Rightarrow> string \<Rightarrow> FileOracle \<Rightarrow> FileOracle" where
  "record_access integrity_hash path fo =
     (let rec = \<lparr>fa_sequence_no = seq_counter fo, fa_path = path, fa_offset = 0, fa_length = 0\<rparr>
      in fo\<lparr>seq_counter := seq_counter fo + 1,
            fo_traces := (fo_traces fo)(integrity_hash \<mapsto> (case fo_traces fo integrity_hash of None \<Rightarrow> [] | Some t \<Rightarrow> t) @ [rec])\<rparr>)"

text \<open>One record as written: the length of the path is cut to 32 bits, and so many bytes of the path follow.\<close>

definition encode_access :: "FileAccessRecord \<Rightarrow> u8 list" where
  "encode_access rec =
     (let len = (of_nat (length (fa_path rec)) :: u32)
      in le_bytes 4 (fa_sequence_no rec) @ le_bytes 4 len @ take (unat len) (chars_bytes (fa_path rec)) @
         le_bytes 8 (fa_offset rec) @ le_bytes 4 (fa_length rec))"

text \<open>\<open>ok\<close>: the file could be opened for writing; a stream that could not drops all output.\<close>

definition flush_trace :: "bool \<Rightarrow> string \<Rightarrow> FileOracle \<Rightarrow> files \<Rightarrow> files" where
  "flush_trace ok integrity_hash fo disk =
     (case fo_traces fo integrity_hash of None \<Rightarrow> disk
      | Some trace \<Rightarrow> if ok then disk(trace_path fo integrity_hash \<mapsto> concat (map encode_access trace)) else disk)"

text \<open>\<open>in.read(\<dots>, n)\<close>: the bytes and the rest, \<open>None\<close> at the end of the file.\<close>

definition read_n :: "nat \<Rightarrow> u8 list \<Rightarrow> (u8 list \<times> u8 list) option" where
  "read_n n bs = (if length bs < n then None else Some (take n bs, drop n bs))"

definition read_access :: "u8 list \<Rightarrow> (FileAccessRecord \<times> u8 list) option" where
  "read_access bs =
     (case read_n 4 bs of None \<Rightarrow> None | Some (s, bs) \<Rightarrow>
      (case read_n 4 bs of None \<Rightarrow> None | Some (l, bs) \<Rightarrow>
      (case read_n (unat (le_word l :: u32)) bs of None \<Rightarrow> None | Some (p, bs) \<Rightarrow>
      (case read_n 8 bs of None \<Rightarrow> None | Some (off, bs) \<Rightarrow>
      (case read_n 4 bs of None \<Rightarrow> None | Some (len, bs) \<Rightarrow>
         Some (\<lparr>fa_sequence_no = le_word s, fa_path = bytes_chars p, fa_offset = le_word off, fa_length = le_word len\<rparr>, bs))))))"

lemma read_n_Some: "read_n n bs = Some (x, rest) \<longleftrightarrow> n \<le> length bs \<and> x = take n bs \<and> rest = drop n bs"
  by (auto simp: read_n_def)

lemma read_access_shorter: "read_access bs = Some (r, rest) \<Longrightarrow> length rest < length bs"
  by (auto simp: read_access_def read_n_Some split: option.splits) arith

text \<open>The loop \<open>while (in)\<close> of \<open>load_trace\<close>; every round consumes at least 20 bytes.\<close>

function read_trace :: "u8 list \<Rightarrow> FileAccessRecord list" where
  "read_trace bs = (case read_access bs of None \<Rightarrow> [] | Some (r, rest) \<Rightarrow> r # read_trace rest)"
  by pat_completeness auto
termination by (relation "measure length") (auto simp: read_access_shorter)

declare read_trace.simps [simp del]

definition load_trace :: "string \<Rightarrow> files \<Rightarrow> FileOracle \<Rightarrow> bool \<times> FileOracle" where
  "load_trace integrity_hash disk fo =
     (case disk (trace_path fo integrity_hash) of None \<Rightarrow> (False, fo)
      | Some bs \<Rightarrow> (True, fo\<lparr>fo_traces := (fo_traces fo)(integrity_hash \<mapsto> read_trace bs)\<rparr>))"

text \<open>
  The paths \<open>prefetch_for\<close> opens, in order; \<open>None\<close> when a recorded path is empty, as its
  \<open>front()\<close> is undefined.
\<close>

fun prefetch_paths :: "string \<Rightarrow> FileAccessRecord list \<Rightarrow> string list option" where
  "prefetch_paths base [] = Some []"
| "prefetch_paths base (rec # trace) =
     (case fa_path rec of [] \<Rightarrow> None
      | c # cs \<Rightarrow> map_option ((#) (base @ (if c = CHR ''/'' then cs else c # cs))) (prefetch_paths base trace))"

definition prefetch_for :: "string \<Rightarrow> string \<Rightarrow> FileOracle \<Rightarrow> string list option" where
  "prefetch_for integrity_hash workspace_dir fo =
     (case fo_traces fo integrity_hash of None \<Rightarrow> Some []
      | Some trace \<Rightarrow> prefetch_paths (if workspace_dir \<noteq> [] \<and> last workspace_dir \<noteq> CHR ''/'' then workspace_dir @ ''/'' else workspace_dir) trace)"

section \<open>The file format\<close>

definition access_wf :: "FileAccessRecord \<Rightarrow> bool" where
  "access_wf rec \<longleftrightarrow> length (fa_path rec) < 2 ^ 32"

lemma read_n_append: "length xs = n \<Longrightarrow> read_n n (xs @ ys) = Some (xs, ys)"
  by (simp add: read_n_def)

lemma encode_access_wf:
  assumes "access_wf rec"
  shows "encode_access rec = le_bytes 4 (fa_sequence_no rec) @ le_bytes 4 (of_nat (length (fa_path rec)) :: u32) @ chars_bytes (fa_path rec) @
    le_bytes 8 (fa_offset rec) @ le_bytes 4 (fa_length rec)"
  using assms by (simp add: encode_access_def access_wf_def unat_of_nat Let_def)

lemma read_access_encode: "access_wf rec \<Longrightarrow> read_access (encode_access rec @ rest) = Some (rec, rest)"
  by (simp add: encode_access_wf read_access_def read_n_append) (simp add: access_wf_def unat_of_nat read_n_append)

lemma read_trace_concat: "list_all access_wf t \<Longrightarrow> read_trace (concat (map encode_access t) @ rest) = t @ read_trace rest"
proof (induction t)
  case (Cons r t)
  then show ?case by (subst read_trace.simps) (simp add: read_access_encode)
qed simp

lemma read_trace_Nil: "read_trace [] = []"
  by (simp add: read_trace.simps read_access_def read_n_def)

lemma read_n_more: "read_n n bs = Some (x, rest) \<Longrightarrow> read_n n (bs @ ys) = Some (x, rest @ ys)"
  by (simp add: read_n_Some)

lemma read_access_more:
  assumes "read_access bs = Some (r, rest)"
  shows "read_access (bs @ ys) = Some (r, rest @ ys)"
proof -
  obtain s b1 l b2 p b3 off b4 len where
    n: "read_n 4 bs = Some (s, b1)" "read_n 4 b1 = Some (l, b2)" "read_n (unat (le_word l :: u32)) b2 = Some (p, b3)"
       "read_n 8 b3 = Some (off, b4)" "read_n 4 b4 = Some (len, rest)"
    and r: "r = \<lparr>fa_sequence_no = le_word s, fa_path = bytes_chars p, fa_offset = le_word off, fa_length = le_word len\<rparr>"
    using assms by (auto simp: read_access_def split: option.splits)
  show ?thesis using read_n_more [OF n(1), of ys] read_n_more [OF n(2), of ys] read_n_more [OF n(3), of ys]
    read_n_more [OF n(4), of ys] read_n_more [OF n(5), of ys] r by (simp add: read_access_def)
qed

text \<open>A record that is cut off is not read.\<close>

lemma read_access_cut:
  assumes "access_wf rec" and "k < length (encode_access rec)"
  shows "read_access (take k (encode_access rec)) = None"
proof (rule ccontr)
  assume "read_access (take k (encode_access rec)) \<noteq> None"
  then obtain r rest where r: "read_access (take k (encode_access rec)) = Some (r, rest)" by auto
  have "read_access (encode_access rec) = Some (r, rest @ drop k (encode_access rec))"
    using read_access_more [OF r, of "drop k (encode_access rec)"] by simp
  then show False using read_access_encode [OF assms(1), of "[]"] assms(2) by simp
qed

lemma read_trace_cut: "list_all access_wf t \<Longrightarrow> prefix (read_trace (take k (concat (map encode_access t)))) t"
proof (induction t arbitrary: k)
  case (Cons r t)
  show ?case
  proof (cases "k < length (encode_access r)")
    case True
    then have "take k (concat (map encode_access (r # t))) = take k (encode_access r)" by simp
    then show ?thesis using Cons.prems True by (subst read_trace.simps) (simp add: read_access_cut)
  next
    case False
    then have "take k (concat (map encode_access (r # t))) = encode_access r @ take (k - length (encode_access r)) (concat (map encode_access t))"
      by simp
    then show ?thesis using Cons by (subst read_trace.simps) (simp add: read_access_encode)
  qed
qed (simp add: read_trace_Nil)

section \<open>Properties\<close>

text \<open>
  Claim C35. Traces survive a restart: what \<open>flush_trace\<close> wrote is read back as the same trace by a new
  oracle on the same directory, and a file cut off at any byte yields a prefix of the trace.
\<close>

theorem trace_survives_restart:
  assumes "fo_traces fo h = Some trace" and "list_all access_wf trace" and "oracle_dir fo' = oracle_dir fo"
  shows "fo_traces (snd (load_trace h (flush_trace True h fo disk) fo')) h = Some trace \<and>
    (\<exists>t. fo_traces (snd (load_trace h ((flush_trace True h fo disk)(trace_path fo h := map_option (take k) (flush_trace True h fo disk (trace_path fo h)))) fo')) h
       = Some t \<and> prefix t trace)"
proof -
  have p: "trace_path fo' h = trace_path fo h" using assms(3) by (simp add: trace_path_def)
  have "read_trace (concat (map encode_access trace)) = trace"
    using read_trace_concat [OF assms(2), of "[]"] by (simp add: read_trace_Nil)
  then show ?thesis using assms(1) p read_trace_cut [OF assms(2), of k] by (simp add: load_trace_def flush_trace_def)
qed

definition ex_oracle :: FileOracle where
  "ex_oracle = record_access ''sha512-ab+/=='' ''/workspace/a.js'' (FileOracle_new (Some ''/home/u'') [])"

theorem trace_survives_restart_witness:
  "fo_traces (snd (load_trace ''sha512-ab+/=='' (flush_trace True ''sha512-ab+/=='' ex_oracle Map.empty) (FileOracle_new (Some ''/home/u'') []))) ''sha512-ab+/==''
     = Some [\<lparr>fa_sequence_no = 0, fa_path = ''/workspace/a.js'', fa_offset = 0, fa_length = 0\<rparr>]"
  using trace_survives_restart [of ex_oracle "''sha512-ab+/==''" "[\<lparr>fa_sequence_no = 0, fa_path = ''/workspace/a.js'', fa_offset = 0, fa_length = 0\<rparr>]"
      "FileOracle_new (Some ''/home/u'') []" Map.empty 0]
  by (simp add: ex_oracle_def record_access_def FileOracle_new_def oracle_aarchgate_dir_def access_wf_def Let_def)

text \<open>
  The counter is not part of the file: the first access recorded after a restart gets the sequence
  number 0 again, behind the loaded ones.
\<close>

lemma sequence_restarts:
  assumes "fo_traces (snd (load_trace h disk (FileOracle_new home dir))) h = Some trace"
  shows "fo_traces (record_access h path (snd (load_trace h disk (FileOracle_new home dir)))) h =
    Some (trace @ [\<lparr>fa_sequence_no = 0, fa_path = path, fa_offset = 0, fa_length = 0\<rparr>])"
  using assms by (auto simp: record_access_def load_trace_def FileOracle_new_def Let_def split: option.splits)

text \<open>Two packages whose hashes differ only in the replaced characters share one file.\<close>

lemma trace_files_shared:
  assumes "safe_hash h' = safe_hash h" and "fo_traces fo h' = Some trace" and "list_all access_wf trace"
  shows "fo_traces (snd (load_trace h (flush_trace True h' fo (flush_trace True h fo disk)) fo)) h = Some trace"
proof -
  have "trace_path fo h' = trace_path fo h" using assms(1) by (simp add: trace_path_def)
  moreover have "read_trace (concat (map encode_access trace)) = trace" using read_trace_concat [OF assms(3), of "[]"] by (simp add: read_trace_Nil)
  ultimately show ?thesis using assms(2) by (simp add: load_trace_def flush_trace_def)
qed

end
