(* ===== verification/Http_Cache.thy ===== *)
theory Http_Cache
  imports Integrity_Verifier "HOL-Library.AList"
begin

text \<open>
  The HTTP response cache (\<open>src/host/http_cache.cpp\<close>): responses in memory with an expiry time and
  one file per response. Times are ticks of \<open>system_clock\<close> (microseconds), passed to the operations; the
  directory is an association list of file names and contents, in the order of the directory iterator; \<open>CC_SHA256\<close> is a
  parameter. Shown: the cache survives a restart, up to the truncation of the expiry to seconds.
\<close>

section \<open>State\<close>

record CachedResponse =
  cr_url :: string
  cr_body :: string
  cr_content_type :: string
  cr_status_code :: u32
  cr_expires_at :: int

definition empty_response :: CachedResponse where
  "empty_response = \<lparr>cr_url = [], cr_body = [], cr_content_type = [], cr_status_code = 200, cr_expires_at = 0\<rparr>"

record HTTPCache =
  http_cache_dir :: string
  default_ttl_s :: u32
  hc_cache :: "(string \<times> CachedResponse) list"

type_synonym directory = "(string \<times> string) list"

definition http_aarchgate_dir :: "string option \<Rightarrow> string" where
  "http_aarchgate_dir home = (case home of Some h \<Rightarrow> h @ ''/.aarchgate'' | None \<Rightarrow> ''/tmp/.aarchgate'')"

definition HTTPCache_new :: "string option \<Rightarrow> string \<Rightarrow> u32 \<Rightarrow> HTTPCache" where
  "HTTPCache_new home dir ttl =
     (let d = (if dir = [] then http_aarchgate_dir home @ ''/http_cache/'' else dir)
      in \<lparr>http_cache_dir = (if last d \<noteq> CHR ''/'' then d @ ''/'' else d), default_ttl_s = ttl, hc_cache = []\<rparr>)"

definition url_to_filename :: "(u8 list \<Rightarrow> u8 list) \<Rightarrow> string \<Rightarrow> string" where
  "url_to_filename sha256 url = concat (map hex2 (sha256 (chars_bytes url))) @ ''.json''"

section \<open>Memory\<close>

definition http_contains :: "int \<Rightarrow> string \<Rightarrow> HTTPCache \<Rightarrow> bool" where
  "http_contains now url hc = (case map_of (hc_cache hc) url of None \<Rightarrow> False | Some r \<Rightarrow> now < cr_expires_at r)"

definition http_get :: "int \<Rightarrow> string \<Rightarrow> HTTPCache \<Rightarrow> CachedResponse" where
  "http_get now url hc =
     (case map_of (hc_cache hc) url of None \<Rightarrow> empty_response | Some r \<Rightarrow> if now < cr_expires_at r then r else empty_response)"

definition http_size :: "HTTPCache \<Rightarrow> nat" where
  "http_size hc = length (hc_cache hc)"

section \<open>Files\<close>

definition TICKS_PER_SECOND :: int where "TICKS_PER_SECOND = 1000000"

text \<open>\<open>duration_cast<seconds>\<close> rounds towards zero.\<close>

definition cast_seconds :: "int \<Rightarrow> int" where
  "cast_seconds e = (if 0 \<le> e then e div TICKS_PER_SECOND else - ((- e) div TICKS_PER_SECOND))"

abbreviation nl :: string where "nl \<equiv> [CHR 0x0A]"

definition render_response :: "CachedResponse \<Rightarrow> string" where
  "render_response r =
     (let timestamp = (word_of_int (cast_seconds (cr_expires_at r)) :: u64)
      in ''URL: '' @ cr_url r @ nl @ ''STATUS: '' @ decimal (unat (cr_status_code r)) @ nl @
         ''CONTENT-TYPE: '' @ cr_content_type r @ nl @ ''EXPIRES: '' @ decimal (unat timestamp) @ nl @ ''---'' @ nl @ cr_body r)"

text \<open>\<open>ok\<close>: the file could be opened for writing.\<close>

definition http_put ::
  "(u8 list \<Rightarrow> u8 list) \<Rightarrow> bool \<Rightarrow> string \<Rightarrow> CachedResponse \<Rightarrow> HTTPCache \<times> directory \<Rightarrow> HTTPCache \<times> directory" where
  "http_put sha256 ok url r st =
     (case st of (hc, disk) \<Rightarrow>
        (hc\<lparr>hc_cache := AList.update url r (hc_cache hc)\<rparr>,
         if ok then AList.update (url_to_filename sha256 url) (render_response r) disk else disk))"

definition http_put_body ::
  "(u8 list \<Rightarrow> u8 list) \<Rightarrow> bool \<Rightarrow> int \<Rightarrow> string \<Rightarrow> string \<Rightarrow> string \<Rightarrow> u32 \<Rightarrow> HTTPCache \<times> directory \<Rightarrow> HTTPCache \<times> directory" where
  "http_put_body sha256 ok now url body content_type ttl_seconds st =
     (let ttl = (if ttl_seconds = 0 then default_ttl_s (fst st) else ttl_seconds)
      in http_put sha256 ok url
           \<lparr>cr_url = url, cr_body = body, cr_content_type = content_type, cr_status_code = 200,
            cr_expires_at = now + uint ttl * TICKS_PER_SECOND\<rparr> st)"

definition evict_expired :: "(u8 list \<Rightarrow> u8 list) \<Rightarrow> int \<Rightarrow> HTTPCache \<times> directory \<Rightarrow> HTTPCache \<times> directory" where
  "evict_expired sha256 now st =
     (case st of (hc, disk) \<Rightarrow>
        (hc\<lparr>hc_cache := filter (\<lambda>e. now < cr_expires_at (snd e)) (hc_cache hc)\<rparr>,
         fold (\<lambda>e d. if cr_expires_at (snd e) \<le> now then AList.delete (url_to_filename sha256 (fst e)) d else d) (hc_cache hc) disk))"

text \<open>\<open>std::getline\<close>: the next line and the rest, \<open>None\<close> at the end.\<close>

definition next_line :: "string \<Rightarrow> (string \<times> string) option" where
  "next_line s = (if s = [] then None else let l = takeWhile (\<lambda>c. c \<noteq> CHR 0x0A) s in Some (l, drop (Suc (length l)) s))"

text \<open>\<open>std::stoi\<close>; \<open>None\<close> where it throws.\<close>

definition stoi :: "string \<Rightarrow> int option" where
  "stoi s =
     (let s = dropWhile is_space s;
          ds = takeWhile is_digit (if take 1 s \<in> {''-'', ''+''} then drop 1 s else s);
          v = (if take 1 s = ''-'' then - int (digits_value ds) else int (digits_value ds))
      in if ds = [] \<or> v < - (2 ^ 31) \<or> 2 ^ 31 \<le> v then None else Some v)"

definition header_line :: "string \<Rightarrow> CachedResponse \<times> u64 \<Rightarrow> (CachedResponse \<times> u64) option" where
  "header_line l rt =
     (case rt of (r, ts) \<Rightarrow>
        if starts_with l ''URL: '' then Some (r\<lparr>cr_url := drop 5 l\<rparr>, ts)
        else if starts_with l ''STATUS: '' then map_option (\<lambda>v. (r\<lparr>cr_status_code := word_of_int v\<rparr>, ts)) (stoi (drop 8 l))
        else if starts_with l ''CONTENT-TYPE: '' then Some (r\<lparr>cr_content_type := drop 14 l\<rparr>, ts)
        else if starts_with l ''EXPIRES: '' then map_option (\<lambda>v. (r, v)) (stoull (drop 9 l))
        else Some (r, ts))"

function parse_headers :: "string \<Rightarrow> CachedResponse \<times> u64 \<Rightarrow> (CachedResponse \<times> u64 \<times> string) option" where
  "parse_headers s rt =
     (case next_line s of None \<Rightarrow> Some (fst rt, snd rt, [])
      | Some (l, rest) \<Rightarrow>
          if l = ''---'' then Some (fst rt, snd rt, rest)
          else case header_line l rt of None \<Rightarrow> None | Some rt' \<Rightarrow> parse_headers rest rt')"
  by pat_completeness auto
termination by (relation "measure (\<lambda>(s, rt). length s)") (auto simp: next_line_def Let_def split: if_splits)

declare parse_headers.simps [simp del]

text \<open>
  One file. \<open>None\<close>: a number could not be read, which throws, or the expiry does not fit a
  64-bit tick count, which is undefined.
\<close>

definition parse_response :: "string \<Rightarrow> CachedResponse option" where
  "parse_response content =
     (case parse_headers content (empty_response, 0) of None \<Rightarrow> None
      | Some (r, ts, body) \<Rightarrow>
          let e = sint ts * TICKS_PER_SECOND
          in if - (2 ^ 63) \<le> e \<and> e < 2 ^ 63 then Some (r\<lparr>cr_body := body, cr_expires_at := e\<rparr>) else None)"

definition json_file :: "string \<Rightarrow> bool" where
  "json_file name \<longleftrightarrow> 5 < length name \<and> drop (length name - 5) name = ''.json''"

text \<open>The loop over the directory; the flag is false when it was left by an exception.\<close>

fun load_files ::
  "int \<Rightarrow> directory \<Rightarrow> (string \<times> CachedResponse) list \<times> directory \<Rightarrow> bool \<times> (string \<times> CachedResponse) list \<times> directory" where
  "load_files now [] (cache, disk) = (True, cache, disk)"
| "load_files now ((name, content) # files) (cache, disk) =
     (if json_file name
      then case parse_response content of None \<Rightarrow> (False, cache, disk)
        | Some r \<Rightarrow> if now < cr_expires_at r then load_files now files (AList.update (cr_url r) r cache, disk)
                    else load_files now files (cache, AList.delete name disk)
      else load_files now files (cache, disk))"

text \<open>The result is \<open>None\<close> when an exception left the function. The optional directory is \<open>None\<close> when it does not exist.\<close>

definition load_from_disk :: "int \<Rightarrow> HTTPCache \<times> directory option \<Rightarrow> bool option \<times> HTTPCache \<times> directory option" where
  "load_from_disk now st =
     (case st of (hc, None) \<Rightarrow> (Some False, hc, None)
      | (hc, Some disk) \<Rightarrow>
          (case load_files now disk (hc_cache hc, disk) of (ok, cache, disk') \<Rightarrow>
             (if ok then Some True else None, hc\<lparr>hc_cache := cache\<rparr>, Some disk')))"

section \<open>One file\<close>

definition response_wf :: "CachedResponse \<Rightarrow> bool" where
  "response_wf r \<longleftrightarrow> CHR 0x0A \<notin> set (cr_url r) \<and> CHR 0x0A \<notin> set (cr_content_type r) \<and> unat (cr_status_code r) < 2 ^ 31 \<and>
     0 \<le> cr_expires_at r \<and> cr_expires_at r < 2 ^ 63"

text \<open>What is left of a response on disk: the expiry in whole seconds.\<close>

definition on_disk :: "CachedResponse \<Rightarrow> CachedResponse" where
  "on_disk r = r\<lparr>cr_expires_at := cr_expires_at r div TICKS_PER_SECOND * TICKS_PER_SECOND\<rparr>"

lemma next_line_append: "CHR 0x0A \<notin> set l \<Longrightarrow> next_line (l @ CHR 0x0A # rest) = Some (l, rest)"
proof -
  assume "CHR 0x0A \<notin> set l"
  then have "takeWhile (\<lambda>c. c \<noteq> CHR 0x0A) (l @ CHR 0x0A # rest) = l" by (subst takeWhile_append2) auto
  then show ?thesis by (simp add: next_line_def)
qed

lemma parse_line:
  assumes "CHR 0x0A \<notin> set l" and "l \<noteq> ''---''" and "header_line l rt = Some rt'"
  shows "parse_headers (l @ CHR 0x0A # rest) rt = parse_headers rest rt'"
  using assms by (subst parse_headers.simps) (simp add: next_line_append)

lemma digits_no_newline: "CHR 0x0A \<notin> set (decimal n)"
  using decimal_digits [of n] by (auto simp: list_all_iff is_digit_def)

lemma stoi_decimal: "n < 2 ^ 31 \<Longrightarrow> stoi (decimal n) = Some (int n)"
proof -
  assume n: "n < 2 ^ 31"
  have d: "list_all is_digit (decimal n)" "decimal n \<noteq> []" "digits_value (decimal n) = n" using decimal_digits [of n] by auto
  then obtain c cs where ds: "decimal n = c # cs" by (cases "decimal n") auto
  then have "is_digit c" using d(1) by simp
  then have c: "\<not> is_space c" "c \<noteq> CHR ''-''" "c \<noteq> CHR ''+''" by (auto simp: is_digit_def is_space_def)
  have "takeWhile is_digit (decimal n) = decimal n" using d(1) by (simp add: list_all_iff)
  then show ?thesis using ds c d(3) n by (simp add: stoi_def)
qed

lemma parse_headers_render:
  assumes "response_wf r"
  shows "parse_headers (render_response r) (empty_response, 0) =
    Some (r\<lparr>cr_body := [], cr_expires_at := 0\<rparr>, word_of_int (cast_seconds (cr_expires_at r)), cr_body r)"
proof -
  let ?ts = "word_of_int (cast_seconds (cr_expires_at r)) :: u64"
  let ?r0 = empty_response
  let ?r1 = "?r0\<lparr>cr_url := cr_url r\<rparr>" let ?r2 = "?r1\<lparr>cr_status_code := cr_status_code r\<rparr>" let ?r3 = "?r2\<lparr>cr_content_type := cr_content_type r\<rparr>"
  have h1: "header_line (''URL: '' @ cr_url r) (?r0, 0) = Some (?r1, 0)" by (simp add: header_line_def starts_with_def)
  have "word_of_int (int (unat (cr_status_code r))) = cr_status_code r" by simp
  then have h2: "header_line (''STATUS: '' @ decimal (unat (cr_status_code r))) (?r1, 0) = Some (?r2, 0)"
    using assms by (simp add: header_line_def starts_with_def stoi_decimal response_wf_def)
  have h3: "header_line (''CONTENT-TYPE: '' @ cr_content_type r) (?r2, 0) = Some (?r3, 0)" by (simp add: header_line_def starts_with_def)
  have h4: "header_line (''EXPIRES: '' @ decimal (unat ?ts)) (?r3, 0) = Some (?r3, ?ts)"
    by (simp add: header_line_def starts_with_def stoull_decimal)
  have n: "CHR 0x0A \<notin> set (''URL: '' @ cr_url r)" "CHR 0x0A \<notin> set (''STATUS: '' @ decimal (unat (cr_status_code r)))"
    "CHR 0x0A \<notin> set (''CONTENT-TYPE: '' @ cr_content_type r)" "CHR 0x0A \<notin> set (''EXPIRES: '' @ decimal (unat ?ts))"
    using assms digits_no_newline by (simp_all add: response_wf_def)
  have "parse_headers (render_response r) (?r0, 0) = parse_headers (''---'' @ CHR 0x0A # cr_body r) (?r3, ?ts)"
    using parse_line [OF n(1) _ h1] parse_line [OF n(2) _ h2] parse_line [OF n(3) _ h3] parse_line [OF n(4) _ h4]
    by (simp add: render_response_def Let_def)
  also have "\<dots> = Some (?r3, ?ts, cr_body r)"
    using next_line_append [of "''---''" "cr_body r"] by (subst parse_headers.simps) simp
  also have "?r3 = r\<lparr>cr_body := [], cr_expires_at := 0\<rparr>" by (cases r) (simp add: empty_response_def)
  finally show ?thesis .
qed

lemma parse_render:
  assumes "response_wf r"
  shows "parse_response (render_response r) = Some (on_disk r)"
proof -
  let ?s = "cr_expires_at r div TICKS_PER_SECOND"
  have s: "0 \<le> ?s" "?s * TICKS_PER_SECOND \<le> cr_expires_at r" "?s < 2 ^ 63"
    using assms by (auto simp: response_wf_def TICKS_PER_SECOND_def pos_imp_zdiv_nonneg_iff)
  have c: "cast_seconds (cr_expires_at r) = ?s" using assms by (simp add: cast_seconds_def response_wf_def)
  have "sint (word_of_int ?s :: u64) = ?s" using s(1,3) by (simp add: sint_sbintrunc' signed_take_bit_int_eq_self)
  then show ?thesis using s assms
    by (simp add: parse_response_def parse_headers_render c on_disk_def response_wf_def Let_def TICKS_PER_SECOND_def)
qed

section \<open>The directory\<close>

definition entry_file :: "(u8 list \<Rightarrow> u8 list) \<Rightarrow> string \<times> CachedResponse \<Rightarrow> string \<times> string" where
  "entry_file sha256 e = (url_to_filename sha256 (fst e), render_response (snd e))"

lemma json_filename: "sha256 (chars_bytes url) \<noteq> [] \<Longrightarrow> json_file (url_to_filename sha256 url)"
  by (cases "sha256 (chars_bytes url)") (simp_all add: json_file_def url_to_filename_def hex2_def)

lemma update_entry_file:
  assumes "inj_on (url_to_filename sha256) (insert u (fst ` set E))"
  shows "AList.update (url_to_filename sha256 u) (render_response r) (map (entry_file sha256) E) = map (entry_file sha256) (AList.update u r E)"
  using assms
proof (induction E)
  case (Cons e E)
  have "url_to_filename sha256 u = url_to_filename sha256 (fst e) \<longleftrightarrow> u = fst e" using Cons.prems by (auto simp: inj_on_def)
  moreover have "inj_on (url_to_filename sha256) (insert u (fst ` set E))" using Cons.prems by (rule inj_on_subset) auto
  ultimately show ?case using Cons.IH by (cases e) (auto simp: entry_file_def)
qed (simp add: entry_file_def)

text \<open>
  A sequence of stores, each with the flag whether its file could be opened, those whose file was written, and the
  entries they leave on disk, the last one per URL.
\<close>

definition http_puts :: "(u8 list \<Rightarrow> u8 list) \<Rightarrow> (bool \<times> string \<times> CachedResponse) list \<Rightarrow> HTTPCache \<times> directory \<Rightarrow> HTTPCache \<times> directory" where
  "http_puts sha256 ps st = fold (\<lambda>(ok, url, r). http_put sha256 ok url r) ps st"

definition written :: "(bool \<times> string \<times> CachedResponse) list \<Rightarrow> (string \<times> CachedResponse) list" where
  "written ps = map snd (filter fst ps)"

definition stored :: "(string \<times> CachedResponse) list \<Rightarrow> (string \<times> CachedResponse) list \<Rightarrow> (string \<times> CachedResponse) list" where
  "stored ps E = fold (\<lambda>p. AList.update (fst p) (snd p)) ps E"

lemma set_update_keys: "fst ` set (AList.update u r E) = insert u (fst ` set E)"
  by (induction E) auto

lemma puts_stored:
  assumes "inj_on (url_to_filename sha256) (fst ` set (written ps) \<union> fst ` set E)"
  shows "snd (http_puts sha256 ps (hc, map (entry_file sha256) E)) = map (entry_file sha256) (stored (written ps) E)"
  using assms
proof (induction ps arbitrary: E hc)
  case (Cons p ps)
  obtain ok u r where p: "p = (ok, u, r)" by (cases p) auto
  show ?case
  proof (cases ok)
    case True
    have "inj_on (url_to_filename sha256) (insert u (fst ` set E))"
      using Cons.prems by (rule inj_on_subset) (use True p in \<open>auto simp: written_def\<close>)
    note u = update_entry_file [OF this, of r]
    have "inj_on (url_to_filename sha256) (fst ` set (written ps) \<union> fst ` set (AList.update u r E))"
      using Cons.prems by (rule inj_on_subset) (use True p in \<open>auto simp: set_update_keys written_def\<close>)
    from Cons.IH [OF this] show ?thesis using True p by (simp add: http_puts_def http_put_def stored_def u written_def)
  next
    case False
    then have "written (p # ps) = written ps" using p by (simp add: written_def)
    then show ?thesis using Cons.IH [of E] Cons.prems False p by (simp add: http_puts_def http_put_def)
  qed
qed (simp add: http_puts_def stored_def written_def)

text \<open>The directory may be listed in any order.\<close>

lemma mset_map_listed: "mset files = mset (map f E) \<Longrightarrow> \<exists>E'. mset E' = mset E \<and> files = map f E'"
proof (induction files arbitrary: E)
  case (Cons x files)
  then have "x \<in> set (map f E)" by (metis list.set_intros(1) set_mset_mset)
  then obtain e A B where e: "E = A @ e # B" "x = f e" by (auto dest: split_list)
  then obtain E' where "mset E' = mset (A @ B)" "files = map f E'" using Cons.IH [of "A @ B"] Cons.prems by auto
  then show ?case using e by (intro exI [of _ "e # E'"]) simp
qed simp

lemma map_of_stored: "map_of (stored ps E) u = (case map_of (rev ps) u of None \<Rightarrow> map_of E u | Some r \<Rightarrow> Some r)"
proof (induction ps arbitrary: E)
  case (Cons p ps)
  then show ?case by (cases p) (auto simp: stored_def update_conv map_add_def split: option.splits)
qed (simp add: stored_def)

lemma distinct_stored: "distinct (map fst E) \<Longrightarrow> distinct (map fst (stored ps E))"
  by (induction ps arbitrary: E) (auto simp: stored_def distinct_update)

lemma set_stored: "set (stored ps E) \<subseteq> set ps \<union> set E"
proof (induction ps arbitrary: E)
  case (Cons p ps)
  have "set (AList.update a b E) \<subseteq> insert (a, b) (set E)" for a b by (induction E) auto
  then show ?case using Cons [of "AList.update (fst p) (snd p) E"] by (fastforce simp: stored_def)
qed (simp add: stored_def)

text \<open>The lookups after loading the entries \<open>E\<close> over a cache with lookups \<open>base\<close>.\<close>

definition reloaded :: "int \<Rightarrow> (string \<times> CachedResponse) list \<Rightarrow> (string \<rightharpoonup> CachedResponse) \<Rightarrow> string \<rightharpoonup> CachedResponse" where
  "reloaded now E base u =
     (case map_of E u of None \<Rightarrow> base u | Some r \<Rightarrow> if now < cr_expires_at (on_disk r) then Some (on_disk r) else base u)"

lemma reloaded_Cons:
  "map_of E u = None \<Longrightarrow>
   reloaded now ((u, r) # E) base = reloaded now E (if now < cr_expires_at (on_disk r) then base(u \<mapsto> on_disk r) else base)"
  by (auto simp: fun_eq_iff reloaded_def split: option.splits)

lemma load_files_stored:
  assumes "\<forall>e \<in> set E. response_wf (snd e) \<and> cr_url (snd e) = fst e \<and> sha256 (chars_bytes (fst e)) \<noteq> []"
    and "distinct (map fst E)"
  shows "\<exists>cache' disk'. load_files now (map (entry_file sha256) E) (cache, disk) = (True, cache', disk') \<and>
    map_of cache' = reloaded now E (map_of cache)"
  using assms
proof (induction E arbitrary: cache disk)
  case (Cons e E)
  obtain u r where e: "e = (u, r)" by fastforce
  have wf: "response_wf r" "cr_url r = u" "json_file (url_to_filename sha256 u)" using Cons.prems(1) e json_filename by auto
  have new: "map_of E u = None" using Cons.prems(2) e by (simp add: map_of_eq_None_iff)
  have u: "cr_url (on_disk r) = u" using wf(2) by (simp add: on_disk_def)
  show ?case
  proof (cases "now < cr_expires_at (on_disk r)")
    case True
    then have "load_files now (map (entry_file sha256) (e # E)) (cache, disk) =
      load_files now (map (entry_file sha256) E) (AList.update u (on_disk r) cache, disk)"
      using wf u by (simp add: e entry_file_def parse_render)
    then show ?thesis using Cons.IH [of "AList.update u (on_disk r) cache" disk] Cons.prems True
      by (simp add: e reloaded_Cons [OF new] update_conv' fun_upd_def)
  next
    case False
    then have "load_files now (map (entry_file sha256) (e # E)) (cache, disk) =
      load_files now (map (entry_file sha256) E) (cache, AList.delete (url_to_filename sha256 u) disk)"
      using wf u by (simp add: e entry_file_def parse_render)
    then show ?thesis using Cons.IH [of cache "AList.delete (url_to_filename sha256 u) disk"] Cons.prems False
      by (simp add: e reloaded_Cons [OF new])
  qed
qed (simp add: fun_eq_iff reloaded_def)

section \<open>Properties\<close>

text \<open>
  Claim C36. The cache survives a restart. Take any sequence of stores into an empty directory, the opening of
  each file succeeding or not, where every response written names the URL it is stored under, has no line break in
  its URL or content type, a status that fits an \<open>int\<close> and an expiry between 0 and \<open>2 ^ 63\<close> ticks, and no two of
  these URLs have the same hash. A new empty cache that loads the directory at time \<open>now\<close>, listed in any
  order, succeeds, and at every time from then on answers every URL with the last response written for it, the
  expiry truncated to seconds, until that expiry, and with nothing from then on.
\<close>

theorem cache_survives_restart:
  assumes "\<forall>p \<in> set (written ps). response_wf (snd p) \<and> cr_url (snd p) = fst p \<and> sha256 (chars_bytes (fst p)) \<noteq> []"
    and "inj_on (url_to_filename sha256) (fst ` set (written ps))"
    and "mset files = mset (snd (http_puts sha256 ps (hc, [])))"
    and "hc_cache hc' = []" and "now \<le> later"
  shows "case load_from_disk now (hc', Some files) of (ok, hc2, _) \<Rightarrow>
    ok = Some True \<and>
    http_get later url hc2 = (case map_of (rev (written ps)) url of None \<Rightarrow> empty_response
      | Some r \<Rightarrow> if later < cr_expires_at (on_disk r) then on_disk r else empty_response)"
proof -
  let ?E = "stored (written ps) []"
  have "snd (http_puts sha256 ps (hc, [])) = map (entry_file sha256) ?E" using puts_stored [of sha256 ps "[]" hc] assms(2) by simp
  then obtain E where E: "mset E = mset ?E" "files = map (entry_file sha256) E" using mset_map_listed [of files] assms(3) by auto
  have d: "distinct (map fst ?E)" using distinct_stored [of "[]" "written ps"] by simp
  have "mset (map fst E) = mset (map fst ?E)" using E(1) by simp
  then have dE: "distinct (map fst E)" using d by (metis mset_eq_imp_distinct_iff)
  have m: "map_of E = map_of ?E" using E(1) d dE by (metis map_of_inject_set mset_eq_setD)
  have "\<forall>e \<in> set E. response_wf (snd e) \<and> cr_url (snd e) = fst e \<and> sha256 (chars_bytes (fst e)) \<noteq> []"
    using assms(1) set_stored [of "written ps" "[]"] mset_eq_setD [OF E(1)] by auto
  then obtain cache' disk' where "load_files now files ([], files) = (True, cache', disk')" "map_of cache' = reloaded now E Map.empty"
    using load_files_stored [of E sha256 now "[]" files] dE E(2) by auto
  then show ?thesis using assms(4,5)
    by (auto simp: load_from_disk_def http_get_def reloaded_def m map_of_stored split: option.splits)
qed

definition ex_response :: CachedResponse where
  "ex_response = \<lparr>cr_url = ''u'', cr_body = ''{}'', cr_content_type = ''application/json'', cr_status_code = 200, cr_expires_at = 5500000\<rparr>"

theorem cache_survives_restart_witness:
  "case load_from_disk 4000000 (HTTPCache_new None [] 300,
       Some (snd (http_puts (\<lambda>bs. [7]) [(True, ''u'', ex_response), (False, ''u'', ex_response\<lparr>cr_body := ''[]''\<rparr>)] (HTTPCache_new None [] 300, [])))) of
     (ok, hc2, _) \<Rightarrow> ok = Some True \<and> http_get 4500000 ''u'' hc2 = ex_response\<lparr>cr_expires_at := 5000000\<rparr>"
  using cache_survives_restart [where ps = "[(True, ''u'', ex_response), (False, ''u'', ex_response\<lparr>cr_body := ''[]''\<rparr>)]" and ?sha256.0 = "\<lambda>bs. [7]"
      and hc' = "HTTPCache_new None [] 300" and now = 4000000 and later = 4500000 and hc = "HTTPCache_new None [] 300" and url = "''u''", OF _ _ refl]
  by (simp add: ex_response_def response_wf_def on_disk_def written_def TICKS_PER_SECOND_def HTTPCache_new_def Let_def)

text \<open>A response stored under another URL than its own is found there now, and after a restart only under its own.\<close>

lemma foreign_url_moves:
  assumes "response_wf r" and "sha256 (chars_bytes url) \<noteq> []" and "cr_url r \<noteq> url" and "now < cr_expires_at (on_disk r)"
  shows "case http_put sha256 True url r (HTTPCache_new home dir ttl, []) of (hc, disk) \<Rightarrow>
    http_get now url hc = r \<and>
    (case load_from_disk now (HTTPCache_new home dir ttl, Some disk) of (_, hc2, _) \<Rightarrow>
       http_get now url hc2 = empty_response \<and> http_get now (cr_url r) hc2 = on_disk r)"
proof -
  have "cr_url (on_disk r) = cr_url r" and "cr_expires_at (on_disk r) \<le> cr_expires_at r"
    using assms(1) by (simp_all add: on_disk_def response_wf_def TICKS_PER_SECOND_def)
  then show ?thesis using assms json_filename [of sha256 url]
    by (simp add: http_put_def http_get_def load_from_disk_def HTTPCache_new_def parse_render Let_def)
qed

text \<open>A stored response is found until it expires, whether or not the file could be written.\<close>

lemma put_get: "http_get now url (fst (http_put sha256 ok url r st)) = (if now < cr_expires_at r then r else empty_response)"
  by (cases st) (simp add: http_put_def http_get_def update_conv')

text \<open>The entries that are still valid answer as before.\<close>

lemma live_lookup:
  assumes "distinct (map fst cache)"
  shows "map_of (filter (\<lambda>e. now < cr_expires_at (snd e)) cache) url =
    Option.bind (map_of cache url) (\<lambda>r. if now < cr_expires_at r then Some r else None)"
  using assms
proof (induction cache)
  case (Cons e cache)
  obtain u r where e: "e = (u, r)" by fastforce
  have "map_of cache u = None" using Cons.prems e by (simp add: map_of_eq_None_iff)
  then show ?case using Cons.IH Cons.prems e by auto
qed simp

text \<open>Eviction does not change what any later lookup returns.\<close>

lemma evict_invisible:
  assumes "distinct (map fst (hc_cache (fst st)))" and "now \<le> later"
  shows "http_get later url (fst (evict_expired sha256 now st)) = http_get later url (fst st)"
  using assms by (cases st) (auto simp: evict_expired_def http_get_def live_lookup split: option.splits)

text \<open>One file whose status is not a number makes loading throw; the files after it are not loaded.\<close>

lemma load_throws:
  assumes "json_file name" and "stoi (drop 8 l) = None" and "starts_with l ''STATUS: ''" and "CHR 0x0A \<notin> set l"
  shows "fst (load_from_disk now (hc, Some ((name, l @ CHR 0x0A # rest) # files))) = None"
proof -
  have "\<not> starts_with l ''URL: ''" "l \<noteq> ''---''" using assms(3) by (auto simp: starts_with_iff)
  then have "parse_headers (l @ CHR 0x0A # rest) (empty_response, 0) = None"
    using assms by (subst parse_headers.simps) (simp add: next_line_append header_line_def)
  then show ?thesis using assms(1) by (simp add: load_from_disk_def parse_response_def)
qed

end
