(* ===== verification/Gpu_Scan.thy ===== *)
theory Gpu_Scan
  imports Bit_Planes
begin

text \<open>
  The threadgroup of the Metal kernel (\<open>gpu/kernels/bit_sliced.metal\<close> and the text that
  \<open>ApexEngine::generate_msl_source\<close> writes): 64 threads in two SIMD groups of 32 lanes. Thread
  \<open>t\<close> holds bit plane \<open>t\<close>, so a register of the kernel is a function from threads to words and a
  statement a function on registers. The threads of the comparisons and of the reduction meet at barriers
  between the writes and the reads of the shared memory. A shuffle reads the register of another lane if
  that lane takes part in it; otherwise it delivers anything (\<open>junk\<close>). One addition or subtraction is taken by
  itself: after it there is no barrier, so a second one may overwrite \<open>shared_carry\<close> before the second SIMD
  group has read it.

  Shown: the parallel prefix scan of the kernel computes the carries of the addition on all 64 planes, but
  the last step delivers them on all planes except 1 and 33, which read from a lane in the other arm of a
  conditional expression; the subtraction has the wrong lowest bit on every row but the first.
\<close>

section \<open>Lanes\<close>

type_synonym vreg = "nat \<Rightarrow> u64"

definition lane_id :: "nat \<Rightarrow> nat" where "lane_id t = t mod 32"
definition simd_id :: "nat \<Rightarrow> nat" where "simd_id t = t div 32"

text \<open>\<open>active\<close> are the threads that evaluate the shuffle.\<close>

definition shuffle_up_64 :: "(nat \<Rightarrow> bool) \<Rightarrow> vreg \<Rightarrow> nat \<Rightarrow> vreg \<Rightarrow> vreg" where
  "shuffle_up_64 active junk delta v t = (if delta \<le> lane_id t \<and> active (t - delta) then v (t - delta) else junk t)"

definition shuffle_down_64 :: "vreg \<Rightarrow> nat \<Rightarrow> vreg \<Rightarrow> vreg" where
  "shuffle_down_64 junk delta v t = (if lane_id t + delta < 32 then v (t + delta) else junk t)"

section \<open>The scan\<close>

definition ks_stage :: "vreg \<Rightarrow> nat \<Rightarrow> vreg \<times> vreg \<Rightarrow> vreg \<times> vreg" where
  "ks_stage junk delta gp =
     (let g_prev = shuffle_up_64 (\<lambda>t. True) junk delta (fst gp); p_prev = shuffle_up_64 (\<lambda>t. True) junk delta (snd gp)
      in (\<lambda>t. if delta \<le> lane_id t then fst gp t OR (snd gp t AND g_prev t) else fst gp t,
          \<lambda>t. if delta \<le> lane_id t then snd gp t AND p_prev t else snd gp t))"

definition kogge_stone_scan :: "vreg \<Rightarrow> vreg \<times> vreg \<Rightarrow> vreg \<times> vreg" where
  "kogge_stone_scan junk gp =
     ks_stage junk 16 (ks_stage junk 8 (ks_stage junk 4 (ks_stage junk 2 (ks_stage junk 1 gp))))"

text \<open>
  The carry into each plane; \<open>first\<close> is the carry into plane 0. The last shuffle stands in the second arm of
  \<open>(lane_id == 0) ? ... : shuffle_up_64(cur_g, 1)\<close>, which lane 0 of a group does not evaluate.
\<close>

definition carries :: "vreg \<Rightarrow> u64 \<Rightarrow> vreg \<times> vreg \<Rightarrow> vreg" where
  "carries junk first gp =
     (let (cur_g, cur_p) = kogge_stone_scan junk gp;
          shared_carry = cur_g 31;
          cur_g = (\<lambda>t. if simd_id t = 1 then cur_g t OR (shared_carry AND cur_p t) else cur_g t);
          active = (\<lambda>t. lane_id t \<noteq> 0)
      in (\<lambda>t. if simd_id t = 0 then (if lane_id t = 0 then first else shuffle_up_64 active junk 1 cur_g t)
              else (if lane_id t = 0 then shared_carry else shuffle_up_64 active junk 1 cur_g t)))"

definition gpu_add :: "vreg \<Rightarrow> vreg \<Rightarrow> vreg \<Rightarrow> vreg" where
  "gpu_add junk a b =
     (let g = (\<lambda>t. a t AND b t); p = (\<lambda>t. a t XOR b t); carry_in = carries junk 0 (g, p)
      in (\<lambda>t. a t XOR b t XOR carry_in t))"

definition gpu_sub :: "vreg \<Rightarrow> vreg \<Rightarrow> vreg \<Rightarrow> vreg" where
  "gpu_sub junk a b =
     (let g = (\<lambda>t. a t AND NOT (b t)); p = (\<lambda>t. a t XOR NOT (b t));
          g = (\<lambda>t. if lane_id t = 0 \<and> simd_id t = 0 then g t OR p t else g t);
          carry_in = carries junk 1 (g, p)
      in (\<lambda>t. a t XOR NOT (b t) XOR carry_in t))"

section \<open>Groups of planes\<close>

text \<open>Generate and propagate of the \<open>n\<close> planes from \<open>a\<close> on.\<close>

fun group_g :: "vreg \<times> vreg \<Rightarrow> nat \<Rightarrow> nat \<Rightarrow> u64" where
  "group_g gp a 0 = 0"
| "group_g gp a (Suc n) = fst gp (a + n) OR (snd gp (a + n) AND group_g gp a n)"

fun group_p :: "vreg \<times> vreg \<Rightarrow> nat \<Rightarrow> nat \<Rightarrow> u64" where
  "group_p gp a 0 = NOT 0"
| "group_p gp a (Suc n) = snd gp (a + n) AND group_p gp a n"

lemma group_p_add: "group_p gp a (m + n) = group_p gp (a + m) n AND group_p gp a m"
  by (induction n) (simp_all add: ac_simps)

lemma group_g_add: "group_g gp a (m + n) = group_g gp (a + m) n OR (group_p gp (a + m) n AND group_g gp a m)"
proof (induction n)
  case (Suc n)
  have d: "x OR (y AND (u OR (v AND w))) = (x OR (y AND u)) OR ((y AND v) AND w)" for x y u v w :: u64
    by (rule word_bit_eqI) (auto simp: bit_or_iff bit_and_iff)
  show ?case using Suc d by (simp add: add.assoc)
qed simp

text \<open>After the stages up to \<open>w\<close> planes wide, thread \<open>t\<close> has the group of the last \<open>w\<close> planes of its SIMD group.\<close>

definition window :: "nat \<Rightarrow> nat \<Rightarrow> nat" where
  "window w t = min (lane_id t) (w - 1)"

definition scanned :: "nat \<Rightarrow> vreg \<times> vreg \<Rightarrow> vreg \<times> vreg \<Rightarrow> bool" where
  "scanned w gp gp' \<longleftrightarrow> (\<forall>t. fst gp' t = group_g gp (t - window w t) (Suc (window w t)) \<and>
     snd gp' t = group_p gp (t - window w t) (Suc (window w t)))"

lemma lane_le: "lane_id t \<le> t"
  by (simp add: lane_id_def)

lemma lane_diff: "d \<le> lane_id t \<Longrightarrow> lane_id (t - d) = lane_id t - d"
proof -
  assume d: "d \<le> lane_id t"
  have "t = 32 * (t div 32) + lane_id t" by (simp add: lane_id_def)
  then have "t - d = 32 * (t div 32) + (lane_id t - d)" using d by linarith
  then have "(t - d) mod 32 = (lane_id t - d) mod 32" by simp
  then show ?thesis by (simp add: lane_id_def less_imp_diff_less)
qed

lemma scanned_stage:
  assumes "scanned w gp gp'" and "0 < w"
  shows "scanned (2 * w) gp (ks_stage junk w gp')"
  unfolding scanned_def
proof
  fix t
  show "fst (ks_stage junk w gp') t = group_g gp (t - window (2 * w) t) (Suc (window (2 * w) t)) \<and>
    snd (ks_stage junk w gp') t = group_p gp (t - window (2 * w) t) (Suc (window (2 * w) t))"
  proof (cases "w \<le> lane_id t")
    case True
    let ?k = "window w (t - w)" let ?a = "t - w - ?k"
    have l: "lane_id (t - w) = lane_id t - w" "lane_id t \<le> t" using lane_diff [OF True] lane_le by simp_all
    have k: "window w t = w - 1" "window (2 * w) t = w + ?k" "?k \<le> t - w" using True assms(2) l by (auto simp: window_def)
    have start: "?a + Suc ?k = t - (w - 1)" "t - window (2 * w) t = ?a" "Suc (window (2 * w) t) = Suc ?k + w"
      using k True assms(2) l by auto
    have i: "fst gp' t = group_g gp (t - window w t) (Suc (window w t))" "snd gp' t = group_p gp (t - window w t) (Suc (window w t))"
      using assms(1) unfolding scanned_def by blast+
    have "Suc (window w t) = w" "t - window w t = ?a + Suc ?k" using k(1) start(1) assms(2) by simp_all
    with i have "fst gp' t = group_g gp (?a + Suc ?k) w" "snd gp' t = group_p gp (?a + Suc ?k) w" by (simp_all only:)
    moreover have "fst gp' (t - w) = group_g gp ?a (Suc ?k)" "snd gp' (t - w) = group_p gp ?a (Suc ?k)"
      using assms(1) unfolding scanned_def by blast+
    ultimately show ?thesis unfolding start(2,3) using True group_g_add [of gp ?a "Suc ?k" w] group_p_add [of gp ?a "Suc ?k" w]
      by (simp only: ks_stage_def shuffle_up_64_def Let_def fst_conv snd_conv if_True simp_thms)
  next
    case False
    then have "window (2 * w) t = window w t" by (auto simp: window_def)
    then show ?thesis using assms(1) False by (simp add: scanned_def ks_stage_def Let_def)
  qed
qed

lemma scan_groups:
  "fst (kogge_stone_scan junk gp) t = group_g gp (t - lane_id t) (Suc (lane_id t))"
  "snd (kogge_stone_scan junk gp) t = group_p gp (t - lane_id t) (Suc (lane_id t))"
proof -
  have "scanned 1 gp gp" by (simp add: scanned_def window_def)
  then have "scanned 32 gp (kogge_stone_scan junk gp)" unfolding kogge_stone_scan_def
    using scanned_stage [of 1 gp gp junk] scanned_stage [of 2 gp _ junk] scanned_stage [of 4 gp _ junk] scanned_stage [of 8 gp _ junk]
      scanned_stage [of 16 gp _ junk] by simp
  moreover have "window 32 t = lane_id t" by (auto simp: window_def lane_id_def min_def)
  ultimately show "fst (kogge_stone_scan junk gp) t = group_g gp (t - lane_id t) (Suc (lane_id t))"
    "snd (kogge_stone_scan junk gp) t = group_p gp (t - lane_id t) (Suc (lane_id t))" by (simp_all add: scanned_def)
qed

text \<open>The carries of both SIMD groups together.\<close>

definition delivered :: "nat \<Rightarrow> bool" where
  "delivered t \<longleftrightarrow> t \<noteq> 1 \<and> t \<noteq> 33"

lemma carries_groups:
  assumes "t < 64"
  shows "carries junk first gp t = (if t = 0 then first else if delivered t then group_g gp 0 t else junk t)"
proof -
  let ?s = "kogge_stone_scan junk gp" and ?up = "shuffle_up_64 (\<lambda>t. lane_id t \<noteq> 0) junk 1"
  define cg where "cg = (\<lambda>t. if simd_id t = 1 then fst ?s t OR (fst ?s 31 AND snd ?s t) else fst ?s t)"
  have c31: "fst ?s 31 = group_g gp 0 32" by (simp add: scan_groups lane_id_def)
  have low: "cg t = group_g gp 0 (Suc t)" if "t < 32" for t
    using that by (simp add: cg_def simd_id_def scan_groups lane_id_def)
  have high: "cg t = group_g gp 0 (Suc t)" if "32 \<le> t" "t < 64" for t
  proof -
    have "lane_id t = t - 32" "simd_id t = 1" using that by (simp_all add: lane_id_def simd_id_def le_mod_geq le_div_geq)
    moreover have "Suc t = 32 + Suc (t - 32)" "t - (t - 32) = 32" using that by simp_all
    ultimately show ?thesis using group_g_add [of gp 0 32 "Suc (t - 32)"] c31
      by (simp only: cg_def scan_groups simp_thms if_True and.commute add_0)
  qed
  have cg: "cg t = group_g gp 0 (Suc t)" if "t < 64" for t using low high that by (cases "t < 32") auto
  have eq: "carries junk first gp t = (if simd_id t = 0 then (if lane_id t = 0 then first else ?up cg t)
      else (if lane_id t = 0 then fst ?s 31 else ?up cg t))"
    by (simp add: carries_def cg_def case_prod_unfold Let_def)
  show ?thesis
  proof (cases "lane_id t = 0")
    case True
    then have "t = 0 \<or> t = 32" using assms by (auto simp: lane_id_def)
    then show ?thesis using True c31 eq by (auto simp: simd_id_def delivered_def)
  next
    case False
    then have "lane_id (t - 1) = lane_id t - 1" "t \<noteq> 0" using lane_diff [of 1 t] by (auto simp: lane_id_def)
    moreover have "lane_id t = 1 \<longleftrightarrow> \<not> delivered t" using assms by (simp add: delivered_def lane_id_def) presburger
    ultimately have "?up cg t = (if delivered t then cg (t - 1) else junk t)" using False by (auto simp: shuffle_up_64_def)
    then show ?thesis using False cg [of "t - 1"] assms eq \<open>t \<noteq> 0\<close> by simp
  qed
qed

lemma group_carry: "group_g (\<lambda>t. A t AND B t, \<lambda>t. A t XOR B t) 0 t = carry_plane A B 0 t"
  by (induction t) simp_all

lemma gpu_add_plane: "t < 64 \<Longrightarrow> gpu_add junk a b t = (if delivered t then sum_plane a b 0 t else a t XOR b t XOR junk t)"
  using carries_groups [of t junk 0 "(\<lambda>t. a t AND b t, \<lambda>t. a t XOR b t)"] group_carry [of a b t]
  by (cases "t = 0") (simp_all add: gpu_add_def sum_plane_def Let_def xor.assoc delivered_def)

text \<open>The bits of a sum on a row.\<close>

lemma bit_row_sum: "r < 64 \<Longrightarrow> t < 64 \<Longrightarrow> bit (row_val a r + row_val b r) t \<longleftrightarrow> bit (sum_plane a b 0 t) r"
  using row_val_sum [of r a b 0] bit_row_val [of "sum_plane a b 0" r t] by simp

lemma bit_gpu_add:
  assumes "r < 64" and "t < 64"
  shows "bit (row_val (gpu_add junk a b) r) t \<longleftrightarrow>
    (if delivered t then bit (row_val a r + row_val b r) t else bit (row_val a r + row_val b r) t \<noteq> (bit (junk t) r \<noteq> bit (carry_plane a b 0 t) r))"
  using assms bit_row_sum [OF assms, of a b] by (auto simp: bit_row_val gpu_add_plane sum_plane_def bit_xor_iff)

text \<open>The addition is exact on a row exactly if the two shuffles deliver the carries after all.\<close>

lemma gpu_add_exact_iff:
  assumes "r < 64"
  shows "row_val (gpu_add junk a b) r = row_val a r + row_val b r \<longleftrightarrow> (\<forall>t \<in> {1, 33}. bit (junk t) r \<longleftrightarrow> bit (carry_plane a b 0 t) r)"
proof
  assume "row_val (gpu_add junk a b) r = row_val a r + row_val b r"
  then have "bit (row_val a r + row_val b r) t \<longleftrightarrow> bit (row_val a r + row_val b r) t \<noteq> (bit (junk t) r \<noteq> bit (carry_plane a b 0 t) r)"
    if "t \<in> {1, 33}" for t
    using bit_gpu_add [OF assms, of t junk a b] that by (auto simp: delivered_def)
  then show "\<forall>t \<in> {1, 33}. bit (junk t) r \<longleftrightarrow> bit (carry_plane a b 0 t) r" by blast
next
  assume "\<forall>t \<in> {1, 33}. bit (junk t) r \<longleftrightarrow> bit (carry_plane a b 0 t) r"
  then show "row_val (gpu_add junk a b) r = row_val a r + row_val b r"
    using bit_gpu_add [OF assms, of _ junk a b] by (intro word_bit_eqI) (auto simp: delivered_def)
qed

text \<open>
  The subtraction adds the complement with a carry into the scan on all rows, but the carry added to
  plane 0 itself is the word 1, which has the bit of row 0 only.
\<close>

lemma group_borrow:
  fixes a b :: vreg
  defines "gp \<equiv> (\<lambda>t. if lane_id t = 0 \<and> simd_id t = 0 then (a t AND NOT (b t)) OR (a t XOR NOT (b t)) else a t AND NOT (b t), \<lambda>t. a t XOR NOT (b t))"
  shows "group_g gp 0 (Suc t) = carry_plane a (\<lambda>t. NOT (b t)) (NOT 0) (Suc t)"
proof (induction t)
  case 0
  show ?case by (simp add: gp_def lane_id_def simd_id_def)
next
  case (Suc t)
  have "\<not> (lane_id (Suc t) = 0 \<and> simd_id (Suc t) = 0)" by (auto simp: lane_id_def simd_id_def)
  then show ?case using Suc.IH by (simp only: group_g.simps carry_plane.simps gp_def fst_conv snd_conv add_0 if_False)
qed

lemma gpu_sub_plane:
  assumes "t < 64" and "delivered t"
  shows "gpu_sub junk a b t = (if t = 0 then a 0 XOR NOT (b 0) XOR 1 else sum_plane a (\<lambda>t. NOT (b t)) (NOT 0) t)"
proof -
  let ?gp = "(\<lambda>t. if lane_id t = 0 \<and> simd_id t = 0 then (a t AND NOT (b t)) OR (a t XOR NOT (b t)) else a t AND NOT (b t), \<lambda>t. a t XOR NOT (b t))"
  have s: "gpu_sub junk a b t = a t XOR NOT (b t) XOR carries junk 1 ?gp t" by (simp only: gpu_sub_def Let_def)
  show ?thesis
  proof (cases t)
    case 0
    then show ?thesis using s carries_groups [OF assms(1), of junk 1 ?gp] by (simp only: if_True simp_thms)
  next
    case (Suc k)
    then have "carries junk 1 ?gp t = carry_plane a (\<lambda>t. NOT (b t)) (NOT 0) t"
      using carries_groups [OF assms(1), of junk 1 ?gp] group_borrow [of a b k] assms(2) by (simp only: Suc nat.distinct if_False if_True)
    then show ?thesis using s Suc by (simp only: sum_plane_def xor.assoc nat.distinct if_False)
  qed
qed

lemma row_val_difference: "r < 64 \<Longrightarrow> row_val (sum_plane a (\<lambda>t. NOT (b t)) (NOT 0)) r = row_val a r - row_val b r"
proof -
  assume r: "r < 64"
  have "row_val a r + NOT (row_val b r) + 1 = row_val a r - row_val b r" by (simp add: not_eq_complement)
  then show ?thesis using row_val_sum [OF r, of a "\<lambda>t. NOT (b t)" "NOT 0"] r by (simp add: row_val_not bit_not_iff)
qed

lemma bit_gpu_sub:
  assumes r: "r < 64" and t: "t < 64" "delivered t"
  shows "bit (row_val (gpu_sub junk a b) r) t \<longleftrightarrow> bit (row_val a r - row_val b r) t \<noteq> (t = 0 \<and> r \<noteq> 0)"
proof -
  have d: "bit (row_val a r - row_val b r) t \<longleftrightarrow> bit (sum_plane a (\<lambda>t. NOT (b t)) (NOT 0) t) r"
    using row_val_difference [OF r, of a b] bit_row_val t(1) by metis
  show ?thesis using d r t
    by (cases "t = 0") (auto simp: bit_row_val gpu_sub_plane sum_plane_def bit_xor_iff bit_not_iff bit_1_iff)
qed

text \<open>
  Claim C38. One addition or subtraction of the GPU kernel against arithmetic on the rows, whatever the
  shuffles deliver from lanes that do not take part. On all bits but 1 and 33 the parallel prefix addition
  gives the bits of the wrapping sum, and the subtraction those of the difference except that bit 0 is
  inverted on every row but the first. The addition is exact on a row if and only if the shuffles into lanes
  1 and 33 nevertheless deliver the carries, which Metal does not promise.
\<close>

theorem gpu_arithmetic:
  assumes "r < 64"
  shows "(\<forall>t < 64. t \<noteq> 1 \<and> t \<noteq> 33 \<longrightarrow>
      (bit (row_val (gpu_add junk a b) r) t \<longleftrightarrow> bit (row_val a r + row_val b r) t) \<and>
      (bit (row_val (gpu_sub junk a b) r) t \<longleftrightarrow> bit (row_val a r - row_val b r) t \<noteq> (t = 0 \<and> r \<noteq> 0))) \<and>
    (row_val (gpu_add junk a b) r = row_val a r + row_val b r \<longleftrightarrow> (\<forall>t \<in> {1, 33}. bit (junk t) r \<longleftrightarrow> bit (carry_plane a b 0 t) r))"
  using bit_gpu_add [OF assms] bit_gpu_sub [OF assms] gpu_add_exact_iff [OF assms] by (simp add: delivered_def)

text \<open>3 + 1 with nothing delivered, and 4 - 1 on row 5.\<close>

theorem gpu_arithmetic_witness:
  "row_val (gpu_add (\<lambda>t. 0) (\<lambda>t. if t < 2 then NOT 0 else 0) (\<lambda>t. if t = 0 then NOT 0 else 0)) 5 \<noteq> 4 \<and>
   \<not> bit (row_val (gpu_sub (\<lambda>t. 0) (\<lambda>t. if t = 2 then NOT 0 else 0) (\<lambda>t. if t = 0 then NOT 0 else 0)) 5) 0"
proof -
  have v: "row_val (\<lambda>t. if t < 2 then NOT 0 else 0) 5 = 3" "row_val (\<lambda>t. if t = 2 then NOT 0 else 0) 5 = 4"
    "row_val (\<lambda>t. if t = 0 then NOT 0 else 0) 5 = 1" by code_simp+
  have c: "bit (carry_plane (\<lambda>t. if t < 2 then NOT 0 else 0) (\<lambda>t. if t = 0 then NOT 0 else 0) 0 1) 5" by code_simp
  have "bit (4 - 1 :: u64) 0" by code_simp
  then show ?thesis using c v gpu_arithmetic [of 5 "\<lambda>t. 0" "\<lambda>t. if t < 2 then NOT 0 else 0" "\<lambda>t. if t = 0 then NOT 0 else 0"]
      gpu_arithmetic [of 5 "\<lambda>t. 0" "\<lambda>t. if t = 2 then NOT 0 else 0" "\<lambda>t. if t = 0 then NOT 0 else 0"] by auto
qed

section \<open>Comparison\<close>

text \<open>
  The loops over the shared planes, from plane 63 down; the masks of greater (or less) and of equal.
  Every thread computes the same masks.
\<close>

definition gt_loop :: "vreg \<Rightarrow> vreg \<Rightarrow> u64 \<times> u64" where
  "gt_loop a b = fold (\<lambda>k m. (fst m OR (snd m AND a k AND NOT (b k)), snd m AND NOT (a k XOR b k))) (rev [0..<64]) (0, NOT 0)"

definition lt_loop :: "vreg \<Rightarrow> vreg \<Rightarrow> u64 \<times> u64" where
  "lt_loop a b = fold (\<lambda>k m. (fst m OR (snd m AND NOT (a k) AND b k), snd m AND NOT (a k XOR b k))) (rev [0..<64]) (0, NOT 0)"

definition eq_loop :: "vreg \<Rightarrow> vreg \<Rightarrow> u64" where
  "eq_loop a b = fold (\<lambda>k m. m AND NOT (a k XOR b k)) (rev [0..<64]) (NOT 0)"

lemma gt_loop_cmp: "gt_loop a b = fold (cmp_step a b) (rev [0..<64]) (0, NOT 0)"
proof -
  have "(\<lambda>k m. (fst m OR (snd m AND a k AND NOT (b k)), snd m AND NOT (a k XOR b k))) = cmp_step a b"
    by (simp add: fun_eq_iff cmp_step_def ac_simps)
  then show ?thesis by (simp only: gt_loop_def)
qed

lemma lt_loop_cmp: "lt_loop a b = fold (cmp_step b a) (rev [0..<64]) (0, NOT 0)"
proof -
  have "(\<lambda>k m. (fst m OR (snd m AND NOT (a k) AND b k), snd m AND NOT (a k XOR b k))) = cmp_step b a"
    by (simp add: fun_eq_iff cmp_step_def ac_simps)
  then show ?thesis by (simp only: lt_loop_def)
qed

lemma eq_loop_cmp: "eq_loop a b = snd (gt_loop a b)"
proof -
  have "snd (fold (\<lambda>k m. (fst m OR (snd m AND a k AND NOT (b k)), snd m AND NOT (a k XOR b k))) ks x) =
    fold (\<lambda>k m. m AND NOT (a k XOR b k)) ks (snd x)" for ks x by (induction ks arbitrary: x) simp_all
  then show ?thesis by (simp add: eq_loop_def gt_loop_def)
qed

end
