(* ===== verification/Gpu_Kernel.thy ===== *)
theory Gpu_Kernel
  imports Gpu_Scan Apex_Correct
begin

text \<open>
  The Metal kernel of an expression. \<open>ApexEngine::generate_msl_source\<close> writes the text of a shader: a
  fixed frame and one statement per node in post order, over a scratchpad with one slot per node. The
  generated program is modelled as the list of these statements (\<open>msl_stmt\<close>, one constructor per
  template of the source) with the constants the frame is filled in with; its run on one threadgroup
  is \<open>run_block\<close>. The Metal compiler is taken at its word for the arithmetic of these statements.

  Shown: on every block of 64 rows the kernel leaves the value of each node of the expression in its
  slot, and the sum it delivers is the weighted sum over all 64 rows of the block.
\<close>

section \<open>The generator\<close>

primrec gpu_dfs :: "nat \<Rightarrow> Node list \<Rightarrow> nat option \<Rightarrow> nat list \<times> nat list \<Rightarrow> nat list \<times> nat list" where
  "gpu_dfs 0 = (\<lambda>ns n s. s)"
| "gpu_dfs (Suc fuel) = (\<lambda>ns n s.
     case n of None \<Rightarrow> s
     | Some i \<Rightarrow>
         if i \<in> set (fst s) then s
         else let s = (i # fst s, snd s);
                  s = gpu_dfs fuel ns (left (ns ! i)) s;
                  s = gpu_dfs fuel ns (right (ns ! i)) s;
                  s = gpu_dfs fuel ns (cond (ns ! i)) s;
                  s = fold (\<lambda>j. gpu_dfs fuel ns (Some j)) (operands (ns ! i)) s
              in (fst s, snd s @ [i]))"

text \<open>The depth of the recursion is bounded by the number of nodes.\<close>

definition post_order :: "Node list \<Rightarrow> nat \<Rightarrow> nat list" where
  "post_order ns root = snd (gpu_dfs (Suc (length ns)) ns (Some root) ([], []))"

definition assign_slot :: "nat \<Rightarrow> int \<times> Node list \<Rightarrow> int \<times> Node list" where
  "assign_slot i st =
     (if skip_jit (snd st ! i) then st else (fst st + 1, (snd st)[i := (snd st ! i)\<lparr>slot_id := fst st\<rparr>]))"

datatype msl_stmt =
    M_LOAD int int
  | M_CONST int u64
  | M_AND int int int
  | M_OR int int int
  | M_NOT int int
  | M_SELECT int int int int
  | M_CMP NodeKind int int int
  | M_ADD int int int
  | M_SUB int int int

text \<open>The statement of a node; \<open>None\<close> when a missing operand would be dereferenced.\<close>

definition node_slot :: "Node list \<Rightarrow> nat option \<Rightarrow> int option" where
  "node_slot ns p = map_option (\<lambda>j. slot_id (ns ! j)) p"

definition stmt2 :: "Node list \<Rightarrow> Node \<Rightarrow> (int \<Rightarrow> int \<Rightarrow> int \<Rightarrow> msl_stmt) \<Rightarrow> msl_stmt list option" where
  "stmt2 ns n c =
     (case node_slot ns (left n) of None \<Rightarrow> None
      | Some a \<Rightarrow> (case node_slot ns (right n) of None \<Rightarrow> None | Some b \<Rightarrow> Some [c (slot_id n) a b]))"

definition node_stmt :: "Node list \<Rightarrow> Node \<Rightarrow> msl_stmt list option" where
  "node_stmt ns n =
     (case kind n of
        K_LOAD \<Rightarrow> Some [M_LOAD (slot_id n) (field_idx n)]
      | K_CONST \<Rightarrow> Some [M_CONST (slot_id n) (const_value n)]
      | K_AND \<Rightarrow> stmt2 ns n M_AND
      | K_OR \<Rightarrow> stmt2 ns n M_OR
      | K_NOT \<Rightarrow> map_option (\<lambda>a. [M_NOT (slot_id n) a]) (node_slot ns (left n))
      | K_SELECT \<Rightarrow> (case node_slot ns (cond n) of None \<Rightarrow> None | Some q \<Rightarrow> stmt2 ns n (\<lambda>s a b. M_SELECT s q a b))
      | K_ADD \<Rightarrow> stmt2 ns n M_ADD
      | K_SUB \<Rightarrow> stmt2 ns n M_SUB
      | k \<Rightarrow> if k \<in> {K_GT, K_GE, K_LT, K_LE, K_EQ} then stmt2 ns n (M_CMP k) else Some [])"

fun gen_stmts :: "Node list \<Rightarrow> nat list \<Rightarrow> msl_stmt list option" where
  "gen_stmts ns [] = Some []"
| "gen_stmts ns (i # is) =
     (case (if skip_jit (ns ! i) then Some [] else node_stmt ns (ns ! i)) of None \<Rightarrow> None
      | Some xs \<Rightarrow> map_option ((@) xs) (gen_stmts ns is))"

record msl_kernel =
  mk_num_fields :: nat
  mk_scratchpad_size :: nat
  mk_stmts :: "msl_stmt list"
  mk_base_sum :: u64
  mk_terms :: "(int \<times> u64) list"

definition generate_msl_source :: "nat \<Rightarrow> Node list \<Rightarrow> nat \<Rightarrow> (msl_kernel \<times> Node list) option" where
  "generate_msl_source num_fields ns root =
     (let post = post_order ns root;
          (next_slot_id, ns') = fold assign_slot post (0, ns)
      in case gen_stmts ns' post of None \<Rightarrow> None
         | Some stmts \<Rightarrow>
             (case sum_metadata ns' root of None \<Rightarrow> None
              | Some (base_sum, ws, ms) \<Rightarrow>
                  Some (\<lparr>mk_num_fields = num_fields, mk_scratchpad_size = (if next_slot_id = 0 then 1 else nat next_slot_id),
                         mk_stmts = stmts, mk_base_sum = base_sum, mk_terms = zip ms ws\<rparr>, ns')))"

section \<open>The run of a threadgroup\<close>

type_synonym scratch = "int \<Rightarrow> vreg"

definition cmp_mask :: "NodeKind \<Rightarrow> vreg \<Rightarrow> vreg \<Rightarrow> u64" where
  "cmp_mask k a b =
     (case k of
        K_GT \<Rightarrow> fst (gt_loop a b)
      | K_GE \<Rightarrow> fst (gt_loop a b) OR snd (gt_loop a b)
      | K_LT \<Rightarrow> fst (lt_loop a b)
      | K_LE \<Rightarrow> fst (lt_loop a b) OR snd (lt_loop a b)
      | _ \<Rightarrow> eq_loop a b)"

text \<open>The index into the columns is computed in 32-bit unsigned arithmetic.\<close>

definition column_index :: "nat \<Rightarrow> nat \<Rightarrow> int \<Rightarrow> nat \<Rightarrow> nat" where
  "column_index num_fields block field t = nat ((int (block * num_fields * 64) + field * 64 + int t) mod 2 ^ 32)"

fun run_stmt :: "vreg \<Rightarrow> (nat \<Rightarrow> u64) \<Rightarrow> nat \<Rightarrow> nat \<Rightarrow> msl_stmt \<Rightarrow> scratch \<Rightarrow> scratch" where
  "run_stmt junk columns nf block (M_LOAD s f) pad = pad(s := \<lambda>t. columns (column_index nf block f t))"
| "run_stmt junk columns nf block (M_CONST s v) pad = pad(s := \<lambda>t. if bit v t then NOT 0 else 0)"
| "run_stmt junk columns nf block (M_AND s a b) pad = pad(s := \<lambda>t. pad a t AND pad b t)"
| "run_stmt junk columns nf block (M_OR s a b) pad = pad(s := \<lambda>t. pad a t OR pad b t)"
| "run_stmt junk columns nf block (M_NOT s a) pad = pad(s := \<lambda>t. NOT (pad a t))"
| "run_stmt junk columns nf block (M_SELECT s q a b) pad = pad(s := \<lambda>t. (pad q t AND pad a t) OR (NOT (pad q t) AND pad b t))"
| "run_stmt junk columns nf block (M_CMP k s a b) pad = pad(s := \<lambda>t. cmp_mask k (pad a) (pad b))"
| "run_stmt junk columns nf block (M_ADD s a b) pad = pad(s := gpu_add junk (pad a) (pad b))"
| "run_stmt junk columns nf block (M_SUB s a b) pad = pad(s := gpu_sub junk (pad a) (pad b))"

definition run_stmts :: "vreg \<Rightarrow> (nat \<Rightarrow> u64) \<Rightarrow> nat \<Rightarrow> nat \<Rightarrow> msl_stmt list \<Rightarrow> scratch" where
  "run_stmts junk columns nf block stmts = fold (run_stmt junk columns nf block) stmts (\<lambda>s t. 0)"

text \<open>The sum of a row: thread \<open>t\<close> looks at bit \<open>t\<close> of its own copy of each mask.\<close>

definition row_sum :: "msl_kernel \<Rightarrow> scratch \<Rightarrow> vreg" where
  "row_sum k pad t = fold (\<lambda>(s, w) acc. if bit (pad s t) t then acc + w else acc) (mk_terms k) (mk_base_sum k)"

definition reduce_stage :: "vreg \<Rightarrow> nat \<Rightarrow> vreg \<Rightarrow> vreg" where
  "reduce_stage junk delta v t = v t + shuffle_down_64 junk delta v t"

definition simd_reduce :: "vreg \<Rightarrow> vreg \<Rightarrow> vreg" where
  "simd_reduce junk v = reduce_stage junk 1 (reduce_stage junk 2 (reduce_stage junk 4 (reduce_stage junk 8 (reduce_stage junk 16 v))))"

definition run_block :: "vreg \<Rightarrow> (nat \<Rightarrow> u64) \<Rightarrow> msl_kernel \<Rightarrow> nat \<Rightarrow> u64" where
  "run_block junk columns k block =
     (let local_sum = simd_reduce junk (row_sum k (run_stmts junk columns (mk_num_fields k) block (mk_stmts k)))
      in local_sum 0 + local_sum 32)"

section \<open>The reduction\<close>

lemma lane_up: "lane_id t + d < 32 \<Longrightarrow> lane_id (t + d) = lane_id t + d"
  unfolding lane_id_def by (metis mod_add_left_eq mod_less)

text \<open>After the stages from 16 down to \<open>d\<close>, a lane below \<open>d\<close> has the sum of the lanes that are a multiple of \<open>d\<close> away.\<close>

definition reduced :: "nat \<Rightarrow> nat \<Rightarrow> vreg \<Rightarrow> vreg \<Rightarrow> bool" where
  "reduced d n u v \<longleftrightarrow> n * d = 32 \<and> (\<forall>t. lane_id t < d \<longrightarrow> v t = (\<Sum>j < n. u (t + j * d)))"

lemma reduced_stage:
  assumes "reduced (2 * d) n u v" and "0 < n"
  shows "reduced d (2 * n) u (reduce_stage junk d v)"
proof -
  have nd: "n * (2 * d) = 32" using assms(1) by (simp add: reduced_def)
  have d: "2 * d \<le> 32" using nd assms(2) by (cases n) auto
  have "reduce_stage junk d v t = (\<Sum>j < 2 * n. u (t + j * d))" if t: "lane_id t < d" for t
  proof -
    have u: "lane_id (t + d) = lane_id t + d" "lane_id t + d < 32" using lane_up [of t d] t d by simp_all
    have "reduce_stage junk d v t = v t + v (t + d)" using u by (simp add: reduce_stage_def shuffle_down_64_def)
    also have "\<dots> = (\<Sum>j < n. u (t + j * (2 * d))) + (\<Sum>j < n. u (t + d + j * (2 * d)))"
      using assms(1) t u by (simp add: reduced_def)
    also have "\<dots> = (\<Sum>j < n. u (t + (2 * j) * d) + u (t + Suc (2 * j) * d))" by (simp add: sum.distrib ac_simps)
    also have "\<dots> = (\<Sum>j < 2 * n. u (t + j * d))" by (induction n) (simp_all add: ac_simps)
    finally show ?thesis .
  qed
  then show ?thesis using nd by (simp add: reduced_def)
qed

lemma simd_reduce_sum: "lane_id t = 0 \<Longrightarrow> simd_reduce junk v t = (\<Sum>l < 32. v (t + l))"
proof -
  assume t: "lane_id t = 0"
  have "reduced 32 1 v v" by (simp add: reduced_def)
  from reduced_stage [of 16 1 v v junk] this have "reduced 16 2 v (reduce_stage junk 16 v)" by simp
  from reduced_stage [of 8 2 v _ junk] this have "reduced 8 4 v (reduce_stage junk 8 (reduce_stage junk 16 v))" by simp
  from reduced_stage [of 4 4 v _ junk] this have "reduced 4 8 v (reduce_stage junk 4 (reduce_stage junk 8 (reduce_stage junk 16 v)))" by simp
  from reduced_stage [of 2 8 v _ junk] this
  have "reduced 2 16 v (reduce_stage junk 2 (reduce_stage junk 4 (reduce_stage junk 8 (reduce_stage junk 16 v))))" by simp
  from reduced_stage [of 1 16 v _ junk] this have "reduced 1 32 v (simd_reduce junk v)" by (simp add: simd_reduce_def)
  with t show ?thesis by (simp add: reduced_def)
qed

text \<open>The two SIMD groups together deliver the sum over all threads.\<close>

lemma run_block_sum:
  "run_block junk columns k block = (\<Sum>t < 64. row_sum k (run_stmts junk columns (mk_num_fields k) block (mk_stmts k)) t)"
proof -
  let ?v = "row_sum k (run_stmts junk columns (mk_num_fields k) block (mk_stmts k))"
  have split: "sum f {..<m + n} = sum f {..<m} + (\<Sum>t < n. f (m + t))" for f :: vreg and m n
    by (induction n) (simp_all add: add.assoc)
  show ?thesis using split [of ?v 32 32] simd_reduce_sum [of 0 junk ?v] simd_reduce_sum [of 32 junk ?v]
    by (simp add: run_block_def Let_def lane_id_def)
qed

section \<open>The order of the nodes\<close>

text \<open>The walk of the generator meets the nodes in the order of the analyzer; \<open>S\<close> are the nodes still open.\<close>

lemma gpu_dfs_analyze:
  assumes "pool_wf ns"
  shows "ana_inv ns s \<Longrightarrow> set (fst g) = set (all_nodes s) \<union> S \<Longrightarrow> snd g = all_nodes s \<Longrightarrow>
    (\<forall>i. n = Some i \<longrightarrow> i < fuel \<and> i < length ns \<and> (\<forall>x \<in> S. i < x)) \<Longrightarrow>
    ana_inv ns (analyze fuel n s) \<and> set (fst (gpu_dfs fuel ns n g)) = set (all_nodes (analyze fuel n s)) \<union> S \<and>
    snd (gpu_dfs fuel ns n g) = all_nodes (analyze fuel n s)"
proof (induction fuel arbitrary: n s g S)
  case (Suc fuel)
  have inv: "ana_inv ns (analyze (Suc fuel) n s)" using analyze_inv [OF assms Suc.prems(1), of n "Suc fuel"] Suc.prems(4) by auto
  show ?case
  proof (cases n)
    case (Some i)
    have i: "i < length ns" "i < Suc fuel" "i \<notin> S" using Some Suc.prems(4) by auto
    show ?thesis
    proof (cases "i \<in> set (all_nodes s)")
      case True
      with Some i Suc.prems show ?thesis by simp
    next
      case False
      define m where "m = ns ! i"
      have sh: "same_shape ns (ea_nodes s)" using Suc.prems(1) by (simp add: ana_inv_def)
      note sel = same_shape_sel [OF sh i(1), folded m_def]
      have below: "c < i" if "c \<in> set (children m)" for c using assms that i(1) by (auto simp: pool_wf_iff m_def)
      let ?ok = "\<lambda>t h. ana_inv ns t \<and> set (fst h) = set (all_nodes t) \<union> insert i S \<and> snd h = all_nodes t"
      have step: "?ok (analyze fuel c t) (gpu_dfs fuel ns c h)" if "?ok t h" and "\<And>j. c = Some j \<Longrightarrow> j \<in> set (children m)" for c t h
        by (rule Suc.IH) (use that i Some Suc.prems(4) below in \<open>fastforce+\<close>)
      have ops: "?ok (fold (\<lambda>j. analyze fuel (Some j)) os t) (fold (\<lambda>j. gpu_dfs fuel ns (Some j)) os h)"
        if "?ok t h" and "set os \<subseteq> set (children m)" for os t h
        using that
      proof (induction os arbitrary: t h)
        case (Cons x os)
        have "?ok (analyze fuel (Some x) t) (gpu_dfs fuel ns (Some x) h)" using step [of t h "Some x"] Cons.prems by auto
        then show ?case using Cons.IH [of "analyze fuel (Some x) t" "gpu_dfs fuel ns (Some x) h"] Cons.prems(2) by simp
      qed simp
      define h0 where "h0 = (i # fst g, snd g)"
      have 0: "?ok s h0" using Suc.prems by (simp add: h0_def)
      define s1 where "s1 = analyze fuel (left m) s"
      define h1 where "h1 = gpu_dfs fuel ns (left m) h0"
      have 1: "?ok s1 h1" unfolding s1_def h1_def by (rule step [OF 0]) (simp add: in_children)
      define s2 where "s2 = analyze fuel (right m) s1"
      define h2 where "h2 = gpu_dfs fuel ns (right m) h1"
      have 2: "?ok s2 h2" unfolding s2_def h2_def by (rule step [OF 1]) (simp add: in_children)
      define s3 where "s3 = analyze fuel (cond m) s2"
      define h3 where "h3 = gpu_dfs fuel ns (cond m) h2"
      have 3: "?ok s3 h3" unfolding s3_def h3_def by (rule step [OF 2]) (simp add: in_children)
      define s4 where "s4 = fold (\<lambda>j. analyze fuel (Some j)) (operands m) s3"
      define h4 where "h4 = fold (\<lambda>j. gpu_dfs fuel ns (Some j)) (operands m) h3"
      have 4: "?ok s4 h4" unfolding s4_def h4_def by (rule ops [OF 3]) (auto simp: in_children)
      have a: "analyze (Suc fuel) n s = finish_node i s4" using Some False sel
        by (simp add: s1_def s2_def s3_def s4_def Let_def)
      have "i \<notin> set (fst g)" using False i(3) Suc.prems(2) by simp
      then have "gpu_dfs (Suc fuel) ns n g = (fst h4, snd h4 @ [i])" using Some
        by (simp add: m_def [symmetric] h0_def [symmetric] h1_def [symmetric] h2_def [symmetric] h3_def [symmetric] h4_def [symmetric] Let_def)
      then show ?thesis using 4 inv unfolding a by (simp add: finish_node_def Let_def)
    qed
  qed (use Suc.prems in simp)
qed simp

lemma post_order_analyzer:
  assumes "pool_wf ns" and "root < length ns"
  shows "post_order ns root = all_nodes (run_analyzer ns root)"
proof -
  let ?s = "\<lparr>ea_nodes = ns, arithmetic_nodes = [], comparison_nodes = [], select_nodes = [], all_nodes = []\<rparr>"
  have "ana_inv ns ?s" by (simp add: ana_inv_def ordered_def)
  from gpu_dfs_analyze [OF assms(1) this, of "([], [])" "{}" "Some root" "Suc (length ns)"] assms(2)
  show ?thesis by (simp add: post_order_def run_analyzer_def del: analyze.simps gpu_dfs.simps)
qed

section \<open>Slots\<close>

definition unslot :: "Node \<Rightarrow> Node" where
  "unslot n = n\<lparr>slot_id := 0\<rparr>"

lemma unslot_sel:
  assumes "unslot n = unslot m"
  shows "kind n = kind m" "left n = left m" "right n = right m" "cond n = cond m" "operands n = operands m"
    "const_value n = const_value m" "field_idx n = field_idx m" "weight n = weight m" "skip_jit n = skip_jit m"
  using assms unfolding unslot_def by (cases n; cases m; simp)+

text \<open>Every node of the order gets the slot of its position.\<close>

lemma assign_slots:
  assumes "distinct xs" and "\<And>i. i \<in> set xs \<Longrightarrow> i < length ns \<and> \<not> skip_jit (ns ! i)"
  shows "fst (fold assign_slot xs (m, ns)) = m + int (length xs) \<and> length (snd (fold assign_slot xs (m, ns))) = length ns \<and>
    (\<forall>i. unslot (snd (fold assign_slot xs (m, ns)) ! i) = unslot (ns ! i)) \<and>
    (\<forall>i. i \<notin> set xs \<longrightarrow> snd (fold assign_slot xs (m, ns)) ! i = ns ! i) \<and>
    (\<forall>k < length xs. slot_id (snd (fold assign_slot xs (m, ns)) ! (xs ! k)) = m + int k)"
  using assms
proof (induction xs arbitrary: m ns)
  case (Cons x xs)
  let ?ns = "ns[x := (ns ! x)\<lparr>slot_id := m\<rparr>]"
  have x: "x < length ns" "\<not> skip_jit (ns ! x)" using Cons.prems(2) by auto
  then have f: "fold assign_slot (x # xs) (m, ns) = fold assign_slot xs (m + 1, ?ns)" by (simp add: assign_slot_def)
  have u: "unslot (?ns ! i) = unslot (ns ! i)" for i
    using x by (cases "i = x") (simp_all add: unslot_def)
  have "i < length ?ns \<and> \<not> skip_jit (?ns ! i)" if "i \<in> set xs" for i
    using Cons.prems(2) [of i] that unslot_sel(9) [OF u, of i] by simp
  note IH = Cons.IH [OF _ this, of "m + 1"]
  have "slot_id (snd (fold assign_slot xs (m + 1, ?ns)) ! ((x # xs) ! k)) = m + int k" if "k < length (x # xs)" for k
    using IH Cons.prems(1) that x by (cases k) auto
  with IH Cons.prems(1) u show ?case unfolding f by auto
qed simp

section \<open>Expressions of the kernel\<close>

text \<open>
  The nodes whose statements mean their operation. An addition and a subtraction are not among them (two of
  their planes depend on what the hardware delivers), nor a kind with no statement; the SUM of the
  expression and the addition of a constant to it are left to the reduction.
\<close>

definition gpu_ok :: "Node list \<Rightarrow> nat \<Rightarrow> bool" where
  "gpu_ok ns i =
     (let n = ns ! i; k = kind n in
      k = K_LOAD \<or> k = K_CONST \<or>
      is_cmp_kind k \<and> plane_node ns (left n) \<and> plane_node ns (right n) \<or>
      k = K_SELECT \<and> mask_node ns (cond n) \<and> plane_node ns (left n) \<and> plane_node ns (right n) \<or>
      (k = K_AND \<or> k = K_OR) \<and> mask_node ns (left n) \<and> mask_node ns (right n) \<or>
      k = K_NOT \<and> mask_node ns (left n))"

text \<open>What a slot holds: a mask in every thread, or the planes of a number.\<close>

definition gpu_holds :: "Node list \<Rightarrow> (nat \<Rightarrow> string \<Rightarrow> u64) \<Rightarrow> vreg \<Rightarrow> nat \<Rightarrow> bool" where
  "gpu_holds ns env v i \<longleftrightarrow>
     (is_mask_kind (kind (ns ! i)) \<longrightarrow> (\<forall>t < 64. \<forall>r < 64. bit (v t) r \<longleftrightarrow> node_value ns (env r) i \<noteq> 0)) \<and>
     (plane_node ns (Some i) \<longrightarrow> (\<forall>r < 64. row_val v r = node_value ns (env r) i))"

definition columns_hold :: "(nat \<Rightarrow> u64) \<Rightarrow> nat \<Rightarrow> nat \<Rightarrow> Node list \<Rightarrow> (nat \<Rightarrow> string \<Rightarrow> u64) \<Rightarrow> nat \<Rightarrow> bool" where
  "columns_hold columns nf block ns env i \<longleftrightarrow>
     (kind (ns ! i) = K_LOAD \<longrightarrow>
        (\<forall>r < 64. row_val (\<lambda>t. columns (column_index nf block (field_idx (ns ! i)) t)) r = env r (field_name (ns ! i))))"

lemma cmp_mask_rows:
  assumes "is_cmp_kind k" and "r < 64"
  shows "bit (cmp_mask k a b) r \<longleftrightarrow> cmp_val k (row_val a r) (row_val b r)"
proof -
  note m = cmp_planes [OF assms(2), of a b, folded gt_loop_cmp] cmp_planes [OF assms(2), of b a, folded lt_loop_cmp]
  have "k = K_GT \<or> k = K_GE \<or> k = K_LT \<or> k = K_LE \<or> k = K_EQ" using assms(1) by (auto simp: is_cmp_kind_def)
  then show ?thesis
    by (elim disjE) (auto simp: cmp_mask_def cmp_val_def eq_loop_cmp bit_or_iff m)
qed

lemma row_val_gpu_select:
  assumes "r < 64" and "\<And>t. t < 64 \<Longrightarrow> bit (q t) r \<longleftrightarrow> c"
  shows "row_val (\<lambda>t. (q t AND a t) OR (NOT (q t) AND b t)) r = (if c then row_val a r else row_val b r)"
  by (rule word_bit_eqI) (use assms in \<open>auto simp: bit_row_val bit_or_iff bit_and_iff bit_not_iff\<close>)

text \<open>One node: its statement writes its own slot only, and there the value of the node.\<close>

lemma node_stmt_run:
  assumes "pool_wf ns" and "i < length ns" and "gpu_ok ns i" and "\<And>j. unslot (ns' ! j) = unslot (ns ! j)"
    and "columns_hold columns nf block ns env i"
    and "\<And>c. c \<in> set (children (ns ! i)) \<Longrightarrow> gpu_holds ns env (pad (slot_id (ns' ! c))) c"
  shows "\<exists>st v. node_stmt ns' (ns' ! i) = Some [st] \<and> run_stmt junk columns nf block st pad = pad(slot_id (ns' ! i) := v) \<and>
    gpu_holds ns env v i"
proof -
  note sel = unslot_sel [OF assms(4), of i]
  let ?P = "\<lambda>c. pad (slot_id (ns' ! c))"
  have pl: "\<exists>c. p = Some c \<and> (\<forall>r < 64. row_val (?P c) r = node_value ns (env r) c)"
    if "plane_node ns p" and "\<And>c. p = Some c \<Longrightarrow> c \<in> set (children (ns ! i))" for p
    using that assms(6) by (cases p) (auto simp: gpu_holds_def plane_node_def)
  have ml: "\<exists>c. p = Some c \<and> (\<forall>t < 64. \<forall>r < 64. bit (?P c t) r \<longleftrightarrow> node_value ns (env r) c \<noteq> 0)"
    if "mask_node ns p" and "\<And>c. p = Some c \<Longrightarrow> c \<in> set (children (ns ! i))" for p
    using that assms(6) by (cases p) (auto simp: gpu_holds_def mask_node_def)
  note inner = node_value_inner [OF assms(1,2)]
  consider "kind (ns ! i) = K_LOAD" | "kind (ns ! i) = K_CONST"
    | "is_cmp_kind (kind (ns ! i))" "plane_node ns (left (ns ! i))" "plane_node ns (right (ns ! i))"
    | "kind (ns ! i) = K_SELECT" "mask_node ns (cond (ns ! i))" "plane_node ns (left (ns ! i))" "plane_node ns (right (ns ! i))"
    | "kind (ns ! i) = K_AND \<or> kind (ns ! i) = K_OR" "mask_node ns (left (ns ! i))" "mask_node ns (right (ns ! i))"
    | "kind (ns ! i) = K_NOT" "mask_node ns (left (ns ! i))"
    using assms(3) unfolding gpu_ok_def Let_def by blast
  then obtain st v where "node_stmt ns' (ns' ! i) = Some [st]" "run_stmt junk columns nf block st pad = pad(slot_id (ns' ! i) := v)"
    "gpu_holds ns env v i"
  proof cases
    case 1
    let ?v = "\<lambda>t. columns (column_index nf block (field_idx (ns ! i)) t)"
    show thesis
    proof (rule that [of "M_LOAD (slot_id (ns' ! i)) (field_idx (ns ! i))" ?v])
      show "gpu_holds ns env ?v i" using assms(5) 1
        by (simp add: gpu_holds_def columns_hold_def is_mask_kind_def node_value_leaf)
    qed (simp_all add: node_stmt_def sel 1)
  next
    case 2
    let ?v = "\<lambda>t. if bit (const_value (ns ! i)) t then NOT 0 else 0"
    show thesis
    proof (rule that [of "M_CONST (slot_id (ns' ! i)) (const_value (ns ! i))" ?v])
      show "gpu_holds ns env ?v i" using row_val_const 2
        by (simp add: gpu_holds_def is_mask_kind_def node_value_leaf)
    qed (simp_all add: node_stmt_def sel 2)
  next
    case 3
    then obtain a b where o: "left (ns ! i) = Some a" "right (ns ! i) = Some b"
      "\<forall>r < 64. row_val (?P a) r = node_value ns (env r) a" "\<forall>r < 64. row_val (?P b) r = node_value ns (env r) b"
      using pl [OF 3(2)] pl [OF 3(3)] by (auto simp: in_children)
    have k: "kind (ns ! i) \<noteq> K_LOAD" "kind (ns ! i) \<noteq> K_CONST" "\<not> plane_node ns (Some i)" using 3(1) by (auto simp: is_cmp_kind_def plane_node_def)
    show thesis
    proof (rule that [of "M_CMP (kind (ns ! i)) (slot_id (ns' ! i)) (slot_id (ns' ! a)) (slot_id (ns' ! b))"
          "\<lambda>t. cmp_mask (kind (ns ! i)) (?P a) (?P b)"])
      show "node_stmt ns' (ns' ! i) = Some [M_CMP (kind (ns ! i)) (slot_id (ns' ! i)) (slot_id (ns' ! a)) (slot_id (ns' ! b))]"
        using 3(1) o(1,2) unfolding is_cmp_kind_def by (auto simp: node_stmt_def stmt2_def node_slot_def sel)
      show "gpu_holds ns env (\<lambda>t. cmp_mask (kind (ns ! i)) (?P a) (?P b)) i"
        using o k by (simp add: gpu_holds_def cmp_mask_rows [OF 3(1)] inner cmp_val_op [OF 3(1)])
    qed simp
  next
    case 4
    then obtain q a b where o: "cond (ns ! i) = Some q" "left (ns ! i) = Some a" "right (ns ! i) = Some b"
      "\<forall>t < 64. \<forall>r < 64. bit (?P q t) r \<longleftrightarrow> node_value ns (env r) q \<noteq> 0"
      "\<forall>r < 64. row_val (?P a) r = node_value ns (env r) a" "\<forall>r < 64. row_val (?P b) r = node_value ns (env r) b"
      using ml [OF 4(2)] pl [OF 4(3)] pl [OF 4(4)] by (auto simp: in_children)
    let ?v = "\<lambda>t. (?P q t AND ?P a t) OR (NOT (?P q t) AND ?P b t)"
    have "row_val ?v r = node_value ns (env r) i" if "r < 64" for r
      using row_val_gpu_select [of r "?P q" "node_value ns (env r) q \<noteq> 0" "?P a" "?P b"] o that 4(1) by (simp add: inner node_op_def)
    then have "gpu_holds ns env ?v i" using 4(1) by (simp add: gpu_holds_def is_mask_kind_def)
    then show thesis
      by (rule that [of "M_SELECT (slot_id (ns' ! i)) (slot_id (ns' ! q)) (slot_id (ns' ! a)) (slot_id (ns' ! b))" ?v, rotated 2])
        (use o 4(1) in \<open>simp_all add: node_stmt_def stmt2_def node_slot_def sel\<close>)
  next
    case 5
    then obtain a b where o: "left (ns ! i) = Some a" "right (ns ! i) = Some b"
      "\<forall>t < 64. \<forall>r < 64. bit (?P a t) r \<longleftrightarrow> node_value ns (env r) a \<noteq> 0"
      "\<forall>t < 64. \<forall>r < 64. bit (?P b t) r \<longleftrightarrow> node_value ns (env r) b \<noteq> 0"
      using ml [OF 5(2)] ml [OF 5(3)] by (auto simp: in_children)
    let ?v = "\<lambda>t. if kind (ns ! i) = K_AND then ?P a t AND ?P b t else ?P a t OR ?P b t"
    let ?st = "(if kind (ns ! i) = K_AND then M_AND else M_OR) (slot_id (ns' ! i)) (slot_id (ns' ! a)) (slot_id (ns' ! b))"
    have "gpu_holds ns env ?v i" using 5(1) o
      by (elim disjE) (simp_all add: gpu_holds_def plane_node_def inner node_op_def bit_and_iff bit_or_iff)
    moreover have "node_stmt ns' (ns' ! i) = Some [?st]" "run_stmt junk columns nf block ?st pad = pad(slot_id (ns' ! i) := ?v)"
      using o 5(1) by (elim disjE; simp add: node_stmt_def stmt2_def node_slot_def sel)+
    ultimately show thesis by (intro that)
  next
    case 6
    then obtain a where o: "left (ns ! i) = Some a"
      "\<forall>t < 64. \<forall>r < 64. bit (?P a t) r \<longleftrightarrow> node_value ns (env r) a \<noteq> 0"
      using ml [OF 6(2)] by (auto simp: in_children)
    show thesis
    proof (rule that [of "M_NOT (slot_id (ns' ! i)) (slot_id (ns' ! a))" "\<lambda>t. NOT (?P a t)"])
      show "gpu_holds ns env (\<lambda>t. NOT (?P a t)) i" using o 6(1)
        by (simp add: gpu_holds_def plane_node_def inner node_op_def bit_not_iff)
    qed (use o 6(1) in \<open>simp_all add: node_stmt_def node_slot_def sel\<close>)
  qed
  then show ?thesis by blast
qed

section \<open>The whole kernel\<close>

text \<open>The statements of all nodes but the SUM and the root leave every value in its slot.\<close>

definition kernel_node :: "Node list \<Rightarrow> nat \<Rightarrow> nat \<Rightarrow> bool" where
  "kernel_node ns root i \<longleftrightarrow> i \<noteq> root \<and> kind (ns ! i) \<noteq> K_SUM"

text \<open>A SUM has no statement; the root has one that writes its own slot, or none.\<close>

definition root_stmt_ok :: "Node list \<Rightarrow> nat \<Rightarrow> bool" where
  "root_stmt_ok ns root \<longleftrightarrow> kind (ns ! root) = K_SUM \<or> kind (ns ! root) = K_ADD \<and> left (ns ! root) \<noteq> None \<and> right (ns ! root) \<noteq> None"

lemma root_stmt_run:
  assumes "root_stmt_ok ns root" and "\<And>j. unslot (ns' ! j) = unslot (ns ! j)"
  shows "\<exists>sts. node_stmt ns' (ns' ! root) = Some sts \<and> (\<forall>pad. \<exists>v. fold (run_stmt junk columns nf block) sts pad = pad(slot_id (ns' ! root) := v))"
proof -
  note sel = unslot_sel [OF assms(2), of root]
  show ?thesis
  proof (cases "kind (ns ! root) = K_SUM")
    case True
    then have "node_stmt ns' (ns' ! root) = Some []" using sel by (simp add: node_stmt_def)
    moreover have "\<exists>v. pad = pad(s := v)" for pad :: scratch and s by (rule exI [of _ "pad s"]) simp
    ultimately show ?thesis by simp
  next
    case False
    then show ?thesis using assms(1) sel by (auto simp: root_stmt_ok_def node_stmt_def stmt2_def node_slot_def)
  qed
qed

lemma gen_stmts_run:
  assumes "pool_wf ns" and "root_stmt_ok ns root" and "\<And>j. unslot (ns' ! j) = unslot (ns ! j)" and "ordered ns (done @ xs)"
    and "distinct (done @ xs)" and "inj_on (\<lambda>i. slot_id (ns' ! i)) (set (done @ xs))"
    and "\<And>i. i \<in> set (done @ xs) \<Longrightarrow> i < length ns \<and> \<not> skip_jit (ns ! i) \<and> columns_hold columns nf block ns env i"
    and "\<And>i. i \<in> set (done @ xs) \<Longrightarrow> kernel_node ns root i \<Longrightarrow> gpu_ok ns i \<and> (\<forall>c \<in> set (children (ns ! i)). kernel_node ns root c)"
    and "\<And>i. i \<in> set done \<Longrightarrow> kernel_node ns root i \<Longrightarrow> gpu_holds ns env (pad (slot_id (ns' ! i))) i"
  shows "\<exists>sts. gen_stmts ns' xs = Some sts \<and>
    (\<forall>i \<in> set (done @ xs). kernel_node ns root i \<longrightarrow>
       gpu_holds ns env (fold (run_stmt junk columns nf block) sts pad (slot_id (ns' ! i))) i)"
  using assms(4-9)
proof (induction xs arbitrary: "done" pad)
  case (Cons i xs)
  let ?run = "fold (run_stmt junk columns nf block)"
  let ?sl = "\<lambda>i. slot_id (ns' ! i)"
  have i: "i < length ns" "\<not> skip_jit (ns' ! i)" "columns_hold columns nf block ns env i"
    using Cons.prems(4) [of i] unslot_sel(9) [OF assms(3), of i] by auto
  have ch: "set (children (ns ! i)) \<subseteq> set done" using Cons.prems(1) by (auto simp: ordered_def dest!: spec [of _ "length done"])
  have fresh: "?sl j \<noteq> ?sl i" if "j \<in> set done" for j
    using Cons.prems(2,3) that by (auto simp: inj_on_def)
  have "\<exists>sts v. node_stmt ns' (ns' ! i) = Some sts \<and> ?run sts pad = pad(?sl i := v) \<and> (kernel_node ns root i \<longrightarrow> gpu_holds ns env v i)"
  proof (cases "kernel_node ns root i")
    case True
    then have k: "gpu_ok ns i" "\<And>c. c \<in> set (children (ns ! i)) \<Longrightarrow> kernel_node ns root c" using Cons.prems(5) [of i] by auto
    then have "gpu_holds ns env (pad (?sl c)) c" if "c \<in> set (children (ns ! i))" for c using Cons.prems(6) [of c] ch that by auto
    from node_stmt_run [OF assms(1) i(1) k(1) assms(3) i(3) this, of junk] obtain st v where
      s: "node_stmt ns' (ns' ! i) = Some [st]" "run_stmt junk columns nf block st pad = pad(?sl i := v)" "gpu_holds ns env v i" by blast
    show ?thesis by (intro exI [of _ "[st]"] exI [of _ v]) (simp add: s)
  next
    case False
    then have "root_stmt_ok ns i" using assms(2) by (auto simp: kernel_node_def root_stmt_ok_def)
    from root_stmt_run [OF this assms(3), of junk columns nf block] False show ?thesis by metis
  qed
  then obtain sts v where s: "node_stmt ns' (ns' ! i) = Some sts" "?run sts pad = pad(?sl i := v)"
    "kernel_node ns root i \<Longrightarrow> gpu_holds ns env v i" by blast
  have "gpu_holds ns env (?run sts pad (?sl j)) j" if "j \<in> set (done @ [i])" "kernel_node ns root j" for j
    using s(2,3) fresh [of j] Cons.prems(6) [of j] that by auto
  with Cons.IH [of "done @ [i]" "?run sts pad"] Cons.prems obtain sts' where
    r: "gen_stmts ns' xs = Some sts'" "\<forall>j \<in> set ((done @ [i]) @ xs). kernel_node ns root j \<longrightarrow> gpu_holds ns env (?run sts' (?run sts pad) (?sl j)) j"
    by auto
  then show ?case using i(2) s(1) by simp
qed simp

section \<open>The sum of a block\<close>

definition sum_node :: "Node list \<Rightarrow> nat \<Rightarrow> nat" where
  "sum_node ns root = (case sum_plus_const ns root of Some True \<Rightarrow> the (left (ns ! root)) | _ \<Rightarrow> root)"

text \<open>
  The expressions the kernel is written for: a SUM, perhaps with a constant added, whose operands are
  masks with weights or selections by a mask, over nodes the kernel has statements for.
\<close>

definition gpu_expr :: "Node list \<Rightarrow> nat \<Rightarrow> bool" where
  "gpu_expr ns root \<longleftrightarrow>
     sum_plus_const ns root \<noteq> None \<and> kind (ns ! sum_node ns root) = K_SUM \<and>
     list_all (\<lambda>j. mask_node ns (Some j) \<or> kind (ns ! j) = K_SELECT \<and> mask_node ns (cond (ns ! j))) (operands (ns ! sum_node ns root)) \<and>
     list_all (\<lambda>i. \<not> skip_jit (ns ! i) \<and>
       (i = root \<or> i = sum_node ns root \<or> gpu_ok ns i \<and> list_all (\<lambda>c. kind (ns ! c) \<noteq> K_SUM) (children (ns ! i)))) (post_order ns root)"

text \<open>The score of a row: the constant and the weights of the operands that hold on it.\<close>

definition term_value :: "Node list \<Rightarrow> (string \<Rightarrow> u64) \<Rightarrow> nat \<Rightarrow> u64" where
  "term_value ns env j =
     (let op = ns ! j in
      if kind op = K_SELECT
      then if node_value ns env (the (cond op)) \<noteq> 0 then const_or ns (left op) (of_int (weight op)) else const_or ns (right op) 0
      else if node_value ns env j \<noteq> 0 then of_int (weight op) else 0)"

definition row_score :: "Node list \<Rightarrow> (string \<Rightarrow> u64) \<Rightarrow> nat \<Rightarrow> u64" where
  "row_score ns env root =
     (if sum_node ns root = root then 0 else const_value (ns ! the (right (ns ! root)))) +
     sum_list (map (term_value ns env) (operands (ns ! sum_node ns root)))"

text \<open>A selection between constants counts with its value.\<close>

lemma term_value_select:
  assumes "pool_wf ns" and "j < length ns" and "kind (ns ! j) = K_SELECT" and "cond (ns ! j) = Some q" and "left (ns ! j) = Some a"
    and "right (ns ! j) = Some b" and "kind (ns ! a) = K_CONST" and "kind (ns ! b) = K_CONST"
  shows "term_value ns env j = node_value ns env j"
  using assms by (simp add: term_value_def const_or_def node_value_inner node_op_def node_value_leaf)

definition op_mask :: "Node list \<Rightarrow> nat \<Rightarrow> nat" where
  "op_mask ns j = (if kind (ns ! j) = K_SELECT then the (cond (ns ! j)) else j)"

definition op_right :: "Node list \<Rightarrow> nat \<Rightarrow> u64" where
  "op_right ns j = (if kind (ns ! j) = K_SELECT then const_or ns (right (ns ! j)) 0 else 0)"

definition op_weight :: "Node list \<Rightarrow> nat \<Rightarrow> u64" where
  "op_weight ns j =
     (if kind (ns ! j) = K_SELECT then const_or ns (left (ns ! j)) (of_int (weight (ns ! j))) - op_right ns j else of_int (weight (ns ! j)))"

lemma term_value_split:
  "term_value ns env j = op_right ns j + (if node_value ns env (op_mask ns j) \<noteq> 0 then op_weight ns j else 0)"
  by (simp add: term_value_def Let_def op_right_def op_weight_def op_mask_def)

lemma sum_operands:
  "(\<And>j. j \<in> set os \<Longrightarrow> kind (ns ! j) = K_SELECT \<Longrightarrow> cond (ns ! j) \<noteq> None) \<Longrightarrow>
   fold (sum_operand ns) os (Some (b, ws, ms)) =
     Some (b + sum_list (map (op_right ns) os), ws @ map (op_weight ns) os, ms @ map (\<lambda>j. slot_id (ns ! op_mask ns j)) os)"
proof (induction os arbitrary: b ws ms)
  case (Cons j os)
  have "sum_operand ns j (Some (b, ws, ms)) = Some (b + op_right ns j, ws @ [op_weight ns j], ms @ [slot_id (ns ! op_mask ns j)])"
    using Cons.prems [of j] by (auto simp: sum_operand_def Let_def op_right_def op_weight_def op_mask_def)
  with Cons.IH [OF Cons.prems] show ?case by (simp add: add.assoc)
qed simp

lemma op_unslot:
  assumes "\<And>j. unslot (ns' ! j) = unslot (ns ! j)"
  shows "const_or ns' p d = const_or ns p d" "op_mask ns' j = op_mask ns j" "op_right ns' j = op_right ns j" "op_weight ns' j = op_weight ns j"
    "sum_plus_const ns' i = sum_plus_const ns i" "sum_node ns' i = sum_node ns i"
proof -
  note sel = unslot_sel [OF assms]
  show c: "const_or ns' p d = const_or ns p d" for p d by (cases p) (simp_all add: const_or_def sel)
  show "op_mask ns' j = op_mask ns j" by (simp add: op_mask_def sel)
  show r: "op_right ns' j = op_right ns j" by (simp add: op_right_def sel c)
  show "op_weight ns' j = op_weight ns j" by (simp add: op_weight_def sel c r)
  show p: "sum_plus_const ns' i = sum_plus_const ns i"
    by (cases "left (ns ! i)"; cases "right (ns ! i)") (simp_all add: sum_plus_const_def Let_def sel)
  show "sum_node ns' i = sum_node ns i" by (simp add: sum_node_def p sel split: option.split bool.split)
qed

lemma sum_list_add: "sum_list (map f xs) + sum_list (map g xs) = sum_list (map (\<lambda>x. f x + g x) xs)" for f g :: "'a \<Rightarrow> u64"
  by (induction xs) (simp_all add: ac_simps)

text \<open>What the thread of a row adds up when the masks hold.\<close>

lemma row_sum_score:
  assumes "\<And>j. j \<in> set os \<Longrightarrow> bit (pad (slot_id (ns' ! op_mask ns j)) t) t \<longleftrightarrow> node_value ns env (op_mask ns j) \<noteq> 0"
    and "mk_base_sum k = b + sum_list (map (op_right ns) os)"
    and "mk_terms k = zip (map (\<lambda>j. slot_id (ns' ! op_mask ns j)) os) (map (op_weight ns) os)"
  shows "row_sum k pad t = b + sum_list (map (term_value ns env) os)"
proof -
  let ?f = "\<lambda>j. if node_value ns env (op_mask ns j) \<noteq> 0 then op_weight ns j else 0"
  have "row_sum k pad t = fold (\<lambda>j acc. if bit (pad (slot_id (ns' ! op_mask ns j)) t) t then acc + op_weight ns j else acc) os (mk_base_sum k)"
    unfolding row_sum_def assms(3) zip_map_map zip_same_conv_map map_map fold_map by (simp add: comp_def)
  also have "\<dots> = fold (\<lambda>j acc. acc + ?f j) os (mk_base_sum k)" by (rule fold_cong) (simp_all add: assms(1))
  also have "\<dots> = b + (sum_list (map (op_right ns) os) + sum_list (map ?f os))" by (simp only: fold_add assms(2) add.assoc)
  also have "sum_list (map (op_right ns) os) + sum_list (map ?f os) = sum_list (map (term_value ns env) os)"
    unfolding sum_list_add by (rule arg_cong [of _ _ sum_list]) (simp add: term_value_split)
  finally show ?thesis .
qed

lemma gpu_expr_nodes:
  assumes "pool_wf ns" and "root < length ns" and "gpu_expr ns root" and "i \<in> set (post_order ns root)"
  shows "i < length ns" "set (children (ns ! i)) \<subseteq> set (post_order ns root)" "\<not> skip_jit (ns ! i)" "i \<le> root"
    and "kernel_node ns root i \<Longrightarrow> gpu_ok ns i \<and> (\<forall>c \<in> set (children (ns ! i)). kernel_node ns root c)"
proof -
  note post = post_order_analyzer [OF assms(1,2)]
  show il: "i < length ns" and ch: "set (children (ns ! i)) \<subseteq> set (post_order ns root)"
    using all_nodes_closed [OF assms(1,2), of i] assms(4) post by auto
  show "\<not> skip_jit (ns ! i)" using assms(3,4) by (auto simp: gpu_expr_def list_all_iff)
  let ?s = "\<lparr>ea_nodes = ns, arithmetic_nodes = [], comparison_nodes = [], select_nodes = [], all_nodes = []\<rparr>"
  have "ana_inv ns ?s" by (simp add: ana_inv_def ordered_def)
  from analyze_inv [OF assms(1) this, of "Some root" "Suc (length ns)"] assms(2,4) post
  show le: "i \<le> root" by (auto simp: run_analyzer_def simp del: analyze.simps)
  assume k: "kernel_node ns root i"
  have "i \<noteq> sum_node ns root" using k assms(3) by (auto simp: kernel_node_def gpu_expr_def)
  then have "gpu_ok ns i \<and> list_all (\<lambda>c. kind (ns ! c) \<noteq> K_SUM) (children (ns ! i))"
    using k assms(3,4) by (auto simp: gpu_expr_def list_all_iff kernel_node_def)
  moreover have "c \<noteq> root" if "c \<in> set (children (ns ! i))" for c using assms(1) il le that by (fastforce simp: pool_wf_iff)
  ultimately show "gpu_ok ns i \<and> (\<forall>c \<in> set (children (ns ! i)). kernel_node ns root c)" by (auto simp: list_all_iff kernel_node_def)
qed

lemma gpu_expr_root:
  assumes "gpu_expr ns root"
  shows "root_stmt_ok ns root" and "\<And>j. j \<in> set (operands (ns ! sum_node ns root)) \<Longrightarrow> kind (ns ! j) = K_SELECT \<Longrightarrow> cond (ns ! j) \<noteq> None"
    and "\<And>j. j \<in> set (operands (ns ! sum_node ns root)) \<Longrightarrow> is_mask_kind (kind (ns ! op_mask ns j))"
  using assms
  by (auto simp: gpu_expr_def list_all_iff root_stmt_ok_def sum_node_def sum_plus_const_def mask_node_def op_mask_def Let_def is_mask_kind_def
      split: option.splits bool.splits if_splits)

lemma sum_node_left:
  "sum_node ns root \<noteq> root \<Longrightarrow> left (ns ! root) = Some (sum_node ns root) \<and> (\<exists>r. right (ns ! root) = Some r)"
  by (auto simp: sum_node_def sum_plus_const_def Let_def split: option.splits bool.splits if_splits)

text \<open>The operands of the SUM and their masks are nodes of the kernel.\<close>

lemma op_mask_node:
  assumes "pool_wf ns" and "root < length ns" and "gpu_expr ns root" and "j \<in> set (operands (ns ! sum_node ns root))"
  shows "op_mask ns j \<in> set (post_order ns root)" and "kernel_node ns root (op_mask ns j)"
proof -
  let ?s = "sum_node ns root"
  have r: "root \<in> set (post_order ns root)" using run_analyzer_inv(2) [OF assms(1,2)] post_order_analyzer [OF assms(1,2)] by simp
  note node = gpu_expr_nodes [OF assms(1-3)]
  have s: "?s \<in> set (post_order ns root)"
  proof (cases "?s = root")
    case False
    then show ?thesis using sum_node_left [of ns root] node(2) [OF r] by (auto simp: in_children)
  qed (use r in simp)
  have jc: "j \<in> set (children (ns ! ?s))" using assms(4) by (simp add: in_children)
  then have j: "j \<in> set (post_order ns root)" "j < ?s" using node(1,2) [OF s] assms(1) by (auto simp: pool_wf_iff)
  have m: "op_mask ns j = j \<or> op_mask ns j \<in> set (children (ns ! j))"
    using gpu_expr_root(2) [OF assms(3,4)] by (auto simp: op_mask_def in_children)
  then show p: "op_mask ns j \<in> set (post_order ns root)" using j(1) node(2) [OF j(1)] by auto
  have "op_mask ns j \<le> j" using m assms(1) node(1) [OF j(1)] by (auto simp: pool_wf_iff less_imp_le)
  then have "op_mask ns j \<noteq> root" using j(2) node(4) [OF s] by simp
  moreover have "kind (ns ! op_mask ns j) \<noteq> K_SUM" using gpu_expr_root(3) [OF assms(3,4)] by (auto simp: is_mask_kind_def)
  ultimately show "kernel_node ns root (op_mask ns j)" by (simp add: kernel_node_def)
qed

text \<open>
  The kernel of a weighted sum: it is generated, and on every block whose planes are in the column
  buffer it delivers the sum of the scores of the 64 rows.
\<close>

lemma kernel_block_score:
  assumes "pool_wf ns" and "root < length ns" and "gpu_expr ns root"
  shows "\<exists>k ns'. generate_msl_source nf ns root = Some (k, ns') \<and> mk_num_fields k = nf \<and>
    (\<forall>junk columns block env. (\<forall>i \<in> set (post_order ns root). columns_hold columns nf block ns env i) \<longrightarrow>
       run_block junk columns k block = (\<Sum>r < 64. row_score ns (env r) root))"
proof -
  let ?post = "post_order ns root" and ?os = "operands (ns ! sum_node ns root)"
  let ?f = "fold assign_slot (post_order ns root) (0, ns)"
  define ns' where "ns' = snd ?f"
  note node = gpu_expr_nodes [OF assms] and post = post_order_analyzer [OF assms(1,2)]
  have inv: "distinct ?post" "ordered ns ?post" using run_analyzer_inv(1) [OF assms(1,2)] post by (auto simp: ana_inv_def)
  have slots: "\<And>j. unslot (ns' ! j) = unslot (ns ! j)" "\<And>k. k < length ?post \<Longrightarrow> slot_id (ns' ! (?post ! k)) = int k"
    using assign_slots [OF inv(1), of ns 0] node(1,3) by (auto simp: ns'_def)
  have inj: "inj_on (\<lambda>i. slot_id (ns' ! i)) (set ?post)"
    by (auto simp: inj_on_def in_set_conv_nth slots(2))
  note un = op_unslot [OF slots(1)] and sel = unslot_sel [OF slots(1)]
  define b where "b = (if sum_node ns root = root then 0 else const_value (ns ! the (right (ns ! root))))"
  have md: "sum_metadata ns' root = Some (b + sum_list (map (op_right ns) ?os), map (op_weight ns) ?os, map (\<lambda>j. slot_id (ns' ! op_mask ns j)) ?os)"
  proof -
    obtain c where c: "sum_plus_const ns root = Some c" using assms(3) by (auto simp: gpu_expr_def)
    have s: "sum_node ns root = (if c then the (left (ns ! root)) else root)" using c by (simp add: sum_node_def)
    have g: "kind (ns ! sum_node ns root) = K_SUM" using assms(3) by (simp add: gpu_expr_def)
    have lr: "\<exists>l. left (ns ! root) = Some l \<and> l < root" if c
      using c that assms(1,2) by (auto simp: sum_plus_const_def Let_def pool_wf_iff in_children split: option.splits if_splits)
    then have n: "c \<longleftrightarrow> sum_node ns root \<noteq> root" using s by auto
    have "sum_metadata ns' root = fold (sum_operand ns') ?os (Some (b, [], []))"
    proof (cases c)
      case True
      then have "left (ns ! root) = Some (sum_node ns root)" using lr s by auto
      moreover have "sum_node ns root \<noteq> root" "sum_plus_const ns root = Some True" using True c n by simp_all
      ultimately show ?thesis using g by (simp add: sum_metadata_def un(5) sel b_def)
    next
      case False
      then have "sum_node ns root = root" "sum_plus_const ns root = Some False" using c s by simp_all
      then show ?thesis using g by (simp add: sum_metadata_def un(5) sel b_def)
    qed
    moreover have "op_right ns' = op_right ns" "op_weight ns' = op_weight ns" by (rule ext, simp only: un)+
    ultimately show ?thesis using sum_operands [of ?os ns' b "[]" "[]"] gpu_expr_root(2) [OF assms(3)]
      by (simp add: sel un(2))
  qed
  have run: "\<exists>sts. gen_stmts ns' ?post = Some sts \<and>
      (\<forall>i \<in> set ?post. kernel_node ns root i \<longrightarrow> gpu_holds ns env (run_stmts junk columns nf block sts (slot_id (ns' ! i))) i)"
    if "\<forall>i \<in> set ?post. columns_hold columns nf block ns env i" for junk columns block env
    unfolding run_stmts_def
    using gen_stmts_run [OF assms(1) gpu_expr_root(1) [OF assms(3)] slots(1), of "[]" ?post columns nf block env "\<lambda>s t. 0" junk]
      inv inj node(1,3,5) that by simp
  have "\<forall>i \<in> set ?post. columns_hold (\<lambda>_. 0) nf 0 ns (\<lambda>r name. row_val (\<lambda>t. 0) r) i" by (simp add: columns_hold_def)
  from run [OF this] obtain sts where sts: "gen_stmts ns' ?post = Some sts" by blast
  define k where "k = \<lparr>mk_num_fields = nf, mk_scratchpad_size = (if fst ?f = 0 then 1 else nat (fst ?f)),
    mk_stmts = sts, mk_base_sum = b + sum_list (map (op_right ns) ?os), mk_terms = zip (map (\<lambda>j. slot_id (ns' ! op_mask ns j)) ?os) (map (op_weight ns) ?os)\<rparr>"
  have gen: "generate_msl_source nf ns root = Some (k, ns')" using sts md
    by (simp add: generate_msl_source_def Let_def k_def ns'_def case_prod_unfold)
  have "run_block junk columns k block = (\<Sum>r < 64. row_score ns (env r) root)"
    if cols: "\<forall>i \<in> set ?post. columns_hold columns nf block ns env i" for junk columns block env
  proof -
    let ?pad = "run_stmts junk columns nf block sts"
    have h: "gpu_holds ns env (?pad (slot_id (ns' ! i))) i" if "i \<in> set ?post" "kernel_node ns root i" for i
      using run [OF cols, of junk] sts that by auto
    have "row_sum k ?pad t = row_score ns (env t) root" if t: "t < 64" for t
    proof -
      have "bit (?pad (slot_id (ns' ! op_mask ns j)) t) t \<longleftrightarrow> node_value ns (env t) (op_mask ns j) \<noteq> 0" if "j \<in> set ?os" for j
        using h [OF op_mask_node [OF assms that]] gpu_expr_root(3) [OF assms(3) that] t by (simp add: gpu_holds_def)
      from row_sum_score [of ?os ?pad ns' ns t "env t" k b, OF this] show ?thesis by (simp add: k_def row_score_def b_def)
    qed
    moreover have "run_block junk columns k block = (\<Sum>t < 64. row_sum k ?pad t)" by (simp add: run_block_sum k_def)
    ultimately show ?thesis by simp
  qed
  then show ?thesis using gen by (intro exI [of _ k] exI [of _ ns'] conjI) (simp_all add: k_def)
qed

end
