(* ===== verification/Gpu_Engine.thy ===== *)
theory Gpu_Engine
  imports Gpu_Kernel
begin

text \<open>
  The GPU mode of the engine on a machine with Metal (\<open>gpu/metal_device.mm\<close>, the GPU branches of
  \<open>set_expression\<close>, \<open>execute\<close> and \<open>execute_native\<close> in \<open>api/engine.cpp\<close>). What the framework
  decides is the argument \<open>metal\<close>: whether there is a device, whether a shader compiles, whether memory is
  allocated and mapped, and what a load past the end of a buffer delivers.

  Shown: an installed weighted sum, run on a batch, gives the sum of the scores of all rows of the
  blocks the batch fills; rows past the end of the batch count as rows of zeros.
\<close>

section \<open>The device\<close>

record metal =
  mt_device :: bool
  mt_compiles :: "msl_kernel \<Rightarrow> bool"
  mt_maps :: bool
  mt_alloc :: bool
  mt_junk :: vreg
  mt_outside :: "nat \<Rightarrow> u64"

record MetalDevice =
  md_initialized :: bool
  pipeline_cache :: "string \<rightharpoonup> msl_kernel"

definition MetalDevice_initialize :: "metal \<Rightarrow> MetalDevice \<Rightarrow> bool \<times> MetalDevice" where
  "MetalDevice_initialize m dev =
     (if md_initialized dev then (True, dev) else if \<not> mt_device m then (False, dev) else (True, dev\<lparr>md_initialized := True\<rparr>))"

definition MetalDevice_new :: "metal \<Rightarrow> MetalDevice" where
  "MetalDevice_new m = snd (MetalDevice_initialize m \<lparr>md_initialized = False, pipeline_cache = Map.empty\<rparr>)"

text \<open>The pipeline of a schema: the cached one, or the source compiled now. An engine without a source
  (\<open>None\<close>) hands over the empty string, which has no function to run.\<close>

definition pipeline_for :: "metal \<Rightarrow> string \<Rightarrow> msl_kernel option \<Rightarrow> MetalDevice \<Rightarrow> msl_kernel option \<times> MetalDevice" where
  "pipeline_for m schema_name msl dev =
     (case pipeline_cache dev schema_name of
        Some k \<Rightarrow> (Some k, dev)
      | None \<Rightarrow>
          (case msl of None \<Rightarrow> (None, dev)
           | Some k \<Rightarrow> if mt_compiles m k then (Some k, dev\<lparr>pipeline_cache := (pipeline_cache dev)(schema_name \<mapsto> k)\<rparr>) else (None, dev)))"

definition buffer_load :: "metal \<Rightarrow> u64 list \<Rightarrow> nat \<Rightarrow> u64" where
  "buffer_load m planes i = (if i < length planes then planes ! i else mt_outside m i)"

definition dispatch ::
  "metal \<Rightarrow> string \<Rightarrow> u64 list \<Rightarrow> nat \<Rightarrow> nat \<Rightarrow> msl_kernel option \<Rightarrow> MetalDevice \<Rightarrow> u64 \<times> MetalDevice" where
  "dispatch m schema_name bit_planes num_blocks num_fields msl dev =
     (if \<not> md_initialized dev \<or> num_blocks = 0 \<or> num_fields = 0 then (0, dev)
      else case pipeline_for m schema_name msl dev of
        (None, dev) \<Rightarrow> (0, dev)
      | (Some k, dev) \<Rightarrow>
          if \<not> mt_maps m then (0, dev)
          else (sum_list (map (run_block (mt_junk m) (buffer_load m (take (num_blocks * num_fields * 64) bit_planes)) k) [0..<num_blocks]), dev))"

section \<open>The engine\<close>

record gpu_engine =
  ge_engine :: ApexEngine
  ge_msl :: "string \<rightharpoonup> msl_kernel"
  ge_device :: MetalDevice

text \<open>The GPU mode of \<open>set_expression\<close>: the CPU kernel is compiled first, then the shader is written.\<close>

definition install_gpu :: "string \<Rightarrow> nat \<Rightarrow> ExprKernel \<Rightarrow> Node list \<Rightarrow> gpu_engine \<Rightarrow> (gpu_engine \<times> Node list) option" where
  "install_gpu schema_name root kn ns ge =
     (let e = ge_engine ge;
          fs = trim_fields (collect_fields (Suc (length ns)) (registry e) schema_name ns (Some root) (replicate 128 None)) in
      case sum_metadata ns root of None \<Rightarrow> None
      | Some (base_sum, ws, ms) \<Rightarrow>
          let num_fields = (case schema_metadata e schema_name of Some sm \<Rightarrow> length (sm_fields sm) | None \<Rightarrow> 0) in
          case generate_msl_source num_fields ns root of None \<Rightarrow> None
          | Some (k, ns') \<Rightarrow>
              Some (ge\<lparr>ge_engine := e\<lparr>expr_logic := update_alist schema_name
                \<lparr>el_kernel = kn, el_fields = fs, el_mode = GPU_THROUGHPUT, el_result_kind = result_kind (ns' ! root),
                 el_base_sum = base_sum, el_delta_weights = ws, el_masks = ms, el_active_bits = 64\<rparr> (expr_logic e)\<rparr>,
                ge_msl := (ge_msl ge)(schema_name \<mapsto> k)\<rparr>, ns'))"

definition set_expression_gpu :: "platform \<Rightarrow> string \<Rightarrow> nat \<Rightarrow> gpu_engine \<times> Node list \<Rightarrow> (gpu_engine \<times> Node list) option" where
  "set_expression_gpu pf schema_name root st =
     (case st of (ge, ns) \<Rightarrow>
      case compile_kernel pf GPU_THROUGHPUT (reset_skip_jit (Suc (length ns)) (Some root) ns) root of
        (KernelUndefined, _) \<Rightarrow> None
      | (KernelNull, ns) \<Rightarrow> Some (ge, ns)
      | (KernelOk kn, ns) \<Rightarrow> install_gpu schema_name root kn ns ge)"

text \<open>The columns of a batch: four workers at most, each slicing a range of blocks into the buffer.\<close>

definition worker_blocks :: "nat \<Rightarrow> nat \<Rightarrow> nat \<Rightarrow> nat list" where
  "worker_blocks num_blocks num_workers w = [num_blocks * w div num_workers..<num_blocks * (w + 1) div num_workers]"

definition put_planes :: "nat \<Rightarrow> u64 list \<Rightarrow> u64 list \<Rightarrow> u64 list" where
  "put_planes off xs planes = take off planes @ xs @ drop (off + 64) planes"

definition slice_field :: "platform \<Rightarrow> u8 list \<Rightarrow> nat \<Rightarrow> nat \<Rightarrow> nat \<Rightarrow> FieldDescriptor \<Rightarrow> u64 list" where
  "slice_field pf data row_stride row_count block f =
     slice_n (pf_lanes pf) (gather_field data (block * 64 * row_stride) f row_stride (min 64 (row_count - block * 64))) 64"

definition slice_block ::
  "platform \<Rightarrow> FieldDescriptor option list \<Rightarrow> u8 list \<Rightarrow> nat \<Rightarrow> nat \<Rightarrow> nat \<Rightarrow> u64 list \<Rightarrow> u64 list" where
  "slice_block pf fs data row_stride row_count block planes =
     fold (\<lambda>f planes. case fs ! f of None \<Rightarrow> planes
                       | Some fd \<Rightarrow> put_planes (block * length fs * 64 + f * 64) (slice_field pf data row_stride row_count block fd) planes)
       [0..<length fs] planes"

definition gpu_columns :: "platform \<Rightarrow> FieldDescriptor option list \<Rightarrow> u8 list \<Rightarrow> nat \<Rightarrow> nat \<Rightarrow> u64 list" where
  "gpu_columns pf fs data row_stride row_count =
     (let num_blocks = num_chunks row_count; num_workers = min 4 num_blocks
      in fold (slice_block pf fs data row_stride row_count)
           (concat (map (worker_blocks num_blocks num_workers) [0..<num_workers]))
           (replicate (num_blocks * length fs * 64) 0))"

definition execute_gpu :: "metal \<Rightarrow> platform \<Rightarrow> u8 list \<Rightarrow> nat \<Rightarrow> gpu_engine \<Rightarrow> (u64 \<times> gpu_engine) option" where
  "execute_gpu m pf data row_count ge =
     (let e = ge_engine ge;
          cpu = map_option (\<lambda>(v, e). (v, ge\<lparr>ge_engine := e\<rparr>)) (execute pf data row_count e)
      in if expr_logic e = [] then cpu
         else let schema_name = pf_begin pf (map fst (expr_logic e)) in
              case (map_of (expr_logic e) schema_name, schema_metadata e schema_name) of
                (Some el, Some sm) \<Rightarrow>
                  if el_mode el \<noteq> GPU_THROUGHPUT then cpu
                  else if \<not> mt_alloc m then Some (0, ge)
                  else if \<not> rows_readable (el_fields el) (sm_row_stride sm) row_count data then None
                  else let (v, dev) = dispatch m schema_name (gpu_columns pf (el_fields el) data (sm_row_stride sm) row_count)
                             (num_chunks row_count) (length (el_fields el)) (ge_msl ge schema_name) (ge_device ge)
                       in Some (v, ge\<lparr>ge_device := dev\<rparr>)
              | _ \<Rightarrow> cpu)"

text \<open>The GPU branch of \<open>execute_native\<close>, on planes the caller has laid out.\<close>

definition execute_native_gpu :: "metal \<Rightarrow> string \<Rightarrow> u64 list \<Rightarrow> nat \<Rightarrow> gpu_engine \<Rightarrow> (u64 \<times> gpu_engine) option" where
  "execute_native_gpu m schema_name bit_planes num_blocks ge =
     (case map_of (expr_logic (ge_engine ge)) schema_name of
        Some el \<Rightarrow>
          if el_mode el = GPU_THROUGHPUT
          then let (v, dev) = dispatch m schema_name bit_planes num_blocks (length (el_fields el)) (ge_msl ge schema_name) (ge_device ge)
               in Some (v, ge\<lparr>ge_device := dev\<rparr>)
          else None
      | None \<Rightarrow> Some (0, ge))"

section \<open>The columns\<close>

text \<open>The workers' ranges are all blocks, in order.\<close>

lemma worker_ranges:
  assumes "0 < nw"
  shows "concat (map (worker_blocks nb nw) [0..<nw]) = [0..<nb]"
proof -
  have "concat (map (worker_blocks nb nw) [0..<k]) = [0..<nb * k div nw]" for k
  proof (induction k)
    case (Suc k)
    have "nb * k div nw \<le> nb * (k + 1) div nw" by (rule div_le_mono) simp
    then show ?case using Suc upt_add_eq_append [of 0 "nb * k div nw" "nb * (k + 1) div nw - nb * k div nw"]
      by (simp add: worker_blocks_def)
  qed simp
  from this [of nw] assms show ?thesis by simp
qed

lemma put_planes_nth:
  assumes "length xs = 64" and "c * 64 + 64 \<le> length planes" and "t < 64" and "c' * 64 + t < length planes"
  shows "put_planes (c * 64) xs planes ! (c' * 64 + t) = (if c' = c then xs ! t else planes ! (c' * 64 + t))"
proof -
  consider "c' < c" | "c' = c" | "c < c'" by linarith
  then show ?thesis
  proof cases
    case 1
    then have "c' * 64 + t < c * 64" using assms(3) by (metis add_less_cancel_left less_le_trans mult_Suc Suc_leI mult_le_mono1 add.commute)
    with 1 assms show ?thesis by (simp add: put_planes_def nth_append)
  next
    case 2
    with assms show ?thesis by (simp add: put_planes_def nth_append)
  next
    case 3
    then have "\<not> c' * 64 + t < c * 64" "\<not> c' * 64 + t - c * 64 < 64" by linarith+
    with 3 assms show ?thesis by (simp add: put_planes_def nth_append)
  qed
qed

lemma length_put_planes [simp]: "length xs = 64 \<Longrightarrow> off + 64 \<le> length planes \<Longrightarrow> length (put_planes off xs planes) = length planes"
  by (simp add: put_planes_def)

lemma length_slice_field [simp]: "lanes_ok (pf_lanes pf) \<Longrightarrow> length (slice_field pf data st n b f) = 64"
  by (simp add: slice_field_def slice_n_def)

text \<open>A value of the sliced column: the field of the row, or zero past the end of the batch.\<close>

lemma slice_field_row:
  assumes "lanes_ok (pf_lanes pf)" and "r < 64"
  shows "row_val (\<lambda>t. slice_field pf data st n b f ! t) r =
    (if b * 64 + r < n then read64 data ((b * 64 + r) * st + unat (fd_offset f)) else 0)"
proof -
  let ?c = "gather_field data (b * 64 * st) f st (min 64 (n - b * 64))"
  have "row_val (\<lambda>t. slice_field pf data st n b f ! t) r = ?c ! r"
    using assms by (intro word_bit_eqI) (simp add: bit_row_val slice_field_def slice_n_def bit_slice)
  moreover have "r < min 64 (n - b * 64) \<longleftrightarrow> b * 64 + r < n" using assms(2) by auto
  ultimately show ?thesis using assms(2) by (simp add: gather_field_def algebra_simps)
qed

text \<open>The buffer is made of chunks of 64 planes, one for each field of each block.\<close>

lemma chunk_bound: "b < nb \<Longrightarrow> f < nf \<Longrightarrow> (b * nf + f) * 64 + 64 \<le> nb * nf * (64 :: nat)"
proof -
  assume a: "b < nb" "f < nf"
  then have "b * nf + Suc f \<le> Suc b * nf" by simp
  also have "\<dots> \<le> nb * nf" using a(1) by (intro mult_le_mono1) simp
  finally have "(b * nf + Suc f) * 64 \<le> nb * nf * 64" by (rule mult_le_mono1)
  then show ?thesis by simp
qed

lemma chunk_inj: "f < nf \<Longrightarrow> f' < nf \<Longrightarrow> b * nf + f = b' * nf + f' \<longleftrightarrow> b = b' \<and> f = (f' :: nat)"
  by (metis add.commute div_mult_self3 div_less add_0 mod_mult_self1 mod_less gr_zeroI less_nat_zero_code)

lemma slice_fields_fold:
  fixes fs :: "FieldDescriptor option list" and data st n
  assumes "lanes_ok (pf_lanes pf)" and "b < nb" and "length planes = nb * length fs * 64" and "set js \<subseteq> {..<length fs}"
  defines "go \<equiv> fold (\<lambda>f planes. case fs ! f of None \<Rightarrow> planes
      | Some fd \<Rightarrow> put_planes (b * length fs * 64 + f * 64) (slice_field pf data st n b fd) planes)"
  shows "length (go js planes) = nb * length fs * 64 \<and>
    (\<forall>b' < nb. \<forall>f' < length fs. \<forall>t < 64. go js planes ! ((b' * length fs + f') * 64 + t) =
       (if b' = b \<and> f' \<in> set js \<and> fs ! f' \<noteq> None then slice_field pf data st n b (the (fs ! f')) ! t
        else planes ! ((b' * length fs + f') * 64 + t)))"
  using assms(3,4)
proof (induction js arbitrary: planes)
  case (Cons f js)
  have f: "f < length fs" using Cons.prems(2) by simp
  define p1 where "p1 = (case fs ! f of None \<Rightarrow> planes
      | Some fd \<Rightarrow> put_planes ((b * length fs + f) * 64) (slice_field pf data st n b fd) planes)"
  have go: "go (f # js) planes = go js p1" by (cases "fs ! f") (simp_all add: go_def p1_def add_mult_distrib)
  have bound: "(b * length fs + f) * 64 + 64 \<le> length planes" using chunk_bound [OF assms(2) f] Cons.prems(1) by simp
  have l: "length p1 = nb * length fs * 64" using Cons.prems(1) bound assms(1) by (auto simp: p1_def split: option.split)
  have p1: "p1 ! ((b' * length fs + f') * 64 + t) =
      (if b' = b \<and> f' = f \<and> fs ! f \<noteq> None then slice_field pf data st n b (the (fs ! f)) ! t else planes ! ((b' * length fs + f') * 64 + t))"
    if "b' < nb" "f' < length fs" "t < 64" for b' f' t
  proof (cases "fs ! f")
    case (Some fd)
    have "(b' * length fs + f') * 64 + t < length planes" using chunk_bound [OF that(1,2)] that(3) Cons.prems(1) by simp
    then show ?thesis using Some put_planes_nth [of "slice_field pf data st n b fd" "b * length fs + f" planes t "b' * length fs + f'"]
        bound assms(1) that(3) chunk_inj [OF that(2) f, of b' b] by (auto simp: p1_def)
  qed (simp add: p1_def)
  note IH = Cons.IH [OF l]
  show ?case unfolding go using IH Cons.prems(2) p1 by auto
qed (simp add: go_def)

lemma slice_blocks_fold:
  fixes fs :: "FieldDescriptor option list"
  assumes "lanes_ok (pf_lanes pf)" and "length planes = nb * length fs * 64" and "set bs \<subseteq> {..<nb}"
  shows "length (fold (slice_block pf fs data st n) bs planes) = nb * length fs * 64 \<and>
    (\<forall>b < nb. \<forall>f < length fs. \<forall>t < 64. fs ! f \<noteq> None \<longrightarrow>
       fold (slice_block pf fs data st n) bs planes ! ((b * length fs + f) * 64 + t) =
       (if b \<in> set bs then slice_field pf data st n b (the (fs ! f)) ! t else planes ! ((b * length fs + f) * 64 + t)))"
  using assms(2,3)
proof (induction bs arbitrary: planes)
  case (Cons b bs)
  have b: "b < nb" and sub: "set [0..<length fs] \<subseteq> {..<length fs}" using Cons.prems(2) by auto
  note one = slice_fields_fold [OF assms(1) b Cons.prems(1) sub, of data st n, folded slice_block_def]
  show ?case using Cons.IH [OF conjunct1 [OF one]] one Cons.prems(2) by auto
qed simp

lemma gpu_columns_all:
  assumes "0 < num_chunks n"
  shows "gpu_columns pf fs data st n = fold (slice_block pf fs data st n) [0..<num_chunks n] (replicate (num_chunks n * length fs * 64) 0)"
  using assms by (simp add: gpu_columns_def Let_def worker_ranges)

lemma length_gpu_columns:
  assumes "lanes_ok (pf_lanes pf)"
  shows "length (gpu_columns pf fs data st n) = num_chunks n * length fs * 64"
proof (cases "num_chunks n = 0")
  case False
  have "set [0..<num_chunks n] \<subseteq> {..<num_chunks n}" by auto
  from slice_blocks_fold [OF assms _ this, of "replicate (num_chunks n * length fs * 64) 0" fs] False show ?thesis
    by (simp add: gpu_columns_all)
qed (simp add: gpu_columns_def)

lemma gpu_columns_nth:
  assumes "lanes_ok (pf_lanes pf)" and "b < num_chunks n" and "f < length fs" and "fs ! f = Some fd" and "t < 64"
  shows "gpu_columns pf fs data st n ! ((b * length fs + f) * 64 + t) = slice_field pf data st n b fd ! t"
proof -
  have sub: "set [0..<num_chunks n] \<subseteq> {..<num_chunks n}" and pos: "0 < num_chunks n" using assms(2) by auto
  from slice_blocks_fold [OF assms(1) _ sub, of "replicate (num_chunks n * length fs * 64) 0" fs data st n] assms(2-5)
  show ?thesis unfolding gpu_columns_all [OF pos] by auto
qed

section \<open>The pool before and after compilation\<close>

text \<open>The passes of the compiler change neither the order of the nodes nor what they mean.\<close>

lemma gpu_dfs_shape:
  assumes "pool_wf ns" and "same_shape ns ns'"
  shows "(\<forall>i. n = Some i \<longrightarrow> i < length ns) \<Longrightarrow> gpu_dfs fuel ns' n s = gpu_dfs fuel ns n s"
proof (induction fuel arbitrary: n s)
  case (Suc fuel)
  show ?case
  proof (cases n)
    case (Some i)
    then have i: "i < length ns" using Suc.prems by simp
    note sel = same_shape_sel [OF assms(2) i]
    have ch: "c < length ns" if "c \<in> set (children (ns ! i))" for c using assms(1) i that by (fastforce simp: pool_wf_iff)
    have sub: "gpu_dfs fuel ns' c t = gpu_dfs fuel ns c t" if "\<And>j. c = Some j \<Longrightarrow> j \<in> set (children (ns ! i))" for c t
      using Suc.IH [of c t] that ch by blast
    have ops: "fold (\<lambda>j. gpu_dfs fuel ns' (Some j)) os t = fold (\<lambda>j. gpu_dfs fuel ns (Some j)) os t"
      if "set os \<subseteq> set (children (ns ! i))" for os t
      using that by (intro fold_cong) (auto intro!: sub)
    show ?thesis using Some sub [of "left (ns ! i)"] sub [of "right (ns ! i)"] sub [of "cond (ns ! i)"] ops [of "operands (ns ! i)"]
      by (simp add: sel in_children Let_def subset_iff)
  qed simp
qed simp

lemma node_value_shape:
  assumes "pool_wf ns" and "same_shape ns ns'"
  shows "i < length ns \<Longrightarrow> node_value ns' e i = node_value ns e i"
proof (induction i rule: less_induct)
  case (less i)
  note sel = same_shape_sel [OF assms(2) less.prems]
  have v: "(case x of None \<Rightarrow> 0 | Some j \<Rightarrow> if j < i then node_value ns' e j else 0) =
      (case x of None \<Rightarrow> 0 | Some j \<Rightarrow> if j < i then node_value ns e j else 0)" for x
    using less by (auto split: option.split)
  show ?case by (subst (1 2) node_value.simps) (simp only: sel v Let_def)
qed

lemma children_shape:
  assumes "pool_wf ns" and "same_shape ns ns'" and "i < length ns"
  shows "p = left (ns ! i) \<or> p = right (ns ! i) \<or> p = cond (ns ! i) \<Longrightarrow>
      plane_node ns' p = plane_node ns p \<and> mask_node ns' p = mask_node ns p \<and> const_or ns' p d = const_or ns p d"
    and "c \<in> set (children (ns ! i)) \<Longrightarrow> c < length ns \<and> kind (ns' ! c) = kind (ns ! c)"
proof -
  show c: "c < length ns \<and> kind (ns' ! c) = kind (ns ! c)" if "c \<in> set (children (ns ! i))" for c
  proof -
    have "c < length ns" using assms(1,3) that by (fastforce simp: pool_wf_iff)
    then show ?thesis using same_shape_sel(1) [OF assms(2)] by simp
  qed
  assume p: "p = left (ns ! i) \<or> p = right (ns ! i) \<or> p = cond (ns ! i)"
  show "plane_node ns' p = plane_node ns p \<and> mask_node ns' p = mask_node ns p \<and> const_or ns' p d = const_or ns p d"
  proof (cases p)
    case (Some j)
    then have "j \<in> set (children (ns ! i))" using p by (auto simp: in_children)
    with c [OF this] same_shape_sel(7) [OF assms(2), of j] Some show ?thesis by (simp add: plane_node_def mask_node_def const_or_def)
  qed (simp add: plane_node_def mask_node_def const_or_def)
qed

lemma gpu_ok_shape:
  assumes "pool_wf ns" and "same_shape ns ns'" and "i < length ns"
  shows "gpu_ok ns' i = gpu_ok ns i" and "sum_plus_const ns' i = sum_plus_const ns i" and "sum_node ns' i = sum_node ns i"
proof -
  note sel = same_shape_sel [OF assms(2,3)] and ch = children_shape [OF assms]
  show "gpu_ok ns' i = gpu_ok ns i" using ch(1) by (simp add: gpu_ok_def Let_def sel)
  have "kind (ns' ! c) = kind (ns ! c)" if "left (ns ! i) = Some c \<or> right (ns ! i) = Some c" for c
    using ch(2) [of c] that by (auto simp: in_children)
  then show p: "sum_plus_const ns' i = sum_plus_const ns i"
    by (cases "left (ns ! i)"; cases "right (ns ! i)") (simp_all add: sum_plus_const_def Let_def sel)
  show "sum_node ns' i = sum_node ns i" by (simp add: sum_node_def p sel split: option.split bool.split)
qed

lemma sum_node_lt:
  assumes "pool_wf ns" and "root < length ns"
  shows "sum_node ns root < length ns"
proof (cases "sum_node ns root = root")
  case False
  then have "sum_node ns root \<in> set (children (ns ! root))" using sum_node_left [of ns root] by (simp add: in_children)
  then show ?thesis using assms by (fastforce simp: pool_wf_iff)
qed (use assms in simp)

lemma gpu_expr_shape:
  assumes "pool_wf ns" and "root < length ns" and "same_shape ns ns'" and "gpu_expr ns root"
  shows "post_order ns' root = post_order ns root" and "gpu_expr ns' root" and "row_score ns' e root = row_score ns e root"
proof -
  let ?s = "sum_node ns root" and ?post = "post_order ns root"
  have l: "length ns' = length ns" using same_shape_length [OF assms(3)] .
  show po: "post_order ns' root = ?post"
    using gpu_dfs_shape [OF assms(1,3), of "Some root"] assms(2) by (simp add: post_order_def l del: gpu_dfs.simps)
  note node = gpu_expr_nodes [OF assms(1,2,4)] and root = gpu_ok_shape(2,3) [OF assms(1,3,2)]
  have s: "?s < length ns" using sum_node_lt [OF assms(1,2)] .
  have j: "j < length ns" if "j \<in> set (operands (ns ! ?s))" for j
    using children_shape(2) [OF assms(1,3) s, of j] that by (simp add: in_children)
  have o: "operands (ns' ! ?s) = operands (ns ! ?s)" "kind (ns' ! ?s) = kind (ns ! ?s)" using same_shape_sel [OF assms(3) s] by simp_all
  have "mask_node ns' (Some j) = mask_node ns (Some j)" "kind (ns' ! j) = kind (ns ! j)" "mask_node ns' (cond (ns' ! j)) = mask_node ns (cond (ns ! j))"
    if "j \<in> set (operands (ns ! ?s))" for j
    using same_shape_sel [OF assms(3) j [OF that]] children_shape(1) [OF assms(1,3) j [OF that]] by (simp_all add: mask_node_def)
  then have ops: "list_all (\<lambda>j. mask_node ns' (Some j) \<or> kind (ns' ! j) = K_SELECT \<and> mask_node ns' (cond (ns' ! j))) (operands (ns ! ?s))"
    using assms(4) by (simp add: gpu_expr_def list_all_iff)
  have "skip_jit (ns' ! i) = skip_jit (ns ! i) \<and> gpu_ok ns' i = gpu_ok ns i \<and> children (ns' ! i) = children (ns ! i) \<and>
      (\<forall>c \<in> set (children (ns ! i)). kind (ns' ! c) = kind (ns ! c))" if "i \<in> set ?post" for i
    using same_shape_sel [OF assms(3) node(1) [OF that]] gpu_ok_shape(1) [OF assms(1,3) node(1) [OF that]]
      children_shape(2) [OF assms(1,3) node(1) [OF that]] by simp
  then have "list_all (\<lambda>i. \<not> skip_jit (ns' ! i) \<and> (i = root \<or> i = ?s \<or>
      gpu_ok ns' i \<and> list_all (\<lambda>c. kind (ns' ! c) \<noteq> K_SUM) (children (ns' ! i)))) ?post"
    using assms(4) by (simp add: gpu_expr_def list_all_iff)
  then show "gpu_expr ns' root" unfolding gpu_expr_def po root o using assms(4) ops by (simp add: gpu_expr_def)
  have "term_value ns' e j = term_value ns e j" if jo: "j \<in> set (operands (ns ! ?s))" for j
  proof -
    note sel = same_shape_sel [OF assms(3) j [OF jo]] and ch = children_shape [OF assms(1,3) j [OF jo]]
    have "kind (ns ! j) = K_SELECT \<Longrightarrow> the (cond (ns ! j)) < length ns"
      using gpu_expr_root(2) [OF assms(4) jo] ch(2) by (auto simp: in_children)
    then show ?thesis using j [OF jo] ch(1) [of "left (ns ! j)"] ch(1) [of "right (ns ! j)"] node_value_shape [OF assms(1,3)]
      by (simp add: term_value_def Let_def sel)
  qed
  moreover have "const_value (ns' ! the (right (ns' ! root))) = const_value (ns ! the (right (ns ! root)))" if ne: "?s \<noteq> root"
  proof -
    obtain r where r: "right (ns ! root) = Some r" using sum_node_left [OF ne] by blast
    then have "r < length ns" using children_shape(2) [OF assms(1,3,2), of r] by (simp add: in_children)
    then show ?thesis using r same_shape_sel(3) [OF assms(3,2)] same_shape_sel(7) [OF assms(3)] by simp
  qed
  ultimately show "row_score ns' e root = row_score ns e root" by (simp add: row_score_def root o cong: map_cong)
qed

text \<open>Where no node of the expression is marked, clearing the marks changes nothing.\<close>

lemma reset_skip_unmarked:
  assumes "\<And>i. i \<in> S \<Longrightarrow> i < length ns \<and> \<not> skip_jit (ns ! i) \<and> set (children (ns ! i)) \<subseteq> S"
  shows "(\<forall>i. n = Some i \<longrightarrow> i \<in> S) \<Longrightarrow> reset_skip_jit fuel n ns = ns"
proof (induction fuel arbitrary: n)
  case (Suc fuel)
  show ?case
  proof (cases n)
    case (Some i)
    then have i: "i \<in> S" using Suc.prems by simp
    have "(ns ! i)\<lparr>skip_jit := False\<rparr> = ns ! i" using assms [OF i] by (cases "ns ! i") simp
    then have "set_skip False i ns = ns" by (simp add: set_skip_def)
    moreover have sub: "reset_skip_jit fuel c ns = ns" if "\<And>j. c = Some j \<Longrightarrow> j \<in> set (children (ns ! i))" for c
      using Suc.IH [of c] that assms [OF i] by blast
    moreover have "fold (\<lambda>j. reset_skip_jit fuel (Some j)) os ns = ns" if "set os \<subseteq> set (children (ns ! i))" for os
      using that
    proof (induction os)
      case (Cons j os)
      then show ?case using sub [of "Some j"] by simp
    qed simp
    ultimately show ?thesis using Some sub [of "left (ns ! i)"] sub [of "right (ns ! i)"] sub [of "cond (ns ! i)"]
      by (simp add: in_children Let_def subset_iff)
  qed simp
qed simp

section \<open>A batch\<close>

text \<open>The fields of a row of the batch; the rows that fill up the last block are zero.\<close>

definition batch_row :: "SchemaRegistry \<Rightarrow> string \<Rightarrow> u8 list \<Rightarrow> nat \<Rightarrow> nat \<Rightarrow> nat \<Rightarrow> string \<Rightarrow> u64" where
  "batch_row reg sn data row_stride row_count r name =
     (case get_field reg sn name of
        Some f \<Rightarrow> if r < row_count then read64 data (r * row_stride + unat (fd_offset f)) else 0
      | None \<Rightarrow> 0)"

text \<open>The logic the engine keeps: a shader for as many fields as the columns are laid out with.\<close>

definition gpu_logic :: "SchemaRegistry \<Rightarrow> string \<Rightarrow> Node list \<Rightarrow> nat \<Rightarrow> FieldDescriptor option list \<Rightarrow> bool" where
  "gpu_logic reg sn ns root fs \<longleftrightarrow> pool_wf ns \<and> root < length ns \<and> gpu_expr ns root \<and>
     (\<forall>i \<in> set (post_order ns root). kind (ns ! i) = K_LOAD \<longrightarrow>
        (\<exists>j f. field_idx (ns ! i) = int j \<and> j < length fs \<and> fs ! j = Some f \<and> get_field reg sn (field_name (ns ! i)) = Some f))"

lemma gpu_columns_hold:
  assumes "gpu_logic reg sn ns root fs" and "lanes_ok (pf_lanes pf)" and "b < num_chunks n" and "num_chunks n * length fs * 64 \<le> 2 ^ 32"
    and "i \<in> set (post_order ns root)"
  shows "columns_hold (buffer_load m (gpu_columns pf fs data st n)) (length fs) b ns (\<lambda>r. batch_row reg sn data st n (b * 64 + r)) i"
  unfolding columns_hold_def
proof (intro impI allI)
  fix r :: nat assume k: "kind (ns ! i) = K_LOAD" and r: "r < 64"
  obtain j f where j: "field_idx (ns ! i) = int j" "j < length fs" "fs ! j = Some f" "get_field reg sn (field_name (ns ! i)) = Some f"
    using assms(1,5) k by (auto simp: gpu_logic_def)
  have "buffer_load m (gpu_columns pf fs data st n) (column_index (length fs) b (int j) t) = slice_field pf data st n b f ! t" if t: "t < 64" for t
  proof -
    have lt: "(b * length fs + j) * 64 + t < num_chunks n * length fs * 64" using chunk_bound [OF assms(3) j(2)] t by simp
    have "int (b * length fs * 64) + int j * 64 + int t = int ((b * length fs + j) * 64 + t)" by (simp add: algebra_simps)
    then have "column_index (length fs) b (int j) t = (b * length fs + j) * 64 + t"
      using lt assms(4) by (simp only: column_index_def) (simp add: nat_mod_as_int nat_mod_distrib del: of_nat_add of_nat_mult)
    with lt gpu_columns_nth [OF assms(2,3) j(2,3) t, of data st] show ?thesis
      by (simp only: buffer_load_def length_gpu_columns [OF assms(2)] if_True)
  qed
  then have "row_val (\<lambda>t. buffer_load m (gpu_columns pf fs data st n) (column_index (length fs) b (int j) t)) r =
      row_val (\<lambda>t. slice_field pf data st n b f ! t) r" by (intro row_val_cong) simp
  then show "row_val (\<lambda>t. buffer_load m (gpu_columns pf fs data st n) (column_index (length fs) b (field_idx (ns ! i)) t)) r =
      batch_row reg sn data st n (b * 64 + r) (field_name (ns ! i))"
    using slice_field_row [OF assms(2) r, of data st n b f] j by (simp add: batch_row_def)
qed

text \<open>The dispatch of a batch on a device that has no other pipeline for the schema.\<close>

lemma dispatch_score:
  assumes "gpu_logic reg sn ns root fs" and "lanes_ok (pf_lanes pf)" and "num_chunks n * length fs * 64 \<le> 2 ^ 32"
    and "generate_msl_source (length fs) ns root = Some (k, ns')" and "fs \<noteq> []"
    and "md_initialized dev" and "pipeline_cache dev sn \<in> {None, Some k}" and "mt_compiles m k" and "mt_maps m"
  shows "fst (dispatch m sn (gpu_columns pf fs data st n) (num_chunks n) (length fs) (Some k) dev) =
    (\<Sum>r < num_chunks n * 64. row_score ns (batch_row reg sn data st n r) root)"
proof -
  let ?nb = "num_chunks n" and ?cols = "gpu_columns pf fs data st n"
  let ?score = "\<lambda>r. row_score ns (batch_row reg sn data st n r) root"
  have "pool_wf ns" "root < length ns" "gpu_expr ns root" using assms(1) by (simp_all add: gpu_logic_def)
  from kernel_block_score [OF this, of "length fs"] assms(4) have
    blk: "(\<forall>i \<in> set (post_order ns root). columns_hold columns (length fs) block ns env i) \<Longrightarrow>
      run_block junk columns k block = (\<Sum>r < 64. row_score ns (env r) root)" for junk columns block env by auto
  have len: "take (?nb * length fs * 64) ?cols = ?cols" using length_gpu_columns [OF assms(2), of fs data st n] by simp
  have "fst (dispatch m sn ?cols ?nb (length fs) (Some k) dev) =
      (if ?nb = 0 then 0 else sum_list (map (run_block (mt_junk m) (buffer_load m (take (?nb * length fs * 64) ?cols)) k) [0..<?nb]))"
    using assms(5-9) by (auto simp: dispatch_def pipeline_for_def)
  also have "\<dots> = sum_list (map (\<lambda>b. \<Sum>r < 64. ?score (b * 64 + r)) [0..<?nb])"
    using blk gpu_columns_hold [OF assms(1,2) _ assms(3)] len by (auto intro!: arg_cong [of _ _ sum_list] map_cong)
  also have "\<dots> = (\<Sum>b < ?nb. sum ?score {b * 64..<b * 64 + 64})"
    by (simp add: interv_sum_list_conv_sum_set_nat atLeast0LessThan sum.shift_bounds_nat_ivl [symmetric] sum.atLeastLessThan_shift_0)
  also have "\<dots> = sum ?score {..<?nb * 64}" by (rule sum.nat_group)
  finally show ?thesis .
qed

text \<open>What \<open>set_expression\<close> installs in GPU mode.\<close>

lemma set_expression_gpu_installs:
  assumes "set_expression_gpu pf sn root (ge, ns) = Some (ge', ns')" and "expr_logic (ge_engine ge) = []"
    and "expr_logic (ge_engine ge') = [(sn, el)]" and "pf_add_ok pf"
    and "pool_wf ns" and "root < length ns" and "gpu_expr ns root"
    and "list_all (\<lambda>i. kind (ns ! i) = K_LOAD \<longrightarrow> get_field (registry (ge_engine ge)) sn (field_name (ns ! i)) \<noteq> None) (post_order ns root)"
    and "schema_metadata (ge_engine ge) sn = Some sm"
  obtains ns2 k where "same_shape ns ns2" and "gpu_logic (registry (ge_engine ge)) sn ns2 root (el_fields el)"
    and "generate_msl_source (length (sm_fields sm)) ns2 root = Some (k, ns')" and "el_mode el = GPU_THROUGHPUT"
    and "ge' = ge\<lparr>ge_engine := (ge_engine ge)\<lparr>expr_logic := [(sn, el)]\<rparr>, ge_msl := (ge_msl ge)(sn \<mapsto> k)\<rparr>"
proof -
  let ?reg = "registry (ge_engine ge)"
  let ?all = "all_nodes (run_analyzer ns root)"
  note node = gpu_expr_nodes [OF assms(5-7)] and po = post_order_analyzer [OF assms(5,6)]
  have r: "root \<in> set (post_order ns root)" using run_analyzer_inv(2) [OF assms(5,6)] po by simp
  have "reset_skip_jit (Suc (length ns)) (Some root) ns = ns"
    by (rule reset_skip_unmarked [where S = "set (post_order ns root)"]) (use node(1-3) r in auto)
  then have S: "set_expression_gpu pf sn root (ge, ns) =
      (case compile_expression True 64 ns (Some root) of
         (Undefined, _) \<Rightarrow> None | (Nullptr, ns) \<Rightarrow> Some (ge, ns)
       | (Kernel code, ns) \<Rightarrow> install_gpu sn root (Straight code) ns ge)"
    using assms(4) by (simp add: set_expression_gpu_def compile_kernel_def Let_def del: reset_skip_jit.simps
        split: prod.split compile_result.split)
  then obtain code ns2 k where C: "compile_expression True 64 ns (Some root) = (Kernel code, ns2)"
    and k: "generate_msl_source (length (sm_fields sm)) ns2 root = Some (k, ns')"
    and el: "el_fields el = trim_fields (collect_fields (Suc (length ns2)) ?reg sn ns2 (Some root) (replicate 128 None))"
      "el_mode el = GPU_THROUGHPUT"
    and ge: "ge' = ge\<lparr>ge_engine := (ge_engine ge)\<lparr>expr_logic := [(sn, el)]\<rparr>, ge_msl := (ge_msl ge)(sn \<mapsto> k)\<rparr>"
    using assms(1-3,9)
    by (auto simp: install_gpu_def update_alist_def Let_def
        simp del: collect_fields.simps split: option.splits prod.splits compile_result.splits)
  obtain fs where fs: "names_ok fs ns2 ?all" using compile_names_ok(1) [OF C assms(5,6) refl] by blast
  have sh: "same_shape ns ns2" using compile_names_ok(2) [OF C assms(5,6) refl] .
  have l: "length ns2 = length ns" using same_shape_length [OF sh] .
  have wf: "pool_wf ns2" using assms(5) l same_shape_sel(9) [OF sh] by (simp add: pool_wf_iff)
  note inv = gpu_expr_shape [OF assms(5,6) sh assms(7)]
  have "\<exists>j f. field_idx (ns2 ! i) = int j \<and> j < length (el_fields el) \<and> el_fields el ! j = Some f \<and> get_field ?reg sn (field_name (ns2 ! i)) = Some f"
    if i: "i \<in> set (post_order ns root)" "kind (ns2 ! i) = K_LOAD" for i
  proof -
    note sel = same_shape_sel [OF sh node(1) [OF i(1)]]
    have f: "get_field ?reg sn (field_name (ns ! i)) \<noteq> None" using assms(8) i sel by (auto simp: list_all_iff)
    obtain j f where "field_idx (ns2 ! i) = int j" "j < length (el_fields el)" "el_fields el ! j = Some f" "get_field ?reg sn (field_name (ns ! i)) = Some f"
      by (rule field_table [OF assms(5,6) f fs sh _ _ el(1)]) (use i sel po in auto)
    then show ?thesis using sel by auto
  qed
  then have "gpu_logic ?reg sn ns2 root (el_fields el)" using wf assms(6) l inv(1,2) by (simp add: gpu_logic_def)
  from that [OF sh this k el(2) ge] show thesis .
qed

text \<open>
  Claim C37. The GPU mode end to end: the first expression installed is a weighted sum, perhaps with a
  constant added, of comparisons of loads, constants and selections and of their AND, OR and NOT, without
  any other addition and without subtraction; it uses all fields of its schema; no pipeline is cached for the
  schema; the shader compiles, memory is allocated and mapped, the caller's array holds the rows and the
  columns have at most 2^32 words. Then \<open>execute\<close> on a machine with Metal returns the sum of the scores of
  all rows of the blocks the batch fills, the rows past its end read as zeros.
\<close>

theorem gpu_batch_score:
  assumes "set_expression_gpu pf sn root (ge, ns) = Some (ge', ns')" and "expr_logic (ge_engine ge) = []"
    and "expr_logic (ge_engine ge') = [(sn, el)]" and "platform_ok pf" and "pf_begin pf [sn] = sn"
    and "pool_wf ns" and "root < length ns" and "gpu_expr ns root"
    and "list_all (\<lambda>i. kind (ns ! i) = K_LOAD \<longrightarrow> get_field (registry (ge_engine ge)) sn (field_name (ns ! i)) \<noteq> None) (post_order ns root)"
    and "schema_metadata (ge_engine ge) sn = Some sm" and "length (sm_fields sm) = length (el_fields el)" and "el_fields el \<noteq> []"
    and "num_chunks n * length (el_fields el) * 64 \<le> 2 ^ 32"
    and "md_initialized (ge_device ge)" and "pipeline_cache (ge_device ge) sn = None" and "\<forall>k. mt_compiles m k" and "mt_maps m" and "mt_alloc m"
    and "rows_readable (el_fields el) (sm_row_stride sm) n data"
  shows "map_option fst (execute_gpu m pf data n ge') =
    Some (\<Sum>r < num_chunks n * 64. row_score ns (batch_row (registry (ge_engine ge)) sn data (sm_row_stride sm) n r) root)"
proof -
  have pf: "pf_add_ok pf" "lanes_ok (pf_lanes pf)" using assms(4) by (simp_all add: platform_ok_def)
  obtain ns2 k where I: "same_shape ns ns2" "gpu_logic (registry (ge_engine ge)) sn ns2 root (el_fields el)"
    "generate_msl_source (length (el_fields el)) ns2 root = Some (k, ns')" "el_mode el = GPU_THROUGHPUT"
    "ge' = ge\<lparr>ge_engine := (ge_engine ge)\<lparr>expr_logic := [(sn, el)]\<rparr>, ge_msl := (ge_msl ge)(sn \<mapsto> k)\<rparr>"
    using set_expression_gpu_installs [OF assms(1-3) pf(1) assms(6-10)] assms(11) by metis
  have "pipeline_cache (ge_device ge) sn \<in> {None, Some k}" "mt_compiles m k" using assms(15,16) by simp_all
  note D = dispatch_score [OF I(2) pf(2) assms(13) I(3) assms(12,14) this assms(17), of data "sm_row_stride sm"]
  have "map_option fst (execute_gpu m pf data n ge') = Some (fst (dispatch m sn (gpu_columns pf (el_fields el) data (sm_row_stride sm) n)
      (num_chunks n) (length (el_fields el)) (Some k) (ge_device ge)))"
    using I(4) assms(5,10,18,19) by (simp add: execute_gpu_def I(5) Let_def case_prod_unfold)
  then show ?thesis unfolding D using gpu_expr_shape(3) [OF assms(6,7) I(1) assms(8)] by simp
qed

text \<open>
  A concrete run: the rows with \<open>x > 5\<close> score 3; one field, one row with \<open>x = 7\<close>.
\<close>

definition ex_gpu_pool :: "Node list" where
  "ex_gpu_pool = [Node_new\<lparr>kind := K_LOAD, field_name := ''x''\<rparr>, Node_new\<lparr>kind := K_CONST, const_value := 5\<rparr>,
     Node_new\<lparr>kind := K_GT, left := Some 0, right := Some 1, weight := 3\<rparr>, Node_new\<lparr>kind := K_SUM, operands := [2]\<rparr>]"

definition ex_field :: FieldDescriptor where
  "ex_field = \<lparr>fd_name = ''x'', fd_offset = 0, fd_bit_width = 64, fd_type = UINT64\<rparr>"

definition ex_metal :: metal where
  "ex_metal = \<lparr>mt_device = True, mt_compiles = (\<lambda>k. True), mt_maps = True, mt_alloc = True, mt_junk = (\<lambda>t. 0), mt_outside = (\<lambda>i. 0)\<rparr>"

definition ex_gpu_engine :: gpu_engine where
  "ex_gpu_engine = \<lparr>ge_engine = register_schema ''s'' [ex_field] 8 (ApexEngine_new None None []), ge_msl = Map.empty,
     ge_device = MetalDevice_new ex_metal\<rparr>"

lemma ex_gpu_analysis:
  "all_nodes (run_analyzer ex_gpu_pool 3) = [0, 1, 2, 3]" "arithmetic_nodes (run_analyzer ex_gpu_pool 3) = [0, 1]"
  "ea_nodes (run_analyzer ex_gpu_pool 3) =
     [Node_new\<lparr>kind := K_LOAD, field_name := ''x'', active_bits := 64\<rparr>,
      Node_new\<lparr>kind := K_CONST, const_value := 5, active_bits := 3\<rparr>,
      Node_new\<lparr>kind := K_GT, result_kind := BITMASK, left := Some 0, right := Some 1, weight := 3, active_bits := 10\<rparr>,
      Node_new\<lparr>kind := K_SUM, operands := [2]\<rparr>]"
  by code_simp+

lemma ex_gpu_wf: "pool_wf ex_gpu_pool" "gpu_expr ex_gpu_pool 3" "post_order ex_gpu_pool 3 = [0, 1, 2, 3]"
  by code_simp+

lemma ex_alloc: "alloc_slot (\<lambda>_. False) = (Some 0, \<lambda>j. j = 0)" "alloc_slot (\<lambda>j. j = 0) = (Some 1, \<lambda>j. j < 2)"
  "alloc_block (\<lambda>j. j < 2) = (Some 64, \<lambda>j. j < 2 \<or> 64 \<le> j \<and> j < 128)"
proof -
  show "alloc_slot (\<lambda>_. False) = (Some 0, \<lambda>j. j = 0)" "alloc_slot (\<lambda>j. j = 0) = (Some 1, \<lambda>j. j < 2)"
    using alloc_slot_prefix [of 0] alloc_slot_prefix [of 1] by (simp_all add: MAX_SLOTS_def numeral_2_eq_2)
  have "\<not> list_all (\<lambda>j. \<not> (j :: nat) < 2) [0..<64]" "list_all (\<lambda>j. \<not> 64 + (j :: nat) < 2) [0..<64]"
    by (auto simp: list_all_iff intro!: bexI [of _ 0])
  then have "first_block (\<lambda>j. j < 2) 0 = Some 64"
    by (subst first_block.simps, subst first_block.simps) (simp del: upt_rec_numeral add: MAX_SLOTS_def)
  then show "alloc_block (\<lambda>j. j < 2) = (Some 64, \<lambda>j. j < 2 \<or> 64 \<le> j \<and> j < 128)" by (simp add: alloc_block_def)
qed

definition ex_gpu_pool2 :: "Node list" where
  "ex_gpu_pool2 = [Node_new\<lparr>kind := K_LOAD, field_name := ''x'', active_bits := 64, field_idx := 0\<rparr>,
      Node_new\<lparr>kind := K_CONST, const_value := 5, active_bits := 3, field_idx := - 2\<rparr>,
      Node_new\<lparr>kind := K_GT, result_kind := BITMASK, left := Some 0, right := Some 1, weight := 3, active_bits := 10,
        slot_id := 0, eq_slot_id := 1\<rparr>,
      Node_new\<lparr>kind := K_SUM, operands := [2], slot_id := 64\<rparr>]"

lemma ex_gpu_compiles: "\<exists>code. compile_expression True 64 ex_gpu_pool (Some 3) = (Kernel code, ex_gpu_pool2)"
  by (simp add: compile_expression_def ex_gpu_analysis mark_consts_def alloc_node_def ex_alloc is_cmp_kind_def
      ex_gpu_pool2_def Node_new_def emit_node_def split: prod.split)

lemma ex_gpu_state:
  "expr_logic (ge_engine ex_gpu_engine) = []" "schema_metadata (ge_engine ex_gpu_engine) ''s'' = Some \<lparr>sm_row_stride = 8, sm_fields = [ex_field]\<rparr>"
  "md_initialized (ge_device ex_gpu_engine)" "pipeline_cache (ge_device ex_gpu_engine) ''s'' = None"
  "registry (ge_engine ex_gpu_engine) = [''s'' \<mapsto> [''x'' \<mapsto> ex_field]]"
  by (simp_all add: ex_gpu_engine_def register_schema_def ApexEngine_new_def MetalDevice_new_def MetalDevice_initialize_def ex_metal_def
      registry_register_def emplace_def ex_field_def)

lemma ex_gpu_fields:
  "trim_fields (collect_fields 5 [''s'' \<mapsto> [''x'' \<mapsto> ex_field]] ''s'' ex_gpu_pool2 (Some 3) (replicate 128 None)) = [Some ex_field]"
  "sum_metadata ex_gpu_pool2 3 = Some (0, [3], [0])" "pool_wf ex_gpu_pool2" "gpu_expr ex_gpu_pool2 3" "length ex_gpu_pool2 = 4"
  by code_simp+

lemma ex_gpu_installs:
  "\<exists>ge ns el. set_expression_gpu ex_platform ''s'' 3 (ex_gpu_engine, ex_gpu_pool) = Some (ge, ns) \<and>
     expr_logic (ge_engine ge) = [(''s'', el)] \<and> el_fields el = [Some ex_field]"
proof -
  have "reset_skip_jit (Suc (length ex_gpu_pool)) (Some 3) ex_gpu_pool = ex_gpu_pool" by code_simp
  moreover obtain code where "compile_expression True 64 ex_gpu_pool (Some 3) = (Kernel code, ex_gpu_pool2)" using ex_gpu_compiles by blast
  ultimately have "set_expression_gpu ex_platform ''s'' 3 (ex_gpu_engine, ex_gpu_pool) = install_gpu ''s'' 3 (Straight code) ex_gpu_pool2 ex_gpu_engine"
    by (simp add: set_expression_gpu_def compile_kernel_def ex_platform_def del: reset_skip_jit.simps)
  moreover obtain k ns where "generate_msl_source 1 ex_gpu_pool2 3 = Some (k, ns)"
    using kernel_block_score [of ex_gpu_pool2 3 1] ex_gpu_fields by auto
  moreover have "Suc (length ex_gpu_pool2) = 5" using ex_gpu_fields(5) by simp
  ultimately show ?thesis using ex_gpu_fields(1,2) by (simp add: install_gpu_def Let_def ex_gpu_state update_alist_def del: collect_fields.simps)
qed

lemma ex_row_score: "row_score ex_gpu_pool env 3 = (if 5 < env ''x'' then 3 else 0)"
proof -
  have "node_value ex_gpu_pool env 0 = env ''x''" "node_value ex_gpu_pool env 1 = 5"
    by (simp_all add: node_value_leaf ex_gpu_pool_def Node_new_def)
  then have "node_value ex_gpu_pool env 2 = mask_val (5 < env ''x'')"
    using node_value_inner [OF ex_gpu_wf(1), of 2 env] by (simp add: ex_gpu_pool_def Node_new_def node_op_def)
  then have "term_value ex_gpu_pool env 2 = (if 5 < env ''x'' then 3 else 0)"
    by (simp add: term_value_def ex_gpu_pool_def Node_new_def)
  moreover have "sum_node ex_gpu_pool 3 = 3" "operands (ex_gpu_pool ! 3) = [2]" by code_simp+
  ultimately show ?thesis by (simp add: row_score_def)
qed

theorem gpu_batch_score_witness:
  "\<exists>ge ns. set_expression_gpu ex_platform ''s'' 3 (ex_gpu_engine, ex_gpu_pool) = Some (ge, ns) \<and>
     map_option fst (execute_gpu ex_metal ex_platform [7, 0, 0, 0, 0, 0, 0, 0] 1 ge) = Some 3"
proof -
  let ?data = "[7, 0, 0, 0, 0, 0, 0, 0]"
  let ?row = "batch_row (registry (ge_engine ex_gpu_engine)) ''s'' ?data 8 1"
  obtain ge ns el where I: "set_expression_gpu ex_platform ''s'' 3 (ex_gpu_engine, ex_gpu_pool) = Some (ge, ns)"
    "expr_logic (ge_engine ge) = [(''s'', el)]" "el_fields el = [Some ex_field]" using ex_gpu_installs by blast
  have l: "3 < length ex_gpu_pool" by code_simp
  have f: "list_all (\<lambda>i. kind (ex_gpu_pool ! i) = K_LOAD \<longrightarrow>
      get_field (registry (ge_engine ex_gpu_engine)) ''s'' (field_name (ex_gpu_pool ! i)) \<noteq> None) (post_order ex_gpu_pool 3)"
    unfolding ex_gpu_wf(3) ex_gpu_state(5) by (simp add: get_field_def ex_gpu_pool_def Node_new_def)
  have "map_option fst (execute_gpu ex_metal ex_platform ?data 1 ge) = Some (\<Sum>r < num_chunks 1 * 64. row_score ex_gpu_pool (?row r) 3)"
    using gpu_batch_score [OF I(1) ex_gpu_state(1) I(2) ex_platform_ok _ ex_gpu_wf(1) l ex_gpu_wf(2) f ex_gpu_state(2) _ _ _ ex_gpu_state(3,4),
        where n = 1 and m = ex_metal and data = ?data] I(3)
    by (simp add: ex_metal_def ex_platform_def num_chunks_def rows_readable_def ex_field_def)
  also have "(\<lambda>r. row_score ex_gpu_pool (?row r) 3) = (\<lambda>r. if r = 0 then 3 else 0)"
  proof
    fix r
    have "read64 ?data 0 = 7" by code_simp
    then show "row_score ex_gpu_pool (?row r) 3 = (if r = 0 then 3 else 0)"
      by (simp add: ex_row_score batch_row_def ex_gpu_state(5) get_field_def ex_field_def)
  qed
  finally show ?thesis using I(1) by (auto simp: num_chunks_def)
qed

section \<open>What the GPU mode does differently\<close>

text \<open>The rows that fill up the last block are scored like rows of zeros; the other modes leave them out.\<close>

lemma gpu_padding_rows:
  assumes "n \<le> k"
  shows "(\<Sum>r < k. row_score ns (batch_row reg sn data st n r) root) =
    (\<Sum>r < n. row_score ns (batch_row reg sn data st n r) root) + of_nat (k - n) * row_score ns (\<lambda>_. 0) root"
proof -
  have zero: "batch_row reg sn data st n r = (\<lambda>_. 0)" if "n \<le> r" for r
    using that by (auto simp: batch_row_def split: option.split)
  have "(\<Sum>r < k. row_score ns (batch_row reg sn data st n r) root) =
      (\<Sum>r < n. row_score ns (batch_row reg sn data st n r) root) + (\<Sum>r \<in> {n..<k}. row_score ns (batch_row reg sn data st n r) root)"
    using sum.atLeastLessThan_concat [of 0 n k "\<lambda>r. row_score ns (batch_row reg sn data st n r) root"] assms by (simp add: atLeast0LessThan)
  then show ?thesis using zero by simp
qed

text \<open>A pipeline is cached under the name of the schema, so a new expression for it is not run.\<close>

lemma dispatch_keeps_old_pipeline:
  "pipeline_cache dev sn = Some k \<Longrightarrow> dispatch m sn planes nb nf msl dev = dispatch m sn planes nb nf msl' dev"
  by (simp add: dispatch_def pipeline_for_def)

text \<open>
  The shader counts fields by the schema, the columns are laid out by the expression: with fewer fields in
  the expression, the blocks at the end are read from past the end of the buffer.
\<close>

lemma gpu_reads_past_columns:
  assumes "nb * nf \<le> b * schema_fields" and "b * schema_fields * 64 + j * 64 + t < 2 ^ 32"
  shows "nb * nf * 64 \<le> column_index schema_fields b (int j) t"
proof -
  have "int (b * schema_fields * 64) + int j * 64 + int t = int (b * schema_fields * 64 + j * 64 + t)" by simp
  then have "column_index schema_fields b (int j) t = b * schema_fields * 64 + j * 64 + t"
    using assms(2) by (simp only: column_index_def) (simp add: nat_mod_as_int nat_mod_distrib del: of_nat_add of_nat_mult)
  moreover have "nb * nf * 64 \<le> b * schema_fields * 64" using assms(1) by (rule mult_le_mono1)
  ultimately show ?thesis by simp
qed

text \<open>A predicate without a SUM has no terms, and every block of it counts nothing.\<close>

lemma gpu_predicate_counts_nothing:
  assumes "generate_msl_source nf ns root = Some (k, ns')" and "is_mask_kind (kind (ns ! root))"
    and "distinct (post_order ns root)" and "\<And>i. i \<in> set (post_order ns root) \<Longrightarrow> i < length ns \<and> \<not> skip_jit (ns ! i)"
  shows "run_block junk columns k b = 0"
proof -
  have "unslot (snd (fold assign_slot (post_order ns root) (0, ns)) ! root) = unslot (ns ! root)"
    using assign_slots [OF assms(3,4), of 0] by blast
  then have "kind (snd (fold assign_slot (post_order ns root) (0, ns)) ! root) = kind (ns ! root)" by (rule unslot_sel)
  then have "mk_terms k = []" "mk_base_sum k = 0"
    using assms(1,2) by (auto simp: generate_msl_source_def Let_def sum_metadata_def sum_plus_const_def is_mask_kind_def
        case_prod_unfold split: option.splits)
  then show ?thesis by (simp add: run_block_sum row_sum_def)
qed

end
