(* ===== verification/Circuit_Library.thy ===== *)
theory Circuit_Library
  imports A64 Bit_Planes
begin

text \<open>
  The circuit emitters (\<open>src/jit/circuit_library.cpp\<close>): sequences of AArch64 instructions for one bit plane
  of a comparison, a selection, a full adder, a carry-save adder and a population count, over registers the
  caller chooses. What they compute is shown under the conditions on the registers the sequences need:
  run over the planes of two numbers they compare and add on all 64 rows. The multiplier emits nothing.
\<close>

section \<open>Emitters\<close>

definition emit_gt_64 :: "nat \<Rightarrow> nat \<Rightarrow> nat \<Rightarrow> nat \<Rightarrow> instr list" where
  "emit_gt_64 a_bit b_bit gt_mask eq_mask =
     [I_BIC (X 6) (X a_bit) (X b_bit),
      I_AND (X 7) (X eq_mask) (X 6),
      I_ORR (X gt_mask) (X gt_mask) (X 7),
      I_EOR (X 6) (X a_bit) (X b_bit),
      I_BIC (X eq_mask) (X eq_mask) (X 6)]"

definition emit_mux :: "nat \<Rightarrow> nat \<Rightarrow> nat \<Rightarrow> nat \<Rightarrow> nat \<Rightarrow> instr list" where
  "emit_mux cond_reg a_mask b_mask out tmp =
     [I_AND (X tmp) (X cond_reg) (X a_mask), I_BIC (X out) (X b_mask) (X cond_reg), I_ORR (X out) (X tmp) (X out)]"

definition emit_add_64 :: "nat \<Rightarrow> nat \<Rightarrow> nat \<Rightarrow> nat \<Rightarrow> nat \<Rightarrow> nat \<Rightarrow> instr list" where
  "emit_add_64 a_plane b_plane carry sum_reg tmp1 tmp2 =
     [I_EOR (X tmp1) (X a_plane) (X b_plane),
      I_EOR (X sum_reg) (X tmp1) (X carry),
      I_AND (X tmp2) (X a_plane) (X b_plane),
      I_AND (X tmp1) (X tmp1) (X carry),
      I_ORR (X carry) (X tmp1) (X tmp2)]"

text \<open>The loop of the multiplier has an empty body.\<close>

definition emit_mul_64 :: "nat \<Rightarrow> int \<Rightarrow> int \<Rightarrow> nat list \<Rightarrow> nat \<Rightarrow> nat \<Rightarrow> nat \<Rightarrow> instr list" where
  "emit_mul_64 a_plane constant bit_index carry_regs sum_reg tmp1 tmp2 = []"

definition emit_csa :: "nat \<Rightarrow> nat \<Rightarrow> nat \<Rightarrow> nat \<Rightarrow> nat \<Rightarrow> nat \<Rightarrow> instr list" where
  "emit_csa a_in b_in c_in sum_out carry_out tmp =
     [I_EOR (X tmp) (X a_in) (X b_in),
      I_EOR (X sum_out) (X tmp) (X c_in),
      I_AND (X sum_out) (X a_in) (X b_in),
      I_AND (X tmp) (X tmp) (X c_in),
      I_ORR (X carry_out) (X tmp) (X sum_out),
      I_EOR (X tmp) (X a_in) (X b_in),
      I_EOR (X sum_out) (X tmp) (X c_in)]"

text \<open>The population count goes through the vector register \<open>v0\<close>, here eight byte lanes.\<close>

datatype vec_instr =
    V_GP instr
  | V_FMOV_IN reg
  | V_CNT
  | V_ADDV
  | V_FMOV_OUT reg

type_synonym lanes8 = "nat \<Rightarrow> u8"

definition popcount8 :: "u8 \<Rightarrow> nat" where
  "popcount8 w = length (filter (bit w) [0..<8])"

definition lanes_of :: "u64 \<Rightarrow> lanes8" where
  "lanes_of w k = ucast (drop_bit (8 * k) w)"

definition lanes_word :: "lanes8 \<Rightarrow> u64" where
  "lanes_word v = (\<Sum>k < 8. push_bit (8 * k) (ucast (v k)))"

fun vexec1 :: "vec_instr \<Rightarrow> cpu \<times> lanes8 \<Rightarrow> cpu \<times> lanes8" where
  "vexec1 (V_GP i) (c, v) = (exec1 i c, v)"
| "vexec1 (V_FMOV_IN r) (c, v) = (c, lanes_of (rd c r))"
| "vexec1 V_CNT (c, v) = (c, \<lambda>k. of_nat (popcount8 (v k)))"
| "vexec1 V_ADDV (c, v) = (c, (\<lambda>k. 0)(0 := \<Sum>k < 8. v k))"
| "vexec1 (V_FMOV_OUT r) (c, v) = (wr r (lanes_word v) c, v)"

definition emit_popcnt_mask :: "nat \<Rightarrow> nat \<Rightarrow> vec_instr list" where
  "emit_popcnt_mask mask_reg out = [V_FMOV_IN (X mask_reg), V_CNT, V_ADDV, V_FMOV_OUT (X out), V_GP (I_ANDI (X out) (X out) 0xFF)]"

section \<open>One plane\<close>

text \<open>Memory, stack pointer and flags are untouched, and of the registers only those listed change.\<close>

definition only_regs :: "nat set \<Rightarrow> cpu \<Rightarrow> cpu \<Rightarrow> bool" where
  "only_regs R c c' \<longleftrightarrow> mem c' = mem c \<and> sp c' = sp c \<and> flags c' = flags c \<and> (\<forall>r. r \<notin> R \<longrightarrow> regs c' r = regs c r)"

lemma emit_gt_64_exec:
  assumes "distinct [a, b, gt, eq, 6, 7]"
  shows "regs (exec (emit_gt_64 a b gt eq) c) gt = regs c gt OR (regs c a AND NOT (regs c b) AND regs c eq)"
    and "regs (exec (emit_gt_64 a b gt eq) c) eq = regs c eq AND NOT (regs c a XOR regs c b)"
    and "only_regs {gt, eq, 6, 7} c (exec (emit_gt_64 a b gt eq) c)"
  using assms by (auto simp: emit_gt_64_def only_regs_def ac_simps)

lemma emit_mux_exec:
  assumes "tmp \<notin> {q, b, out}" and "out \<noteq> q"
  shows "regs (exec (emit_mux q a b out tmp) c) out = (regs c q AND regs c a) OR (regs c b AND NOT (regs c q))"
    and "only_regs {out, tmp} c (exec (emit_mux q a b out tmp) c)"
  using assms by (auto simp: emit_mux_def only_regs_def)

lemma emit_add_64_exec:
  assumes "distinct [a, b, carry, s, tmp1, tmp2]"
  shows "regs (exec (emit_add_64 a b carry s tmp1 tmp2) c) s = (regs c a XOR regs c b) XOR regs c carry"
    and "regs (exec (emit_add_64 a b carry s tmp1 tmp2) c) carry = (regs c a AND regs c b) OR ((regs c a XOR regs c b) AND regs c carry)"
    and "only_regs {carry, s, tmp1, tmp2} c (exec (emit_add_64 a b carry s tmp1 tmp2) c)"
  using assms by (auto simp: emit_add_64_def only_regs_def or.commute)

section \<open>All planes\<close>

text \<open>The caller loads a plane of each operand and runs the emitted code.\<close>

definition plane_step :: "nat \<Rightarrow> nat \<Rightarrow> planes \<Rightarrow> planes \<Rightarrow> instr list \<Rightarrow> nat \<Rightarrow> cpu \<Rightarrow> cpu" where
  "plane_step a b A B code k c = exec code (wr (X b) (B k) (wr (X a) (A k) c))"

lemma gt_planes_fold:
  assumes "distinct [a, b, gt, eq, 6, 7]"
  shows "let c' = fold (plane_step a b A B (emit_gt_64 a b gt eq)) ks c
    in (regs c' gt, regs c' eq) = fold (cmp_step A B) ks (regs c gt, regs c eq)"
proof (induction ks arbitrary: c)
  case (Cons k ks)
  let ?c = "plane_step a b A B (emit_gt_64 a b gt eq) k c"
  have "(regs ?c gt, regs ?c eq) = cmp_step A B k (regs c gt, regs c eq)"
    using assms by (auto simp: plane_step_def emit_gt_64_exec cmp_step_def)
  then show ?case using Cons.IH [of ?c] by (simp add: Let_def)
qed simp

text \<open>The sum planes the caller collects, from plane 0 up, with the final carry.\<close>

fun add_planes :: "nat \<Rightarrow> nat \<Rightarrow> nat \<Rightarrow> nat \<Rightarrow> nat \<Rightarrow> nat \<Rightarrow> planes \<Rightarrow> planes \<Rightarrow> nat \<Rightarrow> cpu \<Rightarrow> u64 list \<times> cpu" where
  "add_planes a b carry s tmp1 tmp2 A B 0 c = ([], c)"
| "add_planes a b carry s tmp1 tmp2 A B (Suc n) c =
     (let (ps, c) = add_planes a b carry s tmp1 tmp2 A B n c;
          c = plane_step a b A B (emit_add_64 a b carry s tmp1 tmp2) n c
      in (ps @ [regs c s], c))"

lemma add_planes_fold:
  assumes "distinct [a, b, carry, s, tmp1, tmp2]"
  shows "let (ps, c') = add_planes a b carry s tmp1 tmp2 A B n c
    in length ps = n \<and> (\<forall>k < n. ps ! k = sum_plane A B (regs c carry) k) \<and> regs c' carry = carry_plane A B (regs c carry) n"
proof (induction n)
  case (Suc n)
  obtain ps c1 where r: "add_planes a b carry s tmp1 tmp2 A B n c = (ps, c1)" by fastforce
  let ?c = "plane_step a b A B (emit_add_64 a b carry s tmp1 tmp2) n c1"
  have "regs ?c s = sum_plane A B (regs c carry) n" "regs ?c carry = carry_plane A B (regs c carry) (Suc n)"
    using assms Suc.IH r by (auto simp: plane_step_def emit_add_64_exec sum_plane_def)
  then show ?case using Suc.IH r by (auto simp: Let_def nth_append less_Suc_eq)
qed simp

text \<open>
  Claim C39. The circuit emitters are correct on all 64 rows at once: the comparison code, run over the planes
  from the highest, leaves the mask of the rows whose first number is greater and the mask of the equal ones;
  the adder code, run from plane 0, leaves the planes of the sums.
\<close>

theorem circuits_on_all_rows:
  assumes "distinct [a, b, gt, eq, 6, 7]" and "distinct [a, b, carry, s, tmp1, tmp2]" and "r < 64"
    and "regs c gt = 0" and "regs c eq = NOT 0" and "regs c carry = 0"
  shows "let c' = fold (plane_step a b A B (emit_gt_64 a b gt eq)) (rev [0..<64]) c;
      ps = fst (add_planes a b carry s tmp1 tmp2 A B 64 c)
    in (bit (regs c' gt) r \<longleftrightarrow> row_val B r < row_val A r) \<and> (bit (regs c' eq) r \<longleftrightarrow> row_val A r = row_val B r) \<and>
       row_val (\<lambda>k. ps ! k) r = row_val A r + row_val B r"
proof -
  let ?c = "fold (plane_step a b A B (emit_gt_64 a b gt eq)) (rev [0..<64]) c"
  have "(regs ?c gt, regs ?c eq) = fold (cmp_step A B) (rev [0..<64]) (0, NOT 0)"
    using gt_planes_fold [OF assms(1), of A B "rev [0..<64]" c] by (simp only: Let_def assms(4,5))
  then have "regs ?c gt = fst (fold (cmp_step A B) (rev [0..<64]) (0, NOT 0))" "regs ?c eq = snd (fold (cmp_step A B) (rev [0..<64]) (0, NOT 0))"
    by (metis fst_conv, metis snd_conv)
  then have m: "bit (regs ?c gt) r \<longleftrightarrow> row_val B r < row_val A r" "bit (regs ?c eq) r \<longleftrightarrow> row_val A r = row_val B r"
    using cmp_planes [OF assms(3), of A B] by (simp_all only:)
  obtain ps c1 where p: "add_planes a b carry s tmp1 tmp2 A B 64 c = (ps, c1)" by fastforce
  then have "\<forall>k < 64. ps ! k = sum_plane A B 0 k" using add_planes_fold [OF assms(2), of A B 64 c] assms(6) by simp
  then have "row_val (\<lambda>k. ps ! k) r = row_val (sum_plane A B 0) r" by (intro row_val_cong) simp
  then have "row_val (\<lambda>k. ps ! k) r = row_val A r + row_val B r" using row_val_sum [OF assms(3), of A B 0] by simp
  with m p show ?thesis by (simp only: Let_def fst_conv simp_thms)
qed

theorem circuits_on_all_rows_witness:
  "let c = \<lparr>regs = (\<lambda>r. if r = 3 then NOT 0 else 0), sp = 0, mem = (\<lambda>_. 0), flags = (0, 0)\<rparr>
   in bit (regs (fold (plane_step 0 1 (\<lambda>k. if k = 1 then NOT 0 else 0) (\<lambda>k. 0) (emit_gt_64 0 1 2 3)) (rev [0..<64]) c) 2) 5"
proof -
  let ?A = "\<lambda>k :: nat. if k = 1 then NOT 0 else (0 :: u64)"
  let ?c = "\<lparr>regs = (\<lambda>r. if r = 3 then NOT 0 else 0), sp = 0, mem = (\<lambda>_. 0), flags = (0, 0)\<rparr>"
  have "row_val (\<lambda>k. 0) 5 < row_val ?A 5" by code_simp
  then show ?thesis
    using circuits_on_all_rows [of 0 1 2 3 4 5 8 9 5 ?c ?A "\<lambda>k. 0"] by (simp del: upt_rec_numeral add: Let_def)
qed

section \<open>The other emitters\<close>

text \<open>Three words compressed into two: sum and carry of every bit position.\<close>

lemma emit_csa_exec:
  assumes "distinct [a, b, q, s, carry, tmp]"
  shows "regs (exec (emit_csa a b q s carry tmp) c) s = (regs c a XOR regs c b) XOR regs c q"
    and "regs (exec (emit_csa a b q s carry tmp) c) carry = ((regs c a XOR regs c b) AND regs c q) OR (regs c a AND regs c b)"
    and "only_regs {s, carry, tmp} c (exec (emit_csa a b q s carry tmp) c)"
  using assms by (auto simp: emit_csa_def only_regs_def)

lemma csa_counts:
  fixes c :: cpu
  assumes "distinct [a, b, q, s, carry, tmp]"
  defines "c' \<equiv> exec (emit_csa a b q s carry tmp) c"
  shows "of_bool (bit (regs c' s) r) + 2 * of_bool (bit (regs c' carry) r) =
    of_bool (bit (regs c a) r) + of_bool (bit (regs c b) r) + (of_bool (bit (regs c q) r) :: nat)"
  unfolding c'_def emit_csa_exec [OF assms(1)] by (auto simp: bit_simps)

lemma popcount_bytes: "length (filter P [0..<8 * n]) = (\<Sum>k < n. length (filter (\<lambda>j. P (8 * k + j)) [0..<8]))"
proof (induction n)
  case (Suc n)
  have "[0..<8 * Suc n] = [0..<8 * n] @ map (\<lambda>j. 8 * n + j) [0..<8]"
    using upt_add_eq_append [of 0 "8 * n" 8] map_add_upt [of "8 * n" 8] by (simp add: add.commute)
  then show ?case using Suc by (simp add: filter_map comp_def del: upt_rec_numeral)
qed simp

lemma emit_popcnt_mask_exec:
  "regs (fst (fold vexec1 (emit_popcnt_mask mask_reg out) (c, v))) out = of_nat (popcount (regs c mask_reg))"
proof -
  let ?w = "regs c mask_reg"
  have lane: "popcount8 (lanes_of ?w k) = length (filter (\<lambda>j. bit ?w (8 * k + j)) [0..<8])" for k
    unfolding popcount8_def lanes_of_def by (intro arg_cong [of _ _ length] filter_cong) (simp_all add: bit_simps del: upt_rec_numeral)
  then have "(\<Sum>k < 8. popcount8 (lanes_of ?w k)) = popcount ?w"
    using popcount_bytes [of "bit ?w" 8] by (simp add: popcount_def del: upt_rec_numeral)
  then have s: "(\<Sum>k < 8. of_nat (popcount8 (lanes_of ?w k)) :: u8) = of_nat (popcount ?w)" by (metis of_nat_sum)
  have u: "(ucast (of_nat (popcount ?w) :: u8) :: u64) = of_nat (popcount ?w)"
    using popcount_le [of ?w] by (simp add: unsigned_of_nat take_bit_nat_eq_self)
  have "lanes_word ((\<lambda>k. 0)(0 := x)) = ucast x" for x :: u8
    by (simp add: lanes_word_def lessThan_atLeast0 sum.atLeast_Suc_lessThan)
  moreover have "of_nat (popcount ?w) AND (0xFF :: u64) = of_nat (popcount ?w)"
  proof -
    have "(0xFF :: u64) = mask 8" by (simp add: mask_eq_exp_minus_1)
    moreover have "take_bit 8 (of_nat (popcount ?w) :: u64) = of_nat (popcount ?w)"
      using popcount_le [of ?w] by (simp add: take_bit_of_nat take_bit_nat_eq_self)
    ultimately show ?thesis by (simp only: take_bit_eq_mask)
  qed
  ultimately show ?thesis using s u by (simp add: emit_popcnt_mask_def)
qed

text \<open>
  The scratch registers of the comparison are fixed: with \<open>x6\<close> as its mask of equal rows, which is where the
  expression compiler keeps it, the mask is always cleared.
\<close>

lemma emit_gt_64_clobbers: "regs (exec (emit_gt_64 a b gt 6) c) 6 = 0"
  by (simp add: emit_gt_64_def)

text \<open>The multiplier leaves its result register as it was.\<close>

lemma emit_mul_64_exec: "exec (emit_mul_64 a k j cs s tmp1 tmp2) c = c"
  by (simp add: emit_mul_64_def)

end
