(* ===== verification/Host_Guard.thy ===== *)
theory Host_Guard
  imports AG_Prelude
begin

text \<open>
  What guards the host itself: the Endpoint Security client (\<open>esf_manager.cpp\<close>), the rules of the egress
  firewall (\<open>egress_firewall.cpp\<close>) and the keychain access (\<open>keychain_manager.mm\<close>). The outcomes of the
  operating system's calls are arguments; its side of the Endpoint Security interface is the record
  \<open>es_service\<close>, the clients that exist and the event subscriptions of each.

  Shown: which messages are refused; whatever calls fail, no client is left behind but those whose deletion
  failed; the rule file has exactly the lines of the given registries.
\<close>

section \<open>Endpoint Security\<close>

datatype es_auth = AUTH_ALLOW | AUTH_DENY

text \<open>A message: whether it asks for an execution, the path of the executable (\<open>None\<close> when a pointer on
  the way to it is null), and the arguments.\<close>

record es_message =
  em_auth_exec :: bool
  em_path :: "string option"
  em_args :: "string list"

record es_service =
  es_clients :: "nat list"
  es_subscribed :: "nat list"
  es_next :: nat
  es_undeleted :: "nat list"
  es_replies :: "(es_message \<times> es_auth) list"

record ESFManager =
  esf_active :: bool
  esf_client :: "nat option"
  esf_callback :: bool

definition ESFManager_new :: ESFManager where
  "ESFManager_new = \<lparr>esf_active = False, esf_client = None, esf_callback = False\<rparr>"

definition is_pkg_manager :: "string \<Rightarrow> bool" where
  "is_pkg_manager path \<longleftrightarrow> has_sub path ''/npm'' \<or> has_sub path ''/yarn'' \<or> has_sub path ''/pnpm''"

text \<open>Responding, unsubscribing and deleting can fail as well; the results are not looked at.\<close>

definition es_respond :: "bool \<Rightarrow> es_message \<Rightarrow> es_auth \<Rightarrow> es_service \<Rightarrow> es_service" where
  "es_respond ok msg a svc = (if ok then svc\<lparr>es_replies := es_replies svc @ [(msg, a)]\<rparr> else svc)"

definition es_unsubscribe_all :: "bool \<Rightarrow> nat \<Rightarrow> es_service \<Rightarrow> es_service" where
  "es_unsubscribe_all ok k svc = (if ok then svc\<lparr>es_subscribed := removeAll k (es_subscribed svc)\<rparr> else svc)"

definition es_delete :: "bool \<Rightarrow> nat \<Rightarrow> es_service \<Rightarrow> es_service" where
  "es_delete ok k svc =
     (if ok then svc\<lparr>es_clients := removeAll k (es_clients svc), es_subscribed := removeAll k (es_subscribed svc)\<rparr>
      else svc\<lparr>es_undeleted := k # es_undeleted svc\<rparr>)"

text \<open>The collected arguments and the closure that would hand them on are not used: nothing is started.\<close>

definition collect_args :: "es_message \<Rightarrow> string list" where
  "collect_args msg = filter (\<lambda>a. a \<noteq> []) (em_args msg)"

definition handle_es_message :: "bool \<Rightarrow> ESFManager \<Rightarrow> es_message \<Rightarrow> es_service \<Rightarrow> ESFManager \<times> es_service" where
  "handle_es_message ok m msg svc =
     (if em_auth_exec msg
      then (case em_path msg of
              Some path \<Rightarrow>
                if is_pkg_manager path \<and> \<not> has_sub path ''aarchgate''
                then let svc = es_respond ok msg AUTH_DENY svc; args = collect_args msg in (m, svc)
                else (m, es_respond ok msg AUTH_ALLOW svc)
            | None \<Rightarrow> (m, es_respond ok msg AUTH_ALLOW svc))
      else (m, es_respond ok msg AUTH_ALLOW svc))"

text \<open>\<open>new_ok\<close>, \<open>subscribe_ok\<close>, \<open>unsub_ok\<close> and \<open>del_ok\<close> are the outcomes of \<open>es_new_client\<close>, \<open>es_subscribe\<close>,
  \<open>es_unsubscribe_all\<close> and \<open>es_delete_client\<close>.\<close>

definition esf_start :: "bool \<Rightarrow> bool \<Rightarrow> bool \<Rightarrow> bool \<Rightarrow> ESFManager \<times> es_service \<Rightarrow> bool \<times> ESFManager \<times> es_service" where
  "esf_start new_ok subscribe_ok unsub_ok del_ok st =
     (case st of (m, svc) \<Rightarrow>
      if esf_active m then (True, m, svc)
      else if \<not> new_ok then (False, m, svc)
      else let k = es_next svc;
               svc = svc\<lparr>es_clients := k # es_clients svc, es_next := Suc k\<rparr>;
               m = m\<lparr>esf_client := Some k\<rparr>
           in if \<not> subscribe_ok
              then (False, m\<lparr>esf_client := None\<rparr>, es_delete del_ok k (es_unsubscribe_all unsub_ok k svc))
              else (True, m\<lparr>esf_active := True\<rparr>, svc\<lparr>es_subscribed := k # es_subscribed svc\<rparr>))"

definition esf_stop :: "bool \<Rightarrow> bool \<Rightarrow> ESFManager \<times> es_service \<Rightarrow> ESFManager \<times> es_service" where
  "esf_stop unsub_ok del_ok st =
     (case st of (m, svc) \<Rightarrow>
      if \<not> esf_active m then (m, svc)
      else let (m, svc) = (case esf_client m of None \<Rightarrow> (m, svc)
                           | Some k \<Rightarrow> (m\<lparr>esf_client := None\<rparr>, es_delete del_ok k (es_unsubscribe_all unsub_ok k svc)))
           in (m\<lparr>esf_active := False\<rparr>, svc))"

definition set_intercept_callback :: "bool \<Rightarrow> ESFManager \<Rightarrow> ESFManager" where
  "set_intercept_callback cb m = m\<lparr>esf_callback := cb\<rparr>"

text \<open>
  The life of one manager: calls with any outcome, and messages from any client that is still subscribed, a
  client that could not be deleted included.
\<close>

inductive esf_step :: "ESFManager \<times> es_service \<Rightarrow> ESFManager \<times> es_service \<Rightarrow> bool" where
  do_start: "esf_step st (snd (esf_start new_ok subscribe_ok unsub_ok del_ok st))"
| do_stop: "esf_step st (esf_stop unsub_ok del_ok st)"
| do_set: "esf_step (m, svc) (set_intercept_callback cb m, svc)"
| do_message: "k \<in> set (es_subscribed svc) \<Longrightarrow> esf_step (m, svc) (handle_es_message ok m msg svc)"

inductive_cases esf_stepE: "esf_step st st'"

definition esf_init :: "nat \<Rightarrow> ESFManager \<times> es_service" where
  "esf_init n = (ESFManager_new, \<lparr>es_clients = [], es_subscribed = [], es_next = n, es_undeleted = [], es_replies = []\<rparr>)"

text \<open>The executions to refuse, in terms of the text of the path.\<close>

definition names_manager :: "string \<Rightarrow> bool" where
  "names_manager path \<longleftrightarrow> (\<exists>w \<in> {''/npm'', ''/yarn'', ''/pnpm''}. \<exists>u v. path = u @ w @ v) \<and> (\<nexists>u v. path = u @ ''aarchgate'' @ v)"

definition to_refuse :: "es_message \<Rightarrow> bool" where
  "to_refuse msg \<longleftrightarrow> em_auth_exec msg \<and> (\<exists>path. em_path msg = Some path \<and> names_manager path)"

lemma names_manager_code: "names_manager path \<longleftrightarrow> is_pkg_manager path \<and> \<not> has_sub path ''aarchgate''"
  by (auto simp: names_manager_def is_pkg_manager_def has_sub_iff)

lemma handle_es_message_reply:
  "handle_es_message ok m msg svc = (m, es_respond ok msg (if to_refuse msg then AUTH_DENY else AUTH_ALLOW) svc)"
  by (simp add: handle_es_message_def to_refuse_def names_manager_code Let_def split: option.split)

definition esf_inv :: "ESFManager \<times> es_service \<Rightarrow> bool" where
  "esf_inv st = (case st of (m, svc) \<Rightarrow>
     set (es_clients svc) = set_option (esf_client m) \<union> set (es_undeleted svc) \<and>
     set_option (esf_client m) \<subseteq> set (es_subscribed svc) \<and> set (es_subscribed svc) \<subseteq> set (es_clients svc) \<and>
     set_option (esf_client m) \<inter> set (es_undeleted svc) = {} \<and>
     (\<forall>k \<in> set (es_clients svc). k < es_next svc) \<and> (esf_active m \<longleftrightarrow> esf_client m \<noteq> None) \<and>
     list_all (\<lambda>(msg, a). a = AUTH_DENY \<longleftrightarrow> to_refuse msg) (es_replies svc))"

lemmas es_defs = es_delete_def es_unsubscribe_all_def es_respond_def

lemma esf_step_inv: "esf_step st st' \<Longrightarrow> esf_inv st \<Longrightarrow> esf_inv st'"
proof (induction rule: esf_step.induct)
  case (do_start st new_ok subscribe_ok unsub_ok del_ok)
  obtain m svc where st: "st = (m, svc)" by (cases st)
  have "es_next svc \<notin> set (es_clients svc)" "es_next svc \<notin> set (es_subscribed svc)" "es_next svc \<notin> set (es_undeleted svc)"
    using do_start by (auto simp: esf_inv_def st)
  then show ?case using do_start
    by (cases "esf_active m"; cases new_ok; cases subscribe_ok; cases unsub_ok; cases del_ok)
      (auto simp: esf_inv_def esf_start_def es_defs st Let_def removeAll_id less_Suc_eq)
next
  case (do_stop st unsub_ok del_ok)
  obtain m svc where st: "st = (m, svc)" by (cases st)
  show ?case
  proof (cases "esf_active m")
    case True
    with do_stop show ?thesis
      by (cases "esf_client m"; cases unsub_ok; cases del_ok) (auto simp: esf_inv_def esf_stop_def es_defs st)
  next
    case False
    then have "esf_stop unsub_ok del_ok st = st" by (simp add: esf_stop_def st)
    with do_stop show ?thesis by (simp only:)
  qed
next
  case (do_set m svc cb)
  then show ?case unfolding esf_inv_def set_intercept_callback_def by simp blast
next
  case (do_message k svc m ok msg)
  then show ?case unfolding esf_inv_def handle_es_message_reply es_respond_def by auto
qed

lemma esf_reachable_inv: "esf_step\<^sup>*\<^sup>* (esf_init n) st \<Longrightarrow> esf_inv st"
proof (induction rule: rtranclp_induct)
  case base
  show ?case by (simp add: esf_init_def esf_inv_def ESFManager_new_def)
qed (rule esf_step_inv)

text \<open>
  Claim C40. The interceptor under every sequence of starts, stops and messages, whatever the outcome of each
  call into Endpoint Security (new client, subscribe, unsubscribe, delete, respond): the manager is active
  exactly while it has a client, which is subscribed; every other client the system has is one whose deletion
  failed; every reply that was given refuses its message exactly if it asks for an execution whose path
  contains \<open>/npm\<close>, \<open>/yarn\<close> or \<open>/pnpm\<close> and nowhere \<open>aarchgate\<close>; each message leads to at most one reply, and
  to one if the call succeeds.
\<close>

theorem interceptor_lifecycle:
  assumes "esf_step\<^sup>*\<^sup>* (esf_init n) (m, svc)"
  shows "(esf_active m \<longleftrightarrow> esf_client m \<noteq> None) \<and> set_option (esf_client m) \<subseteq> set (es_subscribed svc) \<and>
    set (es_clients svc) = set_option (esf_client m) \<union> set (es_undeleted svc) \<and>
    (\<forall>(msg, a) \<in> set (es_replies svc). a = AUTH_DENY \<longleftrightarrow> em_auth_exec msg \<and> (\<exists>path. em_path msg = Some path \<and>
       (\<exists>w \<in> {''/npm'', ''/yarn'', ''/pnpm''}. \<exists>u v. path = u @ w @ v) \<and> (\<nexists>u v. path = u @ ''aarchgate'' @ v))) \<and>
    (\<forall>ok msg. \<exists>a. es_replies (snd (handle_es_message ok m msg svc)) = es_replies svc @ (if ok then [(msg, a)] else []))"
proof -
  have inv: "esf_inv (m, svc)" using esf_reachable_inv [OF assms] .
  then have "\<forall>(msg, a) \<in> set (es_replies svc). a = AUTH_DENY \<longleftrightarrow> to_refuse msg"
    by (auto simp: esf_inv_def list_all_iff)
  moreover have "\<exists>a. es_replies (snd (handle_es_message ok m msg svc)) = es_replies svc @ (if ok then [(msg, a)] else [])" for ok msg
    by (simp add: handle_es_message_reply es_respond_def)
  ultimately show ?thesis using inv unfolding to_refuse_def names_manager_def esf_inv_def prod.case by blast
qed

theorem interceptor_lifecycle_witness:
  "let (m, svc) = snd (esf_start True True True True (esf_init 0)); (m', svc') = esf_stop True False (m, svc)
   in esf_active m \<and> set (es_clients svc) = {0} \<and> \<not> esf_active m' \<and> set (es_clients svc') = {0} \<and> es_undeleted svc' = [0]"
proof -
  obtain m svc where s: "snd (esf_start True True True True (esf_init 0)) = (m, svc)" by fastforce
  obtain m' svc' where t: "esf_stop True False (m, svc) = (m', svc')" by fastforce
  have "esf_step\<^sup>*\<^sup>* (esf_init 0) (m, svc)" using do_start [of "esf_init 0" True True True True] s by auto
  then have "esf_step\<^sup>*\<^sup>* (esf_init 0) (m', svc')" using do_stop [of "(m, svc)" True False] t by (metis rtranclp.rtrancl_into_rtrancl)
  from interceptor_lifecycle [OF this] s t show ?thesis
    by (auto simp: esf_start_def esf_stop_def es_defs esf_init_def ESFManager_new_def Let_def)
qed

text \<open>
  The test looks for a substring anywhere in the path: programs in a directory whose name begins with
  \<open>npm\<close> are refused, and a package manager in a directory named \<open>aarchgate\<close> is let through. In no case is
  the callback called.
\<close>

lemma interceptor_substring:
  "to_refuse \<lparr>em_auth_exec = True, em_path = Some ''/Users/me/npm-demo/bin/server'', em_args = []\<rparr>"
  "\<not> to_refuse \<lparr>em_auth_exec = True, em_path = Some ''/tmp/aarchgate/npm'', em_args = [''npm'', ''install'']\<rparr>"
proof -
  have "names_manager ''/Users/me/npm-demo/bin/server''" "\<not> names_manager ''/tmp/aarchgate/npm''"
    unfolding names_manager_code by code_simp+
  then show "to_refuse \<lparr>em_auth_exec = True, em_path = Some ''/Users/me/npm-demo/bin/server'', em_args = []\<rparr>"
    "\<not> to_refuse \<lparr>em_auth_exec = True, em_path = Some ''/tmp/aarchgate/npm'', em_args = [''npm'', ''install'']\<rparr>"
    unfolding to_refuse_def by simp_all
qed

lemma callback_never_called: "fst (handle_es_message ok m msg svc) = m"
  by (simp add: handle_es_message_reply)

section \<open>Egress firewall\<close>

abbreviation nl :: string where "nl \<equiv> [CHR 0x0A]"

record EgressFirewall =
  fw_active :: bool
  rules_file_path :: string

definition EgressFirewall_new :: EgressFirewall where
  "EgressFirewall_new = \<lparr>fw_active = False, rules_file_path = ''/tmp/aarchgate_pf.conf''\<rparr>"

definition pf_header :: "string list" where
  "pf_header = [''# AarchGate Egress Isolation Rules'', ''block out proto tcp all'', ''block out proto udp all'',
     ''pass out proto udp to any port 53'']"

definition pf_registry :: "string \<Rightarrow> string list" where
  "pf_registry reg = [''# Allow registry: '' @ reg, ''pass out proto tcp to '' @ reg @ '' port 443'']"

definition build_pf_rules :: "string list \<Rightarrow> string" where
  "build_pf_rules allowed_registries =
     concat (map (\<lambda>l. l @ nl) pf_header) @ concat (map (\<lambda>reg. concat (map (\<lambda>l. l @ nl) (pf_registry reg))) allowed_registries)"

type_synonym files = "string \<rightharpoonup> string"

definition enable_npm_scoped_isolation ::
  "bool \<Rightarrow> string list \<Rightarrow> EgressFirewall \<times> files \<Rightarrow> bool \<times> EgressFirewall \<times> files" where
  "enable_npm_scoped_isolation open_ok allowed_registries st =
     (case st of (fw, fs) \<Rightarrow>
      let rules = build_pf_rules allowed_registries in
      if \<not> open_ok then (False, fw, fs)
      else (True, fw\<lparr>fw_active := True\<rparr>, fs(rules_file_path fw \<mapsto> rules)))"

definition disable_isolation :: "EgressFirewall \<times> files \<Rightarrow> bool \<times> EgressFirewall \<times> files" where
  "disable_isolation st =
     (case st of (fw, fs) \<Rightarrow>
      if \<not> fw_active fw then (True, fw, fs) else (True, fw\<lparr>fw_active := False\<rparr>, fs(rules_file_path fw := None)))"

definition EgressFirewall_destroy :: "EgressFirewall \<times> files \<Rightarrow> files" where
  "EgressFirewall_destroy st = (if fw_active (fst st) then snd (snd (disable_isolation st)) else snd st)"

lemma build_pf_rules_lines:
  "build_pf_rules regs = concat (map (\<lambda>l. l @ nl) (pf_header @ concat (map pf_registry regs)))"
  by (induction regs) (simp_all add: build_pf_rules_def)

text \<open>
  The firewall over its life: enabling writes the rules, one block of lines for each registry and nothing
  else as long as no name contains a newline, and disabling or destroying removes the file and leaves the
  others as they were.
\<close>

lemma firewall_rules_file:
  assumes "enable_npm_scoped_isolation True regs (fw, fs) = (b, fw', fs')" and "\<forall>reg \<in> set regs. CHR 0x0A \<notin> set reg"
  shows "map_option getlines (fs' (rules_file_path fw)) = Some (pf_header @ concat (map pf_registry regs)) \<and>
    snd (snd (disable_isolation (fw', fs'))) = fs(rules_file_path fw := None) \<and>
    EgressFirewall_destroy (fw', fs') = fs(rules_file_path fw := None)"
proof -
  have "\<forall>l \<in> set (pf_header @ concat (map pf_registry regs)). CHR 0x0A \<notin> set l"
    using assms(2) by (auto simp: pf_header_def pf_registry_def)
  then have "getlines (build_pf_rules regs) = pf_header @ concat (map pf_registry regs)"
    unfolding build_pf_rules_lines by (rule getlines_concat)
  with assms(1) show ?thesis
    by (auto simp: enable_npm_scoped_isolation_def disable_isolation_def EgressFirewall_destroy_def)
qed

text \<open>A registry name with a newline adds a rule of its own choice.\<close>

lemma firewall_rule_injected:
  "''pass out all'' \<in> set (getlines (build_pf_rules [''r'' @ nl @ ''pass out all'' @ nl @ ''#'']))"
  by code_simp

section \<open>Keychain\<close>

record SecureCredential =
  sc_service :: string
  sc_account :: string
  is_hardware_protected :: bool

text \<open>\<open>matches\<close> is whether \<open>SecItemCopyMatching\<close> finds a generic password of the account; deleting and adding
  are functions on the keychain of the platform.\<close>

definition is_keychain_protected :: "(string \<Rightarrow> bool) \<Rightarrow> string \<Rightarrow> bool" where
  "is_keychain_protected matches account = matches account"

definition store_credential ::
  "('q \<Rightarrow> 'kc \<Rightarrow> 'kc) \<Rightarrow> ('q \<Rightarrow> 'kc \<Rightarrow> bool \<times> 'kc) \<Rightarrow> (string \<Rightarrow> string \<Rightarrow> string \<Rightarrow> 'q) \<Rightarrow>
   string \<Rightarrow> string \<Rightarrow> string \<Rightarrow> 'kc \<Rightarrow> bool \<times> 'kc" where
  "store_credential item_delete item_add query service account secret kc =
     (let q = query service account secret in item_add q (item_delete q kc))"

definition audit_host_credentials :: "(string \<Rightarrow> bool) \<Rightarrow> SecureCredential list" where
  "audit_host_credentials matches =
     [\<lparr>sc_service = ''SSH'', sc_account = ''id_rsa'', is_hardware_protected = is_keychain_protected matches ''id_rsa''\<rparr>,
      \<lparr>sc_service = ''NPM'', sc_account = ''npm_auth_token'', is_hardware_protected = is_keychain_protected matches ''npm_auth_token''\<rparr>,
      \<lparr>sc_service = ''AWS'', sc_account = ''aws_access_key'', is_hardware_protected = is_keychain_protected matches ''aws_access_key''\<rparr>]"

end
