(* ===== verification/Host_Files.thy ===== *)
theory Host_Files
  imports AG_Prelude
begin

text \<open>
  The parallel extractor (\<open>parallel_extractor.cpp\<close>) and the watcher of project files
  (\<open>fsevent_watcher.mm\<close>). The extractor runs \<open>tar\<close> through the shell; what the file system and the shell
  answer are arguments. The watcher keeps one event stream for the set of watched directories.

  Shown: the results of a batch are those of the single extractions whatever order the tasks run in; the
  command has the paths as arguments as long as they contain no character the shell interprets; and the
  watcher's stream covers exactly the watched directories after any calls.
\<close>

section \<open>Extractor\<close>

record ExtractionTask =
  et_archive_path :: string
  et_target_dir :: string
  et_integrity_hash :: string

text \<open>Times are in microseconds.\<close>

record ExtractionResult =
  er_archive_path :: string
  er_target_dir :: string
  er_success :: bool
  er_bytes_extracted :: u64
  er_elapsed :: int
  er_error_message :: string

definition empty_result :: ExtractionResult where
  "empty_result = \<lparr>er_archive_path = [], er_target_dir = [], er_success = False, er_bytes_extracted = 0, er_elapsed = 0, er_error_message = []\<rparr>"

record extract_env =
  ev_exists :: "string \<Rightarrow> bool"
  ev_system :: "string \<Rightarrow> int"
  ev_file_sizes :: "string \<Rightarrow> u64 list"
  ev_elapsed :: int

definition tar_command :: "ExtractionTask \<Rightarrow> string" where
  "tar_command task =
     ''tar -xzf '' @ [dq] @ et_archive_path task @ [dq] @ '' -C '' @ [dq] @ et_target_dir task @ [dq] @ '' 2>/dev/null''"

definition show_int :: "int \<Rightarrow> string" where
  "show_int i = (if i < 0 then ''-'' @ decimal (nat (- i)) else decimal (nat i))"

definition extract_one :: "extract_env \<Rightarrow> ExtractionTask \<Rightarrow> ExtractionResult" where
  "extract_one ev task =
     (let res = empty_result\<lparr>er_archive_path := et_archive_path task, er_target_dir := et_target_dir task\<rparr> in
      if \<not> ev_exists ev (et_archive_path task)
      then res\<lparr>er_success := False, er_error_message := ''Archive file not found: '' @ et_archive_path task\<rparr>
      else let status = ev_system ev (tar_command task);
               res = res\<lparr>er_elapsed := ev_elapsed ev\<rparr>
           in if status = 0
              then res\<lparr>er_success := True, er_bytes_extracted := fold (\<lambda>s t. t + s) (ev_file_sizes ev (et_target_dir task)) 0\<rparr>
              else res\<lparr>er_success := False, er_error_message := ''Extraction command failed with status '' @ show_int status\<rparr>)"

text \<open>\<open>dispatch_apply\<close> runs the body once for each index, in an order of its own (\<open>order\<close>).\<close>

definition extract_batch :: "nat list \<Rightarrow> (nat \<Rightarrow> extract_env) \<Rightarrow> ExtractionTask list \<Rightarrow> ExtractionResult list" where
  "extract_batch order evs tasks =
     (let results = replicate (length tasks) empty_result in
      if tasks = [] then results
      else fold (\<lambda>idx results. results[idx := extract_one (evs idx) (tasks ! idx)]) order results)"

lemma batch_update_nth:
  "i < length xs \<Longrightarrow> fold (\<lambda>k xs. xs[k := f k]) ks xs ! i = (if i \<in> set ks then f i else xs ! i)"
  "length (fold (\<lambda>k xs. xs[k := f k]) ks xs) = length xs"
  by (induction ks arbitrary: xs) (auto simp: nth_list_update)

lemma extract_batch_any_order:
  assumes "set order = {..<length tasks}"
  shows "extract_batch order evs tasks = map (\<lambda>i. extract_one (evs i) (tasks ! i)) [0..<length tasks]"
proof (cases "tasks = []")
  case False
  let ?f = "\<lambda>i. extract_one (evs i) (tasks ! i)"
  have e: "extract_batch order evs tasks = fold (\<lambda>k xs. xs[k := ?f k]) order (replicate (length tasks) empty_result)"
    using False by (simp only: extract_batch_def Let_def if_False)
  show ?thesis unfolding e
  proof (rule nth_equalityI)
    fix i assume "i < length (fold (\<lambda>k xs. xs[k := ?f k]) order (replicate (length tasks) empty_result))"
    then have "i < length tasks" by (simp only: batch_update_nth(2) length_replicate)
    then show "fold (\<lambda>k xs. xs[k := ?f k]) order (replicate (length tasks) empty_result) ! i = map ?f [0..<length tasks] ! i"
      using batch_update_nth(1) [of i "replicate (length tasks) empty_result" ?f order] assms by simp
  qed (simp only: batch_update_nth(2) length_replicate length_map length_upt diff_zero)
qed (simp add: extract_batch_def)

text \<open>
  Words of a command as the shell splits them, for commands without expansions: blanks separate outside
  quotes, and text in double quotes is part of the word.
\<close>

fun sh_words :: "bool \<Rightarrow> string option \<Rightarrow> string \<Rightarrow> string list" where
  "sh_words q None [] = []"
| "sh_words q (Some w) [] = [w]"
| "sh_words q w (ch # cs) =
     (if ch = dq then sh_words (\<not> q) (Some (case w of None \<Rightarrow> [] | Some x \<Rightarrow> x)) cs
      else if ch = CHR '' '' \<and> \<not> q then (case w of None \<Rightarrow> sh_words q None cs | Some x \<Rightarrow> x # sh_words q None cs)
      else sh_words q (Some ((case w of None \<Rightarrow> [] | Some x \<Rightarrow> x) @ [ch])) cs)"

lemma sh_words_quoted:
  "dq \<notin> set s \<Longrightarrow> sh_words True (Some w) (s @ [dq] @ cs) = sh_words False (Some (w @ s)) cs"
  by (induction s arbitrary: w) auto

lemma sh_words_plain:
  "dq \<notin> set s \<Longrightarrow> CHR '' '' \<notin> set s \<Longrightarrow> sh_words False (Some w) (s @ cs) = sh_words False (Some (w @ s)) cs"
  by (induction s arbitrary: w) auto

text \<open>The characters that keep a meaning inside double quotes.\<close>

definition shell_safe :: "string \<Rightarrow> bool" where
  "shell_safe s \<longleftrightarrow> list_all (\<lambda>c. c \<notin> {dq, CHR 0x24, CHR 0x60, CHR 0x5C}) s"

lemma tar_command_words:
  assumes "shell_safe (et_archive_path task)" and "shell_safe (et_target_dir task)"
  shows "sh_words False None (tar_command task) = [''tar'', ''-xzf'', et_archive_path task, ''-C'', et_target_dir task, ''2>/dev/null'']"
proof -
  have q: "dq \<notin> set (et_archive_path task)" "dq \<notin> set (et_target_dir task)" using assms by (auto simp: shell_safe_def list_all_iff)
  show ?thesis
    using sh_words_quoted [OF q(1), of "[]"] sh_words_quoted [OF q(2), of "[]"] by (simp add: tar_command_def)
qed

text \<open>A quote in a path ends the argument; what follows is a command of its own.\<close>

lemma tar_command_injection:
  "sh_words False None (tar_command \<lparr>et_archive_path = ''a'' @ [dq] @ '' ; touch b ; '' @ [dq], et_target_dir = ''d'', et_integrity_hash = []\<rparr>) =
     [''tar'', ''-xzf'', ''a'', '';'', ''touch'', ''b'', '';'', [], ''-C'', ''d'', ''2>/dev/null'']"
  by code_simp

section \<open>Watcher\<close>

record FSEventWatcher =
  fs_callback :: bool
  watched_dirs :: "string list"
  stream_ref :: "string list option"
  dispatch_queue :: bool

definition FSEventWatcher_new :: FSEventWatcher where
  "FSEventWatcher_new = \<lparr>fs_callback = False, watched_dirs = [], stream_ref = None, dispatch_queue = False\<rparr>"

text \<open>\<open>create_ok\<close> is the outcome of \<open>FSEventStreamCreate\<close>.\<close>

definition rebuild_stream :: "bool \<Rightarrow> FSEventWatcher \<Rightarrow> FSEventWatcher" where
  "rebuild_stream create_ok w =
     (let w = w\<lparr>stream_ref := None\<rparr> in
      if watched_dirs w = [] then w else w\<lparr>stream_ref := (if create_ok then Some (watched_dirs w) else None)\<rparr>)"

lemma rebuild_dirs [simp]: "watched_dirs (rebuild_stream ok w) = watched_dirs w"
  by (simp add: rebuild_stream_def Let_def)

definition fs_watch :: "bool \<Rightarrow> string \<Rightarrow> FSEventWatcher \<Rightarrow> FSEventWatcher" where
  "fs_watch create_ok project_dir w =
     (let w = w\<lparr>watched_dirs := List.insert project_dir (watched_dirs w)\<rparr> in if dispatch_queue w then rebuild_stream create_ok w else w)"

definition fs_unwatch :: "bool \<Rightarrow> string \<Rightarrow> FSEventWatcher \<Rightarrow> FSEventWatcher" where
  "fs_unwatch create_ok project_dir w =
     (let w = w\<lparr>watched_dirs := removeAll project_dir (watched_dirs w)\<rparr> in if dispatch_queue w then rebuild_stream create_ok w else w)"

definition fs_set_callback :: "bool \<Rightarrow> FSEventWatcher \<Rightarrow> FSEventWatcher" where
  "fs_set_callback cb w = w\<lparr>fs_callback := cb\<rparr>"

definition fs_start :: "bool \<Rightarrow> FSEventWatcher \<Rightarrow> FSEventWatcher" where
  "fs_start create_ok w = (if dispatch_queue w then w else rebuild_stream create_ok (w\<lparr>dispatch_queue := True\<rparr>))"

definition fs_stop :: "FSEventWatcher \<Rightarrow> FSEventWatcher" where
  "fs_stop w = w\<lparr>stream_ref := None, dispatch_queue := False\<rparr>"

text \<open>\<open>lastPathComponent\<close> and \<open>stringByDeletingLastPathComponent\<close> on the absolute paths the stream delivers;
  the result is the list of the callback's arguments.\<close>

definition last_component :: "string \<Rightarrow> string" where
  "last_component path = rev (takeWhile (\<lambda>ch. ch \<noteq> CHR ''/'') (rev path))"

definition parent_dir :: "string \<Rightarrow> string" where
  "parent_dir path = (let d = rev (tl (dropWhile (\<lambda>ch. ch \<noteq> CHR ''/'') (rev path))) in if d = [] then ''/'' else d)"

definition fs_event_callback :: "string list \<Rightarrow> FSEventWatcher \<Rightarrow> string list" where
  "fs_event_callback paths w =
     map parent_dir (filter (\<lambda>p. last_component p = ''package.json'' \<and> fs_callback w) paths)"

datatype watcher_call = Watch bool string | Unwatch bool string | SetCallback bool | Start bool | Stop

fun watcher_do :: "watcher_call \<Rightarrow> FSEventWatcher \<Rightarrow> FSEventWatcher" where
  "watcher_do (Watch ok d) = fs_watch ok d"
| "watcher_do (Unwatch ok d) = fs_unwatch ok d"
| "watcher_do (SetCallback cb) = fs_set_callback cb"
| "watcher_do (Start ok) = fs_start ok"
| "watcher_do Stop = fs_stop"

fun created_ok :: "watcher_call \<Rightarrow> bool" where
  "created_ok (Watch ok d) = ok"
| "created_ok (Unwatch ok d) = ok"
| "created_ok (Start ok) = ok"
| "created_ok _ = True"

definition watcher_inv :: "FSEventWatcher \<Rightarrow> bool" where
  "watcher_inv w \<longleftrightarrow> stream_ref w = (if dispatch_queue w \<and> watched_dirs w \<noteq> [] then Some (watched_dirs w) else None)"

lemma watcher_do_inv: "created_ok call \<Longrightarrow> watcher_inv w \<Longrightarrow> watcher_inv (watcher_do call w)"
  by (cases call)
    (auto simp: watcher_inv_def rebuild_stream_def fs_watch_def fs_unwatch_def fs_set_callback_def fs_start_def fs_stop_def Let_def)

text \<open>The directories that were watched and not unwatched since.\<close>

fun requested :: "watcher_call list \<Rightarrow> string set \<Rightarrow> string set" where
  "requested [] D = D"
| "requested (Watch ok d # cs) D = requested cs (insert d D)"
| "requested (Unwatch ok d # cs) D = requested cs (D - {d})"
| "requested (_ # cs) D = requested cs D"

lemma watcher_do_dirs:
  "set (watched_dirs (fold watcher_do cs w)) = requested cs (set (watched_dirs w))"
proof (induction cs arbitrary: w)
  case (Cons call cs)
  then show ?case
    by (cases call) (simp_all add: fs_watch_def fs_unwatch_def fs_set_callback_def fs_start_def fs_stop_def Let_def)
qed simp

text \<open>
  The watcher after any calls in which the streams could be created: while it is started, its stream covers
  exactly the directories asked for; stopped, there is none.
\<close>

lemma watcher_covers:
  assumes "list_all created_ok cs" and "w = fold watcher_do cs FSEventWatcher_new"
  shows "(case stream_ref w of None \<Rightarrow> {} | Some ds \<Rightarrow> set ds) = (if dispatch_queue w then requested cs {} else {})"
proof -
  have "watcher_inv (fold watcher_do cs u)" if "watcher_inv u" for u
    using assms(1) that by (induction cs arbitrary: u) (simp_all add: watcher_do_inv)
  then have "watcher_inv w" using assms(2) by (simp add: watcher_inv_def FSEventWatcher_new_def)
  moreover have "set (watched_dirs w) = requested cs {}" using watcher_do_dirs [of cs FSEventWatcher_new] assms(2)
    by (simp add: FSEventWatcher_new_def)
  ultimately show ?thesis by (auto simp: watcher_inv_def)
qed

text \<open>Every package file below a watched directory calls back, those of installed packages included.\<close>

lemma callback_for_installed_packages:
  "fs_event_callback [''/p/package.json'', ''/p/node_modules/x/package.json'', ''/p/a.js''] (FSEventWatcher_new\<lparr>fs_callback := True\<rparr>) =
     [''/p'', ''/p/node_modules/x'']"
  by code_simp

end
