(* ===== verification/C_Api.thy ===== *)
theory C_Api
  imports Parallel_Correct
begin

text \<open>
  The C interface of the engine (\<open>src/api/aarchgate_c_api.cpp\<close>, \<open>include/apex/apex_c_api.h\<close>), which the
  Python and Java bindings call. The state is the set of live engines and the global node pool; a handle or
  node pointer is a number, and null is \<open>None\<close>. A call on a handle that is not live is undefined (\<open>None\<close> as
  result). The build without Metal is modelled.

  Shown: the sequence of calls the bindings make counts the rows of the caller's array, through the whole
  stack from the builders to the compiled kernel; a null argument is refused without an effect; a failed
  compilation is reported as success.
\<close>

section \<open>State\<close>

record c_api =
  ca_engines :: "nat \<rightharpoonup> ApexEngine"
  ca_fresh :: nat
  ca_pool :: "NodePool option"

definition c_api_init :: c_api where
  "c_api_init = \<lparr>ca_engines = Map.empty, ca_fresh = 0, ca_pool = None\<rparr>"

text \<open>\<open>apex_field_descriptor_t\<close>; sizes and offsets are \<open>size_t\<close>.\<close>

record apex_field_descriptor =
  cf_name :: "string option"
  cf_offset :: u64
  cf_bit_width :: u64
  cf_data_type :: int

definition data_type_of :: "int \<Rightarrow> DataType option" where
  "data_type_of i =
     (if i = 0 then Some UINT64 else if i = 1 then Some INT64 else if i = 2 then Some UINT32
      else if i = 3 then Some INT32 else if i = 4 then Some FLOAT64 else None)"

text \<open>The conversion of a descriptor; a null name is undefined, and a type number without an enumerator has
  no counterpart in the model.\<close>

definition cpp_field :: "apex_field_descriptor \<Rightarrow> FieldDescriptor option" where
  "cpp_field f =
     (case (cf_name f, data_type_of (cf_data_type f)) of
        (Some name, Some t) \<Rightarrow> Some \<lparr>fd_name = c_str name, fd_offset = ucast (cf_offset f), fd_bit_width = ucast (cf_bit_width f), fd_type = t\<rparr>
      | _ \<Rightarrow> None)"

fun cpp_fields :: "apex_field_descriptor list \<Rightarrow> FieldDescriptor list option" where
  "cpp_fields [] = Some []"
| "cpp_fields (f # fs) = (case cpp_field f of None \<Rightarrow> None | Some g \<Rightarrow> map_option ((#) g) (cpp_fields fs))"

section \<open>Engines\<close>

text \<open>\<open>malloc_ok\<close> and \<open>new_ok\<close> are the outcomes of the allocations, the other arguments those of the
  engine's constructor.\<close>

definition apex_create ::
  "bool \<Rightarrow> bool \<Rightarrow> int option \<Rightarrow> int option \<Rightarrow> u64 list list \<Rightarrow> c_api \<Rightarrow> nat option \<times> c_api" where
  "apex_create malloc_ok new_ok perf_cores env_threads bufs s =
     (let s = s\<lparr>ca_pool := Some (ensure_pool malloc_ok (ca_pool s))\<rparr> in
      if \<not> new_ok then (None, s)
      else let h = ca_fresh s
           in (Some h, s\<lparr>ca_engines := (ca_engines s)(h \<mapsto> ApexEngine_new perf_cores env_threads bufs), ca_fresh := Suc h\<rparr>))"

definition apex_destroy :: "nat option \<Rightarrow> c_api \<Rightarrow> c_api option" where
  "apex_destroy handle s =
     (case handle of None \<Rightarrow> Some s
      | Some h \<Rightarrow> if ca_engines s h = None then None else Some (s\<lparr>ca_engines := (ca_engines s)(h := None)\<rparr>))"

definition apex_register_schema ::
  "nat option \<Rightarrow> string option \<Rightarrow> apex_field_descriptor list option \<Rightarrow> nat \<Rightarrow> c_api \<Rightarrow> (int \<times> c_api) option" where
  "apex_register_schema handle schema_name descs stride s =
     (case (handle, schema_name, descs) of
        (Some h, Some sn, Some fs) \<Rightarrow>
          (case (ca_engines s h, cpp_fields fs) of
             (Some e, Some gs) \<Rightarrow> Some (0, s\<lparr>ca_engines := (ca_engines s)(h \<mapsto> register_schema (c_str sn) gs stride e)\<rparr>)
           | _ \<Rightarrow> None)
      | _ \<Rightarrow> Some (- 1, s))"

definition mode_of :: "int \<Rightarrow> ExecutionMode" where
  "mode_of mode = (if mode = 1 then SCALAR else if mode = 2 then GPU_THROUGHPUT else BIT_SLICED)"

definition apex_set_logic ::
  "platform \<Rightarrow> nat option \<Rightarrow> string option \<Rightarrow> nat option \<Rightarrow> int \<Rightarrow> c_api \<Rightarrow> (int \<times> c_api) option" where
  "apex_set_logic pf handle schema_name ir_root mode s =
     (case (handle, schema_name, ir_root) of
        (Some h, Some sn, Some root) \<Rightarrow>
          (case (ca_engines s h, ca_pool s) of
             (Some e, Some p) \<Rightarrow>
               map_option (\<lambda>(e, ns). (0, s\<lparr>ca_engines := (ca_engines s)(h \<mapsto> e), ca_pool := Some (p\<lparr>nodes := ns\<rparr>)\<rparr>))
                 (set_expression pf (c_str sn) (Some root) (mode_of mode) (e, nodes p))
           | _ \<Rightarrow> None)
      | _ \<Rightarrow> Some (- 1, s))"

definition with_result :: "nat \<Rightarrow> c_api \<Rightarrow> (u64 \<times> ApexEngine) option \<Rightarrow> (u64 \<times> c_api) option" where
  "with_result h s r = map_option (\<lambda>(v, e). (v, s\<lparr>ca_engines := (ca_engines s)(h \<mapsto> e)\<rparr>)) r"

definition apex_execute :: "platform \<Rightarrow> nat option \<Rightarrow> u8 list option \<Rightarrow> nat \<Rightarrow> c_api \<Rightarrow> (u64 \<times> c_api) option" where
  "apex_execute pf handle data count_rows s =
     (case (handle, data) of
        (Some h, Some d) \<Rightarrow> (case ca_engines s h of None \<Rightarrow> None | Some e \<Rightarrow> with_result h s (execute pf d count_rows e))
      | _ \<Rightarrow> Some (- 1, s))"

definition apex_execute_parallel ::
  "platform \<Rightarrow> (WorkerTask \<Rightarrow> worker_env) \<Rightarrow> nat option \<Rightarrow> u8 list option \<Rightarrow> nat \<Rightarrow> int \<Rightarrow> c_api \<Rightarrow> (u64 \<times> c_api) option" where
  "apex_execute_parallel pf wes handle data count_rows threads s =
     (case (handle, data) of
        (Some h, Some d) \<Rightarrow>
          (case ca_engines s h of None \<Rightarrow> None | Some e \<Rightarrow> with_result h s (execute_parallel pf wes d count_rows threads e))
      | _ \<Rightarrow> Some (- 1, s))"

section \<open>Builders\<close>

definition with_pool :: "bool \<Rightarrow> (NodePool \<Rightarrow> nat option \<times> NodePool) \<Rightarrow> c_api \<Rightarrow> nat option \<times> c_api" where
  "with_pool malloc_ok b s = (let (n, p) = b (ensure_pool malloc_ok (ca_pool s)) in (n, s\<lparr>ca_pool := Some p\<rparr>))"

definition apex_builder_load :: "bool \<Rightarrow> string \<Rightarrow> c_api \<Rightarrow> nat option \<times> c_api" where
  "apex_builder_load ok name = with_pool ok (Load name)"
definition apex_builder_const :: "bool \<Rightarrow> u64 \<Rightarrow> c_api \<Rightarrow> nat option \<times> c_api" where
  "apex_builder_const ok v = with_pool ok (Const v)"
definition apex_builder_add :: "bool \<Rightarrow> nat option \<Rightarrow> nat option \<Rightarrow> c_api \<Rightarrow> nat option \<times> c_api" where
  "apex_builder_add ok a b = with_pool ok (Add a b)"
definition apex_builder_gt :: "bool \<Rightarrow> nat option \<Rightarrow> nat option \<Rightarrow> c_api \<Rightarrow> nat option \<times> c_api" where
  "apex_builder_gt ok a b = with_pool ok (GT a b)"
definition apex_builder_ge :: "bool \<Rightarrow> nat option \<Rightarrow> nat option \<Rightarrow> c_api \<Rightarrow> nat option \<times> c_api" where
  "apex_builder_ge ok a b = with_pool ok (GE a b)"
definition apex_builder_lt :: "bool \<Rightarrow> nat option \<Rightarrow> nat option \<Rightarrow> c_api \<Rightarrow> nat option \<times> c_api" where
  "apex_builder_lt ok a b = with_pool ok (LT a b)"
definition apex_builder_and :: "bool \<Rightarrow> nat option \<Rightarrow> nat option \<Rightarrow> c_api \<Rightarrow> nat option \<times> c_api" where
  "apex_builder_and ok a b = with_pool ok (And a b)"
definition apex_builder_select :: "bool \<Rightarrow> nat option \<Rightarrow> nat option \<Rightarrow> nat option \<Rightarrow> c_api \<Rightarrow> nat option \<times> c_api" where
  "apex_builder_select ok q a b = with_pool ok (Select q a b)"
definition apex_builder_not :: "bool \<Rightarrow> nat option \<Rightarrow> c_api \<Rightarrow> nat option \<times> c_api" where
  "apex_builder_not ok a = with_pool ok (Not_b a)"

text \<open>The operands of a SUM are node pointers; a null among them is dereferenced later, so it is left out of the model.\<close>

definition apex_builder_sum :: "bool \<Rightarrow> nat list \<Rightarrow> c_api \<Rightarrow> nat option \<times> c_api" where
  "apex_builder_sum ok ops = with_pool ok (Sum ops)"

definition apex_builder_set_weight :: "nat option \<Rightarrow> int \<Rightarrow> c_api \<Rightarrow> c_api option" where
  "apex_builder_set_weight node w s =
     (case node of None \<Rightarrow> Some s
      | Some i \<Rightarrow>
          (case ca_pool s of None \<Rightarrow> None
           | Some p \<Rightarrow> if i < length (nodes p) then Some (s\<lparr>ca_pool := Some (p\<lparr>nodes := (nodes p)[i := (nodes p ! i)\<lparr>weight := w\<rparr>]\<rparr>)\<rparr>) else None))"

definition apex_create_universal_test_logic :: "bool \<Rightarrow> c_api \<Rightarrow> nat option \<times> c_api" where
  "apex_create_universal_test_logic ok s =
     (let (f0, s) = apex_builder_load ok ''Field0'' s; (f1, s) = apex_builder_load ok ''Field1'' s;
          (sm, s) = apex_builder_add ok f0 f1 s; (f2, s) = apex_builder_load ok ''Field2'' s
      in apex_builder_gt ok sm f2 s)"

definition apex_create_simple_logic :: "bool \<Rightarrow> c_api \<Rightarrow> nat option \<times> c_api" where
  "apex_create_simple_logic ok s =
     (let (f0, s) = apex_builder_load ok ''Field0'' s; (c10, s) = apex_builder_const ok 10 s in apex_builder_gt ok f0 c10 s)"

section \<open>Fields\<close>

text \<open>The first descriptor of a name is the one the registry keeps.\<close>

lemma registry_first:
  "fold (\<lambda>f. emplace (fd_name f) f) fs m k = (case m k of Some v \<Rightarrow> Some v | None \<Rightarrow> find (\<lambda>f. fd_name f = k) fs)"
  by (induction fs arbitrary: m) (auto simp: emplace_def split: option.split)

lemma cpp_fields_find:
  "cpp_fields fs = Some gs \<Longrightarrow> find (\<lambda>g. fd_name g = k) gs = Option.bind (find (\<lambda>f. map_option c_str (cf_name f) = Some k) fs) cpp_field"
proof (induction fs arbitrary: gs)
  case (Cons f fs)
  obtain g gs' where g: "cpp_field f = Some g" "cpp_fields fs = Some gs'" "gs = g # gs'"
    using Cons.prems by (auto split: option.splits)
  have "map_option c_str (cf_name f) = Some (fd_name g)" using g(1) by (auto simp: cpp_field_def split: option.splits prod.splits)
  with Cons.IH [OF g(2)] g show ?case by auto
qed simp

section \<open>The whole stack\<close>

text \<open>
  An expression of the pool, installed and run through the interface: both ways of execution count the rows
  on which it is true.
\<close>

lemma c_logic_counts:
  fixes sn :: string
  defines "name \<equiv> c_str sn"
  assumes s: "ca_engines s h = Some e" "ca_pool s = Some p" "expr_logic e = []"
    and g: "pool_wf (nodes p)" "root < length (nodes p)" "all_nodes (run_analyzer (nodes p) root) = all" "list_all (jit_ok (nodes p)) all"
      "list_all (\<lambda>i. kind (nodes p ! i) \<in> {K_LOAD, K_CONST} \<or> is_mask_kind (kind (nodes p ! i))) all" "length all \<le> 128"
      "is_mask_kind (kind (nodes p ! root))"
    and f: "list_all (\<lambda>i. kind (nodes p ! i) = K_LOAD \<longrightarrow> get_field (registry e) name (field_name (nodes p ! i)) \<noteq> None) all"
      "loaded_fields (nodes p) root \<noteq> {}" "card (loaded_fields (nodes p) root) \<le> 32"
    and pf: "platform_ok pf" "pf_begin pf [name] = name" "schema_metadata e name = Some sm"
      "length (field_buffers e) = 128" "\<forall>x \<in> set (field_buffers e). length x = 64" "\<forall>t. worker_ok (wes t)"
    and rows: "rows_in_buffer (registry e) name (nodes p) root (sm_row_stride sm) n data"
  shows "\<exists>s'. apex_set_logic pf (Some h) (Some sn) (Some root) 0 s = Some (0, s') \<and>
    (let k = length (filter (\<lambda>i. node_value (nodes p) (row_field (registry e) name data (sm_row_stride sm) i) root \<noteq> 0) [0..<n])
     in map_option fst (apex_execute pf (Some h) (Some data) n s') = Some (of_nat k) \<and>
        map_option fst (apex_execute_parallel pf wes (Some h) (Some data) n threads s') = Some (of_nat k))"
proof -
  have add: "pf_add_ok pf" using pf(1) by (simp add: platform_ok_def)
  note g' = g(4) [folded g(3)] and f' = f(1) [folded g(3)]
  obtain e' ns' where x: "set_expression pf name (Some root) BIT_SLICED (e, nodes p) = Some (e', ns')" "expr_logic e' \<noteq> []"
    using set_expression_total [OF g(1,2) g(3) [symmetric] g(4-7) add, of name e] by blast
  define s' where "s' = s\<lparr>ca_engines := (ca_engines s)(h \<mapsto> e'), ca_pool := Some (p\<lparr>nodes := ns'\<rparr>)\<rparr>"
  have "apex_set_logic pf (Some h) (Some sn) (Some root) 0 s = Some (0, s')"
    using x(1) s by (simp add: apex_set_logic_def s'_def mode_of_def name_def)
  moreover note execute_counts_matching_rows [OF x(1) s(3) x(2) g(1,2) g' g(7) f' pf(1-5) rows]
  moreover note execute_parallel_counts [OF x(1) s(3) x(2) g(1,2) g' g(7) add f' pf(2,3) f(2,3) pf(6) rows, of threads]
  ultimately show ?thesis by (intro exI [of _ s']) (auto simp: apex_execute_def apex_execute_parallel_def with_result_def s'_def Let_def)
qed

text \<open>The graph of \<open>Field0 > v\<close>.\<close>

definition simple_nodes :: "u64 \<Rightarrow> Node list" where
  "simple_nodes v = [Node_new\<lparr>kind := K_LOAD, field_name := ''Field0''\<rparr>, Node_new\<lparr>kind := K_CONST, const_value := v\<rparr>,
     Node_new\<lparr>kind := K_GT, result_kind := BITMASK, left := Some 0, right := Some 1\<rparr>]"

lemma simple_nodes_ok:
  "pool_wf (simple_nodes v)" "2 < length (simple_nodes v)" "is_mask_kind (kind (simple_nodes v ! 2))"
  "all_nodes (run_analyzer (simple_nodes v) 2) = [0, 1, 2]" "list_all (jit_ok (simple_nodes v)) [0, 1, 2]"
  "list_all (\<lambda>i. kind (simple_nodes v ! i) \<in> {K_LOAD, K_CONST} \<or> is_mask_kind (kind (simple_nodes v ! i))) [0, 1, 2]"
  "kind (simple_nodes v ! 0) = K_LOAD" "kind (simple_nodes v ! 1) = K_CONST" "kind (simple_nodes v ! 2) = K_GT"
  "field_name (simple_nodes v ! 0) = ''Field0''"
  by code_simp+

lemma simple_loads: "loaded_fields (simple_nodes v) 2 = {''Field0''}"
  unfolding loaded_fields_code simple_nodes_ok(4) using simple_nodes_ok(7-10) by simp

lemma simple_value: "node_value (simple_nodes v) e 2 \<noteq> 0 \<longleftrightarrow> v < e ''Field0''"
proof -
  have "node_value (simple_nodes v) e 0 = e ''Field0''" "node_value (simple_nodes v) e 1 = v"
    by (simp_all add: node_value_leaf simple_nodes_def Node_new_def)
  then show ?thesis using node_value_inner [OF simple_nodes_ok(1), of 2 v e]
    by (simp add: simple_nodes_def Node_new_def node_op_def)
qed

text \<open>The three builder calls.\<close>

definition build_simple :: "bool \<Rightarrow> u64 \<Rightarrow> c_api \<Rightarrow> nat option \<times> c_api" where
  "build_simple ok v s =
     (let (f0, s) = apex_builder_load ok ''Field0'' s; (c, s) = apex_builder_const ok v s in apex_builder_gt ok f0 c s)"

lemma simple_logic_is_build: "apex_create_simple_logic ok = build_simple ok 10"
  by (rule ext) (simp add: apex_create_simple_logic_def build_simple_def)

lemma build_simple_pool:
  assumes "ca_pool s = Some (NodePool_new True)"
  shows "build_simple True v s = (Some 2, s\<lparr>ca_pool := Some ((NodePool_new True)\<lparr>nodes := simple_nodes v\<rparr>)\<rparr>)"
  using assms
  by (simp add: build_simple_def apex_builder_load_def apex_builder_const_def apex_builder_gt_def with_pool_def ensure_pool_def
      builder_defs build_room NodePool_new_def MAX_NODES_def c_str_def simple_nodes_def Node_new_def)

text \<open>The offset the registry has for a field is that of the first descriptor of its name.\<close>

lemma registered_offset:
  assumes "cpp_fields descs = Some gs" and "find (\<lambda>f. map_option c_str (cf_name f) = Some k) descs = Some f0"
  shows "\<exists>g. get_field (registry_register name gs Map.empty) name k = Some g \<and> fd_offset g = ucast (cf_offset f0)"
proof -
  have "cpp_field f \<noteq> None" if "f \<in> set fs" "cpp_fields fs = Some hs" for f fs hs
    using that by (induction fs arbitrary: hs) (auto split: option.splits)
  moreover have "f0 \<in> set descs" using assms(2) by (auto simp: find_Some_iff)
  ultimately obtain g where g: "cpp_field f0 = Some g" using assms(1) by blast
  then have "fd_offset g = ucast (cf_offset f0)" by (auto simp: cpp_field_def split: option.splits prod.splits)
  moreover have "get_field (registry_register name gs Map.empty) name k = Some g"
    using cpp_fields_find [OF assms(1), of k] assms(2) g registry_first [of gs Map.empty k]
    by (simp add: get_field_def registry_register_def emplace_def)
  ultimately show ?thesis by blast
qed

text \<open>
  A whole session: after creating an engine, registering any schema that has a field named \<open>Field0\<close>,
  building \<open>Field0 > v\<close> and installing it, each call returns success, and both ways of execution return the
  number of rows of the caller's array whose eight bytes at the offset of the field are above \<open>v\<close>.
\<close>

lemma c_session_counts:
  assumes pf: "platform_ok pf" "pf_begin pf [c_str sn] = c_str sn" "\<forall>t. worker_ok (wes t)"
    and bufs: "length bufs = 128" "\<forall>x \<in> set bufs. length x = 64"
    and descs: "cpp_fields descs = Some gs" "find (\<lambda>f. map_option c_str (cf_name f) = Some ''Field0'') descs = Some f0"
    and rows: "n = 0 \<or> (n - 1) * stride + unat (ucast (cf_offset f0) :: u32) + 8 \<le> length data"
  shows "\<exists>s1 s2 s3 s4.
    apex_create True True perf_cores env_threads bufs c_api_init = (Some 0, s1) \<and>
    apex_register_schema (Some 0) (Some sn) (Some descs) stride s1 = Some (0, s2) \<and>
    build_simple True v s2 = (Some 2, s3) \<and>
    apex_set_logic pf (Some 0) (Some sn) (Some 2) 0 s3 = Some (0, s4) \<and>
    (let k = length (filter (\<lambda>i. v < read64 data (i * stride + unat (ucast (cf_offset f0) :: u32))) [0..<n])
     in map_option fst (apex_execute pf (Some 0) (Some data) n s4) = Some (of_nat k) \<and>
        map_option fst (apex_execute_parallel pf wes (Some 0) (Some data) n threads s4) = Some (of_nat k))"
proof -
  define e where "e = register_schema (c_str sn) gs stride (ApexEngine_new perf_cores env_threads bufs)"
  define s1 where "s1 = snd (apex_create True True perf_cores env_threads bufs c_api_init)"
  define s2 where "s2 = s1\<lparr>ca_engines := (ca_engines s1)(0 \<mapsto> e)\<rparr>"
  define s3 where "s3 = s2\<lparr>ca_pool := Some ((NodePool_new True)\<lparr>nodes := simple_nodes v\<rparr>)\<rparr>"
  have 1: "apex_create True True perf_cores env_threads bufs c_api_init = (Some 0, s1)"
    "ca_engines s1 0 = Some (ApexEngine_new perf_cores env_threads bufs)" "ca_pool s1 = Some (NodePool_new True)"
    by (simp_all add: s1_def apex_create_def c_api_init_def ensure_pool_def Let_def)
  have 2: "apex_register_schema (Some 0) (Some sn) (Some descs) stride s1 = Some (0, s2)"
    using 1(2) descs(1) by (simp add: apex_register_schema_def s2_def e_def)
  have 3: "build_simple True v s2 = (Some 2, s3)" unfolding s3_def by (rule build_simple_pool) (simp add: s2_def 1(3))
  have e: "expr_logic e = []" "registry e = registry_register (c_str sn) gs Map.empty"
    "schema_metadata e (c_str sn) = Some \<lparr>sm_row_stride = stride, sm_fields = gs\<rparr>" "field_buffers e = bufs"
    by (simp_all add: e_def register_schema_def ApexEngine_new_def Let_def)
  obtain g where g: "get_field (registry e) (c_str sn) ''Field0'' = Some g" "fd_offset g = ucast (cf_offset f0)"
    using registered_offset [OF descs, of "c_str sn"] by (auto simp: e(2))
  have row: "row_field (registry e) (c_str sn) data stride i ''Field0'' = read64 data (i * stride + unat (ucast (cf_offset f0) :: u32))" for i
    using g by (simp add: row_field_def)
  have flds: "list_all (\<lambda>i. kind (simple_nodes v ! i) = K_LOAD \<longrightarrow> get_field (registry e) (c_str sn) (field_name (simple_nodes v ! i)) \<noteq> None) [0, 1, 2]"
    using g(1) simple_nodes_ok(7-10) [of v] by simp
  have st: "ca_engines s3 0 = Some e" "ca_pool s3 = Some ((NodePool_new True)\<lparr>nodes := simple_nodes v\<rparr>)"
    by (simp_all add: s3_def s2_def)
  have sel: "nodes ((NodePool_new True)\<lparr>nodes := simple_nodes v\<rparr>) = simple_nodes v" by simp
  have rib: "rows_in_buffer (registry e) (c_str sn) (simple_nodes v) 2 stride n data"
    unfolding rows_in_buffer_def simple_nodes_ok(4) using rows g simple_nodes_ok(7-10) [of v] by auto
  have "\<exists>s4. apex_set_logic pf (Some 0) (Some sn) (Some 2) 0 s3 = Some (0, s4) \<and>
    (let k = length (filter (\<lambda>i. v < read64 data (i * stride + unat (ucast (cf_offset f0) :: u32))) [0..<n])
     in map_option fst (apex_execute pf (Some 0) (Some data) n s4) = Some (of_nat k) \<and>
        map_option fst (apex_execute_parallel pf wes (Some 0) (Some data) n threads s4) = Some (of_nat k))"
    using c_logic_counts [OF st e(1), unfolded sel, OF simple_nodes_ok(1,2,4,5,6) _ simple_nodes_ok(3) flds _ _ pf(1,2) e(3) _ _ pf(3),
        of n data threads] bufs rib
    by (simp add: simple_loads simple_value row e(4))
  with 1(1) 2 3 show ?thesis by blast
qed

section \<open>Views\<close>

text \<open>\<open>DataViewer\<close> (\<open>include/apex/memory/data_viewer.hpp\<close>): a buffer with the registry that describes it. The read
  of an eight-byte value; a field that is not registered gives a null descriptor, which is dereferenced, and
  the end of the buffer is not known (\<open>None\<close> where it is passed).\<close>

record DataViewer =
  dv_base :: "u8 list"
  dv_registry :: SchemaRegistry

definition get_value :: "string \<Rightarrow> string \<Rightarrow> DataViewer \<Rightarrow> u64 option" where
  "get_value schema field v =
     (case get_field (dv_registry v) schema field of None \<Rightarrow> None
      | Some d \<Rightarrow> if unat (fd_offset d) + 8 \<le> length (dv_base v) then Some (read64 (dv_base v) (unat (fd_offset d))) else None)"

text \<open>A view placed on a row reads the value the engine compares.\<close>

lemma get_value_row:
  assumes "get_field reg sn k = Some f" and "i * stride + unat (fd_offset f) + 8 \<le> length data"
  shows "get_value sn k \<lparr>dv_base = drop (i * stride) data, dv_registry = reg\<rparr> = Some (row_field reg sn data stride i k)"
  using assms by (auto simp: get_value_def row_field_def read64_def add.commute)

section \<open>Errors\<close>

text \<open>A null argument is refused and changes nothing.\<close>

lemma c_api_null:
  "handle = None \<or> name = None \<or> descs = None \<Longrightarrow> apex_register_schema handle name descs stride s = Some (- 1, s)"
  "handle = None \<or> name = None \<or> root = None \<Longrightarrow> apex_set_logic pf handle name root mode s = Some (- 1, s)"
  "handle = None \<or> data = None \<Longrightarrow> apex_execute pf handle data n s = Some (- 1, s)"
  "handle = None \<or> data = None \<Longrightarrow> apex_execute_parallel pf wes handle data n threads s = Some (- 1, s)"
  "apex_destroy None s = Some s"
  by (auto simp: apex_register_schema_def apex_set_logic_def apex_execute_def apex_execute_parallel_def apex_destroy_def split: option.split)

text \<open>A kernel that could not be compiled is reported as success, and the batch then counts nothing.\<close>

lemma c_api_failed_compilation:
  assumes "ca_engines s h = Some e" and "ca_pool s = Some p" and "mark_skip (mode_of mode) root (nodes p) = Some ns"
    and "compile_kernel pf (mode_of mode) ns root = (KernelNull, ns')" and "expr_logic e = []" and "compiled_logic e = []"
  shows "\<exists>s'. apex_set_logic pf (Some h) (Some sn) (Some root) mode s = Some (0, s') \<and>
    map_option fst (apex_execute pf (Some h) (Some data) n s') = Some 0"
  using assms by (simp add: apex_set_logic_def set_expression_def apex_execute_def with_result_def execute_def)

end
