(* ===== verification/Bindings.thy ===== *)
theory Bindings
  imports C_Api
begin

text \<open>
  The bindings on top of the C interface: the Java native methods (\<open>bindings/java/aarchgate_jni.cpp\<close>) and the
  Python module (\<open>bindings/python/aarchgate_pybind.cpp\<close>). What the language runtimes hand over is an argument:
  a null reference or a failed conversion is \<open>None\<close>. As in the C interface, a result \<open>None\<close> is undefined
  behaviour; a Python exception is a value.

  Shown: Java and Python sessions return what the C session returns, so they count the rows of the buffer;
  the conversion of field lists is exact; every exception leaves the engines as they were; the copy of a
  batch result stays within the result.
\<close>

section \<open>Field arrays\<close>

text \<open>Both bindings pass \<open>data()\<close> of a vector with the room reserved, which is null when there is no field.\<close>

definition vector_data :: "'a list \<Rightarrow> 'a list option" where
  "vector_data xs = (if xs = [] then None else Some xs)"

section \<open>Java\<close>

record java_field =
  jf_name :: "string option"
  jf_offset :: u64
  jf_bitWidth :: u64
  jf_dataType :: int

definition jni_field :: "java_field option \<Rightarrow> apex_field_descriptor option" where
  "jni_field obj =
     (case obj of None \<Rightarrow> None
      | Some f \<Rightarrow> map_option (\<lambda>fname. \<lparr>cf_name = Some (c_str fname), cf_offset = jf_offset f, cf_bit_width = jf_bitWidth f,
                     cf_data_type = jf_dataType f\<rparr>) (jf_name f))"

fun jni_fields :: "java_field option list \<Rightarrow> apex_field_descriptor list option" where
  "jni_fields [] = Some []"
| "jni_fields (f # fs) = (case jni_field f of None \<Rightarrow> None | Some g \<Rightarrow> map_option ((#) g) (jni_fields fs))"

definition nativeCreate :: "bool \<Rightarrow> bool \<Rightarrow> int option \<Rightarrow> int option \<Rightarrow> u64 list list \<Rightarrow> c_api \<Rightarrow> nat option \<times> c_api" where
  "nativeCreate = apex_create"

definition nativeCreateUniversalTestLogic :: "bool \<Rightarrow> c_api \<Rightarrow> nat option \<times> c_api" where
  "nativeCreateUniversalTestLogic = apex_create_universal_test_logic"

definition nativeDestroy :: "nat option \<Rightarrow> c_api \<Rightarrow> c_api option" where
  "nativeDestroy = apex_destroy"

definition nativeRegisterSchema ::
  "nat option \<Rightarrow> string option \<Rightarrow> java_field option list option \<Rightarrow> u64 \<Rightarrow> c_api \<Rightarrow> (int \<times> c_api) option" where
  "nativeRegisterSchema handle name objs stride s =
     (case (name, Option.bind objs jni_fields) of
        (Some name_chars, Some c_fields) \<Rightarrow> apex_register_schema handle (Some name_chars) (vector_data c_fields) (unat stride) s
      | _ \<Rightarrow> None)"

definition nativeSetLogic :: "platform \<Rightarrow> nat option \<Rightarrow> string option \<Rightarrow> nat option \<Rightarrow> int \<Rightarrow> c_api \<Rightarrow> (int \<times> c_api) option" where
  "nativeSetLogic pf handle schemaName irRootPtr mode s =
     (case schemaName of None \<Rightarrow> None | Some name_chars \<Rightarrow> apex_set_logic pf handle (Some name_chars) irRootPtr mode s)"

text \<open>\<open>GetDirectBufferAddress\<close> is null for a buffer that is not direct. The result is the bit pattern of a \<open>jlong\<close>.\<close>

definition nativeExecute :: "platform \<Rightarrow> nat option \<Rightarrow> u8 list option \<Rightarrow> u64 \<Rightarrow> c_api \<Rightarrow> (u64 \<times> c_api) option" where
  "nativeExecute pf handle buffer count_rows s =
     (case buffer of None \<Rightarrow> Some (- 1, s) | Some d \<Rightarrow> apex_execute pf handle (Some d) (unat count_rows) s)"

section \<open>Python\<close>

datatype py_exn = Cast_error | Value_error | Runtime_error string

type_synonym 'a py_result = "((py_exn + 'a) \<times> c_api) option"

record PyApexEngine =
  pe_handle :: "nat option"

definition PyApexEngine_new ::
  "bool \<Rightarrow> bool \<Rightarrow> int option \<Rightarrow> int option \<Rightarrow> u64 list list \<Rightarrow> c_api \<Rightarrow> PyApexEngine \<times> c_api" where
  "PyApexEngine_new malloc_ok new_ok perf_cores env_threads bufs s =
     (let (h, s) = apex_create malloc_ok new_ok perf_cores env_threads bufs s in (\<lparr>pe_handle = h\<rparr>, s))"

definition PyApexEngine_destroy :: "PyApexEngine \<Rightarrow> c_api \<Rightarrow> c_api option" where
  "PyApexEngine_destroy eng s = (if pe_handle eng \<noteq> None then apex_destroy (pe_handle eng) s else Some s)"

text \<open>An item of the list is the tuple it casts to, \<open>None\<close> when a cast throws.\<close>

type_synonym py_tuple = "(string \<times> u64 \<times> u64 \<times> int) option"

fun py_fields :: "py_tuple list \<Rightarrow> apex_field_descriptor list option" where
  "py_fields [] = Some []"
| "py_fields (item # items) =
     (case item of None \<Rightarrow> None
      | Some (nm, off, bits, t) \<Rightarrow>
          map_option ((#) \<lparr>cf_name = Some (c_str nm), cf_offset = off, cf_bit_width = bits, cf_data_type = t\<rparr>) (py_fields items))"

definition checked :: "string \<Rightarrow> (int \<times> c_api) option \<Rightarrow> unit py_result" where
  "checked msg r = map_option (\<lambda>(code, s). (if code \<noteq> 0 then Inl (Runtime_error msg) else Inr (), s)) r"

definition py_register_schema :: "PyApexEngine \<Rightarrow> string option \<Rightarrow> py_tuple list \<Rightarrow> nat \<Rightarrow> c_api \<Rightarrow> unit py_result" where
  "py_register_schema eng name fields_list stride s =
     (case py_fields fields_list of None \<Rightarrow> Some (Inl Cast_error, s)
      | Some fs \<Rightarrow> checked ''Failed to register schema'' (apex_register_schema (pe_handle eng) name (vector_data fs) stride s))"

definition py_set_logic :: "platform \<Rightarrow> PyApexEngine \<Rightarrow> string option \<Rightarrow> nat \<Rightarrow> int \<Rightarrow> c_api \<Rightarrow> unit py_result" where
  "py_set_logic pf eng schema_name ir_root mode s =
     checked ''Failed to set logic'' (apex_set_logic pf (pe_handle eng) schema_name (Some ir_root) mode s)"

definition py_execute :: "platform \<Rightarrow> PyApexEngine \<Rightarrow> u8 list \<Rightarrow> nat \<Rightarrow> c_api \<Rightarrow> (u64 \<times> c_api) option" where
  "py_execute pf eng b count_rows s = apex_execute pf (pe_handle eng) (Some b) count_rows s"

definition py_execute_parallel ::
  "platform \<Rightarrow> (WorkerTask \<Rightarrow> worker_env) \<Rightarrow> PyApexEngine \<Rightarrow> u8 list \<Rightarrow> nat \<Rightarrow> int \<Rightarrow> c_api \<Rightarrow> (u64 \<times> c_api) option" where
  "py_execute_parallel pf wes eng b count_rows threads s = apex_execute_parallel pf wes (pe_handle eng) (Some b) count_rows threads s"

text \<open>The functions that reach past the C interface dereference the handle; the copy of the batch result reads
  \<open>count\<close> numbers from the vector.\<close>

definition live_engine :: "PyApexEngine \<Rightarrow> c_api \<Rightarrow> (nat \<times> ApexEngine) option" where
  "live_engine eng s = Option.bind (pe_handle eng) (\<lambda>h. map_option (Pair h) (ca_engines s h))"

definition py_execute_batch :: "platform \<Rightarrow> PyApexEngine \<Rightarrow> u8 list \<Rightarrow> nat \<Rightarrow> c_api \<Rightarrow> (row_result list \<times> c_api) option" where
  "py_execute_batch pf eng b count_rows s =
     (case live_engine eng s of None \<Rightarrow> None
      | Some (h, e) \<Rightarrow>
          (case execute_vector pf b count_rows e of None \<Rightarrow> None
           | Some (preds, e) \<Rightarrow>
               if length preds < count_rows then None
               else Some (take count_rows preds, s\<lparr>ca_engines := (ca_engines s)(h \<mapsto> e)\<rparr>)))"

text \<open>The buffer as an array of 64-bit words, one list per column of a block.\<close>

definition buffer_planes :: "u8 list \<Rightarrow> u64 list list" where
  "buffer_planes b = map (\<lambda>p. map (\<lambda>i. read64 b (512 * p + 8 * i)) [0..<64]) [0..<length b div 512]"

definition py_execute_native :: "layout \<Rightarrow> bool \<Rightarrow> PyApexEngine \<Rightarrow> string \<Rightarrow> u8 list \<Rightarrow> nat \<Rightarrow> c_api \<Rightarrow> u64 option" where
  "py_execute_native la memalign_ok eng schema_name b num_blocks s =
     (case live_engine eng s of None \<Rightarrow> None
      | Some (h, e) \<Rightarrow> execute_native la memalign_ok (c_str schema_name) (buffer_planes b) num_blocks e)"

definition py_execute_native_parallel ::
  "(nat \<Rightarrow> layout) \<Rightarrow> (nat \<Rightarrow> bool) \<Rightarrow> PyApexEngine \<Rightarrow> string \<Rightarrow> u8 list \<Rightarrow> nat \<Rightarrow> int \<Rightarrow> c_api \<Rightarrow> u64 option" where
  "py_execute_native_parallel las memalign_ok eng schema_name b num_blocks threads s =
     (case live_engine eng s of None \<Rightarrow> None
      | Some (h, e) \<Rightarrow> execute_native_parallel las memalign_ok (c_str schema_name) (buffer_planes b) num_blocks threads e)"

text \<open>A capsule never holds a null pointer: its construction raises instead.\<close>

definition capsule :: "nat option \<times> c_api \<Rightarrow> (py_exn + nat) \<times> c_api" where
  "capsule r = (case r of (None, s) \<Rightarrow> (Inl Value_error, s) | (Some p, s) \<Rightarrow> (Inr p, s))"

definition py_builder_load :: "bool \<Rightarrow> string \<Rightarrow> c_api \<Rightarrow> (py_exn + nat) \<times> c_api" where
  "py_builder_load ok name s = capsule (apex_builder_load ok name s)"
definition py_builder_const :: "bool \<Rightarrow> u64 \<Rightarrow> c_api \<Rightarrow> (py_exn + nat) \<times> c_api" where
  "py_builder_const ok v s = capsule (apex_builder_const ok v s)"
definition py_builder_add :: "bool \<Rightarrow> nat \<Rightarrow> nat \<Rightarrow> c_api \<Rightarrow> (py_exn + nat) \<times> c_api" where
  "py_builder_add ok a b s = capsule (apex_builder_add ok (Some a) (Some b) s)"
definition py_builder_gt :: "bool \<Rightarrow> nat \<Rightarrow> nat \<Rightarrow> c_api \<Rightarrow> (py_exn + nat) \<times> c_api" where
  "py_builder_gt ok a b s = capsule (apex_builder_gt ok (Some a) (Some b) s)"
definition py_builder_ge :: "bool \<Rightarrow> nat \<Rightarrow> nat \<Rightarrow> c_api \<Rightarrow> (py_exn + nat) \<times> c_api" where
  "py_builder_ge ok a b s = capsule (apex_builder_ge ok (Some a) (Some b) s)"
definition py_builder_lt :: "bool \<Rightarrow> nat \<Rightarrow> nat \<Rightarrow> c_api \<Rightarrow> (py_exn + nat) \<times> c_api" where
  "py_builder_lt ok a b s = capsule (apex_builder_lt ok (Some a) (Some b) s)"
definition py_builder_and :: "bool \<Rightarrow> nat \<Rightarrow> nat \<Rightarrow> c_api \<Rightarrow> (py_exn + nat) \<times> c_api" where
  "py_builder_and ok a b s = capsule (apex_builder_and ok (Some a) (Some b) s)"
definition py_builder_select :: "bool \<Rightarrow> nat \<Rightarrow> nat \<Rightarrow> nat \<Rightarrow> c_api \<Rightarrow> (py_exn + nat) \<times> c_api" where
  "py_builder_select ok q a b s = capsule (apex_builder_select ok (Some q) (Some a) (Some b) s)"
definition py_builder_not :: "bool \<Rightarrow> nat \<Rightarrow> c_api \<Rightarrow> (py_exn + nat) \<times> c_api" where
  "py_builder_not ok a s = capsule (apex_builder_not ok (Some a) s)"
definition py_builder_set_weight :: "nat \<Rightarrow> int \<Rightarrow> c_api \<Rightarrow> c_api option" where
  "py_builder_set_weight node w s = apex_builder_set_weight (Some node) w s"

text \<open>An operand that is not a capsule is skipped.\<close>

definition py_builder_sum :: "bool \<Rightarrow> nat option list \<Rightarrow> c_api \<Rightarrow> (py_exn + nat) \<times> c_api" where
  "py_builder_sum ok ops s = capsule (apex_builder_sum ok (List.map_filter (\<lambda>x. x) ops) s)"

section \<open>Conversions\<close>

definition java_of :: "string \<times> u64 \<times> u64 \<times> int \<Rightarrow> java_field" where
  "java_of = (\<lambda>(nm, off, bits, t). \<lparr>jf_name = Some nm, jf_offset = off, jf_bitWidth = bits, jf_dataType = t\<rparr>)"

definition desc_of :: "string \<times> u64 \<times> u64 \<times> int \<Rightarrow> apex_field_descriptor" where
  "desc_of = (\<lambda>(nm, off, bits, t). \<lparr>cf_name = Some (c_str nm), cf_offset = off, cf_bit_width = bits, cf_data_type = t\<rparr>)"

lemma py_fields_exact: "py_fields items = (if None \<in> set items then None else Some (map (desc_of \<circ> the) items))"
  by (induction items rule: py_fields.induct) (auto simp: desc_of_def split: option.splits)

lemma py_fields_tuples [simp]: "py_fields (map Some ts) = Some (map desc_of ts)"
  by (simp add: py_fields_exact comp_def)

lemma jni_fields_tuples [simp]: "jni_fields (map (Some \<circ> java_of) ts) = Some (map desc_of ts)"
  by (induction ts) (auto simp: jni_field_def java_of_def desc_of_def)

lemma c_str_idem [simp]: "c_str (c_str s) = c_str s"
  by (induction s) (auto simp: c_str_def dest: set_takeWhileD)

lemma cpp_fields_typed:
  assumes "\<forall>(nm, off, bits, t) \<in> set ts. 0 \<le> t \<and> t \<le> 4"
  shows "\<exists>gs. cpp_fields (map desc_of ts) = Some gs"
  using assms
proof (induction ts)
  case (Cons x ts)
  obtain nm off bits t where x: "x = (nm, off, bits, t)" by (cases x)
  have "0 \<le> t" "t \<le> 4" using Cons.prems x by auto
  then have "\<exists>ty. data_type_of t = Some ty" by (auto simp: data_type_of_def)
  with Cons x show ?case by (auto simp: desc_of_def cpp_field_def)
qed simp

lemma find_desc:
  "find (\<lambda>f. map_option c_str (cf_name f) = Some k) (map desc_of ts) = map_option desc_of (find (\<lambda>(nm, off, bits, t). c_str nm = k) ts)"
  by (induction ts) (auto simp: desc_of_def)

text \<open>The builder calls of the two layers.\<close>

lemma capsule_Inr: "capsule r = (Inr p, s) \<longleftrightarrow> r = (Some p, s)"
  by (auto simp: capsule_def split: prod.splits option.splits)

lemma py_build_simple:
  assumes "build_simple True v s = (Some root, s')" and "ca_pool s = Some (NodePool_new True)"
  shows "\<exists>f0 c s3 s4. py_builder_load True ''Field0'' s = (Inr f0, s3) \<and> py_builder_const True v s3 = (Inr c, s4) \<and>
    py_builder_gt True f0 c s4 = (Inr root, s')"
  using assms
  by (simp add: build_simple_def py_builder_load_def py_builder_const_def py_builder_gt_def capsule_Inr
      apex_builder_load_def apex_builder_const_def apex_builder_gt_def with_pool_def ensure_pool_def
      builder_defs build_room NodePool_new_def MAX_NODES_def)

section \<open>Sessions\<close>

text \<open>
  Claim C5. A session of the Python binding through the whole stack: creating an engine, registering a list of
  field tuples (of known types) whose first field named \<open>Field0\<close> is declared unsigned with 64 bits at an offset
  below 2^32, building \<open>Field0 > v\<close> and installing it raises no exception, and on a buffer that holds all rows
  \<open>execute\<close> and \<open>execute_parallel\<close> return the number of rows whose field is above \<open>v\<close>, for every threshold,
  number of rows and number of threads. The Java methods, given the same fields, reach the same engine
  states and return the same number.
\<close>

theorem binding_sessions_count_rows:
  fixes m stride :: u64
  assumes "platform_ok pf" and "pf_begin pf [c_str sn] = c_str sn" and "\<forall>t. worker_ok (wes t)"
    and "length bufs = 128" and "\<forall>x \<in> set bufs. length x = 64"
    and "\<forall>(nm, off, bits, t) \<in> set ts. 0 \<le> t \<and> t \<le> 4"
    and "find (\<lambda>(nm, off, bits, t). c_str nm = ''Field0'') ts = Some (nm0, off0, 64, 0)"
    and "off0 < 2 ^ 32" and "m = 0 \<or> (unat m - 1) * unat stride + unat off0 + 8 \<le> length data"
  shows "\<exists>eng s1 s2 s3 s4 s5 s6 f0 c root.
    PyApexEngine_new True True perf_cores env_threads bufs c_api_init = (eng, s1) \<and>
    py_register_schema eng (Some sn) (map Some ts) (unat stride) s1 = Some (Inr (), s2) \<and>
    nativeRegisterSchema (pe_handle eng) (Some sn) (Some (map (Some \<circ> java_of) ts)) stride s1 = Some (0, s2) \<and>
    py_builder_load True ''Field0'' s2 = (Inr f0, s3) \<and> py_builder_const True v s3 = (Inr c, s4) \<and>
    py_builder_gt True f0 c s4 = (Inr root, s5) \<and>
    py_set_logic pf eng (Some sn) root 0 s5 = Some (Inr (), s6) \<and>
    nativeSetLogic pf (pe_handle eng) (Some sn) (Some root) 0 s5 = Some (0, s6) \<and>
    (let k = length (filter (\<lambda>i. v < read64 data (i * unat stride + unat off0)) [0..<unat m])
     in map_option fst (py_execute pf eng data (unat m) s6) = Some (of_nat k) \<and>
        map_option fst (py_execute_parallel pf wes eng data (unat m) threads s6) = Some (of_nat k) \<and>
        map_option fst (nativeExecute pf (pe_handle eng) (Some data) m s6) = Some (of_nat k))"
proof -
  obtain gs where gs: "cpp_fields (map desc_of ts) = Some gs" using cpp_fields_typed [OF assms(6)] by blast
  let ?f0 = "desc_of (nm0, off0, 64, 0)"
  have f: "find (\<lambda>f. map_option c_str (cf_name f) = Some ''Field0'') (map desc_of ts) = Some ?f0" unfolding find_desc using assms(7) by simp
  have ne: "ts \<noteq> []" using assms(7) by auto
  have off: "unat (ucast (cf_offset ?f0) :: u32) = unat off0"
    using assms(8) by (simp add: desc_of_def unsigned_ucast_eq word_less_nat_alt take_bit_nat_eq_self_iff)
  have rows: "unat m = 0 \<or> (unat m - 1) * unat stride + unat (ucast (cf_offset ?f0) :: u32) + 8 \<le> length data"
    using assms(9) unfolding off by auto
  obtain s1 s2 s5 s6 where s: "apex_create True True perf_cores env_threads bufs c_api_init = (Some 0, s1)"
    "apex_register_schema (Some 0) (Some sn) (Some (map desc_of ts)) (unat stride) s1 = Some (0, s2)"
    "build_simple True v s2 = (Some 2, s5)" "apex_set_logic pf (Some 0) (Some sn) (Some 2) 0 s5 = Some (0, s6)"
    "let k = length (filter (\<lambda>i. v < read64 data (i * unat stride + unat off0)) [0..<unat m])
     in map_option fst (apex_execute pf (Some 0) (Some data) (unat m) s6) = Some (of_nat k) \<and>
        map_option fst (apex_execute_parallel pf wes (Some 0) (Some data) (unat m) threads s6) = Some (of_nat k)"
    using c_session_counts [OF assms(1-5) gs f rows, of perf_cores env_threads v threads] unfolding off by blast
  have "ca_pool s1 = Some (NodePool_new True)" using s(1) by (auto simp: apex_create_def c_api_init_def ensure_pool_def Let_def)
  then have "ca_pool s2 = Some (NodePool_new True)" using s(2) by (auto simp: apex_register_schema_def split: option.splits)
  from py_build_simple [OF s(3) this] obtain f0 c s3 s4 where b: "py_builder_load True ''Field0'' s2 = (Inr f0, s3)"
    "py_builder_const True v s3 = (Inr c, s4)" "py_builder_gt True f0 c s4 = (Inr 2, s5)" by blast
  show ?thesis
    by (rule exI [of _ "\<lparr>pe_handle = Some 0\<rparr>"], rule exI [of _ s1], rule exI [of _ s2], rule exI [of _ s3], rule exI [of _ s4],
        rule exI [of _ s5], rule exI [of _ s6], rule exI [of _ f0], rule exI [of _ c], rule exI [of _ 2])
      (use s b ne in \<open>simp add: PyApexEngine_new_def py_register_schema_def nativeRegisterSchema_def vector_data_def checked_def
        py_set_logic_def nativeSetLogic_def py_execute_def py_execute_parallel_def nativeExecute_def Let_def\<close>)
qed

theorem binding_sessions_count_rows_witness:
  "\<exists>eng s1 s2 s3 s4 s5 s6 f0 c root.
    PyApexEngine_new True True None None (replicate 128 (replicate 64 0)) c_api_init = (eng, s1) \<and>
    py_register_schema eng (Some ''T'') [Some (''Field0'', 0, 64, 0)] 8 s1 = Some (Inr (), s2) \<and>
    py_builder_load True ''Field0'' s2 = (Inr f0, s3) \<and> py_builder_const True 10 s3 = (Inr c, s4) \<and>
    py_builder_gt True f0 c s4 = (Inr root, s5) \<and>
    py_set_logic ex_platform eng (Some ''T'') root 0 s5 = Some (Inr (), s6) \<and>
    map_option fst (py_execute ex_platform eng [11, 0, 0, 0, 0, 0, 0, 0, 5, 0, 0, 0, 0, 0, 0, 0] 2 s6) = Some 1 \<and>
    map_option fst (nativeExecute ex_platform (pe_handle eng) (Some [11, 0, 0, 0, 0, 0, 0, 0, 5, 0, 0, 0, 0, 0, 0, 0]) 2 s6) = Some 1"
proof -
  let ?data = "[11, 0, 0, 0, 0, 0, 0, 0, 5, 0, 0, 0, 0, 0, 0, 0]"
  have k: "length (filter (\<lambda>i. 10 < read64 ?data (i * unat (8 :: u64) + unat (0 :: u64))) [0..<unat (2 :: u64)]) = 1"
    by code_simp
  have c: "c_str ''T'' = ''T''" "c_str ''Field0'' = ''Field0''" by (simp_all add: c_str_def)
  from binding_sessions_count_rows [OF ex_platform_ok, of "''T''" "\<lambda>t. ex_worker" "replicate 128 (replicate 64 0)" "[(''Field0'', 0, 64, 0)]"
      "''Field0''" 0 2 8 ?data None None 10 1]
  show ?thesis using ex_worker_ok unfolding k by (simp add: ex_platform_def c Let_def) blast
qed

text \<open>
  The declared width and type of a field are not looked at: registering it as anything else changes neither
  the rows read nor the comparison, so a 32-bit field is compared together with the four bytes after it.
\<close>

lemma width_and_type_ignored:
  "gather_field data base (f\<lparr>fd_bit_width := w, fd_type := t\<rparr>) stride n = gather_field data base f stride n"
  "row_field [sn \<mapsto> [k \<mapsto> f\<lparr>fd_bit_width := 32, fd_type := UINT32\<rparr>]] sn data stride i k =
     read64 data (i * stride + unat (fd_offset f))"
  by (simp_all add: gather_field_def row_field_def get_field_def)

section \<open>Errors\<close>

text \<open>
  An exception of the Python functions leaves every engine as it was; it is raised for an item that does not
  cast, an empty field list, a null name, or an engine that could not be created.
\<close>

lemma py_register_error:
  assumes "py_register_schema eng name items stride s = Some (Inl x, s')"
  shows "s' = s \<and> (None \<in> set items \<or> items = [] \<or> name = None \<or> pe_handle eng = None)"
  using assms
  by (auto simp: py_register_schema_def py_fields_exact checked_def apex_register_schema_def vector_data_def split: if_splits option.splits)

lemma py_set_logic_error:
  assumes "py_set_logic pf eng name root mode s = Some (Inl x, s')"
  shows "s' = s \<and> (name = None \<or> pe_handle eng = None)"
  using assms by (auto simp: py_set_logic_def checked_def apex_set_logic_def split: if_splits option.splits)

text \<open>The copy of a batch result never reads past the vector.\<close>

lemma fold_update_length: "length (fold (\<lambda>r xs. xs[f r := g r]) rs xs) = length xs"
  by (rule length_fold) simp

lemma vector_chunk_length: "length (fst (vector_chunk pf data stride n el c st)) = length (fst st)"
  by (cases st) (simp add: vector_chunk_def Let_def fold_update_length split: prod.split)

lemma vector_chunks_length: "length (fst (fold (vector_chunk pf data stride n el) cs st)) = length (fst st)"
  by (induction cs arbitrary: st) (simp_all add: vector_chunk_length)

lemma execute_vector_length:
  assumes "execute_vector pf data n e = Some (rs, e')"
  shows "length rs = n"
proof -
  have "rs = replicate n Zero_dbl \<or> (\<exists>el stride. rs = fst (fold (vector_chunk pf data stride n el) [0..<num_chunks n] (replicate n Zero_dbl, field_buffers e)))"
    using assms unfolding execute_vector_def Let_def
    by (auto split: if_splits option.splits prod.splits) (metis fst_conv)+
  then show ?thesis by (auto simp: vector_chunks_length)
qed

lemma py_execute_batch_safe:
  assumes "live_engine eng s = Some (h, e)"
  shows "py_execute_batch pf eng b n s =
    map_option (\<lambda>(preds, e). (preds, s\<lparr>ca_engines := (ca_engines s)(h \<mapsto> e)\<rparr>)) (execute_vector pf b n e)"
  using assms by (auto simp: py_execute_batch_def dest: execute_vector_length split: option.split)

end
