(* ===== verification/Metal_Buffer.thy ===== *)
theory Metal_Buffer
  imports Gpu_Engine
begin

text \<open>
  The buffers of the GPU backend (\<open>create_buffer_from_shm\<close> and \<open>free_buffer\<close> of \<open>src/gpu/metal_device.mm\<close>). An
  aligned pointer is mapped without a copy; any other is copied to an aligned block that the buffer owns. The
  memory is a function from addresses, with the set of blocks allocated for copies.

  Shown: a buffer has the bytes at the pointer; a mapped one follows later writes and a copy does not; a
  failure leaves no block behind, and neither does a buffer that is created and freed.
\<close>

record metal_buffer =
  mb_addr :: nat
  mb_size :: nat
  mb_owned :: bool

record metal_heap =
  mh_mem :: "nat \<Rightarrow> u8"
  mh_blocks :: "nat set"
  mh_buffers :: "nat \<rightharpoonup> metal_buffer"
  mh_fresh :: nat

text \<open>The outcome of \<open>posix_memalign\<close> (the address, if any) and of \<open>newBufferWithBytesNoCopy\<close>.\<close>

record metal_outcome =
  mo_memalign :: "nat option"
  mo_map_ok :: bool

definition new_buffer :: "metal_buffer \<Rightarrow> metal_heap \<Rightarrow> nat option \<times> metal_heap" where
  "new_buffer b h = (Some (mh_fresh h), h\<lparr>mh_buffers := (mh_buffers h)(mh_fresh h \<mapsto> b), mh_fresh := Suc (mh_fresh h)\<rparr>)"

definition memcpy_block :: "nat \<Rightarrow> nat \<Rightarrow> nat \<Rightarrow> (nat \<Rightarrow> u8) \<Rightarrow> nat \<Rightarrow> u8" where
  "memcpy_block dst src len m = (\<lambda>a. if dst \<le> a \<and> a < dst + len then m (src + (a - dst)) else m a)"

definition create_buffer_from_shm :: "metal_outcome \<Rightarrow> bool \<Rightarrow> nat \<Rightarrow> nat \<Rightarrow> metal_heap \<Rightarrow> nat option \<times> metal_heap" where
  "create_buffer_from_shm out initialized ptr len h =
     (if \<not> initialized \<or> ptr = 0 \<or> len = 0 then (None, h)
      else if ptr mod 4096 = 0
      then if \<not> mo_map_ok out then (None, h) else new_buffer \<lparr>mb_addr = ptr, mb_size = len, mb_owned = False\<rparr> h
      else case mo_memalign out of None \<Rightarrow> (None, h)
      | Some aligned_ptr \<Rightarrow>
          let h' = h\<lparr>mh_mem := memcpy_block aligned_ptr ptr len (mh_mem h), mh_blocks := insert aligned_ptr (mh_blocks h)\<rparr> in
          if \<not> mo_map_ok out then (None, h'\<lparr>mh_blocks := mh_blocks h' - {aligned_ptr}\<rparr>)
          else new_buffer \<lparr>mb_addr = aligned_ptr, mb_size = len, mb_owned = True\<rparr> h')"

text \<open>Freeing releases the last reference; the deallocator of a copy frees its block. A pointer that is no
  buffer is undefined.\<close>

definition free_buffer :: "nat option \<Rightarrow> metal_heap \<Rightarrow> metal_heap option" where
  "free_buffer p h =
     (case p of None \<Rightarrow> Some h
      | Some i \<Rightarrow>
          (case mh_buffers h i of None \<Rightarrow> None
           | Some b \<Rightarrow> Some (h\<lparr>mh_buffers := (mh_buffers h)(i := None),
                             mh_blocks := (if mb_owned b then mh_blocks h - {mb_addr b} else mh_blocks h)\<rparr>)))"

section \<open>Contents\<close>

definition bytes_at :: "nat \<Rightarrow> nat \<Rightarrow> (nat \<Rightarrow> u8) \<Rightarrow> u8 list" where
  "bytes_at a len m = map m [a..<a + len]"

definition buffer_bytes :: "nat \<Rightarrow> metal_heap \<Rightarrow> u8 list option" where
  "buffer_bytes i h = map_option (\<lambda>b. bytes_at (mb_addr b) (mb_size b) (mh_mem h)) (mh_buffers h i)"

lemma bytes_at_memcpy: "bytes_at dst len (memcpy_block dst src len m) = bytes_at src len m"
  by (auto simp: bytes_at_def memcpy_block_def list_eq_iff_nth_eq)

lemma buffer_has_bytes:
  assumes "create_buffer_from_shm out ini ptr len h = (Some i, h')"
  shows "buffer_bytes i h' = Some (bytes_at ptr len (mh_mem h))"
  using assms
  by (auto simp: create_buffer_from_shm_def new_buffer_def buffer_bytes_def bytes_at_memcpy Let_def split: if_splits option.splits)

text \<open>A write to the original is seen through a mapped buffer; a copy keeps its bytes, the block being apart.\<close>

lemma mapped_buffer_follows:
  assumes "create_buffer_from_shm out ini ptr len h = (Some i, h')" and "ptr mod 4096 = 0"
  shows "buffer_bytes i (h'\<lparr>mh_mem := m\<rparr>) = Some (bytes_at ptr len m)"
  using assms by (auto simp: create_buffer_from_shm_def new_buffer_def buffer_bytes_def split: if_splits)

lemma copied_buffer_keeps:
  assumes "create_buffer_from_shm out ini ptr len h = (Some i, h')" and "ptr mod 4096 \<noteq> 0" and "mo_memalign out = Some a"
    and "\<forall>x. a \<le> x \<and> x < a + len \<longrightarrow> m x = mh_mem h' x"
  shows "buffer_bytes i (h'\<lparr>mh_mem := m\<rparr>) = Some (bytes_at ptr len (mh_mem h))"
proof -
  have "mh_buffers h' i = Some \<lparr>mb_addr = a, mb_size = len, mb_owned = True\<rparr>"
    using assms(1-3) by (auto simp: create_buffer_from_shm_def new_buffer_def Let_def split: if_splits)
  moreover have "bytes_at a len m = bytes_at a len (mh_mem h')" using assms(4) by (auto simp: bytes_at_def)
  ultimately show ?thesis using buffer_has_bytes [OF assms(1)] by (simp add: buffer_bytes_def)
qed

section \<open>No block is lost\<close>

lemma failed_buffer_no_leak:
  assumes "create_buffer_from_shm out ini ptr len h = (None, h')" and "\<forall>a. mo_memalign out = Some a \<longrightarrow> a \<notin> mh_blocks h"
  shows "mh_blocks h' = mh_blocks h \<and> mh_buffers h' = mh_buffers h"
  using assms by (auto simp: create_buffer_from_shm_def new_buffer_def Let_def split: if_splits option.splits)

lemma create_free_no_leak:
  assumes "create_buffer_from_shm out ini ptr len h = (Some i, h')" and "\<forall>a. mo_memalign out = Some a \<longrightarrow> a \<notin> mh_blocks h"
    and "mh_buffers h (mh_fresh h) = None"
  shows "map_option (\<lambda>h. (mh_blocks h, mh_buffers h)) (free_buffer (Some i) h') = Some (mh_blocks h, mh_buffers h)"
  using assms by (auto simp: create_buffer_from_shm_def new_buffer_def free_buffer_def Let_def split: if_splits option.splits)

end
