(* ===== verification/Spec2Isabelle.thy ===== *)
theory Spec2Isabelle
  imports Vm_Config Guest_Tracer Bloom Cars Sha256 Bit_Slicer Jit_Comparison Jit_Kernel Parallel_Correct Daemon_Jit Dep_Graph Binary_Manifest Vm_Pool Warm_Pool Terminal_Monitor Reputation Bitwise_Policy File_Oracle Http_Cache Gpu_Engine Circuit_Library Host_Guard Host_Files Bindings Metal_Buffer
begin

text \<open>
  AarchGate: a verification development of the sandbox for package installs and of the compute engine it
  uses. An untrusted package script runs in a Linux micro-VM; eBPF programs in the guest
  (\<open>src/guest\<close>) report its system calls over a socket; the host daemon (\<open>src/host\<close>) classifies them with a
  process tree, compiles the policy with its own just-in-time compiler (\<open>src/jit\<close>, \<open>src/api\<close>,
  \<open>src/compute\<close>), and stops the machine at the first violation. Around it are the components that make
  repeated installs fast: lockfile scanner, dependency graph, manifests, content-addressable store.

  \<^bold>\<open>Conventions.\<close> A class is a record of its members, an operation a function from the old to the new
  state. Integers of a fixed width are words, so overflow wraps as in the code. A result \<open>None\<close> of an
  operation means that the code has undefined behaviour there (an access out of bounds, a dereferenced null
  pointer); failure the code reports is a value (\<open>False\<close>, an error datatype, an option field). Unordered
  maps are association lists in their iteration order, and nothing is assumed about that order (in the difference
  of packed manifests it is the order of insertion). Threads
  are interleavings of the steps of an inductive relation, one step per critical section or atomic access;
  condition variables are explicit sleeping states. Clocks, files, digests of the platform
  (CommonCrypto), kernel services and the outcome of framework calls are arguments.

  \<^bold>\<open>Theories.\<close>

  \<^item> \<open>AG_Prelude\<close>: types, string searching, decimal numbers, lines of a file, loops that may fail;
    \<open>Byte_Codec\<close>: little-endian images and the locale \<open>record_codec\<close> for streams of fixed-size records,
    interpreted by the socket protocol and by the packed manifest.
  \<^item> \<open>Telemetry\<close> (\<open>common/monitor_protocol.h\<close>, \<open>common/vsock_protocol.h\<close>): event structures and the
    shared-memory ring, with the reservation of a slot and the store into it as separate steps. A monitor that keeps up
    reads exactly the published history; what it reads when it does not, and between a reservation and its store.
  \<^item> \<open>Guest_Tracer\<close> (\<open>src/guest/tracer.bpf.c\<close>, \<open>agent.cpp\<close>, the reader thread of
    \<open>src/host/vm_controller.mm\<close>): from the system call to the decoded event. Every event the agent sent
    arrives, for every way the byte stream is cut; connects of untrusted processes become violations as
    long as the kernel's ring buffer has room, DNS queries if the kernel helper can read the family.
  \<^item> \<open>Policy_Engine\<close> (\<open>src/host/policy_engine.cpp\<close>): process tree, taint, classification, counters,
    report, script scan. Exact characterisation of violations (every connect of an untrusted process is one); taint is
    inherited along every chain of forks and execs whose processes are not reported again, and the case where it is lost. \<open>Policy_Jit\<close>: the schema and the expression the
    engine compiles, and that the compiled batch check counts exactly the records the event loop
    classified as violations.
  \<^item> \<open>Daemon\<close>, \<open>Daemon_Jit\<close> (\<open>src/host/main.cpp\<close>), \<open>Vm_Controller\<close> (\<open>vm_controller.mm\<close>),
    \<open>Audit_Log\<close> (\<open>audit_log.cpp\<close>): the daemon as a step relation over events, batches, detached stop
    threads, signals and the main thread. The kill switch stops the machine in every interleaving; the
    batch worker, whose requirement on the policy engine is the locale \<open>batch_policy\<close>, fires exactly on
    violations; one audit line per call, and how unescaped strings forge records.
  \<^item> \<open>Jit_IR\<close> (\<open>include/apex/jit/ir.hpp\<close>, \<open>src/jit/jit.cpp\<close>): expression nodes and builders, and the value
    of a node on a row; a built graph denotes the expression that was built. \<open>A64\<close>: the instructions the compiler
    emits, and which offsets of a load or store can be encoded. \<open>Jit_Comparison\<close>, \<open>Jit_Compiler\<close>,
    \<open>Jit_Scalar\<close> (\<open>src/jit/compiler.cpp\<close>): the three compilers with slot allocation, register cache,
    prologue and epilogue. \<open>Bit_Planes\<close>, \<open>Jit_Cache\<close>, \<open>Jit_Loops\<close>, \<open>Jit_Emit\<close>, \<open>Jit_Analysis\<close>,
    \<open>Jit_Correct\<close>, \<open>Jit_Kernel\<close>, \<open>Jit_Call\<close>, \<open>Jit_Total\<close>: compiler correctness, from one instruction
    sequence to the call of the kernel through the C calling convention. The mask a kernel returns is the
    set of rows on which the expression is true; callee-saved registers and foreign memory are untouched. The
    results are for boolean expressions over the node kinds of \<open>jit_ok\<close> (loads, constants, ADD, comparisons, AND, OR,
    NOT, SELECT) and \<open>scalar_ok\<close> (with SUB, without NOT); SUB is shown to be wrong on rows 1 to 63.
  \<^item> \<open>Bit_Slicer\<close> (\<open>src/compute/bit_slicer.cpp\<close>): the 64 by 64 bit transposition for every vector width.
  \<^item> \<open>Apex_Engine\<close>, \<open>Apex_Native\<close>, \<open>Apex_Correct\<close> (\<open>src/api/engine.cpp\<close>, \<open>src/core/registry.cpp\<close>):
    schemas, installation of expressions, and the execution paths. \<open>Thread_Pool\<close>, \<open>Parallel_Runner\<close>,
    \<open>Parallel_Correct\<close> (\<open>src/compute/parallel_runner.cpp\<close>): the pool terminates without deadlock or lost
    wake-up, and the execution paths agree with the rows on which such an expression is true. Fields are the
    64-bit words at their offsets, as in the code, whatever width and type were registered; a call whose rows do not
    lie within the caller's array has no result (\<open>rows_readable\<close>).
  \<^item> \<open>Bloom\<close>, \<open>Cars\<close> (\<open>bloom_filter.cpp\<close>, \<open>cars.cpp\<close>): the store refines a plain map; \<open>Sha256\<close>
    (\<open>common/crypto.h\<close>): streaming equals one-shot hashing, HMAC, and the missing round constants.
  \<^item> \<open>Integrity_Verifier\<close> (\<open>integrity_verifier.cpp\<close>): base64 is injective, verification is exact and
    independent of the schedule, the scanner recovers the packages of lockfiles with one member per line and
    the version before the digest. \<open>Install_Manifest\<close>
    (\<open>install_manifest.cpp\<close>): save and load, exact differences, convergence of installs.
    \<open>Binary_Manifest\<close> (\<open>binary_manifest.cpp\<close>): the packed format and its refinement of the text manifest.
    \<open>Dep_Graph\<close> (\<open>dep_graph.cpp\<close>): the install order is complete for every graph, respects acyclic
    dependencies, and is split among the machines.
  \<^item> \<open>Vm_Pool\<close> (\<open>vm_pool.cpp\<close>): the parallel install as a step relation. It never runs more machines than
    allowed, always ends, reports only packages of the graph, and each of them exactly once if the machines boot.
  \<^item> \<open>Warm_Pool\<close> (\<open>vm_snapshot_pool.cpp\<close>): the pool of pre-booted machines as a step relation of its
    replenisher, its callers and its destructor. No machine is ever in two hands; the pool keeps within its size; two lost
    notifications (a destructor that waits for ever, a replenisher that sleeps beside an empty pool) are exhibited.
  \<^item> \<open>Terminal_Monitor\<close> (\<open>monitor.cpp\<close>): event model, process tree, dashboard decisions and keyboard of the
    terminal monitor, and the monitor together with the daemon, the halves of every publication and the pops
    interleaved: unless it is lapped or pops between the halves, its violation count becomes the policy
    engine's. Drawing ends, and protection is switched off only on request.
  \<^item> \<open>Reputation\<close> (\<open>reputation_scorer.cpp\<close>): scores, verdicts and the hot-path decision, spelt out completely.
  \<^item> \<open>Bitwise_Policy\<close> (\<open>bitwise_policy.cpp\<close>): capability masks; the vector evaluation is the scalar one; unknown
    events are allowed by every rule.
  \<^item> \<open>File_Oracle\<close> (\<open>file_oracle.cpp\<close>): access traces and their file format; round trip and truncated files.
  \<^item> \<open>Http_Cache\<close> (\<open>http_cache.cpp\<close>): lookup, expiry, eviction and the files; a restart loses nothing that was
    written but fractions of a second of the expiry, for responses stored under their own URL.
  \<^item> \<open>Gpu_Scan\<close>, \<open>Gpu_Kernel\<close>, \<open>Gpu_Engine\<close> (\<open>generate_msl_source\<close> and the GPU branches in
    \<open>src/api/engine.cpp\<close>, \<open>src/gpu/metal_device.mm\<close>): the generated Metal kernel as a list of statements, its run on
    a threadgroup of 64 threads, and the dispatch of a batch. What a shuffle delivers from a lane that is not
    active is a parameter: the prefix scan adds on all bits but 1 and 33, and on these exactly if the carries are
    delivered. The reduction sums, and a weighted sum without inner additions gives the scores of all rows of the
    dispatched blocks; the subtraction, the rows of a partial block, predicates and stale pipelines are shown to
    differ from the other modes.
  \<^item> \<open>Circuit_Library\<close> (\<open>src/jit/circuit_library.cpp\<close>): the circuit emitters over chosen registers; comparison
    and addition on all rows, carry-save adder, population count, and the empty multiplier.
  \<^item> \<open>Host_Guard\<close> (\<open>esf_manager.cpp\<close>, \<open>egress_firewall.cpp\<close>, \<open>keychain_manager.mm\<close>): the Endpoint Security
    client over its life, with every call into the framework failing or not, the firewall rules and their file,
    keychain access. \<open>Host_Files\<close>
    (\<open>parallel_extractor.cpp\<close>, \<open>fsevent_watcher.mm\<close>): extraction through the shell, in any order, and the
    watcher's event stream.
  \<^item> \<open>C_Api\<close> (\<open>src/api/aarchgate_c_api.cpp\<close>, \<open>include/apex/memory/data_viewer.hpp\<close>): engines behind handles and
    the global node pool; null arguments, and a failed compilation reported as success. \<open>Bindings\<close>
    (\<open>bindings/java/aarchgate_jni.cpp\<close>, \<open>bindings/python/aarchgate_pybind.cpp\<close>): sessions of the Python and Java
    bindings count the rows of the caller's buffer, through the whole stack down to the compiled kernel.
  \<^item> \<open>Metal_Buffer\<close> (\<open>src/gpu/metal_device.mm\<close>): mapped and copied buffers, their contents, and that no block is
    lost. \<open>Vm_Config\<close> (\<open>src/host/vm_controller.mm\<close>): the machine that is asked for, and what it can reach.
  \<^bold>\<open>Fuel and bounds.\<close> The traversal of the dependency graph has fuel one more than the number of packages,
  which bounds the depth because the stack never repeats a key; the collection of fields and the analysis
  of expressions have fuel one more than the number of nodes, enough because the builders only refer to
  older nodes. Both are shown to succeed with that fuel. Loops of emitted code run on the model of the
  processor with the number of iterations the code counts.

  \<^bold>\<open>Not modelled.\<close> The behaviour of Virtualization.framework, Metal, CommonCrypto and the kernel is that of
  other systems; the fixed texts and escape sequences of the terminal dashboard and the debug dump of the compiler are
  output only; \<open>shm_fabric.hpp\<close> is one call of the iceoryx library; the Java class and benchmarks, examples and
  tests are not part of the program; \<open>external/\<close> and \<open>vmlinux.h\<close> are third-party or generated.
\<close>

end
